(* ===== verification/C_Prelude.thy ===== *)
theory C_Prelude
  imports Main "HOL-Library.Word" "HOL-Library.Signed_Division"
begin

unbundle bit_operations_syntax

text \<open>
  Shared vocabulary of the development: the machine types of the C sources, the faults a C
  operation can run into, the result type of code that may fault, the counting loop
  \<open>for (i = lo; i < hi; i++)\<close> with its invariant rule, C strings as byte lists, and the
  collections of simplification rules the component theories add to.
\<close>

section \<open>Machine types\<close>

type_synonym u8 = "8 word"
type_synonym u16 = "16 word"
type_synonym u32 = "32 word"

lemma uint_of_nat_u8 [simp]: "n < 256 \<Longrightarrow> uint (of_nat n :: u8) = int n"
  by (simp add: uint_nat unat_of_nat)

lemma uint_of_nat_u16 [simp]: "n < 65536 \<Longrightarrow> uint (of_nat n :: u16) = int n"
  by (simp add: uint_nat unat_of_nat)

lemma unat_u8_lt: "unat (n :: u8) < 256"
proof -
  have "unat n < 2 ^ LENGTH(8)" by (rule unsigned_less)
  then show ?thesis by simp
qed

section \<open>Faults and results\<close>

text \<open>
  A failed \<open>g_assert\<close> aborts the process, and so does \<open>fatal\<close>; an access outside an object or to an
  uninitialised one, and an \<open>int\<close> operation whose value does not fit, are undefined behaviour.
  All are results of their own in the models, never a silent default.
\<close>

datatype c_fault = Assert_Failed | Out_Of_Bounds | Uninitialised | Signed_Overflow | Fatal

type_synonym 'a c_result = "c_fault + 'a"

definition c_bind :: "'a c_result \<Rightarrow> ('a \<Rightarrow> 'b c_result) \<Rightarrow> 'b c_result" where
  "c_bind r f = (case r of Inl e \<Rightarrow> Inl e | Inr x \<Rightarrow> f x)"

definition c_ok :: "'a c_result \<Rightarrow> bool" where
  "c_ok r \<longleftrightarrow> (\<exists>x. r = Inr x)"

named_theorems c_result_simps "evaluation of results that may be faults"
named_theorems lcd_simps "evaluation of the display device"
named_theorems widget_defs "definitions of the display widgets"

lemma c_bind_simps [simp, c_result_simps]:
  "c_bind (Inl e) f = Inl e"
  "c_bind (Inr x) f = f x"
  by (simp_all add: c_bind_def)

lemma c_bind_assoc: "c_bind (c_bind r f) g = c_bind r (\<lambda>x. c_bind (f x) g)"
  by (cases r) simp_all

lemma c_bind_InrE:
  assumes "c_bind r f = Inr y"
  obtains x where "r = Inr x" "f x = Inr y"
  using assms by (cases r) auto

lemma c_bind_Inr: "c_bind r f = Inr y \<longleftrightarrow> (\<exists>x. r = Inr x \<and> f x = Inr y)"
  by (cases r) auto

lemma c_ok_simps [simp, c_result_simps]: "c_ok (Inr x)" "\<not> c_ok (Inl e)"
  by (simp_all add: c_ok_def)

section \<open>The counting loop\<close>

text \<open>
  \<open>for_loop i n body s\<close> is \<open>for (; i < n; i++) body\<close> over the state \<open>s\<close>, for a body that
  does not assign the counter; a fault in the body stops the loop.
\<close>

function for_loop :: "int \<Rightarrow> int \<Rightarrow> (int \<Rightarrow> 's \<Rightarrow> 's c_result) \<Rightarrow> 's \<Rightarrow> 's c_result" where
  "for_loop i n body s =
     (if i < n then c_bind (body i s) (\<lambda>s'. for_loop (i + 1) n body s') else Inr s)"
  by pat_completeness auto
termination
  by (relation "measure (\<lambda>(i, n, _, _). nat (n - i))") auto

declare for_loop.simps [simp del]

lemma for_loop_done [simp]: "n \<le> i \<Longrightarrow> for_loop i n body s = Inr s"
  by (subst for_loop.simps) simp

lemma for_loop_step:
  "i < n \<Longrightarrow> for_loop i n body s = c_bind (body i s) (for_loop (i + 1) n body)"
  by (subst for_loop.simps) simp

text \<open>The invariant rule: total correctness of a loop whose body never faults.\<close>

lemma for_loop_inv:
  assumes "i \<le> n" and "I i s"
    and body: "\<And>j t. i \<le> j \<Longrightarrow> j < n \<Longrightarrow> I j t \<Longrightarrow> \<exists>t'. body j t = Inr t' \<and> I (j + 1) t'"
  shows "\<exists>s'. for_loop i n body s = Inr s' \<and> I n s'"
  using assms
proof (induction "nat (n - i)" arbitrary: i s)
  case 0
  then have "i = n" by simp
  with 0 show ?case by simp
next
  case (Suc k)
  then have "i < n" by simp
  with Suc.prems obtain s1 where s1: "body i s = Inr s1" and "I (i + 1) s1"
    by blast
  moreover have "\<exists>s'. for_loop (i + 1) n body s1 = Inr s' \<and> I n s'"
  proof (rule Suc.hyps(1))
    show "k = nat (n - (i + 1))" using Suc.hyps(2) by simp
    show "i + 1 \<le> n" using \<open>i < n\<close> by simp
    show "I (i + 1) s1" by fact
    show "\<And>j t. i + 1 \<le> j \<Longrightarrow> j < n \<Longrightarrow> I j t \<Longrightarrow> \<exists>t'. body j t = Inr t' \<and> I (j + 1) t'"
      using Suc.prems(3) by simp
  qed
  ultimately show ?case using \<open>i < n\<close> by (simp add: for_loop_step)
qed

text \<open>What the body keeps, the loop keeps.\<close>

lemma for_loop_preserve:
  assumes "for_loop i n body s = Inr s'" "P s"
    and "\<And>j t t'. body j t = Inr t' \<Longrightarrow> P t \<Longrightarrow> P t'"
  shows "P s'"
  using assms
proof (induction "nat (n - i)" arbitrary: i s)
  case 0
  then show ?case by simp
next
  case (Suc k)
  then have "i < n" by simp
  then obtain s1 where "body i s = Inr s1" "for_loop (i + 1) n body s1 = Inr s'"
    using Suc.prems(1) by (auto simp: for_loop_step elim!: c_bind_InrE)
  then show ?case using Suc.hyps(1) [of "i + 1" s1] Suc.hyps(2) Suc.prems(2,3) by auto
qed

section \<open>C strings\<close>

text \<open>
  A C string is the list of its bytes before the terminating NUL. String literals of the
  sources are written as HOL strings and converted with \<open>cstr\<close>.
\<close>

definition cstr :: "string \<Rightarrow> u8 list" where
  "cstr s = map of_char s"

lemma length_cstr [simp]: "length (cstr s) = length s"
  by (simp add: cstr_def)

lemma cstr_append: "cstr (s @ t) = cstr s @ cstr t"
  by (simp add: cstr_def)

lemma cstr_simps [simp]: "cstr [] = []" "cstr (c # cs) = of_char c # cstr cs"
  by (simp_all add: cstr_def)

section \<open>Lists updated by an integer index\<close>

text \<open>An array access with its bounds check: outside the object is a fault.\<close>

definition arr_get :: "'a list \<Rightarrow> int \<Rightarrow> 'a c_result" where
  "arr_get xs i = (if 0 \<le> i \<and> i < int (length xs) then Inr (xs ! nat i) else Inl Out_Of_Bounds)"

definition arr_set :: "'a list \<Rightarrow> int \<Rightarrow> 'a \<Rightarrow> 'a list c_result" where
  "arr_set xs i x =
     (if 0 \<le> i \<and> i < int (length xs) then Inr (xs[nat i := x]) else Inl Out_Of_Bounds)"

lemma arr_get_in [simp]: "0 \<le> i \<Longrightarrow> i < int (length xs) \<Longrightarrow> arr_get xs i = Inr (xs ! nat i)"
  by (simp add: arr_get_def)

lemma arr_set_in [simp]:
  "0 \<le> i \<Longrightarrow> i < int (length xs) \<Longrightarrow> arr_set xs i x = Inr (xs[nat i := x])"
  by (simp add: arr_set_def)

lemma arr_set_Inr: "arr_set xs i x = Inr ys \<longleftrightarrow> 0 \<le> i \<and> i < int (length xs) \<and> ys = xs[nat i := x]"
  by (auto simp: arr_set_def)

lemma arr_get_Inr: "arr_get xs i = Inr x \<longleftrightarrow> 0 \<le> i \<and> i < int (length xs) \<and> x = xs ! nat i"
  by (auto simp: arr_get_def)

end
