(* ===== verification/Lcd_Driver.thy ===== *)
theory Lcd_Driver
  imports C_Prelude
begin

text \<open>
  The interface between the display widgets of \<open>lcd_utils.c\<close> and a display: the five low-level
  calls, an abstract text screen of two lines of sixteen cells that says what each call must
  do, and the locale \<open>lcd_driver\<close> of the devices that implement it. The two simulators,
  \<open>main_glade_lcd_4_20.c\<close> and \<open>main_glade_lcd3.c\<close>, are its instances.
\<close>

section \<open>The low-level calls\<close>

text \<open>
  What \<open>lcd_utils.c\<close> calls: \<open>Lcd_SetDDRAM\<close>, \<open>Lcd_TransmitStr\<close>, \<open>Lcd_senddata\<close>,
  \<open>Lcd_Command\<close> and \<open>Lcd_SetCGRAM\<close>. The widgets only write to the display, so a widget is
  modelled by the list of calls it makes, in order.
\<close>

datatype lcd_call =
    SetDDRAM u8
  | TransmitStr "u8 list"
  | Senddata u8
  | Command u8
  | SetCGRAM u8

text \<open>Command codes, \<open>lcd_utils.c\<close> lines 18--25.\<close>

abbreviation (input) CLEAR :: u8 where "CLEAR \<equiv> 0"
abbreviation (input) RET_HOME :: u8 where "RET_HOME \<equiv> 1"
abbreviation (input) DISPLAY_ON :: u8 where "DISPLAY_ON \<equiv> 2"
abbreviation (input) DISPLAY_OFF :: u8 where "DISPLAY_OFF \<equiv> 3"
abbreviation (input) CURSOR_ON :: u8 where "CURSOR_ON \<equiv> 4"
abbreviation (input) CURSOR_OFF :: u8 where "CURSOR_OFF \<equiv> 5"
abbreviation (input) BLINK_ON :: u8 where "BLINK_ON \<equiv> 6"
abbreviation (input) BLINK_OFF :: u8 where "BLINK_OFF \<equiv> 7"

text \<open>
  The characters the devices draw: \<open>(*line >= 32) && (*line < (LAST_SYMBOL_IN_CGROM + 32))\<close>.
  \<open>char\<close> is signed on the target, so the comparison is on the signed value.
\<close>

definition LAST_SYMBOL_IN_CGROM :: int where
  "LAST_SYMBOL_IN_CGROM = 95"

definition printable :: "u8 \<Rightarrow> bool" where
  "printable b \<longleftrightarrow> 32 \<le> sint b \<and> sint b < LAST_SYMBOL_IN_CGROM + 32"

lemma printable_uint: "printable b \<longleftrightarrow> 32 \<le> uint b \<and> uint b < 127"
proof -
  have s: "sint b = (uint b + 128) mod 256 - 128"
    by (simp add: sint_uint signed_take_bit_eq_take_bit_shift take_bit_eq_mod)
  have u: "0 \<le> uint b" "uint b < 256"
    using uint_bounded [of b] by simp_all
  show ?thesis
  proof (cases "uint b < 128")
    case True
    then have "sint b = uint b" using s u by simp
    then show ?thesis by (simp add: printable_def LAST_SYMBOL_IN_CGROM_def)
  next
    case False
    have "uint b + 128 = uint b - 128 + 256" by simp
    then have "(uint b + 128) mod 256 = (uint b - 128 + 256) mod 256" by (rule arg_cong)
    also have "\<dots> = uint b - 128" using False u by (subst mod_add_self2) simp
    finally have "sint b < 0" using s u by simp
    then show ?thesis using False by (simp add: printable_def)
  qed
qed

lemma printable_nonzero: "printable b \<Longrightarrow> b \<noteq> 0"
  by (auto simp: printable_def)

section \<open>The abstract text screen\<close>

text \<open>
  What an operator sees: a current position, the characters of two lines of sixteen cells, and
  whether the blinking cursor is on. Cells outside the two lines read as 0.
\<close>

record text_screen =
  ts_line :: int
  ts_col :: int
  ts_cell :: "int \<Rightarrow> int \<Rightarrow> u8"
  ts_cursor :: bool
  ts_blink :: bool

definition on_screen :: "int \<Rightarrow> int \<Rightarrow> bool" where
  "on_screen l c \<longleftrightarrow> (l = 0 \<or> l = 1) \<and> 0 \<le> c \<and> c < 16"

definition write_cell :: "(int \<Rightarrow> int \<Rightarrow> u8) \<Rightarrow> int \<Rightarrow> int \<Rightarrow> u8 \<Rightarrow> int \<Rightarrow> int \<Rightarrow> u8" where
  "write_cell cells l c b = (\<lambda>l' c'. if l' = l \<and> c' = c \<and> on_screen l c then b else cells l' c')"

text \<open>Writing one character at the current position and moving right.\<close>

definition put_char :: "u8 \<Rightarrow> text_screen \<Rightarrow> text_screen" where
  "put_char b s = s\<lparr>ts_cell := (if printable b then write_cell (ts_cell s) (ts_line s) (ts_col s) b
                                else ts_cell s), ts_col := ts_col s + 1\<rparr>"

definition set_pos :: "u8 \<Rightarrow> text_screen \<Rightarrow> text_screen" where
  "set_pos a s =
     (if uint a < 16 then s\<lparr>ts_line := 0, ts_col := uint a\<rparr>
      else if 64 \<le> uint a \<and> uint a < 80 then s\<lparr>ts_line := 1, ts_col := uint a - 64\<rparr>
      else s)"

definition screen_command :: "u8 \<Rightarrow> text_screen \<Rightarrow> text_screen" where
  "screen_command c s =
     (if c = CLEAR then s\<lparr>ts_line := 0, ts_col := 0, ts_cell := \<lambda>_ _. 0\<rparr>
      else if c = RET_HOME then s\<lparr>ts_line := 0, ts_col := 0\<rparr>
      else if c = DISPLAY_OFF
        then s\<lparr>ts_line := 0, ts_col := 0, ts_cell := \<lambda>_ _. 0, ts_cursor := False, ts_blink := False\<rparr>
      else if c = CURSOR_ON then s\<lparr>ts_cursor := True\<rparr>
      else if c = CURSOR_OFF then s\<lparr>ts_cursor := False\<rparr>
      else if c = BLINK_ON then s\<lparr>ts_blink := True\<rparr>
      else if c = BLINK_OFF then s\<lparr>ts_blink := False\<rparr>
      else s)"

fun screen_call :: "lcd_call \<Rightarrow> text_screen \<Rightarrow> text_screen" where
  "screen_call (SetDDRAM a) s = set_pos a s"
| "screen_call (TransmitStr str) s = fold put_char str s"
| "screen_call (Senddata b) s = put_char b s"
| "screen_call (Command c) s = screen_command c s"
| "screen_call (SetCGRAM _) s = s"

definition screen_calls :: "lcd_call list \<Rightarrow> text_screen \<Rightarrow> text_screen" where
  "screen_calls cs s = fold screen_call cs s"

lemma screen_calls_simps [simp]:
  "screen_calls [] s = s"
  "screen_calls (c # cs) s = screen_calls cs (screen_call c s)"
  "screen_calls (cs @ ds) s = screen_calls ds (screen_calls cs s)"
  by (simp_all add: screen_calls_def)

text \<open>
  The calls a client may make: an address on one of the two lines, and text that stays within
  its line. Outside these the devices differ, and the 2x16 one writes out of bounds.
\<close>

fun call_fits :: "text_screen \<Rightarrow> lcd_call \<Rightarrow> bool" where
  "call_fits s (SetDDRAM a) \<longleftrightarrow> uint a < 16 \<or> (64 \<le> uint a \<and> uint a < 80)"
| "call_fits s (TransmitStr str) \<longleftrightarrow>
     (ts_line s = 0 \<or> ts_line s = 1) \<and> 0 \<le> ts_col s \<and> ts_col s + int (length str) \<le> 16 \<and>
     list_all printable str"
| "call_fits s (Senddata b) \<longleftrightarrow> on_screen (ts_line s) (ts_col s)"
| "call_fits s (Command c) \<longleftrightarrow> True"
| "call_fits s (SetCGRAM a) \<longleftrightarrow> True"

fun calls_fit :: "text_screen \<Rightarrow> lcd_call list \<Rightarrow> bool" where
  "calls_fit s [] \<longleftrightarrow> True"
| "calls_fit s (c # cs) \<longleftrightarrow> call_fits s c \<and> calls_fit (screen_call c s) cs"

lemma calls_fit_append [simp]:
  "calls_fit s (cs @ ds) \<longleftrightarrow> calls_fit s cs \<and> calls_fit (screen_calls cs s) ds"
  by (induction cs arbitrary: s) auto

section \<open>What text on the screen looks like\<close>

definition row_text :: "text_screen \<Rightarrow> int \<Rightarrow> u8 list" where
  "row_text s l = map (\<lambda>c. ts_cell s l (int c)) [0..<16]"

lemma put_char_sel [simp]:
  "ts_line (put_char b s) = ts_line s"
  "ts_col (put_char b s) = ts_col s + 1"
  "ts_cursor (put_char b s) = ts_cursor s"
  "ts_blink (put_char b s) = ts_blink s"
  by (simp_all add: put_char_def)

lemma fold_put_char_sel [simp]:
  "ts_line (fold put_char str s) = ts_line s"
  "ts_col (fold put_char str s) = ts_col s + int (length str)"
  "ts_cursor (fold put_char str s) = ts_cursor s"
  "ts_blink (fold put_char str s) = ts_blink s"
  by (induction str arbitrary: s) auto

lemma put_char_cell:
  "printable b \<Longrightarrow> on_screen (ts_line s) (ts_col s) \<Longrightarrow>
     ts_cell (put_char b s) l c = (if l = ts_line s \<and> c = ts_col s then b else ts_cell s l c)"
  by (simp add: put_char_def write_cell_def)

text \<open>Transmitting text that fits changes exactly the cells it covers.\<close>

lemma fold_put_char_cell:
  assumes "list_all printable str" and "ts_line s = 0 \<or> ts_line s = 1"
    and "0 \<le> ts_col s" and "ts_col s + int (length str) \<le> 16"
  shows "ts_cell (fold put_char str s) l c =
    (if l = ts_line s \<and> ts_col s \<le> c \<and> c < ts_col s + int (length str)
     then str ! nat (c - ts_col s) else ts_cell s l c)"
  using assms
proof (induction str arbitrary: s)
  case Nil
  then show ?case by auto
next
  case (Cons b str)
  have on: "on_screen (ts_line s) (ts_col s)"
    using Cons.prems by (auto simp: on_screen_def)
  have IH: "ts_cell (fold put_char str (put_char b s)) l c =
    (if l = ts_line s \<and> ts_col s + 1 \<le> c \<and> c < ts_col s + 1 + int (length str)
     then str ! nat (c - (ts_col s + 1)) else ts_cell (put_char b s) l c)"
    using Cons.prems by (subst Cons.IH) auto
  have nth: "(b # str) ! nat (c - ts_col s) = str ! nat (c - (ts_col s + 1))" if "ts_col s + 1 \<le> c"
  proof -
    from that have "nat (c - ts_col s) = Suc (nat (c - (ts_col s + 1)))" by simp
    then show ?thesis by (simp only: nth_Cons_Suc)
  qed
  show ?case
    using Cons.prems on by (auto simp: IH put_char_cell nth simp del: nth_Cons_pos)
qed

section \<open>The driver interface\<close>

text \<open>
  A device \<open>'d\<close> executes a call or faults; \<open>ready\<close> is its own well-formedness and \<open>screen\<close>
  the text it shows. The law: in a ready device a call that fits does not fault, leaves the
  device ready, and has on the screen the effect of the abstract call.
\<close>

fun exec_calls :: "(lcd_call \<Rightarrow> 'd \<Rightarrow> 'd c_result) \<Rightarrow> lcd_call list \<Rightarrow> 'd \<Rightarrow> 'd c_result" where
  "exec_calls ex [] d = Inr d"
| "exec_calls ex (c # cs) d = c_bind (ex c d) (exec_calls ex cs)"

lemma exec_calls_append:
  "exec_calls ex (cs @ ds) d = c_bind (exec_calls ex cs d) (exec_calls ex ds)"
proof (induction cs arbitrary: d)
  case Nil
  then show ?case by simp
next
  case (Cons c cs)
  then have "exec_calls ex (cs @ ds) = (\<lambda>x. c_bind (exec_calls ex cs x) (exec_calls ex ds))"
    by (simp add: fun_eq_iff)
  then show ?case by (simp add: c_bind_assoc)
qed

locale lcd_driver =
  fixes exec_call :: "lcd_call \<Rightarrow> 'd \<Rightarrow> 'd c_result"
    and ready :: "'d \<Rightarrow> bool"
    and screen :: "'d \<Rightarrow> text_screen"
  assumes exec_call_refines:
    "ready d \<Longrightarrow> call_fits (screen d) c \<Longrightarrow>
       \<exists>d'. exec_call c d = Inr d' \<and> ready d' \<and> screen d' = screen_call c (screen d)"
begin

text \<open>The simulation carries over to whole call sequences.\<close>

lemma exec_calls_refine:
  "ready d \<Longrightarrow> calls_fit (screen d) cs \<Longrightarrow>
     \<exists>d'. exec_calls exec_call cs d = Inr d' \<and> ready d' \<and> screen d' = screen_calls cs (screen d)"
proof (induction cs arbitrary: d)
  case Nil
  then show ?case by simp
next
  case (Cons c cs)
  then obtain d1 where d1: "exec_call c d = Inr d1" "ready d1" "screen d1 = screen_call c (screen d)"
    using exec_call_refines by fastforce
  with Cons.prems Cons.IH [of d1] show ?case by auto
qed

lemma exec_calls_no_fault:
  "ready d \<Longrightarrow> calls_fit (screen d) cs \<Longrightarrow> c_ok (exec_calls exec_call cs d)"
  using exec_calls_refine by (fastforce simp: c_ok_def)

lemma exec_calls_result:
  assumes "ready d" and "calls_fit (screen d) cs" and "exec_calls exec_call cs d = Inr d'"
  shows "ready d' \<and> screen d' = screen_calls cs (screen d)"
  using exec_calls_refine [OF assms(1,2)] assms(3) by auto

text \<open>
  A title screen, a line of text at the start of each line, is shown as given on every device.
\<close>

lemma two_lines_shown:
  assumes "ready d" and "length t1 = 16" "list_all printable t1" "length t2 = 16" "list_all printable t2"
    and "exec_calls exec_call [SetDDRAM 0, TransmitStr t1, SetDDRAM 0x40, TransmitStr t2] d = Inr d'"
  shows "row_text (screen d') 0 = t1 \<and> row_text (screen d') 1 = t2"
proof -
  let ?cs = "[SetDDRAM 0, TransmitStr t1, SetDDRAM 0x40, TransmitStr t2]"
  have "calls_fit (screen d) ?cs"
    using assms by (simp add: set_pos_def)
  then have "screen d' = screen_calls ?cs (screen d)"
    using assms exec_calls_result by blast
  then have "ts_cell (screen d') l c = (if l = 1 \<and> 0 \<le> c \<and> c < 16 then t2 ! nat c
      else if l = 0 \<and> 0 \<le> c \<and> c < 16 then t1 ! nat c else ts_cell (screen d) l c)" for l c
    using assms by (simp add: fold_put_char_cell set_pos_def)
  then show ?thesis
    using assms by (auto simp: row_text_def intro!: nth_equalityI)
qed

end

end
