(* ===== verification/Lcd_Utils.thy ===== *)
theory Lcd_Utils
  imports Lcd_Driver
begin

text \<open>
  The state of \<open>lcd_utils.c\<close> and its widgets that need no switches: the timers, clearing and
  writing a line, the blinking screens, the scrolling line and the big digits. A widget returns its
  answer and the new state; the calls it makes to the display are appended to \<open>lcd_log\<close>.
\<close>

section \<open>Types and state\<close>

datatype sw_actions = selection_none | selection_up | selection_dwn | selection_enter | selection_back

datatype resp = resp_ok | resp_continue | resp_selected | resp_change | resp_change_all_up
  | resp_working | resp_error | resp_need_to_save | resp_finish | resp_save

datatype encoder_show =
  ENCODER_SELECT_LINE1 | ENCODER_SELECT_LINE2 | ENCODER_SELECT_SELECTED | ENCODER_SELECT_SELECTED_1

record lcd_utils =
  blinking_state :: u8
  blinking_how_many :: u8
  show_select_state :: u8
  options_state :: u8
  options_curr_sel :: u8
  change_state :: u8
  change_current_val :: u16
  scroll1_state :: u8
  scroll1_last_window :: u8
  scroll1_current_window :: u8
  scroll1_timer :: u16
  scroll2_state :: u8
  scroll2_last_window :: u8
  scroll2_current_window :: u8
  scroll2_timer :: u16
  show_select_timer :: u16
  blinking_on :: u8
  password_num :: u32
  show_select_change_sw_action :: sw_actions
  encoder_select_state :: encoder_show
  encoder_line_selected :: u8
  display_on_or_off :: u8
  lcd_log :: "lcd_call list"

text \<open>The zeroed globals of the module.\<close>

definition lcd_utils_globals :: lcd_utils where
  "lcd_utils_globals = \<lparr>blinking_state = 0, blinking_how_many = 0, show_select_state = 0,
     options_state = 0, options_curr_sel = 0, change_state = 0, change_current_val = 0,
     scroll1_state = 0, scroll1_last_window = 0, scroll1_current_window = 0, scroll1_timer = 0,
     scroll2_state = 0, scroll2_last_window = 0, scroll2_current_window = 0, scroll2_timer = 0,
     show_select_timer = 0, blinking_on = 0, password_num = 0,
     show_select_change_sw_action = selection_none, encoder_select_state = ENCODER_SELECT_LINE1,
     encoder_line_selected = 0, display_on_or_off = 0, lcd_log = []\<rparr>"

definition emit :: "lcd_call list \<Rightarrow> lcd_utils \<Rightarrow> lcd_utils" where
  "emit cs st = st\<lparr>lcd_log := lcd_log st @ cs\<rparr>"

abbreviation (input) LCD_1ER_RENGLON :: lcd_call where "LCD_1ER_RENGLON \<equiv> SetDDRAM 0x00"
abbreviation (input) LCD_2DO_RENGLON :: lcd_call where "LCD_2DO_RENGLON \<equiv> SetDDRAM 0x40"
abbreviation (input) LINE_LENGTH :: int where "LINE_LENGTH \<equiv> 16"

abbreviation (input) TT_BLINKING_IN_ON :: u16 where "TT_BLINKING_IN_ON \<equiv> 1000"
abbreviation (input) TT_BLINKING_IN_OFF :: u16 where "TT_BLINKING_IN_OFF \<equiv> 600"
abbreviation (input) TT_SHOW_SELECT_IN_ON :: u16 where "TT_SHOW_SELECT_IN_ON \<equiv> 1000"
abbreviation (input) TT_SHOW_SELECT_IN_OFF :: u16 where "TT_SHOW_SELECT_IN_OFF \<equiv> 500"
abbreviation (input) TT_SCROLL :: u16 where "TT_SCROLL \<equiv> 250"

definition s_blank :: "u8 list" where
  "s_blank = cstr ''                ''"

section \<open>Timers and whole lines\<close>

definition LCD_UpdateTimer :: "lcd_utils \<Rightarrow> lcd_utils" where
  "LCD_UpdateTimer st =
     (let st = (if show_select_timer st \<noteq> 0 then st\<lparr>show_select_timer := show_select_timer st - 1\<rparr> else st);
          st = (if scroll1_timer st \<noteq> 0 then st\<lparr>scroll1_timer := scroll1_timer st - 1\<rparr> else st);
          st = (if scroll2_timer st \<noteq> 0 then st\<lparr>scroll2_timer := scroll2_timer st - 1\<rparr> else st)
      in st)"

definition LCD_ClearScreen :: "lcd_utils \<Rightarrow> lcd_utils" where
  "LCD_ClearScreen st =
     emit [LCD_1ER_RENGLON, TransmitStr s_blank, LCD_2DO_RENGLON, TransmitStr s_blank] st"

definition LCD_Writel1 :: "u8 list \<Rightarrow> lcd_utils \<Rightarrow> lcd_utils" where
  "LCD_Writel1 l1 st = emit [LCD_1ER_RENGLON, TransmitStr l1] st"

definition LCD_Writel2 :: "u8 list \<Rightarrow> lcd_utils \<Rightarrow> lcd_utils" where
  "LCD_Writel2 l2 st = emit [LCD_2DO_RENGLON, TransmitStr l2] st"

section \<open>Blinking screens\<close>

abbreviation (input) BLINKING_INIT :: u8 where "BLINKING_INIT \<equiv> 0"
abbreviation (input) BLINKING_MARK_D :: u8 where "BLINKING_MARK_D \<equiv> 1"
abbreviation (input) BLINKING_SPACE_D :: u8 where "BLINKING_SPACE_D \<equiv> 2"
abbreviation (input) BLINKING_MARK_C :: u8 where "BLINKING_MARK_C \<equiv> 3"
abbreviation (input) BLINKING_SPACE_C :: u8 where "BLINKING_SPACE_C \<equiv> 4"
abbreviation (input) BLINKING_MARK_N :: u8 where "BLINKING_MARK_N \<equiv> 5"
abbreviation (input) BLINKING_SPACE_N :: u8 where "BLINKING_SPACE_N \<equiv> 6"
abbreviation (input) BLINK_DIRECT :: u8 where "BLINK_DIRECT \<equiv> 0"
abbreviation (input) BLINK_CROSS :: u8 where "BLINK_CROSS \<equiv> 1"
abbreviation (input) BLINK_NO :: u8 where "BLINK_NO \<equiv> 2"

definition LCD_ShowBlink :: "u8 list \<Rightarrow> u8 list \<Rightarrow> u8 \<Rightarrow> u8 \<Rightarrow> lcd_utils \<Rightarrow> resp \<times> lcd_utils" where
  "LCD_ShowBlink p_text1 p_text2 how_many mode st =
     (let s = blinking_state st in
      if s = BLINKING_INIT then
        (resp_continue, st\<lparr>blinking_state :=
            (if mode = BLINK_DIRECT then BLINKING_MARK_D
             else if mode = BLINK_CROSS then BLINKING_MARK_C else BLINKING_MARK_N),
          blinking_how_many := how_many, show_select_timer := 0\<rparr>)
      else if s = BLINKING_MARK_D then
        (if show_select_timer st = 0 then
           if blinking_how_many st \<noteq> 0 then
             (resp_continue,
              emit [LCD_1ER_RENGLON, TransmitStr p_text1, LCD_2DO_RENGLON, TransmitStr p_text2]
                (st\<lparr>blinking_how_many := blinking_how_many st - 1,
                    show_select_timer := TT_BLINKING_IN_ON, blinking_state := BLINKING_SPACE_D\<rparr>))
           else (resp_finish, st\<lparr>blinking_state := BLINKING_INIT\<rparr>)
         else (resp_continue, st))
      else if s = BLINKING_SPACE_D then
        (if show_select_timer st = 0 then
           (resp_continue,
            emit [LCD_1ER_RENGLON, TransmitStr s_blank, LCD_2DO_RENGLON, TransmitStr s_blank]
              (st\<lparr>show_select_timer := TT_BLINKING_IN_OFF, blinking_state := BLINKING_MARK_D\<rparr>))
         else (resp_continue, st))
      else if s = BLINKING_MARK_C then
        (if show_select_timer st = 0 then
           if blinking_how_many st \<noteq> 0 then
             (resp_continue,
              emit [LCD_1ER_RENGLON, TransmitStr p_text1, LCD_2DO_RENGLON, TransmitStr s_blank]
                (st\<lparr>blinking_how_many := blinking_how_many st - 1,
                    show_select_timer := TT_BLINKING_IN_ON, blinking_state := BLINKING_SPACE_C\<rparr>))
           else
             (resp_finish,
              emit [LCD_1ER_RENGLON, TransmitStr s_blank] (st\<lparr>blinking_state := BLINKING_INIT\<rparr>))
         else (resp_continue, st))
      else if s = BLINKING_SPACE_C then
        (if show_select_timer st = 0 then
           (resp_continue,
            emit [LCD_1ER_RENGLON, TransmitStr s_blank, LCD_2DO_RENGLON, TransmitStr p_text2]
              (st\<lparr>show_select_timer := TT_BLINKING_IN_ON, blinking_state := BLINKING_MARK_C\<rparr>))
         else (resp_continue, st))
      else if s = BLINKING_MARK_N then
        (resp_continue,
         emit [LCD_1ER_RENGLON, TransmitStr p_text1, LCD_2DO_RENGLON, TransmitStr p_text2]
           (st\<lparr>show_select_timer := TT_BLINKING_IN_ON * ucast how_many, blinking_state := BLINKING_SPACE_N\<rparr>))
      else if s = BLINKING_SPACE_N then
        (if show_select_timer st = 0 then (resp_finish, st\<lparr>blinking_state := BLINKING_INIT\<rparr>)
         else (resp_continue, st))
      else (resp_finish, st\<lparr>blinking_state := BLINKING_INIT\<rparr>))"

section \<open>The scrolling line\<close>

abbreviation (input) SCROLL_INIT :: u8 where "SCROLL_INIT \<equiv> 0"
abbreviation (input) SCROLL_SENDING :: u8 where "SCROLL_SENDING \<equiv> 1"
abbreviation (input) SCROLL_FINISH :: u8 where "SCROLL_FINISH \<equiv> 2"

text \<open>
  The loop over \<open>unsigned char i\<close> that both scrolls run; it assigns its own counter to leave, and
  the counter wraps, so the loop need not end: \<open>None\<close> stands for a run that never leaves it.
  The text is read with its terminating NUL. The result is the new state number and the calls made.
\<close>

partial_function (option) scroll_send ::
  "u8 list \<Rightarrow> u8 \<Rightarrow> u8 \<Rightarrow> u8 \<Rightarrow> u8 \<Rightarrow> lcd_call list \<Rightarrow> (u8 \<times> lcd_call list) c_result option" where
  "scroll_send p_text scroll_last last_window i state sent =
     (if uint i < uint last_window then
        if uint i < LINE_LENGTH then
          scroll_send p_text scroll_last last_window (i + 1) state (sent @ [Senddata 32])
        else if uint i < uint scroll_last - LINE_LENGTH then
          (case arr_get (p_text @ [0]) (uint i - LINE_LENGTH) of
             Inl e \<Rightarrow> Some (Inl e)
           | Inr b \<Rightarrow> scroll_send p_text scroll_last last_window (i + 1) state (sent @ [Senddata b]))
        else if uint i < uint scroll_last then
          scroll_send p_text scroll_last last_window (i + 1) state (sent @ [Senddata 32])
        else scroll_send p_text scroll_last last_window (last_window + 1) (state + 1) sent
      else Some (Inr (state, sent)))"

definition LCD_Scroll1Reset :: "lcd_utils \<Rightarrow> lcd_utils" where
  "LCD_Scroll1Reset st = st\<lparr>scroll1_state := SCROLL_INIT\<rparr>"

definition LCD_Scroll1 :: "u8 list \<Rightarrow> lcd_utils \<Rightarrow> (resp \<times> lcd_utils) c_result option" where
  "LCD_Scroll1 p_text st =
     (let s = scroll1_state st in
      if s = SCROLL_INIT then
        Some (Inr (resp_continue, st\<lparr>scroll1_last_window := of_nat (length p_text) + 32,
          scroll1_current_window := 1, scroll1_state := s + 1\<rparr>))
      else if s = SCROLL_SENDING then
        (if scroll1_timer st = 0 then
           let last_window = scroll1_current_window st + 16 in
           case scroll_send p_text (scroll1_last_window st) last_window (scroll1_current_window st) s [] of
             None \<Rightarrow> None
           | Some (Inl e) \<Rightarrow> Some (Inl e)
           | Some (Inr (state, sent)) \<Rightarrow>
               Some (Inr (resp_continue, emit (LCD_1ER_RENGLON # sent)
                 (st\<lparr>scroll1_state := state, scroll1_current_window := scroll1_current_window st + 1,
                     scroll1_timer := TT_SCROLL\<rparr>)))
         else Some (Inr (resp_continue, st)))
      else Some (Inr (resp_finish, st\<lparr>scroll1_state := SCROLL_INIT\<rparr>)))"

definition LCD_Scroll2Reset :: "lcd_utils \<Rightarrow> lcd_utils" where
  "LCD_Scroll2Reset st = st\<lparr>scroll2_state := SCROLL_INIT\<rparr>"

definition LCD_Scroll2 :: "u8 list \<Rightarrow> lcd_utils \<Rightarrow> (resp \<times> lcd_utils) c_result option" where
  "LCD_Scroll2 p_text st =
     (let s = scroll2_state st in
      if s = SCROLL_INIT then
        Some (Inr (resp_continue, st\<lparr>scroll2_last_window := of_nat (length p_text) + 32,
          scroll2_current_window := 1, scroll2_state := s + 1\<rparr>))
      else if s = SCROLL_SENDING then
        (if scroll2_timer st = 0 then
           let last_window = scroll2_current_window st + 16 in
           case scroll_send p_text (scroll2_last_window st) last_window (scroll2_current_window st) s [] of
             None \<Rightarrow> None
           | Some (Inl e) \<Rightarrow> Some (Inl e)
           | Some (Inr (state, sent)) \<Rightarrow>
               Some (Inr (resp_continue, emit (LCD_2DO_RENGLON # sent)
                 (st\<lparr>scroll2_state := state, scroll2_current_window := scroll2_current_window st + 1,
                     scroll2_timer := TT_SCROLL\<rparr>)))
         else Some (Inr (resp_continue, st)))
      else Some (Inr (resp_finish, st\<lparr>scroll2_state := SCROLL_INIT\<rparr>)))"

section \<open>Big digits\<close>

definition v_cgram :: "u8 list list" where
  "v_cgram =
    [[0x07, 0x0f, 0x0f, 0x0f, 0x0f, 0x0f, 0x0f, 0x07],
     [0x1f, 0x1f, 0x00, 0x00, 0x00, 0x00, 0x00, 0x00],
     [0x1c, 0x1e, 0x1e, 0x1e, 0x1e, 0x1e, 0x1e, 0x1c],
     [0x00, 0x00, 0x00, 0x00, 0x00, 0x00, 0x1f, 0x1f],
     [0x1f, 0x1f, 0x00, 0x00, 0x00, 0x00, 0x1f, 0x1f],
     [0x00, 0x00, 0x00, 0x00, 0x00, 0x00, 0x03, 0x07],
     [0x00, 0x00, 0x00, 0x00, 0x00, 0x00, 0x18, 0x1c]]"

text \<open>Glyph \<open>k\<close> goes to the table position \<open>8 * k\<close>, \<open>CGRAM_POS0\<close> to \<open>CGRAM_POS6\<close>.\<close>

definition LCD_BigNumbersInit :: "lcd_utils \<Rightarrow> lcd_utils" where
  "LCD_BigNumbersInit st =
     emit (concat (map (\<lambda>k. SetCGRAM (8 * of_nat k) # map Senddata (v_cgram ! k)) [0..<7])) st"

abbreviation (input) SEG_LAT_IZQ :: u8 where "SEG_LAT_IZQ \<equiv> 0x00"
abbreviation (input) SEG_BARRA_ALTA :: u8 where "SEG_BARRA_ALTA \<equiv> 0x01"
abbreviation (input) SEG_LAT_DER :: u8 where "SEG_LAT_DER \<equiv> 0x02"
abbreviation (input) SEG_BARRA_BAJA :: u8 where "SEG_BARRA_BAJA \<equiv> 0x03"
abbreviation (input) SEG_BARRA_ALTA_BAJA :: u8 where "SEG_BARRA_ALTA_BAJA \<equiv> 0x04"
abbreviation (input) SEG_CORTE_BAJO_IZQ :: u8 where "SEG_CORTE_BAJO_IZQ \<equiv> 0x05"
abbreviation (input) SEG_CORTE_BAJO_DER :: u8 where "SEG_CORTE_BAJO_DER \<equiv> 0x06"
abbreviation (input) SEG_EMPTY :: u8 where "SEG_EMPTY \<equiv> 32"

text \<open>The three segments of each line of a digit; other numbers draw nothing.\<close>

definition big_segments :: "u8 \<Rightarrow> (u8 list \<times> u8 list) option" where
  "big_segments n =
    (if n = 0 then Some ([SEG_LAT_IZQ, SEG_BARRA_ALTA, SEG_LAT_DER], [SEG_LAT_IZQ, SEG_BARRA_BAJA, SEG_LAT_DER])
     else if n = 1 then Some ([SEG_EMPTY, SEG_EMPTY, SEG_LAT_DER], [SEG_EMPTY, SEG_EMPTY, SEG_LAT_DER])
     else if n = 2 then Some ([SEG_CORTE_BAJO_IZQ, SEG_BARRA_ALTA_BAJA, SEG_LAT_DER],
                              [SEG_LAT_IZQ, SEG_BARRA_BAJA, SEG_CORTE_BAJO_DER])
     else if n = 3 then Some ([SEG_EMPTY, SEG_BARRA_ALTA_BAJA, SEG_LAT_DER],
                              [SEG_CORTE_BAJO_IZQ, SEG_BARRA_BAJA, SEG_LAT_DER])
     else if n = 4 then Some ([SEG_LAT_IZQ, SEG_BARRA_BAJA, SEG_LAT_DER], [SEG_EMPTY, SEG_EMPTY, SEG_LAT_DER])
     else if n = 5 then Some ([SEG_LAT_IZQ, SEG_BARRA_ALTA_BAJA, SEG_CORTE_BAJO_DER],
                              [SEG_CORTE_BAJO_IZQ, SEG_BARRA_BAJA, SEG_LAT_DER])
     else if n = 6 then Some ([SEG_LAT_IZQ, SEG_BARRA_ALTA_BAJA, SEG_CORTE_BAJO_DER],
                              [SEG_LAT_IZQ, SEG_BARRA_BAJA, SEG_LAT_DER])
     else if n = 7 then Some ([SEG_EMPTY, SEG_BARRA_ALTA, SEG_LAT_DER], [SEG_EMPTY, SEG_EMPTY, SEG_LAT_DER])
     else if n = 8 then Some ([SEG_LAT_IZQ, SEG_BARRA_ALTA_BAJA, SEG_LAT_DER],
                              [SEG_LAT_IZQ, SEG_BARRA_BAJA, SEG_LAT_DER])
     else if n = 9 then Some ([SEG_LAT_IZQ, SEG_BARRA_ALTA_BAJA, SEG_LAT_DER], [SEG_EMPTY, SEG_EMPTY, SEG_LAT_DER])
     else None)"

definition LCD_BigNumbers :: "u8 \<Rightarrow> u8 \<Rightarrow> lcd_utils \<Rightarrow> lcd_utils" where
  "LCD_BigNumbers line1_position number st =
     (let line1 = line1_position; line2 = 0x40 + line1_position in
      case big_segments number of
        None \<Rightarrow> st
      | Some (l1, l2) \<Rightarrow>
          emit (SetDDRAM line1 # map Senddata l1 @ SetDDRAM line2 # map Senddata l2) st)"

section \<open>The state the widgets leave alone\<close>

lemma emit_sel [simp]:
  "blinking_state (emit cs st) = blinking_state st" "blinking_how_many (emit cs st) = blinking_how_many st"
  "show_select_timer (emit cs st) = show_select_timer st" "show_select_state (emit cs st) = show_select_state st"
  "lcd_log (emit cs st) = lcd_log st @ cs"
  by (simp_all add: emit_def)

lemma update_timer_sel [simp]:
  "blinking_state (LCD_UpdateTimer st) = blinking_state st"
  "blinking_how_many (LCD_UpdateTimer st) = blinking_how_many st"
  "show_select_timer (LCD_UpdateTimer st) = (if show_select_timer st = 0 then 0 else show_select_timer st - 1)"
  "show_select_state (LCD_UpdateTimer st) = show_select_state st"
  "lcd_log (LCD_UpdateTimer st) = lcd_log st"
  by (simp_all add: LCD_UpdateTimer_def Let_def)

section \<open>A blinking screen ends\<close>

text \<open>Calling the widget, one timer tick after each call, until it answers that it is done.\<close>

fun blink_run :: "u8 list \<Rightarrow> u8 list \<Rightarrow> u8 \<Rightarrow> u8 \<Rightarrow> nat \<Rightarrow> lcd_utils \<Rightarrow> (nat \<times> lcd_utils) option" where
  "blink_run t1 t2 n m 0 st = None"
| "blink_run t1 t2 n m (Suc k) st =
     (case LCD_ShowBlink t1 t2 n m st of (r, st') \<Rightarrow>
        if r = resp_finish then Some (k, st') else blink_run t1 t2 n m k (LCD_UpdateTimer st'))"

definition ticked :: "nat \<Rightarrow> lcd_utils \<Rightarrow> lcd_utils" where
  "ticked k = LCD_UpdateTimer ^^ k"

lemma ticked_simps [simp]:
  "ticked 0 st = st" "ticked (Suc k) st = ticked k (LCD_UpdateTimer st)"
  "blinking_state (ticked k st) = blinking_state st" "blinking_how_many (ticked k st) = blinking_how_many st"
  "lcd_log (ticked k st) = lcd_log st" "show_select_state (ticked k st) = show_select_state st"
proof -
  have *: "blinking_state ((LCD_UpdateTimer ^^ k) st) = blinking_state st \<and>
    blinking_how_many ((LCD_UpdateTimer ^^ k) st) = blinking_how_many st \<and>
    lcd_log ((LCD_UpdateTimer ^^ k) st) = lcd_log st \<and>
    show_select_state ((LCD_UpdateTimer ^^ k) st) = show_select_state st"
    by (induction k) auto
  show "ticked 0 st = st" "ticked (Suc k) st = ticked k (LCD_UpdateTimer st)"
    by (simp_all add: ticked_def funpow_Suc_right del: funpow.simps(2))
  show "blinking_state (ticked k st) = blinking_state st" "blinking_how_many (ticked k st) = blinking_how_many st"
    "lcd_log (ticked k st) = lcd_log st" "show_select_state (ticked k st) = show_select_state st"
    using * by (simp_all add: ticked_def)
qed

lemma of_nat_Suc_minus_u16: "(of_nat (Suc t) :: u16) - 1 = of_nat t"
  by simp

lemma of_nat_Suc_u16_nonzero:
  assumes "Suc t < 65536" shows "(of_nat (Suc t) :: u16) \<noteq> 0"
proof
  assume "(of_nat (Suc t) :: u16) = 0"
  then have "uint (of_nat (Suc t) :: u16) = 0" by simp
  then show False using assms by (simp only: uint_of_nat_u16)
qed

lemma ticked_timer: "show_select_timer st = of_nat t \<Longrightarrow> t < 65536 \<Longrightarrow> show_select_timer (ticked t st) = 0"
proof (induction t arbitrary: st)
  case (Suc t)
  have "show_select_timer (LCD_UpdateTimer st) = of_nat t"
    using Suc.prems of_nat_Suc_u16_nonzero [of t] by (simp del: of_nat_Suc add: of_nat_Suc_minus_u16)
  then show ?case using Suc by simp
qed simp

lemma blink_wait:
  assumes "blinking_state st \<in> {1, 2, 3, 4, 6}" "show_select_timer st = of_nat t" "t < 65536"
  shows "blink_run t1 t2 n m (t + k) st = blink_run t1 t2 n m k (ticked t st)"
  using assms
proof (induction t arbitrary: st)
  case (Suc t)
  have nz: "show_select_timer st \<noteq> 0" using Suc.prems of_nat_Suc_u16_nonzero [of t] by (simp del: of_nat_Suc)
  then have "LCD_ShowBlink t1 t2 n m st = (resp_continue, st)"
    using Suc.prems(1) by (auto simp: LCD_ShowBlink_def Let_def)
  moreover have "show_select_timer (LCD_UpdateTimer st) = of_nat t"
    using nz Suc.prems by (simp del: of_nat_Suc add: of_nat_Suc_minus_u16)
  ultimately show ?case using Suc.IH [of "LCD_UpdateTimer st"] Suc.prems by simp
qed simp

text \<open>One call that starts a waiting period of \<open>t\<close> ticks, and the wait that follows.\<close>

lemma blink_period:
  assumes "LCD_ShowBlink t1 t2 n m st = (resp_continue, st')"
    and "blinking_state st' \<in> {1, 2, 3, 4, 6}" "show_select_timer st' = of_nat t" "0 < t" "t < 65536"
  shows "blink_run t1 t2 n m (t + k) st = blink_run t1 t2 n m k (ticked t st')"
proof -
  obtain u where u: "t = Suc u" using assms(4) by (cases t) auto
  have "show_select_timer (LCD_UpdateTimer st') = of_nat u"
    using assms(3,5) u of_nat_Suc_u16_nonzero [of u] by (simp del: of_nat_Suc add: of_nat_Suc_minus_u16)
  then have "blink_run t1 t2 n m (u + k) (LCD_UpdateTimer st') = blink_run t1 t2 n m k (ticked u (LCD_UpdateTimer st'))"
    using blink_wait [of "LCD_UpdateTimer st'" u] assms(2,5) u by simp
  then show ?thesis using assms(1) u by simp
qed

abbreviation both_lines :: "u8 list \<Rightarrow> u8 list \<Rightarrow> lcd_call list" where
  "both_lines t1 t2 \<equiv> [SetDDRAM 0, TransmitStr t1, SetDDRAM 0x40, TransmitStr t2]"

lemma blink_direct_run:
  assumes "blinking_state st = 1" "show_select_timer st = 0" "blinking_how_many st = of_nat k" "k < 256"
  shows "\<exists>st'. blink_run t1 t2 n m (1600 * k + 1) st = Some (0, st') \<and> blinking_state st' = 0 \<and>
    lcd_log st' = lcd_log st @ concat (replicate k (both_lines t1 t2 @ both_lines s_blank s_blank))"
  using assms
proof (induction k arbitrary: st)
  case 0
  then show ?case by (simp add: LCD_ShowBlink_def)
next
  case (Suc k)
  have nz: "blinking_how_many st \<noteq> 0" using Suc.prems(3,4)
    by (metis Suc_neq_Zero of_nat_0 uint_of_nat_u8 uint_0_eq of_nat_eq_0_iff)
  let ?s1 = "emit (both_lines t1 t2)
     (st\<lparr>blinking_how_many := blinking_how_many st - 1, show_select_timer := 1000, blinking_state := 2\<rparr>)"
  let ?u1 = "ticked 1000 ?s1"
  let ?s2 = "emit (both_lines s_blank s_blank) (?u1\<lparr>show_select_timer := 600, blinking_state := 1\<rparr>)"
  let ?u2 = "ticked 600 ?s2"
  have z1: "show_select_timer ?u1 = 0" by (rule ticked_timer) simp_all
  have z2: "show_select_timer ?u2 = 0" by (rule ticked_timer) simp_all
  have c1: "LCD_ShowBlink t1 t2 n m st = (resp_continue, ?s1)"
    using Suc.prems nz by (simp add: LCD_ShowBlink_def)
  have c2: "LCD_ShowBlink t1 t2 n m ?u1 = (resp_continue, ?s2)"
    using z1 by (simp add: LCD_ShowBlink_def)
  have "blink_run t1 t2 n m (1000 + (600 + (1600 * k + 1))) st = blink_run t1 t2 n m (1600 * k + 1) ?u2"
    by (rule trans [OF blink_period [OF c1, of 1000] blink_period [OF c2, of 600]]) simp_all
  moreover have "blinking_how_many ?u2 = of_nat k" using Suc.prems(3) by simp
  ultimately show ?case
    using Suc.IH [of ?u2] z2 Suc.prems(4) by (auto simp: algebra_simps)
qed

text \<open>One direct screen from the start of the widget.\<close>

lemma blink_direct_start:
  assumes "blinking_state st = 0"
  shows "\<exists>st'. blink_run t1 t2 n 0 (1600 * unat n + 2) st = Some (0, st') \<and> blinking_state st' = 0 \<and>
    lcd_log st' = lcd_log st @ concat (replicate (unat n) (both_lines t1 t2 @ both_lines s_blank s_blank))"
proof -
  let ?st = "LCD_UpdateTimer (st\<lparr>blinking_state := 1, blinking_how_many := n, show_select_timer := 0\<rparr>)"
  have "LCD_ShowBlink t1 t2 n 0 st = (resp_continue, st\<lparr>blinking_state := 1, blinking_how_many := n, show_select_timer := 0\<rparr>)"
    using assms by (simp add: LCD_ShowBlink_def)
  then have "blink_run t1 t2 n 0 (Suc (1600 * unat n + 1)) st = blink_run t1 t2 n 0 (1600 * unat n + 1) ?st" by simp
  moreover have "unat n < 256" by (rule unat_u8_lt)
  ultimately show ?thesis using blink_direct_run [of ?st "unat n" t1 t2 n 0] by simp
qed

lemma blink_one_screen:
  "blinking_state st = 0 \<Longrightarrow> \<exists>st'. blink_run t1 t2 1 0 1602 st = Some (0, st') \<and>
     lcd_log st' = lcd_log st @ both_lines t1 t2 @ both_lines s_blank s_blank"
  using blink_direct_start [of st t1 t2 1] by auto

section \<open>The scrolling line shows every window\<close>

text \<open>Sixteen blanks, the text, sixteen blanks; the window that starts at \<open>k\<close>.\<close>

definition scroll_tape :: "u8 list \<Rightarrow> u8 list" where
  "scroll_tape p = replicate 16 32 @ p @ replicate 16 32"

definition scroll_window :: "u8 list \<Rightarrow> nat \<Rightarrow> u8 list" where
  "scroll_window p k = take 16 (drop k (scroll_tape p))"

lemma length_scroll_tape [simp]: "length (scroll_tape p) = length p + 32"
  by (simp add: scroll_tape_def)

lemma take_drop_step: "a < length xs \<Longrightarrow> a < b \<Longrightarrow> take (b - a) (drop a xs) = xs ! a # take (b - Suc a) (drop (Suc a) xs)"
  by (metis Cons_nth_drop_Suc Suc_diff_Suc take_Suc_Cons)

lemma scroll_send_window:
  assumes "length p \<le> 222" "a \<le> b" "b < 255" "a \<le> length p + 32"
  shows "scroll_send p (of_nat (length p + 32)) (of_nat b) (of_nat a) s sent =
    Some (Inr (if b \<le> length p + 32 then s else s + 1,
               sent @ map Senddata (take (b - a) (drop a (scroll_tape p)))))"
  using assms(2-)
proof (induction "b - a" arbitrary: a sent)
  case 0
  then show ?case using assms(1) by (subst scroll_send.simps) simp
next
  case (Suc n)
  let ?L = "length p + 32"
  have ab: "a < b" using Suc.hyps(2) by simp
  have u: "uint (of_nat a :: u8) = int a" "uint (of_nat b :: u8) = int b" "uint (of_nat ?L :: u8) = int ?L"
    using Suc.prems assms(1) by (simp_all add: uint_of_nat_u8 del: of_nat_add)
  have next_i: "(of_nat a :: u8) + 1 = of_nat (Suc a)" by simp
  show ?case
  proof (cases "a = ?L")
    case True
    have "(of_nat b :: u8) + 1 = of_nat (Suc b)" by simp
    then have "uint ((of_nat b :: u8) + 1) = int (Suc b)"
      using Suc.prems by (simp only: uint_of_nat_u8)
    then have stop: "scroll_send p (of_nat ?L) (of_nat b) (of_nat b + 1) (s + 1) sent = Some (Inr (s + 1, sent))"
      using u(2) by (subst scroll_send.simps) simp
    have "scroll_send p (of_nat ?L) (of_nat b) (of_nat a) s sent =
      scroll_send p (of_nat ?L) (of_nat b) (of_nat b + 1) (s + 1) sent"
      using u ab True by (subst scroll_send.simps) simp
    then show ?thesis using stop True ab by simp
  next
    case False
    then have aL: "a < ?L" using Suc.prems by simp
    let ?b = "scroll_tape p ! a"
    have "scroll_send p (of_nat ?L) (of_nat b) (of_nat a) s sent =
      scroll_send p (of_nat ?L) (of_nat b) (of_nat (Suc a)) s (sent @ [Senddata ?b])"
    proof -
      consider "a < 16" | "16 \<le> a" "a < length p + 16" | "length p + 16 \<le> a" by linarith
      then show ?thesis
      proof cases
        case 1
        then have "?b = 32" by (simp add: scroll_tape_def nth_append)
        then show ?thesis using u ab 1 by (subst scroll_send.simps) (simp add: add.commute)
      next
        case 2
        have "nat (int a - 16) = a - 16" "a - 16 < length p" using 2 by linarith+
        then have "arr_get (p @ [0]) (int a - 16) = Inr ?b"
          using 2 by (simp add: arr_get_def scroll_tape_def nth_append)
        then show ?thesis using u ab 2 by (subst scroll_send.simps) (simp add: add.commute)
      next
        case 3
        then have "\<not> a - 16 < length p" "a - 16 - length p < 16" using aL by linarith+
        then have "?b = 32" using 3 aL by (simp add: scroll_tape_def nth_append)
        then show ?thesis using u ab 3 aL by (subst scroll_send.simps) (simp add: add.commute)
      qed
    qed
    then show ?thesis
      using Suc.hyps(1) [of "Suc a"] Suc.hyps(2) Suc.prems aL ab by (simp add: take_drop_step)
  qed
qed

text \<open>One frame, and the whole run when every call finds the timer run down.\<close>

lemma scroll1_frame:
  assumes "length p \<le> 222" "1 \<le> k" "k \<le> length p + 17" "k < 239"
    and "scroll1_state st = 1" "scroll1_timer st = 0"
    and "scroll1_last_window st = of_nat (length p + 32)" "scroll1_current_window st = of_nat k"
  shows "LCD_Scroll1 p st = Some (Inr (resp_continue,
    emit (SetDDRAM 0 # map Senddata (scroll_window p k))
      (st\<lparr>scroll1_state := (if k < length p + 17 then 1 else 2), scroll1_current_window := of_nat (Suc k),
          scroll1_timer := 250\<rparr>)))"
proof -
  have lw: "(of_nat k :: u8) + 16 = of_nat (k + 16)" by simp
  have "scroll_send p (of_nat (length p + 32)) (of_nat (k + 16)) (of_nat k) 1 [] =
    Some (Inr (if k + 16 \<le> length p + 32 then 1 else 1 + 1, [] @ map Senddata (take (k + 16 - k) (drop k (scroll_tape p)))))"
    by (rule scroll_send_window) (use assms in auto)
  then show ?thesis
    using assms by (simp add: LCD_Scroll1_def lw scroll_window_def Let_def add.commute del: of_nat_add)
qed

lemma scroll1_finish:
  "scroll1_state st = 2 \<Longrightarrow> LCD_Scroll1 p st = Some (Inr (resp_finish, st\<lparr>scroll1_state := 0\<rparr>))"
  by (simp add: LCD_Scroll1_def)

fun scroll1_run :: "u8 list \<Rightarrow> nat \<Rightarrow> lcd_utils \<Rightarrow> (nat \<times> lcd_utils) option" where
  "scroll1_run p 0 st = None"
| "scroll1_run p (Suc n) st =
     (case LCD_Scroll1 p (st\<lparr>scroll1_timer := 0\<rparr>) of
        Some (Inr (r, st')) \<Rightarrow> if r = resp_finish then Some (n, st') else scroll1_run p n st'
      | _ \<Rightarrow> None)"

definition scroll_frames :: "u8 list \<Rightarrow> nat \<Rightarrow> nat \<Rightarrow> lcd_call list" where
  "scroll_frames p j k = concat (map (\<lambda>i. SetDDRAM 0 # map Senddata (scroll_window p i)) [j..<k])"

lemma scroll1_sending_run:
  assumes "length p \<le> 221" "1 \<le> k" "k \<le> length p + 17" "scroll1_state st = 1"
    and "scroll1_last_window st = of_nat (length p + 32)" "scroll1_current_window st = of_nat k"
  shows "\<exists>st'. scroll1_run p (length p + 17 - k + 2) st = Some (0, st') \<and> scroll1_state st' = 0 \<and>
    lcd_log st' = lcd_log st @ scroll_frames p k (length p + 18)"
  using assms(2-)
proof (induction "length p + 17 - k" arbitrary: k st)
  case 0
  then have k: "k = length p + 17" by simp
  have "LCD_Scroll1 p (st\<lparr>scroll1_timer := 0\<rparr>) = Some (Inr (resp_continue,
    emit (SetDDRAM 0 # map Senddata (scroll_window p k))
      (st\<lparr>scroll1_state := 2, scroll1_current_window := of_nat (Suc k), scroll1_timer := 250\<rparr>)))"
    using scroll1_frame [of p k "st\<lparr>scroll1_timer := 0\<rparr>"] 0 k assms(1) by simp
  then show ?case
    using k upt_conv_Cons [of "length p + 17" "length p + 18"]
    by (simp add: numeral_2_eq_2 scroll1_finish emit_def scroll_frames_def)
next
  case (Suc n)
  then have k: "k < length p + 17" by simp
  let ?st = "emit (SetDDRAM 0 # map Senddata (scroll_window p k))
      (st\<lparr>scroll1_state := 1, scroll1_current_window := of_nat (Suc k), scroll1_timer := 250\<rparr>)"
  have f: "LCD_Scroll1 p (st\<lparr>scroll1_timer := 0\<rparr>) = Some (Inr (resp_continue, ?st))"
    using scroll1_frame [of p k "st\<lparr>scroll1_timer := 0\<rparr>"] Suc.prems k assms(1) by simp
  have n: "n = length p + 17 - Suc k" using Suc.hyps(2) by simp
  obtain st' where st': "scroll1_run p (n + 2) ?st = Some (0, st')" "scroll1_state st' = 0"
    "lcd_log st' = lcd_log ?st @ scroll_frames p (Suc k) (length p + 18)"
    using Suc.hyps(1) [OF n, of ?st] Suc.prems k n by (auto simp: emit_def)
  have "scroll_frames p k (length p + 18) = SetDDRAM 0 # map Senddata (scroll_window p k) @ scroll_frames p (Suc k) (length p + 18)"
    using k by (simp add: scroll_frames_def upt_conv_Cons)
  then show ?case
    using st' f Suc.hyps(2) [symmetric] by (simp add: emit_def)
qed


text \<open>
  With a text of 222 characters the last frame ends at column counter 255: assigning the counter and
  incrementing it gives 0 and the frame is sent again, for ever.
\<close>

lemma scroll_send_stuck:
  assumes "scroll_send p L lw i s sent = Some r" "lw = 255" "L = 254" "length p = 222"
  shows "i = 255"
proof -
  have "lw = 255 \<longrightarrow> L = 254 \<longrightarrow> length p = 222 \<longrightarrow> i = 255"
  proof (rule scroll_send.raw_induct [OF _ assms(1), where P = "\<lambda>p L lw i s sent y.
      lw = 255 \<longrightarrow> L = 254 \<longrightarrow> length p = 222 \<longrightarrow> i = 255"], intro impI)
  fix f and p :: "u8 list" and L lw i s :: u8 and sent y
  assume r: "\<And>p L lw i s sent y. f p L lw i s sent = Some y \<Longrightarrow> lw = 255 \<longrightarrow> L = 254 \<longrightarrow> length p = 222 \<longrightarrow> i = 255"
     "(if uint i < uint lw
     then if uint i < 16 then f p L lw (i + 1) s (sent @ [Senddata 32])
          else if uint i < uint L - 16
               then case arr_get (p @ [0]) (uint i - 16) of
                    Inl e \<Rightarrow> Some (Inl e)
                    | Inr b \<Rightarrow> f p L lw (i + 1) s (sent @ [Senddata b])
               else if uint i < uint L
                    then f p L lw (i + 1) s (sent @ [Senddata 32])
                    else f p L lw (lw + 1) (s + 1) sent
     else Some (Inr (s, sent))) = Some y"
    "lw = 255" "L = 254" "length p = 222"
  have lt: "uint i < 255 \<longleftrightarrow> i \<noteq> 255"
    using uint_bounded [of i] word_uint_eq_iff [of i 255] by auto
  have succ: "i + 1 \<noteq> 255" if "uint i < 254"
    using that by (auto simp: word_eq_iff_unsigned uint_plus_simple)
  have idx: "\<exists>b. arr_get (p @ [0]) (uint i - 16) = Inr b" if "16 \<le> uint i" "uint i < 238"
    using that r(5) by (simp add: arr_get_def)
  show "i = 255"
  proof (rule ccontr)
    assume i: "i \<noteq> 255"
    consider "uint i < 16" | "16 \<le> uint i" "uint i < 238" | "238 \<le> uint i" "uint i < 254" | "uint i = 254"
      using lt i uint_bounded [of i] by linarith
    then show False
    proof cases
      case 1
      then show ?thesis using r i lt succ by auto
    next
      case 2
      then show ?thesis using r i lt succ idx by auto
    next
      case 3
      then show ?thesis using r i lt succ by auto
    next
      case 4
      then have "f p L lw (lw + 1) (s + 1) sent = Some y" using r(2-) by simp
      then have "lw + 1 = 255" using r(1) r(3-5) by blast
      then show ?thesis using r(3) by simp
    qed
  qed
  qed
  then show ?thesis using assms by blast
qed

section \<open>Properties\<close>

text \<open>A direct blinking screen always ends, whatever it showed before: with a timer tick after every call
  the widget answers that it is done after exactly 1600 calls per repetition and two more, having shown the
  two texts and then blanks as often as it was asked to.\<close>

theorem show_blink_ends:
  assumes "blinking_state st = 0"
  shows "\<exists>st'. blink_run t1 t2 n 0 (1600 * unat n + 2) st = Some (0, st') \<and> blinking_state st' = 0 \<and>
    lcd_log st' = lcd_log st @ concat (replicate (unat n) (both_lines t1 t2 @ both_lines s_blank s_blank))"
  by (rule blink_direct_start [OF assms])

theorem show_blink_ends_witness:
  "\<exists>st'. blink_run [65] [66] 1 0 1602 lcd_utils_globals = Some (0, st') \<and>
     lcd_log st' = both_lines [65] [66] @ both_lines s_blank s_blank"
  using show_blink_ends [of lcd_utils_globals "[65]" "[66]" 1] by (auto simp: lcd_utils_globals_def)

text \<open>The last window of a text of 222 characters hangs the widget, so the run from the start never ends.\<close>

lemma scroll_hangs_on_222:
  assumes "length p = 222" "scroll1_state st = 1" "scroll1_timer st = 0"
    and "scroll1_last_window st = of_nat (length p) + 32" "scroll1_current_window st = of_nat (length p + 17)"
  shows "LCD_Scroll1 p st = None"
proof -
  have "scroll_send p 254 255 239 1 [] = None"
    using scroll_send_stuck [of p 254 255 239 1 "[]"] assms(1) by (cases "scroll_send p 254 255 239 1 []") auto
  then show ?thesis using assms by (simp add: LCD_Scroll1_def)
qed

lemma scroll1_run_stuck:
  assumes "length p = 222" "1 \<le> k" "k \<le> 239" "scroll1_state st = 1"
    and "scroll1_last_window st = of_nat (length p + 32)" "scroll1_current_window st = of_nat k"
  shows "scroll1_run p n st = None"
  using assms(2-)
proof (induction n arbitrary: k st)
  case (Suc n)
  show ?case
  proof (cases "k = 239")
    case True
    then have "LCD_Scroll1 p (st\<lparr>scroll1_timer := 0\<rparr>) = None"
      using Suc.prems assms(1) by (intro scroll_hangs_on_222) simp_all
    then show ?thesis by simp
  next
    case False
    let ?st = "emit (SetDDRAM 0 # map Senddata (scroll_window p k))
      (st\<lparr>scroll1_state := 1, scroll1_current_window := of_nat (Suc k), scroll1_timer := 250\<rparr>)"
    have "LCD_Scroll1 p (st\<lparr>scroll1_timer := 0\<rparr>) = Some (Inr (resp_continue, ?st))"
      using scroll1_frame [of p k "st\<lparr>scroll1_timer := 0\<rparr>"] False Suc.prems assms(1) by simp
    moreover have "scroll1_run p n ?st = None"
      by (rule Suc.IH [of "Suc k"]) (use False Suc.prems in \<open>simp_all add: emit_def\<close>)
    ultimately show ?thesis by simp
  qed
qed simp

lemma length_scroll_window: "k \<le> length p + 17 \<Longrightarrow> length (scroll_window p k) = (if k < length p + 17 then 16 else 15)"
  by (auto simp: scroll_window_def)

text \<open>C15: The widget that scrolls a text of at most 221 characters, with sixteen blanks before and after it, called
  whenever its timer has run down, sends the
  windows that start at the positions from 1 to the length of the text plus 17, in order, and finishes. Each window
  has sixteen characters, the last one fifteen; the window at 0, all blanks, is not sent. With a text of 222 characters
  the widget never finishes: the call for the last window does not return.\<close>

theorem scroll_shows_windows:
  assumes "length p \<le> 222" "scroll1_state st = 0"
  shows "if length p = 222 then \<forall>n. scroll1_run p n st = None
    else (\<exists>st'. scroll1_run p (length p + 19) st = Some (0, st') \<and> scroll1_state st' = 0 \<and>
      lcd_log st' = lcd_log st @ concat (map (\<lambda>k. SetDDRAM 0 # map Senddata (scroll_window p k)) [1..<length p + 18])) \<and>
      (\<forall>k \<le> length p + 17. length (scroll_window p k) = (if k < length p + 17 then 16 else 15))"
proof -
  let ?st = "st\<lparr>scroll1_timer := 0, scroll1_last_window := of_nat (length p) + 32, scroll1_current_window := 1, scroll1_state := 1\<rparr>"
  have "LCD_Scroll1 p (st\<lparr>scroll1_timer := 0\<rparr>) = Some (Inr (resp_continue, ?st))"
    using assms(2) by (simp add: LCD_Scroll1_def)
  then have r: "scroll1_run p (Suc n) st = scroll1_run p n ?st" for n
    by (simp only: scroll1_run.simps option.case sum.case prod.case resp.simps if_False)
  show ?thesis
  proof (cases "length p = 222")
    case True
    then have "scroll1_run p n ?st = None" for n by (intro scroll1_run_stuck [of p 1]) simp_all
    then have "scroll1_run p n st = None" for n using r by (cases n) simp_all
    then show ?thesis using True by simp
  next
    case False
    then have l: "length p \<le> 221" using assms(1) by simp
    have "scroll1_run p (length p + 19) st = scroll1_run p (length p + 17 - 1 + 2) ?st"
      using r [of "length p + 18"] by (simp add: add.commute)
    then show ?thesis using scroll1_sending_run [OF l, of 1 ?st] length_scroll_window [of _ p] False by (auto simp: scroll_frames_def)
  qed
qed

theorem scroll_shows_windows_witness:
  "(\<exists>st'. scroll1_run (cstr ''Hola'') 23 lcd_utils_globals = Some (0, st') \<and>
     lcd_log st' = concat (map (\<lambda>k. SetDDRAM 0 # map Senddata (scroll_window (cstr ''Hola'') k)) [1..<22])) \<and>
   scroll1_run (replicate 222 65) 1000 lcd_utils_globals = None"
  using scroll_shows_windows [of "cstr ''Hola''" lcd_utils_globals] scroll_shows_windows [of "replicate 222 65" lcd_utils_globals]
  by (auto simp: lcd_utils_globals_def)

end
