(* ===== verification/Lcd_Password.thy ===== *)
theory Lcd_Password
  imports Lcd_Utils
begin

text \<open>
  The password widget of \<open>lcd_utils.c\<close>: eight decimal digits kept as the nibbles of a 32-bit number,
  a cursor that moves over them, and a field to leave. The sections show that the number stays a
  string of decimal digits, that the display always shows it, and that every password can be entered.
\<close>

section \<open>States\<close>

text \<open>\<open>psw_select_state\<close> is a macro for \<open>show_select_state\<close>, \<open>psw_select_timer\<close> for \<open>show_select_timer\<close>.\<close>

abbreviation (input) PSW_SELECT_INIT :: u8 where "PSW_SELECT_INIT \<equiv> 0"
abbreviation (input) PSW_SELECT_1 :: u8 where "PSW_SELECT_1 \<equiv> 1"
abbreviation (input) PSW_SELECT_2 :: u8 where "PSW_SELECT_2 \<equiv> 2"
abbreviation (input) PSW_SELECT_CHANGE_NUM :: u8 where "PSW_SELECT_CHANGE_NUM \<equiv> 3"
abbreviation (input) PSW_SELECT_CHANGE_NUM_1 :: u8 where "PSW_SELECT_CHANGE_NUM_1 \<equiv> 4"
abbreviation (input) PSW_SELECT_CHANGE_NUM_2 :: u8 where "PSW_SELECT_CHANGE_NUM_2 \<equiv> 5"
abbreviation (input) PSW_SELECT_ENDING :: u8 where "PSW_SELECT_ENDING \<equiv> 6"
abbreviation (input) PSW_SELECT_ENDING_1 :: u8 where "PSW_SELECT_ENDING_1 \<equiv> 7"
abbreviation (input) PSW_SELECT_ENDING_2 :: u8 where "PSW_SELECT_ENDING_2 \<equiv> 8"
abbreviation (input) PSW_SELECT_ENDED :: u8 where "PSW_SELECT_ENDED \<equiv> 9"
abbreviation (input) TT_PSW_SELECT_IN_ON :: u16 where "TT_PSW_SELECT_IN_ON \<equiv> TT_SHOW_SELECT_IN_ON"
abbreviation (input) TT_PSW_SELECT_IN_OFF :: u16 where "TT_PSW_SELECT_IN_OFF \<equiv> TT_SHOW_SELECT_IN_OFF"
abbreviation (input) SIZEOF_PASSWORD :: int where "SIZEOF_PASSWORD \<equiv> 8"

definition LCD_PasswordReset :: "lcd_utils \<Rightarrow> lcd_utils" where
  "LCD_PasswordReset st = st\<lparr>show_select_state := PSW_SELECT_INIT\<rparr>"

section \<open>Digits\<close>

text \<open>
  The two expressions on \<open>password_num\<close> that the widget repeats: reading the nibble under the cursor and
  replacing it. The shift count is never negative because the cursor stays below eight; the mask
  \<open>0x0000000f << 28\<close> and the digit shifted into the top position are computed at 32 bits.
\<close>

definition psw_shift :: "u8 \<Rightarrow> nat" where
  "psw_shift b = nat (28 - uint b * 4)"

definition psw_digit :: "u32 \<Rightarrow> u8 \<Rightarrow> u8" where
  "psw_digit num b = ucast (drop_bit (psw_shift b) num AND 0x0000000f)"

definition psw_set_digit :: "u32 \<Rightarrow> u8 \<Rightarrow> u8 \<Rightarrow> u32" where
  "psw_set_digit num b a =
     (num AND NOT (push_bit (psw_shift b) 0x0000000f)) OR push_bit (psw_shift b) (ucast a)"

section \<open>The widget\<close>

definition LCD_Password ::
  "u8 list \<Rightarrow> sw_actions \<Rightarrow> u32 \<Rightarrow> lcd_utils \<Rightarrow> resp \<times> u32 \<times> lcd_utils" where
  "LCD_Password p_text sw_action new_psw st =
    (let s = show_select_state st; pos = SetDDRAM (0x40 + blinking_on st) in
     if s = PSW_SELECT_INIT then
       (resp_continue, new_psw,
        emit [LCD_1ER_RENGLON, TransmitStr p_text, LCD_2DO_RENGLON, TransmitStr (cstr ''00000000  Listo!'')]
          (st\<lparr>password_num := 0, blinking_on := 0, show_select_state := s + 1\<rparr>))
     else if s = PSW_SELECT_1 then
       (resp_continue, new_psw,
        if sw_action = selection_none
        then emit [pos, Command CURSOR_ON, Command BLINK_ON] (st\<lparr>show_select_state := s + 1\<rparr>)
        else st)
     else if s = PSW_SELECT_2 then
       (resp_continue, new_psw,
        if sw_action = selection_dwn then
          let st' = (if blinking_on st \<noteq> 0 then st\<lparr>blinking_on := blinking_on st - 1\<rparr> else st)
          in emit [SetDDRAM (0x40 + blinking_on st')] st'
        else if sw_action = selection_up then
          if uint (blinking_on st) < SIZEOF_PASSWORD - 1 then
            let st' = st\<lparr>blinking_on := blinking_on st + 1\<rparr>
            in emit [SetDDRAM (0x40 + blinking_on st')] st'
          else st\<lparr>show_select_state := PSW_SELECT_ENDING\<rparr>
        else if sw_action = selection_enter then st\<lparr>show_select_state := PSW_SELECT_CHANGE_NUM\<rparr>
        else st)
     else if s = PSW_SELECT_CHANGE_NUM then
       (resp_continue, new_psw,
        emit [Command CURSOR_OFF, Command BLINK_OFF, pos, TransmitStr (cstr '' '')]
          (st\<lparr>show_select_timer := TT_PSW_SELECT_IN_OFF, show_select_state := s + 1\<rparr>))
     else if s = PSW_SELECT_CHANGE_NUM_1 then
       (resp_continue, new_psw,
        if show_select_timer st = 0 \<and> sw_action = selection_none then
          let a = psw_digit (password_num st) (blinking_on st) in
          emit [pos, Senddata (48 + a)]
            (st\<lparr>show_select_timer := TT_PSW_SELECT_IN_ON, show_select_state := PSW_SELECT_CHANGE_NUM_2\<rparr>)
        else st)
     else if s = PSW_SELECT_CHANGE_NUM_2 then
       (resp_continue, new_psw,
        if sw_action = selection_enter then st\<lparr>show_select_state := PSW_SELECT_1\<rparr>
        else if sw_action = selection_up then
          let a = psw_digit (password_num st) (blinking_on st) in
          (if a < 9 then st\<lparr>password_num := psw_set_digit (password_num st) (blinking_on st) (a + 1)\<rparr> else st)
            \<lparr>show_select_timer := 0, show_select_state := PSW_SELECT_CHANGE_NUM_1\<rparr>
        else if sw_action = selection_dwn then
          let a = psw_digit (password_num st) (blinking_on st) in
          (if a \<noteq> 0 then st\<lparr>password_num := psw_set_digit (password_num st) (blinking_on st) (a - 1)\<rparr> else st)
            \<lparr>show_select_timer := 0, show_select_state := PSW_SELECT_CHANGE_NUM_1\<rparr>
        else if show_select_timer st = 0 \<and> sw_action = selection_none then
          emit [pos, TransmitStr (cstr '' '')]
            (st\<lparr>show_select_timer := TT_PSW_SELECT_IN_OFF, show_select_state := PSW_SELECT_CHANGE_NUM_1\<rparr>)
        else st)
     else if s = PSW_SELECT_ENDING then
       (resp_continue, new_psw,
        emit [Command CURSOR_OFF, Command BLINK_OFF, SetDDRAM (0x40 + 10), TransmitStr (cstr ''      '')]
          (st\<lparr>show_select_timer := TT_PSW_SELECT_IN_OFF, show_select_state := s + 1\<rparr>))
     else if s = PSW_SELECT_ENDING_1 then
       (resp_continue, new_psw,
        if show_select_timer st = 0 \<and> sw_action = selection_none then
          emit [SetDDRAM (0x40 + 10), TransmitStr (cstr ''Listo!'')]
            (st\<lparr>show_select_timer := TT_PSW_SELECT_IN_ON, show_select_state := PSW_SELECT_ENDING_2\<rparr>)
        else st)
     else if s = PSW_SELECT_ENDING_2 then
       (resp_continue, new_psw,
        if sw_action = selection_enter then st\<lparr>show_select_state := PSW_SELECT_ENDED\<rparr>
        else if sw_action = selection_dwn then
          st\<lparr>blinking_on := 7, show_select_state := PSW_SELECT_1\<rparr>
        else if show_select_timer st = 0 \<and> sw_action = selection_none then
          emit [SetDDRAM (0x40 + 10), TransmitStr (cstr ''      '')]
            (st\<lparr>show_select_timer := TT_PSW_SELECT_IN_OFF, show_select_state := PSW_SELECT_ENDING_1\<rparr>)
        else st)
     else if s = PSW_SELECT_ENDED then
       (if sw_action = selection_none
        then (resp_selected, password_num st, st\<lparr>show_select_state := PSW_SELECT_INIT\<rparr>)
        else (resp_continue, new_psw, st))
     else (resp_continue, new_psw, st\<lparr>show_select_state := PSW_SELECT_INIT\<rparr>))"

section \<open>Digits are independent\<close>

lemma psw_shift_eq: "psw_shift b = 28 - 4 * unat b"
proof -
  have "nat (28 - int n * 4) = 28 - 4 * n" for n by arith
  then show ?thesis by (simp only: psw_shift_def uint_nat)
qed

lemma nibble_mask: "(0x0000000f :: u32) = mask 4"
  by (simp add: mask_eq_exp_minus_1)

lemma bit_psw_digit: "bit (psw_digit num b) n \<longleftrightarrow> n < 4 \<and> bit num (psw_shift b + n)"
  unfolding psw_digit_def nibble_mask
  by (auto simp: bit_ucast_iff bit_and_iff bit_drop_bit_eq bit_mask_iff)

text \<open>A value below 16 has no bits above the fourth.\<close>

lemma nibble_bit: "a < 16 \<Longrightarrow> bit (a :: u8) n \<Longrightarrow> n < 4"
proof (rule ccontr)
  assume a: "a < 16" "bit a n" "\<not> n < 4"
  have "uint a < 2 ^ 4" using a(1) by (simp add: word_less_def)
  then have "take_bit 4 (uint a) = uint a" by (simp add: take_bit_int_eq_self_iff)
  then have "\<not> bit (uint a) n" using a(3) by (metis bit_take_bit_iff)
  then show False using a(2) bit_imp_le_length [of a n] by (simp add: bit_uint_iff)
qed

lemma bit_psw_set_digit:
  assumes "a < 16"
  shows "bit (psw_set_digit num b a) m \<longleftrightarrow>
    m < 32 \<and> (if psw_shift b \<le> m \<and> m < psw_shift b + 4 then bit a (m - psw_shift b) else bit num m)"
  using nibble_bit [OF assms, of "m - psw_shift b"] bit_imp_le_length [of num m] bit_imp_le_length [of a "m - psw_shift b"]
  unfolding psw_set_digit_def nibble_mask
  by (auto simp: bit_or_iff bit_and_iff bit_not_iff bit_push_bit_iff bit_ucast_iff bit_mask_iff)

lemma psw_digit_set:
  assumes "a < 16" "uint b < 8" "uint b' < 8"
  shows "psw_digit (psw_set_digit num b a) b' = (if b' = b then a else psw_digit num b')"
proof (rule bit_word_eqI)
  fix n :: nat
  assume "n < LENGTH(8)"
  have sh: "psw_shift b = 28 - 4 * unat b" "psw_shift b' = 28 - 4 * unat b'" "unat b < 8" "unat b' < 8"
    using assms(2,3) unfolding psw_shift_eq uint_nat by linarith+
  show "bit (psw_digit (psw_set_digit num b a) b') n = bit (if b' = b then a else psw_digit num b') n"
  proof (cases "b' = b")
    case True
    then show ?thesis using nibble_bit [OF assms(1), of n] sh by (auto simp: bit_psw_digit bit_psw_set_digit assms)
  next
    case False
    then have "unat b \<noteq> unat b'" by (auto simp: word_unat_eq_iff)
    then have "n < 4 \<Longrightarrow> \<not> (psw_shift b \<le> psw_shift b' + n \<and> psw_shift b' + n < psw_shift b + 4)"
      "n < 4 \<Longrightarrow> psw_shift b' + n < 32"
      using sh by linarith+
    then show ?thesis using False by (auto simp: bit_psw_digit bit_psw_set_digit assms)
  qed
qed

lemma psw_digit_less_16: "psw_digit num b < 16"
proof -
  have "psw_digit num b = take_bit 4 (psw_digit num b)"
    by (rule bit_word_eqI) (auto simp: bit_take_bit_iff bit_psw_digit)
  then have "unat (psw_digit num b) < 2 ^ 4" by (metis take_bit_nat_less_exp unsigned_take_bit_eq)
  then show ?thesis by (simp add: word_less_nat_alt)
qed

text \<open>Two numbers with the same eight digits are the same.\<close>

lemma psw_digits_eqI:
  assumes "\<And>b. uint b < 8 \<Longrightarrow> psw_digit x b = psw_digit y b"
  shows "x = y"
proof (rule bit_word_eqI)
  fix m :: nat assume m: "m < LENGTH(32)"
  let ?b = "of_nat (7 - m div 4) :: u8"
  have u: "uint ?b = int (7 - m div 4)" by simp
  then have "unat ?b = 7 - m div 4" unfolding uint_nat by linarith
  then have sh: "psw_shift ?b = 28 - 4 * (7 - m div 4)" by (simp only: psw_shift_eq)
  have "m div 4 < 8" using m by simp
  then have "psw_shift ?b + m mod 4 = m" unfolding sh by presburger
  moreover have "bit (psw_digit x ?b) (m mod 4) = bit (psw_digit y ?b) (m mod 4)" using assms u by simp
  ultimately show "bit x m = bit y m" by (simp add: bit_psw_digit)
qed

section \<open>The invariant: a cursor on the number, eight decimal digits\<close>

definition decimal_psw :: "u32 \<Rightarrow> bool" where
  "decimal_psw num \<longleftrightarrow> (\<forall>k \<in> set [0..<8]. psw_digit num (of_nat k) \<le> 9)"

lemma decimal_pswD: "decimal_psw num \<Longrightarrow> uint b < 8 \<Longrightarrow> psw_digit num b \<le> 9"
proof -
  assume d: "decimal_psw num" and b: "uint b < 8"
  have "unat b < 8" using b unfolding uint_nat by linarith
  then have "unat b \<in> set [0..<8]" by (simp only: set_upt atLeastLessThan_iff le0 simp_thms)
  then have "psw_digit num (of_nat (unat b)) \<le> 9" using d unfolding decimal_psw_def by blast
  then show ?thesis by simp
qed

lemma decimal_pswI: "(\<And>b. uint b < 8 \<Longrightarrow> psw_digit num b \<le> 9) \<Longrightarrow> decimal_psw num"
  unfolding decimal_psw_def by auto

lemma decimal_psw_0: "decimal_psw 0"
  by (rule decimal_pswI) (simp add: psw_digit_def)

lemma decimal_psw_set:
  assumes "decimal_psw num" "uint b < 8" "a \<le> 9"
  shows "decimal_psw (psw_set_digit num b a)"
proof (rule decimal_pswI)
  fix b' :: u8 assume "uint b' < 8"
  moreover have "a < 16" using assms(3) by (simp add: word_le_def word_less_def)
  ultimately show "psw_digit (psw_set_digit num b a) b' \<le> 9"
    using assms decimal_pswD by (simp add: psw_digit_set)
qed

definition psw_ok :: "lcd_utils \<Rightarrow> bool" where
  "psw_ok st \<longleftrightarrow> uint (blinking_on st) < 8 \<and> decimal_psw (password_num st)"

lemma psw_digit_up: "psw_digit num b < 9 \<Longrightarrow> psw_digit num b + 1 \<le> 9"
  by (simp add: word_less_def word_le_def uint_plus_if')

lemma uint_pos: "b \<noteq> 0 \<Longrightarrow> 1 \<le> uint b"
proof -
  assume "b \<noteq> 0"
  then have "uint b \<noteq> 0" by (simp add: word_uint_eq_iff)
  then show "1 \<le> uint b" using uint_ge_0 [of b] by linarith
qed

lemma psw_digit_down: "psw_digit num b \<le> 9 \<Longrightarrow> psw_digit num b \<noteq> 0 \<Longrightarrow> psw_digit num b - 1 \<le> 9"
  using uint_pos [of "psw_digit num b"] by (simp add: word_le_def uint_sub_if' word_uint_eq_iff)

lemma cursor_up: "uint (b :: u8) < 7 \<Longrightarrow> uint (b + 1) = uint b + 1"
  by (simp add: uint_plus_if')

lemma cursor_down: "(b :: u8) \<noteq> 0 \<Longrightarrow> uint (b - 1) = uint b - 1"
  using uint_pos [of b] by (simp add: uint_sub_if' word_uint_eq_iff)

lemma psw_emit [simp]:
  "blinking_on (emit cs st) = blinking_on st" "password_num (emit cs st) = password_num st"
  by (simp_all add: emit_def)

text \<open>The branches of the widget, one state at a time.\<close>

lemma psw_cases:
  fixes s :: u8
  obtains "s = 0" | "s = 1" | "s = 2" | "s = 3" | "s = 4" | "s = 5" | "s = 6" | "s = 7" | "s = 8" | "s = 9"
    | "s \<notin> {0, 1, 2, 3, 4, 5, 6, 7, 8, 9}"
  by blast

lemma psw_ok_step:
  assumes "psw_ok st" "LCD_Password p a n st = (r, n', st')"
  shows "psw_ok st'"
proof -
  have c: "uint (blinking_on st) < 8" and d: "decimal_psw (password_num st)"
    using assms(1) by (simp_all add: psw_ok_def)
  note digit = decimal_pswD [OF d c]
  have up: "decimal_psw (psw_set_digit (password_num st) (blinking_on st) (psw_digit (password_num st) (blinking_on st) + 1))"
    if "psw_digit (password_num st) (blinking_on st) < 9"
    using decimal_psw_set [OF d c psw_digit_up [OF that]] .
  have down: "decimal_psw (psw_set_digit (password_num st) (blinking_on st) (psw_digit (password_num st) (blinking_on st) - 1))"
    if "psw_digit (password_num st) (blinking_on st) \<noteq> 0"
    using decimal_psw_set [OF d c psw_digit_down [OF digit that]] .
  have moves: "blinking_on st \<noteq> 0 \<Longrightarrow> uint (blinking_on st - 1) < 8" "uint (blinking_on st) < 7 \<Longrightarrow> uint (blinking_on st + 1) < 8"
    using c cursor_up cursor_down by auto
  show ?thesis
    using assms(2) c d up down moves decimal_psw_0
    by (cases "show_select_state st" rule: psw_cases)
      (auto simp: LCD_Password_def psw_ok_def Let_def split: if_splits)
qed

lemma psw_result:
  assumes "LCD_Password p a n st = (r, n', st')"
  shows "r = resp_continue \<and> n' = n \<or> r = resp_selected \<and> n' = password_num st \<and> show_select_state st = 9 \<and> a = selection_none"
  using assms by (cases "show_select_state st" rule: psw_cases) (auto simp: LCD_Password_def Let_def split: if_splits)

section \<open>The display shows the number\<close>

text \<open>
  The screen agrees with the state: the first eight cells of the second line are the digits, but for
  the digit being changed while it blinks; the rest of the line has been written; and while the cursor
  blinks it stands on the digit the widget will change.
\<close>

definition psw_digits_shown :: "lcd_utils \<Rightarrow> text_screen \<Rightarrow> bool" where
  "psw_digits_shown st s \<longleftrightarrow>
     (\<forall>b. uint b < 8 \<and> \<not> (show_select_state st = PSW_SELECT_CHANGE_NUM_1 \<and> b = blinking_on st) \<longrightarrow>
        ts_cell s 1 (uint b) = 48 + psw_digit (password_num st) b)"

definition line_written :: "text_screen \<Rightarrow> int \<Rightarrow> bool" where
  "line_written s l \<longleftrightarrow> (\<forall>c. 0 \<le> c \<and> c < 16 \<longrightarrow> ts_cell s l c \<noteq> 0)"

definition psw_shown :: "lcd_utils \<Rightarrow> text_screen \<Rightarrow> bool" where
  "psw_shown st s \<longleftrightarrow>
     (ts_cursor s \<and> ts_blink s \<longrightarrow> show_select_state st \<in> {2, 3, 6} \<and> ts_line s = 1 \<and> ts_col s = uint (blinking_on st)) \<and>
     (show_select_state st \<noteq> 0 \<longrightarrow> psw_digits_shown st s \<and> line_written s 1)"

lemma set_pos_digit:
  assumes "uint b < 8"
  shows "set_pos (0x40 + b) s = s\<lparr>ts_line := 1, ts_col := uint b\<rparr>"
    "call_fits s (SetDDRAM (0x40 + b))"
proof -
  have "uint (0x40 + b) = 64 + uint b" using assms by (simp add: uint_plus_if')
  moreover have "\<not> 64 + uint b < 16" using uint_ge_0 [of b] by linarith
  ultimately show "set_pos (0x40 + b) s = s\<lparr>ts_line := 1, ts_col := uint b\<rparr>" "call_fits s (SetDDRAM (0x40 + b))"
    using assms by (simp_all add: set_pos_def)
qed

lemma printable_32: "printable 32"
  by (simp add: printable_uint)

lemma printable_digit: "a \<le> 9 \<Longrightarrow> printable (48 + a)" "a \<le> 9 \<Longrightarrow> 48 + a \<noteq> (0 :: u8)"
  by (simp_all add: printable_uint word_le_def uint_plus_if' word_uint_eq_iff) (use uint_ge_0 [of a] in linarith)+

lemma cstr_blanks: "cstr '' '' = [32]" "cstr ''      '' = [32, 32, 32, 32, 32, 32]"
  by simp_all

text \<open>What the calls that redraw a digit or the field to leave do to the cells.\<close>

lemma cells_put1:
  assumes "uint b < 8" "printable x"
  shows "ts_cell (put_char x (s\<lparr>ts_line := 1, ts_col := uint b\<rparr>)) l c = (if l = 1 \<and> c = uint b then x else ts_cell s l c)"
  using assms uint_ge_0 [of b] by (subst put_char_cell) (auto simp: on_screen_def)

lemma cells_listo:
  assumes "length t = 6" "list_all printable t"
  shows "calls_fit s [SetDDRAM (0x40 + 10), TransmitStr t]"
    "ts_cell (screen_calls [SetDDRAM (0x40 + 10), TransmitStr t] s) l c =
       (if l = 1 \<and> 10 \<le> c \<and> c < 16 then t ! nat (c - 10) else ts_cell s l c)"
  using assms by (simp_all add: set_pos_def fold_put_char_cell)

lemma text_listo: "list_all printable (cstr ''Listo!'')" "length (cstr ''Listo!'') = 6"
  "list_all printable (cstr ''      '')" "length (cstr ''      '') = 6"
  by (simp_all add: printable_uint)

lemma printable_nth: "list_all printable t \<Longrightarrow> i < length t \<Longrightarrow> t ! i \<noteq> 0"
  by (auto simp: list_all_length dest: printable_nonzero)

text \<open>The three patterns of calls that touch the second line.\<close>

lemma digit_cell_calls:
  assumes "uint b < 8" "printable x"
  shows "calls_fit s [SetDDRAM (0x40 + b), Senddata x]" "calls_fit s [SetDDRAM (0x40 + b), TransmitStr [x]]"
    "ts_cell (screen_calls [SetDDRAM (0x40 + b), Senddata x] s) l c = (if l = 1 \<and> c = uint b then x else ts_cell s l c)"
    "ts_cell (screen_calls [SetDDRAM (0x40 + b), TransmitStr [x]] s) l c = (if l = 1 \<and> c = uint b then x else ts_cell s l c)"
  using assms set_pos_digit [OF assms(1)] cells_put1 [OF assms] uint_ge_0 [of b] by (simp_all add: on_screen_def)

lemma psw_shown_other:
  "psw_shown st s \<Longrightarrow> show_select_state st \<notin> {2, 3, 6} \<Longrightarrow> \<not> (ts_cursor s \<and> ts_blink s)"
  by (auto simp: psw_shown_def)

lemma uint_eq_digit: "uint b' = uint b \<longleftrightarrow> b' = (b :: u8)"
  by (simp add: word_uint_eq_iff)

lemma init_shown:
  assumes "length p \<le> 16" "list_all printable p" "\<not> (ts_cursor s \<and> ts_blink s)"
  defines "cs \<equiv> [SetDDRAM 0, TransmitStr p, SetDDRAM 0x40, TransmitStr (cstr ''00000000  Listo!'')]"
  shows "calls_fit s cs" "line_written (screen_calls cs s) 1"
    "uint (b :: u8) < 8 \<Longrightarrow> ts_cell (screen_calls cs s) 1 (uint b) = 48" "\<not> (ts_cursor (screen_calls cs s) \<and> ts_blink (screen_calls cs s))"
proof -
  let ?t = "cstr ''00000000  Listo!''"
  have t: "length ?t = 16" "list_all printable ?t" by (simp_all add: printable_uint)
  show "calls_fit s cs" using assms(1,2) t by (simp add: cs_def set_pos_def del: length_cstr cstr_simps)
  have cell: "ts_cell (screen_calls cs s) 1 c = ?t ! nat c" if "0 \<le> c" "c < 16" for c
    using that assms(1,2) t by (simp add: cs_def set_pos_def fold_put_char_cell del: length_cstr cstr_simps)
  show "line_written (screen_calls cs s) 1"
    unfolding line_written_def
  proof (intro allI impI)
    fix c :: int assume c: "0 \<le> c \<and> c < 16"
    then have "nat c < length ?t" using t(1) by linarith
    from printable_nth [OF t(2) this] show "ts_cell (screen_calls cs s) 1 c \<noteq> 0" using cell c by simp
  qed
  show "ts_cell (screen_calls cs s) 1 (uint b) = 48" if "uint b < 8"
  proof -
    have "unat b < 8" using that unfolding uint_nat by linarith
    then have "unat b \<in> {0, 1, 2, 3, 4, 5, 6, 7}" by auto
    then have "?t ! unat b = 48" by auto
    then show ?thesis using cell [of "uint b"] that by (simp only: uint_nat nat_int)
  qed
  show "\<not> (ts_cursor (screen_calls cs s) \<and> ts_blink (screen_calls cs s))"
    using assms(3) by (simp add: cs_def set_pos_def)
qed

text \<open>Writing \<open>t\<close> at column \<open>c0\<close> of the second line, after switching the cursor off or with it off.\<close>

lemma write_second_line:
  assumes "cs = pre @ [SetDDRAM a, w]" "w = TransmitStr t \<or> (\<exists>x. t = [x] \<and> w = Senddata x)"
    and "pre = [Command 5, Command 7] \<or> pre = [] \<and> \<not> (ts_cursor s \<and> ts_blink s)"
    and "\<And>s. set_pos a s = s\<lparr>ts_line := 1, ts_col := c0\<rparr>" "\<And>s. call_fits s (SetDDRAM a)"
    and "0 \<le> c0" "c0 + int (length t) \<le> 16" "list_all printable t"
  shows "calls_fit s cs" "\<not> (ts_cursor (screen_calls cs s) \<and> ts_blink (screen_calls cs s))"
    "ts_cell (screen_calls cs s) l c =
       (if l = 1 \<and> c0 \<le> c \<and> c < c0 + int (length t) then t ! nat (c - c0) else ts_cell s l c)"
    "line_written s 1 \<Longrightarrow> line_written (screen_calls cs s) 1"
proof -
  let ?s0 = "\<lambda>s. fold put_char t (s\<lparr>ts_line := 1, ts_col := c0\<rparr>)"
  have w: "screen_call w s' = fold put_char t s'" for s' using assms(2) by auto
  have wf: "call_fits (s'\<lparr>ts_line := 1, ts_col := c0\<rparr>) w" for s'
    using assms(2,6-8) by (auto simp: on_screen_def)
  have pre: "calls_fit s pre" "ts_cell (screen_calls pre s) = ts_cell s" "\<not> (ts_cursor (screen_calls pre s) \<and> ts_blink (screen_calls pre s))"
    using assms(3) by (auto simp: screen_command_def)
  have scr: "screen_calls cs s = ?s0 (screen_calls pre s)" using assms(1,4) w by simp
  show "calls_fit s cs" using assms(1,4,5) pre(1) wf by simp
  show "\<not> (ts_cursor (screen_calls cs s) \<and> ts_blink (screen_calls cs s))" using scr pre(3) by simp
  show cell: "ts_cell (screen_calls cs s) l c =
       (if l = 1 \<and> c0 \<le> c \<and> c < c0 + int (length t) then t ! nat (c - c0) else ts_cell s l c)" for l c
    unfolding scr using assms(6-8) pre(2) by (subst fold_put_char_cell) simp_all
  show "line_written (screen_calls cs s) 1" if "line_written s 1"
    unfolding line_written_def cell
  proof (intro allI impI)
    fix c :: int assume c: "0 \<le> c \<and> c < 16"
    have "c0 \<le> c \<Longrightarrow> c < c0 + int (length t) \<Longrightarrow> t ! nat (c - c0) \<noteq> 0"
      using printable_nth [OF assms(8), of "nat (c - c0)"] by simp
    then show "(if 1 = 1 \<and> c0 \<le> c \<and> c < c0 + int (length t) then t ! nat (c - c0) else ts_cell s 1 c) \<noteq> 0"
      using that c by (auto simp: line_written_def)
  qed
qed

text \<open>A digit is redrawn (or blanked), or the field to leave is.\<close>

lemma shown_after_digit:
  assumes "lcd_log st' = pre @ [SetDDRAM (0x40 + b), w]" "w = TransmitStr [x] \<or> w = Senddata x"
    and "pre = [Command 5, Command 7] \<or> pre = [] \<and> \<not> (ts_cursor s \<and> ts_blink s)"
    and "uint b < 8" "printable x" "line_written s 1"
    and "\<And>b'. uint b' < 8 \<Longrightarrow> b' \<noteq> b \<Longrightarrow> ts_cell s 1 (uint b') = 48 + psw_digit (password_num st') b'"
    and "show_select_state st' = 4 \<and> blinking_on st' = b \<or> x = 48 + psw_digit (password_num st') b"
  shows "calls_fit s (lcd_log st') \<and> psw_shown st' (screen_calls (lcd_log st') s)"
proof -
  have "w = TransmitStr [x] \<or> (\<exists>y. [x] = [y] \<and> w = Senddata y)" using assms(2) by simp
  note w = write_second_line [where t = "[x]", OF assms(1) this assms(3) set_pos_digit [OF assms(4)]]
  have fits: "0 \<le> uint b" "uint b + int (length [x]) \<le> 16" "list_all printable [x]" using assms(4,5) by simp_all
  have cell: "ts_cell (screen_calls (lcd_log st') s) 1 (uint b') = (if b' = b then x else ts_cell s 1 (uint b'))" for b' :: u8
  proof -
    have "uint b \<le> uint b' \<and> uint b' < uint b + int (length [x]) \<longleftrightarrow> b' = b" by (auto simp: uint_eq_digit [symmetric])
    then show ?thesis unfolding w(3) [OF fits] by auto
  qed
  have "psw_digits_shown st' (screen_calls (lcd_log st') s)"
    unfolding psw_digits_shown_def cell using assms(7,8) by auto
  then show ?thesis using w(1,2,4) [OF fits] assms(6) unfolding psw_shown_def by blast
qed

lemma shown_after_listo:
  assumes "lcd_log st' = pre @ [SetDDRAM (0x40 + 10), TransmitStr t]"
    and "pre = [Command 5, Command 7] \<or> pre = [] \<and> \<not> (ts_cursor s \<and> ts_blink s)"
    and "length t = 6" "list_all printable t" "line_written s 1"
    and "\<And>b'. uint b' < 8 \<Longrightarrow> ts_cell s 1 (uint b') = 48 + psw_digit (password_num st') b'"
  shows "calls_fit s (lcd_log st') \<and> psw_shown st' (screen_calls (lcd_log st') s)"
proof -
  have p: "set_pos (0x40 + 10) s' = s'\<lparr>ts_line := 1, ts_col := 10\<rparr>" "call_fits s' (SetDDRAM (0x40 + 10))" for s'
    by (simp_all add: set_pos_def)
  note w = write_second_line [OF assms(1) disjI1 [OF refl] assms(2) p]
  have fits: "(0 :: int) \<le> 10" "10 + int (length t) \<le> 16" using assms(3) by simp_all
  have "psw_digits_shown st' (screen_calls (lcd_log st') s)"
    unfolding psw_digits_shown_def w(3) [OF fits assms(4)] using assms(6) by auto
  then show ?thesis using w(1,2,4) [OF fits assms(4)] assms(5) unfolding psw_shown_def by blast
qed

lemma psw_screen_step:
  assumes ok: "psw_ok st" and sh: "psw_shown st s" and p: "length p \<le> 16" "list_all printable p"
    and step: "LCD_Password p a n (st\<lparr>lcd_log := []\<rparr>) = (r, n', st')"
  shows "calls_fit s (lcd_log st') \<and> psw_shown st' (screen_calls (lcd_log st') s)"
proof -
  let ?b = "blinking_on st" and ?s' = "screen_calls (lcd_log st') s"
  have b: "uint ?b < 8" and d: "decimal_psw (password_num st)" using ok by (simp_all add: psw_ok_def)
  note digit = decimal_pswD [OF d b]
  note other = psw_shown_other [OF sh]
  note defs = LCD_Password_def psw_shown_def psw_digits_shown_def Let_def
  show ?thesis
  proof (cases "show_select_state st" rule: psw_cases)
    case 1
    have off: "\<not> (ts_cursor s \<and> ts_blink s)" using other 1 by simp
    have st': "show_select_state st' = 1" "password_num st' = 0"
      "lcd_log st' = [SetDDRAM 0, TransmitStr p, SetDDRAM 0x40, TransmitStr (cstr ''00000000  Listo!'')]"
      using step 1 by (auto simp: LCD_Password_def Let_def emit_def simp del: cstr_simps)
    have "psw_digits_shown st' ?s'"
      using init_shown(3) [OF p off] st' by (simp add: psw_digits_shown_def psw_digit_def del: cstr_simps)
    then show ?thesis
      using init_shown(1,2,4) [OF p off] st' by (simp only: psw_shown_def) simp
  next
    case 2
    then show ?thesis
      using step sh b set_pos_digit [OF b]
      by (auto simp: defs screen_command_def line_written_def emit_def split: if_splits)
  next
    case 3
    have moves: "?b \<noteq> 0 \<Longrightarrow> uint (?b - 1) < 8" "uint ?b < 7 \<Longrightarrow> uint (?b + 1) < 8"
      using b cursor_up cursor_down by auto
    then consider (moved) "show_select_state st' = 2" "password_num st' = password_num st" "uint (blinking_on st') < 8"
        "lcd_log st' = [SetDDRAM (0x40 + blinking_on st')]"
      | (stay) "show_select_state st' \<in> {2, 3, 6}" "password_num st' = password_num st" "blinking_on st' = ?b" "lcd_log st' = []"
      using step 3 b by (auto simp: LCD_Password_def Let_def emit_def split: if_splits)
    then show ?thesis
    proof cases
      case moved
      then show ?thesis
        using sh 3 set_pos_digit [OF moved(3)] by (simp add: psw_shown_def psw_digits_shown_def line_written_def)
    next
      case stay
      then show ?thesis using sh 3 by (auto simp: psw_shown_def psw_digits_shown_def)
    qed
  next
    case 4
    have st': "show_select_state st' = 4" "password_num st' = password_num st" "blinking_on st' = ?b"
      "lcd_log st' = [Command 5, Command 7] @ [SetDDRAM (0x40 + ?b), TransmitStr [32]]"
      using step 4 by (auto simp: LCD_Password_def Let_def emit_def)
    show ?thesis
      using sh 4 by (intro shown_after_digit [OF st'(4) _ _ b printable_32]) (auto simp: st' psw_shown_def psw_digits_shown_def)
  next
    case 5
    let ?x = "48 + psw_digit (password_num st) ?b"
    consider (shown) "show_select_state st' = 5" "password_num st' = password_num st" "blinking_on st' = ?b"
        "lcd_log st' = [] @ [SetDDRAM (0x40 + ?b), Senddata ?x]"
      | (stay) "show_select_state st' = 4" "password_num st' = password_num st" "blinking_on st' = ?b" "lcd_log st' = []"
      using step 5 by (auto simp: LCD_Password_def Let_def emit_def split: if_splits)
    then show ?thesis
    proof cases
      case shown
      then show ?thesis using sh 5 other
        by (intro shown_after_digit [OF shown(4) _ _ b printable_digit(1) [OF digit]])
          (auto simp: psw_shown_def psw_digits_shown_def)
    next
      case stay
      then show ?thesis using sh 5 by (simp add: psw_shown_def psw_digits_shown_def)
    qed
  next
    case 6
    consider (leave) "show_select_state st' \<in> {1, 5}" "password_num st' = password_num st" "blinking_on st' = ?b" "lcd_log st' = []"
      | (change) a where "show_select_state st' = 4" "blinking_on st' = ?b" "lcd_log st' = []" "a < 16"
          "password_num st' = password_num st \<or> password_num st' = psw_set_digit (password_num st) ?b a"
      | (hide) "show_select_state st' = 4" "password_num st' = password_num st" "blinking_on st' = ?b"
        "lcd_log st' = [] @ [SetDDRAM (0x40 + ?b), TransmitStr [32]]"
    proof -
      let ?d = "psw_digit (password_num st) ?b"
      have lt: "x \<le> 9 \<Longrightarrow> x < 16" for x :: u8 by (simp add: word_le_def word_less_def)
      have step': "?d < 9 \<Longrightarrow> ?d + 1 < 16" "?d \<noteq> 0 \<Longrightarrow> ?d - 1 < 16"
        using lt psw_digit_up psw_digit_down [OF digit] by blast+
      show ?thesis
      proof (cases a)
        case selection_none
        then show ?thesis using step 6 that(1,3) by (auto simp: LCD_Password_def Let_def emit_def split: if_splits)
      next
        case selection_up
        then show ?thesis using step 6 that(2) [of 0] that(2) [OF _ _ _ step'(1)]
          by (auto simp: LCD_Password_def Let_def split: if_splits)
      next
        case selection_dwn
        then show ?thesis using step 6 that(2) [of 0] that(2) [OF _ _ _ step'(2)]
          by (auto simp: LCD_Password_def Let_def split: if_splits)
      qed (use step 6 that(1) in \<open>auto simp: LCD_Password_def Let_def split: if_splits\<close>)
    qed
    then show ?thesis
    proof cases
      case leave
      then show ?thesis using sh 6 by (auto simp: psw_shown_def psw_digits_shown_def)
    next
      case change
      then show ?thesis using sh 6 b by (auto simp: psw_shown_def psw_digits_shown_def psw_digit_set)
    next
      case hide
      show ?thesis using sh 6 other
        by (intro shown_after_digit [OF hide(4) _ _ b printable_32]) (auto simp: hide psw_shown_def psw_digits_shown_def)
    qed
  next
    case 7
    have st': "show_select_state st' = 7" "password_num st' = password_num st"
      "lcd_log st' = [Command 5, Command 7] @ [SetDDRAM (0x40 + 10), TransmitStr (cstr ''      '')]"
      using step 7 by (auto simp: LCD_Password_def Let_def emit_def)
    show ?thesis
      using sh 7 by (intro shown_after_listo [OF st'(3) _ text_listo(4,3)]) (auto simp: st' psw_shown_def psw_digits_shown_def)
  next
    case 8
    consider (shown) "show_select_state st' = 8" "password_num st' = password_num st"
        "lcd_log st' = [] @ [SetDDRAM (0x40 + 10), TransmitStr (cstr ''Listo!'')]"
      | (stay) "show_select_state st' = 7" "password_num st' = password_num st" "lcd_log st' = []"
      using step 8 by (auto simp: LCD_Password_def Let_def emit_def split: if_splits)
    then show ?thesis
    proof cases
      case shown
      then show ?thesis using sh 8 other
        by (intro shown_after_listo [OF shown(3) _ text_listo(2,1)]) (auto simp: psw_shown_def psw_digits_shown_def)
    qed (use sh 8 in \<open>simp add: psw_shown_def psw_digits_shown_def\<close>)
  next
    case 9
    consider (stay) "show_select_state st' \<in> {1, 8, 9}" "password_num st' = password_num st" "lcd_log st' = []"
      | (hide) "show_select_state st' = 7" "password_num st' = password_num st"
        "lcd_log st' = [] @ [SetDDRAM (0x40 + 10), TransmitStr (cstr ''      '')]"
      using step 9 by (auto simp: LCD_Password_def Let_def emit_def split: if_splits)
    then show ?thesis
    proof cases
      case stay
      then show ?thesis using sh 9 by (auto simp: psw_shown_def psw_digits_shown_def)
    next
      case hide
      then show ?thesis using sh 9 other
        by (intro shown_after_listo [OF hide(3) _ text_listo(4,3)]) (auto simp: psw_shown_def psw_digits_shown_def)
    qed
  next
    case 10
    then show ?thesis using step sh other by (auto simp: defs psw_shown_def split: if_splits)
  next
    case 11
    then show ?thesis using step sh other by (auto simp: LCD_Password_def Let_def psw_shown_def)
  qed
qed

section \<open>Every password can be entered\<close>

text \<open>
  An operator's session: each entry is the number of timer ticks that pass before a call and the
  switch seen by that call. The session ends when the widget answers that a password was chosen.
\<close>

fun psw_play :: "u8 list \<Rightarrow> (nat \<times> sw_actions) list \<Rightarrow> u32 \<Rightarrow> lcd_utils \<Rightarrow> resp \<times> u32 \<times> lcd_utils" where
  "psw_play p [] n st = (resp_continue, n, st)"
| "psw_play p ((k, a) # es) n st =
     (case LCD_Password p a n (ticked k st) of (r, n', st') \<Rightarrow>
        if r = resp_selected then (r, n', st') else psw_play p es n' st')"

definition raise_script :: "nat \<Rightarrow> (nat \<times> sw_actions) list" where
  "raise_script d = concat (replicate d [(0, selection_up), (0, selection_none)])"

definition digit_script :: "nat \<Rightarrow> (nat \<times> sw_actions) list" where
  "digit_script d = [(0, selection_enter), (0, selection_none), (500, selection_none)] @ raise_script d @
     [(0, selection_enter), (0, selection_none), (0, selection_up)]"

definition psw_script :: "nat list \<Rightarrow> (nat \<times> sw_actions) list" where
  "psw_script ds = [(0, selection_none), (0, selection_none)] @ concat (map digit_script ds) @
     [(0, selection_none), (500, selection_none), (0, selection_enter), (0, selection_none)]"

lemma update_timer_psw [simp]:
  "blinking_on (LCD_UpdateTimer st) = blinking_on st" "password_num (LCD_UpdateTimer st) = password_num st"
  by (simp_all add: LCD_UpdateTimer_def Let_def)

lemma ticked_psw [simp]:
  "blinking_on (ticked k st) = blinking_on st" "password_num (ticked k st) = password_num st"
  by (induction k arbitrary: st) simp_all

text \<open>The calls of a session, state by state.\<close>

lemma psw_enter [simp]:
  "show_select_state st = 2 \<Longrightarrow> LCD_Password p selection_enter n st = (resp_continue, n, st\<lparr>show_select_state := 3\<rparr>)"
  "show_select_state st = 5 \<Longrightarrow> LCD_Password p selection_enter n st = (resp_continue, n, st\<lparr>show_select_state := 1\<rparr>)"
  "show_select_state st = 8 \<Longrightarrow> LCD_Password p selection_enter n st = (resp_continue, n, st\<lparr>show_select_state := 9\<rparr>)"
  by (simp_all add: LCD_Password_def)

lemma psw_wait:
  "show_select_state st = 1 \<Longrightarrow> \<exists>cs. LCD_Password p selection_none n st = (resp_continue, n, emit cs (st\<lparr>show_select_state := 2\<rparr>))"
  "show_select_state st = 3 \<Longrightarrow> \<exists>cs. LCD_Password p selection_none n st =
     (resp_continue, n, emit cs (st\<lparr>show_select_timer := 500, show_select_state := 4\<rparr>))"
  "show_select_state st = 4 \<Longrightarrow> show_select_timer st = 0 \<Longrightarrow> \<exists>cs. LCD_Password p selection_none n st =
     (resp_continue, n, emit cs (st\<lparr>show_select_timer := 1000, show_select_state := 5\<rparr>))"
  "show_select_state st = 6 \<Longrightarrow> \<exists>cs. LCD_Password p selection_none n st =
     (resp_continue, n, emit cs (st\<lparr>show_select_timer := 500, show_select_state := 7\<rparr>))"
  "show_select_state st = 7 \<Longrightarrow> show_select_timer st = 0 \<Longrightarrow> \<exists>cs. LCD_Password p selection_none n st =
     (resp_continue, n, emit cs (st\<lparr>show_select_timer := 1000, show_select_state := 8\<rparr>))"
  by (force simp: LCD_Password_def Let_def)+

lemma psw_up:
  assumes "show_select_state st = 5" "psw_digit (password_num st) (blinking_on st) < 9"
  shows "LCD_Password p selection_up n st = (resp_continue, n,
    st\<lparr>password_num := psw_set_digit (password_num st) (blinking_on st) (psw_digit (password_num st) (blinking_on st) + 1),
       show_select_timer := 0, show_select_state := 4\<rparr>)"
  using assms by (simp add: LCD_Password_def Let_def)

lemma psw_play_raise:
  assumes "show_select_state st = 5" "uint (blinking_on st) < 8" "d + k \<le> 9"
    and "psw_digit (password_num st) (blinking_on st) = of_nat d"
  shows "\<exists>st'. psw_play p (raise_script k @ es) n st = psw_play p es n st' \<and> show_select_state st' = 5 \<and>
    blinking_on st' = blinking_on st \<and>
    (\<forall>b. uint b < 8 \<longrightarrow> psw_digit (password_num st') b =
       (if b = blinking_on st then of_nat (d + k) else psw_digit (password_num st) b))"
  using assms
proof (induction k arbitrary: st d)
  case 0
  then show ?case by (auto simp: raise_script_def)
next
  case (Suc k)
  let ?b = "blinking_on st"
  let ?st1 = "st\<lparr>password_num := psw_set_digit (password_num st) ?b (of_nat d + 1), show_select_timer := 0, show_select_state := 4\<rparr>"
  have lt: "(of_nat d :: u8) < 9" using Suc.prems(3) by (simp add: word_less_def)
  then have u: "LCD_Password p selection_up n st = (resp_continue, n, ?st1)"
    using psw_up [OF Suc.prems(1)] Suc.prems(4) by simp
  obtain cs where w: "LCD_Password p selection_none n ?st1 =
     (resp_continue, n, emit cs (?st1\<lparr>show_select_timer := 1000, show_select_state := 5\<rparr>))"
    using psw_wait(3) [of ?st1] by auto
  let ?st2 = "emit cs (?st1\<lparr>show_select_timer := 1000, show_select_state := 5\<rparr>)"
  have small: "(of_nat d :: u8) + 1 < 16"
    using Suc.prems(3) by (simp add: word_less_def uint_plus_if')
  have dig: "uint b < 8 \<Longrightarrow> psw_digit (password_num ?st2) b = (if b = ?b then of_nat (Suc d) else psw_digit (password_num st) b)" for b
    using psw_digit_set [OF small Suc.prems(2), of b] by (simp add: add.commute)
  have "psw_play p (raise_script (Suc k) @ es) n st = psw_play p (raise_script k @ es) n ?st2"
    using u w by (simp add: raise_script_def)
  moreover obtain st' where "psw_play p (raise_script k @ es) n ?st2 = psw_play p es n st'" "show_select_state st' = 5"
    "blinking_on st' = ?b" "\<forall>b. uint b < 8 \<longrightarrow> psw_digit (password_num st') b =
       (if b = ?b then of_nat (Suc d + k) else psw_digit (password_num ?st2) b)"
    using Suc.IH [of ?st2 "Suc d"] Suc.prems dig by auto
  ultimately show ?case using dig by (intro exI [of _ st']) auto
qed

lemma psw_play_digit:
  assumes "show_select_state st = 2" "uint (blinking_on st) < 8" "k \<le> 9"
    and "psw_digit (password_num st) (blinking_on st) = 0"
  shows "\<exists>st'. psw_play p (digit_script k @ es) n st = psw_play p es n st' \<and>
    (if uint (blinking_on st) < 7 then show_select_state st' = 2 \<and> blinking_on st' = blinking_on st + 1
     else show_select_state st' = 6) \<and>
    (\<forall>b. uint b < 8 \<longrightarrow> psw_digit (password_num st') b =
       (if b = blinking_on st then of_nat k else psw_digit (password_num st) b))"
proof -
  let ?b = "blinking_on st"
  obtain cs1 where w1: "LCD_Password p selection_none n (st\<lparr>show_select_state := 3\<rparr>) =
     (resp_continue, n, emit cs1 (st\<lparr>show_select_timer := 500, show_select_state := 4\<rparr>))"
    using psw_wait(2) [of "st\<lparr>show_select_state := 3\<rparr>"] by auto
  let ?st1 = "ticked 500 (emit cs1 (st\<lparr>show_select_timer := 500, show_select_state := 4\<rparr>))"
  have "show_select_timer ?st1 = 0" by (rule ticked_timer) simp_all
  then obtain cs2 where w2: "LCD_Password p selection_none n ?st1 =
     (resp_continue, n, emit cs2 (?st1\<lparr>show_select_timer := 1000, show_select_state := 5\<rparr>))"
    using psw_wait(3) [of ?st1] by auto
  let ?st2 = "emit cs2 (?st1\<lparr>show_select_timer := 1000, show_select_state := 5\<rparr>)"
  have st2: "show_select_state ?st2 = 5" "blinking_on ?st2 = ?b" "password_num ?st2 = password_num st" by simp_all
  let ?tail = "[(0, selection_enter), (0, selection_none), (0, selection_up)] @ es"
  obtain st3 where st3: "psw_play p (raise_script k @ ?tail) n ?st2 = psw_play p ?tail n st3"
    "show_select_state st3 = 5" "blinking_on st3 = ?b"
    "\<forall>b. uint b < 8 \<longrightarrow> psw_digit (password_num st3) b = (if b = ?b then of_nat k else psw_digit (password_num st) b)"
    using psw_play_raise [of ?st2 0 k p ?tail n] assms st2 by auto
  obtain cs4 where w4: "LCD_Password p selection_none n (st3\<lparr>show_select_state := 1\<rparr>) =
     (resp_continue, n, emit cs4 (st3\<lparr>show_select_state := 2\<rparr>))"
    using psw_wait(1) [of "st3\<lparr>show_select_state := 1\<rparr>"] by auto
  let ?st4 = "emit cs4 (st3\<lparr>show_select_state := 2\<rparr>)"
  let ?st5 = "if uint ?b < 7 then emit [SetDDRAM (0x40 + (?b + 1))] (?st4\<lparr>blinking_on := ?b + 1\<rparr>)
    else ?st4\<lparr>show_select_state := 6\<rparr>"
  have w5: "LCD_Password p selection_up n ?st4 = (resp_continue, n, ?st5)"
    using st3(3) by (simp add: LCD_Password_def Let_def)
  have "psw_play p (digit_script k @ es) n st = psw_play p (raise_script k @ ?tail) n ?st2"
    using assms(1) w1 w2 by (simp add: digit_script_def)
  also have "\<dots> = psw_play p es n ?st5" using st3(1,2) w4 w5 by simp
  finally show ?thesis using st3(4) by (intro exI [of _ ?st5]) auto
qed

lemma psw_play_digits:
  assumes "show_select_state st = 2" "blinking_on st = of_nat k" "k + length ds = 8" "ds \<noteq> []"
    and "\<forall>d \<in> set ds. d \<le> 9" "\<forall>b. uint b < 8 \<and> k \<le> unat b \<longrightarrow> psw_digit (password_num st) b = 0"
  shows "\<exists>st'. psw_play p (concat (map digit_script ds) @ es) n st = psw_play p es n st' \<and> show_select_state st' = 6 \<and>
    (\<forall>b. uint b < 8 \<longrightarrow> psw_digit (password_num st') b =
       (if k \<le> unat b then of_nat (ds ! (unat b - k)) else psw_digit (password_num st) b))"
  using assms
proof (induction ds arbitrary: k st)
  case (Cons d ds)
  have k: "k < 8" "uint (blinking_on st) = int k" using Cons.prems(2,3) by simp_all
  have un: "unat (blinking_on st) = k" using k(2) unfolding uint_nat by linarith
  have "psw_digit (password_num st) (blinking_on st) = 0" using Cons.prems(6) k un by simp
  then obtain st1 where st1: "psw_play p (digit_script d @ concat (map digit_script ds) @ es) n st =
      psw_play p (concat (map digit_script ds) @ es) n st1"
    "if uint (blinking_on st) < 7 then show_select_state st1 = 2 \<and> blinking_on st1 = blinking_on st + 1
     else show_select_state st1 = 6"
    "\<forall>b. uint b < 8 \<longrightarrow> psw_digit (password_num st1) b =
       (if b = blinking_on st then of_nat d else psw_digit (password_num st) b)"
    using psw_play_digit [of st d p "concat (map digit_script ds) @ es" n] Cons.prems(1,5) k by auto
  have eqb: "b = blinking_on st \<longleftrightarrow> unat b = k" for b using un by (auto simp: word_unat_eq_iff)
  show ?case
  proof (cases "ds = []")
    case True
    then have "k = 7" using Cons.prems(3) by simp
    then have "show_select_state st1 = 6" using st1(2) k by simp
    moreover have "uint b < 8 \<Longrightarrow> 7 \<le> unat b \<longleftrightarrow> unat b = 7" for b :: u8 unfolding uint_nat by linarith
    ultimately show ?thesis using st1 True \<open>k = 7\<close> eqb by (intro exI [of _ st1]) simp
  next
    case False
    then have k7: "k < 7" using Cons.prems(3) by (cases ds) auto
    have "\<forall>b. uint b < 8 \<and> Suc k \<le> unat b \<longrightarrow> psw_digit (password_num st1) b = 0"
      using st1(3) Cons.prems(6) eqb by auto
    moreover have "show_select_state st1 = 2" "blinking_on st1 = of_nat (Suc k)"
      using st1(2) k k7 Cons.prems(2) by (simp_all add: add.commute)
    ultimately obtain st2 where st2: "psw_play p (concat (map digit_script ds) @ es) n st1 = psw_play p es n st2"
      "show_select_state st2 = 6"
      "\<forall>b. uint b < 8 \<longrightarrow> psw_digit (password_num st2) b =
         (if Suc k \<le> unat b then of_nat (ds ! (unat b - Suc k)) else psw_digit (password_num st1) b)"
      using Cons.IH [of st1 "Suc k"] Cons.prems(3,5) False by auto
    have "psw_digit (password_num st2) b = (if k \<le> unat b then of_nat ((d # ds) ! (unat b - k)) else psw_digit (password_num st) b)"
      if "uint b < 8" for b
    proof -
      have "(d # ds) ! (unat b - k) = ds ! (unat b - Suc k)" if "Suc k \<le> unat b"
        using that by (simp add: nth_Cons' )
      then show ?thesis using st2(3) st1(3) eqb that by auto
    qed
    then show ?thesis using st1(1) st2 by auto
  qed
qed simp

lemma psw_play_end:
  assumes "show_select_state st = 6"
  shows "\<exists>st'. psw_play p [(0, selection_none), (500, selection_none), (0, selection_enter), (0, selection_none)] n st =
    (resp_selected, password_num st, st') \<and> show_select_state st' = 0"
proof -
  obtain cs1 where w1: "LCD_Password p selection_none n st =
     (resp_continue, n, emit cs1 (st\<lparr>show_select_timer := 500, show_select_state := 7\<rparr>))"
    using psw_wait(4) [OF assms] by blast
  let ?st1 = "ticked 500 (emit cs1 (st\<lparr>show_select_timer := 500, show_select_state := 7\<rparr>))"
  have "show_select_timer ?st1 = 0" by (rule ticked_timer) simp_all
  then obtain cs2 where w2: "LCD_Password p selection_none n ?st1 =
     (resp_continue, n, emit cs2 (?st1\<lparr>show_select_timer := 1000, show_select_state := 8\<rparr>))"
    using psw_wait(5) [of ?st1] by auto
  let ?st3 = "emit cs2 (?st1\<lparr>show_select_timer := 1000, show_select_state := 9\<rparr>)"
  have e: "emit cs2 (?st1\<lparr>show_select_timer := 1000, show_select_state := 8\<rparr>)\<lparr>show_select_state := 9\<rparr> = ?st3"
    by (simp add: emit_def)
  have w4: "LCD_Password p selection_none n ?st3 = (resp_selected, password_num ?st3, ?st3\<lparr>show_select_state := 0\<rparr>)"
    by (simp add: LCD_Password_def)
  show ?thesis using w1 w2 w4 e by simp
qed

definition psw_digits :: "u32 \<Rightarrow> nat list" where
  "psw_digits x = map (\<lambda>k. unat (psw_digit x (of_nat k))) [0..<8]"

section \<open>Properties\<close>

text \<open>C19: Whatever switches and timers a caller feeds it, the password widget keeps its cursor on one of the
  eight digits and every digit between 0 and 9, it only hands out a password when it answers that one was
  selected, and the password it hands out is the number it holds.\<close>

theorem password_stays_decimal:
  assumes "psw_ok st" "psw_play p es n st = (r, n', st')"
  shows "psw_ok st' \<and> (r = resp_selected \<longrightarrow> decimal_psw n' \<and> n' = password_num st') \<and> (r \<noteq> resp_selected \<longrightarrow> n' = n)"
  using assms
proof (induction es arbitrary: n st)
  case Nil
  then show ?case by simp
next
  case (Cons e es)
  obtain k a where e: "e = (k, a)" by fastforce
  obtain r1 n1 st1 where s1: "LCD_Password p a n (ticked k st) = (r1, n1, st1)" by (metis prod_cases3)
  have ok: "psw_ok (ticked k st)" using Cons.prems(1) by (simp add: psw_ok_def)
  have ok1: "psw_ok st1" using psw_ok_step [OF ok s1] .
  show ?case
  proof (cases "r1 = resp_selected")
    case True
    then have "n1 = password_num (ticked k st)" "password_num st1 = password_num (ticked k st)"
      using psw_result [OF s1] s1 by (auto simp: LCD_Password_def)
    then show ?thesis using Cons.prems True s1 e ok1 ok by (auto simp: psw_ok_def)
  next
    case False
    then have "n1 = n" using psw_result [OF s1] by auto
    then show ?thesis using Cons.IH [OF ok1, of n] Cons.prems(2) False s1 e by auto
  qed
qed

theorem password_stays_decimal_witness:
  "psw_ok (snd (snd (psw_play [65] [(0, selection_none), (0, selection_none), (0, selection_dwn)] 5 lcd_utils_globals)))"
proof -
  have "psw_ok lcd_utils_globals" by (simp add: psw_ok_def lcd_utils_globals_def decimal_psw_0)
  from password_stays_decimal [OF this] show ?thesis by (metis prod.collapse)
qed

text \<open>C11: Every eight-digit password can be entered: from the start of the widget, a session of switch presses
  and waits exists, made digit by digit, after which the widget answers with exactly that password.\<close>

theorem every_password_can_be_entered:
  assumes "decimal_psw x" "show_select_state st = 0"
  shows "\<exists>st'. psw_play p (psw_script (psw_digits x)) n st = (resp_selected, x, st') \<and> show_select_state st' = 0"
proof -
  let ?ds = "psw_digits x"
  obtain cs1 where w1: "LCD_Password p selection_none n st =
     (resp_continue, n, emit cs1 (st\<lparr>password_num := 0, blinking_on := 0, show_select_state := 1\<rparr>))"
    using assms(2) by (auto simp: LCD_Password_def Let_def)
  define E :: "(nat \<times> sw_actions) list" where "E = [(0, selection_none), (500, selection_none), (0, selection_enter), (0, selection_none)]"
  obtain st1 where st1: "psw_play p (psw_script ?ds) n st = psw_play p (concat (map digit_script ?ds) @ E) n st1"
    "show_select_state st1 = 2" "blinking_on st1 = 0" "password_num st1 = 0"
    using w1 psw_wait(1) [of "emit cs1 (st\<lparr>password_num := 0, blinking_on := 0, show_select_state := 1\<rparr>)" p n]
    by (auto simp: psw_script_def E_def)
  have "unat (psw_digit x (of_nat k)) \<le> 9" if "k < 8" for k
  proof -
    have "psw_digit x (of_nat k) \<le> 9" using decimal_pswD [OF assms(1), of "of_nat k"] that by simp
    then show ?thesis by (simp add: word_le_nat_alt)
  qed
  then have le: "\<forall>d \<in> set ?ds. d \<le> 9" by (auto simp: psw_digits_def simp del: upt_Suc)
  have len: "0 + length ?ds = 8" "?ds \<noteq> []" by (simp_all add: psw_digits_def)
  have z: "psw_digit 0 b = 0" for b by (simp add: psw_digit_def)
  obtain st2 where st2: "psw_play p (concat (map digit_script ?ds) @ E) n st1 = psw_play p E n st2"
    "show_select_state st2 = 6" "\<forall>b. uint b < 8 \<longrightarrow> psw_digit (password_num st2) b = of_nat (?ds ! unat b)"
    using psw_play_digits [OF st1(2) _ len le, of p E n] st1(3,4) z by auto
  have "password_num st2 = x"
  proof (rule psw_digits_eqI)
    fix b :: u8 assume b: "uint b < 8"
    then have "unat b < 8" unfolding uint_nat by linarith
    then have "?ds ! unat b = unat (psw_digit x b)" by (simp add: psw_digits_def del: upt_Suc)
    then show "psw_digit (password_num st2) b = psw_digit x b" using st2(3) b by simp
  qed
  then show ?thesis using st1(1) st2(1) psw_play_end [OF st2(2), of p n] unfolding E_def by auto
qed

theorem every_password_can_be_entered_witness:
  "\<exists>st'. psw_play (cstr ''Ingrese Password'') (psw_script (psw_digits 0x00000022)) 0 lcd_utils_globals =
     (resp_selected, 0x00000022, st')"
proof -
  have "decimal_psw 0x00000022" by code_simp
  then show ?thesis using every_password_can_be_entered [of "0x00000022" lcd_utils_globals] by (auto simp: lcd_utils_globals_def)
qed

text \<open>C12: What the operator sees is what the widget holds: if the screen agrees with the state before a call, the
  calls it makes fit the display, and afterwards the first eight cells of the second line again show the digits
  (but for the one being changed while it is blanked), every cell of that line has been written, and a blinking
  cursor stands on the digit that would be changed.\<close>

theorem password_display_agrees:
  assumes "psw_ok st" "psw_shown st s" "length p \<le> 16" "list_all printable p"
    and "LCD_Password p a n (st\<lparr>lcd_log := []\<rparr>) = (r, n', st')"
  shows "calls_fit s (lcd_log st') \<and> psw_shown st' (screen_calls (lcd_log st') s)"
  by (rule psw_screen_step [OF assms])

theorem password_display_agrees_witness:
  "let st' = snd (snd (LCD_Password (cstr ''Ingrese Password'') selection_none 0 (lcd_utils_globals\<lparr>lcd_log := []\<rparr>)));
       s = \<lparr>ts_line = 0, ts_col = 0, ts_cell = \<lambda>_ _. 0, ts_cursor = False, ts_blink = False\<rparr>
   in psw_shown st' (screen_calls (lcd_log st') s) \<and> show_select_state st' = 1"
proof -
  let ?s = "\<lparr>ts_line = 0, ts_col = 0, ts_cell = \<lambda>_ _. 0, ts_cursor = False, ts_blink = False\<rparr>"
  obtain r n' st' where e: "LCD_Password (cstr ''Ingrese Password'') selection_none 0 (lcd_utils_globals\<lparr>lcd_log := []\<rparr>) = (r, n', st')"
    by (metis prod_cases3)
  then have "show_select_state st' = 1"
    by (auto simp: LCD_Password_def lcd_utils_globals_def Let_def)
  moreover have "psw_ok lcd_utils_globals" "psw_shown lcd_utils_globals ?s"
    by (simp_all add: psw_ok_def psw_shown_def lcd_utils_globals_def decimal_psw_0)
  moreover have "length (cstr ''Ingrese Password'') \<le> 16" "list_all printable (cstr ''Ingrese Password'')"
    by (simp_all add: printable_uint)
  ultimately show ?thesis using password_display_agrees [OF _ _ _ _ e] e by (simp add: Let_def)
qed

end
