(* ===== verification/C_Stdlib.thy ===== *)
theory C_Stdlib
  imports C_Prelude
begin

text \<open>
  What the sources use of the C standard library: decimal output, strings in memory that end at the
  first NUL, \<open>strncpy\<close>, \<open>atoi\<close>, and reading a text file line by line with \<open>fgets\<close>.
\<close>

section \<open>Decimal numbers\<close>

text \<open>\<open>sprintf ("%d")\<close> of a value that is not negative, of any value, and zero padding to a width.\<close>

fun decimal_digits :: "nat \<Rightarrow> u8 list" where
  "decimal_digits n = (if n < 10 then [48 + of_nat n] else decimal_digits (n div 10) @ [48 + of_nat (n mod 10)])"

declare decimal_digits.simps [simp del]

definition sprintf_d :: "int \<Rightarrow> u8 list" where
  "sprintf_d i = (if i < 0 then 45 # decimal_digits (nat (- i)) else decimal_digits (nat i))"

definition pad_zeros :: "nat \<Rightarrow> u8 list \<Rightarrow> u8 list" where
  "pad_zeros k ds = replicate (k - length ds) 48 @ ds"

definition is_digit :: "u8 \<Rightarrow> bool" where
  "is_digit c \<longleftrightarrow> 48 \<le> uint c \<and> uint c \<le> 57"

definition is_white :: "u8 \<Rightarrow> bool" where
  "is_white c \<longleftrightarrow> c = 32 \<or> 9 \<le> uint c \<and> uint c \<le> 13"

definition digits_value :: "u8 list \<Rightarrow> int" where
  "digits_value s = foldl (\<lambda>n c. n * 10 + (uint c - 48)) 0 s"

text \<open>
  \<open>atoi\<close> skips white space, takes a sign and then digits up to the first other byte: the number written there is
  \<open>atoi_value\<close>. A number that does not fit an \<open>int\<close> is undefined behaviour, a fault.
\<close>

definition atoi_value :: "u8 list \<Rightarrow> int" where
  "atoi_value s =
     (let s = dropWhile is_white s in
      case s of
        [] \<Rightarrow> 0
      | c # r \<Rightarrow> if c = 45 then - digits_value (takeWhile is_digit r)
                 else if c = 43 then digits_value (takeWhile is_digit r)
                 else digits_value (takeWhile is_digit s))"

abbreviation (input) INT_MAX :: int where "INT_MAX \<equiv> 2147483647"
abbreviation (input) INT_MIN :: int where "INT_MIN \<equiv> -2147483648"

definition atoi :: "u8 list \<Rightarrow> int c_result" where
  "atoi s = (if INT_MIN \<le> atoi_value s \<and> atoi_value s \<le> INT_MAX then Inr (atoi_value s) else Inl Signed_Overflow)"

text \<open>\<open>n++\<close> of an \<open>int\<close>.\<close>

definition inc_int :: "int \<Rightarrow> int c_result" where
  "inc_int n = (if n = INT_MAX then Inl Signed_Overflow else Inr (n + 1))"

lemma inc_int_ok [simp]: "n < INT_MAX \<Longrightarrow> inc_int n = Inr (n + 1)"
  by (simp add: inc_int_def)

lemma digits_value_snoc: "digits_value (s @ [c]) = digits_value s * 10 + (uint c - 48)"
  by (simp add: digits_value_def)

lemma uint_digit: "n < 10 \<Longrightarrow> uint (48 + of_nat n :: u8) = 48 + int n"
proof -
  assume n: "n < 10"
  have "(48 + of_nat n :: u8) = of_nat (48 + n)" by simp
  then show ?thesis using uint_of_nat_u8 [of "48 + n"] n by simp
qed

lemma decimal_digits_digits: "c \<in> set (decimal_digits n) \<Longrightarrow> is_digit c"
proof (induction n rule: decimal_digits.induct)
  case (1 n)
  have d: "is_digit (48 + of_nat k)" if "k < 10" for k :: nat
    using uint_digit [OF that] that by (simp add: is_digit_def)
  show ?case
  proof (cases "n < 10")
    case True
    then show ?thesis using 1(2) d [OF True] by (subst (asm) decimal_digits.simps) simp
  next
    case False
    then show ?thesis using 1 d [of "n mod 10"] by (subst (asm) (2) decimal_digits.simps) auto
  qed
qed

lemma decimal_digits_nonempty: "decimal_digits n \<noteq> []"
  by (subst decimal_digits.simps) simp

lemma digits_value_decimal: "digits_value (decimal_digits n) = int n"
proof (induction n rule: decimal_digits.induct)
  case (1 n)
  have s: "digits_value [c] = uint c - 48" for c by (simp add: digits_value_def)
  show ?case
  proof (cases "n < 10")
    case True
    then show ?thesis using uint_digit [OF True] by (subst decimal_digits.simps) (simp add: s)
  next
    case False
    then have "digits_value (decimal_digits n) = int (n div 10) * 10 + int (n mod 10)"
      using 1 uint_digit [of "n mod 10"] by (subst decimal_digits.simps) (simp add: digits_value_snoc)
    then show ?thesis by (simp add: zdiv_int zmod_int)
  qed
qed

lemma length_decimal_digits: "n < 10 ^ k \<Longrightarrow> 0 < k \<Longrightarrow> length (decimal_digits n) \<le> k"
proof (induction n arbitrary: k rule: decimal_digits.induct)
  case (1 n)
  show ?case
  proof (cases "n < 10")
    case True
    then show ?thesis using 1(3) by (subst decimal_digits.simps) simp
  next
    case False
    obtain j where j: "k = Suc j" using 1(3) by (cases k) auto
    then have "n div 10 < 10 ^ j" using 1(2) by (simp add: less_mult_imp_div_less mult.commute)
    moreover have "0 < j" using 1(2) False j by (cases j) auto
    ultimately show ?thesis using 1(1) [OF False] False j by (subst decimal_digits.simps) simp
  qed
qed

text \<open>What was printed is read back, whatever follows it, if that is not a digit.\<close>

lemma digit_not_white: "is_digit c \<Longrightarrow> \<not> is_white c \<and> c \<noteq> 45 \<and> c \<noteq> 43"
  by (auto simp: is_digit_def is_white_def)

lemma atoi_digits:
  assumes "list_all is_digit ds" "ds \<noteq> []" "rest = [] \<or> \<not> is_digit (hd rest)"
  shows "atoi_value (ds @ rest) = digits_value ds"
proof -
  obtain c r where c: "ds = c # r" using assms(2) by (cases ds) auto
  then have d: "is_digit c" "\<forall>b \<in> set r. is_digit b" using assms(1) by (auto simp: list_all_iff)
  have "takeWhile is_digit (ds @ rest) = ds"
    using d c assms(3) by (cases rest) (auto simp: takeWhile_append)
  then show ?thesis using digit_not_white [OF d(1)] c by (simp add: atoi_value_def)
qed

lemma atoi_decimal:
  assumes "rest = [] \<or> \<not> is_digit (hd rest)"
  shows "atoi_value (decimal_digits n @ rest) = int n"
  using atoi_digits [OF _ decimal_digits_nonempty assms] decimal_digits_digits digits_value_decimal by (simp add: list_all_iff)

lemma digits_value_append: "digits_value (a @ b) = digits_value a * 10 ^ length b + digits_value b"
proof (induction b rule: rev_induct)
  case (snoc c b)
  then show ?case using digits_value_snoc [of "a @ b" c] digits_value_snoc [of b c] by (simp add: algebra_simps)
qed (simp add: digits_value_def)

lemma digits_value_bounds: "list_all is_digit ds \<Longrightarrow> 0 \<le> digits_value ds \<and> digits_value ds < 10 ^ length ds"
proof (induction ds rule: rev_induct)
  case (snoc c ds)
  then show ?case by (auto simp: digits_value_snoc is_digit_def)
qed (simp add: digits_value_def)

lemma takeWhile_digits: "list_all is_digit (takeWhile is_digit s)"
  by (simp add: list_all_iff) (meson set_takeWhileD)

text \<open>\<open>atoi\<close> of \<open>n\<close> bytes, a sign among them.\<close>

lemma atoi_bounds:
  assumes "length s \<le> Suc n"
  shows "- (10 ^ n) < atoi_value s \<and> atoi_value s < 10 ^ Suc n"
proof -
  have v: "0 \<le> digits_value (takeWhile is_digit r) \<and> digits_value (takeWhile is_digit r) < 10 ^ k" if "length r \<le> k" for r k
  proof -
    have "length (takeWhile is_digit r) \<le> k" using that length_takeWhile_le le_trans by blast
    then have "(10 :: int) ^ length (takeWhile is_digit r) \<le> 10 ^ k" by (rule power_increasing) simp
    then show ?thesis using digits_value_bounds [OF takeWhile_digits [of r]] by linarith
  qed
  have d: "length (dropWhile is_white s) \<le> Suc n" using assms length_dropWhile_le le_trans by blast
  show ?thesis
  proof (cases "dropWhile is_white s")
    case Nil
    then show ?thesis by (simp only: atoi_value_def Let_def list.case) simp
  next
    case (Cons c r)
    have "length r \<le> n" "length r \<le> Suc n" "length (c # r) \<le> Suc n" using d Cons by simp_all
    moreover have "(0 :: int) < 10 ^ n" by simp
    ultimately show ?thesis using v [of r n] v [of r "Suc n"] v [of "c # r" "Suc n"] unfolding atoi_value_def Let_def Cons list.case
      by (cases "c = 45"; cases "c = 43") (simp_all del: takeWhile.simps power_Suc)
  qed
qed

lemma takeWhile_stop: "\<not> P c \<Longrightarrow> takeWhile P (s @ c # rest) = takeWhile P s"
  by (induction s) auto

lemma atoi_stop: "\<not> is_digit c \<Longrightarrow> \<not> is_white c \<Longrightarrow> c \<noteq> 45 \<Longrightarrow> c \<noteq> 43 \<Longrightarrow> atoi_value (s @ c # rest) = atoi_value s"
proof -
  assume c: "\<not> is_digit c" "\<not> is_white c" "c \<noteq> 45" "c \<noteq> 43"
  have "dropWhile is_white (s @ c # rest) = dropWhile is_white s @ c # rest"
    using c(2) by (induction s) auto
  then show ?thesis
    using c takeWhile_stop [of is_digit c _ rest]
    by (cases "dropWhile is_white s") (simp_all add: atoi_value_def digits_value_def del: dropWhile_eq_Nil_conv)
qed

section \<open>Strings in memory\<close>

text \<open>The string that starts at an offset of an object; without a NUL the read leaves the object.\<close>

definition c_str_at :: "u8 list \<Rightarrow> nat \<Rightarrow> u8 list c_result" where
  "c_str_at mem off =
     (if 0 \<in> set (drop off mem) then Inr (takeWhile (\<lambda>b. b \<noteq> 0) (drop off mem)) else Inl Out_Of_Bounds)"

text \<open>The bytes \<open>strncpy\<close> stores for \<open>n\<close> bytes of a source: up to its NUL, then zeros.\<close>

definition strncpy_bytes :: "nat \<Rightarrow> u8 list \<Rightarrow> u8 list" where
  "strncpy_bytes n s = (let t = takeWhile (\<lambda>b. b \<noteq> 0) (take n s) in t @ replicate (n - length t) 0)"

text \<open>
  \<open>strncpy\<close> from an object: the bytes from the source pointer to the end of the object. Without \<open>n\<close> bytes and without
  a NUL among them the copy reads past that end.
\<close>

definition strncpy_from :: "nat \<Rightarrow> u8 list \<Rightarrow> u8 list c_result" where
  "strncpy_from n s = (if length s < n \<and> 0 \<notin> set s then Inl Out_Of_Bounds else Inr (strncpy_bytes n s))"

lemma strncpy_from_ok [simp]: "n \<le> length s \<Longrightarrow> strncpy_from n s = Inr (strncpy_bytes n s)"
  by (simp add: strncpy_from_def)

definition mem_write :: "u8 list \<Rightarrow> nat \<Rightarrow> u8 list \<Rightarrow> u8 list c_result" where
  "mem_write mem off bs =
     (if off + length bs \<le> length mem then Inr (take off mem @ bs @ drop (off + length bs) mem) else Inl Out_Of_Bounds)"

lemma length_strncpy_bytes [simp]: "length (strncpy_bytes n s) = n"
proof -
  have "length (takeWhile (\<lambda>b. b \<noteq> 0) (take n s)) \<le> n" by (metis length_take length_takeWhile_le min.boundedE)
  then show ?thesis by (simp add: strncpy_bytes_def Let_def)
qed

lemma strncpy_bytes_eq: "0 \<notin> set s \<Longrightarrow> strncpy_bytes (length s) s = s"
proof -
  assume "0 \<notin> set s"
  then have "takeWhile (\<lambda>b. b \<noteq> 0) s = s" by (induction s) auto
  then show ?thesis by (simp only: strncpy_bytes_def take_all_iff [THEN iffD2] order_refl Let_def) simp
qed

section \<open>Reading lines\<close>

text \<open>\<open>fgets\<close> into a buffer of \<open>n\<close> bytes: at most \<open>n - 1\<close> of them, up to and with the first newline.\<close>

definition fgets_line :: "nat \<Rightarrow> u8 list \<Rightarrow> u8 list" where
  "fgets_line n s =
     (let l = take (n - 1) s; t = takeWhile (\<lambda>b. b \<noteq> 10) l in if length t < length l then t @ [10] else l)"

lemma fgets_line_prefix: "fgets_line n s = take (length (fgets_line n s)) s"
proof -
  let ?l = "take (n - 1) s" and ?t = "takeWhile (\<lambda>b. b \<noteq> 10) (take (n - 1) s)"
  show ?thesis
  proof (cases "length ?t < length ?l")
    case True
    then have "?l ! length ?t = 10" using nth_length_takeWhile [OF True] by simp
    then have "?t @ [10] = take (Suc (length ?t)) ?l"
      using True by (metis take_Suc_conv_app_nth takeWhile_eq_take)
    also have "\<dots> = take (Suc (length ?t)) s" 
    proof -
      have "Suc (length ?t) \<le> n - 1" using True by simp
      then show ?thesis by (simp only: take_take min.absorb1)
    qed
    finally show ?thesis using True by (simp add: fgets_line_def Let_def)
  next
    case False
    then have "fgets_line n s = ?l" by (simp only: fgets_line_def Let_def if_False)
    moreover have "?l = take (length ?l) s" by (simp add: min_def)
    ultimately show ?thesis by (simp only:)
  qed
qed

lemma fgets_line_pos: "s \<noteq> [] \<Longrightarrow> 2 \<le> n \<Longrightarrow> 0 < length (fgets_line n s)"
  by (auto simp: fgets_line_def Let_def)

lemma fgets_line_short:
  assumes "10 \<notin> set s" "length s \<le> n - 1"
  shows "fgets_line n s = s"
proof -
  have "takeWhile (\<lambda>b. b \<noteq> 10) s = s" using assms(1) by auto
  moreover have "take (n - 1) s = s" using assms(2) by simp
  ultimately show ?thesis by (simp only: fgets_line_def Let_def less_irrefl if_False)
qed

function fgets_all :: "nat \<Rightarrow> u8 list \<Rightarrow> u8 list list" where
  "fgets_all n s =
     (if s = [] \<or> n < 2 then [] else fgets_line n s # fgets_all n (drop (length (fgets_line n s)) s))"
  by pat_completeness auto
termination
proof (relation "measure (\<lambda>(_, s). length s)")
  fix n :: nat and s :: "u8 list"
  assume "\<not> (s = [] \<or> n < 2)"
  then have "0 < length (fgets_line n s)" "0 < length s" using fgets_line_pos by auto
  then show "((n, drop (length (fgets_line n s)) s), n, s) \<in> measure (\<lambda>(_, s). length s)" by simp
qed simp

declare fgets_all.simps [simp del]

text \<open>Reading a file with \<open>fgets\<close> until the end reads all of it, in order.\<close>

lemma concat_fgets_all: "2 \<le> n \<Longrightarrow> concat (fgets_all n s) = s"
proof (induction n s rule: fgets_all.induct)
  case (1 n s)
  show ?case
  proof (cases "s = []")
    case False
    then have "concat (fgets_all n s) = fgets_line n s @ drop (length (fgets_line n s)) s"
      using 1 by (subst fgets_all.simps) simp
    also have "\<dots> = s" by (metis append_take_drop_id fgets_line_prefix)
    finally show ?thesis .
  qed (simp add: fgets_all.simps)
qed

section \<open>Files\<close>

text \<open>
  The directory a program works in: the contents of each file that exists, and the files that can be
  opened for writing. A program that ends with \<open>exit\<close> leaves the files as they are at that point.
\<close>

type_synonym path = "u8 list"

record files =
  contents :: "path \<Rightarrow> u8 list option"
  writable :: "path \<Rightarrow> bool"

end
