(* ===== verification/Lcd_Select.thy ===== *)
theory Lcd_Select
  imports Lcd_Password C_Stdlib
begin

text \<open>
  The menu widgets of \<open>lcd_utils.c\<close> driven by an encoder: an entry to accept or leave
  (\<open>LCD_ShowSelectv2\<close>), a choice of two entries (\<open>LCD_EncoderShowSelect\<close>), an on/off option
  (\<open>LCD_EncoderOptionsOnOff\<close>) and a number within bounds (\<open>LCD_EncoderChange\<close>). Out parameters
  are passed in and returned.
\<close>

section \<open>An entry to accept or leave\<close>

abbreviation (input) SHOW_SELECT_INIT :: u8 where "SHOW_SELECT_INIT \<equiv> 0"
abbreviation (input) SHOW_SELECT_1 :: u8 where "SHOW_SELECT_1 \<equiv> 1"
abbreviation (input) SHOW_SELECT_2 :: u8 where "SHOW_SELECT_2 \<equiv> 2"
abbreviation (input) SHOW_SELECT_3 :: u8 where "SHOW_SELECT_3 \<equiv> 3"
abbreviation (input) SHOW_SELECT_SELECTED :: u8 where "SHOW_SELECT_SELECTED \<equiv> 4"
abbreviation (input) SHOW_SELECT_SELECTED_1 :: u8 where "SHOW_SELECT_SELECTED_1 \<equiv> 5"
abbreviation (input) SHOW_SELECT_CHANGE :: u8 where "SHOW_SELECT_CHANGE \<equiv> 6"
abbreviation (input) SHOW_SELECT_CHANGE_1 :: u8 where "SHOW_SELECT_CHANGE_1 \<equiv> 7"

definition LCD_ShowSelectv2Reset :: "lcd_utils \<Rightarrow> lcd_utils" where
  "LCD_ShowSelectv2Reset st = st\<lparr>show_select_state := SHOW_SELECT_INIT\<rparr>"

text \<open>The switch test that states 2 and 3 share.\<close>

definition show_select_switches :: "sw_actions \<Rightarrow> lcd_utils \<Rightarrow> lcd_utils" where
  "show_select_switches sw_action st =
     (if sw_action = selection_up \<or> sw_action = selection_dwn
      then st\<lparr>show_select_state := SHOW_SELECT_CHANGE, show_select_change_sw_action := sw_action\<rparr>
      else if sw_action = selection_enter then st\<lparr>show_select_state := SHOW_SELECT_SELECTED\<rparr>
      else st)"

definition LCD_ShowSelectv2 :: "u8 list \<Rightarrow> sw_actions \<Rightarrow> lcd_utils \<Rightarrow> resp \<times> lcd_utils" where
  "LCD_ShowSelectv2 p_text sw_action st =
    (let s = show_select_state st in
     if s = SHOW_SELECT_INIT then
       (resp_continue,
        emit [LCD_2DO_RENGLON, TransmitStr (cstr ''<-> o Set Acepta'')] (st\<lparr>show_select_state := s + 1\<rparr>))
     else if s = SHOW_SELECT_1 then
       (resp_continue,
        emit [LCD_1ER_RENGLON, TransmitStr p_text]
          (st\<lparr>show_select_timer := TT_SHOW_SELECT_IN_ON, show_select_state := s + 1\<rparr>))
     else if s = SHOW_SELECT_2 then
       (resp_continue,
        show_select_switches sw_action
          (if show_select_timer st = 0
           then emit [LCD_1ER_RENGLON, TransmitStr s_blank]
             (st\<lparr>show_select_timer := TT_SHOW_SELECT_IN_OFF, show_select_state := s + 1\<rparr>)
           else st))
     else if s = SHOW_SELECT_3 then
       (resp_continue,
        show_select_switches sw_action
          (if show_select_timer st = 0 then st\<lparr>show_select_state := SHOW_SELECT_1\<rparr> else st))
     else if s = SHOW_SELECT_SELECTED then
       (resp_continue,
        emit [LCD_1ER_RENGLON, TransmitStr p_text, LCD_2DO_RENGLON, TransmitStr (cstr ''Seleccionado... '')]
          (st\<lparr>show_select_state := s + 1\<rparr>))
     else if s = SHOW_SELECT_SELECTED_1 then
       (if sw_action = selection_none
        then (resp_selected, st\<lparr>show_select_state := SHOW_SELECT_INIT\<rparr>) else (resp_continue, st))
     else if s = SHOW_SELECT_CHANGE then
       (resp_continue,
        emit [LCD_1ER_RENGLON, TransmitStr p_text, LCD_2DO_RENGLON] (st\<lparr>show_select_state := s + 1\<rparr>))
     else if s = SHOW_SELECT_CHANGE_1 then
       (if sw_action = selection_none
        then (if show_select_change_sw_action st = selection_up then resp_change_all_up else resp_change,
              st\<lparr>show_select_state := SHOW_SELECT_INIT\<rparr>)
        else (resp_continue, st))
     else (resp_continue, st\<lparr>show_select_state := SHOW_SELECT_INIT\<rparr>))"

section \<open>A choice of two entries\<close>

definition LCD_EncoderShowSelectReset :: "lcd_utils \<Rightarrow> lcd_utils" where
  "LCD_EncoderShowSelectReset st = st\<lparr>encoder_select_state := ENCODER_SELECT_LINE1\<rparr>"

text \<open>The two line states differ in the text, the number of the line and the other line.\<close>

definition encoder_line ::
  "u8 list \<Rightarrow> u8 \<Rightarrow> encoder_show \<Rightarrow> sw_actions \<Rightarrow> lcd_utils \<Rightarrow> resp \<times> lcd_utils" where
  "encoder_line p_text line other sw_action st =
     (case LCD_ShowSelectv2 p_text sw_action st of (r, st) \<Rightarrow>
        let st = (if r = resp_change \<or> r = resp_change_all_up then st\<lparr>encoder_select_state := other\<rparr> else st)
        in if r = resp_selected
           then (resp_continue, st\<lparr>encoder_line_selected := line, encoder_select_state := ENCODER_SELECT_SELECTED\<rparr>)
           else (r, st))"

definition LCD_EncoderShowSelect ::
  "u8 list \<Rightarrow> u8 list \<Rightarrow> sw_actions \<Rightarrow> u8 \<Rightarrow> lcd_utils \<Rightarrow> resp \<times> u8 \<times> lcd_utils" where
  "LCD_EncoderShowSelect p_text1 p_text2 sw_action selected_line st =
     (case encoder_select_state st of
        ENCODER_SELECT_LINE1 \<Rightarrow>
          (case encoder_line p_text1 1 ENCODER_SELECT_LINE2 sw_action st of (r, st) \<Rightarrow> (r, selected_line, st))
      | ENCODER_SELECT_LINE2 \<Rightarrow>
          (case encoder_line p_text2 2 ENCODER_SELECT_LINE1 sw_action st of (r, st) \<Rightarrow> (r, selected_line, st))
      | ENCODER_SELECT_SELECTED \<Rightarrow>
          (resp_continue, selected_line,
           emit [LCD_2DO_RENGLON, TransmitStr (cstr ''Seleccionado... '')]
             (st\<lparr>encoder_select_state := ENCODER_SELECT_SELECTED_1\<rparr>))
      | ENCODER_SELECT_SELECTED_1 \<Rightarrow>
          if sw_action = selection_none
          then (resp_selected, encoder_line_selected st, st\<lparr>encoder_select_state := ENCODER_SELECT_LINE1\<rparr>)
          else (resp_continue, selected_line, st))"

section \<open>An on/off option\<close>

abbreviation (input) OPTIONS_ONOFF_INIT :: u8 where "OPTIONS_ONOFF_INIT \<equiv> 0"
abbreviation (input) OPTIONS_ONOFF_REDRAW :: u8 where "OPTIONS_ONOFF_REDRAW \<equiv> 1"
abbreviation (input) OPTIONS_ONOFF_WAIT_IN_ON :: u8 where "OPTIONS_ONOFF_WAIT_IN_ON \<equiv> 2"
abbreviation (input) OPTIONS_ONOFF_SELECT_OPTION :: u8 where "OPTIONS_ONOFF_SELECT_OPTION \<equiv> 4"

definition LCD_EncoderOptionsOnOffReset :: "lcd_utils \<Rightarrow> lcd_utils" where
  "LCD_EncoderOptionsOnOffReset st = st\<lparr>options_state := OPTIONS_ONOFF_INIT\<rparr>"

definition options_wait_in_on :: "sw_actions \<Rightarrow> lcd_utils \<Rightarrow> lcd_utils" where
  "options_wait_in_on actions st =
     (let st = (if actions = selection_up \<or> actions = selection_dwn
                then st\<lparr>options_state := OPTIONS_ONOFF_REDRAW,
                        options_curr_sel := (if options_curr_sel st \<noteq> 0 then 0 else 1)\<rparr> else st);
          st = (if actions = selection_enter
                then emit [LCD_2DO_RENGLON, TransmitStr (cstr ''Seleccionado... '')]
                  (st\<lparr>options_state := OPTIONS_ONOFF_SELECT_OPTION\<rparr>) else st)
      in if show_select_timer st = 0 then
           if display_on_or_off st \<noteq> 0
           then emit [SetDDRAM 13, TransmitStr (cstr ''   '')]
             (st\<lparr>display_on_or_off := 0, show_select_timer := TT_SHOW_SELECT_IN_OFF\<rparr>)
           else st\<lparr>display_on_or_off := 1, options_state := OPTIONS_ONOFF_REDRAW,
                   show_select_timer := TT_SHOW_SELECT_IN_ON\<rparr>
         else st)"

definition LCD_EncoderOptionsOnOff ::
  "u8 list \<Rightarrow> u8 \<Rightarrow> sw_actions \<Rightarrow> lcd_utils \<Rightarrow> resp \<times> u8 \<times> lcd_utils" where
  "LCD_EncoderOptionsOnOff primer_renglon bool_value actions st =
    (let s = options_state st in
     if s = OPTIONS_ONOFF_INIT then
       (resp_continue, bool_value,
        emit [LCD_1ER_RENGLON, TransmitStr primer_renglon, LCD_2DO_RENGLON, TransmitStr (cstr ''<-> o Set Acepta'')]
          (st\<lparr>options_curr_sel := bool_value, display_on_or_off := 1,
              show_select_timer := TT_SHOW_SELECT_IN_ON, options_state := OPTIONS_ONOFF_REDRAW\<rparr>))
     else if s = OPTIONS_ONOFF_REDRAW then
       (resp_continue, bool_value,
        emit [SetDDRAM 13, TransmitStr (if options_curr_sel st \<noteq> 0 then cstr '' Si'' else cstr '' No'')]
          (if actions = selection_none
           then st\<lparr>show_select_timer := TT_SHOW_SELECT_IN_ON, options_state := OPTIONS_ONOFF_WAIT_IN_ON\<rparr>
           else st))
     else if s = OPTIONS_ONOFF_WAIT_IN_ON then (resp_continue, bool_value, options_wait_in_on actions st)
     else if s = OPTIONS_ONOFF_SELECT_OPTION then
       (if actions = selection_none
        then (resp_finish, options_curr_sel st, st\<lparr>options_state := OPTIONS_ONOFF_INIT\<rparr>)
        else (resp_continue, bool_value, st))
     else (resp_continue, bool_value, st\<lparr>options_state := OPTIONS_ONOFF_INIT\<rparr>))"

section \<open>A number within bounds\<close>

abbreviation (input) CHANGE_INIT :: u8 where "CHANGE_INIT \<equiv> 0"
abbreviation (input) CHANGE_WAIT_SELECT_IN_ON :: u8 where "CHANGE_WAIT_SELECT_IN_ON \<equiv> 1"
abbreviation (input) CHANGE_SHOW_AGAIN :: u8 where "CHANGE_SHOW_AGAIN \<equiv> 3"
abbreviation (input) CHANGE_SELECT_DONE :: u8 where "CHANGE_SELECT_DONE \<equiv> 4"

definition LCD_EncoderChangeReset :: "lcd_utils \<Rightarrow> lcd_utils" where
  "LCD_EncoderChangeReset st = st\<lparr>change_state := CHANGE_INIT\<rparr>"

text \<open>
  \<open>sprintf ("%03d")\<close> of a \<open>short\<close>: decimal digits, at least three, padded with zeros.
  \<open>change_current_val\<close> is an \<open>unsigned short\<close>, so the value is never negative.
\<close>

definition sprintf_03d :: "u16 \<Rightarrow> u8 list" where
  "sprintf_03d v = pad_zeros 3 (decimal_digits (unat v))"

definition change_wait_select ::
  "u16 \<Rightarrow> u16 \<Rightarrow> sw_actions \<Rightarrow> lcd_utils \<Rightarrow> lcd_utils" where
  "change_wait_select min_val max_val actions st =
     (let st = (if actions = selection_up then
                  emit [LCD_2DO_RENGLON, TransmitStr (cstr ''++> o Set Acepta'')]
                    ((if change_current_val st < max_val
                      then st\<lparr>change_current_val := change_current_val st + 1, change_state := CHANGE_SHOW_AGAIN\<rparr>
                      else st)\<lparr>show_select_timer := TT_SHOW_SELECT_IN_ON\<rparr>) else st);
          st = (if actions = selection_dwn then
                  emit [LCD_2DO_RENGLON, TransmitStr (cstr ''<-- o Set Acepta'')]
                    ((if change_current_val st > min_val
                      then st\<lparr>change_current_val := change_current_val st - 1, change_state := CHANGE_SHOW_AGAIN\<rparr>
                      else st)\<lparr>show_select_timer := TT_SHOW_SELECT_IN_ON\<rparr>) else st);
          st = (if actions = selection_enter
                then emit [LCD_2DO_RENGLON, TransmitStr (cstr ''Seleccionado... '')]
                  (st\<lparr>change_state := CHANGE_SELECT_DONE\<rparr>) else st)
      in if show_select_timer st = 0 then
           if display_on_or_off st \<noteq> 0
           then emit [SetDDRAM 13, TransmitStr (cstr ''   ''), LCD_2DO_RENGLON, TransmitStr (cstr ''<-> o Set Acepta'')]
             (st\<lparr>display_on_or_off := 0, show_select_timer := TT_SHOW_SELECT_IN_OFF\<rparr>)
           else st\<lparr>display_on_or_off := 1, change_state := CHANGE_SHOW_AGAIN,
                   show_select_timer := TT_SHOW_SELECT_IN_ON\<rparr>
         else st)"

definition LCD_EncoderChange ::
  "u8 list \<Rightarrow> u16 \<Rightarrow> u16 \<Rightarrow> u16 \<Rightarrow> sw_actions \<Rightarrow> lcd_utils \<Rightarrow> resp \<times> u16 \<times> lcd_utils" where
  "LCD_EncoderChange primer_renglon orig_value min_val max_val actions st =
    (let s = change_state st in
     if s = CHANGE_INIT then
       (resp_continue, orig_value,
        emit [LCD_1ER_RENGLON, TransmitStr primer_renglon, LCD_2DO_RENGLON, TransmitStr (cstr ''<-> o Set Acepta'')]
          (st\<lparr>change_current_val := orig_value, display_on_or_off := 1,
              show_select_timer := TT_SHOW_SELECT_IN_ON, change_state := CHANGE_SHOW_AGAIN\<rparr>))
     else if s = CHANGE_WAIT_SELECT_IN_ON then
       (resp_continue, orig_value, change_wait_select min_val max_val actions st)
     else if s = CHANGE_SHOW_AGAIN then
       (resp_continue, orig_value,
        emit [SetDDRAM 13, TransmitStr (sprintf_03d (change_current_val st))]
          (st\<lparr>change_state := CHANGE_WAIT_SELECT_IN_ON\<rparr>))
     else if s = CHANGE_SELECT_DONE then
       (if actions = selection_none
        then (resp_finish, change_current_val st, st\<lparr>change_state := CHANGE_INIT\<rparr>)
        else (resp_continue, orig_value, st))
     else (resp_continue, orig_value, st\<lparr>change_state := CHANGE_INIT\<rparr>))"

section \<open>Calls that only write text\<close>

text \<open>
  Calls that fit the display whatever it shows, do not touch the cursor flags and never empty a cell.
  All widgets but the password one only make such calls.
\<close>

definition text_calls :: "lcd_call list \<Rightarrow> bool" where
  "text_calls cs \<longleftrightarrow> (\<forall>s. calls_fit s cs \<and>
     ts_cursor (screen_calls cs s) = ts_cursor s \<and> ts_blink (screen_calls cs s) = ts_blink s \<and>
     (\<forall>l c. ts_cell s l c \<noteq> 0 \<longrightarrow> ts_cell (screen_calls cs s) l c \<noteq> 0))"

definition line_fits :: "u8 \<Rightarrow> u8 list \<Rightarrow> bool" where
  "line_fits a t \<longleftrightarrow> list_all printable t \<and>
     (uint a + int (length t) \<le> 16 \<and> uint a < 16 \<or> 64 \<le> uint a \<and> uint a < 80 \<and> uint a - 64 + int (length t) \<le> 16)"

lemma text_calls_Nil [simp, intro]: "text_calls []"
  by (simp add: text_calls_def)

lemma text_calls_append [intro]: "text_calls cs \<Longrightarrow> text_calls ds \<Longrightarrow> text_calls (cs @ ds)"
  by (auto simp: text_calls_def)

lemma text_calls_pos: "line_fits a [] \<Longrightarrow> text_calls [SetDDRAM a]"
  by (auto simp: text_calls_def line_fits_def set_pos_def)

lemma text_calls_line:
  assumes "line_fits a t"
  shows "text_calls [SetDDRAM a, TransmitStr t]"
proof -
  have "\<exists>l k. l \<in> {0, 1} \<and> 0 \<le> k \<and> k + int (length t) \<le> 16 \<and> (\<forall>s. set_pos a s = s\<lparr>ts_line := l, ts_col := k\<rparr>)"
  proof (cases "uint a < 16")
    case True
    then show ?thesis using assms uint_ge_0 [of a]
      by (intro exI [of _ 0] exI [of _ "uint a"]) (auto simp: set_pos_def line_fits_def)
  next
    case False
    then show ?thesis using assms
      by (intro exI [of _ 1] exI [of _ "uint a - 64"]) (auto simp: set_pos_def line_fits_def)
  qed
  then obtain l k where lk: "l \<in> {0, 1}" "0 \<le> k" "k + int (length t) \<le> 16"
    "\<And>s. set_pos a s = s\<lparr>ts_line := l, ts_col := k\<rparr>" by blast
  have pr: "list_all printable t" and a: "uint a < 16 \<or> 64 \<le> uint a \<and> uint a < 80"
    using assms by (auto simp: line_fits_def)
  have cell: "ts_cell (fold put_char t (set_pos a s)) l' c =
      (if l' = l \<and> k \<le> c \<and> c < k + int (length t) then t ! nat (c - k) else ts_cell s l' c)" for s l' c
    unfolding lk(4) using lk pr by (subst fold_put_char_cell) auto
  have nz: "k \<le> c \<Longrightarrow> c < k + int (length t) \<Longrightarrow> t ! nat (c - k) \<noteq> 0" for c
    using printable_nth [OF pr, of "nat (c - k)"] by simp
  have fit: "calls_fit s [SetDDRAM a, TransmitStr t]" for s using lk pr a by auto
  have flags: "ts_cursor (fold put_char t (set_pos a s)) = ts_cursor s" "ts_blink (fold put_char t (set_pos a s)) = ts_blink s" for s
    by (simp_all add: lk(4))
  have keeps: "ts_cell s l' c \<noteq> 0 \<Longrightarrow> ts_cell (fold put_char t (set_pos a s)) l' c \<noteq> 0" for s l' c
    unfolding cell using nz [of c] by simp
  show ?thesis unfolding text_calls_def using fit flags keeps by simp
qed

lemma text_calls_Cons2:
  "line_fits a t \<Longrightarrow> text_calls cs \<Longrightarrow> text_calls (SetDDRAM a # TransmitStr t # cs)"
  using text_calls_append [OF text_calls_line, of a t cs] by simp

text \<open>Texts of the program: at most a line long, and printable.\<close>

definition text_ok :: "u8 list \<Rightarrow> bool" where
  "text_ok t \<longleftrightarrow> list_all printable t \<and> length t \<le> 16"

lemma line_fits_start [simp]: "line_fits 0 t \<longleftrightarrow> text_ok t" "line_fits 0x40 t \<longleftrightarrow> text_ok t"
  by (auto simp: line_fits_def text_ok_def)

lemma text_ok_cstr: "text_ok (cstr s) \<longleftrightarrow> list_all (\<lambda>c. printable (of_char c)) s \<and> length s \<le> 16"
  by (simp add: text_ok_def cstr_def list.pred_map comp_def)

text \<open>The log of a widget: what it was, then text.\<close>

definition logs_text :: "lcd_utils \<Rightarrow> lcd_utils \<Rightarrow> bool" where
  "logs_text st st' \<longleftrightarrow> (\<exists>cs. lcd_log st' = lcd_log st @ cs \<and> text_calls cs)"

lemma logs_text_same [simp]: "lcd_log st' = lcd_log st \<Longrightarrow> logs_text st st'"
  by (auto simp: logs_text_def)

lemma logs_text_emit [simp]: "lcd_log st' = lcd_log st \<Longrightarrow> logs_text st (emit cs st') \<longleftrightarrow> text_calls cs"
  by (auto simp: logs_text_def)

lemma logs_text_update [simp]:
  "logs_text st (st'\<lparr>show_select_state := a\<rparr>) = logs_text st st'"
  "logs_text st (st'\<lparr>show_select_change_sw_action := b\<rparr>) = logs_text st st'"
  "logs_text st (st'\<lparr>show_select_timer := c\<rparr>) = logs_text st st'"
  "logs_text st (st'\<lparr>options_state := d\<rparr>) = logs_text st st'"
  "logs_text st (st'\<lparr>options_curr_sel := d\<rparr>) = logs_text st st'"
  "logs_text st (st'\<lparr>change_state := d\<rparr>) = logs_text st st'"
  "logs_text st (st'\<lparr>display_on_or_off := d\<rparr>) = logs_text st st'"
  "logs_text st (st'\<lparr>encoder_select_state := e\<rparr>) = logs_text st st'"
  "logs_text st (st'\<lparr>encoder_line_selected := d\<rparr>) = logs_text st st'"
  by (simp_all add: logs_text_def)

lemma text_ok_Nil [simp]: "text_ok []"
  by (simp add: text_ok_def)

lemma logs_text_trans: "logs_text st st1 \<Longrightarrow> logs_text st1 st2 \<Longrightarrow> logs_text st st2"
  using text_calls_append by (fastforce simp: logs_text_def)

lemma s_blank_ok [simp]: "text_ok s_blank"
  by (simp add: s_blank_def text_ok_def printable_uint)

lemma widget_texts [simp]:
  "text_ok (cstr ''<-> o Set Acepta'')" "text_ok (cstr ''Seleccionado... '')"
  "text_ok (cstr ''++> o Set Acepta'')" "text_ok (cstr ''<-- o Set Acepta'')"
  by (simp_all add: text_ok_def printable_uint)

lemma field_texts [simp]:
  "line_fits 13 (cstr '' Si'')" "line_fits 13 (cstr '' No'')" "line_fits 13 (cstr ''   '')"
  by (simp_all add: line_fits_def printable_uint)

lemmas text_rules [simp] = text_calls_Cons2 text_calls_pos

lemma show_blink_text:
  assumes "text_ok t1" "text_ok t2" "LCD_ShowBlink t1 t2 n m st = (r, st')"
  shows "logs_text st st'"
  using assms by (auto simp: LCD_ShowBlink_def Let_def simp del: cstr_simps split: if_splits)

lemma show_select_text:
  assumes "text_ok t" "LCD_ShowSelectv2 t a st = (r, st')"
  shows "logs_text st st'"
  using assms
  by (auto simp: LCD_ShowSelectv2_def Let_def show_select_switches_def
      simp del: cstr_simps split: if_splits)

lemma encoder_select_text:
  assumes "text_ok t1" "text_ok t2" "LCD_EncoderShowSelect t1 t2 a l st = (r, l', st')"
  shows "logs_text st st'"
proof -
  have line: "logs_text st st1" if "text_ok t" "encoder_line t k e' a st = (r1, st1)" for t k e' r1 st1
  proof -
    obtain r2 st2 where s: "LCD_ShowSelectv2 t a st = (r2, st2)" by fastforce
    have "lcd_log st1 = lcd_log st2" using that(2) s by (auto simp: encoder_line_def Let_def split: if_splits)
    then show ?thesis using show_select_text [OF that(1) s] by (simp add: logs_text_def)
  qed
  show ?thesis
    using assms line
    by (cases "encoder_select_state st") (auto simp: LCD_EncoderShowSelect_def simp del: cstr_simps split: if_splits prod.splits)
qed

lemma options_text:
  assumes "text_ok t" "LCD_EncoderOptionsOnOff t v a st = (r, v', st')"
  shows "logs_text st st'"
proof -
  have w: "logs_text st (options_wait_in_on a st)"
    by (auto simp: options_wait_in_on_def Let_def logs_text_def simp del: cstr_simps intro!: text_calls_append text_rules)
  show ?thesis
    using assms w by (auto simp: LCD_EncoderOptionsOnOff_def Let_def simp del: cstr_simps split: if_splits)
qed

text \<open>The number widget writes at most three digits while its value stays below a thousand.\<close>

lemma decimal_digits_printable: "list_all printable (decimal_digits n)"
proof (induction n rule: decimal_digits.induct)
  case (1 n)
  have d: "k < 10 \<Longrightarrow> printable (48 + of_nat k)" for k :: nat
    by (simp add: printable_uint uint_plus_if')
  show ?case
    by (subst decimal_digits.simps) (use 1 d [of n] d [of "n mod 10"] in auto)
qed

lemma sprintf_fits: "uint v < 1000 \<Longrightarrow> line_fits 13 (sprintf_03d v)"
proof -
  assume "uint v < 1000"
  then have "unat v < 1000" unfolding uint_nat by linarith
  then have "length (sprintf_03d v) = 3"
    using length_decimal_digits [of "unat v" 3] by (simp add: sprintf_03d_def pad_zeros_def)
  moreover have "list_all printable (sprintf_03d v)"
    using decimal_digits_printable by (auto simp: sprintf_03d_def pad_zeros_def list_all_iff printable_uint)
  ultimately show ?thesis by (simp add: line_fits_def)
qed

lemma change_text:
  assumes "text_ok t" "uint (change_current_val st) < 1000" "LCD_EncoderChange t v mn mx a st = (r, v', st')"
  shows "logs_text st st'"
proof -
  have w: "logs_text st (change_wait_select mn mx a st)"
    by (auto simp: change_wait_select_def Let_def logs_text_def simp del: cstr_simps intro!: text_calls_append text_rules)
  show ?thesis
    using assms w sprintf_fits by (auto simp: LCD_EncoderChange_def Let_def simp del: cstr_simps split: if_splits)
qed

section \<open>What the widgets leave alone\<close>

definition same_psw :: "lcd_utils \<Rightarrow> lcd_utils \<Rightarrow> bool" where
  "same_psw st st' \<longleftrightarrow> blinking_on st' = blinking_on st \<and> password_num st' = password_num st"

lemma emit_more_sel [simp]:
  "blinking_on (emit cs st) = blinking_on st" "password_num (emit cs st) = password_num st"
  "change_current_val (emit cs st) = change_current_val st" "change_state (emit cs st) = change_state st"
  "options_state (emit cs st) = options_state st" "options_curr_sel (emit cs st) = options_curr_sel st"
  "display_on_or_off (emit cs st) = display_on_or_off st" "encoder_select_state (emit cs st) = encoder_select_state st"
  by (simp_all add: emit_def)

lemma show_blink_frame:
  assumes "LCD_ShowBlink t1 t2 n m st = (r, st')"
  shows "same_psw st st' \<and> change_current_val st' = change_current_val st \<and> change_state st' = change_state st \<and>
    (r = resp_continue \<or> r = resp_finish \<and> blinking_state st' = 0)"
  using assms by (auto simp: LCD_ShowBlink_def Let_def same_psw_def split: if_splits)

lemma show_select_frame:
  assumes "LCD_ShowSelectv2 t a st = (r, st')"
  shows "same_psw st st' \<and> change_current_val st' = change_current_val st \<and> change_state st' = change_state st \<and>
    encoder_select_state st' = encoder_select_state st \<and>
    (r = resp_continue \<or> r \<in> {resp_selected, resp_change, resp_change_all_up} \<and> show_select_state st' = 0 \<and> a = selection_none)"
  using assms by (auto simp: LCD_ShowSelectv2_def Let_def same_psw_def show_select_switches_def split: if_splits)

lemma encoder_select_frame:
  assumes "LCD_EncoderShowSelect t1 t2 a l st = (r, l', st')"
  shows "same_psw st st' \<and> change_current_val st' = change_current_val st \<and> change_state st' = change_state st"
proof -
  have line: "same_psw st st1 \<and> change_current_val st1 = change_current_val st \<and> change_state st1 = change_state st"
    if "encoder_line t k e' a st = (r1, st1)" for t k e' r1 st1
    using that show_select_frame [of t a st] by (auto simp: encoder_line_def Let_def same_psw_def split: if_splits prod.splits)
  show ?thesis
    using assms line
    by (cases "encoder_select_state st") (auto simp: LCD_EncoderShowSelect_def same_psw_def split: if_splits prod.splits)
qed

lemma options_frame:
  assumes "LCD_EncoderOptionsOnOff t v a st = (r, v', st')"
  shows "same_psw st st' \<and> change_current_val st' = change_current_val st \<and> change_state st' = change_state st"
  using assms by (auto simp: LCD_EncoderOptionsOnOff_def options_wait_in_on_def Let_def same_psw_def split: if_splits)

lemma change_frame:
  assumes "LCD_EncoderChange t v mn mx a st = (r, v', st')"
  shows "same_psw st st'"
  using assms by (auto simp: LCD_EncoderChange_def change_wait_select_def Let_def same_psw_def split: if_splits)

section \<open>The number stays within its bounds\<close>

definition change_within :: "u16 \<Rightarrow> u16 \<Rightarrow> lcd_utils \<Rightarrow> bool" where
  "change_within mn mx st \<longleftrightarrow> change_state st \<noteq> 0 \<longrightarrow> mn \<le> change_current_val st \<and> change_current_val st \<le> mx"

lemma word_step_bounds:
  fixes x :: u16
  shows "mn \<le> x \<Longrightarrow> x < mx \<Longrightarrow> mn \<le> x + 1 \<and> x + 1 \<le> mx" "mn < x \<Longrightarrow> x \<le> mx \<Longrightarrow> mn \<le> x - 1 \<and> x - 1 \<le> mx"
proof -
  show "mn \<le> x + 1 \<and> x + 1 \<le> mx" if "mn \<le> x" "x < mx"
  proof -
    have "uint (x + 1) = uint x + 1"
      using that(2) uint_bounded [of mx] by (simp add: uint_plus_if' word_less_def)
    then show ?thesis using that by (simp add: word_le_def word_less_def)
  qed
  show "mn \<le> x - 1 \<and> x - 1 \<le> mx" if "mn < x" "x \<le> mx"
  proof -
    have "x \<noteq> 0" using that(1) by auto
    then have "uint (x - 1) = uint x - 1" using uint_pos [of x] by (simp add: uint_sub_if')
    then show ?thesis using that by (simp add: word_le_def word_less_def)
  qed
qed

lemma change_step_within:
  assumes "change_within mn mx st" "mn \<le> v" "v \<le> mx" "LCD_EncoderChange t v mn mx a st = (r, v', st')"
  shows "change_within mn mx st' \<and> mn \<le> v' \<and> v' \<le> mx"
  using assms word_step_bounds [of mn "change_current_val st" mx]
  by (auto simp: LCD_EncoderChange_def change_wait_select_def change_within_def Let_def split: if_splits)

text \<open>A session of the number widget: ticks, then a call, until it answers that it is done.\<close>

fun change_play ::
  "u8 list \<Rightarrow> u16 \<Rightarrow> u16 \<Rightarrow> (nat \<times> sw_actions) list \<Rightarrow> u16 \<Rightarrow> lcd_utils \<Rightarrow> resp \<times> u16 \<times> lcd_utils" where
  "change_play t mn mx [] v st = (resp_continue, v, st)"
| "change_play t mn mx ((k, a) # es) v st =
     (case LCD_EncoderChange t v mn mx a (ticked k st) of (r, v', st') \<Rightarrow>
        if r = resp_finish then (r, v', st') else change_play t mn mx es v' st')"

lemma update_timer_change [simp]:
  "change_state (LCD_UpdateTimer st) = change_state st"
  "change_current_val (LCD_UpdateTimer st) = change_current_val st"
  "options_state (LCD_UpdateTimer st) = options_state st"
  "options_curr_sel (LCD_UpdateTimer st) = options_curr_sel st"
  "encoder_select_state (LCD_UpdateTimer st) = encoder_select_state st"
  by (simp_all add: LCD_UpdateTimer_def Let_def)

lemma ticked_change [simp]:
  "change_state (ticked k st) = change_state st"
  "change_current_val (ticked k st) = change_current_val st"
  by (induction k arbitrary: st) simp_all

section \<open>Properties\<close>

text \<open>The number editor never leaves its bounds: started on a value between the minimum and the maximum, any
  session of switches and timer ticks keeps the edited value between them, and so is the value it hands back.\<close>

theorem encoder_change_within_bounds:
  assumes "mn \<le> v" "v \<le> mx" "change_within mn mx st" "change_play t mn mx es v st = (r, v', st')"
  shows "mn \<le> v' \<and> v' \<le> mx \<and> change_within mn mx st'"
  using assms
proof (induction es arbitrary: v st)
  case (Cons e es)
  obtain k a where e: "e = (k, a)" by fastforce
  obtain r1 v1 st1 where s1: "LCD_EncoderChange t v mn mx a (ticked k st) = (r1, v1, st1)" by (metis prod_cases3)
  have w: "change_within mn mx (ticked k st)" using Cons.prems(3) by (simp add: change_within_def)
  have b: "change_within mn mx st1" "mn \<le> v1" "v1 \<le> mx"
    using change_step_within [OF w Cons.prems(1,2) s1] by auto
  show ?case
    using Cons.IH [OF b(2,3,1)] Cons.prems(4) s1 e b by (cases "r1 = resp_finish") auto
qed simp

theorem encoder_change_within_bounds_witness:
  "fst (snd (change_play [65] 1 100 [(0, selection_none), (0, selection_none), (0, selection_up), (0, selection_none)]
     100 lcd_utils_globals)) \<le> 100"
proof -
  have "change_within 1 100 lcd_utils_globals" by (simp add: change_within_def lcd_utils_globals_def)
  moreover obtain r v' st' where e: "change_play [65] 1 100 [(0, selection_none), (0, selection_none), (0, selection_up),
      (0, selection_none)] 100 lcd_utils_globals = (r, v', st')" by (metis prod_cases3)
  ultimately show ?thesis
    using encoder_change_within_bounds [of 1 100 100 lcd_utils_globals, OF _ _ _ e] by (simp add: word_le_def)
qed

text \<open>An entry of the menu answers to the switch that was pressed: from either half of its blinking, whatever
  the timer, one call that sees Enter, Up or Down and, after any call in between, one that sees the switch released
  make the widget answer selected, change up or change, back in its initial state.\<close>

theorem show_select_answers:
  assumes "show_select_state st \<in> {2, 3}" "a \<in> {selection_enter, selection_up, selection_dwn}"
    and "LCD_ShowSelectv2 t a st = (r1, st1)" "LCD_ShowSelectv2 t b (ticked k1 st1) = (r2, st2)"
    and "LCD_ShowSelectv2 t selection_none (ticked k2 st2) = (r3, st3)"
  shows "r1 = resp_continue \<and> r2 = resp_continue \<and> show_select_state st3 = 0 \<and>
    r3 = (if a = selection_enter then resp_selected else if a = selection_up then resp_change_all_up else resp_change)"
proof -
  have tk: "show_select_change_sw_action (ticked k x) = show_select_change_sw_action x" for k x
  proof (induction k arbitrary: x)
    case (Suc k)
    have "show_select_change_sw_action (LCD_UpdateTimer x) = show_select_change_sw_action x"
      by (simp add: LCD_UpdateTimer_def Let_def)
    then show ?case using Suc by simp
  qed simp
  have s1: "r1 = resp_continue" "show_select_state st1 = (if a = selection_enter then 4 else 6)"
    "a \<noteq> selection_enter \<longrightarrow> show_select_change_sw_action st1 = a"
    using assms(1-3) by (auto simp: LCD_ShowSelectv2_def show_select_switches_def split: if_splits)
  have s2: "r2 = resp_continue" "show_select_state st2 = (if a = selection_enter then 5 else 7)"
    "show_select_change_sw_action st2 = show_select_change_sw_action st1"
    using assms(4) s1(2) by (auto simp: LCD_ShowSelectv2_def emit_def tk split: if_splits)
  show ?thesis
    using assms(2,5) s1 s2 by (auto simp: LCD_ShowSelectv2_def tk split: if_splits)
qed

theorem show_select_answers_witness:
  "let st = lcd_utils_globals\<lparr>show_select_state := 3, show_select_timer := 7\<rparr>;
       st1 = snd (LCD_ShowSelectv2 [65] selection_up st);
       st2 = snd (LCD_ShowSelectv2 [65] selection_up (ticked 3 st1))
   in fst (LCD_ShowSelectv2 [65] selection_none (ticked 2 st2)) = resp_change_all_up"
  unfolding Let_def
  using show_select_answers [OF _ _ surjective_pairing surjective_pairing surjective_pairing,
      of "lcd_utils_globals\<lparr>show_select_state := 3, show_select_timer := 7\<rparr>" selection_up "[65]" selection_up 3 2] by simp

text \<open>A press of Enter can be lost: if it is seen by the on/off widget or the number widget in the call in which
  the dark phase of the blinking ends, the state the press selected is overwritten and the widget goes on as if
  nothing had been pressed, although it has already shown the message that the option was selected.\<close>

theorem enter_lost_when_blink_ends:
  assumes "show_select_timer st = 0" "display_on_or_off st = 0" "options_state st = 2" "change_state st = 1"
  shows "LCD_EncoderOptionsOnOff t v selection_enter st =
      (resp_continue, v, emit [SetDDRAM 0x40, TransmitStr (cstr ''Seleccionado... '')]
        (st\<lparr>display_on_or_off := 1, options_state := 1, show_select_timer := 1000\<rparr>)) \<and>
    LCD_EncoderChange t w mn mx selection_enter st =
      (resp_continue, w, emit [SetDDRAM 0x40, TransmitStr (cstr ''Seleccionado... '')]
        (st\<lparr>display_on_or_off := 1, change_state := 3, show_select_timer := 1000\<rparr>))"
  using assms
  by (simp add: LCD_EncoderOptionsOnOff_def options_wait_in_on_def LCD_EncoderChange_def change_wait_select_def
      Let_def emit_def)

theorem enter_lost_when_blink_ends_witness:
  "let st = lcd_utils_globals\<lparr>options_state := 2, change_state := 1\<rparr>
   in options_state (snd (snd (LCD_EncoderOptionsOnOff [65] 1 selection_enter st))) = 1 \<and>
      change_state (snd (snd (LCD_EncoderChange [65] 5 1 100 selection_enter st))) = 3"
  unfolding Let_def
  using enter_lost_when_blink_ends [of "lcd_utils_globals\<lparr>options_state := 2, change_state := 1\<rparr>" "[65]" 1 5 1 100]
  by (simp add: lcd_utils_globals_def)

end
