(* ===== verification/Menues.thy ===== *)
theory Menues
  imports Lcd_Select
begin

text \<open>
  The menus of \<open>menues.c\<close>: the state machine that asks for a password, shows the entries of the
  configuration and edits them, and the short menu for the treatment time. Each case of the C switch
  is a definition; the six \<open>MENU_SHOW_*\<close> cases share \<open>menu_show_entry\<close>.
\<close>

section \<open>Configuration and state\<close>

text \<open>\<open>parameters_typedef\<close> of \<open>parameters.h\<close>.\<close>

record mem_bkp =
  treatment_time_min :: u8
  alarms_onoff :: u8
  ticker_onoff :: u8
  ticker_time :: u16
  saved_psw :: u32
  new_psw :: u32
  operation_mode :: u8
  dummy1 :: u8
  dummy2 :: u8

datatype menu_state_t =
    MENU_INIT | MENU_GET_PASSWORD | MENU_SHOW_TREATMENT_TIME | MENU_SHOW_ALARM | MENU_SHOW_TICKER
  | MENU_SHOW_MODE | MENU_SHOW_PASS | MENU_SHOW_END_CONF | MENU_CONF_TREATMENT_TIME | MENU_CONF_ALARM
  | MENU_CONF_TICKER | MENU_CONF_MODE | MENU_CONF_PASS | MENU_CONF_CONFIRM | MENU_END_CONF

datatype menu_enc_state_t = MENU_ENC_INIT | MENU_ENC_TIEMPO_ENCENDIDO

datatype resp_sw = SW_NO | SW_MIN | SW_HALF | SW_FULL

record menues =
  menu_state :: menu_state_t
  menu_enc_state :: menu_enc_state_t
  utils :: lcd_utils
  configurations :: mem_bkp

definition DEFAULT_PASSWORD :: u32 where "DEFAULT_PASSWORD = 0x00000022"

abbreviation (input) NORMAL_MODE :: u8 where "NORMAL_MODE \<equiv> 1"
abbreviation (input) CARD_MODE :: u8 where "CARD_MODE \<equiv> 2"
abbreviation (input) MINIMUN_TIME_ALLOWED :: u16 where "MINIMUN_TIME_ALLOWED \<equiv> 1"
abbreviation (input) MAXIMUN_TIME_ALLOWED :: u16 where "MAXIMUN_TIME_ALLOWED \<equiv> 100"

section \<open>Switches\<close>

text \<open>
  \<open>CheckSET\<close>, \<open>CheckCCW\<close> and \<open>CheckCW\<close> belong to the module of the hardware (in this repository, to the
  simulators); a call of the menu sees one reading of each.
\<close>

record switches =
  sw_set :: resp_sw
  sw_ccw :: u8
  sw_cw :: u8

definition menu_actions :: "switches \<Rightarrow> sw_actions" where
  "menu_actions sw =
     (let actions = selection_none;
          actions = (if sw_set sw \<noteq> SW_NO then selection_enter else actions);
          actions = (if sw_ccw sw \<noteq> 0 then selection_dwn else actions);
          actions = (if sw_cw sw \<noteq> 0 then selection_up else actions)
      in actions)"

definition changed :: "sw_actions \<Rightarrow> resp \<Rightarrow> resp" where
  "changed actions r = (if actions \<noteq> selection_none then resp_change else r)"

section \<open>The cases of the main menu\<close>

definition MENU_Main_Reset :: "menues \<Rightarrow> menues" where
  "MENU_Main_Reset m = m\<lparr>menu_state := MENU_INIT\<rparr>"

definition menu_init :: "switches \<Rightarrow> menues \<Rightarrow> resp \<times> menues" where
  "menu_init sw m =
     (case LCD_ShowBlink (cstr ''  Entrando en   '') (cstr ''Config Predeterm'') 1 BLINK_DIRECT (utils m) of (r, u) \<Rightarrow>
        if r = resp_finish then
          (resp_continue,
           if sw_set sw = SW_NO then m\<lparr>utils := LCD_PasswordReset u, menu_state := MENU_GET_PASSWORD\<rparr>
           else m\<lparr>utils := u\<rparr>)
        else (r, m\<lparr>utils := u\<rparr>))"

text \<open>
  The message of a wrong password: \<open>do ... while (resp == resp_continue)\<close>. The timers the widget waits
  for are counted down elsewhere: \<open>tick\<close> is what happens to the module between two iterations, the
  timer interrupt on the target, nothing in the simulators. A loop that never ends is \<open>None\<close>.
\<close>

partial_function (option) password_incorrect ::
  "(lcd_utils \<Rightarrow> lcd_utils) \<Rightarrow> lcd_utils \<Rightarrow> (resp \<times> lcd_utils) option" where
  "password_incorrect tick u =
     (case LCD_ShowBlink (cstr '' Password       '') (cstr ''  Incorrecto!!! '') 1 BLINK_DIRECT u of (r, u') \<Rightarrow>
        if r = resp_continue then password_incorrect tick (tick u') else Some (r, u'))"

definition menu_get_password :: "(lcd_utils \<Rightarrow> lcd_utils) \<Rightarrow> sw_actions \<Rightarrow> menues \<Rightarrow> (resp \<times> menues) option" where
  "menu_get_password tick actions m =
     (case LCD_Password (cstr ''Ingrese Password'') actions 0 (utils m) of (r, psw, u) \<Rightarrow>
        if r = resp_selected then
          if psw = DEFAULT_PASSWORD \<or> psw = saved_psw (configurations m) then
            Some (changed actions r, m\<lparr>utils := LCD_ShowSelectv2Reset u, menu_state := MENU_SHOW_TREATMENT_TIME\<rparr>)
          else
            (case password_incorrect tick u of
               None \<Rightarrow> None
             | Some (_, u) \<Rightarrow> Some (changed actions resp_finish, m\<lparr>utils := u, menu_state := MENU_INIT\<rparr>))
        else Some (changed actions r, m\<lparr>utils := u\<rparr>))"

text \<open>An entry of the menu: turn to the entry before or after it, or accept it.\<close>

definition menu_show_entry ::
  "u8 list \<Rightarrow> menu_state_t \<Rightarrow> menu_state_t \<Rightarrow> menu_state_t \<Rightarrow> (lcd_utils \<Rightarrow> lcd_utils) \<Rightarrow>
   sw_actions \<Rightarrow> menues \<Rightarrow> resp \<times> menues" where
  "menu_show_entry text down up conf reset actions m =
     (case LCD_ShowSelectv2 text actions (utils m) of (r, u) \<Rightarrow>
        (changed actions r,
         if r = resp_change then m\<lparr>utils := u, menu_state := down\<rparr>
         else if r = resp_change_all_up then m\<lparr>utils := u, menu_state := up\<rparr>
         else if r = resp_selected then m\<lparr>utils := reset u, menu_state := conf\<rparr>
         else m\<lparr>utils := u\<rparr>))"

definition menu_show_treatment_time :: "sw_actions \<Rightarrow> menues \<Rightarrow> resp \<times> menues" where
  "menu_show_treatment_time =
     menu_show_entry (cstr ''Tiempo Predeterm'') MENU_SHOW_END_CONF MENU_SHOW_ALARM
       MENU_CONF_TREATMENT_TIME LCD_EncoderChangeReset"

definition menu_show_alarm :: "sw_actions \<Rightarrow> menues \<Rightarrow> resp \<times> menues" where
  "menu_show_alarm =
     menu_show_entry (cstr ''Alarma          '') MENU_SHOW_TREATMENT_TIME MENU_SHOW_TICKER
       MENU_CONF_ALARM LCD_EncoderOptionsOnOffReset"

definition menu_show_ticker :: "sw_actions \<Rightarrow> menues \<Rightarrow> resp \<times> menues" where
  "menu_show_ticker =
     menu_show_entry (cstr ''Ticker          '') MENU_SHOW_ALARM MENU_SHOW_MODE
       MENU_CONF_TICKER LCD_EncoderOptionsOnOffReset"

definition menu_show_mode :: "sw_actions \<Rightarrow> menues \<Rightarrow> resp \<times> menues" where
  "menu_show_mode =
     menu_show_entry (cstr ''Modo Operacion  '') MENU_SHOW_TICKER MENU_SHOW_PASS MENU_CONF_MODE (\<lambda>u. u)"

definition menu_show_pass :: "sw_actions \<Rightarrow> menues \<Rightarrow> resp \<times> menues" where
  "menu_show_pass =
     menu_show_entry (cstr ''Set Password    '') MENU_SHOW_MODE MENU_SHOW_END_CONF MENU_CONF_PASS (\<lambda>u. u)"

definition menu_show_end_conf :: "sw_actions \<Rightarrow> menues \<Rightarrow> resp \<times> menues" where
  "menu_show_end_conf =
     menu_show_entry (cstr ''Grabar config   '') MENU_SHOW_PASS MENU_SHOW_TREATMENT_TIME
       MENU_END_CONF LCD_EncoderOptionsOnOffReset"

definition menu_conf_treatment_time :: "sw_actions \<Rightarrow> menues \<Rightarrow> resp \<times> menues" where
  "menu_conf_treatment_time actions m =
     (let time = ucast (treatment_time_min (configurations m)) in
      case LCD_EncoderChange (cstr ''minutos:        '') time MINIMUN_TIME_ALLOWED MAXIMUN_TIME_ALLOWED
             actions (utils m) of (r, time, u) \<Rightarrow>
        if r = resp_finish then
          (changed actions resp_continue,
           m\<lparr>utils := u, configurations := (configurations m)\<lparr>treatment_time_min := ucast time\<rparr>,
             menu_state := MENU_SHOW_TREATMENT_TIME\<rparr>)
        else (changed actions r, m\<lparr>utils := u\<rparr>))"

definition menu_conf_alarm :: "sw_actions \<Rightarrow> menues \<Rightarrow> resp \<times> menues" where
  "menu_conf_alarm actions m =
     (case LCD_EncoderOptionsOnOff (cstr ''Alarma          '') (alarms_onoff (configurations m)) actions (utils m) of
        (r, onoff, u) \<Rightarrow>
        if r = resp_finish then
          (changed actions resp_continue,
           m\<lparr>utils := u, configurations := (configurations m)\<lparr>alarms_onoff := onoff\<rparr>,
             menu_state := MENU_SHOW_TREATMENT_TIME\<rparr>)
        else (changed actions r, m\<lparr>utils := u\<rparr>))"

definition menu_conf_ticker :: "sw_actions \<Rightarrow> menues \<Rightarrow> resp \<times> menues" where
  "menu_conf_ticker actions m =
     (case LCD_EncoderOptionsOnOff (cstr ''Ticker          '') (ticker_onoff (configurations m)) actions (utils m) of
        (r, onoff, u) \<Rightarrow>
        if r = resp_finish then
          (changed actions resp_continue,
           m\<lparr>utils := u, configurations := (configurations m)\<lparr>ticker_onoff := onoff\<rparr>,
             menu_state := MENU_SHOW_TREATMENT_TIME\<rparr>)
        else (changed actions r, m\<lparr>utils := u\<rparr>))"

definition menu_conf_mode :: "sw_actions \<Rightarrow> menues \<Rightarrow> resp \<times> menues" where
  "menu_conf_mode actions m =
     (case LCD_EncoderShowSelect (cstr ''Modo:  Manual   '') (cstr ''Modo:  Tarjeta  '') actions 0 (utils m) of
        (r, onoff, u) \<Rightarrow>
        if r = resp_selected then
          (changed actions resp_continue,
           m\<lparr>utils := u,
             configurations := (configurations m)\<lparr>operation_mode := (if onoff = 2 then CARD_MODE else NORMAL_MODE)\<rparr>,
             menu_state := MENU_SHOW_TREATMENT_TIME\<rparr>)
        else (changed actions r, m\<lparr>utils := u\<rparr>))"

definition menu_conf_pass :: "sw_actions \<Rightarrow> menues \<Rightarrow> resp \<times> menues" where
  "menu_conf_pass actions m =
     (case LCD_Password (cstr ''Nuevo Password: '') actions 0 (utils m) of (r, psw, u) \<Rightarrow>
        if r = resp_selected then
          (changed actions resp_continue,
           m\<lparr>utils := u, configurations := (configurations m)\<lparr>new_psw := psw\<rparr>, menu_state := MENU_CONF_CONFIRM\<rparr>)
        else (changed actions r, m\<lparr>utils := u\<rparr>))"

definition menu_conf_confirm :: "sw_actions \<Rightarrow> menues \<Rightarrow> resp \<times> menues" where
  "menu_conf_confirm actions m =
     (case LCD_EncoderOptionsOnOff (cstr ''cambia psw?  '') 1 actions (utils m) of (r, onoff, u) \<Rightarrow>
        if r = resp_finish then
          (changed actions resp_continue,
           m\<lparr>utils := u,
             configurations := (if onoff \<noteq> 0
               then (configurations m)\<lparr>saved_psw := new_psw (configurations m)\<rparr> else configurations m),
             menu_state := MENU_SHOW_TREATMENT_TIME\<rparr>)
        else (changed actions r, m\<lparr>utils := u\<rparr>))"

definition menu_end_conf :: "sw_actions \<Rightarrow> menues \<Rightarrow> resp \<times> menues" where
  "menu_end_conf actions m =
     (case LCD_EncoderOptionsOnOff (cstr ''Grabar Salir    '') 1 actions (utils m) of (r, onoff, u) \<Rightarrow>
        if r = resp_finish then
          (if onoff \<noteq> 0 then resp_need_to_save else resp_finish, m\<lparr>utils := u, menu_state := MENU_INIT\<rparr>)
        else (changed actions r, m\<lparr>utils := u\<rparr>))"

definition MENU_Main :: "(lcd_utils \<Rightarrow> lcd_utils) \<Rightarrow> switches \<Rightarrow> menues \<Rightarrow> (resp \<times> menues) option" where
  "MENU_Main tick sw m =
     (let actions = menu_actions sw in
      case menu_state m of
        MENU_INIT \<Rightarrow> Some (menu_init sw m)
      | MENU_GET_PASSWORD \<Rightarrow> menu_get_password tick actions m
      | MENU_SHOW_TREATMENT_TIME \<Rightarrow> Some (menu_show_treatment_time actions m)
      | MENU_SHOW_ALARM \<Rightarrow> Some (menu_show_alarm actions m)
      | MENU_SHOW_TICKER \<Rightarrow> Some (menu_show_ticker actions m)
      | MENU_SHOW_MODE \<Rightarrow> Some (menu_show_mode actions m)
      | MENU_SHOW_PASS \<Rightarrow> Some (menu_show_pass actions m)
      | MENU_SHOW_END_CONF \<Rightarrow> Some (menu_show_end_conf actions m)
      | MENU_CONF_TREATMENT_TIME \<Rightarrow> Some (menu_conf_treatment_time actions m)
      | MENU_CONF_ALARM \<Rightarrow> Some (menu_conf_alarm actions m)
      | MENU_CONF_TICKER \<Rightarrow> Some (menu_conf_ticker actions m)
      | MENU_CONF_MODE \<Rightarrow> Some (menu_conf_mode actions m)
      | MENU_CONF_PASS \<Rightarrow> Some (menu_conf_pass actions m)
      | MENU_CONF_CONFIRM \<Rightarrow> Some (menu_conf_confirm actions m)
      | MENU_END_CONF \<Rightarrow> Some (menu_end_conf actions m))"

section \<open>The menu of the treatment time\<close>

definition MENU_Encendido_Reset :: "menues \<Rightarrow> menues" where
  "MENU_Encendido_Reset m = m\<lparr>menu_enc_state := MENU_ENC_INIT\<rparr>"

definition MENU_Encendido :: "switches \<Rightarrow> menues \<Rightarrow> resp \<times> menues" where
  "MENU_Encendido sw m =
     (case menu_enc_state m of
        MENU_ENC_INIT \<Rightarrow>
          (case LCD_ShowBlink (cstr ''Entrando en conf'') (cstr ''Tiempo Encendido'') 1 BLINK_DIRECT (utils m) of (r, u) \<Rightarrow>
             if r = resp_finish then
               (resp_continue,
                if sw_set sw = SW_NO
                then m\<lparr>utils := LCD_EncoderChangeReset u, menu_enc_state := MENU_ENC_TIEMPO_ENCENDIDO\<rparr>
                else m\<lparr>utils := u\<rparr>)
             else (r, m\<lparr>utils := u\<rparr>))
      | MENU_ENC_TIEMPO_ENCENDIDO \<Rightarrow>
          (let actions = menu_actions sw; time = ucast (treatment_time_min (configurations m)) in
           case LCD_EncoderChange (cstr ''Encendido:      '') time MINIMUN_TIME_ALLOWED MAXIMUN_TIME_ALLOWED
                  actions (utils m) of (r, time, u) \<Rightarrow>
             if r = resp_finish then
               (r, m\<lparr>utils := u, configurations := (configurations m)\<lparr>treatment_time_min := ucast time\<rparr>,
                     menu_enc_state := MENU_ENC_INIT\<rparr>)
             else (changed actions r, m\<lparr>utils := u\<rparr>)))"

section \<open>Which steps the menu can take\<close>

lemma menu_texts [simp]:
  "text_ok (cstr ''  Entrando en   '')" "text_ok (cstr ''Config Predeterm'')"
  "text_ok (cstr '' Password       '')" "text_ok (cstr ''  Incorrecto!!! '')"
  "text_ok (cstr ''Tiempo Predeterm'')" "text_ok (cstr ''Alarma          '')" "text_ok (cstr ''Ticker          '')"
  "text_ok (cstr ''Modo Operacion  '')" "text_ok (cstr ''Set Password    '')" "text_ok (cstr ''Grabar config   '')"
  "text_ok (cstr ''minutos:        '')" "text_ok (cstr ''Modo:  Manual   '')" "text_ok (cstr ''Modo:  Tarjeta  '')"
  "text_ok (cstr ''cambia psw?  '')" "text_ok (cstr ''Grabar Salir    '')"
  "text_ok (cstr ''Ingrese Password'')" "text_ok (cstr ''Nuevo Password: '')"
  by (simp_all add: text_ok_def printable_uint)

text \<open>The message of a wrong password ends when the timers run, and never when they do not.\<close>

lemma password_incorrect_step:
  "password_incorrect tick u =
     (case LCD_ShowBlink (cstr '' Password       '') (cstr ''  Incorrecto!!! '') 1 0 u of (r, u') \<Rightarrow>
        if r = resp_continue then password_incorrect tick (tick u') else Some (r, u'))"
  by (rule password_incorrect.simps)

lemma password_incorrect_blink:
  assumes "blink_run (cstr '' Password       '') (cstr ''  Incorrecto!!! '') 1 0 k u = Some (j, u')"
  shows "password_incorrect LCD_UpdateTimer u = Some (resp_finish, u')"
  using assms
proof (induction k arbitrary: u)
  case (Suc k)
  obtain r u1 where b: "LCD_ShowBlink (cstr '' Password       '') (cstr ''  Incorrecto!!! '') 1 0 u = (r, u1)" by fastforce
  show ?case
  proof (cases "r = resp_finish")
    case True
    then have "u1 = u'" using Suc.prems b by (simp del: cstr_simps)
    then show ?thesis using True b by (subst password_incorrect_step) (simp del: cstr_simps)
  next
    case False
    then have r: "r = resp_continue" using show_blink_frame [OF b] by auto
    then have "password_incorrect LCD_UpdateTimer (LCD_UpdateTimer u1) = Some (resp_finish, u')"
      using Suc.IH [of "LCD_UpdateTimer u1"] Suc.prems b by (simp del: cstr_simps)
    then show ?thesis using r b by (subst password_incorrect_step) (simp del: cstr_simps)
  qed
qed simp

definition same_edit :: "lcd_utils \<Rightarrow> lcd_utils \<Rightarrow> bool" where
  "same_edit u v \<longleftrightarrow> same_psw u v \<and> change_current_val v = change_current_val u \<and> change_state v = change_state u"

lemma same_edit_trans: "same_edit u v \<Longrightarrow> same_edit v w \<Longrightarrow> same_edit u w"
  by (simp add: same_edit_def same_psw_def)

text \<open>Every call of the message logs text, and leaves the passwords alone.\<close>

lemma password_incorrect_log:
  assumes "\<And>v. logs_text v (tick v) \<and> same_edit v (tick v)"
    and "password_incorrect tick u = Some (r, u')"
  shows "logs_text u u' \<and> same_edit u u'"
proof -
  have "tick = tick \<longrightarrow> logs_text u (snd (r, u')) \<and> same_edit u (snd (r, u'))"
  proof (rule password_incorrect.raw_induct [OF _ assms(2), where P =
      "\<lambda>t u y. t = tick \<longrightarrow> logs_text u (snd y) \<and> same_edit u (snd y)"], intro impI)
    fix f and t :: "lcd_utils \<Rightarrow> lcd_utils" and u y
    assume IH: "\<And>t u y. f t u = Some y \<Longrightarrow> t = tick \<longrightarrow> logs_text u (snd y) \<and> same_edit u (snd y)"
      and call: "(case LCD_ShowBlink (cstr '' Password       '') (cstr ''  Incorrecto!!! '') 1 0 u of (r, u') \<Rightarrow>
        if r = resp_continue then f t (t u') else Some (r, u')) = Some y" and t: "t = tick"
    obtain r1 u1 where b: "LCD_ShowBlink (cstr '' Password       '') (cstr ''  Incorrecto!!! '') 1 0 u = (r1, u1)" by fastforce
    have 1: "logs_text u u1" "same_edit u u1"
      using show_blink_text [OF menu_texts(3,4) b] show_blink_frame [OF b] by (auto simp: same_edit_def)
    show "logs_text u (snd y) \<and> same_edit u (snd y)"
    proof (cases "r1 = resp_continue")
      case True
      then have "f tick (tick u1) = Some y" using call b t by (simp del: cstr_simps)
      then have 2: "logs_text (tick u1) (snd y)" "same_edit (tick u1) (snd y)" using IH [of tick "tick u1" y] by auto
      have "logs_text u1 (tick u1)" "same_edit u1 (tick u1)" using assms(1) by auto
      then show ?thesis
        using logs_text_trans [OF logs_text_trans [OF 1(1)] 2(1)] same_edit_trans [OF same_edit_trans [OF 1(2)] 2(2)] by blast
    next
      case False
      then have "y = (r1, u1)" using call b by (simp del: cstr_simps)
      then show ?thesis using 1 by simp
    qed
  qed
  then show ?thesis by simp
qed

lemma password_incorrect_waits:
  assumes "password_incorrect (\<lambda>u. u) u = Some y" "blinking_state u = 2" "show_select_timer u \<noteq> 0"
  shows False
proof -
  have "(\<lambda>u. u) = (\<lambda>u :: lcd_utils. u) \<longrightarrow> \<not> (blinking_state u = 2 \<and> show_select_timer u \<noteq> 0)"
  proof (rule password_incorrect.raw_induct [OF _ assms(1), where P =
      "\<lambda>t u y. t = (\<lambda>u. u) \<longrightarrow> \<not> (blinking_state u = 2 \<and> show_select_timer u \<noteq> 0)"], intro impI notI)
    fix f and t :: "lcd_utils \<Rightarrow> lcd_utils" and u y
    assume IH: "\<And>t u y. f t u = Some y \<Longrightarrow> t = (\<lambda>u. u) \<longrightarrow> \<not> (blinking_state u = 2 \<and> show_select_timer u \<noteq> 0)"
      and call: "(case LCD_ShowBlink (cstr '' Password       '') (cstr ''  Incorrecto!!! '') 1 0 u of (r, u') \<Rightarrow>
        if r = resp_continue then f t (t u') else Some (r, u')) = Some y" and t: "t = (\<lambda>u. u)"
      and st: "blinking_state u = 2 \<and> show_select_timer u \<noteq> 0"
    have "LCD_ShowBlink (cstr '' Password       '') (cstr ''  Incorrecto!!! '') 1 0 u = (resp_continue, u)"
      using st by (simp add: LCD_ShowBlink_def)
    then have "f (\<lambda>u. u) u = Some y" using call t by (simp del: cstr_simps)
    then show False using IH [of "\<lambda>u. u" u y] st by simp
  qed
  then show False using assms by simp
qed

lemma password_incorrect_hangs:
  assumes "blinking_state u = 0"
  shows "password_incorrect (\<lambda>u. u) u = None"
proof (rule ccontr)
  let ?t1 = "cstr '' Password       ''" and ?t2 = "cstr ''  Incorrecto!!! ''"
  let ?u1 = "u\<lparr>blinking_state := 1, blinking_how_many := 1, show_select_timer := 0\<rparr>"
  let ?u2 = "emit (both_lines ?t1 ?t2) (?u1\<lparr>blinking_how_many := 0, show_select_timer := 1000, blinking_state := 2\<rparr>)"
  assume "password_incorrect (\<lambda>u. u) u \<noteq> None"
  moreover have "LCD_ShowBlink ?t1 ?t2 1 0 u = (resp_continue, ?u1)" using assms by (simp add: LCD_ShowBlink_def)
  moreover have "LCD_ShowBlink ?t1 ?t2 1 0 ?u1 = (resp_continue, ?u2)"
    by (simp add: LCD_ShowBlink_def del: cstr_simps)
  ultimately have "password_incorrect (\<lambda>u. u) ?u2 \<noteq> None"
    by (simp add: password_incorrect_step [of _ u] password_incorrect_step [of _ ?u1] del: cstr_simps)
  then show False using password_incorrect_waits [of ?u2] by (auto simp del: cstr_simps)
qed

section \<open>Every call of the menu fits the display\<close>

lemma screen_call_keeps:
  assumes "c \<noteq> Command 0" "c \<noteq> Command 3" "ts_cell s l k \<noteq> 0"
  shows "ts_cell (screen_call c s) l k \<noteq> 0"
proof -
  have put: "ts_cell s' l k \<noteq> 0 \<Longrightarrow> ts_cell (put_char b s') l k \<noteq> 0" for b s'
    using printable_nonzero [of b] by (auto simp: put_char_def write_cell_def)
  have puts: "ts_cell s' l k \<noteq> 0 \<Longrightarrow> ts_cell (fold put_char t s') l k \<noteq> 0" for t s'
  proof (induction t arbitrary: s')
    case (Cons b t)
    then show ?case using put [of s' b] by simp
  qed simp
  show ?thesis
  proof (cases c)
    case (TransmitStr t)
    then show ?thesis using puts assms(3) by simp
  next
    case (Senddata b)
    then show ?thesis using put assms(3) by simp
  next
    case (Command b)
    then show ?thesis using assms by (simp add: screen_command_def)
  qed (use assms in \<open>simp_all add: set_pos_def\<close>)
qed

lemma screen_calls_keep:
  "\<forall>c \<in> set cs. c \<noteq> Command 0 \<and> c \<noteq> Command 3 \<Longrightarrow> ts_cell s l k \<noteq> 0 \<Longrightarrow> ts_cell (screen_calls cs s) l k \<noteq> 0"
proof (induction cs arbitrary: s)
  case (Cons c cs)
  then show ?case using screen_call_keeps [of c s l k] by simp
qed simp

lemma psw_no_clear:
  assumes "LCD_Password p a n (st\<lparr>lcd_log := []\<rparr>) = (r, n', st')"
  shows "\<forall>c \<in> set (lcd_log st'). c \<noteq> Command 0 \<and> c \<noteq> Command 3"
  using assms by (cases "show_select_state st" rule: psw_cases)
    (auto simp: LCD_Password_def Let_def emit_def simp del: cstr_simps split: if_splits)

lemma psw_first_cell:
  assumes "LCD_Password p a n (st\<lparr>lcd_log := []\<rparr>) = (r, n', st')" "text_ok p" "p \<noteq> []"
    and "show_select_state st \<noteq> 0 \<Longrightarrow> ts_cell s 0 0 \<noteq> 0" and "show_select_state st' \<noteq> 0"
  shows "ts_cell (screen_calls (lcd_log st') s) 0 0 \<noteq> 0"
proof (cases "show_select_state st = 0")
  case False
  then show ?thesis using screen_calls_keep [OF psw_no_clear [OF assms(1)]] assms(4) by blast
next
  case True
  then have l: "lcd_log st' = [SetDDRAM 0, TransmitStr p] @ [SetDDRAM 0x40, TransmitStr (cstr ''00000000  Listo!'')]"
    using assms(1) by (auto simp: LCD_Password_def Let_def emit_def simp del: cstr_simps)
  have "p ! 0 \<noteq> 0" using assms(2,3) printable_nth [of p 0] by (simp add: text_ok_def)
  moreover have "ts_cell (screen_calls [SetDDRAM 0, TransmitStr p] s) 0 0 = p ! 0"
    using assms(2,3) by (simp add: set_pos_def text_ok_def fold_put_char_cell)
  ultimately have "ts_cell (screen_calls [SetDDRAM 0, TransmitStr p] s) 0 0 \<noteq> 0" by metis
  then show ?thesis unfolding l screen_calls_simps(3) by (rule screen_calls_keep [rotated]) simp
qed

definition asks_password :: "menues \<Rightarrow> bool" where
  "asks_password m \<longleftrightarrow> menu_state m = MENU_GET_PASSWORD \<or> menu_state m = MENU_CONF_PASS"

definition menu_inv :: "menues \<Rightarrow> text_screen \<Rightarrow> bool" where
  "menu_inv m s \<longleftrightarrow> psw_ok (utils m) \<and> uint (change_current_val (utils m)) < 256 \<and>
     (if asks_password m
      then psw_shown (utils m) s \<and> (show_select_state (utils m) \<noteq> 0 \<longrightarrow> ts_cell s 0 0 \<noteq> 0)
      else \<not> (ts_cursor s \<and> ts_blink s))"

lemma change_small:
  assumes "LCD_EncoderChange t v 1 100 a st = (r, v', st')" "uint v < 256" "uint (change_current_val st) < 256"
  shows "uint (change_current_val st') < 256"
proof -
  let ?c = "change_current_val st"
  have up: "?c < 100 \<Longrightarrow> uint (?c + 1) < 256" by (simp add: uint_plus_if' word_less_def)
  have down: "1 < ?c \<Longrightarrow> uint (?c - 1) < 256"
    using assms(3) by (simp add: uint_sub_if' word_less_def)
  show ?thesis
    using assms up down by (auto simp: LCD_EncoderChange_def change_wait_select_def Let_def split: if_splits)
qed

text \<open>A case that only writes text keeps the screen free of the blinking cursor.\<close>

definition quiet_step :: "lcd_utils \<Rightarrow> lcd_utils \<Rightarrow> bool" where
  "quiet_step u u' \<longleftrightarrow> logs_text u u' \<and> same_psw u u' \<and> (uint (change_current_val u) < 256 \<longrightarrow> uint (change_current_val u') < 256)"

lemma quiet_inv:
  assumes "quiet_step (u\<lparr>lcd_log := []\<rparr>) u'" "psw_ok u" "uint (change_current_val u) < 256" "\<not> (ts_cursor s \<and> ts_blink s)"
  shows "calls_fit s (lcd_log u')" "psw_ok u'" "uint (change_current_val u') < 256"
    "\<not> (ts_cursor (screen_calls (lcd_log u') s) \<and> ts_blink (screen_calls (lcd_log u') s))"
  using assms by (auto simp: quiet_step_def logs_text_def text_calls_def same_psw_def psw_ok_def)

lemma quiet_widgets:
  "text_ok t1 \<Longrightarrow> text_ok t2 \<Longrightarrow> LCD_ShowBlink t1 t2 n m u = (r, u') \<Longrightarrow> quiet_step u u'"
  "text_ok t1 \<Longrightarrow> LCD_ShowSelectv2 t1 a u = (r, u') \<Longrightarrow> quiet_step u u'"
  "text_ok t1 \<Longrightarrow> text_ok t2 \<Longrightarrow> LCD_EncoderShowSelect t1 t2 a l u = (r, l', u') \<Longrightarrow> quiet_step u u'"
  "text_ok t1 \<Longrightarrow> LCD_EncoderOptionsOnOff t1 l a u = (r, l', u') \<Longrightarrow> quiet_step u u'"
  using show_blink_text show_blink_frame show_select_text show_select_frame encoder_select_text encoder_select_frame
    options_text options_frame
  unfolding quiet_step_def by metis+

lemma quiet_change:
  assumes "text_ok t" "uint v < 256" "uint (change_current_val u) < 256" "LCD_EncoderChange t v 1 100 a u = (r, v', u')"
  shows "quiet_step u u'"
  using change_text [OF assms(1) _ assms(4)] change_frame [OF assms(4)] change_small [OF assms(4,2,3)] assms(3)
  by (simp add: quiet_step_def)

lemma quiet_resets [simp]:
  "quiet_step u (LCD_EncoderChangeReset u') = quiet_step u u'"
  "quiet_step u (LCD_EncoderOptionsOnOffReset u') = quiet_step u u'"
  "quiet_step u (LCD_PasswordReset u') = quiet_step u u'"
  "quiet_step u (LCD_ShowSelectv2Reset u') = quiet_step u u'"
  by (simp_all add: quiet_step_def logs_text_def same_psw_def LCD_EncoderChangeReset_def
      LCD_EncoderOptionsOnOffReset_def LCD_PasswordReset_def LCD_ShowSelectv2Reset_def)

definition clear_log :: "menues \<Rightarrow> menues" where
  "clear_log m = m\<lparr>utils := (utils m)\<lparr>lcd_log := []\<rparr>\<rparr>"

lemma clear_log_sel [simp]:
  "menu_state (clear_log m) = menu_state m" "configurations (clear_log m) = configurations m"
  "utils (clear_log m) = (utils m)\<lparr>lcd_log := []\<rparr>"
  by (simp_all add: clear_log_def)

definition quiet_case :: "menues \<Rightarrow> menues \<Rightarrow> bool" where
  "quiet_case m m' \<longleftrightarrow> quiet_step (utils m) (utils m') \<and> (asks_password m' \<longrightarrow> show_select_state (utils m') = 0)"

lemma quiet_entry:
  assumes "text_ok t" "\<And>u. quiet_step v u \<Longrightarrow> quiet_step v (reset u)" "utils m = v"
    and "menu_state m \<notin> {MENU_GET_PASSWORD, MENU_CONF_PASS}" "down \<notin> {MENU_GET_PASSWORD, MENU_CONF_PASS}"
    and "up \<notin> {MENU_GET_PASSWORD, MENU_CONF_PASS}" "conf \<noteq> MENU_GET_PASSWORD" "conf = MENU_CONF_PASS \<Longrightarrow> reset = (\<lambda>u. u)"
    and "menu_show_entry t down up conf reset a m = (r, m')"
  shows "quiet_case m m'"
proof -
  obtain r1 u where w: "LCD_ShowSelectv2 t a v = (r1, u)" by fastforce
  have q: "quiet_step v u" using quiet_widgets(2) [OF assms(1) w] .
  have z: "r1 = resp_selected \<Longrightarrow> show_select_state u = 0" using show_select_frame [OF w] by auto
  show ?thesis
    using assms w q z by (auto simp: menu_show_entry_def quiet_case_def asks_password_def split: if_splits)
qed

lemma quiet_conf:
  "menu_state m = MENU_CONF_ALARM \<Longrightarrow> menu_conf_alarm a m = (r, m') \<Longrightarrow> quiet_case m m'"
  "menu_state m = MENU_CONF_TICKER \<Longrightarrow> menu_conf_ticker a m = (r, m') \<Longrightarrow> quiet_case m m'"
  "menu_state m = MENU_CONF_CONFIRM \<Longrightarrow> menu_conf_confirm a m = (r, m') \<Longrightarrow> quiet_case m m'"
  "menu_state m = MENU_END_CONF \<Longrightarrow> menu_end_conf a m = (r, m') \<Longrightarrow> quiet_case m m'"
  "menu_state m = MENU_CONF_MODE \<Longrightarrow> menu_conf_mode a m = (r, m') \<Longrightarrow> quiet_case m m'"
  by (auto simp: menu_conf_alarm_def menu_conf_ticker_def menu_conf_confirm_def menu_end_conf_def menu_conf_mode_def
      quiet_case_def asks_password_def simp del: cstr_simps split: prod.splits if_splits
      dest: quiet_widgets(4) [rotated] quiet_widgets(3) [rotated 2])

lemma quiet_init:
  assumes "menu_state m = MENU_INIT" "menu_init sw m = (r, m')"
  shows "quiet_case m m'"
proof -
  obtain r1 u where w: "LCD_ShowBlink (cstr ''  Entrando en   '') (cstr ''Config Predeterm'') 1 0 (utils m) = (r1, u)" by fastforce
  have "quiet_step (utils m) u" using quiet_widgets(1) [OF menu_texts(1,2) w] .
  then show ?thesis
    using assms w by (auto simp: menu_init_def quiet_case_def asks_password_def LCD_PasswordReset_def [of u]
        simp del: cstr_simps split: if_splits)
      (simp_all add: quiet_step_def logs_text_def same_psw_def)
qed

lemma quiet_treatment:
  assumes "menu_state m = MENU_CONF_TREATMENT_TIME" "menu_conf_treatment_time a m = (r, m')"
    and "uint (change_current_val (utils m)) < 256"
  shows "quiet_case m m'"
proof -
  let ?v = "ucast (treatment_time_min (configurations m)) :: u16"
  obtain r1 v1 u where w: "LCD_EncoderChange (cstr ''minutos:        '') ?v 1 100 a (utils m) = (r1, v1, u)" by (metis prod_cases3)
  have "uint ?v < 256" using uint_bounded [of "treatment_time_min (configurations m)"] by (simp add: unsigned_ucast_eq take_bit_eq_mod)
  then have "quiet_step (utils m) u" using quiet_change [OF menu_texts(11) _ assms(3) w] by simp
  then show ?thesis
    using assms w by (auto simp: menu_conf_treatment_time_def quiet_case_def asks_password_def Let_def
        simp del: cstr_simps split: if_splits)
qed

lemma quiet_entries:
  "menu_state m = MENU_SHOW_TREATMENT_TIME \<Longrightarrow> menu_show_treatment_time a m = (r, m') \<Longrightarrow> quiet_case m m'"
  "menu_state m = MENU_SHOW_ALARM \<Longrightarrow> menu_show_alarm a m = (r, m') \<Longrightarrow> quiet_case m m'"
  "menu_state m = MENU_SHOW_TICKER \<Longrightarrow> menu_show_ticker a m = (r, m') \<Longrightarrow> quiet_case m m'"
  "menu_state m = MENU_SHOW_MODE \<Longrightarrow> menu_show_mode a m = (r, m') \<Longrightarrow> quiet_case m m'"
  "menu_state m = MENU_SHOW_PASS \<Longrightarrow> menu_show_pass a m = (r, m') \<Longrightarrow> quiet_case m m'"
  "menu_state m = MENU_SHOW_END_CONF \<Longrightarrow> menu_show_end_conf a m = (r, m') \<Longrightarrow> quiet_case m m'"
  unfolding menu_show_treatment_time_def menu_show_alarm_def menu_show_ticker_def menu_show_mode_def
    menu_show_pass_def menu_show_end_conf_def
  by (drule quiet_entry [rotated 8, where v = "utils m"]; simp del: cstr_simps)+

lemma menu_quiet:
  assumes "MENU_Main tick sw m = Some (r, m')" "\<not> asks_password m" "uint (change_current_val (utils m)) < 256"
  shows "quiet_case m m'"
  using assms
  by (cases "menu_state m")
    (auto simp: MENU_Main_def asks_password_def Let_def simp del: cstr_simps
      intro: quiet_init quiet_treatment quiet_conf quiet_entries)

text \<open>The two cases that ask for a password.\<close>

lemma psw_texts: "cstr ''Ingrese Password'' \<noteq> []" "cstr ''Nuevo Password: '' \<noteq> []"
  by simp_all

lemma get_password_cases:
  assumes "menu_get_password tick a m = Some (r, m')"
    and "LCD_Password (cstr ''Ingrese Password'') a 0 (utils m) = (r1, psw, u)"
  obtains (asking) "r1 \<noteq> resp_selected" "m' = m\<lparr>utils := u\<rparr>"
    | (opened) "r1 = resp_selected" "psw = DEFAULT_PASSWORD \<or> psw = saved_psw (configurations m)"
        "m' = m\<lparr>utils := LCD_ShowSelectv2Reset u, menu_state := MENU_SHOW_TREATMENT_TIME\<rparr>"
    | (refused) u' r2 where "r1 = resp_selected" "password_incorrect tick u = Some (r2, u')"
        "m' = m\<lparr>utils := u', menu_state := MENU_INIT\<rparr>"
  using assms by (auto simp: menu_get_password_def simp del: cstr_simps split: if_splits option.splits)

definition ticks_only :: "(lcd_utils \<Rightarrow> lcd_utils) \<Rightarrow> bool" where
  "ticks_only tick \<longleftrightarrow> (\<forall>v. lcd_log (tick v) = lcd_log v \<and> same_edit v (tick v))"

lemma ticks_only_simps: "ticks_only LCD_UpdateTimer" "ticks_only (\<lambda>u. u)"
  by (simp_all add: ticks_only_def same_edit_def same_psw_def)

lemma psw_keeps_change:
  assumes "LCD_Password p a n st = (r, n', st')"
  shows "change_current_val st' = change_current_val st \<and> change_state st' = change_state st \<and>
    (r = resp_selected \<longrightarrow> lcd_log st' = lcd_log st \<and> show_select_state st' = 0)"
  using assms by (cases "show_select_state st" rule: psw_cases)
    (auto simp: LCD_Password_def Let_def simp del: cstr_simps split: if_splits)

lemma menu_inv_step:
  assumes inv: "menu_inv m s" and tick: "ticks_only tick" and step: "MENU_Main tick sw (clear_log m) = Some (r, m')"
  shows "calls_fit s (lcd_log (utils m')) \<and> menu_inv m' (screen_calls (lcd_log (utils m')) s)"
proof (cases "asks_password m")
  case False
  have q: "quiet_case (clear_log m) m'"
    using menu_quiet [OF step] inv False by (simp add: asks_password_def menu_inv_def)
  have "psw_ok (utils m)" "uint (change_current_val (utils m)) < 256" "\<not> (ts_cursor s \<and> ts_blink s)"
    using inv False by (simp_all add: menu_inv_def)
  from quiet_inv [OF _ this, of "utils m'"] q show ?thesis
    by (auto simp: quiet_case_def menu_inv_def psw_shown_def)
next
  case True
  have ok: "psw_ok (utils m)" and sh: "psw_shown (utils m) s"
    and c0: "show_select_state (utils m) \<noteq> 0 \<Longrightarrow> ts_cell s 0 0 \<noteq> 0" and ch: "uint (change_current_val (utils m)) < 256"
    using inv True by (auto simp: menu_inv_def)
  have asked: "calls_fit s (lcd_log u) \<and> menu_inv m1 (screen_calls (lcd_log u) s)"
    if w: "LCD_Password p a 0 ((utils m)\<lparr>lcd_log := []\<rparr>) = (r1, psw, u)" and p: "text_ok p" "p \<noteq> []"
      and m1: "utils m1 = u" "asks_password m1 \<or> r1 = resp_selected" for p a r1 psw u m1
  proof -
    have 1: "calls_fit s (lcd_log u) \<and> psw_shown u (screen_calls (lcd_log u) s)"
      using psw_screen_step [OF ok sh _ _ w] p by (simp add: text_ok_def)
    have 2: "psw_ok u" using psw_ok_step [OF _ w] ok by (simp add: psw_ok_def)
    have 3: "uint (change_current_val u) < 256" using psw_keeps_change [OF w] ch by simp
    have 4: "show_select_state u \<noteq> 0 \<Longrightarrow> ts_cell (screen_calls (lcd_log u) s) 0 0 \<noteq> 0"
      using psw_first_cell [OF w p(1,2) c0] by blast
    have 5: "r1 = resp_selected \<Longrightarrow> \<not> (ts_cursor (screen_calls (lcd_log u) s) \<and> ts_blink (screen_calls (lcd_log u) s))"
      using 1 psw_keeps_change [OF w] by (auto simp: psw_shown_def)
    show ?thesis using 1 2 3 4 5 m1 by (auto simp: menu_inv_def)
  qed
  from True consider "menu_state m = MENU_GET_PASSWORD" | "menu_state m = MENU_CONF_PASS" by (auto simp: asks_password_def)
  then show ?thesis
  proof cases
    case 1
    obtain r1 psw u where w: "LCD_Password (cstr ''Ingrese Password'') (menu_actions sw) 0 ((utils m)\<lparr>lcd_log := []\<rparr>) = (r1, psw, u)"
      by (metis prod_cases3)
    have ask: "calls_fit s (lcd_log u) \<and> menu_inv m1 (screen_calls (lcd_log u) s)"
      if "utils m1 = u" "asks_password m1 \<or> r1 = resp_selected" for m1
      by (rule asked [OF w menu_texts(16) psw_texts(1) that])
    have g: "menu_get_password tick (menu_actions sw) (clear_log m) = Some (r, m')"
      using step 1 by (simp add: MENU_Main_def Let_def)
    have w': "LCD_Password (cstr ''Ingrese Password'') (menu_actions sw) 0 (utils (clear_log m)) = (r1, psw, u)" using w by simp
    show ?thesis
    proof (cases rule: get_password_cases [OF g w'])
      case 1
      then show ?thesis using ask [of m'] \<open>menu_state m = MENU_GET_PASSWORD\<close> by (simp add: asks_password_def)
    next
      case 2
      have i: "menu_inv (m\<lparr>utils := u, menu_state := MENU_SHOW_TREATMENT_TIME\<rparr>) (screen_calls (lcd_log u) s)" "calls_fit s (lcd_log u)"
        using ask [of "m\<lparr>utils := u, menu_state := MENU_SHOW_TREATMENT_TIME\<rparr>"] 2(1) by simp_all
      have "lcd_log (utils m') = lcd_log u" using 2 by (simp add: LCD_ShowSelectv2Reset_def)
      moreover have "menu_inv m' s' = menu_inv (m\<lparr>utils := u, menu_state := MENU_SHOW_TREATMENT_TIME\<rparr>) s'" for s'
        using 2 by (simp add: menu_inv_def LCD_ShowSelectv2Reset_def psw_ok_def asks_password_def)
      ultimately show ?thesis using i by simp
    next
      case (3 u' r2)
      have l: "lcd_log u = []" using psw_keeps_change [OF w] 3(1) by simp
      have i: "menu_inv (m\<lparr>utils := u, menu_state := MENU_INIT\<rparr>) s"
        using ask [of "m\<lparr>utils := u, menu_state := MENU_INIT\<rparr>"] 3(1) l by simp
      have "logs_text v (tick v) \<and> same_edit v (tick v)" for v
        using tick by (simp add: ticks_only_def)
      then have e: "logs_text u u' \<and> same_edit u u'" using password_incorrect_log [OF _ 3(2)] by blast
      then have q: "quiet_step (u\<lparr>lcd_log := []\<rparr>) u'"
        using l by (simp add: quiet_step_def same_edit_def logs_text_def same_psw_def)
      have "psw_ok u" "uint (change_current_val u) < 256" "\<not> (ts_cursor s \<and> ts_blink s)"
        using i by (simp_all add: menu_inv_def asks_password_def)
      from quiet_inv [OF q this] show ?thesis using 3(3) by (simp add: menu_inv_def asks_password_def)
    qed
  next
    case 2
    obtain r1 psw u where w: "LCD_Password (cstr ''Nuevo Password: '') (menu_actions sw) 0 ((utils m)\<lparr>lcd_log := []\<rparr>) = (r1, psw, u)"
      by (metis prod_cases3)
    have "utils m' = u" "asks_password m' \<or> r1 = resp_selected"
      using step 2 w by (auto simp: MENU_Main_def menu_conf_pass_def asks_password_def Let_def simp del: cstr_simps split: if_splits)
    then show ?thesis using asked [OF w menu_texts(17) psw_texts(2), of m'] by simp
  qed
qed

section \<open>What a step may change in the configuration\<close>

definition edits :: "menu_state_t \<Rightarrow> mem_bkp \<Rightarrow> mem_bkp \<Rightarrow> bool" where
  "edits s c c' \<longleftrightarrow> c' = c \<or>
     (case s of
        MENU_CONF_TREATMENT_TIME \<Rightarrow> c' = c\<lparr>treatment_time_min := treatment_time_min c'\<rparr>
      | MENU_CONF_ALARM \<Rightarrow> c' = c\<lparr>alarms_onoff := alarms_onoff c'\<rparr>
      | MENU_CONF_TICKER \<Rightarrow> c' = c\<lparr>ticker_onoff := ticker_onoff c'\<rparr>
      | MENU_CONF_MODE \<Rightarrow> operation_mode c' \<in> {NORMAL_MODE, CARD_MODE} \<and> c' = c\<lparr>operation_mode := operation_mode c'\<rparr>
      | MENU_CONF_PASS \<Rightarrow> c' = c\<lparr>new_psw := new_psw c'\<rparr>
      | MENU_CONF_CONFIRM \<Rightarrow> c' = c\<lparr>saved_psw := new_psw c\<rparr>
      | _ \<Rightarrow> False)"

lemmas menu_case_defs = menu_init_def menu_get_password_def menu_show_treatment_time_def menu_show_alarm_def
  menu_show_ticker_def menu_show_mode_def menu_show_pass_def menu_show_end_conf_def menu_show_entry_def
  menu_conf_treatment_time_def menu_conf_alarm_def menu_conf_ticker_def menu_conf_mode_def menu_conf_pass_def
  menu_conf_confirm_def menu_end_conf_def

definition in_password_screens :: "menues \<Rightarrow> bool" where
  "in_password_screens m \<longleftrightarrow> menu_state m = MENU_INIT \<or> menu_state m = MENU_GET_PASSWORD"

section \<open>The treatment time\<close>

definition time_inv :: "menues \<Rightarrow> bool" where
  "time_inv m \<longleftrightarrow> 1 \<le> treatment_time_min (configurations m) \<and> treatment_time_min (configurations m) \<le> 100 \<and>
     (menu_state m = MENU_CONF_TREATMENT_TIME \<longrightarrow> change_within 1 100 (utils m))"

lemma u8_u16_range:
  fixes t :: u8 and v :: u16
  shows "1 \<le> t \<Longrightarrow> t \<le> 100 \<Longrightarrow> 1 \<le> (ucast t :: u16) \<and> (ucast t :: u16) \<le> 100"
    "1 \<le> v \<Longrightarrow> v \<le> 100 \<Longrightarrow> 1 \<le> (ucast v :: u8) \<and> (ucast v :: u8) \<le> 100"
  by (simp_all add: word_le_def unsigned_ucast_eq take_bit_eq_mod)

lemma edits_time: "edits s c c' \<Longrightarrow> s \<noteq> MENU_CONF_TREATMENT_TIME \<Longrightarrow> treatment_time_min c' = treatment_time_min c"
  by (cases s) (auto simp: edits_def, (metis mem_bkp.ext_inject mem_bkp.surjective mem_bkp.update_convs)+)

lemma menu_time_entry:
  assumes "MENU_Main tick sw m = Some (r, m')" "menu_state m \<noteq> MENU_CONF_TREATMENT_TIME"
  shows "menu_state m' = MENU_CONF_TREATMENT_TIME \<Longrightarrow> change_state (utils m') = 0"
  using assms
  by (cases "menu_state m")
    (auto simp: MENU_Main_def menu_case_defs LCD_EncoderChangeReset_def Let_def simp del: cstr_simps
      split: prod.splits if_splits option.splits)

lemma menu_step_edits:
  assumes "MENU_Main tick sw m = Some (r, m')"
  shows "edits (menu_state m) (configurations m) (configurations m')"
  using assms
  by (cases "menu_state m")
    (auto simp: MENU_Main_def edits_def menu_case_defs Let_def simp del: cstr_simps
      split: prod.splits if_splits option.splits)

lemma time_inv_step:
  assumes "time_inv m" "MENU_Main tick sw m = Some (r, m')"
  shows "time_inv m'"
proof (cases "menu_state m = MENU_CONF_TREATMENT_TIME")
  case False
  then show ?thesis
    using assms menu_time_entry [OF assms(2) False] edits_time [OF menu_step_edits [OF assms(2)] False]
    by (auto simp: time_inv_def change_within_def)
next
  case True
  let ?v = "ucast (treatment_time_min (configurations m)) :: u16"
  obtain r1 v1 u where w: "LCD_EncoderChange (cstr ''minutos:        '') ?v 1 100 (menu_actions sw) (utils m) = (r1, v1, u)"
    by (metis prod_cases3)
  have v: "1 \<le> ?v" "?v \<le> 100" using assms(1) u8_u16_range(1) by (auto simp: time_inv_def)
  have "change_within 1 100 u" "1 \<le> v1" "v1 \<le> 100"
    using change_step_within [OF _ v w] assms(1) True by (auto simp: time_inv_def)
  then show ?thesis
    using assms True w u8_u16_range(2) [of v1]
    by (auto simp: MENU_Main_def menu_conf_treatment_time_def time_inv_def Let_def simp del: cstr_simps split: if_splits)
qed

text \<open>A session of the menu: timer ticks, then a call, and so on; \<open>None\<close> if a call does not return.\<close>

fun menu_play :: "(lcd_utils \<Rightarrow> lcd_utils) \<Rightarrow> (nat \<times> switches) list \<Rightarrow> menues \<Rightarrow> menues option" where
  "menu_play tick [] m = Some m"
| "menu_play tick ((k, sw) # es) m =
     (case MENU_Main tick sw (m\<lparr>utils := ticked k (utils m)\<rparr>) of
        None \<Rightarrow> None | Some (r, m') \<Rightarrow> menu_play tick es m')"

section \<open>Properties\<close>

text \<open>C10: Nobody gets into the configuration without a password: a step of the menu that leaves the two password
  screens starts with the password widget finished and holding the default or the saved password, leads to the first
  entry of the menu, and neither it nor any other step on those screens changes the configuration.\<close>

theorem only_a_password_opens_the_menu:
  assumes "in_password_screens m" "MENU_Main tick sw m = Some (r, m')"
  shows "configurations m' = configurations m \<and>
    (\<not> in_password_screens m' \<longrightarrow>
       menu_state m = MENU_GET_PASSWORD \<and> menu_state m' = MENU_SHOW_TREATMENT_TIME \<and>
       show_select_state (utils m) = 9 \<and> menu_actions sw = selection_none \<and>
       (password_num (utils m) = DEFAULT_PASSWORD \<or> password_num (utils m) = saved_psw (configurations m)))"
proof (cases "menu_state m = MENU_INIT")
  case True
  then show ?thesis
    using assms by (auto simp: MENU_Main_def menu_init_def in_password_screens_def Let_def
        simp del: cstr_simps split: prod.splits if_splits)
next
  case False
  then have g: "menu_state m = MENU_GET_PASSWORD" using assms(1) by (simp add: in_password_screens_def)
  obtain r1 psw u where w: "LCD_Password (cstr ''Ingrese Password'') (menu_actions sw) 0 (utils m) = (r1, psw, u)"
    by (metis prod_cases3)
  have s: "menu_get_password tick (menu_actions sw) m = Some (r, m')"
    using assms(2) g by (simp add: MENU_Main_def Let_def)
  show ?thesis
    by (cases rule: get_password_cases [OF s w])
      (use psw_result [OF w] g in \<open>auto simp: in_password_screens_def\<close>)
qed

theorem only_a_password_opens_the_menu_witness:
  "let m = \<lparr>menu_state = MENU_GET_PASSWORD, menu_enc_state = MENU_ENC_INIT,
        utils = lcd_utils_globals\<lparr>show_select_state := 9, password_num := 0x00000022\<rparr>,
        configurations = \<lparr>treatment_time_min = 5, alarms_onoff = 0, ticker_onoff = 0, ticker_time = 0,
          saved_psw = 0, new_psw = 0, operation_mode = 1, dummy1 = 0, dummy2 = 0\<rparr>\<rparr>;
       sw = \<lparr>sw_set = SW_NO, sw_ccw = 0, sw_cw = 0\<rparr>
   in \<exists>r m'. MENU_Main (\<lambda>u. u) sw m = Some (r, m') \<and> menu_state m' = MENU_SHOW_TREATMENT_TIME \<and>
        configurations m' = configurations m"
proof -
  let ?m = "\<lparr>menu_state = MENU_GET_PASSWORD, menu_enc_state = MENU_ENC_INIT,
        utils = lcd_utils_globals\<lparr>show_select_state := 9, password_num := 0x00000022\<rparr>,
        configurations = \<lparr>treatment_time_min = 5, alarms_onoff = 0, ticker_onoff = 0, ticker_time = 0,
          saved_psw = 0, new_psw = 0, operation_mode = 1, dummy1 = 0, dummy2 = 0\<rparr>\<rparr>"
  let ?sw = "\<lparr>sw_set = SW_NO, sw_ccw = 0, sw_cw = 0\<rparr>"
  have "\<exists>r m'. MENU_Main (\<lambda>u. u) ?sw ?m = Some (r, m') \<and> menu_state m' = MENU_SHOW_TREATMENT_TIME"
    by (simp add: MENU_Main_def menu_get_password_def menu_actions_def LCD_Password_def DEFAULT_PASSWORD_def)
  then obtain r m' where e: "MENU_Main (\<lambda>u. u) ?sw ?m = Some (r, m')" "menu_state m' = MENU_SHOW_TREATMENT_TIME" by blast
  have "in_password_screens ?m" by (simp add: in_password_screens_def)
  then show ?thesis
    using only_a_password_opens_the_menu [OF _ e(1)] e unfolding Let_def by blast
qed

text \<open>A step of the menu changes at most the setting its screen edits: the treatment time, the alarm, the ticker,
  the mode (to manual or card), the new password, or, on the confirmation, the saved password, which becomes the
  new password entered before; every other screen leaves the whole configuration as it was.\<close>

theorem menu_edits_one_setting:
  assumes "MENU_Main tick sw m = Some (r, m')"
  shows "edits (menu_state m) (configurations m) (configurations m')"
  by (rule menu_step_edits [OF assms])

theorem menu_edits_one_setting_witness:
  "let m = \<lparr>menu_state = MENU_CONF_CONFIRM, menu_enc_state = MENU_ENC_INIT,
        utils = lcd_utils_globals\<lparr>options_state := 4, options_curr_sel := 1\<rparr>,
        configurations = \<lparr>treatment_time_min = 5, alarms_onoff = 0, ticker_onoff = 0, ticker_time = 0,
          saved_psw = 0, new_psw = 0x1234, operation_mode = 1, dummy1 = 0, dummy2 = 0\<rparr>\<rparr>;
       m' = snd (the (MENU_Main (\<lambda>u. u) \<lparr>sw_set = SW_NO, sw_ccw = 0, sw_cw = 0\<rparr> m))
   in edits MENU_CONF_CONFIRM (configurations m) (configurations m') \<and> saved_psw (configurations m') = 0x1234"
proof -
  let ?m = "\<lparr>menu_state = MENU_CONF_CONFIRM, menu_enc_state = MENU_ENC_INIT,
        utils = lcd_utils_globals\<lparr>options_state := 4, options_curr_sel := 1\<rparr>,
        configurations = \<lparr>treatment_time_min = 5, alarms_onoff = 0, ticker_onoff = 0, ticker_time = 0,
          saved_psw = 0, new_psw = 0x1234, operation_mode = 1, dummy1 = 0, dummy2 = 0\<rparr>\<rparr>"
  let ?sw = "\<lparr>sw_set = SW_NO, sw_ccw = 0, sw_cw = 0\<rparr>"
  obtain r m' where e: "MENU_Main (\<lambda>u. u) ?sw ?m = Some (r, m')" "saved_psw (configurations m') = 0x1234"
    by (simp add: MENU_Main_def menu_conf_confirm_def menu_actions_def LCD_EncoderOptionsOnOff_def)
  have "edits (menu_state ?m) (configurations ?m) (configurations m')" by (rule menu_edits_one_setting [OF e(1)])
  then show ?thesis using e by (simp add: Let_def)
qed

text \<open>C16: A wrong password: on the target, where the timer interrupt counts down, the menu goes back to its start after
  showing the message, with the configuration untouched; but where nothing counts the timer down while the loop runs,
  as in the simulators of this repository, the call never returns.\<close>

theorem wrong_password_needs_the_timer:
  assumes "menu_state m = MENU_GET_PASSWORD" "show_select_state (utils m) = 9" "blinking_state (utils m) = 0"
    and "menu_actions sw = selection_none"
    and "password_num (utils m) \<noteq> DEFAULT_PASSWORD" "password_num (utils m) \<noteq> saved_psw (configurations m)"
  shows "(\<exists>u. MENU_Main LCD_UpdateTimer sw m = Some (resp_finish, m\<lparr>utils := u, menu_state := MENU_INIT\<rparr>) \<and>
        lcd_log u = lcd_log (utils m) @ both_lines (cstr '' Password       '') (cstr ''  Incorrecto!!! '') @
          both_lines s_blank s_blank) \<and>
    MENU_Main (\<lambda>u. u) sw m = None"
proof -
  let ?u = "(utils m)\<lparr>show_select_state := 0\<rparr>" and ?t1 = "cstr '' Password       ''" and ?t2 = "cstr ''  Incorrecto!!! ''"
  have w: "LCD_Password (cstr ''Ingrese Password'') selection_none 0 (utils m) = (resp_selected, password_num (utils m), ?u)"
    using assms(2) by (simp add: LCD_Password_def)
  obtain u where u: "blink_run ?t1 ?t2 1 0 1602 ?u = Some (0, u)" "lcd_log u = lcd_log ?u @ both_lines ?t1 ?t2 @ both_lines s_blank s_blank"
    using blink_one_screen [of ?u ?t1 ?t2] assms(3) by auto
  have "password_incorrect LCD_UpdateTimer ?u = Some (resp_finish, u)" using password_incorrect_blink [OF u(1)] .
  then have "MENU_Main LCD_UpdateTimer sw m = Some (resp_finish, m\<lparr>utils := u, menu_state := MENU_INIT\<rparr>)"
    using w assms by (simp add: MENU_Main_def menu_get_password_def changed_def del: cstr_simps)
  moreover have "password_incorrect (\<lambda>u. u) ?u = None" using password_incorrect_hangs [of ?u] assms(3) by simp
  then have "MENU_Main (\<lambda>u. u) sw m = None"
    using w assms by (simp add: MENU_Main_def menu_get_password_def del: cstr_simps)
  ultimately show ?thesis using u(2) by auto
qed

theorem wrong_password_needs_the_timer_witness:
  "MENU_Main (\<lambda>u. u) \<lparr>sw_set = SW_NO, sw_ccw = 0, sw_cw = 0\<rparr>
     \<lparr>menu_state = MENU_GET_PASSWORD, menu_enc_state = MENU_ENC_INIT,
        utils = lcd_utils_globals\<lparr>show_select_state := 9, password_num := 0x12345678\<rparr>,
        configurations = \<lparr>treatment_time_min = 5, alarms_onoff = 0, ticker_onoff = 0, ticker_time = 0,
          saved_psw = 0, new_psw = 0, operation_mode = 1, dummy1 = 0, dummy2 = 0\<rparr>\<rparr> = None"
  using wrong_password_needs_the_timer [of "\<lparr>menu_state = MENU_GET_PASSWORD, menu_enc_state = MENU_ENC_INIT,
        utils = lcd_utils_globals\<lparr>show_select_state := 9, password_num := 0x12345678\<rparr>,
        configurations = \<lparr>treatment_time_min = 5, alarms_onoff = 0, ticker_onoff = 0, ticker_time = 0,
          saved_psw = 0, new_psw = 0, operation_mode = 1, dummy1 = 0, dummy2 = 0\<rparr>\<rparr>" "\<lparr>sw_set = SW_NO, sw_ccw = 0, sw_cw = 0\<rparr>"]
  by (simp add: lcd_utils_globals_def menu_actions_def DEFAULT_PASSWORD_def)

text \<open>C14: The treatment time stays between 1 and 100 minutes: if it starts there, it is there after any session of
  the menu, whatever is pressed and however long the pauses are.\<close>

theorem treatment_time_stays_in_range:
  assumes "time_inv m" "menu_play tick es m = Some m'"
  shows "1 \<le> treatment_time_min (configurations m') \<and> treatment_time_min (configurations m') \<le> 100"
  using assms
proof (induction es arbitrary: m)
  case Nil
  then show ?case by (simp add: time_inv_def)
next
  case (Cons e es)
  obtain k sw where e: "e = (k, sw)" by fastforce
  have t: "time_inv (m\<lparr>utils := ticked k (utils m)\<rparr>)"
    using Cons.prems(1) by (simp add: time_inv_def change_within_def)
  obtain r m1 where m1: "MENU_Main tick sw (m\<lparr>utils := ticked k (utils m)\<rparr>) = Some (r, m1)" "menu_play tick es m1 = Some m'"
    using Cons.prems(2) e by (auto split: option.splits prod.splits)
  show ?case using Cons.IH [OF time_inv_step [OF t m1(1)] m1(2)] .
qed

theorem treatment_time_stays_in_range_witness:
  "let m = \<lparr>menu_state = MENU_CONF_TREATMENT_TIME, menu_enc_state = MENU_ENC_INIT,
        utils = lcd_utils_globals\<lparr>change_state := 4, change_current_val := 100\<rparr>,
        configurations = \<lparr>treatment_time_min = 5, alarms_onoff = 0, ticker_onoff = 0, ticker_time = 0,
          saved_psw = 0, new_psw = 0, operation_mode = 1, dummy1 = 0, dummy2 = 0\<rparr>\<rparr>
   in \<exists>m'. menu_play (\<lambda>u. u) [(0, \<lparr>sw_set = SW_NO, sw_ccw = 0, sw_cw = 0\<rparr>)] m = Some m' \<and>
        treatment_time_min (configurations m') \<le> 100"
proof -
  let ?m = "\<lparr>menu_state = MENU_CONF_TREATMENT_TIME, menu_enc_state = MENU_ENC_INIT,
        utils = lcd_utils_globals\<lparr>change_state := 4, change_current_val := 100\<rparr>,
        configurations = \<lparr>treatment_time_min = 5, alarms_onoff = 0, ticker_onoff = 0, ticker_time = 0,
          saved_psw = 0, new_psw = 0, operation_mode = 1, dummy1 = 0, dummy2 = 0\<rparr>\<rparr>"
  let ?es = "[(0, \<lparr>sw_set = SW_NO, sw_ccw = 0, sw_cw = 0\<rparr>)]"
  have "time_inv ?m" by (simp add: time_inv_def change_within_def word_le_def)
  moreover obtain m' where "menu_play (\<lambda>u. u) ?es ?m = Some m'"
    by (simp add: MENU_Main_def menu_conf_treatment_time_def menu_actions_def LCD_EncoderChange_def)
  ultimately show ?thesis using treatment_time_stays_in_range unfolding Let_def by blast
qed

end
