(* ===== verification/Lcd_Surface.thy ===== *)
theory Lcd_Surface
  imports C_Prelude
begin

text \<open>
  The drawing layer of the display simulators: a \<open>GdkPixbuf\<close> with the fields the code reads,
  \<open>put_pixel\<close> with its assertions, and the patches drawn from it. A drawing operation is
  characterised by the colour map it lays over the image (\<open>painted\<close>).
\<close>

section \<open>The image\<close>

text \<open>
  \<open>GdkPixbuf\<close> is a library type: the record holds exactly what the accessors used in
  \<open>put_pixel\<close> return, and the pixel memory.
\<close>

record pixbuf =
  pb_n_channels :: int
  pb_colorspace_rgb :: bool
  pb_bits_per_sample :: int
  pb_width :: int
  pb_height :: int
  pb_rowstride :: int
  pb_pixels :: "int \<Rightarrow> u8"

record rgb_st =
  rgb_R :: int
  rgb_G :: int
  rgb_B :: int

definition put_pixel :: "pixbuf \<Rightarrow> int \<Rightarrow> int \<Rightarrow> u8 \<Rightarrow> u8 \<Rightarrow> u8 \<Rightarrow> u8 \<Rightarrow> pixbuf c_result" where
  "put_pixel pixbuf x y red green blue alpha =
     (if \<not> pb_colorspace_rgb pixbuf then Inl Assert_Failed
      else if pb_bits_per_sample pixbuf \<noteq> 8 then Inl Assert_Failed
      else if \<not> (x \<ge> 0 \<and> x < pb_width pixbuf) then Inl Assert_Failed
      else if \<not> (y \<ge> 0 \<and> y < pb_height pixbuf) then Inl Assert_Failed
      else let p = y * pb_rowstride pixbuf + x * pb_n_channels pixbuf in
        Inr (pixbuf\<lparr>pb_pixels := (pb_pixels pixbuf)(p := red, p + 1 := green, p + 2 := blue)\<rparr>))"

definition put_rgb :: "pixbuf \<Rightarrow> int \<Rightarrow> int \<Rightarrow> rgb_st \<Rightarrow> pixbuf c_result" where
  "put_rgb p i j rgb =
     put_pixel p i j (word_of_int (rgb_R rgb)) (word_of_int (rgb_G rgb)) (word_of_int (rgb_B rgb)) 0"

definition draw_patch :: "pixbuf \<Rightarrow> int \<Rightarrow> int \<Rightarrow> int \<Rightarrow> int \<Rightarrow> rgb_st \<Rightarrow> pixbuf c_result" where
  "draw_patch p x1 x2 y1 y2 rgb =
     for_loop y1 y2 (\<lambda>j p. for_loop x1 x2 (\<lambda>i p. put_rgb p i j rgb) p) p"

definition MINI_PATCH_WIDTH :: int where "MINI_PATCH_WIDTH = 3"
definition MINI_PATCH_HEIGHT :: int where "MINI_PATCH_HEIGHT = 3"

definition draw_mini_patch :: "pixbuf \<Rightarrow> int \<Rightarrow> int \<Rightarrow> rgb_st \<Rightarrow> pixbuf c_result" where
  "draw_mini_patch p x y rgb =
     for_loop y (MINI_PATCH_HEIGHT + y) (\<lambda>j p.
       for_loop x (MINI_PATCH_WIDTH + x) (\<lambda>i p. put_rgb p i j rgb) p) p"

definition draw_lcd_patch :: "pixbuf \<Rightarrow> int \<Rightarrow> int \<Rightarrow> rgb_st \<Rightarrow> pixbuf c_result" where
  "draw_lcd_patch p x y rgb =
     for_loop 0 8 (\<lambda>j p.
       let row = y + j * (3 + 1) in
       for_loop 0 5 (\<lambda>i p.
         let col = x + i * (3 + 1) in draw_mini_patch p col row rgb) p) p"

section \<open>What a drawing operation does to the image\<close>

type_synonym colour = "u8 \<times> u8 \<times> u8"

definition colour_of :: "rgb_st \<Rightarrow> colour" where
  "colour_of rgb = (word_of_int (rgb_R rgb), word_of_int (rgb_G rgb), word_of_int (rgb_B rgb))"

definition pixel :: "pixbuf \<Rightarrow> int \<Rightarrow> int \<Rightarrow> colour" where
  "pixel pb x y = (let p = y * pb_rowstride pb + x * pb_n_channels pb in
     (pb_pixels pb p, pb_pixels pb (p + 1), pb_pixels pb (p + 2)))"

definition in_image :: "pixbuf \<Rightarrow> int \<Rightarrow> int \<Rightarrow> bool" where
  "in_image pb x y \<longleftrightarrow> 0 \<le> x \<and> x < pb_width pb \<and> 0 \<le> y \<and> y < pb_height pb"

text \<open>
  What \<open>gdk_pixbuf_new_from_file\<close> documents of a loaded JPEG: an RGB image of 8-bit samples, at
  least three of them per pixel, and rows that do not overlap.
\<close>

definition image_ok :: "pixbuf \<Rightarrow> bool" where
  "image_ok pb \<longleftrightarrow> pb_colorspace_rgb pb \<and> pb_bits_per_sample pb = 8 \<and> 3 \<le> pb_n_channels pb \<and>
     pb_width pb * pb_n_channels pb \<le> pb_rowstride pb"

definition same_format :: "pixbuf \<Rightarrow> pixbuf \<Rightarrow> bool" where
  "same_format pb pb' \<longleftrightarrow> pb' = pb\<lparr>pb_pixels := pb_pixels pb'\<rparr>"

type_synonym colour_map = "int \<times> int \<rightharpoonup> colour"

definition painted :: "pixbuf \<Rightarrow> colour_map \<Rightarrow> pixbuf \<Rightarrow> bool" where
  "painted pb f pb' \<longleftrightarrow> same_format pb pb' \<and>
     (\<forall>x y. in_image pb x y \<longrightarrow>
        pixel pb' x y = (case f (x, y) of None \<Rightarrow> pixel pb x y | Some c \<Rightarrow> c))"

lemma same_format_refl [simp]: "same_format pb pb"
  by (simp add: same_format_def)

lemma same_formatD:
  assumes "same_format pb pb'"
  shows "image_ok pb' = image_ok pb" "in_image pb' = in_image pb"
    "pb_width pb' = pb_width pb" "pb_height pb' = pb_height pb"
proof -
  obtain f where "pb' = pb\<lparr>pb_pixels := f\<rparr>" using assms by (auto simp: same_format_def)
  then show "image_ok pb' = image_ok pb" "in_image pb' = in_image pb"
    "pb_width pb' = pb_width pb" "pb_height pb' = pb_height pb"
    by (auto simp: image_ok_def in_image_def fun_eq_iff)
qed

lemma same_format_trans:
  assumes "same_format pb pb1" "same_format pb1 pb2" shows "same_format pb pb2"
proof -
  obtain f where "pb1 = pb\<lparr>pb_pixels := f\<rparr>" using assms(1) by (auto simp: same_format_def)
  moreover obtain g where "pb2 = pb1\<lparr>pb_pixels := g\<rparr>" using assms(2) by (auto simp: same_format_def)
  ultimately show ?thesis by (simp add: same_format_def)
qed

lemma painted_format: "painted pb f pb' \<Longrightarrow> same_format pb pb'"
  by (simp add: painted_def)

lemma painted_none [simp]: "painted pb (\<lambda>_. None) pb"
  by (simp add: painted_def)

text \<open>Two drawings in sequence lay their maps over each other, the later on top.\<close>

lemma painted_trans:
  assumes "painted pb f pb1" and "painted pb1 g pb2"
  shows "painted pb (f ++ g) pb2"
proof -
  have "in_image pb1 = in_image pb"
    using assms(1) by (simp add: painted_def same_formatD)
  then show ?thesis
    using assms same_format_trans by (auto simp: painted_def map_add_def split: option.splits)
qed

lemma painted_cong:
  assumes "painted pb f pb'" and "\<And>x y. in_image pb x y \<Longrightarrow> f (x, y) = g (x, y)"
  shows "painted pb g pb'"
  using assms by (auto simp: painted_def)

section \<open>Single pixels\<close>

text \<open>Pixels of the image do not share bytes: two of them start at least three bytes apart.\<close>

lemma offsets_apart_row:
  fixes x x' nc :: int
  assumes "3 \<le> nc" "x < x'"
  shows "x * nc + 3 \<le> x' * nc"
proof -
  have "(x + 1) * nc \<le> x' * nc" using assms by (intro mult_right_mono) auto
  then show ?thesis using assms(1) by (simp add: algebra_simps)
qed

lemma offsets_apart_below:
  fixes x x' y y' w nc rs :: int
  assumes "3 \<le> nc" "w * nc \<le> rs" "0 \<le> x" "x < w" "0 \<le> x'" "y < y'"
  shows "y * rs + x * nc + 3 \<le> y' * rs + x' * nc"
proof -
  have w: "x * nc + 3 \<le> w * nc" using assms by (intro offsets_apart_row)
  have x: "0 \<le> x * nc" "0 \<le> x' * nc" using assms by simp_all
  have "0 \<le> rs" using w x assms(2) by linarith
  then have "(y + 1) * rs \<le> y' * rs" using assms(6) by (intro mult_right_mono) auto
  then have "y * rs + rs \<le> y' * rs" by (simp add: distrib_right)
  then show ?thesis using w x assms(2) by linarith
qed

lemma offsets_apart:
  assumes "image_ok pb" "in_image pb x y" "in_image pb x' y'" "(x, y) \<noteq> (x', y')"
  defines "off \<equiv> \<lambda>x y. y * pb_rowstride pb + x * pb_n_channels pb"
  shows "off x y + 3 \<le> off x' y' \<or> off x' y' + 3 \<le> off x y"
proof -
  have nc: "3 \<le> pb_n_channels pb" and w: "pb_width pb * pb_n_channels pb \<le> pb_rowstride pb"
    using assms(1) by (auto simp: image_ok_def)
  have xs: "0 \<le> x" "x < pb_width pb" "0 \<le> x'" "x' < pb_width pb"
    using assms(2,3) by (auto simp: in_image_def)
  consider "y < y'" | "y' < y" | "y = y'" "x < x'" | "y = y'" "x' < x"
    using assms(4) by fastforce
  then show ?thesis
  proof cases
    case 1
    then show ?thesis unfolding off_def using offsets_apart_below [OF nc w xs(1,2,3)] by blast
  next
    case 2
    then show ?thesis unfolding off_def using offsets_apart_below [OF nc w xs(3,4,1)] by blast
  next
    case 3
    then show ?thesis unfolding off_def using offsets_apart_row [OF nc] by force
  next
    case 4
    then show ?thesis unfolding off_def using offsets_apart_row [OF nc] by force
  qed
qed

lemma put_rgb_painted:
  assumes "image_ok pb" and "in_image pb x y"
  shows "\<exists>pb'. put_rgb pb x y rgb = Inr pb' \<and>
    painted pb (\<lambda>q. if q = (x, y) then Some (colour_of rgb) else None) pb'"
proof -
  let ?off = "\<lambda>x y. y * pb_rowstride pb + x * pb_n_channels pb"
  let ?p = "?off x y"
  let ?pb = "pb\<lparr>pb_pixels := (pb_pixels pb)(?p := word_of_int (rgb_R rgb),
    ?p + 1 := word_of_int (rgb_G rgb), ?p + 2 := word_of_int (rgb_B rgb))\<rparr>"
  have "put_rgb pb x y rgb = Inr ?pb"
    using assms by (simp add: put_rgb_def put_pixel_def image_ok_def in_image_def Let_def)
  moreover have "painted pb (\<lambda>q. if q = (x, y) then Some (colour_of rgb) else None) ?pb"
    unfolding painted_def
  proof (intro conjI allI impI)
    show "same_format pb ?pb" by (simp add: same_format_def)
    fix x' y' assume "in_image pb x' y'"
    show "pixel ?pb x' y' = (case if (x', y') = (x, y) then Some (colour_of rgb) else None of
        None \<Rightarrow> pixel pb x' y' | Some c \<Rightarrow> c)"
    proof (cases "(x', y') = (x, y)")
      case True
      then show ?thesis by (simp add: pixel_def colour_of_def Let_def)
    next
      case False
      then have "?off x y + 3 \<le> ?off x' y' \<or> ?off x' y' + 3 \<le> ?off x y"
        using offsets_apart [OF assms \<open>in_image pb x' y'\<close>] by auto
      then show ?thesis using False by (auto simp: pixel_def Let_def)
    qed
  qed
  ultimately show ?thesis by blast
qed

section \<open>Rectangles\<close>

definition rect_map :: "int \<Rightarrow> int \<Rightarrow> int \<Rightarrow> int \<Rightarrow> colour \<Rightarrow> colour_map" where
  "rect_map x1 x2 y1 y2 c =
     (\<lambda>(u, v). if x1 \<le> u \<and> u < x2 \<and> y1 \<le> v \<and> v < y2 then Some c else None)"

lemma draw_row_painted:
  assumes "image_ok pb" and "0 \<le> x1" "x1 \<le> x2" "x2 \<le> pb_width pb" "0 \<le> j" "j < pb_height pb"
  shows "\<exists>pb'. for_loop x1 x2 (\<lambda>i p. put_rgb p i j rgb) pb = Inr pb' \<and>
    painted pb (rect_map x1 x2 j (j + 1) (colour_of rgb)) pb'"
proof (rule for_loop_inv [where I = "\<lambda>i p. painted pb (rect_map x1 i j (j + 1) (colour_of rgb)) p"])
  show "painted pb (rect_map x1 x1 j (j + 1) (colour_of rgb)) pb"
    by (rule painted_cong [OF painted_none]) (simp add: rect_map_def)
  fix i p
  assume i: "x1 \<le> i" "i < x2" and p: "painted pb (rect_map x1 i j (j + 1) (colour_of rgb)) p"
  note fmt = painted_format [OF p]
  have "in_image p i j" using assms i by (simp add: same_formatD [OF fmt] in_image_def)
  then obtain p' where p': "put_rgb p i j rgb = Inr p'"
    "painted p (\<lambda>q. if q = (i, j) then Some (colour_of rgb) else None) p'"
    using put_rgb_painted [of p i j rgb] assms(1) by (auto simp: same_formatD [OF fmt])
  then have "painted pb (rect_map x1 (i + 1) j (j + 1) (colour_of rgb)) p'"
    by (intro painted_cong [OF painted_trans [OF p p'(2)]])
      (use i in \<open>auto simp: rect_map_def map_add_def\<close>)
  with p'(1) show "\<exists>p'. put_rgb p i j rgb = Inr p' \<and>
      painted pb (rect_map x1 (i + 1) j (j + 1) (colour_of rgb)) p'" by blast
qed fact

lemma draw_patch_painted:
  assumes "image_ok pb" and "0 \<le> x1" "x1 \<le> x2" "x2 \<le> pb_width pb" "0 \<le> y1" "y1 \<le> y2" "y2 \<le> pb_height pb"
  shows "\<exists>pb'. draw_patch pb x1 x2 y1 y2 rgb = Inr pb' \<and>
    painted pb (rect_map x1 x2 y1 y2 (colour_of rgb)) pb'"
  unfolding draw_patch_def
proof (rule for_loop_inv [where I = "\<lambda>j p. painted pb (rect_map x1 x2 y1 j (colour_of rgb)) p"])
  show "painted pb (rect_map x1 x2 y1 y1 (colour_of rgb)) pb"
    by (rule painted_cong [OF painted_none]) (simp add: rect_map_def)
  fix j p
  assume j: "y1 \<le> j" "j < y2" and p: "painted pb (rect_map x1 x2 y1 j (colour_of rgb)) p"
  note fmt = painted_format [OF p]
  obtain p' where p': "for_loop x1 x2 (\<lambda>i p. put_rgb p i j rgb) p = Inr p'"
    "painted p (rect_map x1 x2 j (j + 1) (colour_of rgb)) p'"
    using draw_row_painted [of p x1 x2 j rgb] assms j by (auto simp: same_formatD [OF fmt])
  then have "painted pb (rect_map x1 x2 y1 (j + 1) (colour_of rgb)) p'"
    by (intro painted_cong [OF painted_trans [OF p p'(2)]])
      (use j in \<open>auto simp: rect_map_def map_add_def\<close>)
  with p'(1) show "\<exists>p'. for_loop x1 x2 (\<lambda>i p. put_rgb p i j rgb) p = Inr p' \<and>
      painted pb (rect_map x1 x2 y1 (j + 1) (colour_of rgb)) p'" by blast
qed fact

lemma draw_mini_patch_eq: "draw_mini_patch p x y rgb = draw_patch p x (x + 3) y (y + 3) rgb"
  by (simp add: draw_mini_patch_def draw_patch_def MINI_PATCH_WIDTH_def MINI_PATCH_HEIGHT_def
      add.commute)

section \<open>Dot matrices\<close>

text \<open>
  A character cell is a matrix of 5 by 8 dots, each three pixels square with one pixel between
  them. \<open>dots_map x y col\<close> colours dot \<open>(j, i)\<close> with \<open>col j i\<close> and leaves the gaps alone.
\<close>

definition dots_map :: "int \<Rightarrow> int \<Rightarrow> int \<Rightarrow> (int \<Rightarrow> int \<Rightarrow> colour) \<Rightarrow> colour_map" where
  "dots_map x y n col =
     (\<lambda>(u, v). if x \<le> u \<and> u < x + 20 \<and> y \<le> v \<and> v < y + 4 * n \<and>
                  (u - x) mod 4 < 3 \<and> (v - y) mod 4 < 3
               then Some (col ((v - y) div 4) ((u - x) div 4)) else None)"

text \<open>One row of dots, the first \<open>m\<close> of them.\<close>

definition dot_row_map :: "int \<Rightarrow> int \<Rightarrow> int \<Rightarrow> (int \<Rightarrow> colour) \<Rightarrow> colour_map" where
  "dot_row_map x r m col =
     (\<lambda>(u, v). if x \<le> u \<and> u < x + 4 * m \<and> r \<le> v \<and> v < r + 3 \<and> (u - x) mod 4 < 3
               then Some (col ((u - x) div 4)) else None)"

lemma div4_next:
  fixes d i :: int
  assumes "4 * i \<le> d" "d < 4 * i + 4"
  shows "d div 4 = i"
  using assms by linarith


text \<open>A row of dots drawn by the inner loop of both drawing functions.\<close>

lemma draw_dot_row_painted:
  assumes "image_ok pb" and "0 \<le> x" "x + 19 \<le> pb_width pb" "0 \<le> r" "r + 3 \<le> pb_height pb"
  shows "\<exists>pb'. for_loop 0 5 (\<lambda>i p. draw_mini_patch p (x + i * (3 + 1)) r (C i)) pb = Inr pb' \<and>
    painted pb (dot_row_map x r 5 (colour_of \<circ> C)) pb'"
proof (rule for_loop_inv [where I = "\<lambda>i p. painted pb (dot_row_map x r i (colour_of \<circ> C)) p"])
  show "painted pb (dot_row_map x r 0 (colour_of \<circ> C)) pb"
    by (rule painted_cong [OF painted_none]) (simp add: dot_row_map_def)
  fix i p
  assume i: "0 \<le> i" "i < 5" and p: "painted pb (dot_row_map x r i (colour_of \<circ> C)) p"
  note fmt = painted_format [OF p]
  obtain p' where p': "draw_mini_patch p (x + i * (3 + 1)) r (C i) = Inr p'"
    "painted p (rect_map (x + 4 * i) (x + 4 * i + 3) r (r + 3) (colour_of (C i))) p'"
    using draw_patch_painted [of p "x + i * (3 + 1)" "x + i * (3 + 1) + 3" r "r + 3" "C i"] assms i
    by (auto simp: same_formatD [OF fmt] draw_mini_patch_eq mult.commute)
  have "(rect_map (x + 4 * i) (x + 4 * i + 3) r (r + 3) (colour_of (C i))) (u, v) =
      (if r \<le> v \<and> v < r + 3 \<and> (u - x) mod 4 < 3 \<and> (u - x) div 4 = i then Some (colour_of (C i)) else None)"
    for u v unfolding rect_map_def by auto presburger+
  moreover have "dot_row_map x r k (colour_of \<circ> C) (u, v) =
      (if r \<le> v \<and> v < r + 3 \<and> (u - x) mod 4 < 3 \<and> 0 \<le> (u - x) div 4 \<and> (u - x) div 4 < k
       then Some (colour_of (C ((u - x) div 4))) else None)" for u v k
    unfolding dot_row_map_def by auto
  ultimately have "painted pb (dot_row_map x r (i + 1) (colour_of \<circ> C)) p'"
    by (intro painted_cong [OF painted_trans [OF p p'(2)]])
      (use i in \<open>auto simp: map_add_def\<close>)
  with p'(1) show "\<exists>p'. draw_mini_patch p (x + i * (3 + 1)) r (C i) = Inr p' \<and>
      painted pb (dot_row_map x r (i + 1) (colour_of \<circ> C)) p'" by blast
qed simp

lemma draw_dots_painted:
  assumes "image_ok pb" and "0 \<le> x" "x + 19 \<le> pb_width pb" "0 \<le> y" "y + 31 \<le> pb_height pb"
  shows "\<exists>pb'. for_loop 0 8 (\<lambda>j p.
      for_loop 0 5 (\<lambda>i p. draw_mini_patch p (x + i * (3 + 1)) (y + j * (3 + 1)) (C j i)) p) pb = Inr pb' \<and>
    painted pb (dots_map x y 8 (\<lambda>j i. colour_of (C j i))) pb'"
proof (rule for_loop_inv [where I = "\<lambda>j p. painted pb (dots_map x y j (\<lambda>j i. colour_of (C j i))) p"])
  show "painted pb (dots_map x y 0 (\<lambda>j i. colour_of (C j i))) pb"
    by (rule painted_cong [OF painted_none]) (simp add: dots_map_def)
  fix j p
  assume j: "0 \<le> j" "j < 8" and p: "painted pb (dots_map x y j (\<lambda>j i. colour_of (C j i))) p"
  note fmt = painted_format [OF p]
  let ?loop = "for_loop 0 5 (\<lambda>i p. draw_mini_patch p (x + i * (3 + 1)) (y + j * (3 + 1)) (C j i)) p"
  obtain p' where p': "?loop = Inr p'" "painted p (dot_row_map x (y + j * (3 + 1)) 5 (colour_of \<circ> C j)) p'"
    using draw_dot_row_painted [of p x "y + j * (3 + 1)" "C j"] assms j
    by (auto simp: same_formatD [OF fmt])
  have "dot_row_map x (y + j * (3 + 1)) 5 (colour_of \<circ> C j) (u, v) =
      (if x \<le> u \<and> u < x + 20 \<and> (u - x) mod 4 < 3 \<and> (v - y) mod 4 < 3 \<and> (v - y) div 4 = j
       then Some (colour_of (C ((v - y) div 4) ((u - x) div 4))) else None)" for u v
    unfolding dot_row_map_def by auto presburger+
  moreover have "dots_map x y k (\<lambda>j i. colour_of (C j i)) (u, v) =
      (if x \<le> u \<and> u < x + 20 \<and> (u - x) mod 4 < 3 \<and> (v - y) mod 4 < 3 \<and> 0 \<le> (v - y) div 4 \<and> (v - y) div 4 < k
       then Some (colour_of (C ((v - y) div 4) ((u - x) div 4))) else None)" for u v k
    unfolding dots_map_def by auto
  ultimately have "painted pb (dots_map x y (j + 1) (\<lambda>j i. colour_of (C j i))) p'"
    by (intro painted_cong [OF painted_trans [OF p p'(2)]])
      (use j in \<open>auto simp: map_add_def\<close>)
  with p'(1) show "\<exists>p'. ?loop = Inr p' \<and>
      painted pb (dots_map x y (j + 1) (\<lambda>j i. colour_of (C j i))) p'" by blast
qed simp

lemma draw_lcd_patch_painted:
  assumes "image_ok pb" and "0 \<le> x" "x + 19 \<le> pb_width pb" "0 \<le> y" "y + 31 \<le> pb_height pb"
  shows "\<exists>pb'. draw_lcd_patch pb x y rgb = Inr pb' \<and>
    painted pb (dots_map x y 8 (\<lambda>_ _. colour_of rgb)) pb'"
  unfolding draw_lcd_patch_def Let_def using draw_dots_painted [OF assms, of "\<lambda>_ _. rgb"] by simp

end
