(* ===== verification/Cgrom.thy ===== *)
theory Cgrom
  imports C_Prelude
begin

text \<open>
  The character generator table \<open>cgrom\<close> of \<open>cgrom.h\<close>: ninety-six symbols from the space to the
  left arrow, in the order of the array \<open>cgrom [ALL_SYMBOLS_IN_CGROM]\<close>, each of eight rows of
  five dots (bits 4 to 0).
\<close>

definition cgrom :: "u8 list list" where
  "cgrom = [
   [0x00, 0x00, 0x00, 0x00, 0x00, 0x00, 0x00, 0x00],
   [0x04, 0x04, 0x04, 0x04, 0x00, 0x00, 0x04, 0x00],
   [0x0a, 0x0a, 0x0a, 0x00, 0x00, 0x00, 0x00, 0x00],
   [0x0a, 0x0a, 0x1f, 0x0a, 0x1f, 0x0a, 0x0a, 0x00],
   [0x04, 0x0f, 0x14, 0x0e, 0x05, 0x1e, 0x04, 0x00],
   [0x18, 0x19, 0x02, 0x04, 0x08, 0x13, 0x03, 0x00],
   [0x0c, 0x12, 0x14, 0x08, 0x15, 0x12, 0x0d, 0x00],
   [0x0c, 0x04, 0x08, 0x00, 0x00, 0x00, 0x00, 0x00],
   [0x02, 0x04, 0x08, 0x08, 0x08, 0x04, 0x02, 0x00],
   [0x08, 0x04, 0x02, 0x02, 0x02, 0x04, 0x08, 0x00],
   [0x00, 0x04, 0x15, 0x0e, 0x15, 0x04, 0x00, 0x00],
   [0x00, 0x04, 0x04, 0x1f, 0x04, 0x04, 0x00, 0x00],
   [0x00, 0x00, 0x00, 0x00, 0x0c, 0x04, 0x08, 0x00],
   [0x00, 0x00, 0x00, 0x1f, 0x00, 0x00, 0x00, 0x00],
   [0x00, 0x00, 0x00, 0x00, 0x00, 0x0c, 0x0c, 0x00],
   [0x00, 0x01, 0x02, 0x04, 0x08, 0x10, 0x00, 0x00],
   [0x0e, 0x11, 0x13, 0x15, 0x19, 0x11, 0x0e, 0x00],
   [0x04, 0x0c, 0x04, 0x04, 0x04, 0x04, 0x0e, 0x00],
   [0x0e, 0x11, 0x01, 0x02, 0x04, 0x08, 0x1f, 0x00],
   [0x1f, 0x02, 0x04, 0x02, 0x01, 0x11, 0x0e, 0x00],
   [0x02, 0x06, 0x0a, 0x12, 0x1f, 0x02, 0x02, 0x00],
   [0x1f, 0x10, 0x1e, 0x01, 0x01, 0x11, 0x0e, 0x00],
   [0x06, 0x08, 0x10, 0x1e, 0x11, 0x11, 0x0e, 0x00],
   [0x1f, 0x11, 0x01, 0x02, 0x04, 0x04, 0x04, 0x00],
   [0x0e, 0x11, 0x11, 0x0e, 0x11, 0x11, 0x0e, 0x00],
   [0x0e, 0x11, 0x11, 0x0f, 0x01, 0x02, 0x0c, 0x00],
   [0x00, 0x0c, 0x0c, 0x00, 0x0c, 0x0c, 0x00, 0x00],
   [0x00, 0x0c, 0x0c, 0x00, 0x0c, 0x04, 0x08, 0x00],
   [0x02, 0x04, 0x08, 0x10, 0x08, 0x04, 0x02, 0x00],
   [0x00, 0x00, 0x1f, 0x00, 0x1f, 0x00, 0x00, 0x00],
   [0x08, 0x04, 0x02, 0x01, 0x02, 0x04, 0x08, 0x00],
   [0x0e, 0x11, 0x01, 0x02, 0x04, 0x00, 0x04, 0x00],
   [0x0e, 0x11, 0x01, 0x0d, 0x15, 0x15, 0x0e, 0x00],
   [0x0e, 0x11, 0x11, 0x11, 0x1f, 0x11, 0x11, 0x00],
   [0x1e, 0x11, 0x11, 0x1e, 0x11, 0x11, 0x1e, 0x00],
   [0x0e, 0x11, 0x10, 0x10, 0x10, 0x11, 0x0e, 0x00],
   [0x1c, 0x12, 0x11, 0x11, 0x11, 0x12, 0x1c, 0x00],
   [0x1f, 0x10, 0x10, 0x1e, 0x10, 0x10, 0x1f, 0x00],
   [0x1f, 0x10, 0x10, 0x1e, 0x10, 0x10, 0x10, 0x00],
   [0x0e, 0x11, 0x10, 0x17, 0x11, 0x11, 0x0f, 0x00],
   [0x11, 0x11, 0x11, 0x1f, 0x11, 0x11, 0x11, 0x00],
   [0x0e, 0x04, 0x04, 0x04, 0x04, 0x04, 0x0e, 0x00],
   [0x07, 0x02, 0x02, 0x02, 0x02, 0x12, 0x0c, 0x00],
   [0x11, 0x12, 0x14, 0x18, 0x14, 0x12, 0x11, 0x00],
   [0x10, 0x10, 0x10, 0x10, 0x10, 0x10, 0x1f, 0x00],
   [0x11, 0x1b, 0x15, 0x15, 0x11, 0x11, 0x11, 0x00],
   [0x11, 0x11, 0x19, 0x15, 0x13, 0x11, 0x11, 0x00],
   [0x0e, 0x11, 0x11, 0x11, 0x11, 0x11, 0x0e, 0x00],
   [0x1e, 0x11, 0x11, 0x1e, 0x10, 0x10, 0x10, 0x00],
   [0x0e, 0x11, 0x11, 0x11, 0x15, 0x12, 0x0d, 0x00],
   [0x1e, 0x11, 0x11, 0x1e, 0x14, 0x12, 0x11, 0x00],
   [0x0f, 0x10, 0x10, 0x0e, 0x01, 0x01, 0x1e, 0x00],
   [0x1f, 0x04, 0x04, 0x04, 0x04, 0x04, 0x04, 0x00],
   [0x11, 0x11, 0x11, 0x11, 0x11, 0x11, 0x0e, 0x00],
   [0x11, 0x11, 0x11, 0x11, 0x11, 0x0a, 0x04, 0x00],
   [0x11, 0x11, 0x11, 0x15, 0x15, 0x15, 0x0a, 0x00],
   [0x11, 0x11, 0x0a, 0x04, 0x0a, 0x11, 0x11, 0x00],
   [0x11, 0x11, 0x11, 0x0a, 0x04, 0x04, 0x04, 0x00],
   [0x1f, 0x01, 0x02, 0x04, 0x08, 0x10, 0x1f, 0x00],
   [0x1c, 0x10, 0x10, 0x10, 0x10, 0x10, 0x1c, 0x00],
   [0x11, 0x0a, 0x1f, 0x04, 0x1f, 0x04, 0x04, 0x00],
   [0x0e, 0x02, 0x02, 0x02, 0x02, 0x02, 0x0e, 0x00],
   [0x04, 0x0a, 0x11, 0x00, 0x00, 0x00, 0x00, 0x00],
   [0x00, 0x00, 0x00, 0x00, 0x00, 0x00, 0x1f, 0x00],
   [0x08, 0x04, 0x02, 0x00, 0x00, 0x00, 0x00, 0x00],
   [0x00, 0x00, 0x0e, 0x01, 0x0f, 0x11, 0x0f, 0x00],
   [0x10, 0x10, 0x16, 0x19, 0x11, 0x11, 0x1e, 0x00],
   [0x00, 0x00, 0x0e, 0x10, 0x10, 0x11, 0x0e, 0x00],
   [0x01, 0x01, 0x0d, 0x13, 0x11, 0x11, 0x0f, 0x00],
   [0x00, 0x00, 0x0e, 0x11, 0x1f, 0x10, 0x0e, 0x00],
   [0x06, 0x09, 0x08, 0x1c, 0x08, 0x08, 0x08, 0x00],
   [0x00, 0x0f, 0x11, 0x11, 0x0f, 0x01, 0x0e, 0x00],
   [0x10, 0x10, 0x16, 0x19, 0x11, 0x11, 0x11, 0x00],
   [0x04, 0x00, 0x0c, 0x04, 0x04, 0x04, 0x0e, 0x00],
   [0x02, 0x00, 0x06, 0x02, 0x02, 0x12, 0x0c, 0x00],
   [0x10, 0x10, 0x12, 0x14, 0x18, 0x14, 0x12, 0x00],
   [0x0c, 0x04, 0x04, 0x04, 0x04, 0x04, 0x0e, 0x00],
   [0x00, 0x00, 0x1a, 0x15, 0x15, 0x11, 0x11, 0x00],
   [0x00, 0x00, 0x16, 0x19, 0x11, 0x11, 0x11, 0x00],
   [0x00, 0x00, 0x0e, 0x11, 0x11, 0x11, 0x0e, 0x00],
   [0x00, 0x00, 0x1e, 0x11, 0x1e, 0x10, 0x10, 0x00],
   [0x00, 0x00, 0x0d, 0x13, 0x0f, 0x01, 0x01, 0x00],
   [0x00, 0x00, 0x16, 0x19, 0x10, 0x10, 0x10, 0x00],
   [0x00, 0x00, 0x0e, 0x10, 0x0e, 0x01, 0x1e, 0x00],
   [0x08, 0x08, 0x1c, 0x08, 0x08, 0x09, 0x06, 0x00],
   [0x00, 0x00, 0x11, 0x11, 0x11, 0x13, 0x0d, 0x00],
   [0x00, 0x00, 0x11, 0x11, 0x11, 0x0a, 0x04, 0x00],
   [0x00, 0x00, 0x11, 0x15, 0x15, 0x15, 0x0a, 0x00],
   [0x00, 0x00, 0x11, 0x0a, 0x04, 0x0a, 0x11, 0x00],
   [0x00, 0x00, 0x11, 0x11, 0x0f, 0x01, 0x0e, 0x00],
   [0x00, 0x00, 0x1f, 0x02, 0x04, 0x08, 0x1f, 0x00],
   [0x02, 0x04, 0x04, 0x08, 0x04, 0x04, 0x02, 0x00],
   [0x04, 0x04, 0x04, 0x04, 0x04, 0x04, 0x04, 0x00],
   [0x08, 0x04, 0x04, 0x02, 0x04, 0x04, 0x08, 0x00],
   [0x00, 0x04, 0x02, 0x1f, 0x02, 0x04, 0x00, 0x00],
   [0x00, 0x04, 0x08, 0x1f, 0x08, 0x04, 0x00, 0x00]]"

lemma length_cgrom [simp]: "length cgrom = 96"
  by (simp add: cgrom_def)

lemma length_cgrom_row: "row \<in> set cgrom \<Longrightarrow> length row = 8"
  by (auto simp: cgrom_def)

lemma length_cgrom_nth [simp]: "k < 96 \<Longrightarrow> length (cgrom ! k) = 8"
  by (rule length_cgrom_row) (rule nth_mem, simp)

end
