(* ===== verification/Lcd_Common.thy ===== *)
theory Lcd_Common
  imports Lcd_Driver Lcd_Surface Cgrom
begin

text \<open>
  What the two display simulators share: the state of the drawing surface, of the write position
  and of the blinking cursor (\<open>pix\<close>, \<open>lcd_line\<close>, \<open>lcd_cursor\<close> and the flags of
  \<open>lcd_display_config_st\<close>), the two colours of a dot, and the loop that draws one symbol.
\<close>

section \<open>State and colours\<close>

record lcd_state =
  pix :: pixbuf
  lcd_line :: int
  lcd_cursor :: int
  cursor :: int
  blink :: int
  blink_was_on :: int
  blink_last_index_line :: int
  blink_last_index_cursor :: int

abbreviation (input) PATCH_WIDTH :: int where "PATCH_WIDTH \<equiv> 19"
abbreviation (input) PATCH_HEIGHT :: int where "PATCH_HEIGHT \<equiv> 30"

definition rgb_blank :: rgb_st where
  "rgb_blank = \<lparr>rgb_R = 123, rgb_G = 160, rgb_B = 47\<rparr>"

definition rgb_fill :: rgb_st where
  "rgb_fill = \<lparr>rgb_R = 10, rgb_G = 10, rgb_B = 10\<rparr>"

definition rgb_background :: rgb_st where
  "rgb_background = \<lparr>rgb_R = 135, rgb_G = 175, rgb_B = 53\<rparr>"

section \<open>Drawing one symbol\<close>

text \<open>
  The body of \<open>draw_lcd_patch_from_cgrom\<close> after its sanity checks: eight rows of five dots,
  dark where the row of the table has the bit set.
\<close>

definition draw_symbol :: "pixbuf \<Rightarrow> int \<Rightarrow> int \<Rightarrow> int \<Rightarrow> pixbuf c_result" where
  "draw_symbol p x y symbol_index =
     for_loop 0 8 (\<lambda>j p.
       let row = y + j * (3 + 1) in
       c_bind (arr_get cgrom symbol_index) (\<lambda>vline.
       c_bind (arr_get vline j) (\<lambda>line.
         for_loop 0 5 (\<lambda>i p.
           let mask = drop_bit (nat i) (0x10 :: u8); col = x + i * (3 + 1) in
           if line AND mask \<noteq> 0 then draw_mini_patch p col row rgb_fill
           else draw_mini_patch p col row rgb_blank) p))) p"

text \<open>The dot \<open>(j, i)\<close> of a symbol, and the picture of the symbol at a position.\<close>

definition glyph_dot :: "int \<Rightarrow> int \<Rightarrow> int \<Rightarrow> bool" where
  "glyph_dot k j i \<longleftrightarrow> (cgrom ! nat k ! nat j) AND drop_bit (nat i) 0x10 \<noteq> 0"

definition glyph_map :: "int \<Rightarrow> int \<Rightarrow> int \<Rightarrow> colour_map" where
  "glyph_map x y k =
     dots_map x y 8 (\<lambda>j i. colour_of (if glyph_dot k j i then rgb_fill else rgb_blank))"

lemma for_loop_cong:
  assumes "\<And>j p. i \<le> j \<Longrightarrow> j < n \<Longrightarrow> f j p = g j p"
  shows "for_loop i n f s = for_loop i n g s"
  using assms
proof (induction "nat (n - i)" arbitrary: i s)
  case 0
  then show ?case by simp
next
  case (Suc k)
  then have "i < n" by simp
  moreover have "for_loop (i + 1) n f = for_loop (i + 1) n g"
    using Suc.hyps(2) Suc.prems by (intro ext Suc.hyps(1)) auto
  ultimately show ?case by (simp add: for_loop_step Suc.prems)
qed

lemma draw_symbol_painted:
  assumes "image_ok pb" and "0 \<le> x" "x + 19 \<le> pb_width pb" "0 \<le> y" "y + 31 \<le> pb_height pb"
    and "0 \<le> k" "k < 96"
  shows "\<exists>pb'. draw_symbol pb x y k = Inr pb' \<and> painted pb (glyph_map x y k) pb'"
proof -
  let ?C = "\<lambda>j i. if glyph_dot k j i then rgb_fill else rgb_blank"
  have "draw_symbol pb x y k = for_loop 0 8 (\<lambda>j p.
      for_loop 0 5 (\<lambda>i p. draw_mini_patch p (x + i * (3 + 1)) (y + j * (3 + 1)) (?C j i)) p) pb"
    unfolding draw_symbol_def Let_def
    using assms(6,7) by (intro for_loop_cong)
      (simp add: glyph_dot_def if_distrib [of "draw_mini_patch _ _ _"] cong: if_cong)
  then show ?thesis
    using draw_dots_painted [OF assms(1-5), of ?C] by (simp add: glyph_map_def)
qed

lemma draw_symbol_no_glyph: "k < 0 \<Longrightarrow> draw_symbol pb x y k = Inl Out_Of_Bounds"
  by (simp add: draw_symbol_def for_loop_step arr_get_def)

end
