(* ===== verification/Lcd_4x20.thy ===== *)
theory Lcd_4x20
  imports Lcd_Common
begin

text \<open>
  The display simulator of \<open>main_glade_lcd_4_20.c\<close>, the program the Makefile builds: four rows of
  twenty cells drawn on an image, the low-level calls that the widgets use, and the callback that
  blinks the cursor. The image refresh (\<open>gtk_image_set_from_pixbuf\<close>) only shows \<open>pix\<close> and is
  not modelled.
\<close>

section \<open>Configuration and state\<close>

abbreviation (input) LCD_ROWS :: int where "LCD_ROWS \<equiv> 4"
abbreviation (input) LCD_COLUMNS :: int where "LCD_COLUMNS \<equiv> 20"
abbreviation (input) PATCH_COLUMN_START :: int where "PATCH_COLUMN_START \<equiv> 54"
abbreviation (input) PATCH_ROW_START :: int where "PATCH_ROW_START \<equiv> 72"
abbreviation (input) LCD_LAST_ROW :: int where "LCD_LAST_ROW \<equiv> LCD_ROWS - 1"
abbreviation (input) LCD_LAST_COLUMN :: int where "LCD_LAST_COLUMN \<equiv> LCD_COLUMNS - 1"

text \<open>\<open>lcd_display_config_st\<close> with the globals \<open>pix\<close>, \<open>lcd_line\<close> and \<open>lcd_cursor\<close>.\<close>

record lcd4 = lcd_state +
  ddram :: "u8 list list"

section \<open>Drawing\<close>

definition fill_with_lcd_patches :: "pixbuf \<Rightarrow> pixbuf c_result" where
  "fill_with_lcd_patches p =
     for_loop 0 LCD_ROWS (\<lambda>j p.
       for_loop 0 LCD_COLUMNS (\<lambda>i p.
         let row_pos = (if j \<noteq> 0 then PATCH_ROW_START + PATCH_HEIGHT * j + 4 * j else PATCH_ROW_START);
             col = PATCH_COLUMN_START + i * (PATCH_WIDTH + 2)
         in draw_lcd_patch p col row_pos rgb_blank) p) p"

definition unfill_surface :: "pixbuf \<Rightarrow> pixbuf c_result" where
  "unfill_surface p =
     (let x1 = PATCH_COLUMN_START;
          x2 = PATCH_COLUMN_START + LCD_COLUMNS * (PATCH_WIDTH + 2);
          y1 = PATCH_ROW_START;
          y2 = PATCH_ROW_START + LCD_ROWS * PATCH_HEIGHT + LCD_ROWS * 4
      in draw_patch p x1 x2 y1 y2 rgb_background)"

text \<open>The two out parameters are left as they were outside the display.\<close>

definition get_lcd_patch_position :: "int \<Rightarrow> int \<Rightarrow> int \<times> int \<Rightarrow> int \<times> int" where
  "get_lcd_patch_position row column xy =
     (if row > LCD_LAST_ROW then xy
      else if column > LCD_LAST_COLUMN then xy
      else (PATCH_COLUMN_START + column * (PATCH_WIDTH + 2),
            if row \<noteq> 0 then PATCH_ROW_START + (PATCH_HEIGHT * row) + 4 * row else PATCH_ROW_START))"

definition draw_lcd_patch_from_cgrom :: "pixbuf \<Rightarrow> int \<Rightarrow> int \<Rightarrow> int \<Rightarrow> pixbuf c_result" where
  "draw_lcd_patch_from_cgrom p line_pos cursor_pos symbol_index =
     (if symbol_index > LAST_SYMBOL_IN_CGROM then Inr p
      else if line_pos > LCD_LAST_ROW \<or> cursor_pos > LCD_LAST_COLUMN then Inr p
      else let (x, y) = get_lcd_patch_position line_pos cursor_pos (0, 0)
           in draw_symbol p x y symbol_index)"

section \<open>The low-level calls\<close>

definition ddram_get :: "lcd4 \<Rightarrow> int \<Rightarrow> int \<Rightarrow> u8 c_result" where
  "ddram_get d l c = c_bind (arr_get (ddram d) l) (\<lambda>row. arr_get row c)"

definition ddram_set :: "lcd4 \<Rightarrow> int \<Rightarrow> int \<Rightarrow> u8 \<Rightarrow> lcd4 c_result" where
  "ddram_set d l c b =
     c_bind (arr_get (ddram d) l) (\<lambda>row.
     c_bind (arr_set row c b) (\<lambda>row'.
     c_bind (arr_set (ddram d) l row') (\<lambda>m. Inr (d\<lparr>ddram := m\<rparr>))))"

text \<open>The statement both writers guard: draw the character, remember it, if it is on the display.\<close>

definition show_char :: "u8 \<Rightarrow> lcd4 \<Rightarrow> lcd4 c_result" where
  "show_char b d =
     c_bind (draw_lcd_patch_from_cgrom (pix d) (lcd_line d) (lcd_cursor d) (uint b - 32)) (\<lambda>p.
       let d' = d\<lparr>pix := p\<rparr> in
       if lcd_line d < LCD_ROWS \<and> lcd_cursor d < LCD_COLUMNS
       then ddram_set d' (lcd_line d) (lcd_cursor d) b else Inr d')"

fun Lcd_TransmitStr :: "u8 list \<Rightarrow> lcd4 \<Rightarrow> lcd4 c_result" where
  "Lcd_TransmitStr [] d = Inr d"
| "Lcd_TransmitStr (b # line) d =
     (if b = 0 then Inr d
      else c_bind (if sint b \<ge> 32 \<and> sint b < LAST_SYMBOL_IN_CGROM + 32 then show_char b d else Inr d)
        (\<lambda>d'. Lcd_TransmitStr line (d'\<lparr>lcd_cursor := lcd_cursor d' + 1\<rparr>)))"

definition Lcd_SetDDRAM :: "u8 \<Rightarrow> lcd4 \<Rightarrow> lcd4" where
  "Lcd_SetDDRAM a d =
     (let d1 = (if uint a < LCD_COLUMNS then d\<lparr>lcd_line := 0, lcd_cursor := uint a\<rparr> else d)
      in if uint a < 0x40 + LCD_COLUMNS \<and> uint a \<ge> 0x40
         then d1\<lparr>lcd_line := 1, lcd_cursor := uint a - 0x40\<rparr> else d1)"

definition Lcd_sendcommand :: "u8 \<Rightarrow> lcd4 \<Rightarrow> lcd4" where
  "Lcd_sendcommand cmd d = (if cmd AND 0x80 \<noteq> 0 then Lcd_SetDDRAM (cmd AND NOT 0x80) d else d)"

definition Lcd_senddata :: "u8 \<Rightarrow> lcd4 \<Rightarrow> lcd4 c_result" where
  "Lcd_senddata data d =
     c_bind (if uint data \<ge> 32 \<and> uint data < LAST_SYMBOL_IN_CGROM + 32 then show_char data d else Inr d)
       (\<lambda>d'. Inr (d'\<lparr>lcd_cursor := lcd_cursor d' + 1\<rparr>))"

definition Lcd_SetCGRAM :: "u8 \<Rightarrow> lcd4 \<Rightarrow> lcd4" where
  "Lcd_SetCGRAM data d = d"

text \<open>The redraw of the whole surface that clearing and switching off do.\<close>

definition redraw_surface :: "lcd4 \<Rightarrow> lcd4 c_result" where
  "redraw_surface d =
     c_bind (unfill_surface (pix d)) (\<lambda>p.
     c_bind (fill_with_lcd_patches p) (\<lambda>p. Inr (d\<lparr>pix := p\<rparr>)))"

definition clear_ddram :: "lcd4 \<Rightarrow> lcd4 c_result" where
  "clear_ddram d =
     for_loop 0 LCD_ROWS (\<lambda>j d. for_loop 0 LCD_COLUMNS (\<lambda>i d. ddram_set d j i 0) d) d"

definition Lcd_Command :: "u8 \<Rightarrow> lcd4 \<Rightarrow> lcd4 c_result" where
  "Lcd_Command data d =
     c_bind (if data = CLEAR \<or> data = DISPLAY_OFF
             then c_bind (redraw_surface d) (\<lambda>d. clear_ddram (Lcd_SetDDRAM 0x00 d)) else Inr d) (\<lambda>d.
     let d = (if data = RET_HOME then Lcd_SetDDRAM 0x00 d else d) in
     c_bind (if data = DISPLAY_OFF
             then c_bind (redraw_surface d) (\<lambda>d. Inr (d\<lparr>cursor := 0, blink := 0\<rparr>)) else Inr d) (\<lambda>d.
     let d = (if data = CURSOR_ON then d\<lparr>cursor := 1\<rparr> else d);
         d = (if data = CURSOR_OFF then d\<lparr>cursor := 0\<rparr> else d);
         d = (if data = BLINK_ON then d\<lparr>blink := 1\<rparr> else d);
         d = (if data = BLINK_OFF then d\<lparr>blink := 0\<rparr> else d)
     in Inr d))"

fun exec_call4 :: "lcd_call \<Rightarrow> lcd4 \<Rightarrow> lcd4 c_result" where
  "exec_call4 (SetDDRAM a) d = Inr (Lcd_SetDDRAM a d)"
| "exec_call4 (TransmitStr str) d = Lcd_TransmitStr str d"
| "exec_call4 (Senddata b) d = Lcd_senddata b d"
| "exec_call4 (Command c) d = Lcd_Command c d"
| "exec_call4 (SetCGRAM a) d = Inr (Lcd_SetCGRAM a d)"

section \<open>The blinking cursor\<close>

text \<open>Redrawing the cell the cursor block was left on, when the cursor has moved.\<close>

definition restore_old_cell :: "int \<Rightarrow> int \<Rightarrow> lcd4 \<Rightarrow> lcd4 c_result" where
  "restore_old_cell line_pos cursor_pos d =
     (if blink_last_index_cursor d \<noteq> cursor_pos \<or> blink_last_index_line d \<noteq> line_pos
      then let cp = blink_last_index_cursor d; lp = blink_last_index_line d in
        c_bind (ddram_get d lp cp) (\<lambda>b.
        c_bind (draw_lcd_patch_from_cgrom (pix d) lp cp (uint b - 32)) (\<lambda>p. Inr (d\<lparr>pix := p\<rparr>)))
      else Inr d)"

definition Lcd_Timeout_Callback :: "lcd4 \<Rightarrow> lcd4 c_result" where
  "Lcd_Timeout_Callback d =
     (let line_pos = lcd_line d; cursor_pos = lcd_cursor d in
      if cursor d \<noteq> 0 \<and> blink d \<noteq> 0 then
        if blink_was_on d \<noteq> 0 then
          c_bind (restore_old_cell line_pos cursor_pos (d\<lparr>blink_was_on := 0\<rparr>)) (\<lambda>d.
          if line_pos \<le> LCD_LAST_ROW \<and> cursor_pos \<le> LCD_LAST_COLUMN then
            c_bind (ddram_get d line_pos cursor_pos) (\<lambda>b.
            c_bind (draw_lcd_patch_from_cgrom (pix d) line_pos cursor_pos (uint b - 32)) (\<lambda>p.
              Inr (d\<lparr>pix := p\<rparr>)))
          else Inr d)
        else
          c_bind (restore_old_cell line_pos cursor_pos (d\<lparr>blink_was_on := 1\<rparr>)) (\<lambda>d.
          if line_pos \<le> LCD_LAST_ROW \<and> cursor_pos \<le> LCD_LAST_COLUMN then
            let (x, y) = get_lcd_patch_position line_pos cursor_pos (0, 0) in
            c_bind (draw_lcd_patch (pix d) x y rgb_fill) (\<lambda>p.
              Inr (d\<lparr>pix := p, blink_last_index_cursor := cursor_pos, blink_last_index_line := line_pos\<rparr>))
          else Inr d)
      else Inr d)"

section \<open>Well-formed devices\<close>

text \<open>
  The image is large enough for the display (the shipped \<open>lcd_4_20.jpeg\<close> is 525 by 277), the
  text memory has its declared shape, and the write position is on one of the lines that
  \<open>Lcd_SetDDRAM\<close> can select, at a column that is not negative.
\<close>

definition surface_ok4 :: "pixbuf \<Rightarrow> bool" where
  "surface_ok4 p \<longleftrightarrow> image_ok p \<and> 474 \<le> pb_width p \<and> 208 \<le> pb_height p"

definition ready4 :: "lcd4 \<Rightarrow> bool" where
  "ready4 d \<longleftrightarrow> surface_ok4 (pix d) \<and>
     length (ddram d) = 4 \<and> (\<forall>l < 4. length (ddram d ! l) = 20) \<and>
     (lcd_line d = 0 \<or> lcd_line d = 1) \<and> 0 \<le> lcd_cursor d"

definition cell4 :: "lcd4 \<Rightarrow> int \<Rightarrow> int \<Rightarrow> u8" where
  "cell4 d l c = (if on_screen l c then ddram d ! nat l ! nat c else 0)"

definition screen4 :: "lcd4 \<Rightarrow> text_screen" where
  "screen4 d = \<lparr>ts_line = lcd_line d, ts_col = lcd_cursor d, ts_cell = cell4 d,
     ts_cursor = cursor d \<noteq> 0, ts_blink = blink d \<noteq> 0\<rparr>"

lemma screen4_sel [simp]:
  "ts_line (screen4 d) = lcd_line d" "ts_col (screen4 d) = lcd_cursor d"
  "ts_cell (screen4 d) = cell4 d"
  "ts_cursor (screen4 d) \<longleftrightarrow> cursor d \<noteq> 0" "ts_blink (screen4 d) \<longleftrightarrow> blink d \<noteq> 0"
  by (simp_all add: screen4_def)

lemma surface_ok4_format: "same_format p p' \<Longrightarrow> surface_ok4 p' = surface_ok4 p"
  by (simp add: surface_ok4_def same_formatD)

section \<open>Drawing never fails on the shipped surface\<close>

lemma cell_position:
  assumes "0 \<le> r" "r \<le> 3" "0 \<le> c" "c \<le> 19"
  shows "get_lcd_patch_position r c xy = (54 + c * 21, 72 + 34 * r)"
  using assms by (simp add: get_lcd_patch_position_def)

text \<open>Drawing a symbol of the table in a cell of the display draws exactly its dots.\<close>

lemma draw_cell_painted:
  assumes "surface_ok4 p" "0 \<le> r" "r \<le> 3" "0 \<le> c" "c \<le> 19" "0 \<le> k" "k \<le> 95"
  shows "\<exists>p'. draw_lcd_patch_from_cgrom p r c k = Inr p' \<and>
    painted p (glyph_map (54 + c * 21) (72 + 34 * r) k) p'"
  using draw_symbol_painted [of p "54 + c * 21" "72 + 34 * r" k] assms
  by (simp add: draw_lcd_patch_from_cgrom_def cell_position LAST_SYMBOL_IN_CGROM_def surface_ok4_def)

lemma draw_cell_ok:
  assumes "surface_ok4 p" "0 \<le> r" "0 \<le> c" "0 \<le> k"
  shows "\<exists>p'. draw_lcd_patch_from_cgrom p r c k = Inr p' \<and> same_format p p'"
proof (cases "r \<le> 3 \<and> c \<le> 19 \<and> k \<le> 95")
  case True
  then show ?thesis using draw_cell_painted [of p r c k] assms by (auto dest: painted_format)
next
  case False
  then have "draw_lcd_patch_from_cgrom p r c k = Inr p"
    by (auto simp: draw_lcd_patch_from_cgrom_def LAST_SYMBOL_IN_CGROM_def)
  then show ?thesis by simp
qed

lemma redraw_surface_ok:
  assumes "surface_ok4 (pix d)"
  shows "\<exists>p'. redraw_surface d = Inr (d\<lparr>pix := p'\<rparr>) \<and> same_format (pix d) p'"
proof -
  obtain p1 where p1: "unfill_surface (pix d) = Inr p1" "same_format (pix d) p1"
    using draw_patch_painted [of "pix d" 54 474 72 208 rgb_background] assms
    by (auto simp: unfill_surface_def surface_ok4_def dest: painted_format)
  have "\<exists>p'. fill_with_lcd_patches p1 = Inr p' \<and> same_format p1 p'"
    unfolding fill_with_lcd_patches_def
  proof (rule for_loop_inv [where I = "\<lambda>_ p. same_format p1 p"])
    fix j :: int and p assume j: "0 \<le> j" "j < 4" and p: "same_format p1 p"
    show "\<exists>p'. for_loop 0 20 (\<lambda>i p. let row_pos = (if j \<noteq> 0 then 72 + 30 * j + 4 * j else 72);
              col = 54 + i * (19 + 2) in draw_lcd_patch p col row_pos rgb_blank) p = Inr p' \<and>
            same_format p1 p'"
    proof (rule for_loop_inv [where I = "\<lambda>_ p. same_format p1 p"])
      fix i :: int and p assume i: "0 \<le> i" "i < 20" and p: "same_format p1 p"
      have s: "surface_ok4 p"
        using assms p p1(2) by (simp add: surface_ok4_format)
      then obtain p' where "draw_lcd_patch p (54 + i * 21) (72 + 34 * j) rgb_blank = Inr p'"
        "same_format p p'"
        using draw_lcd_patch_painted [of p "54 + i * 21" "72 + 34 * j" rgb_blank] i j
        by (auto simp: surface_ok4_def dest: painted_format)
      then show "\<exists>p'. (let row_pos = (if j \<noteq> 0 then 72 + 30 * j + 4 * j else 72);
              col = 54 + i * (19 + 2) in draw_lcd_patch p col row_pos rgb_blank) = Inr p' \<and>
            same_format p1 p'"
        using same_format_trans [OF p] by (auto simp: Let_def add.commute mult.commute)
    qed (use p in auto)
  qed auto
  then show ?thesis
    using p1 same_format_trans by (auto simp: redraw_surface_def)
qed

section \<open>The text memory\<close>

lemma ddram_get_ok:
  assumes "ready4 d" "0 \<le> l" "l < 4" "0 \<le> c" "c < 20"
  shows "ddram_get d l c = Inr (ddram d ! nat l ! nat c)"
proof -
  have "nat l < 4" using assms by simp
  then show ?thesis using assms by (simp add: ddram_get_def ready4_def)
qed

lemma ddram_set_ok:
  assumes "ready4 d" "0 \<le> l" "l < 4" "0 \<le> c" "c < 20"
  shows "ddram_set d l c b =
    Inr (d\<lparr>ddram := (ddram d)[nat l := (ddram d ! nat l)[nat c := b]]\<rparr>)"
proof -
  have "nat l < 4" using assms by simp
  then show ?thesis using assms by (simp add: ddram_set_def ready4_def)
qed

lemma ready4_ddram_set:
  assumes "ready4 d"
  shows "ready4 (d\<lparr>ddram := (ddram d)[l := (ddram d ! l)[c := b]]\<rparr>)"
  using assms by (cases "l < 4") (auto simp: ready4_def nth_list_update)

lemma ready4_pix: "ready4 d \<Longrightarrow> same_format (pix d) p \<Longrightarrow> ready4 (d\<lparr>pix := p\<rparr>)"
  by (simp add: ready4_def surface_ok4_format)

lemma cell4_pix [simp]: "cell4 (d\<lparr>pix := p\<rparr>) = cell4 d"
  by (simp add: cell4_def fun_eq_iff)

section \<open>Each call refines its abstract effect\<close>

text \<open>Storing and drawing a printable character: never a fault, on any column.\<close>

lemma show_char_ok:
  assumes "ready4 d" "printable b"
  shows "\<exists>d'. show_char b d = Inr d' \<and> ready4 d' \<and>
    screen4 d' = screen4 d\<lparr>ts_cell := write_cell (cell4 d) (lcd_line d) (lcd_cursor d) b\<rparr>"
proof -
  have pos: "0 \<le> lcd_line d" "lcd_line d < 4" "0 \<le> lcd_cursor d" "lcd_line d \<in> {0, 1}"
    and s: "surface_ok4 (pix d)"
    using assms by (auto simp: ready4_def)
  obtain p where p: "draw_lcd_patch_from_cgrom (pix d) (lcd_line d) (lcd_cursor d) (uint b - 32) = Inr p"
    "same_format (pix d) p"
    using draw_cell_ok [OF s pos(1,3), of "uint b - 32"] assms(2) by (auto simp: printable_uint)
  let ?d = "d\<lparr>pix := p\<rparr>"
  have r: "ready4 ?d" using ready4_pix [OF assms(1) p(2)] .
  show ?thesis
  proof (cases "lcd_cursor d < 20")
    case True
    let ?l = "nat (lcd_line d)" and ?c = "nat (lcd_cursor d)"
    let ?d' = "?d\<lparr>ddram := (ddram d)[?l := (ddram d ! ?l)[?c := b]]\<rparr>"
    have "show_char b d = Inr ?d'"
      using ddram_set_ok [OF r pos(1,2,3) True] pos(2) True by (simp add: show_char_def p)
    moreover have "ready4 ?d'" using ready4_ddram_set [OF r] by simp
    moreover have "cell4 ?d' l c = write_cell (cell4 d) (lcd_line d) (lcd_cursor d) b l c" for l c
      using assms(1) pos True
      by (auto simp: cell4_def write_cell_def on_screen_def ready4_def nth_list_update eq_nat_nat_iff)
    ultimately show ?thesis by (auto simp: screen4_def fun_eq_iff)
  next
    case False
    then have "show_char b d = Inr ?d" by (simp add: show_char_def p)
    moreover have "write_cell (cell4 d) (lcd_line d) (lcd_cursor d) b = cell4 d"
      using False by (simp add: write_cell_def on_screen_def fun_eq_iff)
    ultimately show ?thesis using r by (auto simp: screen4_def)
  qed
qed

lemma advance_screen4:
  "screen4 (d\<lparr>lcd_cursor := x\<rparr>) = screen4 d\<lparr>ts_col := x\<rparr>"
  by (simp add: screen4_def cell4_def fun_eq_iff)

lemma advance_ready4: "ready4 d \<Longrightarrow> ready4 (d\<lparr>lcd_cursor := lcd_cursor d + 1\<rparr>)"
  by (simp add: ready4_def)

text \<open>One step of either writer is \<open>put_char\<close>.\<close>

lemma put_char_refined4:
  assumes "ready4 d"
  shows "\<exists>d'. c_bind (if printable b then show_char b d else Inr d)
      (\<lambda>d'. Inr (d'\<lparr>lcd_cursor := lcd_cursor d' + 1\<rparr>)) = Inr d' \<and> ready4 d' \<and>
    screen4 d' = put_char b (screen4 d)"
proof (cases "printable b")
  case True
  then obtain d' where d': "show_char b d = Inr d'" "ready4 d'"
    "screen4 d' = screen4 d\<lparr>ts_cell := write_cell (cell4 d) (lcd_line d) (lcd_cursor d) b\<rparr>"
    using show_char_ok assms by blast
  then have "lcd_cursor d' = lcd_cursor d" by (simp add: screen4_def)
  then show ?thesis
    using d' True advance_ready4 [OF d'(2)] by (simp add: advance_screen4 put_char_def)
next
  case False
  then show ?thesis
    using assms advance_ready4 by (simp add: advance_screen4 put_char_def)
qed

lemma senddata_refined4:
  "ready4 d \<Longrightarrow> \<exists>d'. Lcd_senddata b d = Inr d' \<and> ready4 d' \<and> screen4 d' = put_char b (screen4 d)"
  using put_char_refined4 [of d b]
  by (simp add: Lcd_senddata_def printable_uint LAST_SYMBOL_IN_CGROM_def)

lemma transmit_refined4:
  assumes "ready4 d" and "0 \<notin> set str"
  shows "\<exists>d'. Lcd_TransmitStr str d = Inr d' \<and> ready4 d' \<and>
    screen4 d' = fold put_char str (screen4 d)"
  using assms
proof (induction str arbitrary: d)
  case Nil
  then show ?case by simp
next
  case (Cons b str)
  obtain d1 where d1: "c_bind (if printable b then show_char b d else Inr d)
      (\<lambda>d'. Inr (d'\<lparr>lcd_cursor := lcd_cursor d' + 1\<rparr>)) = Inr d1" "ready4 d1"
    "screen4 d1 = put_char b (screen4 d)"
    using put_char_refined4 [OF Cons.prems(1)] by blast
  have "Lcd_TransmitStr (b # str) d = Lcd_TransmitStr str d1"
    using d1(1) Cons.prems(2) by (auto simp: printable_def [symmetric] elim!: c_bind_InrE)
  then show ?case using Cons.IH [OF d1(2)] Cons.prems d1(3) by auto
qed

lemma transmit_stops_at_nul:
  "Lcd_TransmitStr (str @ 0 # rest) d = Lcd_TransmitStr str d"
proof (induction str arbitrary: d)
  case (Cons b str)
  then show ?case by simp
qed simp

lemma transmit_ready4:
  assumes "ready4 d"
  shows "\<exists>d'. Lcd_TransmitStr str d = Inr d' \<and> ready4 d'"
proof (cases "0 \<in> set str")
  case True
  then obtain xs ys where "str = xs @ 0 # ys" "0 \<notin> set xs" by (meson split_list_first)
  then show ?thesis using transmit_refined4 [OF assms] by (auto simp: transmit_stops_at_nul)
next
  case False
  then show ?thesis using transmit_refined4 [OF assms] by blast
qed

lemma set_ddram_ready4: "ready4 d \<Longrightarrow> ready4 (Lcd_SetDDRAM a d)"
  by (auto simp: Lcd_SetDDRAM_def ready4_def Let_def)

lemma set_ddram_refined4:
  "call_fits (screen4 d) (SetDDRAM a) \<Longrightarrow> screen4 (Lcd_SetDDRAM a d) = set_pos a (screen4 d)"
  by (auto simp: Lcd_SetDDRAM_def set_pos_def screen4_def cell4_def Let_def fun_eq_iff)

text \<open>Clearing the text memory.\<close>

definition cleared_to :: "lcd4 \<Rightarrow> int \<Rightarrow> int \<Rightarrow> lcd4 \<Rightarrow> bool" where
  "cleared_to d j i d' \<longleftrightarrow> ready4 d' \<and> d' = d\<lparr>ddram := ddram d'\<rparr> \<and>
     (\<forall>l c. 0 \<le> l \<and> l < 4 \<and> 0 \<le> c \<and> c < 20 \<and> (l < j \<or> l = j \<and> c < i) \<longrightarrow> ddram d' ! nat l ! nat c = 0)"

lemma cleared_step:
  assumes "cleared_to d j i d'" "0 \<le> j" "j < 4" "0 \<le> i" "i < 20"
  shows "\<exists>d''. ddram_set d' j i 0 = Inr d'' \<and> cleared_to d j (i + 1) d''"
proof -
  let ?d = "d'\<lparr>ddram := (ddram d')[nat j := (ddram d' ! nat j)[nat i := 0]]\<rparr>"
  have r: "ready4 d'" and e: "d' = d\<lparr>ddram := ddram d'\<rparr>" using assms(1) by (simp_all add: cleared_to_def)
  have len: "length (ddram d') = 4" "length (ddram d' ! nat j) = 20"
    using r assms by (auto simp: ready4_def)
  have "ddram ?d ! nat l ! nat c = 0"
    if "0 \<le> l" "l < 4" "0 \<le> c" "c < 20" "l < j \<or> l = j \<and> c < i + 1" for l c
    using that assms len by (auto simp: cleared_to_def nth_list_update eq_nat_nat_iff)
  moreover have "?d = d\<lparr>ddram := ddram ?d\<rparr>" by (subst e) simp
  ultimately have "cleared_to d j (i + 1) ?d"
    using ready4_ddram_set [OF r] unfolding cleared_to_def by blast
  then show ?thesis using ddram_set_ok [OF r] assms by simp
qed

lemma clear_ddram_cleared:
  assumes "ready4 d"
  shows "\<exists>d'. clear_ddram d = Inr d' \<and> cleared_to d 4 0 d'"
  unfolding clear_ddram_def
proof (rule for_loop_inv [where I = "\<lambda>j d'. cleared_to d j 0 d'"])
  show "cleared_to d 0 0 d" using assms by (auto simp: cleared_to_def)
  fix j :: int and d1 assume j: "0 \<le> j" "j < 4" and d1: "cleared_to d j 0 d1"
  have "\<exists>d2. for_loop 0 20 (\<lambda>i d. ddram_set d j i 0) d1 = Inr d2 \<and> cleared_to d j 20 d2"
    by (rule for_loop_inv [where I = "cleared_to d j"]) (use d1 j in \<open>auto intro: cleared_step\<close>)
  moreover have "cleared_to d j 20 d2 \<Longrightarrow> cleared_to d (j + 1) 0 d2" for d2
    by (auto simp: cleared_to_def dest: order.not_eq_order_implies_strict)
  ultimately show "\<exists>d2. for_loop 0 20 (\<lambda>i d. ddram_set d j i 0) d1 = Inr d2 \<and> cleared_to d (j + 1) 0 d2"
    by blast
qed simp

lemma clear_ddram_refined4:
  assumes "ready4 d"
  shows "\<exists>d'. clear_ddram d = Inr d' \<and> ready4 d' \<and> screen4 d' = screen4 d\<lparr>ts_cell := \<lambda>_ _. 0\<rparr>"
proof -
  obtain d' where d': "clear_ddram d = Inr d'" "cleared_to d 4 0 d'"
    using clear_ddram_cleared [OF assms] by blast
  from d'(2) have e: "d' = d\<lparr>ddram := ddram d'\<rparr>"
    and z: "0 \<le> l \<Longrightarrow> l < 4 \<Longrightarrow> 0 \<le> c \<Longrightarrow> c < 20 \<Longrightarrow> ddram d' ! nat l ! nat c = 0" for l c
    unfolding cleared_to_def by blast+
  have "cell4 d' = (\<lambda>_ _. 0)"
    using z [of 0] z [of 1] by (auto simp: cell4_def on_screen_def fun_eq_iff)
  moreover from e have "screen4 d' = screen4 d\<lparr>ts_cell := cell4 d'\<rparr>"
    by (metis (no_types, lifting) lcd4.update_convs(1) lcd_state.select_convs lcd4.surjective screen4_def text_screen.update_convs(3))
  ultimately show ?thesis using d' by (auto simp: cleared_to_def)
qed

lemma redraw_refined4:
  "ready4 d \<Longrightarrow> \<exists>d'. redraw_surface d = Inr d' \<and> ready4 d' \<and> screen4 d' = screen4 d"
  using redraw_surface_ok [of d] ready4_pix [of d] by (force simp: ready4_def screen4_def)

lemma flags_refined4 [simp]:
  "ready4 (d\<lparr>cursor := v\<rparr>) = ready4 d" "ready4 (d\<lparr>blink := v\<rparr>) = ready4 d"
  "screen4 (d\<lparr>cursor := v\<rparr>) = screen4 d\<lparr>ts_cursor := v \<noteq> 0\<rparr>"
  "screen4 (d\<lparr>blink := v\<rparr>) = screen4 d\<lparr>ts_blink := v \<noteq> 0\<rparr>"
  by (simp_all add: ready4_def screen4_def cell4_def fun_eq_iff)

lemma clear_refined4:
  assumes "ready4 d"
  shows "\<exists>d'. c_bind (redraw_surface d) (\<lambda>d. clear_ddram (Lcd_SetDDRAM 0 d)) = Inr d' \<and> ready4 d' \<and>
    screen4 d' = screen4 d\<lparr>ts_line := 0, ts_col := 0, ts_cell := \<lambda>_ _. 0\<rparr>"
proof -
  obtain d1 where d1: "redraw_surface d = Inr d1" "ready4 d1" "screen4 d1 = screen4 d"
    using redraw_refined4 [OF assms] by blast
  obtain d2 where "clear_ddram (Lcd_SetDDRAM 0 d1) = Inr d2" "ready4 d2"
    "screen4 d2 = screen4 (Lcd_SetDDRAM 0 d1)\<lparr>ts_cell := \<lambda>_ _. 0\<rparr>"
    using clear_ddram_refined4 [OF set_ddram_ready4 [OF d1(2)]] by blast
  then show ?thesis using d1 by (auto simp: set_ddram_refined4 set_pos_def)
qed

lemma command_refined4:
  assumes "ready4 d"
  shows "\<exists>d'. Lcd_Command c d = Inr d' \<and> ready4 d' \<and> screen4 d' = screen_command c (screen4 d)"
proof -
  obtain d1 where d1: "c_bind (redraw_surface d) (\<lambda>d. clear_ddram (Lcd_SetDDRAM 0 d)) = Inr d1"
    "ready4 d1" "screen4 d1 = screen4 d\<lparr>ts_line := 0, ts_col := 0, ts_cell := \<lambda>_ _. 0\<rparr>"
    using clear_refined4 [OF assms] by blast
  obtain d2 where d2: "redraw_surface d1 = Inr d2" "ready4 d2" "screen4 d2 = screen4 d1"
    using redraw_refined4 [OF d1(2)] by blast
  have home: "ready4 (Lcd_SetDDRAM 0 d)" "screen4 (Lcd_SetDDRAM 0 d) = set_pos 0 (screen4 d)"
    using assms by (simp_all add: set_ddram_ready4 set_ddram_refined4)
  consider "c = 0" | "c = 1" | "c = 3" | "c = 4" | "c = 5" | "c = 6" | "c = 7" |
    "c \<notin> {0, 1, 3, 4, 5, 6, 7}" by blast
  then show ?thesis
    by cases (use assms d1 d2 home in \<open>auto simp: Lcd_Command_def screen_command_def Let_def set_pos_def\<close>)
qed

section \<open>The 4x20 device implements the driver interface\<close>

interpretation lcd4: lcd_driver exec_call4 ready4 screen4
proof unfold_locales
  fix d c
  assume r: "ready4 d" and f: "call_fits (screen4 d) c"
  show "\<exists>d'. exec_call4 c d = Inr d' \<and> ready4 d' \<and> screen4 d' = screen_call c (screen4 d)"
  proof (cases c)
    case (SetDDRAM a)
    then show ?thesis using r f by (auto simp: set_ddram_ready4 set_ddram_refined4)
  next
    case (TransmitStr str)
    then have "0 \<notin> set str" using f by (auto simp: list_all_iff dest: printable_nonzero)
    then show ?thesis using TransmitStr transmit_refined4 [OF r] by simp
  next
    case (Senddata b)
    then show ?thesis using senddata_refined4 [OF r] by simp
  next
    case (Command b)
    then show ?thesis using command_refined4 [OF r] by simp
  next
    case (SetCGRAM b)
    then show ?thesis using r by (simp add: Lcd_SetCGRAM_def)
  qed
qed

text \<open>
  Beyond the interface: on this device no call at all faults, whatever its arguments, because
  both writers check the row and the column before they store.
\<close>

lemma exec_call4_total: "ready4 d \<Longrightarrow> \<exists>d'. exec_call4 c d = Inr d' \<and> ready4 d'"
  using set_ddram_ready4 transmit_ready4 senddata_refined4 command_refined4
  by (cases c) (fastforce simp: Lcd_SetCGRAM_def)+

lemma exec_calls4_total: "ready4 d \<Longrightarrow> \<exists>d'. exec_calls exec_call4 cs d = Inr d' \<and> ready4 d'"
proof (induction cs arbitrary: d)
  case (Cons c cs)
  then show ?case using exec_call4_total [of d c] by fastforce
qed simp

end
