(* ===== verification/Lcd_4x20_Picture.thy ===== *)
theory Lcd_4x20_Picture
  imports Lcd_4x20
begin

text \<open>
  The picture the 4x20 simulator draws agrees with its text memory: every cell of the image shows
  the glyph of the character stored for it, and blank dots where nothing is stored. Every
  low-level call keeps the agreement, so what the operator sees is what the memory holds. The
  second part is the blinking cursor: when it is safe, when it is not, and that two ticks leave
  the picture as it was.
\<close>

section \<open>What a cell should look like\<close>

definition cell_map :: "int \<Rightarrow> int \<Rightarrow> (int \<Rightarrow> int \<Rightarrow> colour) \<Rightarrow> colour_map" where
  "cell_map r c col = dots_map (54 + c * 21) (72 + 34 * r) 8 col"

definition cell_dots :: "u8 \<Rightarrow> int \<Rightarrow> int \<Rightarrow> colour" where
  "cell_dots b j i =
     colour_of (if b \<noteq> 0 \<and> glyph_dot (uint b - 32) j i then rgb_fill else rgb_blank)"

text \<open>The picture of \<open>p\<close> at one cell is \<open>col\<close>; \<open>shows\<close> says it of every cell of the memory.\<close>

definition cell_shows :: "pixbuf \<Rightarrow> int \<Rightarrow> int \<Rightarrow> (int \<Rightarrow> int \<Rightarrow> colour) \<Rightarrow> bool" where
  "cell_shows p r c col \<longleftrightarrow> (\<forall>x y k. cell_map r c col (x, y) = Some k \<longrightarrow> pixel p x y = k)"

definition on_display :: "int \<Rightarrow> int \<Rightarrow> bool" where
  "on_display r c \<longleftrightarrow> 0 \<le> r \<and> r < 4 \<and> 0 \<le> c \<and> c < 20"

definition shows_memory :: "lcd4 \<Rightarrow> bool" where
  "shows_memory d \<longleftrightarrow>
     (\<forall>r c. on_display r c \<longrightarrow> cell_shows (pix d) r c (cell_dots (ddram d ! nat r ! nat c)))"

text \<open>The cells stored are characters of the table, or 0 where nothing was written.\<close>

definition memory_chars :: "lcd4 \<Rightarrow> bool" where
  "memory_chars d \<longleftrightarrow>
     (\<forall>r c. on_display r c \<longrightarrow> (let b = ddram d ! nat r ! nat c in b = 0 \<or> printable b))"

section \<open>Cells do not overlap\<close>

lemma cell_map_same: "cell_map r c f (x, y) = None \<longleftrightarrow> cell_map r c g (x, y) = None"
  by (simp add: cell_map_def dots_map_def)

lemma cell_map_bounds:
  assumes "cell_map r c col (x, y) = Some k"
  shows "54 + c * 21 \<le> x" "x < 54 + c * 21 + 20" "72 + 34 * r \<le> y" "y < 72 + 34 * r + 32"
  using assms by (auto simp: cell_map_def dots_map_def split: if_splits)

lemma cell_map_in_image:
  assumes "cell_map r c col (x, y) = Some k" "on_display r c" "surface_ok4 p"
  shows "in_image p x y"
proof -
  have "(y - (72 + 34 * r)) mod 4 < 3" using assms(1)
    by (auto simp: cell_map_def dots_map_def split: if_splits)
  moreover have "m mod 4 < 3 \<Longrightarrow> m < 32 \<Longrightarrow> m < 31" for m :: int by presburger
  ultimately have "y - (72 + 34 * r) < 31" using cell_map_bounds [OF assms(1)] by simp
  then show ?thesis
    using cell_map_bounds [OF assms(1)] assms(2,3)
    by (auto simp: in_image_def surface_ok4_def on_display_def)
qed

lemma cells_disjoint:
  assumes "cell_map r c col (x, y) = Some k" "cell_map r' c' col' (x, y) = Some k'"
  shows "r = r' \<and> c = c'"
proof -
  note b = cell_map_bounds [OF assms(1)] cell_map_bounds [OF assms(2)]
  have "c < c' + 1" "c' < c + 1" "r < r' + 1" "r' < r + 1" using b by linarith+
  then show ?thesis by simp
qed

text \<open>Painting one cell shows the new dots there and leaves the other cells alone.\<close>

lemma paint_cell:
  assumes p: "painted p (cell_map r c col) p'" and "on_display r' c'" "surface_ok4 p"
  shows "cell_shows p' r' c' f \<longleftrightarrow> (if r' = r \<and> c' = c then cell_map r c f = cell_map r c col
                                  else cell_shows p r' c' f)"
proof -
  have px: "pixel p' x y = (case cell_map r c col (x, y) of None \<Rightarrow> pixel p x y | Some k \<Rightarrow> k)"
    if "cell_map r' c' f (x, y) = Some k" for x y k
    using cell_map_in_image [OF that assms(2,3)] p by (auto simp: painted_def)
  show ?thesis
  proof (cases "r' = r \<and> c' = c")
    case True
    then have "cell_shows p' r' c' f \<longleftrightarrow> (\<forall>x y k. cell_map r c f (x, y) = Some k \<longrightarrow> cell_map r c col (x, y) = Some k)"
    proof -
      have "pixel p' x y = k \<longleftrightarrow> cell_map r c col (x, y) = Some k" if "cell_map r c f (x, y) = Some k" for x y k
        using px [of x y k] that True cell_map_same [of r c f x y col] by (cases "cell_map r c col (x, y)") auto
      then show ?thesis using True unfolding cell_shows_def by blast
    qed
    also have "\<dots> \<longleftrightarrow> cell_map r c f = cell_map r c col"
    proof
      assume a: "\<forall>x y k. cell_map r c f (x, y) = Some k \<longrightarrow> cell_map r c col (x, y) = Some k"
      show "cell_map r c f = cell_map r c col"
      proof
        fix z :: "int \<times> int"
        obtain x y where z: "z = (x, y)" by fastforce
        show "cell_map r c f z = cell_map r c col z"
          using a cell_map_same [of r c f x y col] unfolding z by (metis option.exhaust)
      qed
    qed simp
    finally show ?thesis using True by simp
  next
    case False
    have none: "cell_map r c col (x, y) = None" if "cell_map r' c' f (x, y) = Some k" for x y k
      using cells_disjoint [OF that] False by (metis option.exhaust)
    have "pixel p' x y = pixel p x y" if "cell_map r' c' f (x, y) = Some k" for x y k
      using px [OF that] none [OF that] by simp
    then show ?thesis using False by (auto simp: cell_shows_def)
  qed
qed

lemma glyph_cell_map:
  assumes "b \<noteq> 0"
  shows "glyph_map (54 + c * 21) (72 + 34 * r) (uint b - 32) = cell_map r c (cell_dots b)"
  using assms by (simp add: glyph_map_def cell_map_def cell_dots_def [abs_def])

lemma blank_cell_map: "dots_map (54 + c * 21) (72 + 34 * r) 8 (\<lambda>_ _. colour_of rgb_blank) = cell_map r c (cell_dots 0)"
  by (simp add: cell_map_def cell_dots_def [abs_def])

section \<open>Writing a character\<close>

definition good4 :: "lcd4 \<Rightarrow> bool" where
  "good4 d \<longleftrightarrow> ready4 d \<and> memory_chars d \<and> shows_memory d"

lemma good4_move:
  "good4 d \<Longrightarrow> l = 0 \<or> l = 1 \<Longrightarrow> 0 \<le> c \<Longrightarrow> good4 (d\<lparr>lcd_line := l, lcd_cursor := c\<rparr>)"
  by (simp add: good4_def ready4_def memory_chars_def shows_memory_def)

lemma good4_flags [simp]:
  "good4 (d\<lparr>cursor := v\<rparr>) = good4 d" "good4 (d\<lparr>blink := v\<rparr>) = good4 d"
  by (simp_all add: good4_def ready4_def memory_chars_def shows_memory_def)

lemma show_char_good:
  assumes g: "good4 d" and b: "printable b"
  shows "\<exists>d'. show_char b d = Inr d' \<and> good4 d'"
proof -
  have r: "ready4 d" and s: "surface_ok4 (pix d)" using g by (auto simp: good4_def ready4_def)
  have pos: "0 \<le> lcd_line d" "lcd_line d < 4" "0 \<le> lcd_cursor d" using r by (auto simp: ready4_def)
  show ?thesis
  proof (cases "lcd_cursor d < 20")
    case False
    then have "show_char b d = Inr d"
      by (auto simp: show_char_def draw_lcd_patch_from_cgrom_def)
    then show ?thesis using g by simp
  next
    case True
    let ?r = "lcd_line d" and ?c = "lcd_cursor d"
    have sym: "0 \<le> uint b - 32" "uint b - 32 \<le> 95" "b \<noteq> 0"
      using b by (auto simp: printable_uint)
    obtain p where p: "draw_lcd_patch_from_cgrom (pix d) ?r ?c (uint b - 32) = Inr p"
      "painted (pix d) (cell_map ?r ?c (cell_dots b)) p"
      using draw_cell_painted [OF s, of ?r ?c "uint b - 32"] pos True sym
      by (auto simp: glyph_cell_map)
    let ?d = "d\<lparr>pix := p\<rparr>"
    let ?d' = "?d\<lparr>ddram := (ddram d)[nat ?r := (ddram d ! nat ?r)[nat ?c := b]]\<rparr>"
    have r1: "ready4 ?d" using ready4_pix [OF r painted_format [OF p(2)]] .
    have e: "show_char b d = Inr ?d'"
      using ddram_set_ok [OF r1] pos True by (simp add: show_char_def p)
    have len: "length (ddram d) = 4" "length (ddram d ! nat ?r) = 20"
      using r pos by (auto simp: ready4_def)
    have mem: "ddram ?d' ! nat l ! nat k = (if l = ?r \<and> k = ?c then b else ddram d ! nat l ! nat k)"
      if "on_display l k" for l k
      using that len pos True by (auto simp: on_display_def nth_list_update eq_nat_nat_iff)
    have "memory_chars ?d'"
      using g b mem by (simp add: good4_def memory_chars_def Let_def)
    moreover have "shows_memory ?d'"
      using g mem paint_cell [OF p(2) _ s] by (auto simp: good4_def shows_memory_def)
    moreover have "ready4 ?d'" using ready4_ddram_set [OF r1] by simp
    ultimately show ?thesis using e by (auto simp: good4_def)
  qed
qed

lemma put_good:
  assumes "good4 d"
  shows "\<exists>d'. c_bind (if printable b then show_char b d else Inr d)
      (\<lambda>d'. Inr (d'\<lparr>lcd_cursor := lcd_cursor d' + 1\<rparr>)) = Inr d' \<and> good4 d'"
proof -
  have adv: "good4 d' \<Longrightarrow> good4 (d'\<lparr>lcd_cursor := lcd_cursor d' + 1\<rparr>)" for d'
    by (simp add: good4_def ready4_def memory_chars_def shows_memory_def)
  show ?thesis using show_char_good [OF assms, of b] adv assms by auto
qed

lemma transmit_good: "good4 d \<Longrightarrow> \<exists>d'. Lcd_TransmitStr str d = Inr d' \<and> good4 d'"
proof (induction str arbitrary: d)
  case (Cons b str)
  show ?case
  proof (cases "b = 0")
    case False
    obtain d1 where d1: "c_bind (if printable b then show_char b d else Inr d)
      (\<lambda>d'. Inr (d'\<lparr>lcd_cursor := lcd_cursor d' + 1\<rparr>)) = Inr d1" "good4 d1"
      using put_good [OF Cons.prems] by blast
    have "Lcd_TransmitStr (b # str) d = Lcd_TransmitStr str d1"
      using d1(1) False by (auto simp: printable_def [symmetric] elim!: c_bind_InrE)
    then show ?thesis using Cons.IH [OF d1(2)] by simp
  qed (use Cons.prems in simp)
qed simp

section \<open>Clearing and switching off\<close>

definition blank_before :: "int \<Rightarrow> int \<Rightarrow> pixbuf \<Rightarrow> pixbuf \<Rightarrow> bool" where
  "blank_before j i p0 p \<longleftrightarrow> same_format p0 p \<and>
     (\<forall>r c. on_display r c \<and> (r < j \<or> r = j \<and> c < i) \<longrightarrow> cell_shows p r c (cell_dots 0))"

lemma blank_step:
  assumes "surface_ok4 p0" "blank_before j i p0 p" "on_display j i"
  shows "\<exists>p'. draw_lcd_patch p (54 + i * 21) (72 + 34 * j) rgb_blank = Inr p' \<and> blank_before j (i + 1) p0 p'"
proof -
  have s: "surface_ok4 p"
    using assms surface_ok4_format [of p0 p] by (simp add: blank_before_def)
  then obtain p' where p': "draw_lcd_patch p (54 + i * 21) (72 + 34 * j) rgb_blank = Inr p'"
    "painted p (cell_map j i (cell_dots 0)) p'"
    using draw_lcd_patch_painted [of p "54 + i * 21" "72 + 34 * j" rgb_blank] assms(3)
    by (auto simp: surface_ok4_def on_display_def blank_cell_map)
  have "cell_shows p' r c (cell_dots 0)" if "on_display r c" "r < j \<or> r = j \<and> c < i + 1" for r c
    using that assms(2) paint_cell [OF p'(2) that(1) s] by (auto simp: blank_before_def)
  then have "blank_before j (i + 1) p0 p'"
    using assms(2) same_format_trans painted_format [OF p'(2)] by (auto simp: blank_before_def)
  then show ?thesis using p' by blast
qed

lemma fill_blank:
  assumes "surface_ok4 p0"
  shows "\<exists>p. fill_with_lcd_patches p0 = Inr p \<and> blank_before 4 0 p0 p"
  unfolding fill_with_lcd_patches_def
proof (rule for_loop_inv [where I = "\<lambda>j p. blank_before j 0 p0 p"])
  show "blank_before 0 0 p0 p0" by (auto simp: blank_before_def on_display_def)
  fix j :: int and p1 assume j: "0 \<le> j" "j < 4" and p1: "blank_before j 0 p0 p1"
  let ?body = "\<lambda>i p. let row_pos = (if j \<noteq> 0 then 72 + 30 * j + 4 * j else 72);
              col = 54 + i * (19 + 2) in draw_lcd_patch p col row_pos rgb_blank"
  have "\<exists>p2. for_loop 0 20 ?body p1 = Inr p2 \<and> blank_before j 20 p0 p2"
  proof (rule for_loop_inv [where I = "\<lambda>i p. blank_before j i p0 p"])
    fix i :: int and p assume i: "0 \<le> i" "i < 20" and p: "blank_before j i p0 p"
    have "?body i p = draw_lcd_patch p (54 + i * 21) (72 + 34 * j) rgb_blank"
      by (auto simp: Let_def algebra_simps)
    then show "\<exists>p'. ?body i p = Inr p' \<and> blank_before j (i + 1) p0 p'"
      using blank_step [OF assms p] i j by (simp add: on_display_def)
  qed (use p1 in simp_all)
  moreover have "blank_before j 20 p0 p2 \<Longrightarrow> blank_before (j + 1) 0 p0 p2" for p2
    by (auto simp: blank_before_def on_display_def dest: order.not_eq_order_implies_strict)
  ultimately show "\<exists>p2. for_loop 0 20 ?body p1 = Inr p2 \<and> blank_before (j + 1) 0 p0 p2" by blast
qed simp

definition all_blank :: "pixbuf \<Rightarrow> bool" where
  "all_blank p \<longleftrightarrow> (\<forall>r c. on_display r c \<longrightarrow> cell_shows p r c (cell_dots 0))"

lemma redraw_blank:
  assumes "surface_ok4 (pix d)"
  shows "\<exists>p. redraw_surface d = Inr (d\<lparr>pix := p\<rparr>) \<and> same_format (pix d) p \<and> all_blank p"
proof -
  obtain p1 where p1: "unfill_surface (pix d) = Inr p1" "same_format (pix d) p1"
    using draw_patch_painted [of "pix d" 54 474 72 208 rgb_background] assms
    by (auto simp: unfill_surface_def surface_ok4_def dest: painted_format)
  obtain p where p: "fill_with_lcd_patches p1 = Inr p" "blank_before 4 0 p1 p"
    using fill_blank [of p1] assms p1 by (auto simp: surface_ok4_format)
  have "all_blank p" using p(2) by (auto simp: all_blank_def blank_before_def on_display_def)
  then show ?thesis
    using p1 p same_format_trans by (auto simp: redraw_surface_def blank_before_def)
qed

lemma clear_memory:
  assumes "ready4 d"
  shows "\<exists>m. clear_ddram d = Inr (d\<lparr>ddram := m\<rparr>) \<and> ready4 (d\<lparr>ddram := m\<rparr>) \<and>
    (\<forall>r c. on_display r c \<longrightarrow> m ! nat r ! nat c = 0)"
proof -
  obtain d' where d': "clear_ddram d = Inr d'" "cleared_to d 4 0 d'"
    using clear_ddram_cleared [OF assms] by blast
  then have "ready4 d'" "d' = d\<lparr>ddram := ddram d'\<rparr>"
    "on_display r c \<Longrightarrow> ddram d' ! nat r ! nat c = 0" for r c
    by (auto simp: cleared_to_def on_display_def)
  then show ?thesis using d'(1) by metis
qed

lemma clear_good:
  assumes "good4 d"
  shows "\<exists>d'. c_bind (redraw_surface d) (\<lambda>d. clear_ddram (Lcd_SetDDRAM 0 d)) = Inr d' \<and> good4 d' \<and>
    all_blank (pix d') \<and> (\<forall>r c. on_display r c \<longrightarrow> ddram d' ! nat r ! nat c = 0)"
proof -
  have r: "ready4 d" and s: "surface_ok4 (pix d)" using assms by (auto simp: good4_def ready4_def)
  obtain p where p: "redraw_surface d = Inr (d\<lparr>pix := p\<rparr>)" "same_format (pix d) p" "all_blank p"
    using redraw_blank [OF s] by blast
  let ?d = "Lcd_SetDDRAM 0 (d\<lparr>pix := p\<rparr>)"
  have r1: "ready4 ?d" using set_ddram_ready4 [OF ready4_pix [OF r p(2)]] .
  obtain m where m: "clear_ddram ?d = Inr (?d\<lparr>ddram := m\<rparr>)" "ready4 (?d\<lparr>ddram := m\<rparr>)"
    "\<And>r c. on_display r c \<Longrightarrow> m ! nat r ! nat c = 0"
    using clear_memory [OF r1] by blast
  have pix: "pix (?d\<lparr>ddram := m\<rparr>) = p" by (simp add: Lcd_SetDDRAM_def Let_def)
  have "good4 (?d\<lparr>ddram := m\<rparr>)"
    using m p(3) pix by (simp add: good4_def memory_chars_def shows_memory_def all_blank_def Let_def)
  then show ?thesis using p m pix by simp
qed

lemma set_ddram_good: "good4 d \<Longrightarrow> good4 (Lcd_SetDDRAM a d)"
  using good4_move [of d] by (simp add: Lcd_SetDDRAM_def Let_def)

lemma command_good:
  assumes "good4 d"
  shows "\<exists>d'. Lcd_Command c d = Inr d' \<and> good4 d'"
proof -
  obtain d1 where d1: "c_bind (redraw_surface d) (\<lambda>d. clear_ddram (Lcd_SetDDRAM 0 d)) = Inr d1"
    "good4 d1" "\<And>r c. on_display r c \<Longrightarrow> ddram d1 ! nat r ! nat c = 0"
    using clear_good [OF assms] by blast
  have s1: "surface_ok4 (pix d1)" and r1: "ready4 d1" using d1(2) by (auto simp: good4_def ready4_def)
  obtain p where p: "redraw_surface d1 = Inr (d1\<lparr>pix := p\<rparr>)" "same_format (pix d1) p" "all_blank p"
    using redraw_blank [OF s1] by blast
  have g: "good4 (d1\<lparr>pix := p\<rparr>)"
    using ready4_pix [OF r1 p(2)] d1(3) p(3)
    by (simp add: good4_def memory_chars_def shows_memory_def all_blank_def Let_def)
  consider "c = 0" | "c = 1" | "c = 3" | "c = 4" | "c = 5" | "c = 6" | "c = 7" |
    "c \<notin> {0, 1, 3, 4, 5, 6, 7}" by blast
  then show ?thesis
    by cases (use assms d1 p g in \<open>auto simp: Lcd_Command_def set_ddram_good Let_def\<close>)
qed

lemma exec_call_good: "good4 d \<Longrightarrow> \<exists>d'. exec_call4 c d = Inr d' \<and> good4 d'"
proof (cases c)
  case (Senddata b)
  then show "good4 d \<Longrightarrow> ?thesis"
    using put_good [of d b] by (simp add: Lcd_senddata_def printable_uint LAST_SYMBOL_IN_CGROM_def)
qed (simp_all add: set_ddram_good transmit_good command_good Lcd_SetCGRAM_def)

section \<open>The initial device\<close>

text \<open>
  \<open>init_surface\<close>: the image file is loaded (\<open>gdk_pixbuf_new_from_file\<close>, here the argument,
  \<open>None\<close> where the call returns NULL) and the empty display is drawn on it. The globals are zero.
\<close>

definition init_surface :: "pixbuf option \<Rightarrow> pixbuf option c_result" where
  "init_surface file =
     (case file of
        None \<Rightarrow> Inr None
      | Some p \<Rightarrow> c_bind (unfill_surface p) (\<lambda>p.
                  c_bind (fill_with_lcd_patches p) (\<lambda>p. Inr (Some p))))"

definition lcd4_globals :: "pixbuf \<Rightarrow> lcd4" where
  "lcd4_globals p = \<lparr>pix = p, lcd_line = 0, lcd_cursor = 0, cursor = 0, blink = 0, blink_was_on = 0,
     blink_last_index_line = 0, blink_last_index_cursor = 0, ddram = replicate 4 (replicate 20 0)\<rparr>"

lemma init_good:
  assumes "surface_ok4 p"
  shows "\<exists>p'. init_surface (Some p) = Inr (Some p') \<and> good4 (lcd4_globals p')"
proof -
  let ?d = "lcd4_globals p"
  have "pix ?d = p" by (simp add: lcd4_globals_def)
  then obtain p' where p': "redraw_surface ?d = Inr (?d\<lparr>pix := p'\<rparr>)" "same_format p p'" "all_blank p'"
    using redraw_blank [of ?d] assms by auto
  have "init_surface (Some p) = Inr (Some p')"
    using p'(1) by (auto simp: init_surface_def redraw_surface_def lcd4_globals_def elim!: c_bind_InrE)
  moreover have "ready4 (lcd4_globals p')"
    using assms p'(2) surface_ok4_format by (simp add: ready4_def lcd4_globals_def)
  moreover have z: "on_display r c \<Longrightarrow> ddram (lcd4_globals p') ! nat r ! nat c = 0" for r c
  proof -
    assume "on_display r c"
    then have "nat r < 4" "nat c < 20" by (auto simp: on_display_def)
    then show ?thesis by (simp add: lcd4_globals_def)
  qed
  moreover have "pix (lcd4_globals p') = p'" by (simp add: lcd4_globals_def)
  ultimately show ?thesis
    using p'(3) by (simp add: good4_def memory_chars_def shows_memory_def all_blank_def Let_def)
qed

lemma exec_calls_good: "good4 d \<Longrightarrow> \<exists>d'. exec_calls exec_call4 cs d = Inr d' \<and> good4 d'"
proof (induction cs arbitrary: d)
  case (Cons c cs)
  then show ?case using exec_call_good [of d c] by fastforce
qed simp

section \<open>The blinking cursor\<close>

text \<open>The cell the callback is about to redraw: on the display, and holding a character.\<close>

definition holds_char :: "lcd4 \<Rightarrow> int \<Rightarrow> int \<Rightarrow> bool" where
  "holds_char d r c \<longleftrightarrow> on_display r c \<and> ddram d ! nat r ! nat c \<noteq> 0"

definition blinking :: "lcd4 \<Rightarrow> bool" where
  "blinking d \<longleftrightarrow> cursor d \<noteq> 0 \<and> blink d \<noteq> 0"

definition same_text :: "lcd4 \<Rightarrow> lcd4 \<Rightarrow> bool" where
  "same_text d d' \<longleftrightarrow> ddram d' = ddram d \<and> lcd_line d' = lcd_line d \<and> lcd_cursor d' = lcd_cursor d \<and>
     cursor d' = cursor d \<and> blink d' = blink d"

text \<open>Redrawing a cell from the memory.\<close>

lemma redraw_cell:
  assumes "ready4 d" "memory_chars d" "holds_char d r c" "surface_ok4 p"
  shows "\<exists>p'. draw_lcd_patch_from_cgrom p r c (uint (ddram d ! nat r ! nat c) - 32) = Inr p' \<and>
    painted p (cell_map r c (cell_dots (ddram d ! nat r ! nat c))) p'"
proof -
  let ?b = "ddram d ! nat r ! nat c"
  have "printable ?b" "?b \<noteq> 0" using assms by (auto simp: holds_char_def memory_chars_def Let_def)
  then show ?thesis
    using draw_cell_painted [OF assms(4), of r c "uint ?b - 32"] assms(3) glyph_cell_map [of ?b c r]
    by (auto simp: holds_char_def on_display_def printable_uint)
qed

text \<open>
  The picture agrees with the memory except that the cell the block was last drawn on may still
  be dark.
\<close>

definition shows_but :: "(int \<times> int) set \<Rightarrow> lcd4 \<Rightarrow> bool" where
  "shows_but X d \<longleftrightarrow> ready4 d \<and> memory_chars d \<and>
     (\<forall>r c. on_display r c \<and> (r, c) \<notin> X \<longrightarrow> cell_shows (pix d) r c (cell_dots (ddram d ! nat r ! nat c)))"

definition block_cells :: "lcd4 \<Rightarrow> (int \<times> int) set" where
  "block_cells d = (if blink_was_on d \<noteq> 0 then {(blink_last_index_line d, blink_last_index_cursor d)} else {})"

lemma shows_but_good: "shows_but {} d = good4 d"
  by (simp add: shows_but_def good4_def shows_memory_def)

lemma shows_but_mono: "shows_but X d \<Longrightarrow> X \<subseteq> Y \<Longrightarrow> shows_but Y d"
  by (auto simp: shows_but_def)

lemma shows_but_flags [simp]:
  "shows_but X (d\<lparr>blink_was_on := v\<rparr>) = shows_but X d"
  "shows_but X (d\<lparr>blink_last_index_cursor := x, blink_last_index_line := y\<rparr>) = shows_but X d"
  by (simp_all add: shows_but_def ready4_def memory_chars_def)

lemma redraw_cell_but:
  assumes "shows_but X d" "holds_char d r c"
  shows "\<exists>p. c_bind (ddram_get d r c) (\<lambda>b. draw_lcd_patch_from_cgrom (pix d) r c (uint b - 32)) = Inr p \<and>
    shows_but (X - {(r, c)}) (d\<lparr>pix := p\<rparr>)"
proof -
  have r: "ready4 d" and m: "memory_chars d" and s: "surface_ok4 (pix d)"
    using assms(1) by (auto simp: shows_but_def ready4_def)
  obtain p where p: "draw_lcd_patch_from_cgrom (pix d) r c (uint (ddram d ! nat r ! nat c) - 32) = Inr p"
    "painted (pix d) (cell_map r c (cell_dots (ddram d ! nat r ! nat c))) p"
    using redraw_cell [OF r m assms(2) s] by blast
  have "cell_shows p r' c' (cell_dots (ddram d ! nat r' ! nat c'))"
    if "on_display r' c'" "(r', c') \<notin> X - {(r, c)}" for r' c'
  proof (cases "r' = r \<and> c' = c")
    case True
    then show ?thesis using paint_cell [OF p(2) that(1) s, of "cell_dots (ddram d ! nat r' ! nat c')"] by simp
  next
    case False
    then have "cell_shows (pix d) r' c' (cell_dots (ddram d ! nat r' ! nat c'))"
      using that assms(1) unfolding shows_but_def by blast
    then show ?thesis using paint_cell [OF p(2) that(1) s] False by simp
  qed
  then have "shows_but (X - {(r, c)}) (d\<lparr>pix := p\<rparr>)"
    using m ready4_pix [OF r painted_format [OF p(2)]] by (simp add: shows_but_def memory_chars_def)
  then show ?thesis
    using p(1) r assms(2) by (simp add: ddram_get_ok holds_char_def on_display_def)
qed

text \<open>The callback, with the reads of the text memory grouped with the drawing they feed.\<close>

lemma restore_old_cell_moved:
  assumes "(blink_last_index_line d, blink_last_index_cursor d) \<noteq> (l, c)"
  shows "restore_old_cell l c d = c_bind
    (c_bind (ddram_get d (blink_last_index_line d) (blink_last_index_cursor d)) (\<lambda>b.
       draw_lcd_patch_from_cgrom (pix d) (blink_last_index_line d) (blink_last_index_cursor d) (uint b - 32)))
    (\<lambda>p. Inr (d\<lparr>pix := p\<rparr>))"
proof -
  from assms have "blink_last_index_cursor d \<noteq> c \<or> blink_last_index_line d \<noteq> l" by auto
  then show ?thesis unfolding restore_old_cell_def Let_def c_bind_assoc by (simp only: if_True)
qed

lemma callback_redraws:
  assumes "blinking d" "blink_was_on d \<noteq> 0" "on_display (lcd_line d) (lcd_cursor d)"
  shows "Lcd_Timeout_Callback d = c_bind (restore_old_cell (lcd_line d) (lcd_cursor d) (d\<lparr>blink_was_on := 0\<rparr>)) (\<lambda>d1.
    c_bind (c_bind (ddram_get d1 (lcd_line d) (lcd_cursor d)) (\<lambda>b.
       draw_lcd_patch_from_cgrom (pix d1) (lcd_line d) (lcd_cursor d) (uint b - 32)))
    (\<lambda>p. Inr (d1\<lparr>pix := p\<rparr>)))"
  using assms unfolding Lcd_Timeout_Callback_def Let_def c_bind_assoc blinking_def on_display_def by simp

text \<open>The first half of both branches: the old block is erased, if the cursor has moved.\<close>

lemma restore_old_cell_but:
  assumes "shows_but (block_cells d0) d"
    and "d = d0\<lparr>blink_was_on := v\<rparr>"
    and "(blink_last_index_line d, blink_last_index_cursor d) \<noteq> (l, c) \<Longrightarrow>
         holds_char d (blink_last_index_line d) (blink_last_index_cursor d)"
  shows "\<exists>p. restore_old_cell l c d = Inr (d\<lparr>pix := p\<rparr>) \<and> shows_but {(l, c)} (d\<lparr>pix := p\<rparr>)"
proof (cases "(blink_last_index_line d, blink_last_index_cursor d) = (l, c)")
  case True
  have "block_cells d0 \<subseteq> {(l, c)}" using True assms(2) by (auto simp: block_cells_def)
  then have "shows_but {(l, c)} (d\<lparr>pix := pix d\<rparr>)" using shows_but_mono [OF assms(1)] by simp
  moreover have "restore_old_cell l c d = Inr (d\<lparr>pix := pix d\<rparr>)" using True by (simp add: restore_old_cell_def)
  ultimately show ?thesis by blast
next
  case False
  let ?r = "blink_last_index_line d" and ?c = "blink_last_index_cursor d"
  obtain p where p: "c_bind (ddram_get d ?r ?c) (\<lambda>b. draw_lcd_patch_from_cgrom (pix d) ?r ?c (uint b - 32)) = Inr p"
    "shows_but (block_cells d0 - {(?r, ?c)}) (d\<lparr>pix := p\<rparr>)"
    using redraw_cell_but [OF assms(1) assms(3) [OF False]] by blast
  have "block_cells d0 - {(?r, ?c)} = {}" using assms(2) by (auto simp: block_cells_def)
  then have "shows_but {(l, c)} (d\<lparr>pix := p\<rparr>)" using shows_but_mono [OF p(2), of "{(l, c)}"] by blast
  moreover have "restore_old_cell l c d = Inr (d\<lparr>pix := p\<rparr>)"
    using p(1) restore_old_cell_moved [OF False] by simp
  ultimately show ?thesis by blast
qed

lemma draw_block_but:
  assumes "shows_but {(r, c)} d" "on_display r c"
  shows "\<exists>p. draw_lcd_patch (pix d) (54 + c * 21) (72 + 34 * r) rgb_fill = Inr p \<and>
    shows_but {(r, c)} (d\<lparr>pix := p\<rparr>) \<and> cell_shows p r c (\<lambda>_ _. colour_of rgb_fill)"
proof -
  have rd: "ready4 d" and m: "memory_chars d" and s: "surface_ok4 (pix d)"
    using assms(1) by (auto simp: shows_but_def ready4_def)
  obtain p where p: "draw_lcd_patch (pix d) (54 + c * 21) (72 + 34 * r) rgb_fill = Inr p"
    "painted (pix d) (cell_map r c (\<lambda>_ _. colour_of rgb_fill)) p"
    using draw_lcd_patch_painted [of "pix d" "54 + c * 21" "72 + 34 * r" rgb_fill] assms(2) s
    by (auto simp: surface_ok4_def on_display_def cell_map_def)
  have "cell_shows p r' c' (cell_dots (ddram d ! nat r' ! nat c'))"
    if "on_display r' c'" "(r', c') \<notin> {(r, c)}" for r' c'
  proof -
    have "cell_shows (pix d) r' c' (cell_dots (ddram d ! nat r' ! nat c'))"
      using that assms(1) unfolding shows_but_def by blast
    then show ?thesis using paint_cell [OF p(2) that(1) s] that(2) by auto
  qed
  then have "shows_but {(r, c)} (d\<lparr>pix := p\<rparr>)"
    using m ready4_pix [OF rd painted_format [OF p(2)]] by (simp add: shows_but_def memory_chars_def)
  moreover have "cell_shows p r c (\<lambda>_ _. colour_of rgb_fill)" using paint_cell [OF p(2) assms(2) s] by simp
  ultimately show ?thesis using p(1) by blast
qed

text \<open>One tick, on cells that hold characters.\<close>

lemma tick_keeps:
  assumes "shows_but (block_cells d) d" "blinking d" "holds_char d (lcd_line d) (lcd_cursor d)"
    and "(blink_last_index_line d, blink_last_index_cursor d) \<noteq> (lcd_line d, lcd_cursor d) \<Longrightarrow>
         holds_char d (blink_last_index_line d) (blink_last_index_cursor d)"
  shows "\<exists>d'. Lcd_Timeout_Callback d = Inr d' \<and> same_text d d' \<and>
    (if blink_was_on d \<noteq> 0 then good4 d' \<and> blink_was_on d' = 0
     else shows_but (block_cells d') d' \<and> blink_was_on d' = 1 \<and>
       blink_last_index_line d' = lcd_line d \<and> blink_last_index_cursor d' = lcd_cursor d \<and>
       cell_shows (pix d') (lcd_line d) (lcd_cursor d) (\<lambda>_ _. colour_of rgb_fill))"
proof (cases "blink_was_on d \<noteq> 0")
  case True
  let ?d = "d\<lparr>blink_was_on := 0\<rparr>" and ?l = "lcd_line d" and ?c = "lcd_cursor d"
  obtain p where p: "restore_old_cell ?l ?c ?d = Inr (?d\<lparr>pix := p\<rparr>)" "shows_but {(?l, ?c)} (?d\<lparr>pix := p\<rparr>)"
    using restore_old_cell_but [of d ?d 0 ?l ?c] assms by (auto simp: holds_char_def)
  let ?d1 = "?d\<lparr>pix := p\<rparr>"
  have h: "holds_char ?d1 ?l ?c" using assms(3) by (simp add: holds_char_def)
  obtain q where q: "c_bind (ddram_get ?d1 ?l ?c) (\<lambda>b. draw_lcd_patch_from_cgrom (pix ?d1) ?l ?c (uint b - 32)) = Inr q"
    "shows_but {} (?d1\<lparr>pix := q\<rparr>)"
    using redraw_cell_but [OF p(2) h] by auto
  have "Lcd_Timeout_Callback d = Inr (?d1\<lparr>pix := q\<rparr>)"
    using callback_redraws [OF assms(2) True] assms(3) p(1) q(1) by (simp add: holds_char_def)
  then show ?thesis using q(2) True by (auto simp: shows_but_good same_text_def)
next
  case False
  let ?d = "d\<lparr>blink_was_on := 1\<rparr>" and ?l = "lcd_line d" and ?c = "lcd_cursor d"
  obtain p where p: "restore_old_cell ?l ?c ?d = Inr (?d\<lparr>pix := p\<rparr>)" "shows_but {(?l, ?c)} (?d\<lparr>pix := p\<rparr>)"
    using restore_old_cell_but [of d ?d 1 ?l ?c] assms by (auto simp: holds_char_def)
  let ?d1 = "?d\<lparr>pix := p\<rparr>"
  have on: "on_display ?l ?c" using assms(3) by (simp add: holds_char_def)
  obtain q where q: "draw_lcd_patch (pix ?d1) (54 + ?c * 21) (72 + 34 * ?l) rgb_fill = Inr q"
    "shows_but {(?l, ?c)} (?d1\<lparr>pix := q\<rparr>)" "cell_shows q ?l ?c (\<lambda>_ _. colour_of rgb_fill)"
    using draw_block_but [OF p(2) on] by blast
  let ?d2 = "?d1\<lparr>pix := q, blink_last_index_cursor := ?c, blink_last_index_line := ?l\<rparr>"
  have "Lcd_Timeout_Callback d = Inr ?d2"
    using assms(2) False on p(1) q(1)
    by (simp add: Lcd_Timeout_Callback_def Let_def blinking_def on_display_def cell_position)
  moreover have "shows_but (block_cells ?d2) ?d2" using q(2) by (simp add: block_cells_def shows_but_def ready4_def memory_chars_def)
  ultimately show ?thesis using q(3) False by (auto simp: same_text_def)
qed

lemma tick_off: "\<not> blinking d \<Longrightarrow> Lcd_Timeout_Callback d = Inr d"
  by (auto simp: Lcd_Timeout_Callback_def blinking_def Let_def)

text \<open>A cell that was never written holds 0, and there the callback reads before the table.\<close>

lemma redraw_empty_faults:
  assumes "ready4 d" "on_display r c" "ddram d ! nat r ! nat c = 0"
  shows "c_bind (ddram_get d r c) (\<lambda>b. draw_lcd_patch_from_cgrom (pix d) r c (uint b - 32)) = Inl Out_Of_Bounds"
  using assms
  by (simp add: ddram_get_ok on_display_def draw_lcd_patch_from_cgrom_def LAST_SYMBOL_IN_CGROM_def
      cell_position draw_symbol_no_glyph)

lemma ready4_blink_was_on [simp]: "ready4 (d\<lparr>blink_was_on := v\<rparr>) = ready4 d"
  by (simp add: ready4_def)

section \<open>Properties\<close>

text \<open>C13: Whatever calls the widgets make after the start, no access of the simulator leaves the image,
  the table or the text memory, no assertion of put_pixel fails, the memory only holds drawable
  characters, and every cell of the image shows the glyph of the character stored for it.\<close>

theorem display_shows_memory:
  assumes "surface_ok4 p"
  shows "\<exists>p' d. init_surface (Some p) = Inr (Some p') \<and>
    exec_calls exec_call4 cs (lcd4_globals p') = Inr d \<and> memory_chars d \<and> shows_memory d"
  using init_good [OF assms] exec_calls_good by (fastforce simp: good4_def)

definition blank_image :: pixbuf where
  "blank_image = \<lparr>pb_n_channels = 3, pb_colorspace_rgb = True, pb_bits_per_sample = 8,
     pb_width = 525, pb_height = 277, pb_rowstride = 1576, pb_pixels = \<lambda>_. 0\<rparr>"

lemma blank_image_ok: "surface_ok4 blank_image"
  by (simp add: surface_ok4_def image_ok_def blank_image_def)

theorem display_shows_memory_witness:
  "\<exists>p' d. init_surface (Some blank_image) = Inr (Some p') \<and>
     exec_calls exec_call4 [TransmitStr (cstr ''Hola!!!''), Command 4, Command 6, SetDDRAM 1] (lcd4_globals p') = Inr d \<and>
     memory_chars d \<and> shows_memory d"
  by (rule display_shows_memory [OF blank_image_ok])

text \<open>The blinking cursor: on a cell that holds a character, after the display agrees with the
  memory, one callback paints the whole cell dark and touches nothing else, and the next one redraws the
  character, so that the display agrees with the memory again; the text, the position and the flags stay.\<close>

theorem blink_two_ticks:
  assumes "good4 d" "blinking d" "blink_was_on d = 0" "holds_char d (lcd_line d) (lcd_cursor d)"
    and "holds_char d (blink_last_index_line d) (blink_last_index_cursor d)"
  shows "\<exists>d1 d2. Lcd_Timeout_Callback d = Inr d1 \<and> Lcd_Timeout_Callback d1 = Inr d2 \<and>
    cell_shows (pix d1) (lcd_line d) (lcd_cursor d) (\<lambda>_ _. colour_of rgb_fill) \<and>
    shows_but {(lcd_line d, lcd_cursor d)} d1 \<and> good4 d2 \<and> same_text d d2 \<and> blink_was_on d2 = 0"
proof -
  have "shows_but (block_cells d) d" using assms by (simp add: block_cells_def shows_but_good)
  then obtain d1 where d1: "Lcd_Timeout_Callback d = Inr d1" "same_text d d1" "shows_but (block_cells d1) d1"
    "blink_was_on d1 = 1" "blink_last_index_line d1 = lcd_line d" "blink_last_index_cursor d1 = lcd_cursor d"
    "cell_shows (pix d1) (lcd_line d) (lcd_cursor d) (\<lambda>_ _. colour_of rgb_fill)"
    using tick_keeps [of d] assms by auto
  have "blinking d1" "holds_char d1 (lcd_line d1) (lcd_cursor d1)"
    "(blink_last_index_line d1, blink_last_index_cursor d1) = (lcd_line d1, lcd_cursor d1)"
    using d1 assms by (auto simp: same_text_def blinking_def holds_char_def)
  then obtain d2 where "Lcd_Timeout_Callback d1 = Inr d2" "same_text d1 d2" "good4 d2" "blink_was_on d2 = 0"
    using tick_keeps [OF d1(3)] d1(4) by auto
  moreover have "block_cells d1 = {(lcd_line d, lcd_cursor d)}" using d1 by (simp add: block_cells_def)
  ultimately show ?thesis using d1 by (auto simp: same_text_def)
qed

text \<open>A display that was started, has \<open>AB\<close> on its first line and the cursor blinking on the \<open>A\<close>.\<close>

lemma blinking_on_A:
  "\<exists>d. good4 d \<and> blinking d \<and> blink_was_on d = 0 \<and> lcd_line d = 0 \<and> lcd_cursor d = 0 \<and>
     blink_last_index_line d = 0 \<and> blink_last_index_cursor d = 0 \<and> ddram d ! 0 ! 0 = 65"
proof -
  let ?cs = "[TransmitStr [65, 66], SetDDRAM 0, Command 4, Command 6]"
  obtain p where g: "good4 (lcd4_globals p)" using init_good [OF blank_image_ok] by blast
  let ?i = "lcd4_globals p"
  have s: "screen4 ?i = \<lparr>ts_line = 0, ts_col = 0, ts_cell = cell4 ?i, ts_cursor = False, ts_blink = False\<rparr>"
    by (simp add: screen4_def lcd4_globals_def)
  obtain d where d: "exec_calls exec_call4 ?cs ?i = Inr d" "good4 d" using exec_calls_good [OF g] by blast
  have "calls_fit (screen4 ?i) ?cs" using s by (simp add: printable_uint)
  then have "screen4 d = screen_calls ?cs (screen4 ?i)"
    using lcd4.exec_calls_result [of ?i ?cs d] g d(1) by (simp add: good4_def)
  then have "screen4 d = \<lparr>ts_line = 0, ts_col = 0,
      ts_cell = ts_cell (put_char 66 (put_char 65 (screen4 ?i))), ts_cursor = True, ts_blink = True\<rparr>"
    by (simp add: set_pos_def screen_command_def s put_char_def)
  then have "lcd_line d = 0" "lcd_cursor d = 0" "cursor d \<noteq> 0" "blink d \<noteq> 0" "cell4 d 0 0 = 65"
    by (simp_all add: screen4_def put_char_def write_cell_def on_screen_def printable_uint lcd4_globals_def)
  moreover from this(5) have "ddram d ! 0 ! 0 = 65" by (simp add: cell4_def on_screen_def)
  moreover have "good4 (d\<lparr>blink_was_on := 0, blink_last_index_line := 0, blink_last_index_cursor := 0\<rparr>)"
    using d(2) by (simp add: good4_def ready4_def memory_chars_def shows_memory_def)
  ultimately show ?thesis
    by (intro exI [of _ "d\<lparr>blink_was_on := 0, blink_last_index_line := 0, blink_last_index_cursor := 0\<rparr>"])
      (simp add: blinking_def)
qed

theorem blink_two_ticks_witness:
  "\<exists>d d1 d2. ddram d ! 0 ! 0 = 65 \<and> Lcd_Timeout_Callback d = Inr d1 \<and> Lcd_Timeout_Callback d1 = Inr d2 \<and>
     cell_shows (pix d1) 0 0 (\<lambda>_ _. colour_of rgb_fill) \<and> good4 d2"
proof -
  obtain d where d: "good4 d" "blinking d" "blink_was_on d = 0" "lcd_line d = 0" "lcd_cursor d = 0"
    "blink_last_index_line d = 0" "blink_last_index_cursor d = 0" "ddram d ! 0 ! 0 = 65"
    using blinking_on_A by blast
  have "holds_char d 0 0" using d by (simp add: holds_char_def on_display_def)
  then show ?thesis using blink_two_ticks [of d] d by auto
qed

text \<open>The defect of the callback: when the cursor blinks on a cell that was never written (or was
  cleared), its code 0 gives the symbol index -32 and the redraw reads the character table out of bounds.\<close>

theorem blink_on_empty_cell_faults:
  assumes "ready4 d" "blinking d" "blink_was_on d \<noteq> 0" "on_display (lcd_line d) (lcd_cursor d)"
    and "ddram d ! nat (lcd_line d) ! nat (lcd_cursor d) = 0"
    and "blink_last_index_line d = lcd_line d" "blink_last_index_cursor d = lcd_cursor d"
  shows "Lcd_Timeout_Callback d = Inl Out_Of_Bounds"
proof -
  have "restore_old_cell (lcd_line d) (lcd_cursor d) (d\<lparr>blink_was_on := 0\<rparr>) = Inr (d\<lparr>blink_was_on := 0\<rparr>)"
    using assms(6,7) by (simp add: restore_old_cell_def)
  moreover have "ready4 (d\<lparr>blink_was_on := 0\<rparr>)" using assms(1) by simp
  ultimately show ?thesis
    using callback_redraws [OF assms(2,3,4)] redraw_empty_faults [of "d\<lparr>blink_was_on := 0\<rparr>"] assms(4,5)
    by simp
qed

theorem blink_on_empty_cell_faults_witness:
  "Lcd_Timeout_Callback ((lcd4_globals blank_image)\<lparr>cursor := 1, blink := 1, blink_was_on := 1\<rparr>) = Inl Out_Of_Bounds"
  by (rule blink_on_empty_cell_faults)
    (simp_all add: ready4_def lcd4_globals_def blank_image_ok blinking_def on_display_def)

end
