(* ===== verification/Lcd_2x16.thy ===== *)
theory Lcd_2x16
  imports Lcd_Common
begin

text \<open>
  The display simulator of \<open>main_glade_lcd3.c\<close>, the two lines of sixteen cells the widgets were
  written for. It differs from the 4x20 one in its geometry, in keeping one array per line, and in
  that its two writers store the character without checking the column: text that runs past the
  sixteenth cell is written outside the array. Operations carry the suffix \<open>_2x16\<close>.
\<close>

section \<open>State\<close>

abbreviation (input) COLUMN_START :: int where "COLUMN_START \<equiv> 70"
abbreviation (input) ROW_START :: int where "ROW_START \<equiv> 74"

record lcd2 = lcd_state +
  ddram_l1 :: "u8 list"
  ddram_l2 :: "u8 list"

section \<open>Drawing\<close>

definition fill_with_lcd_patches_2x16 :: "pixbuf \<Rightarrow> pixbuf c_result" where
  "fill_with_lcd_patches_2x16 p =
     c_bind (for_loop 0 16 (\<lambda>i p.
       let col = COLUMN_START + i * (PATCH_WIDTH + 2)
       in draw_lcd_patch p col ROW_START rgb_blank) p) (\<lambda>p.
     for_loop 0 16 (\<lambda>i p.
       let col = COLUMN_START + i * (PATCH_WIDTH + 2)
       in draw_lcd_patch p col (ROW_START + PATCH_HEIGHT + 4) rgb_blank) p)"

definition unfill_surface_2x16 :: "pixbuf \<Rightarrow> pixbuf c_result" where
  "unfill_surface_2x16 p =
     (let x1 = COLUMN_START;
          x2 = COLUMN_START + 16 * (PATCH_WIDTH + 2);
          y1 = ROW_START;
          y2 = ROW_START + 2 * PATCH_HEIGHT + 8
      in draw_patch p x1 x2 y1 y2 rgb_background)"

definition get_lcd_patch_position_2x16 :: "int \<Rightarrow> int \<Rightarrow> int \<times> int \<Rightarrow> int \<times> int" where
  "get_lcd_patch_position_2x16 row column xy =
     (if row > 1 then xy
      else if column > 15 then xy
      else (COLUMN_START + column * (PATCH_WIDTH + 2),
            if row \<noteq> 0 then ROW_START + (PATCH_HEIGHT * row) + 4 else ROW_START))"

definition draw_lcd_patch_from_cgrom_2x16 :: "pixbuf \<Rightarrow> int \<Rightarrow> int \<Rightarrow> int \<Rightarrow> pixbuf c_result" where
  "draw_lcd_patch_from_cgrom_2x16 p line_pos cursor_pos symbol_index =
     (if symbol_index > LAST_SYMBOL_IN_CGROM then Inr p
      else if line_pos > 1 \<or> cursor_pos > 15 then Inr p
      else let (x, y) = get_lcd_patch_position_2x16 line_pos cursor_pos (0, 0)
           in draw_symbol p x y symbol_index)"

section \<open>The low-level calls\<close>

definition show_char_2x16 :: "u8 \<Rightarrow> lcd2 \<Rightarrow> lcd2 c_result" where
  "show_char_2x16 b d =
     c_bind (draw_lcd_patch_from_cgrom_2x16 (pix d) (lcd_line d) (lcd_cursor d) (uint b - 32)) (\<lambda>p.
       if lcd_line d = 0
       then c_bind (arr_set (ddram_l1 d) (lcd_cursor d) b) (\<lambda>l. Inr (d\<lparr>pix := p, ddram_l1 := l\<rparr>))
       else c_bind (arr_set (ddram_l2 d) (lcd_cursor d) b) (\<lambda>l. Inr (d\<lparr>pix := p, ddram_l2 := l\<rparr>)))"

fun Lcd_TransmitStr_2x16 :: "u8 list \<Rightarrow> lcd2 \<Rightarrow> lcd2 c_result" where
  "Lcd_TransmitStr_2x16 [] d = Inr d"
| "Lcd_TransmitStr_2x16 (b # line) d =
     (if b = 0 then Inr d
      else c_bind (if sint b \<ge> 32 \<and> sint b < LAST_SYMBOL_IN_CGROM + 32 then show_char_2x16 b d else Inr d)
        (\<lambda>d'. Lcd_TransmitStr_2x16 line (d'\<lparr>lcd_cursor := lcd_cursor d' + 1\<rparr>)))"

definition Lcd_SetDDRAM_2x16 :: "u8 \<Rightarrow> lcd2 \<Rightarrow> lcd2" where
  "Lcd_SetDDRAM_2x16 a d =
     (let d1 = (if uint a < 16 then d\<lparr>lcd_line := 0, lcd_cursor := uint a\<rparr> else d)
      in if uint a < 0x40 + 16 \<and> uint a \<ge> 0x40
         then d1\<lparr>lcd_line := 1, lcd_cursor := uint a - 0x40\<rparr> else d1)"

definition Lcd_senddata_2x16 :: "u8 \<Rightarrow> lcd2 \<Rightarrow> lcd2 c_result" where
  "Lcd_senddata_2x16 data d =
     c_bind (if uint data \<ge> 32 \<and> uint data < LAST_SYMBOL_IN_CGROM + 32 then show_char_2x16 data d else Inr d)
       (\<lambda>d'. Inr (d'\<lparr>lcd_cursor := lcd_cursor d' + 1\<rparr>))"

definition Lcd_SetCGRAM_2x16 :: "u8 \<Rightarrow> lcd2 \<Rightarrow> lcd2" where
  "Lcd_SetCGRAM_2x16 data d = d"

definition redraw_surface_2x16 :: "lcd2 \<Rightarrow> lcd2 c_result" where
  "redraw_surface_2x16 d =
     c_bind (unfill_surface_2x16 (pix d)) (\<lambda>p.
     c_bind (fill_with_lcd_patches_2x16 p) (\<lambda>p. Inr (d\<lparr>pix := p\<rparr>)))"

definition clear_ddram_2x16 :: "lcd2 \<Rightarrow> lcd2 c_result" where
  "clear_ddram_2x16 d =
     for_loop 0 16 (\<lambda>i d.
       c_bind (arr_set (ddram_l1 d) i 0) (\<lambda>l1.
       c_bind (arr_set (ddram_l2 d) i 0) (\<lambda>l2. Inr (d\<lparr>ddram_l1 := l1, ddram_l2 := l2\<rparr>)))) d"

definition Lcd_Command_2x16 :: "u8 \<Rightarrow> lcd2 \<Rightarrow> lcd2 c_result" where
  "Lcd_Command_2x16 data d =
     c_bind (if data = CLEAR \<or> data = DISPLAY_OFF
             then c_bind (redraw_surface_2x16 d) (\<lambda>d. clear_ddram_2x16 (Lcd_SetDDRAM_2x16 0x00 d)) else Inr d) (\<lambda>d.
     let d = (if data = RET_HOME then Lcd_SetDDRAM_2x16 0x00 d else d) in
     c_bind (if data = DISPLAY_OFF
             then c_bind (redraw_surface_2x16 d) (\<lambda>d. Inr (d\<lparr>cursor := 0, blink := 0\<rparr>)) else Inr d) (\<lambda>d.
     let d = (if data = CURSOR_ON then d\<lparr>cursor := 1\<rparr> else d);
         d = (if data = CURSOR_OFF then d\<lparr>cursor := 0\<rparr> else d);
         d = (if data = BLINK_ON then d\<lparr>blink := 1\<rparr> else d);
         d = (if data = BLINK_OFF then d\<lparr>blink := 0\<rparr> else d)
     in Inr d))"

fun exec_call2 :: "lcd_call \<Rightarrow> lcd2 \<Rightarrow> lcd2 c_result" where
  "exec_call2 (SetDDRAM a) d = Inr (Lcd_SetDDRAM_2x16 a d)"
| "exec_call2 (TransmitStr str) d = Lcd_TransmitStr_2x16 str d"
| "exec_call2 (Senddata b) d = Lcd_senddata_2x16 b d"
| "exec_call2 (Command c) d = Lcd_Command_2x16 c d"
| "exec_call2 (SetCGRAM a) d = Inr (Lcd_SetCGRAM_2x16 a d)"

section \<open>The blinking cursor\<close>

text \<open>Redrawing one cell from the array of its line; the two branches of the callback draw it alike.\<close>

definition redraw_cell_2x16 :: "int \<Rightarrow> int \<Rightarrow> lcd2 \<Rightarrow> lcd2 c_result" where
  "redraw_cell_2x16 line_pos cursor_pos d =
     c_bind (arr_get (if line_pos = 0 then ddram_l1 d else ddram_l2 d) cursor_pos) (\<lambda>b.
     c_bind (draw_lcd_patch_from_cgrom_2x16 (pix d) (if line_pos = 0 then 0 else line_pos) cursor_pos (uint b - 32))
       (\<lambda>p. Inr (d\<lparr>pix := p\<rparr>)))"

definition restore_old_cell_2x16 :: "int \<Rightarrow> int \<Rightarrow> lcd2 \<Rightarrow> lcd2 c_result" where
  "restore_old_cell_2x16 line_pos cursor_pos d =
     (if blink_last_index_cursor d \<noteq> cursor_pos \<or> blink_last_index_line d \<noteq> line_pos
      then redraw_cell_2x16 (if blink_last_index_line d = 0 then 0 else 1) (blink_last_index_cursor d) d
      else Inr d)"

definition Lcd_Timeout_Callback_2x16 :: "lcd2 \<Rightarrow> lcd2 c_result" where
  "Lcd_Timeout_Callback_2x16 d =
     (let line_pos = lcd_line d; cursor_pos = lcd_cursor d in
      if cursor d \<noteq> 0 \<and> blink d \<noteq> 0 then
        if blink_was_on d \<noteq> 0 then
          c_bind (restore_old_cell_2x16 line_pos cursor_pos (d\<lparr>blink_was_on := 0\<rparr>)) (\<lambda>d.
          if line_pos \<le> 1 \<and> cursor_pos \<le> 15 then redraw_cell_2x16 line_pos cursor_pos d else Inr d)
        else
          c_bind (restore_old_cell_2x16 line_pos cursor_pos (d\<lparr>blink_was_on := 1\<rparr>)) (\<lambda>d.
          if line_pos \<le> 1 \<and> cursor_pos \<le> 15 then
            let (x, y) = get_lcd_patch_position_2x16 line_pos cursor_pos (0, 0) in
            c_bind (draw_lcd_patch (pix d) x y rgb_fill) (\<lambda>p.
              Inr (d\<lparr>pix := p, blink_last_index_cursor := cursor_pos, blink_last_index_line := line_pos\<rparr>))
          else Inr d)
      else Inr d)"

section \<open>Well-formed devices\<close>

text \<open>The shipped \<open>download.jpeg\<close> is 474 by 240.\<close>

definition surface_ok2 :: "pixbuf \<Rightarrow> bool" where
  "surface_ok2 p \<longleftrightarrow> image_ok p \<and> 406 \<le> pb_width p \<and> 142 \<le> pb_height p"

definition ready2 :: "lcd2 \<Rightarrow> bool" where
  "ready2 d \<longleftrightarrow> surface_ok2 (pix d) \<and> length (ddram_l1 d) = 16 \<and> length (ddram_l2 d) = 16 \<and>
     (lcd_line d = 0 \<or> lcd_line d = 1) \<and> 0 \<le> lcd_cursor d"

definition cell2 :: "lcd2 \<Rightarrow> int \<Rightarrow> int \<Rightarrow> u8" where
  "cell2 d l c = (if on_screen l c then (if l = 0 then ddram_l1 d else ddram_l2 d) ! nat c else 0)"

definition screen2 :: "lcd2 \<Rightarrow> text_screen" where
  "screen2 d = \<lparr>ts_line = lcd_line d, ts_col = lcd_cursor d, ts_cell = cell2 d,
     ts_cursor = cursor d \<noteq> 0, ts_blink = blink d \<noteq> 0\<rparr>"

lemma screen2_sel [simp]:
  "ts_line (screen2 d) = lcd_line d" "ts_col (screen2 d) = lcd_cursor d"
  "ts_cell (screen2 d) = cell2 d"
  "ts_cursor (screen2 d) \<longleftrightarrow> cursor d \<noteq> 0" "ts_blink (screen2 d) \<longleftrightarrow> blink d \<noteq> 0"
  by (simp_all add: screen2_def)

lemma surface_ok2_format: "same_format p p' \<Longrightarrow> surface_ok2 p' = surface_ok2 p"
  by (simp add: surface_ok2_def same_formatD)

section \<open>Drawing never fails inside the display\<close>

lemma draw_cell_ok2:
  assumes "surface_ok2 p" "r = 0 \<or> r = 1" "0 \<le> c" "0 \<le> k" "k \<le> 95"
  shows "\<exists>p'. draw_lcd_patch_from_cgrom_2x16 p r c k = Inr p' \<and> same_format p p'"
proof (cases "c \<le> 15")
  case True
  let ?y = "if r = 0 then 74 else 108"
  obtain p' where p': "draw_symbol p (70 + c * 21) ?y k = Inr p'" "same_format p p'"
    using assms True draw_symbol_painted [of p "70 + c * 21" ?y k] painted_format
    unfolding surface_ok2_def by fastforce
  then show ?thesis
    using assms True by (auto simp: draw_lcd_patch_from_cgrom_2x16_def get_lcd_patch_position_2x16_def
        LAST_SYMBOL_IN_CGROM_def)
next
  case False
  then show ?thesis using assms by (simp add: draw_lcd_patch_from_cgrom_2x16_def LAST_SYMBOL_IN_CGROM_def)
qed

text \<open>One line of blank cells.\<close>

lemma blank_line_ok2:
  assumes "surface_ok2 p0" "0 \<le> y" "y \<le> 108" "same_format p0 p"
  shows "\<exists>p'. for_loop 0 16 (\<lambda>i p. let col = 70 + i * (19 + 2) in draw_lcd_patch p col y rgb_blank) p = Inr p' \<and>
    same_format p0 p'"
proof (rule for_loop_inv [where I = "\<lambda>_ p. same_format p0 p"])
  fix i :: int and p assume i: "0 \<le> i" "i < 16" and p: "same_format p0 p"
  have "surface_ok2 p" using assms(1) surface_ok2_format [OF p] by simp
  then obtain p' where "draw_lcd_patch p (70 + i * 21) y rgb_blank = Inr p'" "same_format p p'"
    using draw_lcd_patch_painted [of p "70 + i * 21" y rgb_blank] i assms(2,3)
    by (auto simp: surface_ok2_def dest: painted_format)
  then show "\<exists>p'. (let col = 70 + i * (19 + 2) in draw_lcd_patch p col y rgb_blank) = Inr p' \<and> same_format p0 p'"
    using same_format_trans [OF p] by auto
qed (use assms in auto)

lemma redraw_surface_ok2:
  assumes "surface_ok2 (pix d)"
  shows "\<exists>p'. redraw_surface_2x16 d = Inr (d\<lparr>pix := p'\<rparr>) \<and> same_format (pix d) p'"
proof -
  obtain p1 where p1: "unfill_surface_2x16 (pix d) = Inr p1" "same_format (pix d) p1"
    using draw_patch_painted [of "pix d" 70 406 74 142 rgb_background] assms
    by (auto simp: unfill_surface_2x16_def surface_ok2_def dest: painted_format)
  obtain p2 where p2: "for_loop 0 16 (\<lambda>i p. let col = 70 + i * (19 + 2) in draw_lcd_patch p col 74 rgb_blank) p1 = Inr p2"
    "same_format (pix d) p2"
    using blank_line_ok2 [OF assms _ _ p1(2), of 74] by auto
  then show ?thesis
    using blank_line_ok2 [OF assms _ _ p2(2), of 108] p1
    by (auto simp: redraw_surface_2x16_def fill_with_lcd_patches_2x16_def)
qed

section \<open>Each call refines its abstract effect\<close>

lemma ready2_pix: "ready2 d \<Longrightarrow> same_format (pix d) p \<Longrightarrow> ready2 (d\<lparr>pix := p\<rparr>)"
  by (simp add: ready2_def surface_ok2_format)

lemma screen2_pix [simp]: "screen2 (d\<lparr>pix := p\<rparr>) = screen2 d"
  by (simp add: screen2_def cell2_def fun_eq_iff)

lemma show_char_ok2:
  assumes r: "ready2 d" and b: "printable b" and c: "lcd_cursor d < 16"
  shows "\<exists>d'. show_char_2x16 b d = Inr d' \<and> ready2 d' \<and>
    screen2 d' = screen2 d\<lparr>ts_cell := write_cell (cell2 d) (lcd_line d) (lcd_cursor d) b\<rparr>"
proof -
  obtain p where p: "draw_lcd_patch_from_cgrom_2x16 (pix d) (lcd_line d) (lcd_cursor d) (uint b - 32) = Inr p"
    "same_format (pix d) p"
    using draw_cell_ok2 [of "pix d" "lcd_line d" "lcd_cursor d" "uint b - 32"] r b
    by (auto simp: ready2_def printable_uint)
  let ?d = "d\<lparr>pix := p\<rparr>" and ?c = "nat (lcd_cursor d)"
  let ?d' = "if lcd_line d = 0 then ?d\<lparr>ddram_l1 := (ddram_l1 d)[?c := b]\<rparr>
             else ?d\<lparr>ddram_l2 := (ddram_l2 d)[?c := b]\<rparr>"
  have "show_char_2x16 b d = Inr ?d'" using r c p(1) by (simp add: show_char_2x16_def ready2_def)
  moreover have "ready2 ?d'" using ready2_pix [OF r p(2)] by (auto simp: ready2_def)
  moreover have "cell2 ?d' l k = write_cell (cell2 d) (lcd_line d) (lcd_cursor d) b l k" for l k
    using r c by (auto simp: cell2_def write_cell_def on_screen_def ready2_def nth_list_update eq_nat_nat_iff)
  ultimately show ?thesis by (auto simp: screen2_def fun_eq_iff)
qed

lemma put_char_refined2:
  assumes "ready2 d" "lcd_cursor d < 16"
  shows "\<exists>d'. c_bind (if printable b then show_char_2x16 b d else Inr d)
      (\<lambda>d'. Inr (d'\<lparr>lcd_cursor := lcd_cursor d' + 1\<rparr>)) = Inr d' \<and> ready2 d' \<and>
    screen2 d' = put_char b (screen2 d)"
proof -
  have adv: "screen2 (d'\<lparr>lcd_cursor := x\<rparr>) = screen2 d'\<lparr>ts_col := x\<rparr>"
    "ready2 d' \<Longrightarrow> ready2 (d'\<lparr>lcd_cursor := lcd_cursor d' + 1\<rparr>)" for d' x
    by (simp_all add: screen2_def cell2_def ready2_def fun_eq_iff)
  show ?thesis
  proof (cases "printable b")
    case True
    obtain d' where d': "show_char_2x16 b d = Inr d'" "ready2 d'"
      "screen2 d' = screen2 d\<lparr>ts_cell := write_cell (cell2 d) (lcd_line d) (lcd_cursor d) b\<rparr>"
      using show_char_ok2 [OF assms(1) True assms(2)] by blast
    then have "lcd_cursor d' = lcd_cursor d" by (simp add: screen2_def)
    then show ?thesis using d' True adv(1) adv(2) [OF d'(2)] by (simp add: put_char_def)
  next
    case False
    then show ?thesis using assms adv by (simp add: put_char_def)
  qed
qed

lemma transmit_refined2:
  assumes "ready2 d" "lcd_cursor d + int (length str) \<le> 16" "0 \<notin> set str"
  shows "\<exists>d'. Lcd_TransmitStr_2x16 str d = Inr d' \<and> ready2 d' \<and>
    screen2 d' = fold put_char str (screen2 d)"
  using assms
proof (induction str arbitrary: d)
  case (Cons b str)
  obtain d1 where d1: "c_bind (if printable b then show_char_2x16 b d else Inr d)
      (\<lambda>d'. Inr (d'\<lparr>lcd_cursor := lcd_cursor d' + 1\<rparr>)) = Inr d1" "ready2 d1"
    "screen2 d1 = put_char b (screen2 d)"
    using put_char_refined2 [OF Cons.prems(1)] Cons.prems(2) by auto
  have "Lcd_TransmitStr_2x16 (b # str) d = Lcd_TransmitStr_2x16 str d1"
    using d1(1) Cons.prems(3) by (auto simp: printable_def [symmetric] elim!: c_bind_InrE)
  moreover have "lcd_cursor d1 = lcd_cursor d + 1"
    using d1(3) by (metis put_char_sel(2) screen2_sel(2))
  ultimately show ?case using Cons.IH [OF d1(2)] Cons.prems d1(3) by auto
qed simp

lemma redraw_refined2:
  "ready2 d \<Longrightarrow> \<exists>d'. redraw_surface_2x16 d = Inr d' \<and> ready2 d' \<and> screen2 d' = screen2 d"
  using redraw_surface_ok2 [of d] ready2_pix [of d] by (force simp: ready2_def)

lemma set_ddram_refined2:
  "ready2 d \<Longrightarrow> ready2 (Lcd_SetDDRAM_2x16 a d)"
  "screen2 (Lcd_SetDDRAM_2x16 a d) = set_pos a (screen2 d)"
  by (auto simp: Lcd_SetDDRAM_2x16_def ready2_def set_pos_def screen2_def cell2_def Let_def fun_eq_iff)

lemma clear_ddram_refined2:
  assumes "ready2 d"
  shows "\<exists>d'. clear_ddram_2x16 d = Inr d' \<and> ready2 d' \<and> screen2 d' = screen2 d\<lparr>ts_cell := \<lambda>_ _. 0\<rparr>"
proof -
  let ?I = "\<lambda>i d'. \<exists>a b. d' = d\<lparr>ddram_l1 := a, ddram_l2 := b\<rparr> \<and> length a = 16 \<and> length b = 16 \<and>
    (\<forall>k < nat i. a ! k = 0 \<and> b ! k = 0)"
  have "\<exists>d'. clear_ddram_2x16 d = Inr d' \<and> ?I 16 d'"
    unfolding clear_ddram_2x16_def
  proof (rule for_loop_inv [where I = ?I])
    show "?I 0 d" using assms by (intro exI [of _ "ddram_l1 d"] exI [of _ "ddram_l2 d"]) (simp add: ready2_def)
    fix i :: int and d1 assume i: "0 \<le> i" "i < 16" and I: "?I i d1"
    obtain a b where ab: "d1 = d\<lparr>ddram_l1 := a, ddram_l2 := b\<rparr>" "length a = 16" "length b = 16"
      "\<forall>k < nat i. a ! k = 0 \<and> b ! k = 0" using I by blast
    let ?a = "a[nat i := 0]" and ?b = "b[nat i := 0]"
    have "\<forall>k < nat (i + 1). ?a ! k = 0 \<and> ?b ! k = 0"
      using ab i by (auto simp: nth_list_update)
    then have "?I (i + 1) (d\<lparr>ddram_l1 := ?a, ddram_l2 := ?b\<rparr>)"
      using ab by (intro exI [of _ ?a] exI [of _ ?b]) simp
    then show "\<exists>d2. c_bind (arr_set (ddram_l1 d1) i 0) (\<lambda>l1. c_bind (arr_set (ddram_l2 d1) i 0)
        (\<lambda>l2. Inr (d1\<lparr>ddram_l1 := l1, ddram_l2 := l2\<rparr>))) = Inr d2 \<and> ?I (i + 1) d2"
      using ab i by simp
  qed simp
  then obtain a b where ab: "clear_ddram_2x16 d = Inr (d\<lparr>ddram_l1 := a, ddram_l2 := b\<rparr>)"
    "length a = 16" "length b = 16" "\<forall>k < 16. a ! k = 0 \<and> b ! k = 0" by auto
  then have "cell2 (d\<lparr>ddram_l1 := a, ddram_l2 := b\<rparr>) = (\<lambda>_ _. 0)"
    by (auto simp: cell2_def on_screen_def fun_eq_iff)
  then show ?thesis using ab assms by (simp add: ready2_def screen2_def)
qed

lemma flags_refined2 [simp]:
  "ready2 (d\<lparr>cursor := v\<rparr>) = ready2 d" "ready2 (d\<lparr>blink := v\<rparr>) = ready2 d"
  "screen2 (d\<lparr>cursor := v\<rparr>) = screen2 d\<lparr>ts_cursor := v \<noteq> 0\<rparr>"
  "screen2 (d\<lparr>blink := v\<rparr>) = screen2 d\<lparr>ts_blink := v \<noteq> 0\<rparr>"
  by (simp_all add: ready2_def screen2_def cell2_def fun_eq_iff)

lemma command_refined2:
  assumes "ready2 d"
  shows "\<exists>d'. Lcd_Command_2x16 c d = Inr d' \<and> ready2 d' \<and> screen2 d' = screen_command c (screen2 d)"
proof -
  obtain d0 where d0: "redraw_surface_2x16 d = Inr d0" "ready2 d0" "screen2 d0 = screen2 d"
    using redraw_refined2 [OF assms] by blast
  obtain d1 where d1: "clear_ddram_2x16 (Lcd_SetDDRAM_2x16 0 d0) = Inr d1" "ready2 d1"
    "screen2 d1 = screen2 d\<lparr>ts_line := 0, ts_col := 0, ts_cell := \<lambda>_ _. 0\<rparr>"
    using clear_ddram_refined2 [OF set_ddram_refined2(1) [OF d0(2), of 0]] d0(3)
    by (auto simp: set_ddram_refined2 set_pos_def)
  obtain d2 where d2: "redraw_surface_2x16 d1 = Inr d2" "ready2 d2" "screen2 d2 = screen2 d1"
    using redraw_refined2 [OF d1(2)] by blast
  have home: "ready2 (Lcd_SetDDRAM_2x16 0 d)" using assms by (simp add: set_ddram_refined2)
  consider "c = 0" | "c = 1" | "c = 3" | "c = 4" | "c = 5" | "c = 6" | "c = 7" |
    "c \<notin> {0, 1, 3, 4, 5, 6, 7}" by blast
  then show ?thesis
    by cases (use assms d0 d1 d2 home in
      \<open>auto simp: Lcd_Command_2x16_def screen_command_def Let_def set_pos_def set_ddram_refined2\<close>)
qed

interpretation lcd2: lcd_driver exec_call2 ready2 screen2
proof unfold_locales
  fix d c
  assume r: "ready2 d" and f: "call_fits (screen2 d) c"
  show "\<exists>d'. exec_call2 c d = Inr d' \<and> ready2 d' \<and> screen2 d' = screen_call c (screen2 d)"
  proof (cases c)
    case (TransmitStr str)
    then have "0 \<notin> set str" using f by (auto simp: list_all_iff dest: printable_nonzero)
    then show ?thesis using TransmitStr f transmit_refined2 [OF r] by simp
  next
    case (Senddata b)
    then show ?thesis using f put_char_refined2 [OF r, of b]
      by (simp add: Lcd_senddata_2x16_def on_screen_def printable_uint LAST_SYMBOL_IN_CGROM_def)
  qed (use r set_ddram_refined2 command_refined2 [OF r] in \<open>simp_all add: Lcd_SetCGRAM_2x16_def\<close>)
qed

section \<open>Text past the last column\<close>

lemma show_char_overflow:
  assumes "ready2 d" "printable b" "16 \<le> lcd_cursor d"
  shows "show_char_2x16 b d = Inl Out_Of_Bounds"
  using assms by (auto simp: show_char_2x16_def draw_lcd_patch_from_cgrom_2x16_def ready2_def arr_set_def)

lemma transmit_overflow:
  assumes "ready2 d" "list_all printable str" "16 < lcd_cursor d + int (length str)" "str \<noteq> []"
  shows "Lcd_TransmitStr_2x16 str d = Inl Out_Of_Bounds"
  using assms
proof (induction str arbitrary: d)
  case (Cons b str)
  have b: "b \<noteq> 0" "printable b" using Cons.prems(2) printable_nonzero by auto
  show ?case
  proof (cases "16 \<le> lcd_cursor d")
    case True
    then show ?thesis using show_char_overflow [OF Cons.prems(1) b(2)] b by (simp add: printable_def)
  next
    case False
    obtain d1 where d1: "c_bind (if printable b then show_char_2x16 b d else Inr d)
        (\<lambda>d'. Inr (d'\<lparr>lcd_cursor := lcd_cursor d' + 1\<rparr>)) = Inr d1" "ready2 d1" "screen2 d1 = put_char b (screen2 d)"
      using put_char_refined2 [OF Cons.prems(1)] False by auto
    have "Lcd_TransmitStr_2x16 (b # str) d = Lcd_TransmitStr_2x16 str d1"
      using d1(1) b(1) by (auto simp: printable_def [symmetric] elim!: c_bind_InrE)
    moreover have "lcd_cursor d1 = lcd_cursor d + 1"
      using d1(3) by (metis put_char_sel(2) screen2_sel(2))
    moreover have "str \<noteq> []" using Cons.prems(3) False by auto
    ultimately show ?thesis using Cons.IH [OF d1(2)] Cons.prems(2,3) by simp
  qed
qed simp

section \<open>The initial device\<close>

definition init_surface_2x16 :: "pixbuf option \<Rightarrow> pixbuf option c_result" where
  "init_surface_2x16 file =
     (case file of
        None \<Rightarrow> Inr None
      | Some p \<Rightarrow> c_bind (unfill_surface_2x16 p) (\<lambda>p.
                  c_bind (fill_with_lcd_patches_2x16 p) (\<lambda>p. Inr (Some p))))"

definition lcd2_globals :: "pixbuf \<Rightarrow> lcd2" where
  "lcd2_globals p = \<lparr>pix = p, lcd_line = 0, lcd_cursor = 0, cursor = 0, blink = 0, blink_was_on = 0,
     blink_last_index_line = 0, blink_last_index_cursor = 0,
     ddram_l1 = replicate 16 0, ddram_l2 = replicate 16 0\<rparr>"

definition blank_image_2x16 :: pixbuf where
  "blank_image_2x16 = \<lparr>pb_n_channels = 3, pb_colorspace_rgb = True, pb_bits_per_sample = 8,
     pb_width = 474, pb_height = 240, pb_rowstride = 1424, pb_pixels = \<lambda>_. 0\<rparr>"

lemma lcd2_globals_ready: "surface_ok2 p \<Longrightarrow> ready2 (lcd2_globals p)"
  by (simp add: ready2_def lcd2_globals_def)

lemma blank_image_2x16_ok: "surface_ok2 blank_image_2x16"
  by (simp add: surface_ok2_def image_ok_def blank_image_2x16_def)

section \<open>Properties\<close>

text \<open>C18: On the 2x16 simulator a sequence of calls that keeps its text inside the lines is executed without
  a fault and shows exactly the abstract screen: the cells of both lines, the position and the cursor flags.\<close>

theorem calls_shown_2x16:
  assumes "ready2 d" "calls_fit (screen2 d) cs"
  shows "\<exists>d'. exec_calls exec_call2 cs d = Inr d' \<and> ready2 d' \<and> screen2 d' = screen_calls cs (screen2 d)"
  by (rule lcd2.exec_calls_refine [OF assms])

theorem calls_shown_2x16_witness:
  "\<exists>d'. exec_calls exec_call2 [SetDDRAM 0x40, TransmitStr [72, 105]] (lcd2_globals blank_image_2x16) = Inr d' \<and>
     ready2 d' \<and> cell2 d' 1 0 = 72 \<and> cell2 d' 1 1 = 105 \<and> lcd_line d' = 1 \<and> lcd_cursor d' = 2"
proof -
  let ?d = "lcd2_globals blank_image_2x16" and ?cs = "[SetDDRAM 0x40, TransmitStr [72, 105]]"
  have f: "calls_fit (screen2 ?d) ?cs" by (simp add: set_pos_def printable_uint)
  obtain d' where d': "exec_calls exec_call2 ?cs ?d = Inr d'" "ready2 d'" "screen2 d' = screen_calls ?cs (screen2 ?d)"
    using calls_shown_2x16 [OF lcd2_globals_ready [OF blank_image_2x16_ok] f] by blast
  have "ts_cell (screen2 d') 1 0 = 72" "ts_cell (screen2 d') 1 1 = 105" "ts_line (screen2 d') = 1" "ts_col (screen2 d') = 2"
    unfolding d'(3) by (simp_all add: set_pos_def put_char_cell printable_uint on_screen_def)
  then have "cell2 d' 1 0 = 72" "cell2 d' 1 1 = 105" "lcd_line d' = 1" "lcd_cursor d' = 2"
    by (simp_all only: screen2_sel)
  then show ?thesis using d'(1,2) by blast
qed

text \<open>The writers of the 2x16 simulator do not check the column: any printable text that runs past the
  sixteenth cell of its line is stored outside the array of the line (the 4x20 one checks and drops it).\<close>

theorem text_past_line_overflows_2x16:
  assumes "ready2 d" "list_all printable str" "str \<noteq> []" "16 < lcd_cursor d + int (length str)"
  shows "exec_call2 (TransmitStr str) d = Inl Out_Of_Bounds"
  using transmit_overflow assms by simp

theorem text_past_line_overflows_2x16_witness:
  "exec_call2 (TransmitStr (replicate 17 65)) (lcd2_globals blank_image_2x16) = Inl Out_Of_Bounds"
  by (rule text_past_line_overflows_2x16)
    (simp_all add: lcd2_globals_ready [OF blank_image_2x16_ok] list_all_iff printable_uint, simp add: lcd2_globals_def)

end
