(* ===== verification/Main_Loop.thy ===== *)
theory Main_Loop
  imports Menues Lcd_4x20_Picture Lcd_2x16
begin

text \<open>
  The simulator programs, \<open>main_glade_lcd_4_20.c\<close> and \<open>main_glade_lcd3.c\<close>: a single-threaded event
  loop that calls the menu when idle, counts the menu timer down, blinks the cursor and stores the
  button pressed last. The module is parametric in the display; its invariant and the absence of
  memory errors are proved once, in the locale \<open>lcd_simulator\<close>, and instantiated for both displays.
\<close>

section \<open>State and events\<close>

record 'd simulator =
  sim_menu :: menues
  switch_actions :: sw_actions
  sim_lcd :: 'd

datatype event = Main_Loop_Idle | Timeouts | Blink_Timeout | Dwn_Button | Up_Button | Set_Button

definition CheckSET :: "sw_actions \<Rightarrow> resp_sw" where
  "CheckSET switch = (if switch = selection_enter then SW_MIN else SW_NO)"

definition CheckCCW :: "sw_actions \<Rightarrow> u8" where
  "CheckCCW switch = (if switch = selection_dwn then 1 else 0)"

definition CheckCW :: "sw_actions \<Rightarrow> u8" where
  "CheckCW switch = (if switch = selection_up then 1 else 0)"

definition read_switches :: "sw_actions \<Rightarrow> switches" where
  "read_switches switch = \<lparr>sw_set = CheckSET switch, sw_ccw = CheckCCW switch, sw_cw = CheckCW switch\<rparr>"

text \<open>
  \<open>Test_Main_Loop\<close>: one call of the menu, whose display calls are executed in order, and the switch is
  cleared. Nothing counts the timer down while the call runs. \<open>None\<close> is a call that does not return.
\<close>

definition Test_Main_Loop ::
  "(lcd_call \<Rightarrow> 'd \<Rightarrow> 'd c_result) \<Rightarrow> 'd simulator \<Rightarrow> 'd simulator c_result option" where
  "Test_Main_Loop ex s =
     (case MENU_Main (\<lambda>u. u) (read_switches (switch_actions s)) (clear_log (sim_menu s)) of
        None \<Rightarrow> None
      | Some (resp, m) \<Rightarrow>
          Some (c_bind (exec_calls ex (lcd_log (utils m)) (sim_lcd s)) (\<lambda>d.
            Inr (s\<lparr>sim_menu := m, sim_lcd := d, switch_actions := selection_none\<rparr>))))"

definition Test_Timeouts :: "'d simulator \<Rightarrow> 'd simulator" where
  "Test_Timeouts s =
     (let u = utils (sim_menu s) in
      if show_select_timer u \<noteq> 0
      then s\<lparr>sim_menu := (sim_menu s)\<lparr>utils := u\<lparr>show_select_timer := show_select_timer u - 1\<rparr>\<rparr>\<rparr>
      else s)"

definition dwn_button_function :: "'d simulator \<Rightarrow> 'd simulator" where
  "dwn_button_function s = s\<lparr>switch_actions := selection_dwn\<rparr>"

definition up_button_function :: "'d simulator \<Rightarrow> 'd simulator" where
  "up_button_function s = s\<lparr>switch_actions := selection_up\<rparr>"

definition set_button_function :: "'d simulator \<Rightarrow> 'd simulator" where
  "set_button_function s = s\<lparr>switch_actions := selection_enter\<rparr>"

text \<open>What \<open>main\<close> connects to the loop: the idle function, the two timeouts, the three buttons.\<close>

fun sim_event ::
  "(lcd_call \<Rightarrow> 'd \<Rightarrow> 'd c_result) \<Rightarrow> ('d \<Rightarrow> 'd c_result) \<Rightarrow> event \<Rightarrow> 'd simulator \<Rightarrow> 'd simulator c_result option" where
  "sim_event ex tick Main_Loop_Idle s = Test_Main_Loop ex s"
| "sim_event ex tick Timeouts s = Some (Inr (Test_Timeouts s))"
| "sim_event ex tick Blink_Timeout s = Some (c_bind (tick (sim_lcd s)) (\<lambda>d. Inr (s\<lparr>sim_lcd := d\<rparr>)))"
| "sim_event ex tick Dwn_Button s = Some (Inr (dwn_button_function s))"
| "sim_event ex tick Up_Button s = Some (Inr (up_button_function s))"
| "sim_event ex tick Set_Button s = Some (Inr (set_button_function s))"

inductive sim_reach ::
  "(lcd_call \<Rightarrow> 'd \<Rightarrow> 'd c_result) \<Rightarrow> ('d \<Rightarrow> 'd c_result) \<Rightarrow> 'd simulator \<Rightarrow> 'd simulator \<Rightarrow> bool"
  for ex tick s0 where
  start: "sim_reach ex tick s0 s0"
| event: "sim_reach ex tick s0 s \<Longrightarrow> sim_event ex tick e s = Some (Inr s') \<Longrightarrow> sim_reach ex tick s0 s'"

text \<open>The globals of the program at the start; the configuration is zeroed as well.\<close>

definition no_configuration :: mem_bkp where
  "no_configuration = \<lparr>treatment_time_min = 0, alarms_onoff = 0, ticker_onoff = 0, ticker_time = 0,
     saved_psw = 0, new_psw = 0, operation_mode = 0, dummy1 = 0, dummy2 = 0\<rparr>"

definition menues_globals :: menues where
  "menues_globals = \<lparr>menu_state = MENU_INIT, menu_enc_state = MENU_ENC_INIT, utils = lcd_utils_globals,
     configurations = no_configuration\<rparr>"

definition sim_globals :: "'d \<Rightarrow> 'd simulator" where
  "sim_globals d = \<lparr>sim_menu = menues_globals, switch_actions = selection_none, sim_lcd = d\<rparr>"

text \<open>The one call of the menu that need not return: a wrong password, just confirmed.\<close>

definition wrong_password :: "'d simulator \<Rightarrow> bool" where
  "wrong_password s \<longleftrightarrow>
     (let m = sim_menu s in
      menu_state m = MENU_GET_PASSWORD \<and> show_select_state (utils m) = 9 \<and>
      menu_actions (read_switches (switch_actions s)) = selection_none \<and>
      password_num (utils m) \<noteq> DEFAULT_PASSWORD \<and> password_num (utils m) \<noteq> saved_psw (configurations m))"

lemma menu_hang:
  assumes "MENU_Main tick sw m = None"
  shows "menu_state m = MENU_GET_PASSWORD \<and> show_select_state (utils m) = 9 \<and> menu_actions sw = selection_none \<and>
    password_num (utils m) \<noteq> DEFAULT_PASSWORD \<and> password_num (utils m) \<noteq> saved_psw (configurations m)"
proof -
  obtain r psw u where w: "LCD_Password (cstr ''Ingrese Password'') (menu_actions sw) 0 (utils m) = (r, psw, u)"
    by (cases "LCD_Password (cstr ''Ingrese Password'') (menu_actions sw) 0 (utils m)") auto
  then show ?thesis
    using assms psw_result [OF w]
    by (auto simp: MENU_Main_def menu_get_password_def Let_def simp del: cstr_simps split: menu_state_t.splits if_splits)
qed

section \<open>The simulator over any display\<close>

text \<open>
  The display, extended by the callback that blinks the cursor: it is safe while the cell of the
  cursor and the cell it was last drawn on hold characters, and it changes no text. \<open>last_cell\<close> is
  the cell of the last block; only the callback moves it, to the cell of the cursor.
\<close>

locale lcd_simulator = lcd_driver exec_call ready screen
  for exec_call :: "lcd_call \<Rightarrow> 'd \<Rightarrow> 'd c_result" and ready :: "'d \<Rightarrow> bool" and screen :: "'d \<Rightarrow> text_screen" +
  fixes blink_tick :: "'d \<Rightarrow> 'd c_result"
    and last_cell :: "'d \<Rightarrow> int \<times> int"
  assumes exec_call_last: "ready d \<Longrightarrow> exec_call c d = Inr d' \<Longrightarrow> last_cell d' = last_cell d"
    and blink_tick_safe:
      "ready d \<Longrightarrow>
       (ts_cursor (screen d) \<and> ts_blink (screen d) \<Longrightarrow>
          ts_cell (screen d) (ts_line (screen d)) (ts_col (screen d)) \<noteq> 0 \<and>
          ts_cell (screen d) (fst (last_cell d)) (snd (last_cell d)) \<noteq> 0) \<Longrightarrow>
       \<exists>d'. blink_tick d = Inr d' \<and> ready d' \<and> screen d' = screen d \<and>
         (last_cell d' = last_cell d \<or>
          ts_cursor (screen d) \<and> ts_blink (screen d) \<and> last_cell d' = (ts_line (screen d), ts_col (screen d)))"
begin

text \<open>
  The invariant: the menu's own, the display ready, and the last block on the first cell or on a
  digit of the password line.
\<close>

definition sim_inv :: "'d simulator \<Rightarrow> bool" where
  "sim_inv s \<longleftrightarrow> ready (sim_lcd s) \<and> menu_inv (sim_menu s) (screen (sim_lcd s)) \<and>
     (last_cell (sim_lcd s) = (0, 0) \<or> fst (last_cell (sim_lcd s)) = 1 \<and> 0 \<le> snd (last_cell (sim_lcd s)) \<and> snd (last_cell (sim_lcd s)) < 8)"

lemma exec_calls_last:
  "ready d \<Longrightarrow> calls_fit (screen d) cs \<Longrightarrow> exec_calls exec_call cs d = Inr d' \<Longrightarrow> last_cell d' = last_cell d"
proof (induction cs arbitrary: d)
  case (Cons c cs)
  then obtain d1 where d1: "exec_call c d = Inr d1" "ready d1" "screen d1 = screen_call c (screen d)"
    using exec_call_refines by fastforce
  then have "last_cell d' = last_cell d1" using Cons.prems Cons.IH [of d1] by simp
  then show ?case using exec_call_last [OF Cons.prems(1) d1(1)] by simp
qed simp

lemma blinking_cells:
  assumes "sim_inv s" "ts_cursor (screen (sim_lcd s)) \<and> ts_blink (screen (sim_lcd s))"
  shows "ts_cell (screen (sim_lcd s)) (ts_line (screen (sim_lcd s))) (ts_col (screen (sim_lcd s))) \<noteq> 0 \<and>
    ts_cell (screen (sim_lcd s)) (fst (last_cell (sim_lcd s))) (snd (last_cell (sim_lcd s))) \<noteq> 0 \<and>
    ts_line (screen (sim_lcd s)) = 1 \<and> 0 \<le> ts_col (screen (sim_lcd s)) \<and> ts_col (screen (sim_lcd s)) < 8"
proof -
  let ?u = "utils (sim_menu s)" and ?s = "screen (sim_lcd s)" and ?l = "last_cell (sim_lcd s)"
  have inv: "menu_inv (sim_menu s) ?s" using assms(1) by (simp add: sim_inv_def)
  then have "asks_password (sim_menu s)" using assms(2) by (auto simp: menu_inv_def split: if_splits)
  then have p: "psw_ok ?u" "psw_shown ?u ?s" "show_select_state ?u \<noteq> 0 \<longrightarrow> ts_cell ?s 0 0 \<noteq> 0"
    using inv by (auto simp: menu_inv_def)
  have st: "show_select_state ?u \<in> {2, 3, 6}" "ts_line ?s = 1" "ts_col ?s = uint (blinking_on ?u)"
    using p(2) assms(2) by (auto simp: psw_shown_def)
  then have w: "line_written ?s 1" "ts_cell ?s 0 0 \<noteq> 0" using p(2,3) by (auto simp: psw_shown_def)
  have b: "uint (blinking_on ?u) < 8" using p(1) by (simp add: psw_ok_def)
  have "ts_cell ?s (fst ?l) (snd ?l) \<noteq> 0"
    using assms(1) w by (auto simp: sim_inv_def line_written_def)
  then show ?thesis using st w b by (auto simp: line_written_def)
qed

lemma sim_event_inv:
  assumes "sim_inv s"
  shows "sim_event exec_call blink_tick e s = None \<or>
    (\<exists>s'. sim_event exec_call blink_tick e s = Some (Inr s') \<and> sim_inv s')"
proof (cases e)
  case Main_Loop_Idle
  show ?thesis
  proof (cases "MENU_Main (\<lambda>u. u) (read_switches (switch_actions s)) (clear_log (sim_menu s))")
    case None
    then show ?thesis using Main_Loop_Idle by (simp add: Test_Main_Loop_def)
  next
    case (Some rm)
    then obtain r m where m: "MENU_Main (\<lambda>u. u) (read_switches (switch_actions s)) (clear_log (sim_menu s)) = Some (r, m)"
      by (cases rm) auto
    let ?cs = "lcd_log (utils m)"
    have inv: "menu_inv (sim_menu s) (screen (sim_lcd s))" "ready (sim_lcd s)" using assms by (simp_all add: sim_inv_def)
    have step: "calls_fit (screen (sim_lcd s)) ?cs" "menu_inv m (screen_calls ?cs (screen (sim_lcd s)))"
      using menu_inv_step [OF inv(1) ticks_only_simps(2) m] by auto
    obtain d where d: "exec_calls exec_call ?cs (sim_lcd s) = Inr d" "ready d" "screen d = screen_calls ?cs (screen (sim_lcd s))"
      using exec_calls_refine [OF inv(2) step(1)] by blast
    then show ?thesis
      using m step(2) assms exec_calls_last [OF inv(2) step(1) d(1)] Main_Loop_Idle by (simp add: Test_Main_Loop_def sim_inv_def)
  qed
next
  case Timeouts
  have "sim_inv (Test_Timeouts s)"
    using assms
    by (auto simp: sim_inv_def Test_Timeouts_def Let_def menu_inv_def asks_password_def psw_ok_def psw_shown_def psw_digits_shown_def)
  then show ?thesis using Timeouts by simp
next
  case Blink_Timeout
  have "ready (sim_lcd s)" using assms by (simp add: sim_inv_def)
  then obtain d where "blink_tick (sim_lcd s) = Inr d" "ready d" "screen d = screen (sim_lcd s)"
    "last_cell d = last_cell (sim_lcd s) \<or> ts_cursor (screen (sim_lcd s)) \<and> ts_blink (screen (sim_lcd s)) \<and>
       last_cell d = (ts_line (screen (sim_lcd s)), ts_col (screen (sim_lcd s)))"
    using blink_tick_safe blinking_cells [OF assms] by blast
  then show ?thesis
    using assms blinking_cells [OF assms] Blink_Timeout by (auto simp: sim_inv_def)
qed (use assms in \<open>simp_all add: sim_inv_def dwn_button_function_def up_button_function_def set_button_function_def\<close>)

lemma sim_reach_inv: "sim_reach exec_call blink_tick s0 s \<Longrightarrow> sim_inv s0 \<Longrightarrow> sim_inv s"
proof (induction rule: sim_reach.induct)
  case (event s e s')
  then show ?case using sim_event_inv [of s e] by auto
qed

lemma globals_inv:
  assumes "ready d" "\<not> (ts_cursor (screen d) \<and> ts_blink (screen d))" "last_cell d = (0, 0)"
  shows "sim_inv (sim_globals d)"
  using assms
  by (simp add: sim_inv_def sim_globals_def menues_globals_def menu_inv_def asks_password_def psw_ok_def
      lcd_utils_globals_def decimal_psw_0)

lemma event_returns:
  assumes "ready d" "\<not> (ts_cursor (screen d) \<and> ts_blink (screen d))" "last_cell d = (0, 0)"
    and "sim_reach exec_call blink_tick (sim_globals d) s"
  shows "(\<exists>s'. sim_event exec_call blink_tick e s = Some (Inr s')) \<or>
    sim_event exec_call blink_tick e s = None \<and> e = Main_Loop_Idle \<and> wrong_password s"
proof (cases "sim_event exec_call blink_tick e s")
  case None
  then have e: "e = Main_Loop_Idle" by (cases e) auto
  have "MENU_Main (\<lambda>u. u) (read_switches (switch_actions s)) (clear_log (sim_menu s)) = None"
    using None e by (simp add: Test_Main_Loop_def split: option.splits prod.splits)
  then show ?thesis
    using menu_hang [of "\<lambda>u. u" "read_switches (switch_actions s)" "clear_log (sim_menu s)"] None e
    by (simp add: wrong_password_def Let_def)
next
  case (Some r)
  then show ?thesis using sim_event_inv [OF sim_reach_inv [OF assms(4) globals_inv [OF assms(1-3)]], of e] by auto
qed

end

end
