(* ===== verification/Simulators.thy ===== *)
theory Simulators
  imports Main_Loop
begin

text \<open>
  The two simulator programs as instances of \<open>lcd_simulator\<close>: what the calls of each display keep, the
  safety of its cursor callback, the interpretations, and the properties of the whole programs.
\<close>

section \<open>What every call of a display keeps\<close>

text \<open>A line of the text memory holds characters of the table or zeros.\<close>

definition chars_ok :: "u8 list \<Rightarrow> bool" where
  "chars_ok row \<longleftrightarrow> (\<forall>b \<in> set row. b = 0 \<or> printable b)"

lemma chars_ok_set: "chars_ok row \<Longrightarrow> b = 0 \<or> printable b \<Longrightarrow> chars_ok (row[i := b])"
  using set_update_subset_insert [of row i b] by (auto simp: chars_ok_def)

section \<open>The 4x20 display\<close>

text \<open>The text memory holds characters, and the last block is where it was.\<close>

definition keeps4 :: "int \<Rightarrow> int \<Rightarrow> lcd4 \<Rightarrow> bool" where
  "keeps4 l c d \<longleftrightarrow> (\<forall>row \<in> set (ddram d). chars_ok row) \<and> blink_last_index_line d = l \<and> blink_last_index_cursor d = c"

lemma keeps4_simps [simp]:
  "keeps4 l c (d\<lparr>pix := p\<rparr>) = keeps4 l c d" "keeps4 l c (d\<lparr>lcd_cursor := x\<rparr>) = keeps4 l c d"
  "keeps4 l c (d\<lparr>lcd_line := x\<rparr>) = keeps4 l c d" "keeps4 l c (d\<lparr>cursor := x\<rparr>) = keeps4 l c d"
  "keeps4 l c (d\<lparr>blink := x\<rparr>) = keeps4 l c d"
  by (simp_all add: keeps4_def)

lemma keeps4_ddram_set:
  assumes "ddram_set d i j b = Inr d'" "keeps4 l c d" "b = 0 \<or> printable b"
  shows "keeps4 l c d'"
proof -
  obtain row where row: "0 \<le> i" "i < int (length (ddram d))" "row = ddram d ! nat i"
    "d' = d\<lparr>ddram := (ddram d)[nat i := row[nat j := b]]\<rparr>"
    using assms(1) by (auto simp: ddram_set_def c_bind_Inr arr_get_Inr arr_set_Inr)
  have "row \<in> set (ddram d)" using row by (simp add: nat_less_iff)
  then have "chars_ok (row[nat j := b])" using assms(2,3) chars_ok_set by (auto simp: keeps4_def)
  then show ?thesis
    using assms(2) row(4) set_update_subset_insert [of "ddram d" "nat i" "row[nat j := b]"] by (auto simp: keeps4_def)
qed

lemma keeps4_show_char:
  "show_char b d = Inr d' \<Longrightarrow> printable b \<Longrightarrow> keeps4 l c d \<Longrightarrow> keeps4 l c d'"
  using keeps4_ddram_set by (fastforce simp: show_char_def c_bind_Inr Let_def split: if_splits)

lemma keeps4_transmit: "Lcd_TransmitStr str d = Inr d' \<Longrightarrow> keeps4 l c d \<Longrightarrow> keeps4 l c d'"
proof (induction str arbitrary: d)
  case (Cons b str)
  then show ?case
    using keeps4_show_char by (fastforce simp: c_bind_Inr printable_def [symmetric] split: if_splits)
qed simp

lemma keeps4_senddata: "Lcd_senddata b d = Inr d' \<Longrightarrow> keeps4 l c d \<Longrightarrow> keeps4 l c d'"
  using keeps4_show_char
  by (fastforce simp: Lcd_senddata_def c_bind_Inr printable_uint LAST_SYMBOL_IN_CGROM_def split: if_splits)

lemma keeps4_redraw: "redraw_surface d = Inr d' \<Longrightarrow> keeps4 l c d \<Longrightarrow> keeps4 l c d'"
  by (auto simp: redraw_surface_def c_bind_Inr)

lemma keeps4_clear: "clear_ddram d = Inr d' \<Longrightarrow> keeps4 l c d \<Longrightarrow> keeps4 l c d'"
  unfolding clear_ddram_def
  by (erule for_loop_preserve, assumption, erule for_loop_preserve, assumption) (auto intro: keeps4_ddram_set)

lemma keeps4_setddram: "keeps4 l c (Lcd_SetDDRAM a d) = keeps4 l c d"
  by (simp add: Lcd_SetDDRAM_def Let_def)

lemma keeps4_command: "Lcd_Command b d = Inr d' \<Longrightarrow> keeps4 l c d \<Longrightarrow> keeps4 l c d'"
  by (auto simp: Lcd_Command_def c_bind_Inr Let_def keeps4_setddram split: if_splits
      dest!: keeps4_redraw [of _ _ l c] keeps4_clear [of _ _ l c])

lemma keeps4_call: "exec_call4 a d = Inr d' \<Longrightarrow> keeps4 l c d \<Longrightarrow> keeps4 l c d'"
  by (cases a) (auto simp: keeps4_setddram Lcd_SetCGRAM_def dest: keeps4_transmit keeps4_senddata keeps4_command)

definition ready_chars4 :: "lcd4 \<Rightarrow> bool" where
  "ready_chars4 d \<longleftrightarrow> ready4 d \<and> (\<forall>row \<in> set (ddram d). chars_ok row)"

definition last_cell4 :: "lcd4 \<Rightarrow> int \<times> int" where
  "last_cell4 d = (blink_last_index_line d, blink_last_index_cursor d)"

lemma keeps4_refl: "ready_chars4 d \<Longrightarrow> keeps4 (blink_last_index_line d) (blink_last_index_cursor d) d"
  by (simp add: ready_chars4_def keeps4_def)

text \<open>Redrawing a cell of the text screen that holds a character.\<close>

lemma redraw_char4:
  assumes "ready_chars4 d" "cell4 d r c \<noteq> 0" "ready4 (d\<lparr>pix := p\<rparr>)"
  shows "\<exists>p'. c_bind (ddram_get d r c) (\<lambda>b. draw_lcd_patch_from_cgrom p r c (uint b - 32)) = Inr p' \<and> ready4 (d\<lparr>pix := p'\<rparr>)"
proof -
  have rc: "0 \<le> r" "r < 2" "0 \<le> c" "c < 16" and nz: "ddram d ! nat r ! nat c \<noteq> 0"
    using assms(2) by (auto simp: cell4_def on_screen_def split: if_splits)
  have r: "ready4 d" using assms(1) by (simp add: ready_chars4_def)
  have "nat r < 4" using rc by simp
  then have "ddram d ! nat r \<in> set (ddram d)" "length (ddram d ! nat r) = 20" using r by (simp_all add: ready4_def)
  moreover from this have "ddram d ! nat r ! nat c \<in> set (ddram d ! nat r)" using rc by (simp add: nat_less_iff)
  ultimately have "printable (ddram d ! nat r ! nat c)" using assms(1) nz by (auto simp: ready_chars4_def chars_ok_def)
  then have k: "0 \<le> uint (ddram d ! nat r ! nat c) - 32" by (simp add: printable_uint)
  have s: "surface_ok4 p" using assms(3) by (simp add: ready4_def)
  obtain p' where "draw_lcd_patch_from_cgrom p r c (uint (ddram d ! nat r ! nat c) - 32) = Inr p'" "same_format p p'"
    using draw_cell_ok [OF s rc(1,3) k] by blast
  then show ?thesis
    using rc r ready4_pix [OF assms(3), of p'] by (simp add: ddram_get_ok)
qed

lemma blink_tick4_safe:
  assumes r: "ready_chars4 d"
    and cells: "cursor d \<noteq> 0 \<and> blink d \<noteq> 0 \<Longrightarrow> cell4 d (lcd_line d) (lcd_cursor d) \<noteq> 0 \<and>
       cell4 d (blink_last_index_line d) (blink_last_index_cursor d) \<noteq> 0"
  shows "\<exists>d'. Lcd_Timeout_Callback d = Inr d' \<and> ready_chars4 d' \<and> screen4 d' = screen4 d \<and>
    (last_cell4 d' = last_cell4 d \<or> cursor d \<noteq> 0 \<and> blink d \<noteq> 0 \<and> last_cell4 d' = (lcd_line d, lcd_cursor d))"
proof (cases "blinking d")
  case False
  then show ?thesis using r tick_off [OF False] by blast
next
  case True
  then have c: "cell4 d (lcd_line d) (lcd_cursor d) \<noteq> 0" "cell4 d (blink_last_index_line d) (blink_last_index_cursor d) \<noteq> 0"
    and on: "on_display (lcd_line d) (lcd_cursor d)"
    using cells by (auto simp: blinking_def cell4_def on_screen_def on_display_def split: if_splits)
  have r4: "ready4 d" using r by (simp add: ready_chars4_def)
  have restore: "\<exists>p. restore_old_cell (lcd_line d) (lcd_cursor d) (d\<lparr>blink_was_on := v\<rparr>) = Inr (d\<lparr>blink_was_on := v, pix := p\<rparr>) \<and>
      ready4 (d\<lparr>pix := p\<rparr>)" for v
  proof (cases "(blink_last_index_line d, blink_last_index_cursor d) = (lcd_line d, lcd_cursor d)")
    case True
    then show ?thesis using r4 by (intro exI [of _ "pix d"]) (simp add: restore_old_cell_def)
  next
    case False
    obtain p where p: "c_bind (ddram_get d (blink_last_index_line d) (blink_last_index_cursor d)) (\<lambda>b.
        draw_lcd_patch_from_cgrom (pix d) (blink_last_index_line d) (blink_last_index_cursor d) (uint b - 32)) = Inr p"
      "ready4 (d\<lparr>pix := p\<rparr>)"
      using redraw_char4 [OF r c(2), of "pix d"] r4 by auto
    then show ?thesis
      using restore_old_cell_moved [of "d\<lparr>blink_was_on := v\<rparr>" "lcd_line d" "lcd_cursor d"] False
      by (intro exI [of _ p]) (simp add: ddram_get_def)
  qed
  have same: "screen4 (d\<lparr>blink_was_on := v, pix := p\<rparr>) = screen4 d"
    "screen4 (d\<lparr>blink_was_on := v, pix := p, blink_last_index_cursor := x, blink_last_index_line := y\<rparr>) = screen4 d"
    "ready4 (d\<lparr>pix := p\<rparr>) \<Longrightarrow> ready_chars4 (d\<lparr>blink_was_on := v, pix := p\<rparr>)"
    "ready4 (d\<lparr>pix := p\<rparr>) \<Longrightarrow> ready_chars4 (d\<lparr>blink_was_on := v, pix := p, blink_last_index_cursor := x, blink_last_index_line := y\<rparr>)"
    for v p x y
    using r by (simp_all add: screen4_def cell4_def fun_eq_iff ready_chars4_def ready4_def)
  show ?thesis
  proof (cases "blink_was_on d = 0")
    case False
    obtain p where p: "restore_old_cell (lcd_line d) (lcd_cursor d) (d\<lparr>blink_was_on := 0\<rparr>) = Inr (d\<lparr>blink_was_on := 0, pix := p\<rparr>)"
      "ready4 (d\<lparr>pix := p\<rparr>)" using restore by blast
    obtain q where q: "c_bind (ddram_get d (lcd_line d) (lcd_cursor d)) (\<lambda>b.
        draw_lcd_patch_from_cgrom p (lcd_line d) (lcd_cursor d) (uint b - 32)) = Inr q" "ready4 (d\<lparr>pix := q\<rparr>)"
      using redraw_char4 [OF r c(1) p(2)] by blast
    have "Lcd_Timeout_Callback d = Inr (d\<lparr>blink_was_on := 0, pix := q\<rparr>)"
      using callback_redraws [OF True False on] p(1) q(1) by (simp add: ddram_get_def)
    then show ?thesis using same(1,3) q(2) by (simp add: last_cell4_def)
  next
    case off: True
    obtain p where p: "restore_old_cell (lcd_line d) (lcd_cursor d) (d\<lparr>blink_was_on := 1\<rparr>) = Inr (d\<lparr>blink_was_on := 1, pix := p\<rparr>)"
      "ready4 (d\<lparr>pix := p\<rparr>)" using restore by blast
    have s: "surface_ok4 p" using p(2) by (simp add: ready4_def)
    obtain q where q: "draw_lcd_patch p (54 + lcd_cursor d * 21) (72 + 34 * lcd_line d) rgb_fill = Inr q" "same_format p q"
      using draw_lcd_patch_painted [of p "54 + lcd_cursor d * 21" "72 + 34 * lcd_line d" rgb_fill] s on painted_format
      unfolding surface_ok4_def on_display_def by fastforce
    let ?d = "d\<lparr>blink_was_on := 1, pix := q, blink_last_index_cursor := lcd_cursor d, blink_last_index_line := lcd_line d\<rparr>"
    have "Lcd_Timeout_Callback d = Inr ?d"
      using True off on p(1) q(1)
      by (simp add: Lcd_Timeout_Callback_def Let_def blinking_def on_display_def cell_position)
    moreover have "ready4 (d\<lparr>pix := q\<rparr>)" using ready4_pix [OF p(2), of q] q(2) by simp
    ultimately show ?thesis using same(2,4) True by (auto simp: last_cell4_def blinking_def)
  qed
qed

interpretation sim4: lcd_simulator exec_call4 ready_chars4 screen4 Lcd_Timeout_Callback last_cell4
proof unfold_locales
  fix d c
  assume r: "ready_chars4 d" and f: "call_fits (screen4 d) c"
  then obtain d' where d': "exec_call4 c d = Inr d'" "ready4 d'" "screen4 d' = screen_call c (screen4 d)"
    using lcd4.exec_call_refines [of d c] by (auto simp: ready_chars4_def)
  then show "\<exists>d'. exec_call4 c d = Inr d' \<and> ready_chars4 d' \<and> screen4 d' = screen_call c (screen4 d)"
    using keeps4_call [OF d'(1) keeps4_refl [OF r]] by (auto simp: ready_chars4_def keeps4_def)
next
  fix d c d'
  assume r: "ready_chars4 d" and e: "exec_call4 c d = Inr d'"
  show "last_cell4 d' = last_cell4 d"
    using keeps4_call [OF e keeps4_refl [OF r]] by (simp add: keeps4_def last_cell4_def)
next
  fix d
  assume "ready_chars4 d" "ts_cursor (screen4 d) \<and> ts_blink (screen4 d) \<Longrightarrow>
      ts_cell (screen4 d) (ts_line (screen4 d)) (ts_col (screen4 d)) \<noteq> 0 \<and>
      ts_cell (screen4 d) (fst (last_cell4 d)) (snd (last_cell4 d)) \<noteq> 0"
  then show "\<exists>d'. Lcd_Timeout_Callback d = Inr d' \<and> ready_chars4 d' \<and> screen4 d' = screen4 d \<and>
      (last_cell4 d' = last_cell4 d \<or> ts_cursor (screen4 d) \<and> ts_blink (screen4 d) \<and>
       last_cell4 d' = (ts_line (screen4 d), ts_col (screen4 d)))"
    using blink_tick4_safe [of d] by (simp add: screen4_def last_cell4_def)
qed

section \<open>The 2x16 display\<close>

definition chars2 :: "lcd2 \<Rightarrow> bool" where
  "chars2 d \<longleftrightarrow> chars_ok (ddram_l1 d) \<and> chars_ok (ddram_l2 d)"

definition keeps2 :: "int \<Rightarrow> int \<Rightarrow> lcd2 \<Rightarrow> bool" where
  "keeps2 l c d \<longleftrightarrow> chars2 d \<and> blink_last_index_line d = l \<and> blink_last_index_cursor d = c"

lemma keeps2_simps [simp]:
  "keeps2 l c (d\<lparr>pix := p\<rparr>) = keeps2 l c d" "keeps2 l c (d\<lparr>lcd_cursor := x\<rparr>) = keeps2 l c d"
  "keeps2 l c (d\<lparr>lcd_line := x\<rparr>) = keeps2 l c d" "keeps2 l c (d\<lparr>cursor := x\<rparr>) = keeps2 l c d"
  "keeps2 l c (d\<lparr>blink := x\<rparr>) = keeps2 l c d"
  by (simp_all add: keeps2_def chars2_def)

lemma keeps2_show_char:
  "show_char_2x16 b d = Inr d' \<Longrightarrow> printable b \<Longrightarrow> keeps2 l c d \<Longrightarrow> keeps2 l c d'"
  by (auto simp: show_char_2x16_def c_bind_Inr arr_set_Inr keeps2_def chars2_def split: if_splits intro: chars_ok_set)

lemma keeps2_transmit: "Lcd_TransmitStr_2x16 str d = Inr d' \<Longrightarrow> keeps2 l c d \<Longrightarrow> keeps2 l c d'"
proof (induction str arbitrary: d)
  case (Cons b str)
  then show ?case
    using keeps2_show_char by (fastforce simp: c_bind_Inr printable_def [symmetric] split: if_splits)
qed simp

lemma keeps2_senddata: "Lcd_senddata_2x16 b d = Inr d' \<Longrightarrow> keeps2 l c d \<Longrightarrow> keeps2 l c d'"
  using keeps2_show_char
  by (fastforce simp: Lcd_senddata_2x16_def c_bind_Inr printable_uint LAST_SYMBOL_IN_CGROM_def split: if_splits)

lemma keeps2_redraw: "redraw_surface_2x16 d = Inr d' \<Longrightarrow> keeps2 l c d \<Longrightarrow> keeps2 l c d'"
  by (auto simp: redraw_surface_2x16_def c_bind_Inr)

lemma keeps2_clear: "clear_ddram_2x16 d = Inr d' \<Longrightarrow> keeps2 l c d \<Longrightarrow> keeps2 l c d'"
  unfolding clear_ddram_2x16_def
  by (erule for_loop_preserve, assumption)
    (auto simp: c_bind_Inr arr_set_Inr keeps2_def chars2_def intro: chars_ok_set)

lemma keeps2_setddram: "keeps2 l c (Lcd_SetDDRAM_2x16 a d) = keeps2 l c d"
  by (simp add: Lcd_SetDDRAM_2x16_def Let_def)

lemma keeps2_command: "Lcd_Command_2x16 b d = Inr d' \<Longrightarrow> keeps2 l c d \<Longrightarrow> keeps2 l c d'"
  by (auto simp: Lcd_Command_2x16_def c_bind_Inr Let_def keeps2_setddram split: if_splits
      dest!: keeps2_redraw [of _ _ l c] keeps2_clear [of _ _ l c])

lemma keeps2_call: "exec_call2 a d = Inr d' \<Longrightarrow> keeps2 l c d \<Longrightarrow> keeps2 l c d'"
  by (cases a) (auto simp: keeps2_setddram Lcd_SetCGRAM_2x16_def dest: keeps2_transmit keeps2_senddata keeps2_command)

definition ready_chars2 :: "lcd2 \<Rightarrow> bool" where
  "ready_chars2 d \<longleftrightarrow> ready2 d \<and> chars2 d"

definition last_cell2 :: "lcd2 \<Rightarrow> int \<times> int" where
  "last_cell2 d = (blink_last_index_line d, blink_last_index_cursor d)"

lemma keeps2_refl: "ready_chars2 d \<Longrightarrow> keeps2 (blink_last_index_line d) (blink_last_index_cursor d) d"
  by (simp add: ready_chars2_def keeps2_def)

lemma redraw_char2:
  assumes "ready_chars2 d" "cell2 d r c \<noteq> 0"
  shows "\<exists>p. redraw_cell_2x16 r c d = Inr (d\<lparr>pix := p\<rparr>) \<and> same_format (pix d) p"
proof -
  have rc: "r = 0 \<or> r = 1" "0 \<le> c" "c < 16" and nz: "(if r = 0 then ddram_l1 d else ddram_l2 d) ! nat c \<noteq> 0"
    using assms(2) by (auto simp: cell2_def on_screen_def split: if_splits)
  let ?row = "if r = 0 then ddram_l1 d else ddram_l2 d"
  have r: "ready2 d" "chars_ok ?row" using assms(1) by (simp_all add: ready_chars2_def chars2_def)
  then have l: "length ?row = 16" by (simp add: ready2_def)
  then have "?row ! nat c \<in> set ?row" using rc by (intro nth_mem) (simp add: nat_less_iff)
  then have "printable (?row ! nat c)" using r(2) nz by (auto simp: chars_ok_def)
  then have k: "0 \<le> uint (?row ! nat c) - 32" "uint (?row ! nat c) - 32 \<le> 95" by (simp_all add: printable_uint)
  have s: "surface_ok2 (pix d)" using r by (simp add: ready2_def)
  have g: "arr_get ?row c = Inr (?row ! nat c)" using l rc by (simp add: arr_get_def)
  obtain p where "draw_lcd_patch_from_cgrom_2x16 (pix d) r c (uint (?row ! nat c) - 32) = Inr p" "same_format (pix d) p"
    using draw_cell_ok2 [OF s rc(1,2) k] by blast
  moreover have "(if r = 0 then 0 else r) = r" by simp
  ultimately show ?thesis unfolding redraw_cell_2x16_def g by auto
qed

lemma blink_tick2_safe:
  assumes r: "ready_chars2 d"
    and cells: "cursor d \<noteq> 0 \<and> blink d \<noteq> 0 \<Longrightarrow> cell2 d (lcd_line d) (lcd_cursor d) \<noteq> 0 \<and>
       cell2 d (blink_last_index_line d) (blink_last_index_cursor d) \<noteq> 0"
  shows "\<exists>d'. Lcd_Timeout_Callback_2x16 d = Inr d' \<and> ready_chars2 d' \<and> screen2 d' = screen2 d \<and>
    (last_cell2 d' = last_cell2 d \<or> cursor d \<noteq> 0 \<and> blink d \<noteq> 0 \<and> last_cell2 d' = (lcd_line d, lcd_cursor d))"
proof (cases "cursor d \<noteq> 0 \<and> blink d \<noteq> 0")
  case False
  then show ?thesis using r by (auto simp: Lcd_Timeout_Callback_2x16_def)
next
  case True
  then have c: "cell2 d (lcd_line d) (lcd_cursor d) \<noteq> 0" "cell2 d (blink_last_index_line d) (blink_last_index_cursor d) \<noteq> 0"
    using cells by blast+
  then have rc: "lcd_line d = 0 \<or> lcd_line d = 1" "0 \<le> lcd_cursor d" "lcd_cursor d \<le> 15"
    and last: "(if blink_last_index_line d = 0 then 0 else 1) = blink_last_index_line d"
    by (auto simp: cell2_def on_screen_def split: if_splits)
  have upd: "ready_chars2 (e\<lparr>blink_was_on := v\<rparr>) = ready_chars2 e" "screen2 (e\<lparr>blink_was_on := v\<rparr>) = screen2 e"
    "same_format (pix e) p \<Longrightarrow> ready_chars2 e \<Longrightarrow> ready_chars2 (e\<lparr>pix := p\<rparr>)"
    "ready_chars2 (e\<lparr>blink_last_index_cursor := x, blink_last_index_line := y\<rparr>) = ready_chars2 e"
    "screen2 (e\<lparr>blink_last_index_cursor := x, blink_last_index_line := y\<rparr>) = screen2 e"
    "cell2 (e\<lparr>blink_was_on := v\<rparr>) = cell2 e" "cell2 (e\<lparr>pix := p\<rparr>) = cell2 e" for e p v x y
    using ready2_pix [of e p] by (auto simp: ready_chars2_def chars2_def ready2_def screen2_def cell2_def fun_eq_iff)
  have restore: "\<exists>p. restore_old_cell_2x16 (lcd_line d) (lcd_cursor d) (d\<lparr>blink_was_on := v\<rparr>) =
      Inr (d\<lparr>blink_was_on := v, pix := p\<rparr>) \<and> same_format (pix d) p" for v
  proof (cases "blink_last_index_cursor d \<noteq> lcd_cursor d \<or> blink_last_index_line d \<noteq> lcd_line d")
    case True
    then show ?thesis
      using redraw_char2 [of "d\<lparr>blink_was_on := v\<rparr>" "blink_last_index_line d" "blink_last_index_cursor d"] r c(2)
      by (simp add: restore_old_cell_2x16_def last upd)
  qed (auto simp: restore_old_cell_2x16_def intro: exI [of _ "pix d"])
  show ?thesis
  proof (cases "blink_was_on d = 0")
    case False
    obtain p where p: "restore_old_cell_2x16 (lcd_line d) (lcd_cursor d) (d\<lparr>blink_was_on := 0\<rparr>) =
      Inr (d\<lparr>blink_was_on := 0, pix := p\<rparr>)" "same_format (pix d) p" using restore by blast
    let ?d = "d\<lparr>blink_was_on := 0, pix := p\<rparr>"
    have "ready_chars2 ?d" using upd(3) [of "d\<lparr>blink_was_on := 0\<rparr>"] upd(1) r p(2) by simp
    then obtain q where q: "redraw_cell_2x16 (lcd_line d) (lcd_cursor d) ?d = Inr (?d\<lparr>pix := q\<rparr>)" "ready_chars2 (?d\<lparr>pix := q\<rparr>)"
      using redraw_char2 [of ?d "lcd_line d" "lcd_cursor d"] c(1) upd(3) [of ?d] by (auto simp: upd)
    have "Lcd_Timeout_Callback_2x16 d = Inr (?d\<lparr>pix := q\<rparr>)"
      using True False rc p(1) q(1) by (auto simp: Lcd_Timeout_Callback_2x16_def Let_def)
    then show ?thesis using q(2) by (simp add: last_cell2_def upd)
  next
    case off: True
    obtain p where p: "restore_old_cell_2x16 (lcd_line d) (lcd_cursor d) (d\<lparr>blink_was_on := 1\<rparr>) =
      Inr (d\<lparr>blink_was_on := 1, pix := p\<rparr>)" "same_format (pix d) p" using restore by blast
    let ?d = "d\<lparr>blink_was_on := 1, pix := p\<rparr>" and ?y = "if lcd_line d = 0 then 74 else 108"
    have rd: "ready_chars2 ?d" using upd(3) [of "d\<lparr>blink_was_on := 1\<rparr>"] upd(1) r p(2) by simp
    then have s: "surface_ok2 p" by (simp add: ready_chars2_def ready2_def)
    obtain q where q: "draw_lcd_patch p (70 + lcd_cursor d * 21) ?y rgb_fill = Inr q" "same_format p q"
      using draw_lcd_patch_painted [of p "70 + lcd_cursor d * 21" ?y rgb_fill] s rc painted_format
      unfolding surface_ok2_def by fastforce
    let ?e = "?d\<lparr>pix := q, blink_last_index_cursor := lcd_cursor d, blink_last_index_line := lcd_line d\<rparr>"
    have "Lcd_Timeout_Callback_2x16 d = Inr ?e"
      using True off rc p(1) q(1) by (auto simp: Lcd_Timeout_Callback_2x16_def Let_def get_lcd_patch_position_2x16_def)
    moreover have "ready_chars2 ?e" using upd(3) [of ?d q] rd q(2) by (simp add: upd)
    ultimately show ?thesis using True by (simp add: last_cell2_def upd)
  qed
qed

interpretation sim2: lcd_simulator exec_call2 ready_chars2 screen2 Lcd_Timeout_Callback_2x16 last_cell2
proof unfold_locales
  fix d c
  assume r: "ready_chars2 d" and f: "call_fits (screen2 d) c"
  then obtain d' where d': "exec_call2 c d = Inr d'" "ready2 d'" "screen2 d' = screen_call c (screen2 d)"
    using lcd2.exec_call_refines [of d c] by (auto simp: ready_chars2_def)
  then show "\<exists>d'. exec_call2 c d = Inr d' \<and> ready_chars2 d' \<and> screen2 d' = screen_call c (screen2 d)"
    using keeps2_call [OF d'(1) keeps2_refl [OF r]] by (auto simp: ready_chars2_def keeps2_def)
next
  fix d c d'
  assume r: "ready_chars2 d" and e: "exec_call2 c d = Inr d'"
  show "last_cell2 d' = last_cell2 d"
    using keeps2_call [OF e keeps2_refl [OF r]] by (simp add: keeps2_def last_cell2_def)
next
  fix d
  assume "ready_chars2 d" "ts_cursor (screen2 d) \<and> ts_blink (screen2 d) \<Longrightarrow>
      ts_cell (screen2 d) (ts_line (screen2 d)) (ts_col (screen2 d)) \<noteq> 0 \<and>
      ts_cell (screen2 d) (fst (last_cell2 d)) (snd (last_cell2 d)) \<noteq> 0"
  then show "\<exists>d'. Lcd_Timeout_Callback_2x16 d = Inr d' \<and> ready_chars2 d' \<and> screen2 d' = screen2 d \<and>
      (last_cell2 d' = last_cell2 d \<or> ts_cursor (screen2 d) \<and> ts_blink (screen2 d) \<and>
       last_cell2 d' = (ts_line (screen2 d), ts_col (screen2 d)))"
    using blink_tick2_safe [of d] by (simp add: screen2_def last_cell2_def)
qed

section \<open>The programs at their start\<close>

lemma init_chars4:
  assumes "surface_ok4 p" "init_surface (Some p) = Inr (Some p')"
  shows "ready_chars4 (lcd4_globals p')" "last_cell4 (lcd4_globals p') = (0, 0)"
    "\<not> (ts_cursor (screen4 (lcd4_globals p')) \<and> ts_blink (screen4 (lcd4_globals p')))"
  using init_good [OF assms(1)] assms(2)
  by (auto simp: good4_def ready_chars4_def chars_ok_def lcd4_globals_def last_cell4_def)

lemma init_chars2:
  assumes "surface_ok2 p"
  shows "\<exists>p'. init_surface_2x16 (Some p) = Inr (Some p') \<and> surface_ok2 p'"
proof -
  have e: "pix (lcd2_globals p) = p" by (simp add: lcd2_globals_def)
  then obtain p' where p': "redraw_surface_2x16 (lcd2_globals p) = Inr (lcd2_globals p\<lparr>pix := p'\<rparr>)" "same_format p p'"
    using redraw_surface_ok2 [of "lcd2_globals p"] assms by auto
  have "init_surface_2x16 (Some p) = Inr (Some p')"
    using p'(1) unfolding redraw_surface_2x16_def init_surface_2x16_def e
    by (auto simp: lcd2_globals_def elim!: c_bind_InrE)
  then show ?thesis using assms p'(2) surface_ok2_format by auto
qed

lemma globals2:
  "surface_ok2 p \<Longrightarrow> ready_chars2 (lcd2_globals p)" "last_cell2 (lcd2_globals p) = (0, 0)"
  "\<not> (ts_cursor (screen2 (lcd2_globals p)) \<and> ts_blink (screen2 (lcd2_globals p)))"
  using lcd2_globals_ready by (auto simp: ready_chars2_def chars2_def chars_ok_def lcd2_globals_def last_cell2_def)

section \<open>Properties\<close>

text \<open>C8: The whole 4x20 program is memory safe and live but for one place: whatever sequence of main-loop
  calls, timer and blink timeouts and buttons led to a state, each next event returns without touching memory outside
  the image, the table and the text memory, except that the main loop may not return on a wrong password.\<close>

theorem program_4x20_safe:
  assumes "surface_ok4 p" "init_surface (Some p) = Inr (Some p')"
    and "sim_reach exec_call4 Lcd_Timeout_Callback (sim_globals (lcd4_globals p')) s"
  shows "(\<exists>s'. sim_event exec_call4 Lcd_Timeout_Callback e s = Some (Inr s')) \<or>
    sim_event exec_call4 Lcd_Timeout_Callback e s = None \<and> e = Main_Loop_Idle \<and> wrong_password s"
  by (rule sim4.event_returns [OF init_chars4(1) [OF assms(1,2)] init_chars4(3,2) [OF assms(1,2)] assms(3)])

theorem program_4x20_safe_witness:
  "\<exists>p'. init_surface (Some blank_image) = Inr (Some p') \<and>
     (\<exists>s. sim_event exec_call4 Lcd_Timeout_Callback Set_Button (sim_globals (lcd4_globals p')) = Some (Inr s))"
proof -
  obtain p' where p': "init_surface (Some blank_image) = Inr (Some p')"
    using init_good [OF blank_image_ok] by blast
  have "(\<exists>s. sim_event exec_call4 Lcd_Timeout_Callback Set_Button (sim_globals (lcd4_globals p')) = Some (Inr s)) \<or>
     sim_event exec_call4 Lcd_Timeout_Callback Set_Button (sim_globals (lcd4_globals p')) = None \<and>
     Set_Button = Main_Loop_Idle \<and> wrong_password (sim_globals (lcd4_globals p'))"
    by (rule program_4x20_safe [OF blank_image_ok p' sim_reach.start])
  then show ?thesis using p' by blast
qed

text \<open>C9: The whole 2x16 program is memory safe although its display writes past the column unchecked:
  from every state its events can lead to, each next event returns without a memory error, except that the main
  loop may not return on a wrong password; the menu never sends a text that runs past the sixteenth cell.\<close>

theorem program_2x16_safe:
  assumes "surface_ok2 p"
    and "sim_reach exec_call2 Lcd_Timeout_Callback_2x16 (sim_globals (lcd2_globals p)) s"
  shows "(\<exists>s'. sim_event exec_call2 Lcd_Timeout_Callback_2x16 e s = Some (Inr s')) \<or>
    sim_event exec_call2 Lcd_Timeout_Callback_2x16 e s = None \<and> e = Main_Loop_Idle \<and> wrong_password s"
  by (rule sim2.event_returns [OF globals2(1) [OF assms(1)] globals2(3,2) assms(2)])

theorem program_2x16_safe_witness:
  "\<exists>p s. init_surface_2x16 (Some blank_image_2x16) = Inr (Some p) \<and>
     sim_event exec_call2 Lcd_Timeout_Callback_2x16 Timeouts (sim_globals (lcd2_globals p)) = Some (Inr s)"
proof -
  obtain p where p: "init_surface_2x16 (Some blank_image_2x16) = Inr (Some p)" "surface_ok2 p"
    using init_chars2 [OF blank_image_2x16_ok] by blast
  have "(\<exists>s. sim_event exec_call2 Lcd_Timeout_Callback_2x16 Timeouts (sim_globals (lcd2_globals p)) = Some (Inr s)) \<or>
     sim_event exec_call2 Lcd_Timeout_Callback_2x16 Timeouts (sim_globals (lcd2_globals p)) = None \<and>
     Timeouts = Main_Loop_Idle \<and> wrong_password (sim_globals (lcd2_globals p))"
    by (rule program_2x16_safe [OF p(2) sim_reach.start])
  then show ?thesis using p(1) by blast
qed

end
