(* ===== verification/Csv_Parse.thy ===== *)
theory Csv_Parse
  imports C_Prelude
begin

text \<open>
  The CSV library of the call records, \<open>test_csv3/libcsv.c\<close>: the parser, a state machine over bytes
  that collects a field in a growing buffer and hands it to the callbacks, its memory, and the writers.
  \<open>size_t\<close> values are integers; the invariant shows that none of them wraps.
\<close>

section \<open>The parser object\<close>

datatype csv_pstate = ROW_NOT_BEGUN | FIELD_NOT_BEGUN | FIELD_BEGUN | FIELD_MIGHT_HAVE_ENDED

record csv_parser =
  pstate :: csv_pstate
  quoted :: bool
  spaces :: int
  entry_buf :: "u8 list option"
  entry_pos :: int
  entry_size :: int
  status :: int
  options :: u8
  quote_char :: u8
  delim_char :: u8
  is_space :: "(u8 \<Rightarrow> bool) option"
  is_term :: "(u8 \<Rightarrow> bool) option"
  blk_size :: int
  realloc_func :: "u8 list option \<Rightarrow> int \<Rightarrow> u8 list option"

abbreviation (input) CSV_EPARSE :: int where "CSV_EPARSE \<equiv> 1"
abbreviation (input) CSV_ENOMEM :: int where "CSV_ENOMEM \<equiv> 2"
abbreviation (input) CSV_ETOOBIG :: int where "CSV_ETOOBIG \<equiv> 3"
abbreviation (input) CSV_STRICT :: u8 where "CSV_STRICT \<equiv> 1"
abbreviation (input) CSV_REPALL_NL :: u8 where "CSV_REPALL_NL \<equiv> 2"
abbreviation (input) CSV_STRICT_FINI :: u8 where "CSV_STRICT_FINI \<equiv> 4"
abbreviation (input) CSV_APPEND_NULL :: u8 where "CSV_APPEND_NULL \<equiv> 8"
abbreviation (input) CSV_EMPTY_IS_NULL :: u8 where "CSV_EMPTY_IS_NULL \<equiv> 16"
abbreviation (input) CSV_TAB :: u8 where "CSV_TAB \<equiv> 0x09"
abbreviation (input) CSV_SPACE :: u8 where "CSV_SPACE \<equiv> 0x20"
abbreviation (input) CSV_CR :: u8 where "CSV_CR \<equiv> 0x0d"
abbreviation (input) CSV_LF :: u8 where "CSV_LF \<equiv> 0x0a"
abbreviation (input) CSV_COMMA :: u8 where "CSV_COMMA \<equiv> 0x2c"
abbreviation (input) CSV_QUOTE :: u8 where "CSV_QUOTE \<equiv> 0x22"
abbreviation (input) MEM_BLK_SIZE :: int where "MEM_BLK_SIZE \<equiv> 128"
abbreviation (input) SIZE_MAX :: int where "SIZE_MAX \<equiv> 0xffffffffffffffff"

definition opt :: "csv_parser \<Rightarrow> u8 \<Rightarrow> bool" where
  "opt p flag \<longleftrightarrow> options p AND flag \<noteq> 0"

text \<open>The \<open>realloc\<close> of the standard library is the argument of \<open>csv_init\<close>: NULL or a block of the size asked for.\<close>

definition csv_init :: "(u8 list option \<Rightarrow> int \<Rightarrow> u8 list option) \<Rightarrow> u8 \<Rightarrow> csv_parser" where
  "csv_init realloc opts = \<lparr>pstate = ROW_NOT_BEGUN, quoted = False, spaces = 0, entry_buf = None, entry_pos = 0,
     entry_size = 0, status = 0, options = opts, quote_char = CSV_QUOTE, delim_char = CSV_COMMA,
     is_space = None, is_term = None, blk_size = MEM_BLK_SIZE, realloc_func = realloc\<rparr>"

definition csv_free :: "csv_parser \<Rightarrow> csv_parser" where
  "csv_free p = p\<lparr>entry_buf := None, entry_size := 0\<rparr>"

definition csv_error :: "csv_parser \<Rightarrow> int" where
  "csv_error p = status p"

definition csv_set_opts :: "u8 \<Rightarrow> csv_parser \<Rightarrow> csv_parser" where
  "csv_set_opts opts p = p\<lparr>options := opts\<rparr>"

definition csv_set_delim :: "u8 \<Rightarrow> csv_parser \<Rightarrow> csv_parser" where
  "csv_set_delim c p = p\<lparr>delim_char := c\<rparr>"

definition csv_set_quote :: "u8 \<Rightarrow> csv_parser \<Rightarrow> csv_parser" where
  "csv_set_quote c p = p\<lparr>quote_char := c\<rparr>"

text \<open>\<open>csv_set_realloc_func\<close> ignores NULL. What \<open>csv_free\<close> does with the block is not part of the state.\<close>

definition csv_set_space_func :: "(u8 \<Rightarrow> bool) option \<Rightarrow> csv_parser \<Rightarrow> csv_parser" where
  "csv_set_space_func f p = p\<lparr>is_space := f\<rparr>"

definition csv_set_term_func :: "(u8 \<Rightarrow> bool) option \<Rightarrow> csv_parser \<Rightarrow> csv_parser" where
  "csv_set_term_func f p = p\<lparr>is_term := f\<rparr>"

definition csv_set_realloc_func :: "(u8 list option \<Rightarrow> int \<Rightarrow> u8 list option) option \<Rightarrow> csv_parser \<Rightarrow> csv_parser" where
  "csv_set_realloc_func f p = (case f of None \<Rightarrow> p | Some f \<Rightarrow> p\<lparr>realloc_func := f\<rparr>)"

definition csv_set_blk_size :: "int \<Rightarrow> csv_parser \<Rightarrow> csv_parser" where
  "csv_set_blk_size n p = p\<lparr>blk_size := n\<rparr>"

definition csv_get_opts :: "csv_parser \<Rightarrow> int" where
  "csv_get_opts p = uint (options p)"

definition csv_get_delim :: "csv_parser \<Rightarrow> u8" where
  "csv_get_delim p = delim_char p"

definition csv_get_quote :: "csv_parser \<Rightarrow> u8" where
  "csv_get_quote p = quote_char p"

definition csv_get_buffer_size :: "csv_parser \<Rightarrow> int" where
  "csv_get_buffer_size p = entry_size p"

section \<open>Memory\<close>

text \<open>The increment that \<open>realloc\<close> grants: the one asked for, halved until it is granted.\<close>

function try_realloc ::
  "(u8 list option \<Rightarrow> int \<Rightarrow> u8 list option) \<Rightarrow> u8 list option \<Rightarrow> int \<Rightarrow> int \<Rightarrow> (u8 list \<times> int) option" where
  "try_realloc f buf sz to_add =
     (case f buf (sz + to_add) of
        Some vp \<Rightarrow> Some (vp, to_add)
      | None \<Rightarrow> if to_add div 2 \<le> 0 then None else try_realloc f buf sz (to_add div 2))"
  by pat_completeness auto
termination
  by (relation "measure (\<lambda>(_, _, _, to_add). nat to_add)") auto

declare try_realloc.simps [simp del]

definition increment :: "csv_parser \<Rightarrow> int" where
  "increment p = (if entry_size p \<ge> SIZE_MAX - blk_size p then SIZE_MAX - entry_size p else blk_size p)"

definition csv_increase_buffer :: "csv_parser \<Rightarrow> int \<times> csv_parser" where
  "csv_increase_buffer p =
     (let to_add = increment p in
      if to_add = 0 then (-1, p\<lparr>status := CSV_ETOOBIG\<rparr>)
      else case try_realloc (realloc_func p) (entry_buf p) (entry_size p) to_add of
             None \<Rightarrow> (-1, p\<lparr>status := CSV_ENOMEM\<rparr>)
           | Some (vp, to_add) \<Rightarrow> (0, p\<lparr>entry_buf := Some vp, entry_size := entry_size p + to_add\<rparr>))"

definition buf_set :: "csv_parser \<Rightarrow> int \<Rightarrow> u8 \<Rightarrow> csv_parser c_result" where
  "buf_set p i c =
     (case entry_buf p of
        None \<Rightarrow> Inl Out_Of_Bounds
      | Some b \<Rightarrow> c_bind (arr_set b i c) (\<lambda>b. Inr (p\<lparr>entry_buf := Some b\<rparr>)))"

text \<open>What a callback gets: the buffer and the length of the field, or NULL.\<close>

definition buf_field :: "csv_parser \<Rightarrow> u8 list option c_result" where
  "buf_field p =
     (case entry_buf p of
        None \<Rightarrow> Inr None
      | Some b \<Rightarrow> if 0 \<le> entry_pos p \<and> entry_pos p \<le> int (length b)
                  then Inr (Some (take (nat (entry_pos p)) b)) else Inl Out_Of_Bounds)"

section \<open>Parsing\<close>

text \<open>
  The callbacks act on a state of the caller, the \<open>data\<close> pointer, and may fault. The fields of the
  parser that \<open>csv_parse\<close> keeps in local variables are written back on every return, so the model
  works on the object itself.
\<close>

definition SUBMIT_FIELD ::
  "(u8 list option \<Rightarrow> 'd \<Rightarrow> 'd c_result) \<Rightarrow> csv_parser \<Rightarrow> 'd \<Rightarrow> (csv_parser \<times> 'd) c_result" where
  "SUBMIT_FIELD cb1 p d =
     (let p = (if \<not> quoted p then p\<lparr>entry_pos := entry_pos p - spaces p\<rparr> else p) in
      c_bind (if opt p CSV_APPEND_NULL then buf_set p (entry_pos p) 0 else Inr p) (\<lambda>p.
      c_bind (if opt p CSV_EMPTY_IS_NULL \<and> \<not> quoted p \<and> entry_pos p = 0 then cb1 None d
              else c_bind (buf_field p) (\<lambda>f. cb1 f d)) (\<lambda>d.
      Inr (p\<lparr>pstate := FIELD_NOT_BEGUN, entry_pos := 0, quoted := False, spaces := 0\<rparr>, d))))"

definition SUBMIT_ROW ::
  "(int \<Rightarrow> 'd \<Rightarrow> 'd c_result) \<Rightarrow> int \<Rightarrow> csv_parser \<Rightarrow> 'd \<Rightarrow> (csv_parser \<times> 'd) c_result" where
  "SUBMIT_ROW cb2 c p d =
     c_bind (cb2 c d) (\<lambda>d.
     Inr (p\<lparr>pstate := ROW_NOT_BEGUN, entry_pos := 0, quoted := False, spaces := 0\<rparr>, d))"

definition SUBMIT_CHAR :: "u8 \<Rightarrow> csv_parser \<Rightarrow> csv_parser c_result" where
  "SUBMIT_CHAR c p = c_bind (buf_set p (entry_pos p) c) (\<lambda>p. Inr (p\<lparr>entry_pos := entry_pos p + 1\<rparr>))"

definition space_char :: "csv_parser \<Rightarrow> u8 \<Rightarrow> bool" where
  "space_char p c \<longleftrightarrow> (case is_space p of Some f \<Rightarrow> f c | None \<Rightarrow> c = CSV_SPACE \<or> c = CSV_TAB)"

definition term_char :: "csv_parser \<Rightarrow> u8 \<Rightarrow> bool" where
  "term_char p c \<longleftrightarrow> (case is_term p of Some f \<Rightarrow> f c | None \<Rightarrow> c = CSV_CR \<or> c = CSV_LF)"

text \<open>One byte is accepted, or refused in strict mode: the flag of the result.\<close>

definition accept :: "(csv_parser \<times> 'd) c_result \<Rightarrow> (bool \<times> csv_parser \<times> 'd) c_result" where
  "accept r = c_bind r (\<lambda>s. Inr (True, s))"

definition accept_char :: "csv_parser c_result \<Rightarrow> 'd \<Rightarrow> (bool \<times> csv_parser \<times> 'd) c_result" where
  "accept_char r d = c_bind r (\<lambda>p. Inr (True, p, d))"

definition refuse :: "csv_parser \<Rightarrow> 'd \<Rightarrow> (bool \<times> csv_parser \<times> 'd) c_result" where
  "refuse p d = Inr (False, p\<lparr>status := CSV_EPARSE\<rparr>, d)"

definition submit_field_row ::
  "(u8 list option \<Rightarrow> 'd \<Rightarrow> 'd c_result) \<Rightarrow> (int \<Rightarrow> 'd \<Rightarrow> 'd c_result) \<Rightarrow> int \<Rightarrow> csv_parser \<Rightarrow> 'd \<Rightarrow>
   (csv_parser \<times> 'd) c_result" where
  "submit_field_row cb1 cb2 c p d = c_bind (SUBMIT_FIELD cb1 p d) (\<lambda>(p, d). SUBMIT_ROW cb2 c p d)"

definition parse_not_begun ::
  "(u8 list option \<Rightarrow> 'd \<Rightarrow> 'd c_result) \<Rightarrow> (int \<Rightarrow> 'd \<Rightarrow> 'd c_result) \<Rightarrow> u8 \<Rightarrow> csv_parser \<Rightarrow> 'd \<Rightarrow>
   (bool \<times> csv_parser \<times> 'd) c_result" where
  "parse_not_begun cb1 cb2 c p d =
     (if space_char p c \<and> c \<noteq> delim_char p then Inr (True, p, d)
      else if term_char p c then
        if pstate p = FIELD_NOT_BEGUN then accept (submit_field_row cb1 cb2 (uint c) p d)
        else if opt p CSV_REPALL_NL then accept (SUBMIT_ROW cb2 (uint c) p d) else Inr (True, p, d)
      else if c = delim_char p then accept (SUBMIT_FIELD cb1 p d)
      else if c = quote_char p then Inr (True, p\<lparr>pstate := FIELD_BEGUN, quoted := True\<rparr>, d)
      else accept_char (SUBMIT_CHAR c (p\<lparr>pstate := FIELD_BEGUN, quoted := False\<rparr>)) d)"

definition parse_begun ::
  "(u8 list option \<Rightarrow> 'd \<Rightarrow> 'd c_result) \<Rightarrow> (int \<Rightarrow> 'd \<Rightarrow> 'd c_result) \<Rightarrow> u8 \<Rightarrow> csv_parser \<Rightarrow> 'd \<Rightarrow>
   (bool \<times> csv_parser \<times> 'd) c_result" where
  "parse_begun cb1 cb2 c p d =
     (if c = quote_char p then
        if quoted p then
          accept_char (c_bind (SUBMIT_CHAR c p) (\<lambda>p. Inr (p\<lparr>pstate := FIELD_MIGHT_HAVE_ENDED\<rparr>))) d
        else if opt p CSV_STRICT then refuse p d
        else accept_char (c_bind (SUBMIT_CHAR c p) (\<lambda>p. Inr (p\<lparr>spaces := 0\<rparr>))) d
      else if c = delim_char p then
        if quoted p then accept_char (SUBMIT_CHAR c p) d else accept (SUBMIT_FIELD cb1 p d)
      else if term_char p c then
        if \<not> quoted p then accept (submit_field_row cb1 cb2 (uint c) p d) else accept_char (SUBMIT_CHAR c p) d
      else if \<not> quoted p \<and> space_char p c then
        accept_char (c_bind (SUBMIT_CHAR c p) (\<lambda>p. Inr (p\<lparr>spaces := spaces p + 1\<rparr>))) d
      else accept_char (c_bind (SUBMIT_CHAR c p) (\<lambda>p. Inr (p\<lparr>spaces := 0\<rparr>))) d)"

definition parse_might_have_ended ::
  "(u8 list option \<Rightarrow> 'd \<Rightarrow> 'd c_result) \<Rightarrow> (int \<Rightarrow> 'd \<Rightarrow> 'd c_result) \<Rightarrow> u8 \<Rightarrow> csv_parser \<Rightarrow> 'd \<Rightarrow>
   (bool \<times> csv_parser \<times> 'd) c_result" where
  "parse_might_have_ended cb1 cb2 c p d =
     (if c = delim_char p then
        accept (SUBMIT_FIELD cb1 (p\<lparr>entry_pos := entry_pos p - (spaces p + 1)\<rparr>) d)
      else if term_char p c then
        accept (submit_field_row cb1 cb2 (uint c) (p\<lparr>entry_pos := entry_pos p - (spaces p + 1)\<rparr>) d)
      else if space_char p c then
        accept_char (c_bind (SUBMIT_CHAR c p) (\<lambda>p. Inr (p\<lparr>spaces := spaces p + 1\<rparr>))) d
      else if c = quote_char p then
        if spaces p \<noteq> 0 then
          if opt p CSV_STRICT then refuse p d else accept_char (SUBMIT_CHAR c (p\<lparr>spaces := 0\<rparr>)) d
        else Inr (True, p\<lparr>pstate := FIELD_BEGUN\<rparr>, d)
      else if opt p CSV_STRICT then refuse p d
      else accept_char (SUBMIT_CHAR c (p\<lparr>pstate := FIELD_BEGUN, spaces := 0\<rparr>)) d)"

definition parse_byte ::
  "(u8 list option \<Rightarrow> 'd \<Rightarrow> 'd c_result) \<Rightarrow> (int \<Rightarrow> 'd \<Rightarrow> 'd c_result) \<Rightarrow> u8 \<Rightarrow> csv_parser \<Rightarrow> 'd \<Rightarrow>
   (bool \<times> csv_parser \<times> 'd) c_result" where
  "parse_byte cb1 cb2 c p d =
     (case pstate p of
        ROW_NOT_BEGUN \<Rightarrow> parse_not_begun cb1 cb2 c p d
      | FIELD_NOT_BEGUN \<Rightarrow> parse_not_begun cb1 cb2 c p d
      | FIELD_BEGUN \<Rightarrow> parse_begun cb1 cb2 c p d
      | FIELD_MIGHT_HAVE_ENDED \<Rightarrow> parse_might_have_ended cb1 cb2 c p d)"

text \<open>The test before each byte: grow the buffer when it is full. And the loop over the bytes.\<close>

definition csv_room :: "csv_parser \<Rightarrow> int \<times> csv_parser" where
  "csv_room p =
     (if entry_pos p = (if opt p CSV_APPEND_NULL then entry_size p - 1 else entry_size p)
      then csv_increase_buffer p else (0, p))"

fun csv_loop ::
  "(u8 list option \<Rightarrow> 'd \<Rightarrow> 'd c_result) \<Rightarrow> (int \<Rightarrow> 'd \<Rightarrow> 'd c_result) \<Rightarrow> int \<Rightarrow> u8 list \<Rightarrow> csv_parser \<Rightarrow> 'd \<Rightarrow>
   (int \<times> csv_parser \<times> 'd) c_result" where
  "csv_loop cb1 cb2 pos [] p d = Inr (pos, p, d)"
| "csv_loop cb1 cb2 pos (c # us) p d =
     (case csv_room p of (r, p) \<Rightarrow>
        if r \<noteq> 0 then Inr (pos, p, d)
        else c_bind (parse_byte cb1 cb2 c p d) (\<lambda>(ok, p, d).
               if ok then csv_loop cb1 cb2 (pos + 1) us p d else Inr (pos, p, d)))"

definition csv_parse ::
  "(u8 list option \<Rightarrow> 'd \<Rightarrow> 'd c_result) \<Rightarrow> (int \<Rightarrow> 'd \<Rightarrow> 'd c_result) \<Rightarrow> u8 list \<Rightarrow> csv_parser \<Rightarrow> 'd \<Rightarrow>
   (int \<times> csv_parser \<times> 'd) c_result" where
  "csv_parse cb1 cb2 us p d =
     (case (if entry_buf p = None \<and> us \<noteq> [] then csv_increase_buffer p else (0, p)) of (r, p) \<Rightarrow>
        if r \<noteq> 0 then Inr (0, p, d) else csv_loop cb1 cb2 0 us p d)"

definition csv_fini ::
  "(u8 list option \<Rightarrow> 'd \<Rightarrow> 'd c_result) \<Rightarrow> (int \<Rightarrow> 'd \<Rightarrow> 'd c_result) \<Rightarrow> csv_parser \<Rightarrow> 'd \<Rightarrow>
   (int \<times> csv_parser \<times> 'd) c_result" where
  "csv_fini cb1 cb2 p d =
     (if pstate p = FIELD_BEGUN \<and> quoted p \<and> opt p CSV_STRICT \<and> opt p CSV_STRICT_FINI
      then Inr (-1, p\<lparr>status := CSV_EPARSE\<rparr>, d)
      else
        let reset = (\<lambda>p. p\<lparr>spaces := 0, quoted := False, entry_pos := 0, status := 0, pstate := ROW_NOT_BEGUN\<rparr>);
            p = (if pstate p = FIELD_MIGHT_HAVE_ENDED then p\<lparr>entry_pos := entry_pos p - (spaces p + 1)\<rparr> else p)
        in if pstate p = ROW_NOT_BEGUN then Inr (0, reset p, d)
           else c_bind (submit_field_row cb1 cb2 (-1) p d) (\<lambda>(p, d). Inr (0, reset p, d)))"

section \<open>Well-formed parsers\<close>

text \<open>
  What the standard promises of \<open>realloc\<close>: a block has the size asked for and keeps the old contents.
\<close>

definition realloc_ok :: "(u8 list option \<Rightarrow> int \<Rightarrow> u8 list option) \<Rightarrow> bool" where
  "realloc_ok f \<longleftrightarrow> (\<forall>b n v. 0 < n \<longrightarrow> f b n = Some v \<longrightarrow> int (length v) = n \<and>
     (\<forall>old. b = Some old \<longrightarrow> int (length old) \<le> n \<longrightarrow> take (length old) v = old))"

definition limit :: "csv_parser \<Rightarrow> int" where
  "limit p = (if opt p CSV_APPEND_NULL then entry_size p - 1 else entry_size p)"

definition config_ok :: "csv_parser \<Rightarrow> bool" where
  "config_ok p \<longleftrightarrow> realloc_ok (realloc_func p) \<and> 0 \<le> blk_size p"

text \<open>
  The invariant: the recorded size is the size of the block and fits \<open>size_t\<close>; the trailing spaces, and
  the closing quote, are part of the field read so far, which fits the block; between fields there is none.
\<close>

definition csv_inv :: "csv_parser \<Rightarrow> bool" where
  "csv_inv p \<longleftrightarrow> config_ok p \<and> 0 \<le> spaces p \<and> spaces p \<le> entry_pos p \<and>
     (case entry_buf p of
        None \<Rightarrow> pstate p = ROW_NOT_BEGUN \<and> entry_size p = 0 \<and> entry_pos p = 0
      | Some b \<Rightarrow> int (length b) = entry_size p \<and> 0 < entry_size p \<and> entry_size p \<le> SIZE_MAX \<and> entry_pos p \<le> limit p) \<and>
     (case pstate p of
        ROW_NOT_BEGUN \<Rightarrow> entry_pos p = 0 \<and> \<not> quoted p
      | FIELD_NOT_BEGUN \<Rightarrow> entry_pos p = 0 \<and> \<not> quoted p
      | FIELD_BEGUN \<Rightarrow> quoted p \<longrightarrow> spaces p = 0
      | FIELD_MIGHT_HAVE_ENDED \<Rightarrow> quoted p \<and> spaces p + 1 \<le> entry_pos p)"

definition field_read :: "csv_parser \<Rightarrow> u8 list" where
  "field_read p = (case entry_buf p of None \<Rightarrow> [] | Some b \<Rightarrow> take (nat (entry_pos p)) b)"

definition same_config :: "csv_parser \<Rightarrow> csv_parser \<Rightarrow> bool" where
  "same_config p q \<longleftrightarrow> options q = options p \<and> quote_char q = quote_char p \<and> delim_char q = delim_char p \<and>
     is_space q = is_space p \<and> is_term q = is_term p \<and> blk_size q = blk_size p \<and> realloc_func q = realloc_func p"

lemma same_config_refl [simp]: "same_config p p"
  by (simp add: same_config_def)

lemma same_config_trans: "same_config p q \<Longrightarrow> same_config q r \<Longrightarrow> same_config p r"
  by (simp add: same_config_def)

lemma init_inv: "realloc_ok f \<Longrightarrow> csv_inv (csv_init f opts)"
  by (simp add: csv_inv_def csv_init_def config_ok_def)

section \<open>Growing the buffer\<close>

lemma try_realloc_Some:
  "try_realloc f b sz n = Some (v, a) \<Longrightarrow> 0 < n \<Longrightarrow> 0 < a \<and> a \<le> n \<and> f b (sz + a) = Some v"
proof (induction f b sz n rule: try_realloc.induct)
  case (1 f b sz n)
  show ?case
  proof (cases "f b (sz + n)")
    case (Some w)
    then show ?thesis using "1.prems" by (subst (asm) try_realloc.simps) simp
  next
    case None
    then have h: "\<not> n div 2 \<le> 0" "try_realloc f b sz (n div 2) = Some (v, a)"
      using "1.prems" by (subst (asm) try_realloc.simps, simp split: if_splits)+
    then show ?thesis using "1.IH" [OF None h(1) h(2)] by linarith
  qed
qed

lemma try_realloc_None: "try_realloc f b sz n = None \<Longrightarrow> f b (sz + n) = None"
  by (subst (asm) try_realloc.simps) (simp split: option.splits)

definition grown :: "csv_parser \<Rightarrow> csv_parser \<Rightarrow> bool" where
  "grown p q \<longleftrightarrow> (\<exists>b n. q = p\<lparr>entry_buf := Some b, entry_size := n\<rparr>) \<and> csv_inv q \<and> entry_size p < entry_size q \<and>
     field_read q = field_read p"

lemma increase_cases:
  assumes "csv_inv p" "csv_increase_buffer p = (r, q)"
  shows "r = 0 \<and> grown p q \<or> r = -1 \<and> (\<exists>s \<in> {CSV_ENOMEM, CSV_ETOOBIG}. q = p\<lparr>status := s\<rparr>)"
proof -
  let ?n = "increment p"
  show ?thesis
  proof (cases "?n = 0 \<or> try_realloc (realloc_func p) (entry_buf p) (entry_size p) ?n = None")
    case True
    then show ?thesis using assms(2) by (auto simp: csv_increase_buffer_def Let_def split: if_splits)
  next
    case False
    then obtain v a where v: "try_realloc (realloc_func p) (entry_buf p) (entry_size p) ?n = Some (v, a)" by fastforce
    have b: "0 \<le> blk_size p" "entry_size p \<le> SIZE_MAX" "0 \<le> entry_size p"
      and fit: "case entry_buf p of None \<Rightarrow> entry_pos p = 0 \<and> entry_size p = 0 | Some b \<Rightarrow> int (length b) = entry_size p \<and> entry_pos p \<le> limit p"
      using assms(1) by (auto simp: csv_inv_def config_ok_def split: option.splits)
    have n: "0 < ?n" "?n \<le> SIZE_MAX - entry_size p" using False b by (auto simp: increment_def split: if_splits)
    have a: "0 < a" "a \<le> ?n" "realloc_func p (entry_buf p) (entry_size p + a) = Some v"
      using try_realloc_Some [OF v n(1)] by auto
    have "realloc_ok (realloc_func p)" using assms(1) by (simp add: csv_inv_def config_ok_def)
    then have ok: "int (length v) = entry_size p + a"
      "\<forall>old. entry_buf p = Some old \<longrightarrow> int (length old) \<le> entry_size p + a \<longrightarrow> take (length old) v = old"
      using a b unfolding realloc_ok_def by (metis add_nonneg_pos)+
    then have l: "int (length v) = entry_size p + a" "\<And>old. entry_buf p = Some old \<Longrightarrow> take (length old) v = old"
      using a(1) fit by auto
    let ?q = "p\<lparr>entry_buf := Some v, entry_size := entry_size p + a\<rparr>"
    have q: "r = 0" "q = ?q" using assms(2) v False by (auto simp: csv_increase_buffer_def Let_def)
    have "csv_inv ?q"
      using assms(1) l(1) a n fit b by (auto simp: csv_inv_def config_ok_def limit_def opt_def split: option.splits csv_pstate.splits)
    moreover have "field_read ?q = field_read p"
    proof (cases "entry_buf p")
      case None
      then show ?thesis using fit by (simp add: field_read_def)
    next
      case (Some old)
      then have "nat (entry_pos p) \<le> length old" using fit by (auto simp: limit_def split: if_splits)
      then have "take (nat (entry_pos p)) v = take (nat (entry_pos p)) (take (length old) v)" by simp
      then show ?thesis using l(2) [OF Some] Some by (simp add: field_read_def)
    qed
    ultimately show ?thesis using q a by (auto simp: grown_def)
  qed
qed

section \<open>The parser without memory\<close>

text \<open>
  What the parser does, said without a buffer: the state is the state of the machine, whether the field
  is quoted, the number of trailing spaces and the field read so far; a byte yields the fields and row
  ends to report and the next state, or is refused.
\<close>

datatype csv_event = Field "u8 list option" | Row int

type_synonym csv_abs = "csv_pstate \<times> bool \<times> nat \<times> u8 list"

definition spec_field :: "csv_parser \<Rightarrow> bool \<Rightarrow> nat \<Rightarrow> u8 list \<Rightarrow> csv_event" where
  "spec_field p q sp f =
     Field (let g = (if q then f else take (length f - sp) f)
            in if opt p CSV_EMPTY_IS_NULL \<and> \<not> q \<and> g = [] then None else Some g)"

definition spec_byte :: "csv_parser \<Rightarrow> u8 \<Rightarrow> csv_abs \<Rightarrow> (csv_event list \<times> csv_abs) option" where
  "spec_byte p c = (\<lambda>(st, q, sp, f).
     let row = (ROW_NOT_BEGUN, False, 0, []); next = (FIELD_NOT_BEGUN, False, 0, []);
         closed = Field (Some (take (length f - (sp + 1)) f)) in
     case st of
       FIELD_BEGUN \<Rightarrow>
         if c = quote_char p then
           if q then Some ([], FIELD_MIGHT_HAVE_ENDED, q, sp, f @ [c])
           else if opt p CSV_STRICT then None else Some ([], st, q, 0, f @ [c])
         else if c = delim_char p then
           if q then Some ([], st, q, sp, f @ [c]) else Some ([spec_field p q sp f], next)
         else if term_char p c then
           if q then Some ([], st, q, sp, f @ [c]) else Some ([spec_field p q sp f, Row (uint c)], row)
         else Some ([], st, q, if \<not> q \<and> space_char p c then sp + 1 else 0, f @ [c])
     | FIELD_MIGHT_HAVE_ENDED \<Rightarrow>
         if c = delim_char p then Some ([closed], next)
         else if term_char p c then Some ([closed, Row (uint c)], row)
         else if space_char p c then Some ([], st, q, sp + 1, f @ [c])
         else if c = quote_char p then
           if sp = 0 then Some ([], FIELD_BEGUN, q, sp, f)
           else if opt p CSV_STRICT then None else Some ([], st, q, 0, f @ [c])
         else if opt p CSV_STRICT then None else Some ([], FIELD_BEGUN, q, 0, f @ [c])
     | _ \<Rightarrow>
         if space_char p c \<and> c \<noteq> delim_char p then Some ([], st, q, sp, f)
         else if term_char p c then
           if st = FIELD_NOT_BEGUN then Some ([spec_field p q sp f, Row (uint c)], row)
           else Some (if opt p CSV_REPALL_NL then [Row (uint c)] else [], row)
         else if c = delim_char p then Some ([spec_field p q sp f], next)
         else if c = quote_char p then Some ([], FIELD_BEGUN, True, sp, f)
         else Some ([], FIELD_BEGUN, False, sp, f @ [c]))"

definition abs_of :: "csv_parser \<Rightarrow> csv_abs" where
  "abs_of p = (pstate p, quoted p, nat (spaces p), field_read p)"

fun run_event ::
  "(u8 list option \<Rightarrow> 'd \<Rightarrow> 'd c_result) \<Rightarrow> (int \<Rightarrow> 'd \<Rightarrow> 'd c_result) \<Rightarrow> csv_event \<Rightarrow> 'd \<Rightarrow> 'd c_result" where
  "run_event cb1 cb2 (Field f) d = cb1 f d"
| "run_event cb1 cb2 (Row c) d = cb2 c d"

fun run_events ::
  "(u8 list option \<Rightarrow> 'd \<Rightarrow> 'd c_result) \<Rightarrow> (int \<Rightarrow> 'd \<Rightarrow> 'd c_result) \<Rightarrow> csv_event list \<Rightarrow> 'd \<Rightarrow> 'd c_result" where
  "run_events cb1 cb2 [] d = Inr d"
| "run_events cb1 cb2 (e # es) d = c_bind (run_event cb1 cb2 e d) (run_events cb1 cb2 es)"

lemma run_events_append:
  "run_events cb1 cb2 (es @ fs) d = c_bind (run_events cb1 cb2 es d) (run_events cb1 cb2 fs)"
proof (induction es arbitrary: d)
  case (Cons e es)
  then show ?case by (cases "run_event cb1 cb2 e d") simp_all
qed simp

section \<open>Each byte refines its specification\<close>

text \<open>A parser with room for one more byte.\<close>

definition has_room :: "csv_parser \<Rightarrow> bool" where
  "has_room p \<longleftrightarrow> csv_inv p \<and> entry_buf p \<noteq> None \<and> entry_pos p < limit p"

lemma limit_le: "limit p \<le> entry_size p"
  by (simp add: limit_def)

lemma room_buf:
  assumes "has_room p"
  obtains b where "entry_buf p = Some b" "int (length b) = entry_size p" "0 \<le> entry_pos p" "entry_pos p < entry_size p"
    "0 \<le> spaces p" "spaces p \<le> entry_pos p" "field_read p = take (nat (entry_pos p)) b" "entry_size p \<le> SIZE_MAX"
    "config_ok p"
  using assms limit_le [of p] by (fastforce simp: has_room_def csv_inv_def field_read_def split: option.splits)

lemma room_field: "has_room p \<Longrightarrow> length (field_read p) = nat (entry_pos p)"
  by (erule room_buf) simp

text \<open>Storing one byte, with any new state and count of spaces.\<close>

definition pushed :: "u8 \<Rightarrow> csv_parser \<Rightarrow> csv_parser" where
  "pushed c p = p\<lparr>entry_buf := Some ((the (entry_buf p))[nat (entry_pos p) := c]), entry_pos := entry_pos p + 1\<rparr>"

lemma SUBMIT_CHAR_ok:
  assumes "has_room p"
  shows "SUBMIT_CHAR c p = Inr (pushed c p)"
    "SUBMIT_CHAR c (p\<lparr>pstate := st, quoted := q\<rparr>) = Inr ((pushed c p)\<lparr>pstate := st, quoted := q\<rparr>)"
    "SUBMIT_CHAR c (p\<lparr>spaces := n\<rparr>) = Inr ((pushed c p)\<lparr>spaces := n\<rparr>)"
    "SUBMIT_CHAR c (p\<lparr>pstate := st, spaces := n\<rparr>) = Inr ((pushed c p)\<lparr>pstate := st, spaces := n\<rparr>)"
  by (rule room_buf [OF assms], simp add: SUBMIT_CHAR_def buf_set_def pushed_def)+

lemma pushed_sel [simp]:
  "pstate (pushed c p) = pstate p" "quoted (pushed c p) = quoted p" "spaces (pushed c p) = spaces p"
  "entry_size (pushed c p) = entry_size p" "entry_pos (pushed c p) = entry_pos p + 1" "entry_buf (pushed c p) \<noteq> None"
  "same_config p (pushed c p)"
  by (simp_all add: pushed_def same_config_def)

lemma pushed_inv:
  assumes "has_room p" "0 \<le> n" "n \<le> entry_pos p + 1"
    and "st = FIELD_BEGUN \<and> (q \<longrightarrow> n = 0) \<or> st = FIELD_MIGHT_HAVE_ENDED \<and> q \<and> n \<le> entry_pos p"
  shows "csv_inv ((pushed c p)\<lparr>pstate := st, quoted := q, spaces := n\<rparr>)"
    "abs_of ((pushed c p)\<lparr>pstate := st, quoted := q, spaces := n\<rparr>) = (st, q, nat n, field_read p @ [c])"
proof -
  obtain b where b: "entry_buf p = Some b" "int (length b) = entry_size p" "0 \<le> entry_pos p" "entry_pos p < entry_size p"
    "0 \<le> spaces p" "spaces p \<le> entry_pos p" "field_read p = take (nat (entry_pos p)) b" "entry_size p \<le> SIZE_MAX"
    "config_ok p" by (rule room_buf [OF assms(1)])
  have l: "entry_pos p < limit p" using assms(1) by (simp add: has_room_def)
  then show "csv_inv ((pushed c p)\<lparr>pstate := st, quoted := q, spaces := n\<rparr>)"
    using assms b by (auto simp: csv_inv_def pushed_def limit_def opt_def config_ok_def)
  have "nat (entry_pos p + 1) = Suc (nat (entry_pos p))" "nat (entry_pos p) < length b" using b by linarith+
  then show "abs_of ((pushed c p)\<lparr>pstate := st, quoted := q, spaces := n\<rparr>) = (st, q, nat n, field_read p @ [c])"
    using b by (simp add: abs_of_def field_read_def pushed_def take_Suc_conv_app_nth)
qed

text \<open>Handing a field over, cut to its first \<open>m\<close> bytes, and ending a row.\<close>

definition between :: "csv_parser \<Rightarrow> csv_parser \<Rightarrow> csv_pstate \<Rightarrow> bool" where
  "between p p' st \<longleftrightarrow> csv_inv p' \<and> same_config p p' \<and> entry_buf p' \<noteq> None \<and> entry_size p' = entry_size p \<and>
     entry_pos p' = 0 \<and> abs_of p' = (st, False, 0, [])"

lemma SUBMIT_FIELD_ok:
  assumes "csv_inv p" "entry_buf p \<noteq> None" "0 \<le> m" "m \<le> entry_pos p" "\<not> quoted p \<Longrightarrow> spaces p \<le> m"
  shows "\<exists>p'. between p p' FIELD_NOT_BEGUN \<and> (\<forall>d. SUBMIT_FIELD cb1 (p\<lparr>entry_pos := m\<rparr>) d =
    c_bind (run_event cb1 cb2 (spec_field p (quoted p) (nat (spaces p)) (take (nat m) (field_read p))) d) (\<lambda>d. Inr (p', d)))"
proof -
  obtain b where b: "entry_buf p = Some b" "int (length b) = entry_size p" "0 \<le> entry_pos p" "entry_pos p \<le> limit p"
    "0 \<le> spaces p" "spaces p \<le> entry_pos p" "field_read p = take (nat (entry_pos p)) b" "entry_size p \<le> SIZE_MAX"
    "config_ok p" "entry_pos p \<le> entry_size p"
    using assms(1,2) limit_le [of p] by (fastforce simp: csv_inv_def field_read_def)
  let ?k = "if quoted p then m else m - spaces p"
  let ?b = "if opt p CSV_APPEND_NULL then b[nat ?k := 0] else b"
  let ?p = "p\<lparr>entry_buf := Some ?b, pstate := FIELD_NOT_BEGUN, entry_pos := 0, quoted := False, spaces := 0\<rparr>"
  have k: "0 \<le> ?k" "?k \<le> entry_size p" "opt p CSV_APPEND_NULL \<Longrightarrow> ?k < entry_size p" "?k \<le> entry_pos p"
    using assms b by (auto simp: limit_def)
  have cut: "take (nat ?k) ?b = (if quoted p then take (nat m) (field_read p)
      else take (length (take (nat m) (field_read p)) - nat (spaces p)) (take (nat m) (field_read p)))"
  proof -
    have lf: "length (take (nat m) (field_read p)) = nat m" using b assms by auto
    show ?thesis unfolding lf using b assms k by (auto simp: min_def nat_diff_distrib)
  qed
  have "between p ?p FIELD_NOT_BEGUN"
    using b assms(1) by (auto simp: between_def same_config_def abs_of_def field_read_def csv_inv_def limit_def opt_def config_ok_def)
  moreover have "SUBMIT_FIELD cb1 (p\<lparr>entry_pos := m\<rparr>) d =
    c_bind (run_event cb1 cb2 (spec_field p (quoted p) (nat (spaces p)) (take (nat m) (field_read p))) d) (\<lambda>d. Inr (?p, d))" for d
  proof -
    let ?p1 = "p\<lparr>entry_pos := ?k\<rparr>" and ?p2 = "p\<lparr>entry_buf := Some ?b, entry_pos := ?k\<rparr>"
    let ?null = "opt p CSV_EMPTY_IS_NULL \<and> \<not> quoted p \<and> ?k = 0"
    have 1: "(if opt ?p1 CSV_APPEND_NULL then buf_set ?p1 (entry_pos ?p1) 0 else Inr ?p1) = Inr ?p2"
      using b k by (simp add: buf_set_def opt_def)
    have 2: "buf_field ?p2 = Inr (Some (take (nat ?k) ?b))" using b k by (auto simp: buf_field_def)
    have e: "take (nat ?k) ?b = [] \<longleftrightarrow> ?k = 0" using b k by auto
    have f: "spec_field p (quoted p) (nat (spaces p)) (take (nat m) (field_read p)) =
        Field (if ?null then None else Some (take (nat ?k) ?b))"
      unfolding spec_field_def Let_def cut [symmetric] e ..
    have "SUBMIT_FIELD cb1 (p\<lparr>entry_pos := m\<rparr>) d = c_bind (Inr ?p2) (\<lambda>p.
        c_bind (if opt p CSV_EMPTY_IS_NULL \<and> \<not> quoted p \<and> entry_pos p = 0 then cb1 None d
              else c_bind (buf_field p) (\<lambda>f. cb1 f d)) (\<lambda>d.
        Inr (p\<lparr>pstate := FIELD_NOT_BEGUN, entry_pos := 0, quoted := False, spaces := 0\<rparr>, d)))"
      unfolding SUBMIT_FIELD_def Let_def 1 [symmetric] by (cases "quoted p") simp_all
    also have "\<dots> = c_bind (cb1 (if ?null then None else Some (take (nat ?k) ?b)) d) (\<lambda>d. Inr (?p, d))"
      using 2 by (simp add: opt_def)
    finally show ?thesis unfolding f by simp
  qed
  ultimately show ?thesis by blast
qed

text \<open>A byte is accepted with the events \<open>es\<close> and the next state \<open>a\<close>, whatever the callbacks do.\<close>

definition step_to ::
  "(u8 list option \<Rightarrow> 'd \<Rightarrow> 'd c_result) \<Rightarrow> (int \<Rightarrow> 'd \<Rightarrow> 'd c_result) \<Rightarrow> u8 \<Rightarrow> csv_parser \<Rightarrow> csv_event list \<times> csv_abs \<Rightarrow> bool" where
  "step_to cb1 cb2 c p ea \<longleftrightarrow> (\<exists>p'. csv_inv p' \<and> entry_buf p' \<noteq> None \<and> same_config p p' \<and> entry_size p' = entry_size p \<and>
     entry_pos p' \<le> entry_pos p + 1 \<and> abs_of p' = snd ea \<and>
     (\<forall>d. parse_byte cb1 cb2 c p d = c_bind (run_events cb1 cb2 (fst ea) d) (\<lambda>d. Inr (True, p', d))))"

lemma char_step:
  assumes "has_room p" "0 \<le> n" "n \<le> entry_pos p + 1"
    and "st = FIELD_BEGUN \<and> (q \<longrightarrow> n = 0) \<or> st = FIELD_MIGHT_HAVE_ENDED \<and> q \<and> n \<le> entry_pos p"
    and "\<And>d. parse_byte cb1 cb2 c p d = Inr (True, (pushed c p)\<lparr>pstate := st, quoted := q, spaces := n\<rparr>, d)"
  shows "step_to cb1 cb2 c p ([], st, q, nat n, field_read p @ [c])"
  unfolding step_to_def
  by (rule exI [of _ "(pushed c p)\<lparr>pstate := st, quoted := q, spaces := n\<rparr>"])
    (use pushed_inv [OF assms(1-4)] assms(5) in \<open>simp add: same_config_def pushed_def\<close>)

lemma field_step:
  assumes "has_room p" "0 \<le> m" "m \<le> entry_pos p" "\<not> quoted p \<Longrightarrow> spaces p \<le> m"
    and "\<And>d. parse_byte cb1 cb2 c p d = accept (SUBMIT_FIELD cb1 (p\<lparr>entry_pos := m\<rparr>) d)"
  shows "step_to cb1 cb2 c p ([spec_field p (quoted p) (nat (spaces p)) (take (nat m) (field_read p))], FIELD_NOT_BEGUN, False, 0, [])"
proof -
  obtain p' where p': "between p p' FIELD_NOT_BEGUN" "\<forall>d. SUBMIT_FIELD cb1 (p\<lparr>entry_pos := m\<rparr>) d =
    c_bind (run_event cb1 cb2 (spec_field p (quoted p) (nat (spaces p)) (take (nat m) (field_read p))) d) (\<lambda>d. Inr (p', d))"
    using SUBMIT_FIELD_ok [OF _ _ assms(2-4)] assms(1) unfolding has_room_def by blast
  then have "parse_byte cb1 cb2 c p d =
    c_bind (run_events cb1 cb2 [spec_field p (quoted p) (nat (spaces p)) (take (nat m) (field_read p))] d) (\<lambda>d. Inr (True, p', d))" for d
    using assms(5) by (simp add: accept_def c_bind_assoc)
  then show ?thesis
    using p'(1) assms(2,3) unfolding step_to_def between_def by (intro exI [of _ p']) auto
qed

lemma field_row_step:
  assumes "has_room p" "0 \<le> m" "m \<le> entry_pos p" "\<not> quoted p \<Longrightarrow> spaces p \<le> m"
    and "\<And>d. parse_byte cb1 cb2 c p d = accept (submit_field_row cb1 cb2 r (p\<lparr>entry_pos := m\<rparr>) d)"
  shows "step_to cb1 cb2 c p
    ([spec_field p (quoted p) (nat (spaces p)) (take (nat m) (field_read p)), Row r], ROW_NOT_BEGUN, False, 0, [])"
proof -
  obtain p1 where p1: "between p p1 FIELD_NOT_BEGUN" "\<forall>d. SUBMIT_FIELD cb1 (p\<lparr>entry_pos := m\<rparr>) d =
    c_bind (run_event cb1 cb2 (spec_field p (quoted p) (nat (spaces p)) (take (nat m) (field_read p))) d) (\<lambda>d. Inr (p1, d))"
    using SUBMIT_FIELD_ok [OF _ _ assms(2-4)] assms(1) unfolding has_room_def by blast
  let ?p' = "p1\<lparr>pstate := ROW_NOT_BEGUN, entry_pos := 0, quoted := False, spaces := 0\<rparr>"
  have "parse_byte cb1 cb2 c p d =
    c_bind (run_events cb1 cb2 [spec_field p (quoted p) (nat (spaces p)) (take (nat m) (field_read p)), Row r] d)
      (\<lambda>d. Inr (True, ?p', d))" for d
    using assms(5) p1(2) by (simp add: accept_def submit_field_row_def SUBMIT_ROW_def c_bind_assoc)
  moreover have "csv_inv ?p'" "abs_of ?p' = (ROW_NOT_BEGUN, False, 0, [])"
    using p1(1) by (auto simp: between_def csv_inv_def abs_of_def field_read_def limit_def opt_def config_ok_def split: option.splits)
  ultimately show ?thesis
    using p1(1) assms(2,3) unfolding step_to_def between_def same_config_def by (intro exI [of _ ?p']) auto
qed

lemma still_step:
  assumes "csv_inv p'" "entry_buf p' \<noteq> None" "same_config p p'" "entry_size p' = entry_size p" "entry_pos p' = entry_pos p"
    and "\<And>d. parse_byte cb1 cb2 c p d = Inr (True, p', d)"
  shows "step_to cb1 cb2 c p ([], abs_of p')"
  using assms unfolding step_to_def by (intro exI [of _ p']) auto

definition refines_byte ::
  "(u8 list option \<Rightarrow> 'd \<Rightarrow> 'd c_result) \<Rightarrow> (int \<Rightarrow> 'd \<Rightarrow> 'd c_result) \<Rightarrow> u8 \<Rightarrow> csv_parser \<Rightarrow> bool" where
  "refines_byte cb1 cb2 c p \<longleftrightarrow>
     (case spec_byte p c (abs_of p) of
        None \<Rightarrow> (\<forall>d. parse_byte cb1 cb2 c p d = Inr (False, p\<lparr>status := CSV_EPARSE\<rparr>, d))
      | Some ea \<Rightarrow> step_to cb1 cb2 c p ea)"

lemma not_begun_refines:
  assumes r: "has_room p" and s: "pstate p = ROW_NOT_BEGUN \<or> pstate p = FIELD_NOT_BEGUN"
  shows "refines_byte cb1 cb2 c p"
proof -
  have b: "parse_byte cb1 cb2 c p d = parse_not_begun cb1 cb2 c p d" for d
    using s by (auto simp: parse_byte_def)
  have z: "entry_pos p = 0" "spaces p = 0" "\<not> quoted p" "csv_inv p" "entry_buf p \<noteq> None" "field_read p = []"
    using r s by (auto simp: has_room_def csv_inv_def field_read_def split: option.splits)
  have a: "abs_of p = (pstate p, False, 0, [])" using z by (simp add: abs_of_def)
  have p0: "p\<lparr>entry_pos := 0\<rparr> = p" using z by simp
  have f: "step_to cb1 cb2 c p ([spec_field p False 0 []], FIELD_NOT_BEGUN, False, 0, [])"
    if "\<And>d. parse_byte cb1 cb2 c p d = accept (SUBMIT_FIELD cb1 p d)"
    using field_step [OF r, of 0 cb1 cb2 c] that z by (simp add: p0)
  have fr: "step_to cb1 cb2 c p ([spec_field p False 0 [], Row (uint c)], ROW_NOT_BEGUN, False, 0, [])"
    if "\<And>d. parse_byte cb1 cb2 c p d = accept (submit_field_row cb1 cb2 (uint c) p d)"
    using field_row_step [OF r, of 0 cb1 cb2 c] that z by (simp add: p0)
  have c: "step_to cb1 cb2 c p ([], FIELD_BEGUN, False, 0, [c])"
    if "\<And>d. parse_byte cb1 cb2 c p d = accept_char (SUBMIT_CHAR c (p\<lparr>pstate := FIELD_BEGUN, quoted := False\<rparr>)) d"
    using char_step [OF r, of 0 FIELD_BEGUN False cb1 cb2 c] that z SUBMIT_CHAR_ok [OF r]
    by (simp add: accept_char_def pushed_def)
  have q: "step_to cb1 cb2 c p ([], FIELD_BEGUN, True, 0, [])"
    if "\<And>d. parse_byte cb1 cb2 c p d = Inr (True, p\<lparr>pstate := FIELD_BEGUN, quoted := True\<rparr>, d)"
    using still_step [of "p\<lparr>pstate := FIELD_BEGUN, quoted := True\<rparr>" p cb1 cb2 c] that z
    by (auto simp: csv_inv_def same_config_def abs_of_def field_read_def limit_def opt_def config_ok_def)
  have k: "step_to cb1 cb2 c p ([], pstate p, False, 0, [])" if "\<And>d. parse_byte cb1 cb2 c p d = Inr (True, p, d)"
    using still_step [of p p cb1 cb2 c] that z a by simp
  have w: "step_to cb1 cb2 c p ([Row (uint c)], ROW_NOT_BEGUN, False, 0, [])"
    if "\<And>d. parse_byte cb1 cb2 c p d = accept (SUBMIT_ROW cb2 (uint c) p d)"
  proof -
    let ?p = "p\<lparr>pstate := ROW_NOT_BEGUN, entry_pos := 0, quoted := False, spaces := 0\<rparr>"
    have "csv_inv ?p" "abs_of ?p = (ROW_NOT_BEGUN, False, 0, [])" "same_config p ?p"
      using z by (auto simp: csv_inv_def abs_of_def field_read_def limit_def opt_def config_ok_def same_config_def split: option.splits)
    then show ?thesis
      using that z unfolding step_to_def by (intro exI [of _ ?p]) (auto simp: accept_def SUBMIT_ROW_def c_bind_assoc)
  qed
  show ?thesis
    using s f fr c q k w
    by (auto simp: refines_byte_def a b parse_not_begun_def spec_byte_def Let_def split: csv_pstate.splits)
qed

lemma begun_refines:
  assumes r: "has_room p" and s: "pstate p = FIELD_BEGUN"
  shows "refines_byte cb1 cb2 c p"
proof -
  have b: "parse_byte cb1 cb2 c p d = parse_begun cb1 cb2 c p d" for d using s by (simp add: parse_byte_def)
  have z: "0 \<le> spaces p" "spaces p \<le> entry_pos p" "quoted p \<Longrightarrow> spaces p = 0" "0 \<le> entry_pos p"
    using r s by (auto simp: has_room_def csv_inv_def)
  have a: "abs_of p = (FIELD_BEGUN, quoted p, nat (spaces p), field_read p)" using s by (simp add: abs_of_def)
  have p0: "p\<lparr>entry_pos := entry_pos p\<rparr> = p" by simp
  have t: "take (nat (entry_pos p)) (field_read p) = field_read p" using room_field [OF r] by simp
  have f: "step_to cb1 cb2 c p ([spec_field p (quoted p) (nat (spaces p)) (field_read p)], FIELD_NOT_BEGUN, False, 0, [])"
    if "\<And>d. parse_byte cb1 cb2 c p d = accept (SUBMIT_FIELD cb1 p d)"
    using field_step [OF r z(4), of cb1 cb2 c] that z by (simp add: p0 t)
  have fr: "step_to cb1 cb2 c p ([spec_field p (quoted p) (nat (spaces p)) (field_read p), Row (uint c)], ROW_NOT_BEGUN, False, 0, [])"
    if "\<And>d. parse_byte cb1 cb2 c p d = accept (submit_field_row cb1 cb2 (uint c) p d)"
    using field_row_step [OF r z(4), of cb1 cb2 c] that z by (simp add: p0 t)
  have c: "step_to cb1 cb2 c p ([], st, quoted p, nat n, field_read p @ [c])"
    if "0 \<le> n" "n \<le> entry_pos p + 1" "st = FIELD_BEGUN \<and> (quoted p \<longrightarrow> n = 0) \<or> st = FIELD_MIGHT_HAVE_ENDED \<and> quoted p \<and> n \<le> entry_pos p"
      "\<And>d. parse_byte cb1 cb2 c p d = Inr (True, (pushed c p)\<lparr>pstate := st, quoted := quoted p, spaces := n\<rparr>, d)" for st n
    using char_step [OF r that] .
  have same: "(pushed c p)\<lparr>quoted := quoted p, spaces := n\<rparr> = (pushed c p)\<lparr>spaces := n\<rparr>"
    "(pushed c p)\<lparr>pstate := FIELD_BEGUN, spaces := n\<rparr> = (pushed c p)\<lparr>spaces := n\<rparr>"
    "(pushed c p)\<lparr>spaces := spaces p\<rparr> = pushed c p" for n
    using s by (simp_all add: pushed_def)
  show ?thesis
  proof (cases "quoted p")
    case True
    then show ?thesis
      using c [of 0 FIELD_BEGUN] c [of 0 FIELD_MIGHT_HAVE_ENDED] z SUBMIT_CHAR_ok(1) [OF r, of c] s
      by (auto simp: refines_byte_def a b parse_begun_def spec_byte_def Let_def accept_char_def pushed_def)
  next
    case False
    then show ?thesis
      using c [of 0 FIELD_BEGUN] c [of "spaces p + 1" FIELD_BEGUN] z f fr SUBMIT_CHAR_ok(1) [OF r, of c] s
      unfolding refines_byte_def a b
      by (auto simp: parse_begun_def spec_byte_def Let_def accept_char_def refuse_def pushed_def nat_add_distrib)
  qed
qed

lemma might_have_ended_refines:
  assumes r: "has_room p" and s: "pstate p = FIELD_MIGHT_HAVE_ENDED"
  shows "refines_byte cb1 cb2 c p"
proof -
  have b: "parse_byte cb1 cb2 c p d = parse_might_have_ended cb1 cb2 c p d" for d using s by (simp add: parse_byte_def)
  have z: "0 \<le> spaces p" "spaces p + 1 \<le> entry_pos p" "quoted p" "0 \<le> entry_pos p"
    using r s by (auto simp: has_room_def csv_inv_def)
  have a: "abs_of p = (FIELD_MIGHT_HAVE_ENDED, True, nat (spaces p), field_read p)" using s z by (simp add: abs_of_def)
  let ?m = "entry_pos p - (spaces p + 1)"
  have m: "0 \<le> ?m" "?m \<le> entry_pos p" using z by simp_all
  have "nat ?m = length (field_read p) - (nat (spaces p) + 1)" using room_field [OF r] z by linarith
  then have g: "spec_field p True (nat (spaces p)) (take (nat ?m) (field_read p)) =
      Field (Some (take (length (field_read p) - (nat (spaces p) + 1)) (field_read p)))"
    by (simp add: spec_field_def)
  have f: "step_to cb1 cb2 c p ([Field (Some (take (length (field_read p) - (nat (spaces p) + 1)) (field_read p)))],
      FIELD_NOT_BEGUN, False, 0, [])"
    if "\<And>d. parse_byte cb1 cb2 c p d = accept (SUBMIT_FIELD cb1 (p\<lparr>entry_pos := ?m\<rparr>) d)"
    using field_step [OF r m, of cb1 cb2 c] that z g by simp
  have fr: "step_to cb1 cb2 c p ([Field (Some (take (length (field_read p) - (nat (spaces p) + 1)) (field_read p))), Row (uint c)],
      ROW_NOT_BEGUN, False, 0, [])"
    if "\<And>d. parse_byte cb1 cb2 c p d = accept (submit_field_row cb1 cb2 (uint c) (p\<lparr>entry_pos := ?m\<rparr>) d)"
    using field_row_step [OF r m, of cb1 cb2 c] that z g by simp
  have ch: "step_to cb1 cb2 c p ([], st, True, nat n, field_read p @ [c])"
    if "0 \<le> n" "n \<le> entry_pos p + 1" "st = FIELD_BEGUN \<and> n = 0 \<or> st = FIELD_MIGHT_HAVE_ENDED \<and> n \<le> entry_pos p"
      "\<And>d. parse_byte cb1 cb2 c p d = Inr (True, (pushed c p)\<lparr>pstate := st, quoted := True, spaces := n\<rparr>, d)" for st n
    by (rule char_step [OF r that(1,2) _ that(4)]) (use that(3) in auto)
  have q: "step_to cb1 cb2 c p ([], FIELD_BEGUN, True, 0, field_read p)"
    if "\<And>d. parse_byte cb1 cb2 c p d = Inr (True, p\<lparr>pstate := FIELD_BEGUN\<rparr>, d)" "spaces p = 0"
  proof -
    have "csv_inv (p\<lparr>pstate := FIELD_BEGUN\<rparr>)" "entry_buf p \<noteq> None"
      using r z s that(2) by (auto simp: has_room_def csv_inv_def limit_def opt_def config_ok_def)
    moreover have "abs_of (p\<lparr>pstate := FIELD_BEGUN\<rparr>) = (FIELD_BEGUN, True, 0, field_read p)"
      using that(2) z by (simp add: abs_of_def field_read_def split: option.splits)
    ultimately show ?thesis
      using still_step [of "p\<lparr>pstate := FIELD_BEGUN\<rparr>" p cb1 cb2 c] that(1) by (simp add: same_config_def)
  qed
  show ?thesis
    using f fr ch [of 0 FIELD_BEGUN] ch [of 0 FIELD_MIGHT_HAVE_ENDED] ch [of "spaces p + 1" FIELD_MIGHT_HAVE_ENDED] q z
      SUBMIT_CHAR_ok(1,3,4) [OF r, of c] s
    unfolding refines_byte_def a b
    by (auto simp: parse_might_have_ended_def spec_byte_def Let_def accept_char_def refuse_def pushed_def nat_add_distrib)
qed

lemma parse_byte_refines: "has_room p \<Longrightarrow> refines_byte cb1 cb2 c p"
  using not_begun_refines begun_refines might_have_ended_refines by (cases "pstate p") blast+

end
