(* ===== verification/Csv_Format.thy ===== *)
theory Csv_Format
  imports Csv_Parse
begin

text \<open>
  The CSV library as a whole: the parser over whole inputs, in memory that may run out and in memory
  that does not, its independence of how the input is cut into chunks, the writers of \<open>libcsv.c\<close>, and
  the round trip: what the writers produce is parsed back.
\<close>

section \<open>Whole inputs\<close>

lemma spec_byte_config:
  assumes "same_config p q"
  shows "spec_byte q = spec_byte p"
proof -
  have "opt q = opt p" "space_char q = space_char p" "term_char q = term_char p" "delim_char q = delim_char p" "quote_char q = quote_char p"
    using assms by (simp_all add: same_config_def opt_def space_char_def term_char_def fun_eq_iff)
  moreover from this have "spec_field q = spec_field p" by (simp only: spec_field_def [abs_def])
  ultimately show ?thesis by (simp only: spec_byte_def [abs_def])
qed

lemma limit_config: "same_config p q \<Longrightarrow> limit q = (if opt p CSV_APPEND_NULL then entry_size q - 1 else entry_size q)"
  by (simp add: limit_def opt_def same_config_def)

fun spec_run :: "csv_parser \<Rightarrow> u8 list \<Rightarrow> csv_abs \<Rightarrow> (csv_event list \<times> csv_abs) option" where
  "spec_run p [] a = Some ([], a)"
| "spec_run p (c # us) a =
     (case spec_byte p c a of
        None \<Rightarrow> None
      | Some (es, a) \<Rightarrow> (case spec_run p us a of None \<Rightarrow> None | Some (fs, a) \<Rightarrow> Some (es @ fs, a)))"

lemma spec_run_append:
  "spec_run p (us @ vs) a =
     (case spec_run p us a of
        None \<Rightarrow> None
      | Some (es, a) \<Rightarrow> (case spec_run p vs a of None \<Rightarrow> None | Some (fs, a) \<Rightarrow> Some (es @ fs, a)))"
  by (induction us arbitrary: a) (auto split: option.splits)

lemma spec_run_config: "same_config p q \<Longrightarrow> spec_run q us a = spec_run p us a"
  by (induction us arbitrary: a) (simp_all add: spec_byte_config split: option.splits)

text \<open>After the test for room there is room, or the call ends with the status saying why.\<close>

lemma grown_config: "grown p q \<Longrightarrow> same_config p q \<and> abs_of q = abs_of p \<and> entry_pos q = entry_pos p \<and> entry_buf q \<noteq> None"
  by (auto simp: grown_def same_config_def abs_of_def)

lemma csv_room_cases:
  assumes "csv_inv p" "entry_buf p \<noteq> None" "csv_room p = (r, q)"
  shows "r = 0 \<and> has_room q \<and> same_config p q \<and> abs_of q = abs_of p \<and> entry_pos q = entry_pos p \<or>
    r = -1 \<and> (\<exists>s \<in> {CSV_ENOMEM, CSV_ETOOBIG}. q = p\<lparr>status := s\<rparr>)"
proof (cases "entry_pos p = limit p")
  case True
  then have c: "csv_increase_buffer p = (r, q)" using assms(3) by (simp add: csv_room_def limit_def split: if_splits)
  show ?thesis
  proof (cases "grown p q")
    case g: True
    then have "entry_pos q < limit q"
      using True limit_config [of p q] grown_config [OF g] by (auto simp: grown_def limit_def opt_def)
    then show ?thesis using increase_cases [OF assms(1) c] g grown_config [OF g] by (auto simp: has_room_def grown_def)
  qed (use increase_cases [OF assms(1) c] in auto)
next
  case False
  then have "q = p" "r = 0" using assms(3) by (auto simp: csv_room_def limit_def split: if_splits)
  moreover have "entry_pos p < limit p" using False assms(1,2) by (auto simp: csv_inv_def)
  ultimately show ?thesis using assms(1,2) by (simp add: has_room_def)
qed

lemma status_inv [simp]: "csv_inv (p\<lparr>status := s\<rparr>) = csv_inv p"
  by (cases "entry_buf p"; cases "pstate p") (simp_all add: csv_inv_def limit_def opt_def config_ok_def)

text \<open>Callbacks that never fault, and memory that never runs out.\<close>

definition callbacks_total :: "(u8 list option \<Rightarrow> 'd \<Rightarrow> 'd c_result) \<Rightarrow> (int \<Rightarrow> 'd \<Rightarrow> 'd c_result) \<Rightarrow> bool" where
  "callbacks_total cb1 cb2 \<longleftrightarrow> (\<forall>f d. c_ok (cb1 f d)) \<and> (\<forall>c d. c_ok (cb2 c d))"

lemma run_events_total: "callbacks_total cb1 cb2 \<Longrightarrow> \<exists>d'. run_events cb1 cb2 es d = Inr d'"
proof (induction es arbitrary: d)
  case (Cons e es)
  have "c_ok (run_event cb1 cb2 e d)" using Cons.prems by (cases e) (auto simp: callbacks_total_def)
  then obtain d1 where "run_event cb1 cb2 e d = Inr d1" by (auto simp: c_ok_def)
  then show ?case using Cons by simp
qed simp

definition memory_for :: "csv_parser \<Rightarrow> int \<Rightarrow> bool" where
  "memory_for p n \<longleftrightarrow> (\<forall>b k. realloc_func p b k \<noteq> None) \<and> 0 < blk_size p \<and> entry_pos p + n + 1 < SIZE_MAX"

lemma try_realloc_total: "(\<forall>b k. f b k \<noteq> None) \<Longrightarrow> try_realloc f b sz n \<noteq> None"
  using try_realloc_None by metis

lemma increase_total:
  assumes "(\<forall>b k. realloc_func p b k \<noteq> None)" "0 < blk_size p" "entry_size p < SIZE_MAX" "csv_inv p" "csv_increase_buffer p = (r, q)"
  shows "grown p q \<and> r = 0"
proof -
  have "increment p \<noteq> 0" using assms(2,3) by (auto simp: increment_def)
  moreover obtain v a where "try_realloc (realloc_func p) (entry_buf p) (entry_size p) (increment p) = Some (v, a)"
    using try_realloc_total [OF assms(1)] by fastforce
  ultimately have "r = 0" using assms(5) by (auto simp: csv_increase_buffer_def Let_def)
  then show ?thesis using increase_cases [OF assms(4,5)] by auto
qed

lemma room_total:
  assumes "csv_inv p" "entry_buf p \<noteq> None" "memory_for p n" "0 < n" "csv_room p = (r, q)"
  shows "r = 0"
proof (cases "entry_pos p = limit p")
  case True
  then have "entry_size p < SIZE_MAX" using assms(3,4) by (auto simp: memory_for_def limit_def split: if_splits)
  then show ?thesis
    using increase_total [of p r q] assms True by (auto simp: csv_room_def limit_def memory_for_def split: if_splits)
next
  case False
  then show ?thesis using assms(5) by (auto simp: csv_room_def limit_def split: if_splits)
qed

text \<open>The loop without the assumption on memory: it never faults, keeps the invariant and says why it stops.\<close>

lemma csv_loop_safe:
  assumes "callbacks_total cb1 cb2" "csv_inv p" "entry_buf p \<noteq> None"
  shows "\<exists>n p' d'. csv_loop cb1 cb2 pos us p d = Inr (n, p', d') \<and> csv_inv p' \<and> entry_buf p' \<noteq> None \<and> same_config p p' \<and>
    pos \<le> n \<and> n \<le> pos + int (length us) \<and> (n < pos + int (length us) \<longrightarrow> status p' \<in> {CSV_EPARSE, CSV_ENOMEM, CSV_ETOOBIG})"
  using assms(2,3)
proof (induction us arbitrary: pos p d)
  case (Cons c us)
  obtain r q where rq: "csv_room p = (r, q)" by fastforce
  show ?case
  proof (cases "r = 0")
    case False
    then have "\<exists>s \<in> {CSV_ENOMEM, CSV_ETOOBIG}. q = p\<lparr>status := s\<rparr>" using csv_room_cases [OF Cons.prems rq] by auto
    then show ?thesis using rq False Cons.prems by (auto simp: same_config_def)
  next
    case True
    then have q: "has_room q" "same_config p q" using csv_room_cases [OF Cons.prems rq] by auto
    have qi: "csv_inv q" "entry_buf q \<noteq> None" using q(1) by (simp_all add: has_room_def)
    show ?thesis
    proof (cases "spec_byte q c (abs_of q)")
      case None
      then have "parse_byte cb1 cb2 c q d = Inr (False, q\<lparr>status := CSV_EPARSE\<rparr>, d)"
        using parse_byte_refines [OF q(1), of cb1 cb2 c] by (simp add: refines_byte_def)
      then show ?thesis using rq True qi q(2) by (auto simp: same_config_def)
    next
      case (Some ea)
      then obtain p1 where p1: "csv_inv p1" "entry_buf p1 \<noteq> None" "same_config q p1"
        "\<forall>d. parse_byte cb1 cb2 c q d = c_bind (run_events cb1 cb2 (fst ea) d) (\<lambda>d. Inr (True, p1, d))"
        using parse_byte_refines [OF q(1), of cb1 cb2 c] by (auto simp: refines_byte_def step_to_def)
      obtain d1 where "run_events cb1 cb2 (fst ea) d = Inr d1" using run_events_total [OF assms(1)] by blast
      then have "csv_loop cb1 cb2 pos (c # us) p d = csv_loop cb1 cb2 (pos + 1) us p1 d1"
        using rq True p1(4) by simp
      then show ?thesis
        using Cons.IH [OF p1(1,2), of "pos + 1" d1] same_config_trans [OF same_config_trans [OF q(2) p1(3)]] by auto
    qed
  qed
qed (auto simp: same_config_def)

text \<open>The loop with enough memory refines the specification.\<close>

lemma csv_loop_refines:
  assumes "csv_inv p" "entry_buf p \<noteq> None" "memory_for p (int (length us))" "spec_run p us (abs_of p) = Some (es, a)"
  shows "\<exists>p'. csv_inv p' \<and> entry_buf p' \<noteq> None \<and> same_config p p' \<and> abs_of p' = a \<and> entry_pos p' \<le> entry_pos p + int (length us) \<and>
    (\<forall>pos d. csv_loop cb1 cb2 pos us p d = c_bind (run_events cb1 cb2 es d) (\<lambda>d. Inr (pos + int (length us), p', d)))"
  using assms
proof (induction us arbitrary: p es)
  case Nil
  then show ?case by (intro exI [of _ p]) simp
next
  case (Cons c us)
  obtain r q where rq: "csv_room p = (r, q)" by fastforce
  then have r: "r = 0" using room_total [OF Cons.prems(1-3)] by simp
  then have q: "has_room q" "same_config p q" "abs_of q = abs_of p" "entry_pos q = entry_pos p"
    using csv_room_cases [OF Cons.prems(1,2) rq] by auto
  obtain es1 a1 fs where s: "spec_byte q c (abs_of q) = Some (es1, a1)" "spec_run p us a1 = Some (fs, a)" "es = es1 @ fs"
    using Cons.prems(4) by (auto simp: q(3) spec_byte_config [OF q(2)] split: option.splits)
  then obtain p1 where p1: "csv_inv p1" "entry_buf p1 \<noteq> None" "same_config q p1" "entry_pos p1 \<le> entry_pos q + 1" "abs_of p1 = a1"
    "\<forall>d. parse_byte cb1 cb2 c q d = c_bind (run_events cb1 cb2 es1 d) (\<lambda>d. Inr (True, p1, d))"
    using parse_byte_refines [OF q(1), of cb1 cb2 c] by (auto simp: refines_byte_def step_to_def)
  have cfg: "same_config p p1" using same_config_trans [OF q(2) p1(3)] .
  have "memory_for p1 (int (length us))"
    using Cons.prems(3) p1(4) q(4) cfg by (auto simp: memory_for_def same_config_def)
  moreover have "spec_run p1 us (abs_of p1) = Some (fs, a)" using s(2) p1(5) spec_run_config [OF cfg] by simp
  ultimately obtain p' where p': "csv_inv p'" "entry_buf p' \<noteq> None" "same_config p1 p'" "abs_of p' = a" "entry_pos p' \<le> entry_pos p1 + int (length us)"
    "\<forall>pos d. csv_loop cb1 cb2 pos us p1 d = c_bind (run_events cb1 cb2 fs d) (\<lambda>d. Inr (pos + int (length us), p', d))"
    using Cons.IH [OF p1(1,2)] by blast
  have "csv_loop cb1 cb2 pos (c # us) p d = c_bind (run_events cb1 cb2 es d) (\<lambda>d. Inr (pos + int (length (c # us)), p', d))" for pos d
    using rq r p1(6) p'(6) by (cases "run_events cb1 cb2 es1 d") (simp_all add: s(3) run_events_append ac_simps)
  then show ?case using p' same_config_trans [OF cfg p'(3)] p1(4) q(4) by (intro exI [of _ p']) auto
qed

section \<open>The calls of the library\<close>

text \<open>\<open>csv_parse\<close> allocates the buffer before the first byte.\<close>

definition csv_start :: "csv_parser \<Rightarrow> u8 list \<Rightarrow> int \<times> csv_parser" where
  "csv_start p us = (if entry_buf p = None \<and> us \<noteq> [] then csv_increase_buffer p else (0, p))"

lemma csv_parse_start:
  "csv_parse cb1 cb2 us p d = (case csv_start p us of (r, p) \<Rightarrow> if r \<noteq> 0 then Inr (0, p, d) else csv_loop cb1 cb2 0 us p d)"
  by (simp add: csv_parse_def csv_start_def)

lemma csv_start_cases:
  assumes "csv_inv p" "us \<noteq> []" "csv_start p us = (r, q)"
  shows "r = 0 \<and> csv_inv q \<and> entry_buf q \<noteq> None \<and> same_config p q \<and> abs_of q = abs_of p \<and> entry_pos q = entry_pos p \<or>
    r = -1 \<and> (\<exists>s \<in> {CSV_ENOMEM, CSV_ETOOBIG}. q = p\<lparr>status := s\<rparr>)"
  using increase_cases [OF assms(1)] grown_config assms
  by (fastforce simp: csv_start_def grown_def split: if_splits)

lemma csv_start_total:
  assumes "csv_inv p" "us \<noteq> []" "memory_for p (int (length us))" "csv_start p us = (r, q)"
  shows "r = 0"
proof (cases "entry_buf p = None")
  case True
  then have "entry_size p < SIZE_MAX" using assms(1) by (auto simp: csv_inv_def)
  then show ?thesis
    using increase_total [of p r q] assms True by (simp add: csv_start_def memory_for_def)
qed (use assms in \<open>auto simp: csv_start_def\<close>)

lemma csv_parse_safe:
  assumes "callbacks_total cb1 cb2" "csv_inv p"
  shows "\<exists>n p' d'. csv_parse cb1 cb2 us p d = Inr (n, p', d') \<and> csv_inv p' \<and> same_config p p' \<and>
    0 \<le> n \<and> n \<le> int (length us) \<and> (n < int (length us) \<longrightarrow> csv_error p' \<in> {CSV_EPARSE, CSV_ENOMEM, CSV_ETOOBIG})"
proof (cases "us = []")
  case True
  then show ?thesis using assms by (simp add: csv_parse_def)
next
  case False
  obtain r q where rq: "csv_start p us = (r, q)" by fastforce
  show ?thesis
  proof (cases "r = 0")
    case True
    then have q: "csv_inv q" "entry_buf q \<noteq> None" "same_config p q" using csv_start_cases [OF assms(2) False rq] by auto
    then show ?thesis
      using csv_loop_safe [OF assms(1) q(1,2), of 0 us d] rq True same_config_trans [OF q(3)]
      by (auto simp: csv_parse_start csv_error_def)
  next
    case r: False
    then have "\<exists>s \<in> {CSV_ENOMEM, CSV_ETOOBIG}. q = p\<lparr>status := s\<rparr>" using csv_start_cases [OF assms(2) False rq] by auto
    then show ?thesis using rq r assms(2) by (auto simp: csv_parse_start csv_error_def same_config_def)
  qed
qed

lemma csv_parse_refines:
  assumes "csv_inv p" "memory_for p (int (length us))" "spec_run p us (abs_of p) = Some (es, a)"
  shows "\<exists>p'. csv_inv p' \<and> same_config p p' \<and> abs_of p' = a \<and> entry_pos p' \<le> entry_pos p + int (length us) \<and>
    (\<forall>d. csv_parse cb1 cb2 us p d = c_bind (run_events cb1 cb2 es d) (\<lambda>d. Inr (int (length us), p', d)))"
proof (cases "us = []")
  case True
  then show ?thesis using assms by (intro exI [of _ p]) (simp add: csv_parse_def)
next
  case False
  obtain r q where rq: "csv_start p us = (r, q)" by fastforce
  then have r: "r = 0" using csv_start_total [OF assms(1) False assms(2)] by simp
  then have q: "csv_inv q" "entry_buf q \<noteq> None" "same_config p q" "abs_of q = abs_of p" "entry_pos q = entry_pos p"
    using csv_start_cases [OF assms(1) False rq] by auto
  have "memory_for q (int (length us))" using assms(2) q(3,5) by (simp add: memory_for_def same_config_def)
  moreover have "spec_run q us (abs_of q) = Some (es, a)" using assms(3) q(4) spec_run_config [OF q(3)] by simp
  ultimately obtain p' where p': "csv_inv p'" "same_config q p'" "abs_of p' = a" "entry_pos p' \<le> entry_pos q + int (length us)"
    "\<forall>pos d. csv_loop cb1 cb2 pos us q d = c_bind (run_events cb1 cb2 es d) (\<lambda>d. Inr (pos + int (length us), p', d))"
    using csv_loop_refines [OF q(1,2)] by blast
  then show ?thesis
    using same_config_trans [OF q(3) p'(2)] q(5) rq r by (intro exI [of _ p']) (simp add: csv_parse_start)
qed

text \<open>The loop over two pieces of input is the loop over the first and then over the second.\<close>

lemma csv_loop_bounds: "csv_loop cb1 cb2 pos us p d = Inr (n, p', d') \<Longrightarrow> pos \<le> n \<and> n \<le> pos + int (length us)"
proof (induction us arbitrary: pos p d)
  case (Cons c us)
  then show ?case by (fastforce simp: c_bind_Inr split: prod.splits if_splits)
qed simp

lemma csv_loop_append:
  "csv_loop cb1 cb2 pos (us @ vs) p d =
     c_bind (csv_loop cb1 cb2 pos us p d) (\<lambda>(n, p', d').
       if n = pos + int (length us) then csv_loop cb1 cb2 n vs p' d' else Inr (n, p', d'))"
proof (induction us arbitrary: pos p d)
  case (Cons c us)
  obtain r q where rq: "csv_room p = (r, q)" by fastforce
  show ?case
  proof (cases "r \<noteq> 0")
    case False
    then show ?thesis
      using rq Cons.IH by (cases "parse_byte cb1 cb2 c q d") (auto simp: ac_simps split: prod.splits)
  qed (use rq in simp)
qed simp

lemma csv_loop_shift:
  "csv_loop cb1 cb2 (k + pos) us p d = c_bind (csv_loop cb1 cb2 pos us p d) (\<lambda>(n, p, d). Inr (k + n, p, d))"
proof (induction us arbitrary: pos p d)
  case (Cons c us)
  obtain r q where rq: "csv_room p = (r, q)" by fastforce
  have "k + (pos + 1) = (k + pos) + 1" for pos :: int by simp
  then show ?case
    using rq Cons.IH [of "pos + 1"] by (cases "parse_byte cb1 cb2 c q d") (auto simp: ac_simps split: prod.splits)
qed simp

lemma csv_loop_inv:
  assumes "csv_inv p" "entry_buf p \<noteq> None" "csv_loop cb1 cb2 pos us p d = Inr (n, p', d')"
  shows "csv_inv p' \<and> entry_buf p' \<noteq> None \<and> same_config p p'"
  using assms
proof (induction us arbitrary: pos p d)
  case (Cons c us)
  obtain r q where rq: "csv_room p = (r, q)" by fastforce
  show ?case
  proof (cases "r = 0")
    case False
    then show ?thesis using csv_room_cases [OF Cons.prems(1,2) rq] Cons.prems rq by (auto simp: same_config_def)
  next
    case True
    then have q: "has_room q" "same_config p q" using csv_room_cases [OF Cons.prems(1,2) rq] by auto
    have qi: "csv_inv q" "entry_buf q \<noteq> None" using q(1) by (simp_all add: has_room_def)
    show ?thesis
    proof (cases "spec_byte q c (abs_of q)")
      case None
      then have "parse_byte cb1 cb2 c q d = Inr (False, q\<lparr>status := CSV_EPARSE\<rparr>, d)"
        using parse_byte_refines [OF q(1), of cb1 cb2 c] by (simp add: refines_byte_def)
      then show ?thesis using rq True qi q(2) Cons.prems(3) by (auto simp: same_config_def)
    next
      case (Some ea)
      then obtain p1 where p1: "csv_inv p1" "entry_buf p1 \<noteq> None" "same_config q p1"
        "\<forall>d. parse_byte cb1 cb2 c q d = c_bind (run_events cb1 cb2 (fst ea) d) (\<lambda>d. Inr (True, p1, d))"
        using parse_byte_refines [OF q(1), of cb1 cb2 c] by (auto simp: refines_byte_def step_to_def)
      then obtain d1 where "csv_loop cb1 cb2 (pos + 1) us p1 d1 = Inr (n, p', d')"
        using Cons.prems(3) rq True by (auto simp: c_bind_Inr c_bind_assoc)
      then show ?thesis
        using Cons.IH [OF p1(1,2)] same_config_trans [OF same_config_trans [OF q(2) p1(3)]] by blast
    qed
  qed
qed simp

lemma csv_parse_append:
  assumes "csv_inv p"
  shows "csv_parse cb1 cb2 (us @ vs) p d =
    c_bind (csv_parse cb1 cb2 us p d) (\<lambda>(n, p', d').
      if n = int (length us) then c_bind (csv_parse cb1 cb2 vs p' d') (\<lambda>(k, p', d'). Inr (n + k, p', d')) else Inr (n, p', d'))"
proof (cases "us = []")
  case True
  then show ?thesis by (cases "csv_parse cb1 cb2 vs p d") (auto simp: csv_parse_def)
next
  case False
  obtain r q where rq: "csv_start p us = (r, q)" by fastforce
  then have rq': "csv_start p (us @ vs) = (r, q)" using False by (simp add: csv_start_def)
  show ?thesis
  proof (cases "r = 0")
    case r: True
    then have q: "csv_inv q" "entry_buf q \<noteq> None" using csv_start_cases [OF assms False rq] by auto
    show ?thesis
    proof (cases "csv_loop cb1 cb2 0 us q d")
      case (Inr npd)
      then obtain n p' d' where n: "csv_loop cb1 cb2 0 us q d = Inr (n, p', d')" by (cases npd) auto
      have "csv_start p' vs = (0, p')" using csv_loop_inv [OF q n] by (auto simp: csv_start_def)
      then show ?thesis
        using n rq rq' r csv_loop_shift [of cb1 cb2 n 0 vs p' d'] by (auto simp: csv_parse_start csv_loop_append)
    qed (use rq rq' r in \<open>simp add: csv_parse_start csv_loop_append\<close>)
  qed (use rq rq' False in \<open>simp add: csv_parse_start\<close>)
qed

lemma csv_parse_inv:
  assumes "csv_inv p" "csv_parse cb1 cb2 us p d = Inr (n, p', d')"
  shows "csv_inv p' \<and> n \<le> int (length us)"
proof (cases "us = []")
  case True
  then show ?thesis using assms by (simp add: csv_parse_def)
next
  case False
  obtain r q where rq: "csv_start p us = (r, q)" by fastforce
  show ?thesis
  proof (cases "r = 0")
    case True
    then have q: "csv_inv q" "entry_buf q \<noteq> None" using csv_start_cases [OF assms(1) False rq] by auto
    then show ?thesis
      using csv_loop_inv [OF q] csv_loop_bounds assms(2) rq True by (fastforce simp: csv_parse_start)
  next
    case r: False
    then show ?thesis using csv_start_cases [OF assms(1) False rq] assms rq by (auto simp: csv_parse_start)
  qed
qed

section \<open>The writers\<close>

text \<open>The bytes stored so far, the position of the next one, and the length of the output so far.\<close>

type_synonym csv_out = "u8 list \<times> int \<times> int"

definition out_char :: "int \<Rightarrow> u8 \<Rightarrow> csv_out \<Rightarrow> csv_out c_result" where
  "out_char dest_size c = (\<lambda>(dest, cdest, chars).
     c_bind (if dest_size > chars then c_bind (arr_set dest cdest c) (\<lambda>dest. Inr (dest, cdest + 1)) else Inr (dest, cdest))
       (\<lambda>(dest, cdest). Inr (dest, cdest, if chars < SIZE_MAX then chars + 1 else chars)))"

fun csv_write_loop :: "int \<Rightarrow> u8 \<Rightarrow> u8 list \<Rightarrow> csv_out \<Rightarrow> csv_out c_result" where
  "csv_write_loop dest_size quote [] out = Inr out"
| "csv_write_loop dest_size quote (c # csrc) out =
     c_bind (if c = quote then out_char dest_size quote out else Inr out) (\<lambda>out.
     c_bind (out_char dest_size c out) (\<lambda>out. csv_write_loop dest_size quote csrc out))"

definition csv_write2 :: "u8 list option \<Rightarrow> int \<Rightarrow> u8 list option \<Rightarrow> u8 \<Rightarrow> (int \<times> u8 list option) c_result" where
  "csv_write2 dest dest_size src quote =
     (case src of
        None \<Rightarrow> Inr (0, dest)
      | Some csrc \<Rightarrow>
          let dest_size = (if dest = None then 0 else dest_size); d = (case dest of None \<Rightarrow> [] | Some d \<Rightarrow> d) in
          c_bind (out_char dest_size quote (d, 0, 0)) (\<lambda>out.
          c_bind (csv_write_loop dest_size quote csrc out) (\<lambda>out.
          c_bind (out_char dest_size quote out) (\<lambda>(d, _, chars). Inr (chars, if dest = None then None else Some d)))))"

definition csv_write :: "u8 list option \<Rightarrow> int \<Rightarrow> u8 list option \<Rightarrow> (int \<times> u8 list option) c_result" where
  "csv_write dest dest_size src = csv_write2 dest dest_size src CSV_QUOTE"

text \<open>\<open>fputc\<close> of the standard library is a parameter: the new state of the stream, or \<open>EOF\<close>, \<open>None\<close>.\<close>

fun csv_fwrite_loop :: "(u8 \<Rightarrow> 'f \<Rightarrow> 'f option) \<Rightarrow> u8 \<Rightarrow> u8 list \<Rightarrow> 'f \<Rightarrow> 'f option" where
  "csv_fwrite_loop fputc quote [] fp = Some fp"
| "csv_fwrite_loop fputc quote (c # csrc) fp =
     (case (if c = quote then fputc quote fp else Some fp) of
        None \<Rightarrow> None
      | Some fp \<Rightarrow> (case fputc c fp of None \<Rightarrow> None | Some fp \<Rightarrow> csv_fwrite_loop fputc quote csrc fp))"

definition csv_fwrite2 :: "(u8 \<Rightarrow> 'f \<Rightarrow> 'f option) \<Rightarrow> 'f \<Rightarrow> u8 list \<Rightarrow> u8 \<Rightarrow> 'f option" where
  "csv_fwrite2 fputc fp csrc quote =
     (case fputc quote fp of
        None \<Rightarrow> None
      | Some fp \<Rightarrow> (case csv_fwrite_loop fputc quote csrc fp of None \<Rightarrow> None | Some fp \<Rightarrow> fputc quote fp))"

definition csv_fwrite :: "(u8 \<Rightarrow> 'f \<Rightarrow> 'f option) \<Rightarrow> 'f \<Rightarrow> u8 list \<Rightarrow> 'f option" where
  "csv_fwrite fputc fp csrc = csv_fwrite2 fputc fp csrc CSV_QUOTE"

text \<open>What both write: the field in quotes, its quotes doubled.\<close>

definition csv_escaped :: "u8 \<Rightarrow> u8 list \<Rightarrow> u8 list" where
  "csv_escaped quote s = concat (map (\<lambda>c. if c = quote then [quote, quote] else [c]) s)"

definition csv_quoted :: "u8 \<Rightarrow> u8 list \<Rightarrow> u8 list" where
  "csv_quoted quote s = quote # csv_escaped quote s @ [quote]"

lemma csv_escaped_simps [simp]:
  "csv_escaped q [] = []"
  "csv_escaped q (c # s) = (if c = q then [q, q] else [c]) @ csv_escaped q s"
  by (simp_all add: csv_escaped_def)

text \<open>\<open>dest\<close> holds the first \<open>dest_size\<close> bytes of the output so far, and what it held before after them.\<close>

definition written :: "u8 list \<Rightarrow> int \<Rightarrow> u8 list \<Rightarrow> csv_out" where
  "written dest n s = (take (nat n) s @ drop (length (take (nat n) s)) dest, min n (int (length s)), int (length s))"

lemma out_char_written:
  assumes "0 \<le> n" "n \<le> int (length dest)" "int (length s) < SIZE_MAX"
  shows "out_char n c (written dest n s) = Inr (written dest n (s @ [c]))"
proof (cases "n > int (length s)")
  case True
  then obtain k where k: "nat n = Suc k" "length s \<le> k" by (cases "nat n") auto
  have l: "length s < length dest" using True assms(2) by linarith
  then have u: "(s @ drop (length s) dest)[length s := c] = s @ c # drop (Suc (length s)) dest"
    by (simp add: list_update_append Cons_nth_drop_Suc [symmetric])
  show ?thesis using True assms k l u by (simp add: out_char_def written_def arr_set_def)
next
  case False
  then have "nat n \<le> length s" using assms(1) by linarith
  then show ?thesis using False assms by (simp add: out_char_def written_def)
qed

lemma csv_write_loop_written:
  assumes "0 \<le> n" "n \<le> int (length dest)" "int (length s) + int (length (csv_escaped q csrc)) < SIZE_MAX"
  shows "csv_write_loop n q csrc (written dest n s) = Inr (written dest n (s @ csv_escaped q csrc))"
  using assms(3)
proof (induction csrc arbitrary: s)
  case (Cons c csrc)
  have "csv_write_loop n q csrc (written dest n ((if c = q then s @ [q] else s) @ [c])) =
      Inr (written dest n (((if c = q then s @ [q] else s) @ [c]) @ csv_escaped q csrc))"
    by (rule Cons.IH) (use Cons.prems in \<open>auto split: if_splits\<close>)
  then show ?case
    using out_char_written [OF assms(1,2), of s q] out_char_written [OF assms(1,2), of "if c = q then s @ [q] else s" c] Cons.prems
    by (simp split: if_splits)
qed simp

lemma csv_write2_written:
  assumes "0 \<le> n" "n \<le> int (length dest)" "int (length (csv_quoted q s)) \<le> SIZE_MAX"
  shows "csv_write2 (Some dest) n (Some s) q =
    Inr (int (length (csv_quoted q s)), Some (take (nat n) (csv_quoted q s) @ drop (length (take (nat n) (csv_quoted q s))) dest))"
proof -
  have l: "int (length (csv_escaped q s)) + 2 \<le> SIZE_MAX" using assms(3) by (simp add: csv_quoted_def)
  have z: "(dest, 0, 0) = written dest n []" using assms(1) by (simp add: written_def)
  have "out_char n q (written dest n []) = Inr (written dest n [q])"
    using out_char_written [OF assms(1,2), of "[]" q] by simp
  moreover have "csv_write_loop n q s (written dest n [q]) = Inr (written dest n (q # csv_escaped q s))"
    using csv_write_loop_written [OF assms(1,2), of "[q]" q s] l by simp
  moreover have "out_char n q (written dest n (q # csv_escaped q s)) = Inr (written dest n (csv_quoted q s))"
    using out_char_written [OF assms(1,2), of "q # csv_escaped q s" q] l by (simp add: csv_quoted_def)
  ultimately show ?thesis by (simp add: csv_write2_def z) (simp add: written_def)
qed

lemma csv_fwrite2_appends:
  "csv_fwrite2 (\<lambda>c fp. Some (fp @ [c])) fp s q = Some (fp @ csv_quoted q s)"
proof -
  have "csv_fwrite_loop (\<lambda>c fp. Some (fp @ [c])) q s f = Some (f @ csv_escaped q s)" for f
    by (induction s arbitrary: f) simp_all
  then show ?thesis by (simp add: csv_fwrite2_def csv_quoted_def)
qed

section \<open>Rows of text\<close>

text \<open>
  A cell of a file is written in quotes or, when it holds no separator, plainly. The separators are the
  ones \<open>csv_init\<close> sets; the options are any but the one that turns an empty plain cell into NULL.
\<close>

datatype csv_cell = Quoted "u8 list" | Plain "u8 list"

fun cell_text :: "csv_cell \<Rightarrow> u8 list" where
  "cell_text (Quoted s) = s"
| "cell_text (Plain s) = s"

fun cell_bytes :: "csv_cell \<Rightarrow> u8 list" where
  "cell_bytes (Quoted s) = csv_quoted CSV_QUOTE s"
| "cell_bytes (Plain s) = s"

definition blank :: "u8 \<Rightarrow> bool" where
  "blank c \<longleftrightarrow> c = CSV_SPACE \<or> c = CSV_TAB"

fun cell_ok :: "csv_cell \<Rightarrow> bool" where
  "cell_ok (Quoted s) \<longleftrightarrow> True"
| "cell_ok (Plain s) \<longleftrightarrow> (\<forall>c \<in> set s. c \<notin> {CSV_QUOTE, CSV_COMMA, CSV_CR, CSV_LF}) \<and>
     (s \<noteq> [] \<longrightarrow> \<not> blank (hd s) \<and> \<not> blank (last s))"

definition row_ok :: "csv_cell list \<Rightarrow> bool" where
  "row_ok row \<longleftrightarrow> row \<noteq> [] \<and> row \<noteq> [Plain []] \<and> list_all cell_ok row"

fun row_bytes :: "csv_cell list \<Rightarrow> u8 list" where
  "row_bytes [] = [CSV_LF]"
| "row_bytes [x] = cell_bytes x @ [CSV_LF]"
| "row_bytes (x # row) = cell_bytes x @ CSV_COMMA # row_bytes row"

definition row_events :: "csv_cell list \<Rightarrow> csv_event list" where
  "row_events row = map (\<lambda>x. Field (Some (cell_text x))) row @ [Row (uint CSV_LF)]"

definition standard :: "csv_parser \<Rightarrow> bool" where
  "standard p \<longleftrightarrow> quote_char p = CSV_QUOTE \<and> delim_char p = CSV_COMMA \<and> is_space p = None \<and> is_term p = None \<and>
     \<not> opt p CSV_EMPTY_IS_NULL"

lemma standard_chars:
  "standard p \<Longrightarrow> quote_char p = CSV_QUOTE \<and> delim_char p = CSV_COMMA \<and> space_char p c = blank c \<and>
     term_char p c = (c = CSV_CR \<or> c = CSV_LF) \<and> \<not> opt p CSV_EMPTY_IS_NULL"
  by (simp add: standard_def space_char_def term_char_def blank_def)

lemma standard_config: "standard p \<Longrightarrow> same_config p q \<Longrightarrow> standard q"
  by (simp add: standard_def same_config_def opt_def)

text \<open>Inside quotes every byte is kept, doubled quotes once.\<close>

lemma run_escaped:
  assumes "standard p"
  shows "spec_run p (csv_escaped CSV_QUOTE s @ [CSV_QUOTE]) (FIELD_BEGUN, True, 0, f) =
    Some ([], FIELD_MIGHT_HAVE_ENDED, True, 0, f @ s @ [CSV_QUOTE])"
proof (induction s arbitrary: f)
  case Nil
  then show ?case using assms by (simp add: spec_byte_def standard_chars)
next
  case (Cons c s)
  then show ?case
    using assms Cons.IH [of "f @ [c]"] by (auto simp: spec_byte_def standard_chars Let_def blank_def)
qed

text \<open>In a plain field blanks are counted from the last byte that is not blank.\<close>

lemma run_plain:
  assumes "standard p" "\<forall>c \<in> set s. c \<notin> {CSV_QUOTE, CSV_COMMA, CSV_CR, CSV_LF}"
  shows "\<exists>sp'. spec_run p s (FIELD_BEGUN, False, sp, f) = Some ([], FIELD_BEGUN, False, sp', f @ s) \<and>
    (s = [] \<longrightarrow> sp' = sp) \<and> (s \<noteq> [] \<and> \<not> blank (last s) \<longrightarrow> sp' = 0)"
  using assms(2)
proof (induction s arbitrary: sp f)
  case (Cons c s)
  let ?sp = "if blank c then sp + 1 else 0"
  have b: "spec_byte p c (FIELD_BEGUN, False, sp, f) = Some ([], FIELD_BEGUN, False, ?sp, f @ [c])"
    using assms(1) Cons.prems by (auto simp: spec_byte_def standard_chars Let_def)
  obtain sp' where "spec_run p s (FIELD_BEGUN, False, ?sp, f @ [c]) = Some ([], FIELD_BEGUN, False, sp', (f @ [c]) @ s)"
    "s = [] \<longrightarrow> sp' = ?sp" "s \<noteq> [] \<and> \<not> blank (last s) \<longrightarrow> sp' = 0"
    using Cons.IH [of ?sp "f @ [c]"] Cons.prems by auto
  then show ?case using b by (intro exI [of _ sp']) simp
qed simp

text \<open>The last field, when the input did not end with its row.\<close>

definition spec_fini :: "csv_parser \<Rightarrow> csv_abs \<Rightarrow> csv_event list" where
  "spec_fini p = (\<lambda>(st, q, sp, f).
     if st = ROW_NOT_BEGUN then []
     else [if st = FIELD_MIGHT_HAVE_ENDED then Field (Some (take (length f - (sp + 1)) f)) else spec_field p q sp f, Row (-1)])"

text \<open>A state in which the next separator, or the end of the input, closes the field \<open>t\<close>.\<close>

definition closes :: "csv_parser \<Rightarrow> u8 list \<Rightarrow> csv_abs \<Rightarrow> bool" where
  "closes p t a \<longleftrightarrow>
     spec_byte p CSV_COMMA a = Some ([Field (Some t)], FIELD_NOT_BEGUN, False, 0, []) \<and>
     (fst a \<noteq> ROW_NOT_BEGUN \<longrightarrow> spec_byte p CSV_LF a = Some ([Field (Some t), Row (uint CSV_LF)], ROW_NOT_BEGUN, False, 0, []) \<and>
       spec_fini p a = [Field (Some t), Row (-1)])"

lemma run_cell:
  assumes "standard p" "cell_ok x" "st = ROW_NOT_BEGUN \<or> st = FIELD_NOT_BEGUN"
  shows "\<exists>a. spec_run p (cell_bytes x) (st, False, 0, []) = Some ([], a) \<and> closes p (cell_text x) a \<and>
    (fst a = ROW_NOT_BEGUN \<longrightarrow> x = Plain [] \<and> st = ROW_NOT_BEGUN)"
proof (cases x)
  case (Quoted s)
  have q: "spec_byte p CSV_QUOTE (st, False, 0, []) = Some ([], FIELD_BEGUN, True, 0, [])"
    using assms by (auto simp: spec_byte_def standard_chars Let_def blank_def)
  let ?a = "(FIELD_MIGHT_HAVE_ENDED, True, 0::nat, s @ [CSV_QUOTE])"
  have "spec_run p (csv_quoted CSV_QUOTE s) (st, False, 0, []) = Some ([], ?a)"
    using run_escaped [OF assms(1), of s "[]"] q by (simp add: csv_quoted_def)
  moreover have "closes p s ?a" using assms(1) by (simp add: closes_def spec_fini_def spec_byte_def standard_chars Let_def blank_def)
  ultimately show ?thesis using Quoted by auto
next
  case (Plain s)
  show ?thesis
  proof (cases s)
    case Nil
    have "closes p [] (st, False, 0, [])"
      using assms by (auto simp: closes_def spec_fini_def spec_byte_def spec_field_def standard_chars Let_def blank_def)
    then show ?thesis using Plain Nil by auto
  next
    case (Cons c r)
    have c: "c \<notin> {CSV_QUOTE, CSV_COMMA, CSV_CR, CSV_LF}" "\<not> blank c" "\<not> blank (last s)"
      "\<forall>b \<in> set r. b \<notin> {CSV_QUOTE, CSV_COMMA, CSV_CR, CSV_LF}"
      using assms(2) Plain Cons by auto
    have b: "spec_byte p c (st, False, 0, []) = Some ([], FIELD_BEGUN, False, 0, [c])"
    proof -
      have "c \<noteq> quote_char p" "c \<noteq> delim_char p" "\<not> space_char p c" "\<not> term_char p c"
        using standard_chars [OF assms(1), of c] c by auto
      then show ?thesis using assms(3) by (elim disjE) (simp_all add: spec_byte_def Let_def)
    qed
    obtain sp where sp: "spec_run p r (FIELD_BEGUN, False, 0, [c]) = Some ([], FIELD_BEGUN, False, sp, [c] @ r)"
      "r = [] \<longrightarrow> sp = 0" "r \<noteq> [] \<and> \<not> blank (last r) \<longrightarrow> sp = 0"
      using run_plain [OF assms(1) c(4)] by blast
    have "sp = 0" using sp c(3) Cons by (cases "r = []") auto
    moreover have "closes p s (FIELD_BEGUN, False, 0, s)"
      using assms(1) by (auto simp: closes_def spec_fini_def spec_byte_def spec_field_def standard_chars Let_def blank_def)
    ultimately show ?thesis using sp(1) b Plain Cons by auto
  qed
qed

lemma run_row_rest:
  assumes "standard p" "list_all cell_ok row" "row \<noteq> []" "st = FIELD_NOT_BEGUN \<or> st = ROW_NOT_BEGUN \<and> row \<noteq> [Plain []]"
  shows "spec_run p (row_bytes row) (st, False, 0, []) = Some (row_events row, ROW_NOT_BEGUN, False, 0, [])"
  using assms(2-)
proof (induction row arbitrary: st rule: row_bytes.induct)
  case (2 x)
  then obtain a where "spec_run p (cell_bytes x) (st, False, 0, []) = Some ([], a)" "closes p (cell_text x) a" "fst a \<noteq> ROW_NOT_BEGUN"
    using run_cell [OF assms(1), of x st] by auto
  then show ?case by (auto simp: spec_run_append closes_def row_events_def)
next
  case (3 x y row)
  then obtain a where "spec_run p (cell_bytes x) (st, False, 0, []) = Some ([], a)" "closes p (cell_text x) a"
    using run_cell [OF assms(1), of x st] by auto
  moreover have "spec_run p (row_bytes (y # row)) (FIELD_NOT_BEGUN, False, 0, []) = Some (row_events (y # row), ROW_NOT_BEGUN, False, 0, [])"
    using "3.IH" "3.prems" by auto
  ultimately show ?case by (simp add: spec_run_append closes_def row_events_def)
qed simp

lemma run_rows:
  assumes "standard p" "list_all row_ok rows"
  shows "spec_run p (concat (map row_bytes rows)) (ROW_NOT_BEGUN, False, 0, []) =
    Some (concat (map row_events rows), ROW_NOT_BEGUN, False, 0, [])"
  using assms(2)
proof (induction rows)
  case (Cons row rows)
  then show ?case using run_row_rest [OF assms(1), of row ROW_NOT_BEGUN] by (auto simp: spec_run_append row_ok_def)
qed simp

text \<open>A last row without its newline: its last field is still open.\<close>

lemma run_open_row:
  assumes "standard p" "list_all cell_ok row" "row \<noteq> []" "st = FIELD_NOT_BEGUN \<or> st = ROW_NOT_BEGUN \<and> row \<noteq> [Plain []]"
  shows "\<exists>a. spec_run p (butlast (row_bytes row)) (st, False, 0, []) = Some (map (\<lambda>x. Field (Some (cell_text x))) (butlast row), a) \<and>
    spec_fini p a = [Field (Some (cell_text (last row))), Row (-1)]"
  using assms(2-)
proof (induction row arbitrary: st rule: row_bytes.induct)
  case (2 x)
  then obtain a where "spec_run p (cell_bytes x) (st, False, 0, []) = Some ([], a)" "closes p (cell_text x) a" "fst a \<noteq> ROW_NOT_BEGUN"
    using run_cell [OF assms(1), of x st] by auto
  then show ?case by (auto simp: closes_def)
next
  case (3 x y row)
  then obtain b where b: "spec_run p (cell_bytes x) (st, False, 0, []) = Some ([], b)" "closes p (cell_text x) b"
    using run_cell [OF assms(1), of x st] by auto
  obtain a where a: "spec_run p (butlast (row_bytes (y # row))) (FIELD_NOT_BEGUN, False, 0, []) =
      Some (map (\<lambda>x. Field (Some (cell_text x))) (butlast (y # row)), a)"
    "spec_fini p a = [Field (Some (cell_text (last (y # row)))), Row (-1)]"
    using "3.IH" [of FIELD_NOT_BEGUN] "3.prems"(1) by (simp del: row_bytes.simps list.map append.simps butlast.simps last.simps) blast
  have "row_bytes (y # row) \<noteq> []" by (cases row) simp_all
  then have "butlast (row_bytes (x # y # row)) = cell_bytes x @ CSV_COMMA # butlast (row_bytes (y # row))"
    by (simp add: butlast_append)
  moreover have "spec_byte p CSV_COMMA b = Some ([Field (Some (cell_text x))], FIELD_NOT_BEGUN, False, 0, [])"
    using b(2) by (simp add: closes_def)
  ultimately have "spec_run p (butlast (row_bytes (x # y # row))) (st, False, 0, []) =
      Some (Field (Some (cell_text x)) # map (\<lambda>x. Field (Some (cell_text x))) (butlast (y # row)), a)"
    using a(1) b(1) by (simp add: spec_run_append)
  then show ?case using a(2) by (intro exI [of _ a]) simp
qed simp

section \<open>The end of the input\<close>

lemma csv_fini_refines:
  assumes "csv_inv p" "\<not> (pstate p = FIELD_BEGUN \<and> quoted p \<and> opt p CSV_STRICT \<and> opt p CSV_STRICT_FINI)"
  shows "\<exists>p'. csv_inv p' \<and> same_config p p' \<and> abs_of p' = (ROW_NOT_BEGUN, False, 0, []) \<and> csv_error p' = 0 \<and>
    (\<forall>d. csv_fini cb1 cb2 p d = c_bind (run_events cb1 cb2 (spec_fini p (abs_of p)) d) (\<lambda>d. Inr (0, p', d)))"
proof -
  let ?reset = "\<lambda>p. p\<lparr>spaces := 0, quoted := False, entry_pos := 0, status := 0, pstate := ROW_NOT_BEGUN\<rparr>"
  have ok: "csv_inv (?reset q) \<and> same_config p (?reset q) \<and> abs_of (?reset q) = (ROW_NOT_BEGUN, False, 0, []) \<and> csv_error (?reset q) = 0"
    if "csv_inv q" "same_config p q" for q
    using that by (auto simp: csv_inv_def same_config_def abs_of_def field_read_def limit_def opt_def config_ok_def csv_error_def split: option.splits)
  show ?thesis
  proof (cases "pstate p = ROW_NOT_BEGUN")
    case True
    then show ?thesis using ok [OF assms(1) same_config_refl] assms(2)
      by (intro exI [of _ "?reset p"]) (auto simp: csv_fini_def spec_fini_def abs_of_def Let_def)
  next
    case False
    let ?m = "if pstate p = FIELD_MIGHT_HAVE_ENDED then entry_pos p - (spaces p + 1) else entry_pos p"
    have z: "entry_buf p \<noteq> None" "0 \<le> ?m" "?m \<le> entry_pos p" "\<not> quoted p \<Longrightarrow> spaces p \<le> ?m" "0 \<le> spaces p"
      "pstate p = FIELD_MIGHT_HAVE_ENDED \<Longrightarrow> quoted p \<and> spaces p + 1 \<le> entry_pos p"
      using assms(1) False by (auto simp: csv_inv_def split: option.splits csv_pstate.splits)
    have "length (field_read p) = nat (entry_pos p)"
      using assms(1) z(1) by (auto simp: csv_inv_def field_read_def limit_def split: if_splits)
    then have t: "take (nat ?m) (field_read p) = (if pstate p = FIELD_MIGHT_HAVE_ENDED
        then take (length (field_read p) - (nat (spaces p) + 1)) (field_read p) else field_read p)"
      using z by (auto simp: nat_diff_distrib nat_add_distrib)
    obtain p1 where p1: "between p p1 FIELD_NOT_BEGUN" "\<forall>d. SUBMIT_FIELD cb1 (p\<lparr>entry_pos := ?m\<rparr>) d =
        c_bind (run_event cb1 cb2 (spec_field p (quoted p) (nat (spaces p)) (take (nat ?m) (field_read p))) d) (\<lambda>d. Inr (p1, d))"
      using SUBMIT_FIELD_ok [OF assms(1) z(1-4)] by blast
    let ?p2 = "p1\<lparr>pstate := ROW_NOT_BEGUN, entry_pos := 0, quoted := False, spaces := 0\<rparr>"
    have "csv_fini cb1 cb2 p d = c_bind (submit_field_row cb1 cb2 (-1) (p\<lparr>entry_pos := ?m\<rparr>) d) (\<lambda>(p, d). Inr (0, ?reset p, d))" for d
      using False assms(2) by (auto simp: csv_fini_def Let_def)
    moreover have "spec_fini p (abs_of p) = [spec_field p (quoted p) (nat (spaces p)) (take (nat ?m) (field_read p)), Row (-1)]"
      using False z(6) unfolding t by (auto simp: spec_fini_def abs_of_def spec_field_def)
    ultimately have "csv_fini cb1 cb2 p d = c_bind (run_events cb1 cb2 (spec_fini p (abs_of p)) d) (\<lambda>d. Inr (0, ?reset p1, d))" for d
      using p1(2) by (simp add: submit_field_row_def SUBMIT_ROW_def c_bind_assoc)
    moreover have "csv_inv p1" "same_config p p1" using p1(1) by (simp_all add: between_def)
    ultimately show ?thesis using ok by blast
  qed
qed

lemma csv_fini_safe:
  assumes "callbacks_total cb1 cb2" "csv_inv p"
  shows "\<exists>r p' d'. csv_fini cb1 cb2 p d = Inr (r, p', d') \<and> csv_inv p' \<and> same_config p p' \<and>
    (if pstate p = FIELD_BEGUN \<and> quoted p \<and> opt p CSV_STRICT \<and> opt p CSV_STRICT_FINI
     then r = -1 \<and> csv_error p' = CSV_EPARSE else r = 0 \<and> csv_error p' = 0 \<and> abs_of p' = (ROW_NOT_BEGUN, False, 0, []))"
proof (cases "pstate p = FIELD_BEGUN \<and> quoted p \<and> opt p CSV_STRICT \<and> opt p CSV_STRICT_FINI")
  case False
  then show ?thesis
    using csv_fini_refines [OF assms(2) False, of cb1 cb2] run_events_total [OF assms(1), of "spec_fini p (abs_of p)" d] by auto
next
  case True
  then have "csv_fini cb1 cb2 p d = Inr (-1, p\<lparr>status := CSV_EPARSE\<rparr>, d)" by (simp add: csv_fini_def)
  moreover have "csv_inv (p\<lparr>status := CSV_EPARSE\<rparr>)" "same_config p (p\<lparr>status := CSV_EPARSE\<rparr>)"
    using assms(2) by (auto simp: csv_inv_def same_config_def limit_def opt_def config_ok_def split: option.splits csv_pstate.splits)
  ultimately show ?thesis using True by (auto simp: csv_error_def)
qed

section \<open>A memory to run the parser on\<close>

text \<open>A \<open>realloc\<close> that grants every request, the new bytes zero, and one that grants at most \<open>m\<close> bytes.\<close>

definition zero_realloc :: "u8 list option \<Rightarrow> int \<Rightarrow> u8 list option" where
  "zero_realloc b n = (let old = take (nat n) (case b of None \<Rightarrow> [] | Some v \<Rightarrow> v) in Some (old @ replicate (nat n - length old) 0))"

definition small_realloc :: "int \<Rightarrow> u8 list option \<Rightarrow> int \<Rightarrow> u8 list option" where
  "small_realloc m b n = (if n \<le> m then zero_realloc b n else None)"

lemma zero_realloc_ok: "realloc_ok zero_realloc" "realloc_ok (small_realloc m)" "zero_realloc b n \<noteq> None"
  by (auto simp: realloc_ok_def zero_realloc_def small_realloc_def Let_def split: option.splits)

lemma zero_init: "csv_inv (csv_init zero_realloc opts)" "standard (csv_init zero_realloc 0)"
  "abs_of (csv_init zero_realloc opts) = (ROW_NOT_BEGUN, False, 0, [])"
  "n + 1 < SIZE_MAX \<Longrightarrow> memory_for (csv_init zero_realloc opts) n"
  using init_inv [OF zero_realloc_ok(1)] zero_realloc_ok(3)
  by (simp_all add: standard_def csv_init_def opt_def abs_of_def field_read_def memory_for_def)

text \<open>Callbacks that record what they get.\<close>

definition record_field :: "u8 list option \<Rightarrow> csv_event list \<Rightarrow> csv_event list c_result" where
  "record_field f es = Inr (es @ [Field f])"

definition record_row :: "int \<Rightarrow> csv_event list \<Rightarrow> csv_event list c_result" where
  "record_row c es = Inr (es @ [Row c])"

lemma record_total: "callbacks_total record_field record_row"
  by (simp add: callbacks_total_def record_field_def record_row_def)

lemma run_recorded: "run_events record_field record_row es fs = Inr (fs @ es)"
proof (induction es arbitrary: fs)
  case (Cons e es)
  then show ?case by (cases e) (simp_all add: record_field_def record_row_def)
qed simp

section \<open>Properties\<close>

text \<open>C20: The CSV round trip: rows of cells, each in quotes as the writers write it or plain, are parsed to exactly
  their texts, field by field and row by row, for any bytes in the quoted cells, any callbacks, and any parser that is
  between two rows, uses the standard separators and has the memory.\<close>

theorem csv_round_trip:
  assumes "csv_inv p" "standard p" "abs_of p = (ROW_NOT_BEGUN, False, 0, [])" "list_all row_ok rows"
    and "memory_for p (int (length (concat (map row_bytes rows))))"
  shows "\<exists>p'. csv_inv p' \<and> same_config p p' \<and> abs_of p' = (ROW_NOT_BEGUN, False, 0, []) \<and>
    (\<forall>d. csv_parse cb1 cb2 (concat (map row_bytes rows)) p d =
       c_bind (run_events cb1 cb2 (concat (map row_events rows)) d)
         (\<lambda>d. Inr (int (length (concat (map row_bytes rows))), p', d)))"
proof -
  have "spec_run p (concat (map row_bytes rows)) (abs_of p) = Some (concat (map row_events rows), ROW_NOT_BEGUN, False, 0, [])"
    using run_rows [OF assms(2,4)] assms(3) by simp
  then show ?thesis using csv_parse_refines [OF assms(1,5), of _ _ cb1 cb2] by blast
qed

theorem csv_round_trip_witness:
  "\<exists>p'. csv_parse record_field record_row (row_bytes [Quoted (cstr ''a\"b,''), Plain (cstr ''80'')]) (csv_init zero_realloc 0) [] =
     Inr (11, p', [Field (Some (cstr ''a\"b,'')), Field (Some (cstr ''80'')), Row 10])"
proof -
  let ?row = "[Quoted (cstr ''a\"b,''), Plain (cstr ''80'')]"
  have ok: "list_all row_ok [?row]" by (simp add: row_ok_def blank_def)
  have "memory_for (csv_init zero_realloc 0) (int (length (concat (map row_bytes [?row]))))"
    by (rule zero_init(4)) (simp add: csv_quoted_def)
  then show ?thesis
    using csv_round_trip [OF zero_init(1,2,3) ok, of record_field record_row]
    by (auto simp: record_field_def record_row_def row_events_def csv_quoted_def)
qed

text \<open>C21: The parser is memory safe whatever the input, the options and the memory: in every well-formed state
  \<open>csv_parse\<close> and \<open>csv_fini\<close> access the buffer inside its bounds only and leave a well-formed state. A \<open>csv_parse\<close> that
  stops early says why in the status (a refused byte, no memory, too big). \<open>csv_fini\<close> refuses exactly the end of the input
  inside a quoted field in strict mode: then it answers -1 and the status says parse error; otherwise it answers 0, the
  status is success and the parser is ready for the next input.\<close>

theorem csv_parse_memory_safe:
  assumes "callbacks_total cb1 cb2" "csv_inv p"
  shows "\<exists>n p' d' r p'' d''. csv_parse cb1 cb2 us p d = Inr (n, p', d') \<and> csv_inv p' \<and> same_config p p' \<and>
    0 \<le> n \<and> n \<le> int (length us) \<and> (n < int (length us) \<longrightarrow> csv_error p' \<in> {CSV_EPARSE, CSV_ENOMEM, CSV_ETOOBIG}) \<and>
    csv_fini cb1 cb2 p' d' = Inr (r, p'', d'') \<and> csv_inv p'' \<and> same_config p p'' \<and>
    (if pstate p' = FIELD_BEGUN \<and> quoted p' \<and> opt p CSV_STRICT \<and> opt p CSV_STRICT_FINI
     then r = -1 \<and> csv_error p'' = CSV_EPARSE else r = 0 \<and> csv_error p'' = 0 \<and> abs_of p'' = (ROW_NOT_BEGUN, False, 0, []))"
proof -
  obtain n p' d' where a: "csv_parse cb1 cb2 us p d = Inr (n, p', d')" "csv_inv p'" "same_config p p'"
    "0 \<le> n" "n \<le> int (length us)" "n < int (length us) \<longrightarrow> csv_error p' \<in> {CSV_EPARSE, CSV_ENOMEM, CSV_ETOOBIG}"
    using csv_parse_safe [OF assms, of us d] by blast
  have "opt p' k = opt p k" for k using a(3) by (simp add: same_config_def opt_def)
  moreover have "same_config p' q \<Longrightarrow> same_config p q" for q using a(3) by (simp add: same_config_def)
  ultimately show ?thesis using csv_fini_safe [OF assms(1) a(2), of d'] a by metis
qed

theorem csv_parse_memory_safe_witness:
  "\<exists>n p' d'. csv_parse record_field record_row (replicate 100 65) (csv_init (small_realloc 40) CSV_APPEND_NULL) [] = Inr (n, p', d') \<and>
     csv_inv p'"
  using csv_parse_memory_safe [OF record_total init_inv [OF zero_realloc_ok(2)],
      of "replicate 100 65" 40 CSV_APPEND_NULL "[]"] by blast

text \<open>C22: How the input is cut into calls does not matter: parsing two pieces in one call is parsing the first and,
  when all of it was accepted, the second in the state it left; the callbacks see the same.\<close>

theorem csv_parse_in_chunks:
  assumes "csv_inv p"
  shows "csv_parse cb1 cb2 (us @ vs) p d =
    c_bind (csv_parse cb1 cb2 us p d) (\<lambda>(n, p', d').
      if n = int (length us) then c_bind (csv_parse cb1 cb2 vs p' d') (\<lambda>(k, p', d'). Inr (n + k, p', d')) else Inr (n, p', d'))"
  by (rule csv_parse_append [OF assms])

theorem csv_parse_in_chunks_witness:
  "csv_parse record_field record_row (cstr ''a,b'' @ cstr ''c'') (csv_init zero_realloc 0) [] =
     c_bind (csv_parse record_field record_row (cstr ''a,b'') (csv_init zero_realloc 0) []) (\<lambda>(n, p', d').
       if n = 3 then c_bind (csv_parse record_field record_row (cstr ''c'') p' d') (\<lambda>(k, p', d'). Inr (n + k, p', d'))
       else Inr (n, p', d'))"
  using csv_parse_in_chunks [OF zero_init(1) [of 0], of record_field record_row "cstr ''a,b''" "cstr ''c''" "[]"]
  by (simp del: cstr_simps)

text \<open>\<open>csv_write2\<close> returns the length of the quoted field, stores its first \<open>dest_size\<close> bytes and leaves the
  rest of the destination as it was; it never writes past \<open>dest_size\<close>.\<close>

theorem csv_write2_stores_prefix:
  assumes "0 \<le> dest_size" "dest_size \<le> int (length dest)" "int (length (csv_quoted quote src)) \<le> SIZE_MAX"
  shows "csv_write2 (Some dest) dest_size (Some src) quote =
    Inr (int (length (csv_quoted quote src)),
         Some (take (nat dest_size) (csv_quoted quote src) @ drop (length (take (nat dest_size) (csv_quoted quote src))) dest))"
  by (rule csv_write2_written [OF assms])

theorem csv_write2_stores_prefix_witness:
  "csv_write2 (Some [0, 0, 0, 0, 9]) 4 (Some (cstr ''a\"'')) CSV_QUOTE = Inr (5, Some [34, 97, 34, 34, 9])"
  using csv_write2_stores_prefix [of 4 "[0, 0, 0, 0, 9]" CSV_QUOTE "cstr ''a\"''"] by (simp add: csv_quoted_def)

text \<open>Growing the buffer either succeeds, with a larger block that still holds the field read so far and whose
  size fits, or leaves the parser as it was with the reason in the status; it asks for ever smaller blocks and ends.\<close>

theorem csv_increase_buffer_outcomes:
  assumes "csv_inv p" "csv_increase_buffer p = (r, q)"
  shows "r = 0 \<and> csv_inv q \<and> entry_size p < entry_size q \<and> entry_size q \<le> SIZE_MAX \<and> field_read q = field_read p \<or>
    r = -1 \<and> (q = p\<lparr>status := CSV_ENOMEM\<rparr> \<or> q = p\<lparr>status := CSV_ETOOBIG\<rparr>)"
proof -
  have "entry_size q \<le> SIZE_MAX" if "grown p q"
    using that by (auto simp: grown_def csv_inv_def split: option.splits)
  then show ?thesis using increase_cases [OF assms] by (auto simp: grown_def)
qed

theorem csv_increase_buffer_outcomes_witness:
  "entry_size (snd (csv_increase_buffer (csv_init (small_realloc 40) 0))) = 32"
proof -
  let ?p = "csv_init (small_realloc 40) 0"
  have e: "csv_increase_buffer ?p = (0, ?p\<lparr>entry_buf := Some (replicate 32 0), entry_size := 32\<rparr>)"
    by (simp add: csv_increase_buffer_def csv_init_def increment_def try_realloc.simps small_realloc_def zero_realloc_def)
  then show ?thesis using csv_increase_buffer_outcomes [OF init_inv [OF zero_realloc_ok(2)] e] by simp
qed

end
