(* ===== verification/Cdr_Asterisk.thy ===== *)
theory Cdr_Asterisk
  imports Csv_Format C_Stdlib
begin

text \<open>
  The call records of the exchange, \<open>test_csv3/cdr_asterisk.c\<close>: a CSV file of calls is turned into the
  billing file, one line for each answered call, between a header with a sequence number and a trailer
  with the count. The two callbacks work on a global record of five strings of forty bytes.
\<close>

section \<open>State\<close>

text \<open>
  The globals of the module and the stream being written. The members of \<open>cdr\<close> lie one after the other
  in memory, so a string without a NUL runs into the next member, as in C.
\<close>

record cdr_state =
  cdr :: "u8 list"
  campos_por_linea :: int
  lineas :: int
  processed_lines :: int
  outfile :: "u8 list"

abbreviation (input) CDR_FIELD_SIZE :: nat where "CDR_FIELD_SIZE \<equiv> 40"
abbreviation (input) CDR_ORIGIN :: int where "CDR_ORIGIN \<equiv> 1"
abbreviation (input) CDR_DEST :: int where "CDR_DEST \<equiv> 2"
abbreviation (input) CDR_DATE_ORIGIN :: int where "CDR_DATE_ORIGIN \<equiv> 9"
abbreviation (input) CDR_SECS_CHN_COMM :: int where "CDR_SECS_CHN_COMM \<equiv> 13"
abbreviation (input) CDR_CALL_STATE :: int where "CDR_CALL_STATE \<equiv> 14"

text \<open>Offsets of the members.\<close>

abbreviation (input) abonado :: nat where "abonado \<equiv> 0"
abbreviation (input) destino :: nat where "destino \<equiv> 40"
abbreviation (input) fecha_hora :: nat where "fecha_hora \<equiv> 80"
abbreviation (input) segundos :: nat where "segundos \<equiv> 120"
abbreviation (input) estado :: nat where "estado \<equiv> 160"

definition cdr_globals :: cdr_state where
  "cdr_globals = \<lparr>cdr = replicate 200 0, campos_por_linea = 0, lineas = 0, processed_lines = 0, outfile = []\<rparr>"

section \<open>The callbacks\<close>

definition FlushCDR :: "cdr_state \<Rightarrow> cdr_state" where
  "FlushCDR st = st\<lparr>cdr := replicate 200 0\<rparr>"

text \<open>The counters are \<open>int\<close>: one that leaves the range of an \<open>int\<close> is a fault. One case of \<open>cb1\<close>: \<open>strncpy\<close> of at most forty bytes of the field, without a NUL of its own.\<close>

definition copy_field :: "nat \<Rightarrow> u8 list \<Rightarrow> cdr_state \<Rightarrow> cdr_state c_result" where
  "copy_field member s st =
     c_bind (mem_write (cdr st) member (strncpy_bytes (if length s \<le> CDR_FIELD_SIZE then length s else CDR_FIELD_SIZE) s))
       (\<lambda>m. Inr (st\<lparr>cdr := m\<rparr>))"

definition cb1 :: "u8 list option \<Rightarrow> cdr_state \<Rightarrow> cdr_state c_result" where
  "cb1 field st =
     (let n = campos_por_linea st; s = (case field of None \<Rightarrow> [] | Some s \<Rightarrow> s) in
      c_bind (if n = CDR_ORIGIN then copy_field abonado s st
              else if n = CDR_DEST then copy_field destino s st
              else if n = CDR_DATE_ORIGIN then copy_field fecha_hora s st
              else if n = CDR_SECS_CHN_COMM then copy_field segundos s st
              else if n = CDR_CALL_STATE then copy_field estado s st
              else Inr st)
        (\<lambda>st. c_bind (inc_int (campos_por_linea st)) (\<lambda>n. Inr (st\<lparr>campos_por_linea := n\<rparr>))))"

definition end_of_row :: "cdr_state \<Rightarrow> cdr_state c_result" where
  "end_of_row st = c_bind (inc_int (lineas st)) (\<lambda>n. Inr ((FlushCDR st)\<lparr>campos_por_linea := 0, lineas := n\<rparr>))"

text \<open>
  The date and the time, two arrays of twenty bytes: not written when the string has no space. The date
  is copied into zeros; the time is copied with its NUL.
\<close>

definition split_date :: "u8 list \<Rightarrow> (u8 list \<times> u8 list) c_result" where
  "split_date s =
     (if 32 \<notin> set s then Inl Uninitialised
      else let pos = length (takeWhile (\<lambda>b. b \<noteq> 32) s); rest = drop (pos + 1) s in
        c_bind (mem_write (replicate 20 0) 0 (strncpy_bytes pos s)) (\<lambda>fecha.
        if length rest + 1 > 20 then Inl Out_Of_Bounds
        else c_bind (c_str_at fecha 0) (\<lambda>fecha. Inr (fecha, rest))))"

definition cb2 :: "int \<Rightarrow> cdr_state \<Rightarrow> cdr_state c_result" where
  "cb2 c st =
     (if take 8 (drop estado (cdr st)) \<noteq> cstr ''ANSWERED'' then end_of_row st
      else c_bind (atoi (drop segundos (cdr st))) (\<lambda>tiempo_comm.
        if tiempo_comm < 1 then end_of_row st
        else
        c_bind (c_str_at (cdr st) fecha_hora) (\<lambda>fh.
        c_bind (split_date fh) (\<lambda>(fecha, hora).
        c_bind (c_str_at (cdr st) abonado) (\<lambda>ab.
        c_bind (c_str_at (cdr st) destino) (\<lambda>de.
        c_bind (c_str_at (cdr st) segundos) (\<lambda>se.
        c_bind (inc_int (processed_lines st)) (\<lambda>n.
        end_of_row (st\<lparr>outfile := outfile st @ cstr ''C TOT,'' @ ab @ cstr '','' @ de @ cstr '','' @ fecha @ cstr '','' @
               hora @ cstr '','' @ se @ cstr '',1,1'' @ [13, 10],
             processed_lines := n\<rparr>)))))))))"

section \<open>The sequence file\<close>

definition seclama_path :: path where
  "seclama_path = cstr ''./seclama.log''"

definition AsteriskGetSecLama :: "files \<Rightarrow> (int \<times> files) c_result" where
  "AsteriskGetSecLama fs =
     (case contents fs seclama_path of
        None \<Rightarrow> Inr (-1, fs)
      | Some file \<Rightarrow>
          let buf = (if file = [] then seclama_path else fgets_line 128 file)
          in c_bind (atoi (takeWhile (\<lambda>b. b \<noteq> 0) buf)) (\<lambda>sequence.
             if sequence < 0 \<or> sequence > 65000 then Inr (-1, fs)
             else if \<not> writable fs seclama_path then Inr (-1, fs)
             else Inr (sequence, fs\<lparr>contents := (contents fs)(seclama_path \<mapsto> decimal_digits (nat (sequence + 1)))\<rparr>)))"

text \<open>The lines of the input, each cut at its first NUL by \<open>strlen\<close>, go to the parser one by one.\<close>

fun parse_lines :: "u8 list list \<Rightarrow> csv_parser \<Rightarrow> cdr_state \<Rightarrow> (bool \<times> csv_parser \<times> cdr_state) c_result" where
  "parse_lines [] p st = Inr (True, p, st)"
| "parse_lines (buf # bufs) p st =
     (let s = takeWhile (\<lambda>b. b \<noteq> 0) buf in
      c_bind (csv_parse cb1 cb2 s p st) (\<lambda>(n, p, st).
        if n \<noteq> int (length s) then Inr (False, p, st) else parse_lines bufs p st))"

definition AsteriskCDRProcessFile ::
  "(u8 list option \<Rightarrow> int \<Rightarrow> u8 list option) \<Rightarrow> path \<Rightarrow> path \<Rightarrow> cdr_state \<Rightarrow> files \<Rightarrow> (bool \<times> cdr_state \<times> files) c_result" where
  "AsteriskCDRProcessFile realloc input output st fs =
     c_bind (AsteriskGetSecLama fs) (\<lambda>(seq, fs).
      if seq = -1 \<or> contents fs input = None \<or> \<not> writable fs output then Inr (False, st, fs)
      else
        let infile = (if output = input then [] else the (contents fs input));
            header = cstr ''C TOT,'' @ decimal_digits (nat seq) @ cstr '',SECUENCIA'' @ [13, 10];
            close = (\<lambda>st. fs\<lparr>contents := (contents fs)(output \<mapsto> outfile st)\<rparr>)
        in c_bind (parse_lines (fgets_all 1024 infile) (csv_init realloc 0) (st\<lparr>processed_lines := 0, outfile := header\<rparr>)) (\<lambda>(ok, p, st).
           if \<not> ok then Inr (False, st, close st)
           else
             let trailer = cstr '',FIN,'' @ decimal_digits (nat (processed_lines st)) @ [13, 10]
             in c_bind (csv_fini cb1 cb2 p (st\<lparr>outfile := outfile st @ trailer\<rparr>)) (\<lambda>(_, _, st).
                Inr (True, st, close st))))"

section \<open>One row\<close>

text \<open>A column of a row; a row that is too short has empty columns at its end.\<close>

definition column :: "u8 list list \<Rightarrow> nat \<Rightarrow> u8 list" where
  "column ts k = (if k < length ts then ts ! k else [])"

definition pad40 :: "u8 list \<Rightarrow> u8 list" where
  "pad40 s = s @ replicate (40 - length s) 0"

definition cdr_mem :: "u8 list list \<Rightarrow> u8 list" where
  "cdr_mem ts = pad40 (column ts 1) @ pad40 (column ts 2) @ pad40 (column ts 9) @ pad40 (column ts 13) @ pad40 (column ts 14)"

text \<open>A row the record can hold: its five columns shorter than forty bytes, without NUL.\<close>

definition row_fits :: "u8 list list \<Rightarrow> bool" where
  "row_fits ts \<longleftrightarrow> (\<forall>k \<in> {1, 2, 9, 13, 14}. length (column ts k) < 40 \<and> 0 \<notin> set (column ts k))"

definition billed :: "u8 list list \<Rightarrow> bool" where
  "billed ts \<longleftrightarrow> take 8 (column ts 14) = cstr ''ANSWERED'' \<and> 1 \<le> atoi_value (column ts 13)"

text \<open>The seconds of an answered call are a number that fits an \<open>int\<close>.\<close>

definition seconds_fit :: "u8 list list \<Rightarrow> bool" where
  "seconds_fit ts \<longleftrightarrow> (take 8 (column ts 14) = cstr ''ANSWERED'' \<longrightarrow>
     INT_MIN \<le> atoi_value (column ts 13) \<and> atoi_value (column ts 13) \<le> INT_MAX)"

definition date_of :: "u8 list \<Rightarrow> u8 list" where
  "date_of s = takeWhile (\<lambda>b. b \<noteq> 32) s"

definition time_of :: "u8 list \<Rightarrow> u8 list" where
  "time_of s = drop (length (date_of s) + 1) s"

definition date_fits :: "u8 list \<Rightarrow> bool" where
  "date_fits s \<longleftrightarrow> 32 \<in> set s \<and> length (date_of s) < 20 \<and> length (time_of s) < 20"

definition lama_line :: "u8 list list \<Rightarrow> u8 list" where
  "lama_line ts = cstr ''C TOT,'' @ column ts 1 @ cstr '','' @ column ts 2 @ cstr '','' @ date_of (column ts 9) @ cstr '','' @
     time_of (column ts 9) @ cstr '','' @ column ts 13 @ cstr '',1,1'' @ [13, 10]"

lemma length_pad40: "length s \<le> 40 \<Longrightarrow> length (pad40 s) = 40"
  by (simp add: pad40_def)

lemma column_snoc: "column (ts @ [t]) k = (if k = length ts then t else column ts k)"
  by (simp add: column_def nth_append)

lemma column_past: "length ts \<le> k \<Longrightarrow> column ts k = []"
  by (simp add: column_def)

text \<open>Copying a field over an empty member.\<close>

lemma copy_into_zeros:
  assumes "length a = k" "length s < 40" "0 \<notin> set s"
  shows "mem_write (a @ pad40 [] @ b) k (strncpy_bytes (if length s \<le> CDR_FIELD_SIZE then length s else CDR_FIELD_SIZE) s) =
    Inr (a @ pad40 s @ b)"
proof -
  have "drop (length s) (replicate 40 (0 :: u8)) = replicate (40 - length s) 0" by simp
  then show ?thesis using assms by (simp add: mem_write_def strncpy_bytes_eq pad40_def)
qed

definition at_column :: "u8 list list \<Rightarrow> cdr_state \<Rightarrow> bool" where
  "at_column ts st \<longleftrightarrow> cdr st = cdr_mem ts \<and> campos_por_linea st = int (length ts)"

lemma row_fits_snoc:
  assumes "row_fits (ts @ [t])"
  shows "row_fits ts" "length ts \<in> {1, 2, 9, 13, 14} \<Longrightarrow> length t < 40 \<and> 0 \<notin> set t"
proof -
  have "length (column ts k) < 40 \<and> 0 \<notin> set (column ts k)" if "k \<in> {1, 2, 9, 13, 14}" for k
    using assms that column_past [of ts k] by (cases "k = length ts") (auto simp: row_fits_def column_snoc)
  then show "row_fits ts" by (simp add: row_fits_def)
  show "length ts \<in> {1, 2, 9, 13, 14} \<Longrightarrow> length t < 40 \<and> 0 \<notin> set t"
    using assms by (auto simp: row_fits_def column_snoc)
qed

lemma member_lengths:
  assumes "row_fits ts" "k \<in> {1, 2, 9, 13, 14}"
  shows "length (pad40 (column ts k)) = 40"
  using assms by (intro length_pad40) (auto simp: row_fits_def)

lemma cb1_column:
  assumes "row_fits (ts @ [t])" "at_column ts st" "int (length ts) < INT_MAX"
  shows "cb1 (Some t) st = Inr (st\<lparr>cdr := cdr_mem (ts @ [t]), campos_por_linea := int (length ts) + 1\<rparr>)"
proof -
  have f: "row_fits ts" using row_fits_snoc(1) [OF assms(1)] .
  have l: "length (pad40 (column ts k)) = 40" if "k \<in> {1, 2, 9, 13, 14}" for k using member_lengths [OF f that] .
  note c = copy_into_zeros [of "[]" 0 t] copy_into_zeros [of "pad40 (column ts 1)" 40 t]
    copy_into_zeros [of "pad40 (column ts 1) @ pad40 (column ts 2)" 80 t]
    copy_into_zeros [of "pad40 (column ts 1) @ pad40 (column ts 2) @ pad40 (column ts 9)" 120 t]
    copy_into_zeros [of "pad40 (column ts 1) @ pad40 (column ts 2) @ pad40 (column ts 9) @ pad40 (column ts 13)" 160 t "[]"]
  have st: "campos_por_linea st = int (length ts)" "cdr st = cdr_mem ts" using assms(2) by (simp_all add: at_column_def)
  have past: "column ts k = []" if "length ts = k" for k using that by (simp add: column_past)
  have v: "mem_write (cdr_mem ts) off (strncpy_bytes (if length t \<le> 40 then length t else 40) t) = Inr (cdr_mem (ts @ [t])) \<Longrightarrow>
      (length ts, off) \<in> {(1, 0), (2, 40), (9, 80), (13, 120), (14, 160)} \<Longrightarrow> ?thesis" for off
    using st assms(3) by (elim insertE emptyE) (simp_all add: cb1_def copy_field_def)
  consider "length ts = 1" | "length ts = 2" | "length ts = 9" | "length ts = 13" | "length ts = 14"
    | "length ts \<notin> {1, 2, 9, 13, 14}" by auto
  then show ?thesis
  proof cases
    case k: 1
    show ?thesis using c(1) past [OF k] l row_fits_snoc(2) [OF assms(1)] k by (intro v [of 0]) (simp_all add: cdr_mem_def column_snoc)
  next
    case k: 2
    show ?thesis using c(2) past [OF k] l row_fits_snoc(2) [OF assms(1)] k by (intro v [of 40]) (simp_all add: cdr_mem_def column_snoc)
  next
    case k: 3
    show ?thesis using c(3) past [OF k] l row_fits_snoc(2) [OF assms(1)] k by (intro v [of 80]) (simp_all add: cdr_mem_def column_snoc)
  next
    case k: 4
    show ?thesis using c(4) past [OF k] l row_fits_snoc(2) [OF assms(1)] k by (intro v [of 120]) (simp_all add: cdr_mem_def column_snoc)
  next
    case k: 5
    show ?thesis using c(5) past [OF k] l row_fits_snoc(2) [OF assms(1)] k by (intro v [of 160]) (simp_all add: cdr_mem_def column_snoc)
  next
    case k: 6
    then have "cdr_mem (ts @ [t]) = cdr_mem ts" by (auto simp: cdr_mem_def column_snoc)
    moreover have "int (length ts) \<notin> {1, 2, 9, 13, 14}" using k by auto
    ultimately show ?thesis using st assms(3) by (simp add: cb1_def)
  qed
qed

text \<open>What the end of a row reads: the five columns, each followed by a NUL.\<close>

lemma pad40_cons: "length s < 40 \<Longrightarrow> pad40 s = s @ 0 # replicate (39 - length s) 0"
  by (simp add: pad40_def Suc_diff_le flip: replicate_Suc)

lemma takeWhile_nul: "0 \<notin> set s \<Longrightarrow> takeWhile (\<lambda>b. b \<noteq> 0) (s @ 0 # r) = s"
  by (induction s) auto

lemma member_read:
  assumes "length a = k" "length s < 40" "0 \<notin> set s" "mem = a @ pad40 s @ b"
  shows "c_str_at mem k = Inr s" "atoi_value (drop k mem) = atoi_value s"
proof -
  have d: "drop k mem = s @ 0 # replicate (39 - length s) 0 @ b" using assms(1,2,4) by (simp add: pad40_cons)
  show "c_str_at mem k = Inr s" using assms(3) by (simp add: c_str_at_def d takeWhile_nul)
  show "atoi_value (drop k mem) = atoi_value s" unfolding d by (rule atoi_stop) (simp_all add: is_digit_def is_white_def)
qed

lemma row_reads:
  assumes "row_fits ts"
  shows "c_str_at (cdr_mem ts) abonado = Inr (column ts 1)" "c_str_at (cdr_mem ts) destino = Inr (column ts 2)"
    "c_str_at (cdr_mem ts) fecha_hora = Inr (column ts 9)" "c_str_at (cdr_mem ts) segundos = Inr (column ts 13)"
    "atoi_value (drop segundos (cdr_mem ts)) = atoi_value (column ts 13)"
proof -
  have l: "length (pad40 (column ts k)) = 40" if "k \<in> {1, 2, 9, 13, 14}" for k using member_lengths [OF assms that] .
  have f: "length (column ts k) < 40" "0 \<notin> set (column ts k)" if "k \<in> {1, 2, 9, 13, 14}" for k
    using assms that by (auto simp: row_fits_def)
  show "c_str_at (cdr_mem ts) abonado = Inr (column ts 1)" using f by (intro member_read [of "[]"]) (simp_all add: cdr_mem_def)
  show "c_str_at (cdr_mem ts) destino = Inr (column ts 2)"
    using f l by (intro member_read [of "pad40 (column ts 1)"]) (simp_all add: cdr_mem_def)
  show "c_str_at (cdr_mem ts) fecha_hora = Inr (column ts 9)"
    using f l by (intro member_read [of "pad40 (column ts 1) @ pad40 (column ts 2)"]) (simp_all add: cdr_mem_def)
  note m = member_read [of "pad40 (column ts 1) @ pad40 (column ts 2) @ pad40 (column ts 9)" segundos "column ts 13"]
  show "c_str_at (cdr_mem ts) segundos = Inr (column ts 13)" "atoi_value (drop segundos (cdr_mem ts)) = atoi_value (column ts 13)"
    using f l by (intro m; simp add: cdr_mem_def)+
qed

lemma answered_member:
  assumes "row_fits ts"
  shows "take 8 (drop estado (cdr_mem ts)) = cstr ''ANSWERED'' \<longleftrightarrow> take 8 (column ts 14) = cstr ''ANSWERED''"
proof -
  have l: "length (pad40 (column ts k)) = 40" if "k \<in> {1, 2, 9, 13, 14}" for k using member_lengths [OF assms that] .
  have "drop estado (cdr_mem ts) = pad40 (column ts 14)" using l by (simp add: cdr_mem_def)
  moreover have "take 8 (pad40 s) = cstr ''ANSWERED'' \<longleftrightarrow> take 8 s = cstr ''ANSWERED''" for s
  proof (cases "8 \<le> length s")
    case False
    then have "0 \<in> set (take 8 (pad40 s))" "length (take 8 s) < 8"
      by (auto simp: pad40_def)
    moreover have "0 \<notin> set (cstr ''ANSWERED'')" "length (cstr ''ANSWERED'') = 8" by simp_all
    ultimately show ?thesis by (metis less_irrefl)
  qed (simp add: pad40_def del: cstr_simps)
  ultimately show ?thesis by (simp del: cstr_simps)
qed

lemma date_copied:
  assumes "0 \<notin> set s"
  shows "0 \<notin> set (date_of s)" "strncpy_bytes (length (date_of s)) s = date_of s"
proof -
  let ?d = "date_of s"
  show n: "0 \<notin> set ?d" using assms set_takeWhileD [of 0 _ s] by (auto simp: date_of_def)
  have "take (length ?d) s = ?d" by (simp add: date_of_def takeWhile_eq_take [symmetric])
  then have "strncpy_bytes (length ?d) s = strncpy_bytes (length ?d) ?d" by (simp add: strncpy_bytes_def)
  then show "strncpy_bytes (length ?d) s = ?d" using n by (simp add: strncpy_bytes_eq)
qed

lemma split_date_fits:
  assumes "date_fits s" "0 \<notin> set s"
  shows "split_date s = Inr (date_of s, time_of s)"
proof -
  let ?d = "date_of s"
  note n = date_copied(1) [OF assms(2)] and w = date_copied(2) [OF assms(2)]
  have "c_str_at (?d @ replicate (20 - length ?d) 0) 0 = Inr ?d" if "length ?d < 20"
  proof -
    have "?d @ replicate (20 - length ?d) 0 = ?d @ 0 # replicate (19 - length ?d) 0"
      using that by (simp add: Suc_diff_le flip: replicate_Suc)
    then show ?thesis using n by (simp add: c_str_at_def takeWhile_nul)
  qed
  moreover have "time_of s = drop (Suc (length ?d)) s" by (simp add: time_of_def)
  ultimately show ?thesis
    using assms(1) w by (simp add: split_date_def date_fits_def mem_write_def date_of_def [symmetric] Let_def)
qed

lemma split_date_bad:
  assumes "\<not> date_fits s" "0 \<notin> set s"
  shows "split_date s = Inl (if 32 \<in> set s then Out_Of_Bounds else Uninitialised)"
proof (cases "32 \<in> set s")
  case True
  let ?d = "date_of s"
  note d = date_copied(1) [OF assms(2)] and w = date_copied(2) [OF assms(2)]
  have "time_of s = drop (Suc (length ?d)) s" by (simp add: time_of_def)
  then have t: "20 \<le> length ?d \<or> length (drop (Suc (length ?d)) s) + 1 > 20" using assms(1) True by (auto simp: date_fits_def)
  show ?thesis
  proof (cases "length ?d \<le> 20")
    case False
    then show ?thesis using True by (simp add: split_date_def mem_write_def date_of_def [symmetric] Let_def)
  next
    case fits: True
    show ?thesis
    proof (cases "length ?d = 20")
      case True
      then show ?thesis using \<open>32 \<in> set s\<close> w d
        by (simp add: split_date_def mem_write_def c_str_at_def date_of_def [symmetric] Let_def)
    next
      case False
      then show ?thesis using \<open>32 \<in> set s\<close> t fits w
        by (auto simp: split_date_def mem_write_def date_of_def [symmetric] Let_def)
    qed
  qed
qed (simp add: split_date_def)

text \<open>What the end of a row does to the state.\<close>

definition row_done :: "u8 list list \<Rightarrow> cdr_state \<Rightarrow> cdr_state" where
  "row_done ts st = st\<lparr>cdr := replicate 200 0, campos_por_linea := 0, lineas := lineas st + 1,
     processed_lines := processed_lines st + (if billed ts then 1 else 0),
     outfile := outfile st @ (if billed ts then lama_line ts else [])\<rparr>"

lemma end_of_row_done: "lineas st < INT_MAX \<Longrightarrow> \<not> billed ts \<Longrightarrow> end_of_row st = Inr (row_done ts st)"
  by (simp add: end_of_row_def FlushCDR_def row_done_def)

lemma cb2_row:
  assumes "row_fits ts" "at_column ts st" "billed ts \<Longrightarrow> date_fits (column ts 9)" "seconds_fit ts"
    and "lineas st < INT_MAX" "processed_lines st < INT_MAX"
  shows "cb2 c st = Inr (row_done ts st)"
proof -
  have m: "cdr st = cdr_mem ts" using assms(2) by (simp add: at_column_def)
  note r = row_reads [OF assms(1)] and a = answered_member [OF assms(1)]
  note e = end_of_row_done [OF assms(5), of ts]
  show ?thesis
  proof (cases "take 8 (column ts 14) = cstr ''ANSWERED''")
    case False
    then show ?thesis using a e by (simp add: cb2_def m billed_def del: cstr_simps)
  next
    case True
    then have t: "atoi (drop segundos (cdr_mem ts)) = Inr (atoi_value (column ts 13))"
      using assms(4) r(5) by (simp add: atoi_def seconds_fit_def)
    show ?thesis
    proof (cases "billed ts")
      case b: True
      have "split_date (column ts 9) = Inr (date_of (column ts 9), time_of (column ts 9))"
        using assms(1) by (intro split_date_fits assms(3) b) (simp add: row_fits_def)
      then show ?thesis
        using b r(1-4) a t assms(5,6) unfolding cb2_def m t
        by (simp add: billed_def row_done_def end_of_row_def FlushCDR_def lama_line_def del: cstr_simps)
    next
      case False
      then show ?thesis using True a e t unfolding cb2_def m t by (simp add: billed_def del: cstr_simps)
    qed
  qed
qed

definition clean :: "cdr_state \<Rightarrow> bool" where
  "clean st \<longleftrightarrow> cdr st = replicate 200 0 \<and> campos_por_linea st = 0"

lemma clean_at_column: "clean st \<longleftrightarrow> at_column [] st"
proof -
  have "cdr_mem [] = replicate 200 0" by (simp add: cdr_mem_def pad40_def column_def flip: replicate_add)
  then show ?thesis by (simp add: clean_def at_column_def)
qed

lemma fields_run:
  assumes "clean st" "row_fits ts" "int (length ts) \<le> INT_MAX"
  shows "run_events cb1 cb2 (map (\<lambda>t. Field (Some t)) ts) st = Inr (st\<lparr>cdr := cdr_mem ts, campos_por_linea := int (length ts)\<rparr>)"
  using assms(2,3)
proof (induction ts rule: rev_induct)
  case Nil
  then show ?case using assms(1) by (simp add: clean_at_column at_column_def)
next
  case (snoc t ts)
  let ?st = "st\<lparr>cdr := cdr_mem ts, campos_por_linea := int (length ts)\<rparr>"
  have "run_events cb1 cb2 (map (\<lambda>t. Field (Some t)) ts) st = Inr ?st" using snoc row_fits_snoc(1) by simp
  moreover have "at_column ts ?st" by (simp add: at_column_def)
  ultimately show ?case using cb1_column [OF snoc.prems(1)] snoc.prems(2) by (simp add: run_events_append)
qed

definition row_texts :: "csv_cell list \<Rightarrow> u8 list list" where
  "row_texts row = map cell_text row"

lemma row_events_texts: "row_events row = map (\<lambda>t. Field (Some t)) (row_texts row) @ [Row 10]"
  by (simp add: row_events_def row_texts_def comp_def)

text \<open>A row of the exchange that the program bills correctly.\<close>

definition call_row :: "csv_cell list \<Rightarrow> bool" where
  "call_row row \<longleftrightarrow> row_ok row \<and> row_fits (row_texts row) \<and> seconds_fit (row_texts row) \<and>
     (billed (row_texts row) \<longrightarrow> date_fits (column (row_texts row) 9))"

text \<open>The counters of the module stay in the range of an \<open>int\<close> while these rows are read.\<close>

definition counts_fit :: "csv_cell list list \<Rightarrow> cdr_state \<Rightarrow> bool" where
  "counts_fit rows st \<longleftrightarrow> lineas st + int (length rows) \<le> INT_MAX \<and> processed_lines st + int (length rows) \<le> INT_MAX \<and>
     (\<forall>row \<in> set rows. int (length row) \<le> INT_MAX)"

lemma row_run:
  assumes "clean st" "call_row row" "counts_fit [row] st"
  shows "run_events cb1 cb2 (row_events row) st = Inr (row_done (row_texts row) st)"
proof -
  let ?ts = "row_texts row"
  let ?st = "st\<lparr>cdr := cdr_mem ?ts, campos_por_linea := int (length ?ts)\<rparr>"
  have "run_events cb1 cb2 (map (\<lambda>t. Field (Some t)) ?ts) st = Inr ?st"
    using assms(2,3) by (intro fields_run [OF assms(1)]) (simp_all add: call_row_def counts_fit_def row_texts_def)
  moreover have "cb2 c ?st = Inr (row_done ?ts ?st)" for c
    using assms(2,3) by (intro cb2_row) (simp_all add: call_row_def at_column_def counts_fit_def)
  moreover have "row_done ?ts ?st = row_done ?ts st" by (simp add: row_done_def)
  ultimately show ?thesis by (simp add: row_events_texts run_events_append)
qed

lemma row_done_clean: "clean (row_done ts st)"
  by (simp add: clean_def row_done_def)

lemma rows_run:
  assumes "clean st" "list_all call_row rows" "counts_fit rows st"
  shows "run_events cb1 cb2 (concat (map row_events rows)) st = Inr (fold row_done (map row_texts rows) st)"
  using assms
proof (induction rows arbitrary: st)
  case (Cons row rows)
  have "counts_fit [row] st" "counts_fit rows (row_done (row_texts row) st)"
    using Cons.prems(3) by (simp_all add: counts_fit_def row_done_def)
  then show ?case using Cons row_run [of st row] row_done_clean by (simp add: run_events_append)
qed simp

lemma rows_done:
  shows "outfile (fold row_done tss st) = outfile st @ concat (map lama_line (filter billed tss))"
    "processed_lines (fold row_done tss st) = processed_lines st + int (length (filter billed tss))"
    "lineas (fold row_done tss st) = lineas st + int (length tss)"
    "clean st \<Longrightarrow> clean (fold row_done tss st)"
proof -
  show "clean st \<Longrightarrow> clean (fold row_done tss st)" by (induction tss arbitrary: st) (simp_all add: row_done_clean)
qed (induction tss arbitrary: st; simp add: row_done_def)+

section \<open>The file\<close>

text \<open>Line by line or at once: the same, in a file without NUL bytes.\<close>

lemma parse_lines_concat:
  assumes "csv_inv p" "0 \<notin> set (concat bufs)"
  shows "parse_lines bufs p st =
    c_bind (csv_parse cb1 cb2 (concat bufs) p st) (\<lambda>(n, p, st).
      Inr (n = int (length (concat bufs)), p, st))"
  using assms
proof (induction bufs arbitrary: p st)
  case Nil
  then show ?case by (simp add: csv_parse_def)
next
  case (Cons buf bufs)
  have t: "takeWhile (\<lambda>b. b \<noteq> 0) buf = buf" using Cons.prems(2) by auto
  show ?case
  proof (cases "csv_parse cb1 cb2 buf p st")
    case (Inr r)
    then obtain n p' st' where r: "csv_parse cb1 cb2 buf p st = Inr (n, p', st')" by (cases r) auto
    have i: "csv_inv p'" "n \<le> int (length buf)" using csv_parse_inv [OF Cons.prems(1) r] by simp_all
    have IH: "parse_lines bufs p' st' = c_bind (csv_parse cb1 cb2 (concat bufs) p' st') (\<lambda>(n, p, st).
        Inr (n = int (length (concat bufs)), p, st))"
      by (rule Cons.IH [OF i(1)]) (use Cons.prems(2) in simp)
    show ?thesis
    proof (cases "n = int (length buf)")
      case True
      then show ?thesis using r csv_parse_append [OF Cons.prems(1), of cb1 cb2 buf "concat bufs" st]
        by (cases "csv_parse cb1 cb2 (concat bufs) p' st'") (simp_all add: t IH split: prod.splits)
    next
      case False
      then have "n \<noteq> int (length buf) + k" if "0 \<le> k" for k using i(2) that by linarith
      then show ?thesis using r False csv_parse_append [OF Cons.prems(1), of cb1 cb2 buf "concat bufs" st] by (simp add: t)
    qed
  qed (use csv_parse_append [OF Cons.prems(1), of cb1 cb2 buf "concat bufs" st] in \<open>simp add: t\<close>)
qed

lemma parse_file:
  assumes "realloc_ok realloc" "\<forall>b n. realloc b n \<noteq> None" "0 \<notin> set file" "int (length file) + 1 < SIZE_MAX"
    and "spec_run (csv_init realloc 0) file (ROW_NOT_BEGUN, False, 0, []) = Some (es, a)"
  shows "\<exists>p. csv_inv p \<and> same_config (csv_init realloc 0) p \<and> abs_of p = a \<and>
    (\<forall>st. parse_lines (fgets_all 1024 file) (csv_init realloc 0) st = c_bind (run_events cb1 cb2 es st) (\<lambda>st. Inr (True, p, st)))"
proof -
  let ?p = "csv_init realloc 0"
  have c: "concat (fgets_all 1024 file) = file" by (simp add: concat_fgets_all)
  have i: "csv_inv ?p" "abs_of ?p = (ROW_NOT_BEGUN, False, 0, [])" "memory_for ?p (int (length file))"
    using init_inv [OF assms(1)] assms(2,4) by (simp_all add: abs_of_def csv_init_def field_read_def memory_for_def)
  obtain p where p: "csv_inv p" "same_config ?p p" "abs_of p = a"
    "\<forall>d. csv_parse cb1 cb2 file ?p d = c_bind (run_events cb1 cb2 es d) (\<lambda>d. Inr (int (length file), p, d))"
    using csv_parse_refines [OF i(1,3), of es a cb1 cb2] assms(5) i(2) by auto
  have "parse_lines (fgets_all 1024 file) ?p st = c_bind (run_events cb1 cb2 es st) (\<lambda>st. Inr (True, p, st))" for st
    using parse_lines_concat [OF i(1), of "fgets_all 1024 file" st] assms(3) p(4) by (simp add: c c_bind_assoc)
  then show ?thesis using p(1-3) by blast
qed

text \<open>The sequence number is read, and the next one is left in the file.\<close>

lemma get_seclama:
  assumes "contents fs seclama_path = Some (decimal_digits k)" "k \<le> 65000" "writable fs seclama_path"
  shows "AsteriskGetSecLama fs = Inr (int k, fs\<lparr>contents := (contents fs)(seclama_path \<mapsto> decimal_digits (k + 1))\<rparr>)"
proof -
  let ?d = "decimal_digits k"
  have "10 \<notin> set ?d" "0 \<notin> set ?d" using decimal_digits_digits [of 10 k] decimal_digits_digits [of 0 k] by (auto simp: is_digit_def)
  moreover have "length ?d \<le> 127" using length_decimal_digits [of k 5] assms(2) by simp
  ultimately have d: "fgets_line 128 ?d = ?d" "takeWhile (\<lambda>b. b \<noteq> 0) ?d = ?d"
    by (auto simp: fgets_line_short)
  moreover have "atoi ?d = Inr (int k)" using atoi_decimal [of "[]" k] assms(2) by (simp add: atoi_def)
  moreover have "?d \<noteq> []" by (rule decimal_digits_nonempty)
  moreover have "nat (int k + 1) = k + 1" by simp
  ultimately show ?thesis using assms by (simp add: AsteriskGetSecLama_def Let_def d)
qed

text \<open>Once the counter has passed 65000 it is refused, and the file is left as it is.\<close>

lemma get_seclama_stuck:
  assumes "contents fs seclama_path = Some (decimal_digits k)" "65000 < k" "int k \<le> INT_MAX"
  shows "AsteriskGetSecLama fs = Inr (-1, fs)"
proof -
  let ?d = "decimal_digits k"
  have "10 \<notin> set ?d" "0 \<notin> set ?d" using decimal_digits_digits [of 10 k] decimal_digits_digits [of 0 k] by (auto simp: is_digit_def)
  moreover have "length ?d \<le> 127" using length_decimal_digits [of k 10] assms(3) by simp
  ultimately have d: "fgets_line 128 ?d = ?d" "takeWhile (\<lambda>b. b \<noteq> 0) ?d = ?d"
    by (auto simp: fgets_line_short)
  moreover have "atoi ?d = Inr (int k)" using atoi_decimal [of "[]" k] assms(3) by (simp add: atoi_def)
  ultimately show ?thesis using assms decimal_digits_nonempty [of k] by (simp add: AsteriskGetSecLama_def Let_def d)
qed

text \<open>
  What all runs of the program share: the memory, the sequence file, the input and the output. The input has
  fewer bytes than an \<open>int\<close> can count.
\<close>

definition lama_header :: "nat \<Rightarrow> u8 list" where
  "lama_header k = cstr ''C TOT,'' @ decimal_digits k @ cstr '',SECUENCIA'' @ [13, 10]"

definition lama_trailer :: "nat \<Rightarrow> u8 list" where
  "lama_trailer n = cstr '',FIN,'' @ decimal_digits n @ [13, 10]"

definition cdr_run_ready ::
  "(u8 list option \<Rightarrow> int \<Rightarrow> u8 list option) \<Rightarrow> path \<Rightarrow> path \<Rightarrow> nat \<Rightarrow> u8 list \<Rightarrow> cdr_state \<Rightarrow> files \<Rightarrow> bool" where
  "cdr_run_ready realloc input output k file st fs \<longleftrightarrow>
     realloc_ok realloc \<and> (\<forall>b n. realloc b n \<noteq> None) \<and> clean st \<and>
     contents fs seclama_path = Some (decimal_digits k) \<and> k \<le> 65000 \<and> writable fs seclama_path \<and>
     contents fs input = Some file \<and> 0 \<notin> set file \<and> 0 \<le> lineas st \<and> lineas st + int (length file) < INT_MAX \<and> writable fs output \<and>
     input \<noteq> output \<and> input \<noteq> seclama_path \<and> output \<noteq> seclama_path"

lemma cdr_run:
  assumes "cdr_run_ready realloc input output k file st fs"
    and "spec_run (csv_init realloc 0) file (ROW_NOT_BEGUN, False, 0, []) = Some (es, a)"
  shows "AsteriskCDRProcessFile realloc input output st fs =
    c_bind (run_events cb1 cb2 es (st\<lparr>processed_lines := 0, outfile := lama_header k\<rparr>)) (\<lambda>st.
    c_bind (run_events cb1 cb2 (spec_fini (csv_init realloc 0) a) (st\<lparr>outfile := outfile st @ lama_trailer (nat (processed_lines st))\<rparr>)) (\<lambda>st.
    Inr (True, st, fs\<lparr>contents := (contents fs)(seclama_path \<mapsto> decimal_digits (k + 1), output \<mapsto> outfile st)\<rparr>)))"
proof -
  let ?p = "csv_init realloc 0"
  let ?fs = "fs\<lparr>contents := (contents fs)(seclama_path \<mapsto> decimal_digits (k + 1))\<rparr>"
  note r = assms(1) [unfolded cdr_run_ready_def]
  have s: "AsteriskGetSecLama fs = Inr (int k, ?fs)" using r by (intro get_seclama) simp_all
  obtain p where p: "csv_inv p" "same_config ?p p" "abs_of p = a"
    "\<forall>st. parse_lines (fgets_all 1024 file) ?p st = c_bind (run_events cb1 cb2 es st) (\<lambda>st. Inr (True, p, st))"
    using parse_file [OF _ _ _ _ assms(2)] r by auto
  have "options p = 0" using p(2) by (simp add: same_config_def csv_init_def)
  then have "\<not> (pstate p = FIELD_BEGUN \<and> quoted p \<and> opt p CSV_STRICT \<and> opt p CSV_STRICT_FINI)" by (simp add: opt_def)
  then obtain p' where f: "\<forall>d. csv_fini cb1 cb2 p d = c_bind (run_events cb1 cb2 (spec_fini p a) d) (\<lambda>d. Inr (0, p', d))"
    using csv_fini_refines [OF p(1), of cb1 cb2] p(3) by blast
  have sf: "spec_fini p a = spec_fini ?p a"
    using p(2) by (cases a) (simp add: spec_fini_def spec_field_def opt_def same_config_def)
  have io: "contents ?fs input = Some file" "writable ?fs output" "output \<noteq> input" using r by auto
  show ?thesis
    unfolding AsteriskCDRProcessFile_def s Let_def lama_header_def [symmetric] prod.case nat_int c_bind_simps
    using io(1,2) unfolding if_not_P [OF io(3)]
    by (simp add: p(4) f sf c_bind_assoc lama_trailer_def flip: lama_header_def del: cstr_simps)
qed

text \<open>A row takes at least one byte for each of its cells, so the counters fit.\<close>

lemma row_length: "0 < length (row_bytes row)" "length row \<le> length (row_bytes row)"
  by (induction row rule: row_bytes.induct) simp_all

lemma rows_length: "length rows \<le> length (concat (map row_bytes rows))"
proof (induction rows)
  case (Cons row rows)
  then show ?case using row_length(1) [of row] by (simp del: length_greater_0_conv)
qed simp

lemma counts_in_file:
  assumes "cdr_run_ready realloc input output k (concat (map row_bytes rows) @ rest) st fs"
  shows "counts_fit rows (st\<lparr>processed_lines := 0, outfile := h\<rparr>)"
    "lineas st + int (length rows) < INT_MAX" "int (length rows + length rest) < INT_MAX"
proof -
  let ?all = "concat (map row_bytes rows) @ rest"
  have b: "0 \<le> lineas st" "lineas st + int (length ?all) < INT_MAX" using assms by (simp_all add: cdr_run_ready_def)
  have "length row \<le> length ?all" if "row \<in> set rows" for row
  proof -
    have "length (row_bytes row) \<le> length (concat (map row_bytes rows))"
      using that by (induction rows) auto
    then show ?thesis using row_length(2) [of row] by simp
  qed
  then have "\<forall>row \<in> set rows. int (length row) \<le> INT_MAX" using b by fastforce
  moreover have "length rows \<le> length (concat (map row_bytes rows))" by (rule rows_length)
  ultimately show "counts_fit rows (st\<lparr>processed_lines := 0, outfile := h\<rparr>)"
    "lineas st + int (length rows) < INT_MAX" "int (length rows + length rest) < INT_MAX"
    using b by (simp_all add: counts_fit_def)
qed

lemmas counts_of_rows = counts_in_file(1) [where rest = "[]", unfolded append_Nil2]

lemma init_standard: "standard (csv_init realloc 0)"
  by (simp add: standard_def csv_init_def opt_def)

lemma call_rows_ok: "list_all call_row rows \<Longrightarrow> list_all row_ok rows"
  by (induction rows) (simp_all add: call_row_def)

text \<open>The output after the rows: the header, the lines, nothing else.\<close>

definition calls :: "csv_cell list list \<Rightarrow> u8 list list list" where
  "calls rows = filter billed (map row_texts rows)"

text \<open>A row, and files, to apply the properties to.\<close>

definition example_row :: "u8 list \<Rightarrow> csv_cell list" where
  "example_row date = [Plain [], Quoted (cstr ''101''), Quoted (cstr ''202''), Plain [], Plain [], Plain [], Plain [], Plain [],
     Plain [], Quoted date, Plain [], Plain [], Plain (cstr ''9''), Plain (cstr ''7''), Quoted (cstr ''ANSWERED'')]"

definition example_files :: "u8 list \<Rightarrow> nat \<Rightarrow> files" where
  "example_files file k = \<lparr>contents = [seclama_path \<mapsto> decimal_digits k, cstr ''Master.csv'' \<mapsto> file], writable = (\<lambda>_. True)\<rparr>"

abbreviation (input) good_date :: "u8 list" where "good_date \<equiv> cstr ''2018-1-11 10:20:30''"

lemma example_columns:
  "column (row_texts (example_row date)) (Suc 0) = cstr ''101''" "column (row_texts (example_row date)) 2 = cstr ''202''"
  "column (row_texts (example_row date)) 9 = date" "column (row_texts (example_row date)) 13 = cstr ''7''"
  "column (row_texts (example_row date)) 14 = cstr ''ANSWERED''"
  by (simp_all add: column_def row_texts_def example_row_def)

lemma example_billed: "billed (row_texts (example_row date))"
  by (simp add: billed_def example_columns atoi_value_def is_white_def is_digit_def digits_value_def)

lemma example_seconds: "seconds_fit (row_texts (example_row date))"
  by (simp add: seconds_fit_def example_columns atoi_value_def is_white_def is_digit_def digits_value_def)

lemma example_fits: "length date < 40 \<Longrightarrow> 0 \<notin> set date \<Longrightarrow> row_fits (row_texts (example_row date))"
  by (simp add: row_fits_def example_columns)

lemma example_row_ok: "row_ok (example_row date)"
  by (simp add: row_ok_def example_row_def blank_def)

lemma good_date_fits: "date_fits good_date"
  by (simp add: date_fits_def date_of_def time_of_def)

lemma example_call: "call_row (example_row good_date)"
  using example_fits [of good_date] example_row_ok good_date_fits example_seconds by (simp add: call_row_def example_columns)

lemma example_ready:
  assumes "k \<le> 65000" "0 \<notin> set file" "int (length file) < INT_MAX"
  shows "cdr_run_ready zero_realloc (cstr ''Master.csv'') (cstr ''lama.cal'') k file cdr_globals (example_files file k)"
  using assms zero_realloc_ok
  by (simp add: cdr_run_ready_def clean_def cdr_globals_def example_files_def seclama_path_def)

lemma example_texts:
  "lama_line (row_texts (example_row good_date)) = cstr ''C TOT,101,202,2018-1-11,10:20:30,7,1,1'' @ [13, 10]"
  "lama_header 622 = cstr ''C TOT,622,SECUENCIA'' @ [13, 10]"
  by (simp_all add: lama_line_def example_columns date_of_def time_of_def lama_header_def decimal_digits.simps)

section \<open>Properties\<close>

text \<open>C2: A file of calls becomes the billing file: the header with the sequence number, one line for each answered
  call of a second or more, in order, and the trailer with their count; the sequence file holds the next number.
  The five columns used are shorter than forty bytes, without NUL, the date of a billed call is two parts shorter than
  twenty bytes, the seconds of an answered call fit an \<open>int\<close>, and the file has fewer bytes than an \<open>int\<close> counts.\<close>

theorem cdr_file_billed:
  assumes "cdr_run_ready realloc input output k (concat (map row_bytes rows)) st fs" "list_all call_row rows"
  shows "\<exists>st'. clean st' \<and> AsteriskCDRProcessFile realloc input output st fs = Inr (True, st', fs\<lparr>contents := (contents fs)(
    seclama_path \<mapsto> decimal_digits (k + 1),
    output \<mapsto> lama_header k @ concat (map lama_line (calls rows)) @ lama_trailer (length (calls rows)))\<rparr>)"
proof -
  let ?st = "st\<lparr>processed_lines := 0, outfile := lama_header k\<rparr>"
  let ?st' = "fold row_done (map row_texts rows) ?st"
  have c: "clean ?st" using assms(1) by (simp add: cdr_run_ready_def clean_def)
  have r: "run_events cb1 cb2 (concat (map row_events rows)) ?st = Inr ?st'"
    by (rule rows_run [OF c assms(2) counts_of_rows [OF assms(1)]])
  show ?thesis
    using cdr_run [OF assms(1) run_rows [OF init_standard call_rows_ok [OF assms(2)]]] r rows_done(4) [OF c, of "map row_texts rows"]
    by (simp add: spec_fini_def rows_done calls_def clean_def)
qed

theorem cdr_file_billed_witness:
  "\<exists>st'. AsteriskCDRProcessFile zero_realloc (cstr ''Master.csv'') (cstr ''lama.cal'') cdr_globals
     (example_files (row_bytes (example_row good_date)) 622) =
   Inr (True, st', (example_files (row_bytes (example_row good_date)) 622)\<lparr>contents :=
     (contents (example_files (row_bytes (example_row good_date)) 622))(seclama_path \<mapsto> decimal_digits 623,
       cstr ''lama.cal'' \<mapsto> cstr ''C TOT,622,SECUENCIA'' @ [13, 10] @ cstr ''C TOT,101,202,2018-1-11,10:20:30,7,1,1'' @ [13, 10] @
         cstr '',FIN,1'' @ [13, 10])\<rparr>)"
proof -
  let ?file = "concat (map row_bytes [example_row good_date])"
  have "0 \<notin> set ?file" "int (length ?file) < INT_MAX" by (simp_all add: example_row_def csv_quoted_def)
  then have r: "cdr_run_ready zero_realloc (cstr ''Master.csv'') (cstr ''lama.cal'') 622 ?file cdr_globals (example_files ?file 622)"
    by (intro example_ready) simp_all
  have "lama_trailer 1 = cstr '',FIN,1'' @ [13, 10]" by (simp add: lama_trailer_def decimal_digits.simps)
  then show ?thesis
    using cdr_file_billed [OF r] example_call example_texts by (auto simp: calls_def example_billed simp del: cstr_simps)
qed

text \<open>C23: When the last row has no newline and is a billed call, of a second or more that fit an \<open>int\<close>, its line is written after the trailer and is not
  counted: the trailer is printed before \<open>csv_fini\<close> hands over the last row. The rows are as for a file that is billed.\<close>

theorem open_row_after_trailer:
  assumes "cdr_run_ready realloc input output k (concat (map row_bytes rows) @ butlast (row_bytes row)) st fs"
    and "list_all call_row rows" "call_row row" "billed (row_texts row)"
  shows "\<exists>st'. AsteriskCDRProcessFile realloc input output st fs = Inr (True, st', fs\<lparr>contents := (contents fs)(
    seclama_path \<mapsto> decimal_digits (k + 1),
    output \<mapsto> lama_header k @ concat (map lama_line (calls rows)) @ lama_trailer (length (calls rows)) @ lama_line (row_texts row))\<rparr>)"
proof -
  let ?p = "csv_init realloc 0" and ?ts = "row_texts row"
  let ?st = "st\<lparr>processed_lines := 0, outfile := lama_header k\<rparr>"
  let ?st1 = "fold row_done (map row_texts rows) ?st"
  let ?trailer = "\<lambda>st. st\<lparr>outfile := outfile st @ lama_trailer (nat (processed_lines st))\<rparr>"
  have c: "clean ?st" using assms(1) by (simp add: cdr_run_ready_def clean_def)
  have k: "row_ok row" "row_fits ?ts" "date_fits (column ?ts 9)" "seconds_fit ?ts" using assms(3,4) by (simp_all add: call_row_def)
  obtain a where e: "spec_run ?p (butlast (row_bytes row)) (ROW_NOT_BEGUN, False, 0, []) = Some (map (\<lambda>x. Field (Some (cell_text x))) (butlast row), a)"
    "spec_fini ?p a = [Field (Some (cell_text (last row))), Row (-1)]"
    using run_open_row [OF init_standard, of row ROW_NOT_BEGUN realloc] k(1) unfolding row_ok_def by blast
  have n: "row \<noteq> []" using k(1) by (simp add: row_ok_def)
  then have ts: "butlast ?ts @ [cell_text (last row)] = ?ts" 
    by (metis append_butlast_last_id last_map list.map_disc_iff row_texts_def)
  have es: "map (\<lambda>x. Field (Some (cell_text x))) (butlast row) = map (\<lambda>t. Field (Some t)) (butlast ?ts)"
    by (simp add: row_texts_def map_butlast comp_def)
  have sp: "spec_run ?p (concat (map row_bytes rows) @ butlast (row_bytes row)) (ROW_NOT_BEGUN, False, 0, []) =
      Some (concat (map row_events rows) @ map (\<lambda>t. Field (Some t)) (butlast ?ts), a)"
    using run_rows [OF init_standard call_rows_ok [OF assms(2)]] e(1) es by (simp add: spec_run_append)
  note b = counts_in_file [OF assms(1)]
  have r: "run_events cb1 cb2 (concat (map row_events rows)) ?st = Inr ?st1" by (rule rows_run [OF c assms(2) b(1)])
  have l: "length row \<le> Suc (length (butlast (row_bytes row)))" using row_length(2) [of row] by simp
  then have w: "int (length (butlast ?ts)) < INT_MAX" using b(3) by (simp add: row_texts_def)
  have c1: "clean ?st1" by (rule rows_done(4) [OF c])
  let ?st2 = "?st1\<lparr>cdr := cdr_mem (butlast ?ts), campos_por_linea := int (length (butlast ?ts))\<rparr>"
  have f: "run_events cb1 cb2 (map (\<lambda>t. Field (Some t)) (butlast ?ts)) ?st1 = Inr ?st2"
    by (rule fields_run [OF c1]) (use row_fits_snoc(1) [of "butlast ?ts"] k(2) ts w in \<open>metis, simp\<close>)
  have "run_events cb1 cb2 (spec_fini ?p a) (?trailer ?st2) = Inr (row_done ?ts (?trailer ?st1))"
  proof -
    let ?st3 = "(?trailer ?st2)\<lparr>cdr := cdr_mem ?ts, campos_por_linea := int (length (butlast ?ts)) + 1\<rparr>"
    have "cb1 (Some (cell_text (last row))) (?trailer ?st2) = Inr ?st3"
      using cb1_column [of "butlast ?ts" "cell_text (last row)" "?trailer ?st2"] k(2) w unfolding ts by (simp add: at_column_def)
    moreover have "at_column ?ts ?st3" using arg_cong [OF ts, of length] by (simp add: at_column_def)
    then have "cb2 (-1) ?st3 = Inr (row_done ?ts ?st3)"
    proof (rule cb2_row [OF k(2) _ k(3,4)])
      have "lineas ?st3 = lineas st + int (length rows)" "processed_lines ?st3 = int (length (filter (billed \<circ> row_texts) rows))"
        by (simp_all add: rows_done filter_map)
      moreover have "length (filter (billed \<circ> row_texts) rows) \<le> length rows" by (rule length_filter_le)
      ultimately show "lineas ?st3 < INT_MAX" "processed_lines ?st3 < INT_MAX" using b(2,3) by linarith+
    qed
    moreover have "row_done ?ts ?st3 = row_done ?ts (?trailer ?st1)" by (simp add: row_done_def)
    ultimately show ?thesis by (simp add: e(2))
  qed
  then show ?thesis
    unfolding cdr_run [OF assms(1) sp] run_events_append
    by (simp add: r f row_done_def assms(4) rows_done calls_def lama_trailer_def)
qed

theorem open_row_after_trailer_witness:
  "\<exists>st'. AsteriskCDRProcessFile zero_realloc (cstr ''Master.csv'') (cstr ''lama.cal'') cdr_globals
     (example_files (butlast (row_bytes (example_row good_date))) 622) =
   Inr (True, st', (example_files (butlast (row_bytes (example_row good_date))) 622)\<lparr>contents :=
     (contents (example_files (butlast (row_bytes (example_row good_date))) 622))(seclama_path \<mapsto> decimal_digits 623,
       cstr ''lama.cal'' \<mapsto> cstr ''C TOT,622,SECUENCIA'' @ [13, 10] @ cstr '',FIN,0'' @ [13, 10] @
         cstr ''C TOT,101,202,2018-1-11,10:20:30,7,1,1'' @ [13, 10])\<rparr>)"
proof -
  let ?file = "concat (map row_bytes []) @ butlast (row_bytes (example_row good_date))"
  have "0 \<notin> set ?file" "int (length ?file) < INT_MAX" by (simp_all add: example_row_def csv_quoted_def)
  then have r: "cdr_run_ready zero_realloc (cstr ''Master.csv'') (cstr ''lama.cal'') 622 ?file cdr_globals (example_files ?file 622)"
    by (intro example_ready) simp_all
  have "lama_trailer 0 = cstr '',FIN,0'' @ [13, 10]" by (simp add: lama_trailer_def decimal_digits.simps)
  then show ?thesis
    using open_row_after_trailer [OF r _ example_call example_billed] example_texts
    by (auto simp: calls_def simp del: cstr_simps)
qed

text \<open>A row that makes the end of row fault stops the run there.\<close>

lemma bad_row_faults:
  assumes "cdr_run_ready realloc input output k (concat (map row_bytes (rows @ bad # rest))) st fs"
    and "list_all call_row rows" "list_all row_ok rest" "row_ok bad" "row_fits (row_texts bad)"
    and f: "\<And>st :: cdr_state. cdr st = cdr_mem (row_texts bad) \<Longrightarrow> cb2 10 st = Inl e"
  shows "AsteriskCDRProcessFile realloc input output st fs = Inl e"
proof -
  let ?ts = "row_texts bad" and ?st = "st\<lparr>processed_lines := 0, outfile := lama_header k\<rparr>"
  let ?st1 = "fold row_done (map row_texts rows) ?st"
  let ?st2 = "?st1\<lparr>cdr := cdr_mem ?ts, campos_por_linea := int (length ?ts)\<rparr>"
  have c: "clean ?st" using assms(1) by (simp add: cdr_run_ready_def clean_def)
  have rows: "list_all row_ok (rows @ bad # rest)" using assms(3,4) call_rows_ok [OF assms(2)] by simp
  have n: "counts_fit (rows @ bad # rest) ?st" by (rule counts_of_rows [OF assms(1)])
  then have "counts_fit rows ?st" by (simp add: counts_fit_def)
  then have r: "run_events cb1 cb2 (concat (map row_events rows)) ?st = Inr ?st1" by (rule rows_run [OF c assms(2)])
  have "run_events cb1 cb2 (map (\<lambda>t. Field (Some t)) ?ts) ?st1 = Inr ?st2"
    by (rule fields_run [OF rows_done(4) [OF c] assms(5)]) (use n in \<open>simp add: counts_fit_def row_texts_def\<close>)
  then have "run_events cb1 cb2 (row_events bad) ?st1 = Inl e"
    using f [of ?st2] by (simp add: row_events_texts run_events_append)
  then show ?thesis
    using cdr_run [OF assms(1) run_rows [OF init_standard rows]] r by (simp add: run_events_append)
qed

text \<open>A billed call whose date column has no space makes the program print two arrays it never wrote; one whose
  date or time takes twenty bytes or more overruns them.\<close>

theorem bad_date_faults:
  assumes "cdr_run_ready realloc input output k (concat (map row_bytes (rows @ bad # rest))) st fs"
    and "list_all call_row rows" "list_all row_ok rest" "row_ok bad" "row_fits (row_texts bad)"
    and "billed (row_texts bad)" "seconds_fit (row_texts bad)" "\<not> date_fits (column (row_texts bad) 9)"
  shows "AsteriskCDRProcessFile realloc input output st fs =
    Inl (if 32 \<in> set (column (row_texts bad) 9) then Out_Of_Bounds else Uninitialised)"
proof (rule bad_row_faults [OF assms(1-5)])
  let ?ts = "row_texts bad"
  fix st :: cdr_state assume st: "cdr st = cdr_mem ?ts"
  have "0 \<notin> set (column ?ts 9)" using assms(5) by (simp add: row_fits_def)
  note d = split_date_bad [OF assms(8) this]
  have "atoi (drop segundos (cdr_mem ?ts)) = Inr (atoi_value (column ?ts 13))"
    using assms(6,7) row_reads(5) [OF assms(5)] by (simp add: atoi_def seconds_fit_def billed_def)
  then show "cb2 10 st = Inl (if 32 \<in> set (column ?ts 9) then Out_Of_Bounds else Uninitialised)"
    using row_reads(1-4) [OF assms(5)] answered_member [OF assms(5)] assms(6) d by (simp add: cb2_def st billed_def del: cstr_simps)
qed

text \<open>The seconds of an answered call that do not fit an \<open>int\<close> are undefined behaviour.\<close>

theorem long_call_faults:
  assumes "cdr_run_ready realloc input output k (concat (map row_bytes (rows @ bad # rest))) st fs"
    and "list_all call_row rows" "list_all row_ok rest" "row_ok bad" "row_fits (row_texts bad)" "\<not> seconds_fit (row_texts bad)"
  shows "AsteriskCDRProcessFile realloc input output st fs = Inl Signed_Overflow"
proof (rule bad_row_faults [OF assms(1-5)])
  fix st :: cdr_state assume st: "cdr st = cdr_mem (row_texts bad)"
  have "atoi (drop segundos (cdr_mem (row_texts bad))) = Inl Signed_Overflow"
    using assms(6) row_reads(5) [OF assms(5)] by (auto simp: atoi_def seconds_fit_def)
  then show "cb2 10 st = Inl Signed_Overflow"
    using answered_member [OF assms(5)] assms(6) by (simp add: cb2_def st seconds_fit_def del: cstr_simps)
qed

theorem bad_date_faults_witness:
  "AsteriskCDRProcessFile zero_realloc (cstr ''Master.csv'') (cstr ''lama.cal'') cdr_globals
     (example_files (row_bytes (example_row (cstr ''2018-1-11''))) 622) = Inl Uninitialised"
proof -
  let ?bad = "example_row (cstr ''2018-1-11'')"
  let ?file = "concat (map row_bytes ([] @ ?bad # []))"
  have "0 \<notin> set ?file" "int (length ?file) < INT_MAX" by (simp_all add: example_row_def csv_quoted_def)
  then have r: "cdr_run_ready zero_realloc (cstr ''Master.csv'') (cstr ''lama.cal'') 622 ?file cdr_globals (example_files ?file 622)"
    by (intro example_ready) simp_all
  have "\<not> date_fits (column (row_texts ?bad) 9)" by (simp add: example_columns date_fits_def)
  moreover have "row_fits (row_texts ?bad)" by (rule example_fits) simp_all
  ultimately show ?thesis
    using bad_date_faults [OF r _ _ example_row_ok _ example_billed example_seconds] by (simp add: example_columns)
qed

text \<open>The sequence number is not wrapped: the run with number 65000 is the last one, and from then on every run,
  on any files, fails without changing anything.\<close>

theorem sequence_number_runs_out:
  assumes "cdr_run_ready realloc input output 65000 (concat (map row_bytes rows)) st fs" "list_all call_row rows"
  shows "\<exists>st' fs'. AsteriskCDRProcessFile realloc input output st fs = Inr (True, st', fs') \<and>
    (\<forall>realloc input output st. AsteriskCDRProcessFile realloc input output st fs' = Inr (False, st, fs'))"
proof -
  let ?es = "concat (map row_events rows)" and ?st = "st\<lparr>processed_lines := 0, outfile := lama_header 65000\<rparr>"
  have c: "clean ?st" using assms(1) by (simp add: cdr_run_ready_def clean_def)
  obtain st' fs' where run: "AsteriskCDRProcessFile realloc input output st fs = Inr (True, st', fs')"
    and s: "contents fs' seclama_path = Some (decimal_digits 65001)"
    using cdr_run [OF assms(1) run_rows [OF init_standard call_rows_ok [OF assms(2)]]] rows_run [OF c assms(2) counts_of_rows [OF assms(1)]] assms(1)
    by (auto simp: spec_fini_def cdr_run_ready_def)
  have "AsteriskGetSecLama fs' = Inr (-1, fs')" by (rule get_seclama_stuck [OF s]) simp_all
  then have "\<forall>realloc input output st. AsteriskCDRProcessFile realloc input output st fs' = Inr (False, st, fs')"
    by (simp add: AsteriskCDRProcessFile_def Let_def)
  then show ?thesis using run by blast
qed

theorem sequence_number_runs_out_witness:
  "\<exists>st' fs'. AsteriskCDRProcessFile zero_realloc (cstr ''Master.csv'') (cstr ''lama.cal'') cdr_globals (example_files [] 65000) = Inr (True, st', fs') \<and>
    AsteriskCDRProcessFile zero_realloc (cstr ''Master.csv'') (cstr ''lama.cal'') st' fs' = Inr (False, st', fs')"
proof -
  have "cdr_run_ready zero_realloc (cstr ''Master.csv'') (cstr ''lama.cal'') 65000 (concat (map row_bytes [])) cdr_globals (example_files [] 65000)"
    using example_ready [of 65000 "[]"] by simp
  from sequence_number_runs_out [OF this] show ?thesis by auto
qed

end
