(* ===== verification/Cdr_Dates.thy ===== *)
theory Cdr_Dates
  imports Cdr_Asterisk "HOL-Library.Product_Lexorder"
begin

text \<open>
  The backups of the call records, \<open>test_csv3/cdr_omc.c\<close>: the call file of every day between two dates
  is appended to one working file by \<open>cat\<close>, run through \<open>system\<close>. The calendar arithmetic of \<open>mktime\<close>,
  the loop over the days, and what the working file holds at the end.
\<close>

section \<open>Dates\<close>

text \<open>The members of \<open>struct tm\<close> the program uses; the others are zero.\<close>

record tm =
  tm_year :: int
  tm_mon :: int
  tm_mday :: int

definition DiffTime :: "int \<Rightarrow> int \<Rightarrow> int \<Rightarrow> int \<Rightarrow> int \<Rightarrow> int \<Rightarrow> int" where
  "DiffTime y1 m1 d1 y2 m2 d2 =
     (if y1 < y2 then 1 else if y1 > y2 then -1
      else if m1 < m2 then 1 else if m1 > m2 then -1
      else if d1 < d2 then 1 else if d1 > d2 then -1 else 0)"

definition DiffTimeTm :: "tm \<Rightarrow> tm \<Rightarrow> int" where
  "DiffTimeTm x y = DiffTime (tm_year x) (tm_mon x) (tm_mday x) (tm_year y) (tm_mon y) (tm_mday y)"

text \<open>
  \<open>mktime\<close> of the standard library: months outside 0 to 11 carry into the year, then days outside the
  month carry into the month, in the Gregorian calendar. The year counts from 1900.
\<close>

definition leap_year :: "int \<Rightarrow> bool" where
  "leap_year y \<longleftrightarrow> y mod 4 = 0 \<and> (y mod 100 \<noteq> 0 \<or> y mod 400 = 0)"

definition days_in_month :: "int \<Rightarrow> int \<Rightarrow> int" where
  "days_in_month y m =
     (if m = 1 then if leap_year (y + 1900) then 29 else 28 else if m \<in> {3, 5, 8, 10} then 30 else 31)"

lemma days_in_month_bounds: "28 \<le> days_in_month y m" "days_in_month y m \<le> 31"
  by (simp_all add: days_in_month_def)

function carry_days :: "int \<Rightarrow> int \<Rightarrow> int \<Rightarrow> int \<times> int \<times> int" where
  "carry_days y m d =
     (if days_in_month y m < d then
        if m = 11 then carry_days (y + 1) 0 (d - days_in_month y m) else carry_days y (m + 1) (d - days_in_month y m)
      else if d < 1 then
        if m = 0 then carry_days (y - 1) 11 (d + days_in_month (y - 1) 11) else carry_days y (m - 1) (d + days_in_month y (m - 1))
      else (y, m, d))"
  by pat_completeness auto
termination
  using days_in_month_bounds
  by (relation "measure (\<lambda>(_, _, d). nat (if d < 1 then 32 - d else d))") (auto split: if_splits, smt+)

declare carry_days.simps [simp del]

text \<open>
  \<open>mktime\<close> for a date at midnight in standard time, the members the program sets to zero: where summer time is in force the
  hour becomes one, never that of the day before, so the hour does not reach the date.
\<close>

definition mktime :: "tm \<Rightarrow> tm" where
  "mktime t =
     (let (y, m, d) = carry_days (tm_year t + tm_mon t div 12) (tm_mon t mod 12) (tm_mday t)
      in t\<lparr>tm_year := y, tm_mon := m, tm_mday := d\<rparr>)"

section \<open>The calendar\<close>

definition tm_key :: "tm \<Rightarrow> int \<times> int \<times> int" where
  "tm_key t = (tm_year t, tm_mon t, tm_mday t)"

definition calendar_day :: "tm \<Rightarrow> bool" where
  "calendar_day t \<longleftrightarrow> 0 \<le> tm_mon t \<and> tm_mon t \<le> 11 \<and> 1 \<le> tm_mday t \<and> tm_mday t \<le> days_in_month (tm_year t) (tm_mon t)"

text \<open>\<open>DiffTime\<close> is the comparison of dates.\<close>

lemma DiffTime_key:
  "0 \<le> DiffTimeTm x y \<longleftrightarrow> tm_key x \<le> tm_key y"
  "DiffTimeTm x y = 0 \<longleftrightarrow> tm_key x = tm_key y"
  by (auto simp: DiffTimeTm_def DiffTime_def tm_key_def)

lemma tm_key_eq [simp]: "tm_key x = tm_key y \<longleftrightarrow> x = y"
  by (cases x; cases y) (simp add: tm_key_def)

lemma carry_days_valid:
  assumes "carry_days y m d = (y', m', d')" "0 \<le> m" "m \<le> 11"
  shows "0 \<le> m' \<and> m' \<le> 11 \<and> 1 \<le> d' \<and> d' \<le> days_in_month y' m'"
  using assms
proof (induction y m d rule: carry_days.induct)
  case (1 y m d)
  note c = "1.prems"(1) [unfolded carry_days.simps [of y m d]]
  show ?case
    using c 1 by (auto split: if_splits)
qed

lemma mktime_valid: "calendar_day (mktime t)"
proof -
  obtain y m d where c: "carry_days (tm_year t + tm_mon t div 12) (tm_mon t mod 12) (tm_mday t) = (y, m, d)"
    using prod_cases3 by blast
  have "0 \<le> m \<and> m \<le> 11 \<and> 1 \<le> d \<and> d \<le> days_in_month y m" by (rule carry_days_valid [OF c]) simp_all
  then show ?thesis using c by (simp add: calendar_day_def mktime_def)
qed

definition tomorrow :: "tm \<Rightarrow> tm" where
  "tomorrow t = mktime (t\<lparr>tm_mday := tm_mday t + 1\<rparr>)"

lemma tomorrow_eq:
  assumes "calendar_day t"
  shows "tomorrow t =
    (if tm_mday t < days_in_month (tm_year t) (tm_mon t) then t\<lparr>tm_mday := tm_mday t + 1\<rparr>
     else if tm_mon t < 11 then t\<lparr>tm_mon := tm_mon t + 1, tm_mday := 1\<rparr>
     else t\<lparr>tm_year := tm_year t + 1, tm_mon := 0, tm_mday := 1\<rparr>)"
proof -
  obtain y m d where t: "t = \<lparr>tm_year = y, tm_mon = m, tm_mday = d\<rparr>" by (cases t)
  have m: "m div 12 = 0" "m mod 12 = m" and d: "1 \<le> d" "d \<le> days_in_month y m"
    using assms by (simp_all add: t calendar_day_def)
  have one: "carry_days y' m' 1 = (y', m', 1)" for y' m'
    using days_in_month_bounds [of y' m'] by (subst carry_days.simps) simp
  have "carry_days y m (d + 1) =
    (if d < days_in_month y m then (y, m, d + 1) else if m = 11 then (y + 1, 0, 1) else (y, m + 1, 1))"
    using d one by (subst carry_days.simps) auto
  then show ?thesis using m assms by (simp add: tomorrow_def mktime_def t calendar_day_def)
qed

lemma tomorrow_next:
  assumes "calendar_day t"
  shows "calendar_day (tomorrow t)" "tm_key t < tm_key (tomorrow t)"
    "calendar_day z \<Longrightarrow> tm_key t < tm_key z \<Longrightarrow> tm_key (tomorrow t) \<le> tm_key z"
proof -
  show "calendar_day (tomorrow t)" by (simp add: tomorrow_def mktime_valid)
  show "tm_key t < tm_key (tomorrow t)" by (simp add: tomorrow_eq [OF assms] tm_key_def)
  show "tm_key (tomorrow t) \<le> tm_key z" if "calendar_day z" "tm_key t < tm_key z"
  proof (cases "tm_year z = tm_year t \<and> tm_mon z = tm_mon t")
    case True
    then have "days_in_month (tm_year z) (tm_mon z) = days_in_month (tm_year t) (tm_mon t)" by simp
    then show ?thesis using assms that True by (auto simp: tomorrow_eq [OF assms] tm_key_def calendar_day_def)
  qed (use assms that in \<open>auto simp: tomorrow_eq [OF assms] tm_key_def calendar_day_def\<close>)
qed

section \<open>The backups\<close>

abbreviation (input) CDR_WORKING_TMP_DIR :: path where "CDR_WORKING_TMP_DIR \<equiv> cstr ''./tmp''"
abbreviation (input) CDR_WORKING_TMP_FILE :: path where "CDR_WORKING_TMP_FILE \<equiv> cstr ''normal_fecha.dbs''"
abbreviation (input) CDR_BKP_DIR :: path where "CDR_BKP_DIR \<equiv> cstr ''./tmp''"
abbreviation (input) CDR_CURRENT_DIR :: path where "CDR_CURRENT_DIR \<equiv> cstr ''.''"
abbreviation (input) CDR_FILE :: path where "CDR_FILE \<equiv> cstr ''Master.csv''"
abbreviation (input) CDR_UTIL_CAT :: path where "CDR_UTIL_CAT \<equiv> cstr ''/usr/bin/cat''"

text \<open>The number in \<open>n\<close> bytes of a string, copied to a buffer of ten zeros, and a date YYYYMMDD.\<close>

definition date_field :: "u8 list \<Rightarrow> nat \<Rightarrow> nat \<Rightarrow> int c_result" where
  "date_field s off n = c_bind (strncpy_from n (drop off s)) (\<lambda>t. atoi (t @ replicate (10 - n) 0))"

definition parse_date :: "u8 list \<Rightarrow> tm c_result" where
  "parse_date s =
     c_bind (date_field s 0 4) (\<lambda>year.
     c_bind (date_field s 4 2) (\<lambda>mon.
     c_bind (date_field s 6 2) (\<lambda>mday.
     Inr \<lparr>tm_year = year - 1900, tm_mon = mon - 1, tm_mday = mday\<rparr>)))"

text \<open>The name of the directory of a day, in ten bytes.\<close>

definition bkp_day :: "tm \<Rightarrow> u8 list c_result" where
  "bkp_day t =
     (let s = sprintf_d (tm_year t + 1900) @ sprintf_d (tm_mon t + 1) @ sprintf_d (tm_mday t)
      in if length s + 1 > 10 then Inl Out_Of_Bounds else Inr s)"

text \<open>
  The two commands: the call file of a day and the one of today, \<open>>\<close> for the first file found and
  \<open>>>\<close> after it. \<open>system\<close> is a parameter: the exit status and the files after the command.
\<close>

definition redirect :: "bool \<Rightarrow> u8 list" where
  "redirect found = (if found then cstr '' >> '' else cstr '' > '')"

definition cat_day :: "bool \<Rightarrow> u8 list \<Rightarrow> u8 list" where
  "cat_day found day = CDR_UTIL_CAT @ cstr '' '' @ CDR_BKP_DIR @ cstr ''/'' @ day @ cstr ''/'' @ CDR_FILE @
     redirect found @ CDR_WORKING_TMP_DIR @ cstr ''/'' @ CDR_WORKING_TMP_FILE"

definition cat_today :: "bool \<Rightarrow> u8 list" where
  "cat_today found = CDR_UTIL_CAT @ cstr '' '' @ CDR_CURRENT_DIR @ cstr ''/'' @ CDR_FILE @
     redirect found @ CDR_WORKING_TMP_DIR @ cstr ''/'' @ CDR_WORKING_TMP_FILE"

text \<open>The loop over the days. It ends: after the first \<open>mktime\<close> the date is a calendar day and grows.\<close>

function day_loop ::
  "(u8 list \<Rightarrow> files \<Rightarrow> int \<times> files) \<Rightarrow> tm \<Rightarrow> tm \<Rightarrow> bool \<Rightarrow> files \<Rightarrow> (bool \<times> files) c_result" where
  "day_loop system first_date_tm last_date_tm one_bkp_finded fs =
     (if 0 \<le> DiffTimeTm first_date_tm last_date_tm then
        case bkp_day first_date_tm of
          Inl e \<Rightarrow> Inl e
        | Inr day \<Rightarrow>
            (let (r, fs) = system (cat_day one_bkp_finded day) fs
             in day_loop system (tomorrow first_date_tm) last_date_tm (one_bkp_finded \<or> r = 0) fs)
      else Inr (one_bkp_finded, fs))"
  by pat_completeness auto

definition days_left :: "tm \<Rightarrow> tm \<Rightarrow> (nat \<times> nat) \<times> nat \<times> nat" where
  "days_left t lst = ((if calendar_day t then 0 else 1, nat (tm_year lst + 1 - tm_year t)), nat (12 - tm_mon t), nat (32 - tm_mday t))"

lemma days_left_decreases:
  assumes "0 \<le> DiffTimeTm t lst"
  shows "(days_left (tomorrow t) lst, days_left t lst) \<in> (less_than <*lex*> less_than) <*lex*> (less_than <*lex*> less_than)"
proof (cases "calendar_day t")
  case True
  have "tm_year t \<le> tm_year lst" using assms by (auto simp: DiffTime_key tm_key_def)
  moreover have "tm_mday t \<le> 31" using True days_in_month_bounds [of "tm_year t" "tm_mon t"] by (simp add: calendar_day_def)
  ultimately show ?thesis
    using True tomorrow_next(1) [OF True] by (auto simp: days_left_def tomorrow_eq [OF True] calendar_day_def)
next
  case False
  have "calendar_day (tomorrow t)" by (simp add: tomorrow_def mktime_valid)
  then show ?thesis using False by (simp add: days_left_def)
qed

termination day_loop
proof (relation "inv_image ((less_than <*lex*> less_than) <*lex*> (less_than <*lex*> less_than)) (\<lambda>(_, t, lst, _, _). days_left t lst)")
  show "wf (inv_image ((less_than <*lex*> less_than) <*lex*> (less_than <*lex*> less_than))
      (\<lambda>(_ :: u8 list \<Rightarrow> files \<Rightarrow> int \<times> files, t, lst, _ :: bool, _ :: files). days_left t lst))"
    by (intro wf_inv_image wf_lex_prod wf_less_than)
qed (simp only: in_inv_image prod.case days_left_decreases)

declare day_loop.simps [simp del]

text \<open>Today comes from \<open>localtime\<close>, a parameter. The destination file is not used.\<close>

definition CreateCdrFromDates ::
  "(u8 list \<Rightarrow> files \<Rightarrow> int \<times> files) \<Rightarrow> tm \<Rightarrow> u8 list \<Rightarrow> u8 list \<Rightarrow> files \<Rightarrow> (int \<times> files) c_result" where
  "CreateCdrFromDates system today_tm first_date last_date fs =
     c_bind (parse_date first_date) (\<lambda>first_date_tm.
     c_bind (parse_date last_date) (\<lambda>last_date_tm.
      let today_backup = (DiffTimeTm last_date_tm today_tm = 0);
          only_this_day = (today_backup \<and> DiffTimeTm first_date_tm last_date_tm = 0);
          answer = (\<lambda>(found, fs). Inr (if found then 0 else -1, fs))
      in if \<not> only_this_day then
           c_bind (day_loop system first_date_tm last_date_tm False fs) (\<lambda>(one_bkp_finded, fs).
           if today_backup then
             c_bind (bkp_day today_tm) (\<lambda>_.
             let (r, fs) = system (cat_today one_bkp_finded) fs in answer (one_bkp_finded \<or> r = 0, fs))
           else answer (one_bkp_finded, fs))
         else
           c_bind (bkp_day today_tm) (\<lambda>_.
           let (r, fs) = system (cat_today False) fs in answer (r = 0, fs))))"

text \<open>A date DD/MM/YY becomes 20YYMMDD. The string is the memory from its first byte to the end of its object.\<close>

definition date_2000 :: "u8 list \<Rightarrow> u8 list c_result" where
  "date_2000 date =
     c_bind (mem_write (replicate 20 0) 0 (cstr ''2000'' @ [0])) (\<lambda>f.
     c_bind (strncpy_from 2 (drop 6 date)) (\<lambda>year. c_bind (mem_write f 2 year) (\<lambda>f.
     c_bind (strncpy_from 2 (drop 3 date)) (\<lambda>month. c_bind (mem_write f 4 month) (\<lambda>f.
     c_bind (strncpy_from 2 date) (\<lambda>day. mem_write f 6 day))))))"

definition CreateCdrFromDates2 ::
  "(u8 list \<Rightarrow> files \<Rightarrow> int \<times> files) \<Rightarrow> tm \<Rightarrow> u8 list \<Rightarrow> u8 list \<Rightarrow> files \<Rightarrow> (int \<times> files) c_result" where
  "CreateCdrFromDates2 system today_tm first_date last_date fs =
     c_bind (date_2000 first_date) (\<lambda>fini.
     c_bind (date_2000 last_date) (\<lambda>fend.
     CreateCdrFromDates system today_tm fini fend fs))"

section \<open>The days in order\<close>

function days_from :: "tm \<Rightarrow> tm \<Rightarrow> tm list" where
  "days_from t lst = (if 0 \<le> DiffTimeTm t lst then t # days_from (tomorrow t) lst else [])"
  by pat_completeness auto
termination
proof (relation "inv_image ((less_than <*lex*> less_than) <*lex*> (less_than <*lex*> less_than)) (\<lambda>(t, lst). days_left t lst)")
  show "wf (inv_image ((less_than <*lex*> less_than) <*lex*> (less_than <*lex*> less_than)) (\<lambda>(t, lst). days_left t lst))"
    by (intro wf_inv_image wf_lex_prod wf_less_than)
qed (simp only: in_inv_image prod.case days_left_decreases)

declare days_from.simps [simp del]

lemma days_from_set:
  "calendar_day t \<Longrightarrow> set (days_from t lst) = {z. calendar_day z \<and> tm_key t \<le> tm_key z \<and> tm_key z \<le> tm_key lst}"
proof (induction t lst rule: days_from.induct)
  case (1 t lst)
  show ?case
  proof (cases "0 \<le> DiffTimeTm t lst")
    case True
    then have le: "tm_key t \<le> tm_key lst" by (simp add: DiffTime_key)
    have "z = t \<or> calendar_day z \<and> tm_key (tomorrow t) \<le> tm_key z \<longleftrightarrow> calendar_day z \<and> tm_key t \<le> tm_key z" for z
      using tomorrow_next(1,2) [OF 1(2)] tomorrow_next(3) [OF 1(2), of z] 1(2) by (auto simp: order_le_less)
    then show ?thesis
      using 1(1) [OF True tomorrow_next(1) [OF 1(2)]] True le by (subst days_from.simps) auto
  next
    case False
    then have "\<not> tm_key t \<le> tm_key lst" by (simp add: DiffTime_key)
    then show ?thesis using False by (subst days_from.simps) (auto dest: order_trans)
  qed
qed

lemma days_from_sorted: "calendar_day t \<Longrightarrow> sorted_wrt (\<lambda>x y. tm_key x < tm_key y) (days_from t lst)"
proof (induction t lst rule: days_from.induct)
  case (1 t lst)
  have "tm_key t < tm_key z" if "z \<in> set (days_from (tomorrow t) lst)" for z
    using that tomorrow_next [OF 1(2)] by (auto simp: days_from_set)
  then show ?case using 1 tomorrow_next(1) [OF 1(2)] by (subst days_from.simps) auto
qed

lemma days_from_one: "calendar_day t \<Longrightarrow> days_from t t = [t]"
  using tomorrow_next(2) [of t] by (simp add: days_from.simps [of t t] days_from.simps [of "tomorrow t" t] DiffTime_key)

section \<open>What the commands do\<close>

text \<open>
  The documented behaviour of the shell and of \<open>cat\<close>, for file names without special characters: the
  destination is created, emptied by \<open>>\<close>, and gets the contents of the source; without a source the
  command fails.
\<close>

definition plain_byte :: "u8 \<Rightarrow> bool" where
  "plain_byte c \<longleftrightarrow> is_digit c \<or> 97 \<le> uint c \<and> uint c \<le> 122 \<or> 65 \<le> uint c \<and> uint c \<le> 90 \<or> c \<in> {45, 46, 47, 95}"

definition cat_command :: "bool \<Rightarrow> path \<Rightarrow> path \<Rightarrow> u8 list" where
  "cat_command found src dst = CDR_UTIL_CAT @ cstr '' '' @ src @ redirect found @ dst"

definition put_file :: "path \<Rightarrow> u8 list option \<Rightarrow> files \<Rightarrow> files" where
  "put_file f c fs = fs\<lparr>contents := (contents fs)(f := c)\<rparr>"

definition got :: "u8 list option \<Rightarrow> u8 list" where
  "got c = (case c of None \<Rightarrow> [] | Some s \<Rightarrow> s)"

definition cat_shell :: "(u8 list \<Rightarrow> files \<Rightarrow> int \<times> files) \<Rightarrow> bool" where
  "cat_shell system \<longleftrightarrow>
     (\<forall>found src dst fs. list_all plain_byte src \<and> list_all plain_byte dst \<and> src \<noteq> [] \<and> dst \<noteq> [] \<and> src \<noteq> dst \<and> writable fs dst \<longrightarrow>
       (let old = (if found then got (contents fs dst) else []) in
        (fst (system (cat_command found src dst) fs) = 0 \<longleftrightarrow> contents fs src \<noteq> None) \<and>
        snd (system (cat_command found src dst) fs) = put_file dst (Some (old @ got (contents fs src))) fs))"

definition working_file :: path where
  "working_file = CDR_WORKING_TMP_DIR @ cstr ''/'' @ CDR_WORKING_TMP_FILE"

definition current_file :: path where
  "current_file = CDR_CURRENT_DIR @ cstr ''/'' @ CDR_FILE"

definition day_name :: "tm \<Rightarrow> u8 list" where
  "day_name t = sprintf_d (tm_year t + 1900) @ sprintf_d (tm_mon t + 1) @ sprintf_d (tm_mday t)"

definition day_file :: "tm \<Rightarrow> path" where
  "day_file t = CDR_BKP_DIR @ cstr ''/'' @ day_name t @ cstr ''/'' @ CDR_FILE"

lemma cat_commands:
  "cat_day found (day_name t) = cat_command found (day_file t) working_file"
  "cat_today found = cat_command found current_file working_file"
  by (simp_all add: cat_day_def cat_today_def cat_command_def day_file_def working_file_def current_file_def del: cstr_simps)

lemma plain_sprintf_d: "list_all plain_byte (sprintf_d i)"
  using decimal_digits_digits by (auto simp: sprintf_d_def plain_byte_def list_all_iff)

lemma plain_files: "list_all plain_byte (day_file t)" "list_all plain_byte working_file" "list_all plain_byte current_file"
  by (simp_all add: day_file_def day_name_def plain_sprintf_d working_file_def current_file_def, simp_all add: plain_byte_def is_digit_def)

lemma files_differ: "day_file t \<noteq> working_file" "current_file \<noteq> working_file"
proof -
  have "last (day_file t) \<noteq> last working_file" by (simp add: day_file_def working_file_def)
  then show "day_file t \<noteq> working_file" by metis
  show "current_file \<noteq> working_file" by (simp add: current_file_def working_file_def)
qed

lemma put_file_simps [simp]:
  "contents (put_file f c fs) g = (if g = f then c else contents fs g)" "writable (put_file f c fs) = writable fs"
  "put_file f c (put_file f b fs) = put_file f c fs" "put_file f (contents fs f) fs = fs"
  by (simp_all add: put_file_def)

lemma cat_runs:
  assumes "cat_shell system" "writable fs working_file" "src = day_file t \<or> src = current_file"
  shows "system (cat_command found src working_file) (put_file working_file c fs) =
    (fst (system (cat_command found src working_file) (put_file working_file c fs)),
     put_file working_file (Some ((if found then got c else []) @ got (contents fs src))) fs)"
    "fst (system (cat_command found src working_file) (put_file working_file c fs)) = 0 \<longleftrightarrow> contents fs src \<noteq> None"
proof -
  have p: "list_all plain_byte src" "src \<noteq> working_file" "list_all plain_byte working_file" "src \<noteq> []" "working_file \<noteq> []"
    using assms(3) plain_files files_differ by (auto simp: day_file_def working_file_def current_file_def)
  note s = assms(1) [unfolded cat_shell_def, rule_format, of src working_file "put_file working_file c fs" found, unfolded Let_def]
  show "fst (system (cat_command found src working_file) (put_file working_file c fs)) = 0 \<longleftrightarrow> contents fs src \<noteq> None"
    using s p assms(2) by simp
  show "system (cat_command found src working_file) (put_file working_file c fs) =
    (fst (system (cat_command found src working_file) (put_file working_file c fs)),
     put_file working_file (Some ((if found then got c else []) @ got (contents fs src))) fs)"
    using s p assms(2) by (intro prod_eqI) auto
qed

section \<open>The name of a day\<close>

text \<open>Years of four digits: the names fit the ten bytes, whatever the text of a date was.\<close>

lemma length_sprintf_d: "- (10 ^ k) < i \<Longrightarrow> i < 10 ^ Suc k \<Longrightarrow> 0 < k \<Longrightarrow> length (sprintf_d i) \<le> Suc k"
  using length_decimal_digits [of "nat (- i)" k] length_decimal_digits [of "nat i" "Suc k"]
  by (auto simp: sprintf_d_def nat_less_iff)

definition short_date :: "tm \<Rightarrow> bool" where
  "short_date t \<longleftrightarrow> 0 \<le> tm_year t + 1900 \<and> tm_year t + 1900 < 10000 \<and>
     -10 < tm_mon t + 1 \<and> tm_mon t + 1 < 100 \<and> -10 < tm_mday t \<and> tm_mday t < 100"

lemma bkp_day_short: "short_date t \<Longrightarrow> bkp_day t = Inr (day_name t)"
  using length_sprintf_d [of 3 "tm_year t + 1900"] length_sprintf_d [of 1 "tm_mon t + 1"] length_sprintf_d [of 1 "tm_mday t"]
  by (simp add: bkp_day_def day_name_def short_date_def)

lemma calendar_short: "calendar_day t \<Longrightarrow> 0 \<le> tm_year t + 1900 \<Longrightarrow> tm_year t + 1900 < 10000 \<Longrightarrow> short_date t"
  using days_in_month_bounds [of "tm_year t" "tm_mon t"] by (simp add: short_date_def calendar_day_def)

section \<open>What the loop leaves\<close>

definition day_calls :: "files \<Rightarrow> tm list \<Rightarrow> u8 list list" where
  "day_calls fs ts = List.map_filter (\<lambda>t. contents fs (day_file t)) ts"

lemma day_calls_simps [simp]:
  "day_calls fs [] = []"
  "day_calls fs (t # ts) = (case contents fs (day_file t) of None \<Rightarrow> day_calls fs ts | Some s \<Rightarrow> s # day_calls fs ts)"
  by (simp_all add: day_calls_def split: option.split)

lemma day_loop_cat:
  assumes "cat_shell system" "writable fs working_file" "list_all short_date (days_from t lst)"
  shows "day_loop system t lst found (put_file working_file c fs) =
    Inr (found \<or> day_calls fs (days_from t lst) \<noteq> [],
      put_file working_file
        (if days_from t lst = [] then c else Some ((if found then got c else []) @ concat (day_calls fs (days_from t lst)))) fs)"
  using assms(3)
proof (induction t lst arbitrary: found c rule: days_from.induct)
  case (1 t lst)
  show ?case
  proof (cases "0 \<le> DiffTimeTm t lst")
    case False
    then show ?thesis by (simp add: day_loop.simps days_from.simps)
  next
    case True
    let ?r = "system (cat_day found (day_name t)) (put_file working_file c fs)"
    let ?c = "Some ((if found then got c else []) @ got (contents fs (day_file t)))"
    have d: "days_from t lst = t # days_from (tomorrow t) lst" using True by (subst days_from.simps) simp
    obtain r where r: "?r = (r, put_file working_file ?c fs)" "r = 0 \<longleftrightarrow> contents fs (day_file t) \<noteq> None"
      using cat_runs [OF assms(1,2), of "day_file t" t found c] unfolding cat_commands by blast
    have "day_loop system t lst found (put_file working_file c fs) =
        day_loop system (tomorrow t) lst (found \<or> r = 0) (put_file working_file ?c fs)"
      using True 1(2) d bkp_day_short [of t] by (subst day_loop.simps) (simp add: r(1) Let_def)
    also have "\<dots> = Inr ((found \<or> r = 0) \<or> day_calls fs (days_from (tomorrow t) lst) \<noteq> [],
      put_file working_file (if days_from (tomorrow t) lst = [] then ?c
        else Some ((if found \<or> r = 0 then got ?c else []) @ concat (day_calls fs (days_from (tomorrow t) lst)))) fs)"
      using 1(2) d by (intro 1(1) [OF True]) simp
    finally show ?thesis
      using r(2) by (cases "contents fs (day_file t)") (simp_all add: d got_def)
  qed
qed

lemma day_loop_total:
  assumes "list_all short_date (days_from t lst)"
  shows "\<exists>r. day_loop system t lst found fs = Inr r"
  using assms
proof (induction t lst arbitrary: found fs rule: days_from.induct)
  case (1 t lst)
  show ?case
  proof (cases "0 \<le> DiffTimeTm t lst")
    case True
    then have d: "days_from t lst = t # days_from (tomorrow t) lst" by (subst days_from.simps) simp
    obtain r fs' where r: "system (cat_day found (day_name t)) fs = (r, fs')" by fastforce
    have "day_loop system t lst found fs = day_loop system (tomorrow t) lst (found \<or> r = 0) fs'"
      using True 1(2) d bkp_day_short [of t] by (subst day_loop.simps) (simp add: r)
    then show ?thesis using 1(1) [OF True] 1(2) d by simp
  qed (simp add: day_loop.simps)
qed

text \<open>The dates between two short ones are short.\<close>

lemma days_from_cons: "days_from t lst \<noteq> [] \<Longrightarrow> days_from t lst = t # days_from (tomorrow t) lst"
  by (subst days_from.simps, subst (asm) days_from.simps) (simp split: if_splits)

lemma days_from_short:
  assumes "short_date t" "0 \<le> tm_year (tomorrow t) + 1900" "tm_year lst + 1900 < 10000"
  shows "list_all short_date (days_from t lst)"
proof (cases "days_from t lst = []")
  case False
  have c: "calendar_day (tomorrow t)" by (simp add: tomorrow_def mktime_valid)
  have "short_date z" if "z \<in> set (days_from (tomorrow t) lst)" for z
  proof -
    have "calendar_day z" "tm_key (tomorrow t) \<le> tm_key z" "tm_key z \<le> tm_key lst"
      using that by (simp_all add: days_from_set [OF c])
    then show ?thesis using assms(2,3) by (intro calendar_short) (auto simp: tm_key_def)
  qed
  then show ?thesis using assms(1) days_from_cons [OF False] by (simp add: list_all_iff)
qed simp

section \<open>The text of a date\<close>

definition two_digits :: "nat \<Rightarrow> u8 list" where
  "two_digits n = [48 + of_nat (n div 10), 48 + of_nat (n mod 10)]"

definition date_text :: "nat \<Rightarrow> nat \<Rightarrow> nat \<Rightarrow> u8 list" where
  "date_text d m y = two_digits d @ cstr ''/'' @ two_digits m @ cstr ''/'' @ two_digits y"

lemma digit_of_nat: "k < 10 \<Longrightarrow> is_digit (48 + of_nat k)" "k < 10 \<Longrightarrow> (48 + of_nat k :: u8) \<noteq> 0"
proof -
  show d: "k < 10 \<Longrightarrow> is_digit (48 + of_nat k)" by (simp add: is_digit_def uint_digit)
  assume "k < 10"
  then show "(48 + of_nat k :: u8) \<noteq> 0" using d by (metis is_digit_def not_numeral_le_zero uint_0_iff)
qed

lemma two_digits:
  assumes "n < 100"
  shows "list_all is_digit (two_digits n)" "digits_value (two_digits n) = int n" "strncpy_bytes 2 (two_digits n @ r) = two_digits n"
proof -
  have k: "n div 10 < 10" "n mod 10 < 10" using assms by auto
  show "list_all is_digit (two_digits n)" using digit_of_nat k by (simp add: two_digits_def)
  show "digits_value (two_digits n) = int n"
    using uint_digit [OF k(1)] uint_digit [OF k(2)] by (simp add: two_digits_def digits_value_def) presburger
  show "strncpy_bytes 2 (two_digits n @ r) = two_digits n"
    using digit_of_nat(2) k by (simp add: strncpy_bytes_def two_digits_def Let_def numeral_2_eq_2)
qed

lemma length_two_digits [simp]: "length (two_digits n) = 2"
  by (simp add: two_digits_def)

text \<open>
  The string holds a date when its object goes on for the eight bytes that are read; a string that ends in
  place of the year will do too.
\<close>

definition holds_date :: "u8 list \<Rightarrow> bool" where
  "holds_date date \<longleftrightarrow> 8 \<le> length date \<or> length date = 7 \<and> date ! 6 = 0"

lemma date_2000_parts:
  "date_2000 date = (if holds_date date
     then Inr ([50, 48] @ strncpy_bytes 2 (drop 6 date) @ strncpy_bytes 2 (drop 3 date) @ strncpy_bytes 2 date @ replicate 12 0)
     else Inl Out_Of_Bounds)"
proof -
  have "mem_write (replicate 20 0) 0 (cstr ''2000'' @ [0]) = Inr ([50, 48, 48, 48] @ replicate 16 0)"
    by (simp add: mem_write_def flip: replicate_Suc)
  moreover have "mem_write ([50, 48, 48, 48] @ replicate 16 0) 2 a = Inr ([50, 48] @ a @ replicate 16 0)" if "length a = 2" for a
    using that by (simp add: mem_write_def)
  moreover have "mem_write ([50, 48] @ a @ replicate 16 0) 4 b = Inr ([50, 48] @ a @ b @ replicate 14 0)" if "length a = 2" "length b = 2" for a b
    using that by (simp add: mem_write_def)
  moreover have "mem_write ([50, 48] @ a @ b @ replicate 14 0) 6 c = Inr ([50, 48] @ a @ b @ c @ replicate 12 0)"
    if "length a = 2" "length b = 2" "length c = 2" for a b c
    using that by (simp add: mem_write_def)
  moreover have "strncpy_from 2 (drop 6 date) = (if holds_date date then Inr (strncpy_bytes 2 (drop 6 date)) else Inl Out_Of_Bounds)"
  proof -
    consider "8 \<le> length date" | "length date = 7" | "length date \<le> 6" by linarith
    then show ?thesis
    proof cases
      case 2
      then have "drop 6 date = [date ! 6]" by (simp add: Cons_nth_drop_Suc [symmetric])
      then show ?thesis using 2 by (simp add: strncpy_from_def holds_date_def)
    qed (simp_all add: strncpy_from_def holds_date_def)
  qed
  ultimately show ?thesis
    by (cases "holds_date date") (simp_all only: date_2000_def c_bind_simps length_strncpy_bytes if_True if_False,
      auto simp: holds_date_def)
qed

lemma date_2000_text:
  assumes "d < 100" "m < 100" "y < 100"
  shows "date_2000 (date_text d m y @ r) = Inr (two_digits 20 @ two_digits y @ two_digits m @ two_digits d @ replicate 12 0)"
proof -
  have "strncpy_bytes 2 (drop 6 (date_text d m y @ r)) = two_digits y" "strncpy_bytes 2 (drop 3 (date_text d m y @ r)) = two_digits m"
    "strncpy_bytes 2 (date_text d m y @ r) = two_digits d" "two_digits 20 = [50, 48]"
    using assms by (simp_all add: date_text_def two_digits(3)) (simp add: two_digits_def)
  moreover have "holds_date (date_text d m y @ r)" by (simp add: holds_date_def date_text_def)
  ultimately show ?thesis by (simp only: date_2000_parts if_True)
qed

lemma date_field_digits:
  assumes "drop off s = ds @ r" "length ds = n" "n < 10" "0 < n" "list_all is_digit ds"
  shows "date_field s off n = Inr (digits_value ds)"
proof -
  have "0 \<notin> set ds" using assms(5) by (auto simp: list_all_iff is_digit_def)
  then have "strncpy_bytes n (ds @ r) = ds" using strncpy_bytes_eq [of ds] assms(2) by (simp add: strncpy_bytes_def)
  moreover have "replicate (10 - n) (0 :: u8) = [] \<or> \<not> is_digit (hd (replicate (10 - n) 0))"
    using assms(3) by (simp add: is_digit_def)
  ultimately have "atoi_value (ds @ replicate (10 - n) 0) = digits_value ds"
    using assms atoi_digits [of ds "replicate (10 - n) 0"] by auto
  moreover have "0 \<le> digits_value ds" "digits_value ds < 10 ^ 9"
    using digits_value_bounds [OF assms(5)] power_increasing [of n 9 "10 :: int"] assms(2,3) by auto
  ultimately show ?thesis using assms(1,2) \<open>strncpy_bytes n (ds @ r) = ds\<close> by (simp add: date_field_def atoi_def)
qed

definition date_of_text :: "nat \<Rightarrow> nat \<Rightarrow> nat \<Rightarrow> tm" where
  "date_of_text d m y = \<lparr>tm_year = int y + 100, tm_mon = int m - 1, tm_mday = int d\<rparr>"

lemma parse_date_text:
  assumes "d < 100" "m < 100" "y < 100"
  shows "parse_date (two_digits 20 @ two_digits y @ two_digits m @ two_digits d @ r) = Inr (date_of_text d m y)"
proof -
  let ?s = "two_digits 20 @ two_digits y @ two_digits m @ two_digits d @ r"
  note t = two_digits(1) [OF assms(1)] two_digits(1) [OF assms(2)] two_digits(1) [OF assms(3)]
    two_digits(2) [OF assms(1)] two_digits(2) [OF assms(2)] two_digits(2) [OF assms(3)] two_digits(1,2) [of 20]
  have "date_field ?s 0 4 = Inr (digits_value (two_digits 20 @ two_digits y))" using t by (intro date_field_digits) simp_all
  moreover have "date_field ?s 4 2 = Inr (digits_value (two_digits m))" using t by (intro date_field_digits) simp_all
  moreover have "date_field ?s 6 2 = Inr (digits_value (two_digits d))" using t by (intro date_field_digits) simp_all
  ultimately show ?thesis using t by (simp add: parse_date_def date_of_text_def digits_value_append)
qed

text \<open>Any bytes: the numbers are small, and the year is not before the year 20.\<close>

lemma date_field_bounds:
  assumes "0 < n" "n < 10" "off + n \<le> length s"
  shows "\<exists>v. date_field s off n = Inr v \<and> - (10 ^ (n - 1)) < v \<and> v < 10 ^ n"
proof -
  let ?t = "takeWhile (\<lambda>b. b \<noteq> 0) (take n (drop off s))"
  have l: "length ?t \<le> n" by (metis length_take length_takeWhile_le min.boundedE)
  have "strncpy_bytes n (drop off s) @ replicate (10 - n) 0 = ?t @ replicate ((n - length ?t) + (10 - n)) 0"
    by (simp add: strncpy_bytes_def Let_def replicate_add)
  also have "\<dots> = ?t @ 0 # replicate ((n - length ?t) + (9 - n)) 0"
    using assms(2) l by (simp flip: replicate_Suc)
  finally have "atoi_value (strncpy_bytes n (drop off s) @ replicate (10 - n) 0) = atoi_value ?t"
    using atoi_stop [of 0 ?t] by (simp add: is_digit_def is_white_def)
  moreover have "(10 :: int) ^ n \<le> 10 ^ 9" "(10 :: int) ^ (n - 1) \<le> 10 ^ 9" using assms(2) by (intro power_increasing; simp)+
  ultimately show ?thesis using atoi_bounds [of ?t "n - 1"] l assms(1,3) by (simp add: date_field_def atoi_def)
qed

lemma carry_days_year:
  assumes "carry_days y m d = (y', m', d')" "1 \<le> d"
  shows "y \<le> y'"
  using assms
proof (induction y m d rule: carry_days.induct)
  case (1 y m d)
  note c = "1.prems"(1) [unfolded carry_days.simps [of y m d]]
  show ?case using c 1 by (auto split: if_splits)
qed

lemma tomorrow_year:
  assumes "short_date t"
  shows "tm_year t - 2 \<le> tm_year (tomorrow t)"
proof -
  let ?y = "tm_year t + tm_mon t div 12" and ?m = "tm_mon t mod 12" and ?d = "tm_mday t + 1"
  obtain y m d where c: "carry_days ?y ?m ?d = (y, m, d)" using prod_cases3 by blast
  have "?y - 1 \<le> y"
  proof (cases "1 \<le> ?d")
    case True
    then show ?thesis using carry_days_year [OF c] by simp
  next
    case False
    have "1 \<le> ?d + days_in_month (?y - 1) 11" "1 \<le> ?d + days_in_month ?y (?m - 1)"
      using assms days_in_month_bounds [of "?y - 1" 11] days_in_month_bounds [of ?y "?m - 1"] by (simp_all add: short_date_def)
    moreover have "\<not> days_in_month ?y ?m < ?d" using False days_in_month_bounds [of ?y ?m] by simp
    ultimately show ?thesis
      using c False carry_days_year [of "?y - 1" 11] carry_days_year [of ?y "?m - 1"]
      by (subst (asm) carry_days.simps) (fastforce split: if_splits)
  qed
  moreover have "-1 \<le> tm_mon t div 12" using assms zdiv_mono1 [of "-12" "tm_mon t" 12] by (simp add: short_date_def)
  moreover have "tm_year (tomorrow t) = y" using c by (simp add: tomorrow_def mktime_def)
  ultimately show ?thesis by linarith
qed

lemma strncpy_bytes_Cons: "c \<noteq> 0 \<Longrightarrow> strncpy_bytes (Suc n) (c # s) = c # strncpy_bytes n s"
  by (simp add: strncpy_bytes_def Let_def)

lemma parse_date_bounds:
  assumes "date_2000 date = Inr s"
  shows "\<exists>t. parse_date s = Inr t \<and> short_date t \<and> 20 \<le> tm_year t + 1900"
proof -
  obtain r where s: "s = [50, 48] @ r" "length r = 18" using assms by (auto simp: date_2000_parts split: if_splits)
  let ?ds = "takeWhile is_digit (strncpy_bytes 2 r @ replicate 6 0)"
  have d: "list_all is_digit ([50, 48] @ ?ds)" using takeWhile_digits by (simp add: is_digit_def)
  obtain year where year: "date_field s 0 4 = Inr year" "- 1000 < year" "year < 10000"
    using date_field_bounds [of 4 0 s] s by auto
  have "year = atoi_value ([50, 48] @ ?ds @ dropWhile is_digit (strncpy_bytes 2 r @ replicate 6 0))"
    using year(1) strncpy_bytes_Cons [of 50 3 "48 # r"] strncpy_bytes_Cons [of 48 2 r]
    by (simp add: date_field_def s atoi_def split: if_splits)
  also have "\<dots> = digits_value ([50, 48] @ ?ds)"
  proof (rule atoi_digits [OF d, unfolded append_assoc])
    have "0 \<in> set (strncpy_bytes 2 r @ replicate 6 0)" "\<not> is_digit 0" by (simp_all add: is_digit_def)
    then have "dropWhile is_digit (strncpy_bytes 2 r @ replicate 6 0) \<noteq> []" by (metis dropWhile_eq_Nil_conv)
    then show "dropWhile is_digit (strncpy_bytes 2 r @ replicate 6 0) = [] \<or>
        \<not> is_digit (hd (dropWhile is_digit (strncpy_bytes 2 r @ replicate 6 0)))"
      using hd_dropWhile by blast
  qed simp
  also have "\<dots> = 20 * 10 ^ length ?ds + digits_value ?ds"
    unfolding digits_value_append by (simp add: digits_value_def)
  finally have "year = 20 * 10 ^ length ?ds + digits_value ?ds" .
  moreover have "0 \<le> digits_value ?ds" using digits_value_bounds [OF takeWhile_digits] by blast
  moreover have "(1 :: int) \<le> 10 ^ length ?ds" by simp
  ultimately have y: "20 \<le> year" by linarith
  obtain mon where mon: "date_field s 4 2 = Inr mon" "- 10 < mon" "mon < 100" using date_field_bounds [of 2 4 s] s by auto
  obtain mday where mday: "date_field s 6 2 = Inr mday" "- 10 < mday" "mday < 100" using date_field_bounds [of 2 6 s] s by auto
  show ?thesis using year y mon mday by (simp add: parse_date_def short_date_def)
qed

section \<open>The working file\<close>

text \<open>The files the program collects, in order: those of the days, and the current one if the last day is today.\<close>

definition collected :: "files \<Rightarrow> tm \<Rightarrow> tm \<Rightarrow> tm \<Rightarrow> u8 list list" where
  "collected fs today first lst =
     (if lst = today \<and> first = lst then [] else day_calls fs (days_from first lst)) @
     (if lst = today then case contents fs current_file of None \<Rightarrow> [] | Some s \<Rightarrow> [s] else [])"

lemma CreateCdrFromDates_collects:
  assumes "cat_shell system" "writable fs working_file" "short_date today"
    and "list_all short_date (days_from F L)" and p: "parse_date f = Inr F" "parse_date l = Inr L"
  shows "CreateCdrFromDates system today f l fs =
    Inr (if collected fs today F L = [] then -1 else 0,
      if days_from F L = [] \<and> L \<noteq> today then fs
      else put_file working_file (Some (concat (collected fs today F L))) fs)"
proof -
  let ?F = F and ?L = L
  let ?calls = "day_calls fs (days_from ?F ?L)" and ?c = "contents fs working_file"
  have loop: "day_loop system ?F ?L False fs = Inr (?calls \<noteq> [],
      put_file working_file (if days_from ?F ?L = [] then ?c else Some (concat ?calls)) fs)"
    using day_loop_cat [OF assms(1,2,4), of False ?c] by simp
  have today: "\<exists>r. system (cat_today found) (put_file working_file c fs) =
      (r, put_file working_file (Some ((if found then got c else []) @ got (contents fs current_file))) fs) \<and>
      (r = 0 \<longleftrightarrow> contents fs current_file \<noteq> None)" for found c
    using cat_runs [OF assms(1,2), of current_file _ found c] unfolding cat_commands by blast
  note t0 = today [of False ?c, unfolded put_file_simps]
  have k: "DiffTimeTm x y = 0 \<longleftrightarrow> x = y" for x y by (simp add: DiffTime_key)
  have d: "?calls \<noteq> [] \<Longrightarrow> days_from ?F ?L \<noteq> []" by auto
  show ?thesis
  proof (cases "?L = today")
    case False
    then show ?thesis by (simp add: CreateCdrFromDates_def p Let_def k loop collected_def)
  next
    case last_today: True
    show ?thesis
    proof (cases "?F = ?L")
      case True
      then show ?thesis using t0 last_today bkp_day_short [OF assms(3)]
        by (auto simp: CreateCdrFromDates_def p Let_def k collected_def got_def split: option.splits)
    next
      case False
      then show ?thesis
        using today [of "?calls \<noteq> []" "if days_from ?F ?L = [] then ?c else Some (concat ?calls)"] last_today d bkp_day_short [OF assms(3)] loop
        by (cases "?calls = []") (auto simp: CreateCdrFromDates_def p Let_def k collected_def got_def split: option.splits)
    qed
  qed
qed

lemma CreateCdrFromDates2_text:
  assumes "d < 100" "m < 100" "y < 100" "d' < 100" "m' < 100" "y' < 100"
  shows "\<exists>f l. CreateCdrFromDates2 system today (date_text d m y @ r) (date_text d' m' y' @ r') fs =
    CreateCdrFromDates system today f l fs \<and> parse_date f = Inr (date_of_text d m y) \<and> parse_date l = Inr (date_of_text d' m' y')"
  unfolding CreateCdrFromDates2_def date_2000_text [OF assms(1-3)] date_2000_text [OF assms(4-6)] c_bind_simps
  using parse_date_text [OF assms(1-3)] parse_date_text [OF assms(4-6)] by blast

lemma calendar_text: "calendar_day (date_of_text d m y) \<Longrightarrow> d < 100 \<and> m < 100"
  using days_in_month_bounds(2) [of "int y + 100" "int m - 1"] by (auto simp: calendar_day_def date_of_text_def)

lemma one_day_text:
  assumes "d < 100" "m < 100" "y < 100"
  obtains f where "CreateCdrFromDates2 system today (date_text d m y) (date_text d m y) fs = CreateCdrFromDates system today f f fs"
    "parse_date f = Inr (date_of_text d m y)"
proof
  let ?f = "two_digits 20 @ two_digits y @ two_digits m @ two_digits d @ replicate 12 0"
  show "CreateCdrFromDates2 system today (date_text d m y) (date_text d m y) fs = CreateCdrFromDates system today ?f ?f fs"
    using date_2000_text [OF assms, of "[]"] by (simp add: CreateCdrFromDates2_def)
  show "parse_date ?f = Inr (date_of_text d m y)" by (rule parse_date_text [OF assms])
qed

lemma day_loop_one_day:
  assumes "calendar_day t" "short_date t"
  shows "day_loop system t t False fs = (case system (cat_day False (day_name t)) fs of (r, fs) \<Rightarrow> Inr (r = 0, fs))"
proof -
  have "\<not> 0 \<le> DiffTimeTm (tomorrow t) t" using tomorrow_next(2) [OF assms(1)] by (simp add: DiffTime_key)
  then have "day_loop system (tomorrow t) t found fs = Inr (found, fs)" for found fs by (subst day_loop.simps) simp
  moreover have "0 \<le> DiffTimeTm t t" by (simp add: DiffTime_key)
  ultimately show ?thesis using bkp_day_short [OF assms(2)] by (subst day_loop.simps) (simp split: prod.splits)
qed

section \<open>A shell to run the program on\<close>

text \<open>It reads the four words of a \<open>cat\<close> command.\<close>

definition word_of :: "u8 list \<Rightarrow> u8 list" where
  "word_of s = takeWhile (\<lambda>c. c \<noteq> 32) s"

definition rest_of :: "u8 list \<Rightarrow> u8 list" where
  "rest_of s = drop (length (word_of s) + 1) s"

definition simple_shell :: "u8 list \<Rightarrow> files \<Rightarrow> int \<times> files" where
  "simple_shell command fs =
     (let s = rest_of command; src = word_of s; op = word_of (rest_of s); dst = word_of (rest_of (rest_of s));
          old = (if op = cstr ''>>'' then got (contents fs dst) else [])
      in (if contents fs src = None then 1 else 0, put_file dst (Some (old @ got (contents fs src))) fs))"

lemma words_simps:
  assumes "32 \<notin> set w"
  shows "word_of (w @ 32 # s) = w" "rest_of (w @ 32 # s) = s" "word_of w = w"
proof -
  show w: "word_of (w @ 32 # s) = w" using assms by (induction w) (auto simp: word_of_def)
  show "rest_of (w @ 32 # s) = s" by (simp add: rest_of_def w)
  show "word_of w = w" using assms by (induction w) (auto simp: word_of_def)
qed

lemma simple_shell_ok: "cat_shell simple_shell"
proof -
  have "(fst (simple_shell (cat_command found src dst) fs) = 0 \<longleftrightarrow> contents fs src \<noteq> None) \<and>
      snd (simple_shell (cat_command found src dst) fs) =
        put_file dst (Some ((if found then got (contents fs dst) else []) @ got (contents fs src))) fs"
    if "list_all plain_byte src" "list_all plain_byte dst" for found src dst fs
  proof -
    have n: "32 \<notin> set src" "32 \<notin> set dst" using that by (auto simp: list_all_iff plain_byte_def is_digit_def)
    have cat: "32 \<notin> set CDR_UTIL_CAT" by simp
    let ?op = "if found then cstr ''>>'' else cstr ''>''"
    have c: "cat_command found src dst = CDR_UTIL_CAT @ 32 # src @ 32 # ?op @ 32 # dst"
      by (simp add: cat_command_def redirect_def)
    have "32 \<notin> set ?op" "?op = cstr ''>>'' \<longleftrightarrow> found" by simp_all
    then show ?thesis
      unfolding simple_shell_def c words_simps(2) [OF cat] Let_def using n words_simps(1,2) [of "[62, 62]", simplified] words_simps(1,2) [of "[62]", simplified]
      by (cases found) (simp_all add: words_simps)
  qed
  then show ?thesis by (simp add: cat_shell_def Let_def)
qed

section \<open>Properties\<close>

text \<open>C3: For two calendar dates in order, the working file is the call files of all days from the first to the last,
  each calendar day once and in order, followed by the file of today when the last day is today; when the only day
  is today it is that file alone. The program answers whether it found any.\<close>

theorem backup_collects_days:
  assumes "cat_shell system" "writable fs working_file" "short_date today" "y < 100" "y' < 100"
    and "calendar_day (date_of_text d m y)" "calendar_day (date_of_text d' m' y')"
    and "tm_key (date_of_text d m y) \<le> tm_key (date_of_text d' m' y')"
  shows "\<exists>days. sorted_wrt (\<lambda>x y. tm_key x < tm_key y) days \<and>
    set days = {t. calendar_day t \<and> tm_key (date_of_text d m y) \<le> tm_key t \<and> tm_key t \<le> tm_key (date_of_text d' m' y')} \<and>
    (let calls = (if date_of_text d' m' y' = today
        then (if date_of_text d m y = today then [] else day_calls fs days) @
          (case contents fs current_file of None \<Rightarrow> [] | Some s \<Rightarrow> [s])
        else day_calls fs days)
     in CreateCdrFromDates2 system today (date_text d m y @ r) (date_text d' m' y' @ r') fs =
       Inr (if calls = [] then -1 else 0, put_file working_file (Some (concat calls)) fs))"
proof -
  let ?F = "date_of_text d m y" and ?L = "date_of_text d' m' y'"
  let ?days = "days_from ?F ?L"
  have s: "list_all short_date ?days"
    using assms(4,5,6) tomorrow_year [of ?F] calendar_short [of ?F] by (intro days_from_short) (auto simp: date_of_text_def)
  obtain f l where e: "CreateCdrFromDates2 system today (date_text d m y @ r) (date_text d' m' y' @ r') fs =
      CreateCdrFromDates system today f l fs" "parse_date f = Inr ?F" "parse_date l = Inr ?L"
    using CreateCdrFromDates2_text assms(4,5) calendar_text [OF assms(6)] calendar_text [OF assms(7)] by metis
  have n: "?days \<noteq> []" using assms(8) by (subst days_from.simps) (simp add: DiffTime_key)
  have "CreateCdrFromDates system today f l fs =
      Inr (if collected fs today ?F ?L = [] then -1 else 0, put_file working_file (Some (concat (collected fs today ?F ?L))) fs)"
    using CreateCdrFromDates_collects [OF assms(1-3) s e(2,3)] n by simp
  then have "let calls = (if ?L = today
        then (if ?F = today then [] else day_calls fs ?days) @ (case contents fs current_file of None \<Rightarrow> [] | Some s \<Rightarrow> [s])
        else day_calls fs ?days)
     in CreateCdrFromDates2 system today (date_text d m y @ r) (date_text d' m' y' @ r') fs =
       Inr (if calls = [] then -1 else 0, put_file working_file (Some (concat calls)) fs)"
    unfolding e(1) collected_def Let_def by (cases "?L = today") simp_all
  then show ?thesis using days_from_sorted [OF assms(6), of ?L] days_from_set [OF assms(6), of ?L] by blast
qed

text \<open>C4: Two dates, each the eight bytes of DD/MM/YY or seven with a NUL at the end, whatever these bytes are, and
  whatever the commands do, for any today with a year of at most four digits: the program returns 0 or -1, so the loop
  over the days ends and the names of the days fit their buffer. A date with fewer bytes in memory is read past its
  end.\<close>

theorem create_cdr_returns:
  assumes "short_date today"
  shows "if holds_date first_date \<and> holds_date last_date
    then \<exists>code fs'. CreateCdrFromDates2 system today first_date last_date fs = Inr (code, fs') \<and> code \<in> {0, -1}
    else CreateCdrFromDates2 system today first_date last_date fs = Inl Out_Of_Bounds"
proof (cases "holds_date first_date \<and> holds_date last_date")
  case True
  then obtain f l where e: "date_2000 first_date = Inr f" "date_2000 last_date = Inr l" by (simp add: date_2000_parts)
  obtain F where f: "parse_date f = Inr F" "short_date F" "20 \<le> tm_year F + 1900" using parse_date_bounds [OF e(1)] by blast
  obtain L where l: "parse_date l = Inr L" "short_date L" "20 \<le> tm_year L + 1900" using parse_date_bounds [OF e(2)] by blast
  have "list_all short_date (days_from F L)"
    using f l tomorrow_year [OF f(2)] by (intro days_from_short) (simp_all add: short_date_def)
  then obtain found fs1 where "day_loop system F L False fs = Inr (found, fs1)"
    using day_loop_total by (metis surj_pair)
  then have "\<exists>code fs'. CreateCdrFromDates2 system today first_date last_date fs = Inr (code, fs') \<and> code \<in> {0, -1}"
    using bkp_day_short [OF assms] by (auto simp: CreateCdrFromDates2_def CreateCdrFromDates_def e f(1) l(1) Let_def split: prod.splits)
  then show ?thesis using True by simp
next
  case False
  then have "CreateCdrFromDates2 system today first_date last_date fs = Inl Out_Of_Bounds"
    by (auto simp: CreateCdrFromDates2_def date_2000_parts)
  then show ?thesis unfolding if_not_P [OF False] .
qed

theorem create_cdr_returns_witness:
  "(\<exists>code fs'. CreateCdrFromDates2 simple_shell \<lparr>tm_year = 118, tm_mon = 8, tm_mday = 2\<rparr> (cstr ''-9/-9/xx'') (cstr ''99/99/99'')
     (example_files [] 7) = Inr (code, fs') \<and> code \<in> {0, -1}) \<and>
   CreateCdrFromDates2 simple_shell \<lparr>tm_year = 118, tm_mon = 8, tm_mday = 2\<rparr> (cstr ''1/9/1'' @ [0]) (cstr ''2/9/1'' @ [0])
     (example_files [] 7) = Inl Out_Of_Bounds"
proof -
  have t: "short_date \<lparr>tm_year = 118, tm_mon = 8, tm_mday = 2\<rparr>" by (simp add: short_date_def)
  have "holds_date (cstr ''-9/-9/xx'')" "holds_date (cstr ''99/99/99'')" "\<not> holds_date (cstr ''1/9/1'' @ [0])"
    by (simp_all add: holds_date_def)
  then show ?thesis
    using create_cdr_returns [OF t, of "cstr ''-9/-9/xx''" "cstr ''99/99/99''" simple_shell "example_files [] 7"]
      create_cdr_returns [OF t, of "cstr ''1/9/1'' @ [0]" "cstr ''2/9/1'' @ [0]" simple_shell "example_files [] 7"]
    by (simp del: cstr_simps)
qed

theorem backup_collects_days_witness:
  "\<exists>days code. set days = {t. calendar_day t \<and> tm_key (date_of_text 31 8 18) \<le> tm_key t \<and> tm_key t \<le> tm_key (date_of_text 1 9 18)} \<and>
     CreateCdrFromDates2 simple_shell (date_of_text 2 9 18) (date_text 31 8 18) (date_text 1 9 18) (example_files [] 7) =
       Inr (code, put_file working_file (Some (concat (day_calls (example_files [] 7) days))) (example_files [] 7))"
proof -
  have "writable (example_files [] 7) working_file" by (simp add: example_files_def)
  moreover have "short_date (date_of_text 2 9 18)" by (simp add: short_date_def date_of_text_def)
  moreover have "calendar_day (date_of_text 31 8 18)" "calendar_day (date_of_text 1 9 18)"
    by (simp_all add: calendar_day_def date_of_text_def days_in_month_def)
  moreover have "tm_key (date_of_text 31 8 18) \<le> tm_key (date_of_text 1 9 18)" by (simp add: tm_key_def date_of_text_def)
  moreover have "date_of_text 1 9 18 \<noteq> date_of_text 2 9 18" by (simp add: date_of_text_def)
  ultimately show ?thesis
    using backup_collects_days [OF simple_shell_ok, of "example_files [] 7" "date_of_text 2 9 18" 18 18 31 8 1 9 "[]" "[]"]
    by (simp add: Let_def) blast
qed

text \<open>The names of the days are numbers without separators or padding, so two days can share a backup: asking for
  the 11th of January gives exactly what asking for the 1st of November of that year gives.\<close>

theorem days_share_a_backup:
  assumes "y < 100" "today \<noteq> date_of_text 11 1 y" "today \<noteq> date_of_text 1 11 y"
  shows "CreateCdrFromDates2 system today (date_text 11 1 y) (date_text 11 1 y) fs =
    CreateCdrFromDates2 system today (date_text 1 11 y) (date_text 1 11 y) fs"
proof -
  have c: "calendar_day (date_of_text 11 1 y)" "calendar_day (date_of_text 1 11 y)"
    by (simp_all add: calendar_day_def date_of_text_def days_in_month_def)
  have s: "short_date (date_of_text 11 1 y)" "short_date (date_of_text 1 11 y)"
    using assms(1) by (simp_all add: short_date_def date_of_text_def)
  have n: "day_name (date_of_text 11 1 y) = day_name (date_of_text 1 11 y)"
    by (simp add: day_name_def date_of_text_def sprintf_d_def decimal_digits.simps [of 11] decimal_digits.simps [of "Suc 0"])
  obtain f where f: "CreateCdrFromDates2 system today (date_text 11 1 y) (date_text 11 1 y) fs = CreateCdrFromDates system today f f fs"
    "parse_date f = Inr (date_of_text 11 1 y)"
    by (rule one_day_text [of 11 1 y]) (use assms in simp_all)
  obtain g where g: "CreateCdrFromDates2 system today (date_text 1 11 y) (date_text 1 11 y) fs = CreateCdrFromDates system today g g fs"
    "parse_date g = Inr (date_of_text 1 11 y)"
    by (rule one_day_text [of 1 11 y]) (use assms in simp_all)
  have "day_loop system (date_of_text 11 1 y) (date_of_text 11 1 y) False fs =
      day_loop system (date_of_text 1 11 y) (date_of_text 1 11 y) False fs"
    unfolding day_loop_one_day [OF c(1) s(1)] day_loop_one_day [OF c(2) s(2)] n ..
  then show ?thesis using assms(2,3) unfolding f(1) g(1) CreateCdrFromDates_def f(2) g(2) by (simp add: Let_def DiffTime_key)
qed

theorem days_share_a_backup_witness:
  "CreateCdrFromDates2 simple_shell (date_of_text 2 9 18) (date_text 11 1 18) (date_text 11 1 18) (example_files [] 7) =
   CreateCdrFromDates2 simple_shell (date_of_text 2 9 18) (date_text 1 11 18) (date_text 1 11 18) (example_files [] 7)"
  by (rule days_share_a_backup) (simp_all add: date_of_text_def)

text \<open>A range that ends today and starts after it is not refused: it gives all the calls of today.\<close>

theorem reversed_range_gives_today:
  assumes "cat_shell system" "writable fs working_file" "d < 100" "m < 100" "y < 100" "calendar_day today" "today = date_of_text d' m' y'" "y' < 100"
    and "tm_key today < tm_key (date_of_text d m y)" "contents fs current_file = Some s"
  shows "CreateCdrFromDates2 system today (date_text d m y @ r) (date_text d' m' y' @ r') fs = Inr (0, put_file working_file (Some s) fs)"
proof -
  let ?F = "date_of_text d m y" and ?L = "date_of_text d' m' y'"
  have c: "d' < 100" "m' < 100" using calendar_text assms(6,7) by blast+
  have sh: "short_date today" using assms(6,7,8) by (intro calendar_short) (simp_all add: date_of_text_def)
  obtain f l where e: "CreateCdrFromDates2 system today (date_text d m y @ r) (date_text d' m' y' @ r') fs =
      CreateCdrFromDates system today f l fs" "parse_date f = Inr ?F" "parse_date l = Inr ?L"
    using CreateCdrFromDates2_text [OF assms(3-5) c assms(8)] by metis
  have n: "days_from ?F ?L = []" using assms(7,9) by (subst days_from.simps) (simp add: DiffTime_key)
  have "?F \<noteq> ?L" using assms(7,9) by auto
  then have "collected fs today ?F ?L = [s]" using assms(7,10) n by (simp add: collected_def)
  then show ?thesis
    using CreateCdrFromDates_collects [OF assms(1,2) sh _ e(2,3)] n unfolding e(1) by (simp add: assms(7))
qed

theorem reversed_range_gives_today_witness:
  "CreateCdrFromDates2 simple_shell (date_of_text 2 9 18) (date_text 5 9 18) (date_text 2 9 18)
     (put_file current_file (Some [65]) (example_files [] 7)) =
   Inr (0, put_file working_file (Some [65]) (put_file current_file (Some [65]) (example_files [] 7)))"
proof -
  let ?fs = "put_file current_file (Some [65]) (example_files [] 7)"
  have "writable ?fs working_file" by (simp add: example_files_def)
  moreover have "calendar_day (date_of_text 2 9 18)" by (simp add: calendar_day_def date_of_text_def days_in_month_def)
  moreover have "tm_key (date_of_text 2 9 18) < tm_key (date_of_text 5 9 18)" by (simp add: tm_key_def date_of_text_def)
  ultimately show ?thesis
    using reversed_range_gives_today [OF simple_shell_ok, of ?fs 5 9 18 "date_of_text 2 9 18" 2 9 18 "[65]" "[]" "[]"] by simp
qed

end
