(* ===== verification/Cdr_Server.thy ===== *)
theory Cdr_Server
  imports Cdr_Dates
begin

text \<open>
  The server of the call records, \<open>test_csv3/server_tcp.c\<close>: a request names two dates, the backups of the
  days are collected (\<open>Cdr_Dates\<close>), the billing file is made of them (\<open>Cdr_Asterisk\<close>) and written to the
  socket. The sockets themselves are left out: a request is the bytes received, an answer the writes.
\<close>

section \<open>A request\<close>

definition lama_file :: path where
  "lama_file = cstr ''lama.cal''"

text \<open>
  The answer is the value returned, \<open>None\<close> when the process exits, and the writes to the socket. Of the
  twenty bytes of a date only the eight copied are read. The members of the buffer of 1024 bytes that
  were not received are zero.
\<close>

definition ProcessReqTCP ::
  "(u8 list option \<Rightarrow> int \<Rightarrow> u8 list option) \<Rightarrow> (u8 list \<Rightarrow> files \<Rightarrow> int \<times> files) \<Rightarrow> tm \<Rightarrow> u8 list \<Rightarrow> cdr_state \<Rightarrow> files \<Rightarrow>
   (int option \<times> u8 list list \<times> cdr_state \<times> files) c_result" where
  "ProcessReqTCP realloc system today b st fs =
     (if take 6 b \<noteq> cstr ''C TOT,'' then Inr (Some (-1), [], st, fs)
      else if take 4 (drop 23 b) \<noteq> cstr '',FIN'' then Inr (Some (-1), [], st, fs)
      else
        let fecha_ini = strncpy_bytes 8 (drop 6 b); fecha_fin = strncpy_bytes 8 (drop 15 b) in
        c_bind (CreateCdrFromDates2 system today fecha_ini fecha_fin fs) (\<lambda>(code, fs).
        if code \<noteq> 0 then Inr (Some (-1), [], st, fs)
        else
          c_bind (AsteriskCDRProcessFile realloc working_file lama_file st fs) (\<lambda>(ok, st, fs).
          if \<not> ok then Inr (None, [], st, fs)
          else case contents fs lama_file of
                 None \<Rightarrow> Inr (Some (-1), [], st, fs)
               | Some f \<Rightarrow> Inr (Some 0, map (takeWhile (\<lambda>c. c \<noteq> 0)) (fgets_all 256 f), st, fs))))"

text \<open>
  The child process of a connection: \<open>recv\<close> gave \<open>n_bytes\<close>, and the bytes themselves if that is positive.
  The message is printed as a string before it is processed.
\<close>

definition server_child ::
  "(u8 list option \<Rightarrow> int \<Rightarrow> u8 list option) \<Rightarrow> (u8 list \<Rightarrow> files \<Rightarrow> int \<times> files) \<Rightarrow> tm \<Rightarrow> int \<Rightarrow> u8 list \<Rightarrow> files \<Rightarrow>
   (u8 list list \<times> files) c_result" where
  "server_child realloc system today n_bytes bytes fs =
     (let received = take (nat n_bytes) bytes; buffer = received @ replicate (1024 - length received) 0 in
      if n_bytes = 0 then Inr ([], fs)
      else c_bind (c_str_at buffer 0) (\<lambda>_.
           c_bind (ProcessReqTCP realloc system today buffer cdr_globals fs) (\<lambda>(_, writes, _, fs). Inr (writes, fs))))"

section \<open>Requests\<close>

definition request :: "u8 list \<Rightarrow> u8 list \<Rightarrow> u8 list" where
  "request first lst = cstr ''C TOT,'' @ first @ cstr '','' @ lst @ cstr '',FIN''"

lemma length_date_text [simp]: "length (date_text d m y) = 8"
  by (simp add: date_text_def)

lemma date_text_no_nul: "d < 100 \<Longrightarrow> m < 100 \<Longrightarrow> y < 100 \<Longrightarrow> 0 \<notin> set (date_text d m y)"
  using two_digits(1) [of d] two_digits(1) [of m] two_digits(1) [of y]
  by (auto simp: date_text_def list_all_iff is_digit_def)

lemma request_fields:
  assumes "d < 100" "m < 100" "y < 100" "d' < 100" "m' < 100" "y' < 100" "b = request (date_text d m y) (date_text d' m' y') @ r"
  shows "take 6 b = cstr ''C TOT,''" "take 4 (drop 23 b) = cstr '',FIN''"
    "strncpy_bytes 8 (drop 6 b) = date_text d m y" "strncpy_bytes 8 (drop 15 b) = date_text d' m' y'"
proof -
  have s: "strncpy_bytes 8 (date_text i j k @ z) = date_text i j k" if "i < 100" "j < 100" "k < 100" for i j k z
    using strncpy_bytes_eq [OF date_text_no_nul [OF that]] by (simp add: strncpy_bytes_def)
  show "take 6 b = cstr ''C TOT,''" "take 4 (drop 23 b) = cstr '',FIN''" by (simp_all add: assms(7) request_def)
  show "strncpy_bytes 8 (drop 6 b) = date_text d m y" "strncpy_bytes 8 (drop 15 b) = date_text d' m' y'"
    using s assms by (simp_all add: request_def)
qed

text \<open>A request without the right start or end is refused and changes nothing.\<close>

lemma bad_request_refused:
  assumes "take 6 b \<noteq> cstr ''C TOT,'' \<or> take 4 (drop 23 b) \<noteq> cstr '',FIN''"
  shows "ProcessReqTCP realloc system today b st fs = Inr (Some (-1), [], st, fs)"
  using assms unfolding ProcessReqTCP_def by auto

text \<open>The billing file has no NUL, so the answer is the file.\<close>

lemma lama_no_nul:
  assumes "list_all call_row rows"
  shows "0 \<notin> set (lama_header k @ concat (map lama_line (calls rows)) @ lama_trailer n)"
proof -
  have d: "0 \<notin> set (decimal_digits i)" for i using decimal_digits_digits [of 0 i] by (auto simp: is_digit_def)
  have "0 \<notin> set (lama_line ts)" if "row_fits ts" for ts
  proof -
    have f: "0 \<notin> set (column ts k)" if "k \<in> {1, 2, 9, 13, 14}" for k using \<open>row_fits ts\<close> that by (auto simp: row_fits_def)
    have "set (date_of s) \<subseteq> set s" "set (time_of s) \<subseteq> set s" for s
      by (auto simp: date_of_def time_of_def dest: set_takeWhileD in_set_dropD)
    then have "0 \<notin> set (date_of (column ts 9))" "0 \<notin> set (time_of (column ts 9))" using f [of 9] by auto
    then show ?thesis using f [of 1] f [of 2] f [of 13] by (simp add: lama_line_def)
  qed
  then have "\<forall>ts \<in> set (calls rows). 0 \<notin> set (lama_line ts)"
    using assms by (auto simp: calls_def call_row_def list_all_iff)
  then show ?thesis using d by (simp add: lama_header_def lama_trailer_def)
qed

lemma chunks_no_nul: "0 \<notin> set f \<Longrightarrow> concat (map (takeWhile (\<lambda>c. c \<noteq> 0)) (fgets_all 256 f)) = f"
proof -
  assume "0 \<notin> set f"
  then have "0 \<notin> set (concat (fgets_all 256 f))" by (simp add: concat_fgets_all)
  then have "map (takeWhile (\<lambda>c. c \<noteq> 0)) (fgets_all 256 f) = map id (fgets_all 256 f)"
    by (intro map_cong) auto
  then show ?thesis by (simp add: concat_fgets_all)
qed

text \<open>The backups as rows of calls.\<close>

definition backups :: "(tm \<Rightarrow> csv_cell list list option) \<Rightarrow> files \<Rightarrow> bool" where
  "backups table fs \<longleftrightarrow> (\<forall>t. contents fs (day_file t) = map_option (\<lambda>rows. concat (map row_bytes rows)) (table t)) \<and>
     (\<forall>t rows. table t = Some rows \<longrightarrow> list_all call_row rows \<and> 0 \<notin> set (concat (map row_bytes rows)))"

lemma backups_day_calls:
  assumes "backups table fs"
  shows "concat (day_calls fs ts) = concat (map row_bytes (concat (List.map_filter table ts)))"
    "day_calls fs ts = [] \<longleftrightarrow> List.map_filter table ts = []"
    "list_all call_row (concat (List.map_filter table ts))" "0 \<notin> set (concat (day_calls fs ts))"
proof -
  have c: "contents fs (day_file t) = map_option (\<lambda>rows. concat (map row_bytes rows)) (table t)" for t
    using assms by (simp add: backups_def)
  have r: "table t = Some rows \<Longrightarrow> list_all call_row rows \<and> 0 \<notin> set (concat (map row_bytes rows))" for t rows
    using assms by (simp add: backups_def)
  show "concat (day_calls fs ts) = concat (map row_bytes (concat (List.map_filter table ts)))"
    by (induction ts) (simp_all add: c split: option.split)
  show "day_calls fs ts = [] \<longleftrightarrow> List.map_filter table ts = []"
    by (induction ts) (simp_all add: c split: option.split)
  show "list_all call_row (concat (List.map_filter table ts))"
    by (induction ts) (use r in \<open>auto simp: list_all_iff split: option.split\<close>)
  show "0 \<notin> set (concat (day_calls fs ts))"
    by (induction ts) (use r in \<open>auto simp: c split: option.split\<close>)
qed

text \<open>A request for past days that the program can answer: the backups of its days fit in memory.\<close>

definition server_ready ::
  "(u8 list option \<Rightarrow> int \<Rightarrow> u8 list option) \<Rightarrow> (u8 list \<Rightarrow> files \<Rightarrow> int \<times> files) \<Rightarrow> nat \<Rightarrow> files \<Rightarrow> bool" where
  "server_ready realloc system k fs \<longleftrightarrow>
     realloc_ok realloc \<and> (\<forall>b n. realloc b n \<noteq> None) \<and> cat_shell system \<and>
     contents fs seclama_path = Some (decimal_digits k) \<and> k \<le> 65000 \<and>
     writable fs seclama_path \<and> writable fs working_file \<and> writable fs lama_file"

lemma paths_differ: "working_file \<noteq> lama_file" "working_file \<noteq> seclama_path" "lama_file \<noteq> seclama_path"
  by (simp_all add: working_file_def lama_file_def seclama_path_def)

lemma bill_backups:
  assumes "server_ready realloc system k fs" "backups table fs" "clean st"
    and "0 \<le> lineas st" "lineas st + int (length (concat (day_calls fs days))) < INT_MAX"
  shows "\<exists>st' fs'. AsteriskCDRProcessFile realloc working_file lama_file st (put_file working_file (Some (concat (day_calls fs days))) fs) =
      Inr (True, st', fs') \<and>
    contents fs' lama_file = Some (lama_header k @ concat (map lama_line (calls (concat (List.map_filter table days)))) @
      lama_trailer (length (calls (concat (List.map_filter table days)))))"
proof -
  let ?rows = "concat (List.map_filter table days)"
  let ?fs = "put_file working_file (Some (concat (day_calls fs days))) fs"
  note b = backups_day_calls [OF assms(2), of days]
  have r: "cdr_run_ready realloc working_file lama_file k (concat (map row_bytes ?rows)) st ?fs"
    using assms b(1,4) paths_differ by (simp add: cdr_run_ready_def server_ready_def)
  from cdr_run [OF r run_rows [OF init_standard call_rows_ok [OF b(3)]]]
  show ?thesis
    using rows_run [OF _ b(3) counts_of_rows [OF r], of "lama_header k"] assms(3)
    by (simp add: spec_fini_def rows_done calls_def clean_def)
qed

text \<open>A backup of one day to apply the property to.\<close>

definition example_table :: "tm \<Rightarrow> csv_cell list list option" where
  "example_table t = (if day_file t = day_file (date_of_text 22 8 18) then Some [example_row good_date] else None)"

definition example_backups :: files where
  "example_backups = put_file (day_file (date_of_text 22 8 18)) (Some (row_bytes (example_row good_date))) (example_files [] 622)"

lemma day_file_other: "day_file t \<noteq> seclama_path" "day_file t \<noteq> cstr ''Master.csv''"
  by (simp_all add: day_file_def seclama_path_def)

lemma example_backups_ok: "backups example_table example_backups"
proof -
  have "contents example_backups (day_file t) = map_option (\<lambda>rows. concat (map row_bytes rows)) (example_table t)" for t
    using day_file_other [of t] by (simp add: example_backups_def example_table_def example_files_def del: cstr_simps)
  moreover have "0 \<notin> set (row_bytes (example_row good_date))" by (simp add: example_row_def csv_quoted_def)
  ultimately show ?thesis using example_call by (simp add: backups_def example_table_def)
qed

lemma example_server_ready: "server_ready zero_realloc simple_shell 622 example_backups"
  using zero_realloc_ok simple_shell_ok day_file_other(1) [of "date_of_text 22 8 18"]
  by (simp add: server_ready_def example_backups_def example_files_def) (simp add: seclama_path_def)

section \<open>Properties\<close>

text \<open>C1: A request for two past dates in order is answered with the billing file of the days between them (each calendar
  day once, in order): the header with the sequence number, one line for each answered call of a second or more of each day
  with a backup, and the trailer with their number. The writes to the socket, put together, are that file. The backups
  are rows that are billed as \<open>Cdr_Asterisk\<close> shows (\<open>call_row\<close>), together of fewer bytes than an \<open>int\<close> counts.\<close>

theorem request_answered:
  assumes "server_ready realloc system k fs" "backups table fs" "clean st" "short_date today"
    and "calendar_day (date_of_text d m y)" "calendar_day (date_of_text d' m' y')" "y < 100" "y' < 100"
    and "tm_key (date_of_text d m y) \<le> tm_key (date_of_text d' m' y')" "date_of_text d' m' y' \<noteq> today"
    and "days = days_from (date_of_text d m y) (date_of_text d' m' y')" "List.map_filter table days \<noteq> []"
    and "0 \<le> lineas st" "lineas st + int (length (concat (day_calls fs days))) < INT_MAX"
  shows "sorted_wrt (\<lambda>x y. tm_key x < tm_key y) days \<and>
    set days = {t. calendar_day t \<and> tm_key (date_of_text d m y) \<le> tm_key t \<and> tm_key t \<le> tm_key (date_of_text d' m' y')} \<and>
    (\<exists>writes st' fs'. ProcessReqTCP realloc system today (request (date_text d m y) (date_text d' m' y') @ r) st fs =
       Inr (Some 0, writes, st', fs') \<and>
     concat writes = lama_header k @ concat (map lama_line (calls (concat (List.map_filter table days)))) @
       lama_trailer (length (calls (concat (List.map_filter table days)))))"
proof (intro conjI)
  let ?F = "date_of_text d m y" and ?L = "date_of_text d' m' y'" and ?b = "request (date_text d m y) (date_text d' m' y') @ r"
  show "sorted_wrt (\<lambda>x y. tm_key x < tm_key y) days" unfolding assms(11) by (rule days_from_sorted [OF assms(5)])
  show "set days = {t. calendar_day t \<and> tm_key ?F \<le> tm_key t \<and> tm_key t \<le> tm_key ?L}"
    unfolding assms(11) by (rule days_from_set [OF assms(5)])
  have n: "d < 100" "m < 100" "d' < 100" "m' < 100" using calendar_text assms(5,6) by blast+
  note q = request_fields [OF n(1,2) assms(7) n(3,4) assms(8) refl, of r]
  have w: "cat_shell system" "writable fs working_file" using assms(1) by (simp_all add: server_ready_def)
  have "list_all short_date days"
    using assms(5,7,8) tomorrow_year [of ?F] calendar_short [of ?F] unfolding assms(11)
    by (intro days_from_short) (auto simp: date_of_text_def)
  moreover obtain f l where e: "CreateCdrFromDates2 system today (date_text d m y) (date_text d' m' y') fs = CreateCdrFromDates system today f l fs"
    "parse_date f = Inr ?F" "parse_date l = Inr ?L"
    using CreateCdrFromDates2_text [OF n(1,2) assms(7) n(3,4) assms(8), of system today "[]" "[]" fs] by auto
  moreover have "collected fs today ?F ?L = day_calls fs days" using assms(10,11) by (simp add: collected_def)
  moreover have "day_calls fs days \<noteq> []" using backups_day_calls(2) [OF assms(2)] assms(12) by blast
  ultimately have c: "CreateCdrFromDates2 system today (date_text d m y) (date_text d' m' y') fs =
      Inr (0, put_file working_file (Some (concat (day_calls fs days))) fs)"
    using CreateCdrFromDates_collects [OF w assms(4)] assms(11) by auto
  obtain st' fs' where a: "AsteriskCDRProcessFile realloc working_file lama_file st (put_file working_file (Some (concat (day_calls fs days))) fs) =
      Inr (True, st', fs')"
    "contents fs' lama_file = Some (lama_header k @ concat (map lama_line (calls (concat (List.map_filter table days)))) @
      lama_trailer (length (calls (concat (List.map_filter table days)))))"
    using bill_backups [OF assms(1-3,13,14)] by blast
  have "ProcessReqTCP realloc system today ?b st fs = Inr (Some 0,
      map (takeWhile (\<lambda>c. c \<noteq> 0)) (fgets_all 256 (the (contents fs' lama_file))), st', fs')"
    unfolding ProcessReqTCP_def Let_def q c using a by (simp del: cstr_simps)
  then show "\<exists>writes st' fs'. ProcessReqTCP realloc system today ?b st fs = Inr (Some 0, writes, st', fs') \<and>
      concat writes = lama_header k @ concat (map lama_line (calls (concat (List.map_filter table days)))) @
        lama_trailer (length (calls (concat (List.map_filter table days))))"
    using a(2) chunks_no_nul [OF lama_no_nul [OF backups_day_calls(3) [OF assms(2)]]] by simp
qed

theorem request_answered_witness:
  "\<exists>writes st' fs'. ProcessReqTCP zero_realloc simple_shell (date_of_text 2 9 18)
     (request (date_text 22 8 18) (date_text 22 8 18)) cdr_globals example_backups = Inr (Some 0, writes, st', fs') \<and>
   concat writes = cstr ''C TOT,622,SECUENCIA'' @ [13, 10] @ cstr ''C TOT,101,202,2018-1-11,10:20:30,7,1,1'' @ [13, 10] @
     cstr '',FIN,1'' @ [13, 10]"
proof -
  let ?t = "date_of_text 22 8 18"
  have c: "calendar_day ?t" by (simp add: calendar_day_def date_of_text_def days_in_month_def)
  have d: "days_from ?t ?t = [?t]" by (rule days_from_one [OF c])
  have m: "List.map_filter example_table [?t] = [[example_row good_date]]" by (simp add: example_table_def)
  have "day_calls example_backups [?t] = [row_bytes (example_row good_date)]" by (simp add: example_backups_def)
  moreover have "int (length (row_bytes (example_row good_date))) < INT_MAX" by (simp add: example_row_def csv_quoted_def)
  moreover have "calls [example_row good_date] = [row_texts (example_row good_date)]" by (simp add: calls_def example_billed)
  moreover have "clean cdr_globals" "lineas cdr_globals = 0" "short_date (date_of_text 2 9 18)" "?t \<noteq> date_of_text 2 9 18"
    by (simp_all add: clean_def cdr_globals_def short_date_def date_of_text_def)
  moreover have "lama_trailer 1 = cstr '',FIN,1'' @ [13, 10]" by (simp add: lama_trailer_def decimal_digits.simps)
  ultimately show ?thesis
    using request_answered [OF example_server_ready example_backups_ok, of cdr_globals "date_of_text 2 9 18" 22 8 18 22 8 18 "[?t]" "[]"]
      c d m example_texts
    by (simp del: cstr_simps)
qed

text \<open>A message that fills the buffer of 1024 bytes without a NUL is read past the end of the buffer.\<close>

theorem full_message_overruns:
  assumes "length bytes = 1024" "0 \<notin> set bytes"
  shows "server_child realloc system today 1024 bytes fs = Inl Out_Of_Bounds"
  using assms by (simp add: server_child_def c_str_at_def)

theorem full_message_overruns_witness:
  "server_child zero_realloc simple_shell (date_of_text 2 9 18) 1024 (replicate 1024 65) (example_files [] 7) = Inl Out_Of_Bounds"
  by (rule full_message_overruns) simp_all

end
