(* ===== verification/Crc.thy ===== *)
theory Crc
  imports C_Prelude
begin

text \<open>
  The check sums of \<open>test_crc/main.c\<close>: CRC-8 with polynomial 0x1D and CRC-16 with polynomial 0x1021,
  shift register and table-free, and their reference: the remainder of the division of the message,
  followed by zeros, by the polynomial, as one does it by hand on lists of bits.
\<close>

section \<open>The program\<close>

abbreviation (input) CRC8_POLY :: u8 where "CRC8_POLY \<equiv> 0x1D"
abbreviation (input) CRC16_POLY :: u16 where "CRC16_POLY \<equiv> 0x1021"

definition crc8_shift :: "u8 \<Rightarrow> u8" where
  "crc8_shift crc = (if crc AND 0x80 \<noteq> 0 then push_bit 1 crc XOR CRC8_POLY else push_bit 1 crc)"

definition Compute_CRC8_Simple_OneByte :: "u8 \<Rightarrow> u8 c_result" where
  "Compute_CRC8_Simple_OneByte byteVal = for_loop 0 8 (\<lambda>_ crc. Inr (crc8_shift crc)) byteVal"

definition Compute_CRC8_Simple :: "u8 list \<Rightarrow> u8 \<Rightarrow> u8 c_result" where
  "Compute_CRC8_Simple data_8 len =
     for_loop 0 (uint len) (\<lambda>j crc.
       c_bind (arr_get data_8 j) (\<lambda>d. for_loop 0 8 (\<lambda>_ crc. Inr (crc8_shift crc)) (crc XOR d))) 0"

definition crc16_shift :: "u16 \<Rightarrow> u16" where
  "crc16_shift crc = (if crc AND 0x8000 \<noteq> 0 then push_bit 1 crc XOR CRC16_POLY else push_bit 1 crc)"

definition Compute_CRC16_Simple :: "u8 list \<Rightarrow> u8 \<Rightarrow> u16 c_result" where
  "Compute_CRC16_Simple data_8 len =
     for_loop 0 (uint len) (\<lambda>j crc.
       c_bind (arr_get data_8 j) (\<lambda>d. for_loop 0 8 (\<lambda>_ crc. Inr (crc16_shift crc)) (crc XOR push_bit 8 (ucast d)))) 0"

section \<open>The reference\<close>

text \<open>
  Division of polynomials over two elements. A polynomial is the list of its bits, the highest first;
  the divisor is given without its leading one. Each step removes the highest bit and, if it was one,
  subtracts the divisor.
\<close>

definition xor_list :: "bool list \<Rightarrow> bool list \<Rightarrow> bool list" where
  "xor_list xs ys = map2 (\<noteq>) xs ys"

lemma length_xor_list [simp]: "length (xor_list xs ys) = min (length xs) (length ys)"
  by (simp add: xor_list_def)

fun poly_rem :: "bool list \<Rightarrow> bool list \<Rightarrow> bool list" where
  "poly_rem p [] = []"
| "poly_rem p (b # bs) =
     (if length (b # bs) \<le> length p then b # bs
      else poly_rem p ((if b then xor_list (take (length p) bs) p else take (length p) bs) @ drop (length p) bs))"

definition bits_of :: "'a::len word \<Rightarrow> bool list" where
  "bits_of w = map (bit w) (rev [0..<LENGTH('a)])"

text \<open>The remainder of the message times the power of the divisor.\<close>

definition crc_reference :: "bool list \<Rightarrow> u8 list \<Rightarrow> bool list" where
  "crc_reference p data = poly_rem p (concat (map bits_of data) @ replicate (length p) False)"

section \<open>Shift registers on lists of bits\<close>

definition shift_step :: "bool list \<Rightarrow> bool list \<Rightarrow> bool list" where
  "shift_step p x = (if hd x then xor_list (tl x @ [False]) p else tl x @ [False])"

lemma xor_list_append: "length a = length b \<Longrightarrow> xor_list (a @ c) (b @ d) = xor_list a b @ xor_list c d"
  by (simp add: xor_list_def)

lemma xor_list_zero: "length xs \<le> n \<Longrightarrow> xor_list xs (replicate n False) = xs" 
  by (rule nth_equalityI) (simp_all add: xor_list_def)

lemma xor_list_commute: "xor_list xs ys = xor_list ys xs"
  by (induction xs ys rule: list_induct2') (auto simp: xor_list_def)

lemma xor_list_assoc: "xor_list (xor_list xs ys) zs = xor_list xs (xor_list ys zs)"
proof (induction xs arbitrary: ys zs)
  case (Cons x xs)
  then show ?case by (cases ys; cases zs) (auto simp: xor_list_def)
qed (simp add: xor_list_def)

definition low_zeros :: "bool list \<Rightarrow> bool list" where
  "low_zeros p = replicate (length p - 1) False"

text \<open>A shift is linear: the bits after the highest can be added after it.\<close>

lemma shift_step_add:
  assumes "length x = length p" "p \<noteq> []" "length z = length p - 1"
  shows "shift_step p (xor_list x (m # z)) =
    xor_list (shift_step p (xor_list x (m # low_zeros p))) (z @ [False])"
proof -
  obtain a r where x: "x = a # r" using assms(1,2) by (cases x) auto
  have r: "length r = length z" using assms x by simp
  have "xor_list r z @ [False] = xor_list (r @ [False]) (z @ [False])"
    using r by (simp add: xor_list_append) (simp add: xor_list_def)
  moreover have "xor_list r (low_zeros p) = r" using r assms(3) by (simp add: xor_list_zero low_zeros_def)
  moreover have "xor_list (xor_list (r @ [False]) (z @ [False])) p = xor_list (xor_list (r @ [False]) p) (z @ [False])"
    by (metis xor_list_assoc xor_list_commute)
  ultimately show ?thesis by (simp add: shift_step_def x xor_list_def [of "_ # _"]) (simp add: xor_list_def)
qed

lemma xor_low: "length r = length p - 1 \<Longrightarrow> xor_list (r @ [False]) (low_zeros p @ [b]) = r @ [b]"
  by (simp add: xor_list_append xor_list_zero low_zeros_def) (simp add: xor_list_def)

text \<open>The register after each bit of a message.\<close>

definition reg_run :: "bool list \<Rightarrow> bool list \<Rightarrow> bool list \<Rightarrow> bool list" where
  "reg_run p x ms = foldl (\<lambda>r m. shift_step p (xor_list r (m # low_zeros p))) x ms"

lemma reg_run_simps [simp]:
  "reg_run p x [] = x"
  "reg_run p x (m # ms) = reg_run p (shift_step p (xor_list x (m # low_zeros p))) ms"
  "reg_run p x (ms @ ns) = reg_run p (reg_run p x ms) ns"
  by (simp_all add: reg_run_def)

lemma length_reg_step:
  "length x = length p \<Longrightarrow> p \<noteq> [] \<Longrightarrow> length (shift_step p (xor_list x (m # low_zeros p))) = length p"
  by (cases x; cases p) (auto simp: shift_step_def low_zeros_def xor_list_def)

lemma length_reg_run: "length x = length p \<Longrightarrow> p \<noteq> [] \<Longrightarrow> length (reg_run p x ms) = length p"
  by (induction ms arbitrary: x) (simp_all add: length_reg_step)

text \<open>
  The register against the division: what is left to divide is the register added to the next bits of
  the message, followed by the others.
\<close>

lemma poly_rem_step:
  assumes "length x = length p" "p \<noteq> []"
  shows "poly_rem p (x @ b # ms) = poly_rem p (xor_list (shift_step p x) (low_zeros p @ [b]) @ ms)"
proof -
  obtain a r where x: "x = a # r" using assms by (cases x) auto
  let ?z = "low_zeros p"
  have r: "length r = length p - 1" using assms(1) x by simp
  have rb: "r @ [b] = xor_list (r @ [False]) (?z @ [b])"
    using xor_low [OF r] by simp
  have "xor_list (r @ [b]) p = xor_list (xor_list (r @ [False]) p) (?z @ [b])"
    unfolding rb by (metis xor_list_assoc xor_list_commute)
  moreover have "take (length p) (r @ b # ms) = r @ [b]" "drop (length p) (r @ b # ms) = ms"
    using r assms(2) by (cases p; simp)+
  moreover have "\<not> length (a # r @ b # ms) \<le> length p" using r assms(2) by (cases p) simp_all
  ultimately show ?thesis using rb by (simp add: x shift_step_def)
qed

lemma poly_rem_reg_run:
  assumes "length x = length p" "p \<noteq> []"
  shows "poly_rem p (xor_list x (take (length p) (ms @ replicate (length p) False)) @ drop (length p) (ms @ replicate (length p) False)) =
    reg_run p x ms"
  using assms(1)
proof (induction ms arbitrary: x)
  case Nil
  then show ?case using assms(2) by (cases x) (simp_all add: xor_list_zero)
next
  case (Cons m ms)
  let ?n = "length p"
  let ?M = "ms @ replicate ?n False"
  let ?x = "shift_step p (xor_list x (m # low_zeros p))"
  obtain k where k: "?n = Suc k" using assms(2) by (cases p) auto
  have M: "k < length ?M" using k by simp
  have d: "drop k ?M = ?M ! k # drop ?n ?M" using Cons_nth_drop_Suc [OF M] unfolding k by (rule sym)
  have t: "take ?n ?M = take k ?M @ [?M ! k]" using take_Suc_conv_app_nth [OF M] unfolding k .
  have "poly_rem p (xor_list x (m # take k ?M) @ drop k ?M) =
      poly_rem p (xor_list (shift_step p (xor_list x (m # take k ?M))) (low_zeros p @ [?M ! k]) @ drop ?n ?M)"
    unfolding d using Cons.prems k assms(2) by (intro poly_rem_step) simp_all
  also have "shift_step p (xor_list x (m # take k ?M)) = xor_list ?x (take k ?M @ [False])"
    using Cons.prems k assms(2) by (intro shift_step_add) simp_all
  also have "xor_list (xor_list ?x (take k ?M @ [False])) (low_zeros p @ [?M ! k]) = xor_list ?x (take ?n ?M)"
    unfolding xor_list_assoc t using k M by (subst xor_low) simp_all
  also have "poly_rem p (xor_list ?x (take ?n ?M) @ drop ?n ?M) = reg_run p ?x ms"
    by (rule Cons.IH) (simp add: length_reg_step Cons.prems assms(2))
  finally show ?case using k by simp
qed

lemma crc_reference_reg:
  assumes "p \<noteq> []"
  shows "crc_reference p data = reg_run p (replicate (length p) False) (concat (map bits_of data))"
proof -
  let ?M = "concat (map bits_of data) @ replicate (length p) False"
  have z: "xor_list (replicate n False) xs = xs" if "length xs = n" for n xs
    using xor_list_zero [of xs n] that by (simp add: xor_list_commute)
  have "xor_list (replicate (length p) False) (take (length p) ?M) @ drop (length p) ?M = ?M"
    using z [of "take (length p) ?M" "length p"] by (simp del: take_append drop_append)
  then show ?thesis
    using poly_rem_reg_run [OF length_replicate assms, of False "concat (map bits_of data)"]
    by (simp only: crc_reference_def)
qed

text \<open>All bits of a byte can be added at once, before the shifts.\<close>

lemma reg_run_at_once:
  assumes "length x = length p" "p \<noteq> []" "length ms \<le> length p"
  shows "reg_run p x ms = (shift_step p ^^ length ms) (xor_list x (ms @ replicate (length p - length ms) False))"
  using assms(1,3)
proof (induction ms arbitrary: x)
  case Nil
  then show ?case by (simp add: xor_list_zero)
next
  case (Cons m ms)
  let ?z = "ms @ replicate (length p - length (m # ms)) False"
  let ?x = "shift_step p (xor_list x (m # low_zeros p))"
  have "shift_step p (xor_list x (m # ?z)) = xor_list ?x (?z @ [False])"
    using Cons.prems assms(2) by (intro shift_step_add) simp_all
  also have "?z @ [False] = ms @ replicate (length p - length ms) False"
    using Cons.prems by (simp add: replicate_append_same Suc_diff_Suc flip: replicate_Suc)
  finally have "shift_step p (xor_list x (m # ?z)) = xor_list ?x (ms @ replicate (length p - length ms) False)" .
  moreover have "reg_run p ?x ms = (shift_step p ^^ length ms) (xor_list ?x (ms @ replicate (length p - length ms) False))"
    using Cons.prems assms(2) by (intro Cons.IH) (simp_all add: length_reg_step)
  ultimately show ?case by (simp add: funpow_swap1)
qed

section \<open>The words\<close>

lemma length_bits_of [simp]: "length (bits_of (w :: 'a::len word)) = LENGTH('a)"
  by (simp add: bits_of_def)

lemma bits_of_nonempty [simp]: "bits_of w \<noteq> []"
  using length_bits_of [of w] by (metis len_gt_0 length_greater_0_conv)

lemma bits_of_nth: "i < LENGTH('a) \<Longrightarrow> bits_of (w :: 'a::len word) ! i = bit w (LENGTH('a) - 1 - i)"
  by (simp add: bits_of_def rev_nth)

lemma bits_of_xor: "bits_of (v XOR w) = xor_list (bits_of v) (bits_of w)"
  by (rule nth_equalityI) (simp_all add: bits_of_nth xor_list_def bit_xor_iff)

lemma bits_of_zero: "bits_of (0 :: 'a::len word) = replicate LENGTH('a) False"
  by (rule nth_equalityI) (simp_all add: bits_of_nth)

lemma bits_of_push: "bits_of (push_bit 1 (w :: 'a::len word)) = tl (bits_of w) @ [False]"
proof (rule nth_equalityI)
  define v where "v = push_bit 1 w"
  have v: "bit v k \<longleftrightarrow> 1 \<le> k \<and> k < LENGTH('a) \<and> bit w (k - 1)" for k
    unfolding v_def bit_push_bit_iff by (simp only: possible_bit_word conj_ac)
  fix i assume "i < length (bits_of (push_bit 1 w))"
  then show "bits_of (push_bit 1 w) ! i = (tl (bits_of w) @ [False]) ! i"
    unfolding v_def [symmetric] by (auto simp: bits_of_nth nth_append nth_tl v)
qed simp

lemma hd_bits_of: "hd (bits_of (w :: 'a::len word)) = bit w (LENGTH('a) - 1)"
proof -
  show ?thesis by (simp add: hd_conv_nth bits_of_nth)
qed

lemma bits_of_inject: "bits_of v = bits_of w \<longleftrightarrow> v = (w :: 'a::len word)"
proof
  assume b: "bits_of v = bits_of w"
  show "v = w"
  proof (rule bit_word_eqI)
    fix n assume "n < LENGTH('a)"
    then show "bit v n = bit w n" using arg_cong [OF b, of "\<lambda>l. l ! (LENGTH('a) - 1 - n)"] by (simp add: bits_of_nth)
  qed
qed simp

lemma bits_of_shift: "bits_of (crc8_shift c) = shift_step (bits_of CRC8_POLY) (bits_of c)"
  "bits_of (crc16_shift d) = shift_step (bits_of CRC16_POLY) (bits_of d)"
proof -
  have "(c AND 0x80 = 0) \<longleftrightarrow> \<not> bit c 7" using and_exp_eq_0_iff_not_bit [of c 7] by simp
  then show "bits_of (crc8_shift c) = shift_step (bits_of CRC8_POLY) (bits_of c)"
    using bits_of_push [of c] hd_bits_of [of c] by (simp add: crc8_shift_def shift_step_def bits_of_xor)
  have "(d AND 0x8000 = 0) \<longleftrightarrow> \<not> bit d 15" using and_exp_eq_0_iff_not_bit [of d 15] by simp
  then show "bits_of (crc16_shift d) = shift_step (bits_of CRC16_POLY) (bits_of d)"
    using bits_of_push [of d] hd_bits_of [of d] by (simp add: crc16_shift_def shift_step_def bits_of_xor)
qed

lemma bits_of_shifts:
  "bits_of ((crc8_shift ^^ n) c) = (shift_step (bits_of CRC8_POLY) ^^ n) (bits_of c)"
  "bits_of ((crc16_shift ^^ n) d) = (shift_step (bits_of CRC16_POLY) ^^ n) (bits_of d)"
  by (induction n) (simp_all add: bits_of_shift)

lemma bits_of_high_byte: "bits_of (push_bit 8 (ucast d) :: u16) = bits_of (d :: u8) @ replicate 8 False"
proof (rule nth_equalityI)
  define v :: u16 where "v = push_bit 8 (ucast d)"
  have v: "bit v k \<longleftrightarrow> 8 \<le> k \<and> k < 16 \<and> bit d (k - 8)" for k
    unfolding v_def bit_push_bit_iff by (auto simp: bit_ucast_iff)
  fix i assume "i < length (bits_of (push_bit 8 (ucast d) :: u16))"
  then show "bits_of (push_bit 8 (ucast d) :: u16) ! i = (bits_of d @ replicate 8 False) ! i"
    unfolding v_def [symmetric] by (auto simp: bits_of_nth nth_append v bit_imp_le_length)
qed simp

text \<open>The inner loop shifts eight times: one byte of the message.\<close>

lemma shift_loop: "for_loop 0 8 (\<lambda>_ c. Inr (f c)) c = Inr ((f ^^ 8) c)"
proof -
  have "\<exists>s. for_loop 0 8 (\<lambda>_ c. Inr (f c)) c = Inr s \<and> s = (f ^^ nat 8) c"
    by (rule for_loop_inv) (auto simp: nat_add_distrib)
  then show ?thesis by simp
qed

lemma crc_byte:
  "bits_of ((crc8_shift ^^ 8) (c XOR d)) = reg_run (bits_of CRC8_POLY) (bits_of c) (bits_of d)"
  "bits_of ((crc16_shift ^^ 8) (c' XOR push_bit 8 (ucast d))) = reg_run (bits_of CRC16_POLY) (bits_of c') (bits_of d)"
proof -
  show "bits_of ((crc8_shift ^^ 8) (c XOR d)) = reg_run (bits_of CRC8_POLY) (bits_of c) (bits_of d)"
    using reg_run_at_once [of "bits_of c" "bits_of CRC8_POLY" "bits_of d"] by (simp only: bits_of_shifts bits_of_xor) simp
  show "bits_of ((crc16_shift ^^ 8) (c' XOR push_bit 8 (ucast d))) = reg_run (bits_of CRC16_POLY) (bits_of c') (bits_of d)"
    using reg_run_at_once [of "bits_of c'" "bits_of CRC16_POLY" "bits_of d"]
    by (simp only: bits_of_shifts bits_of_xor bits_of_high_byte) simp
qed

text \<open>The outer loop.\<close>

lemma crc_loop:
  assumes "uint len \<le> int (length data)" "p \<noteq> []" "bits_of (0 :: 'w::len word) = replicate (length p) False"
    and "\<And>c d. bits_of (step c d) = reg_run p (bits_of (c :: 'w word)) (bits_of (d :: u8))"
  shows "\<exists>c. for_loop 0 (uint len) (\<lambda>j crc. c_bind (arr_get data j) (\<lambda>d. Inr (step crc d))) 0 = Inr c \<and>
    bits_of c = crc_reference p (take (unat (len :: u8)) data)"
proof -
  have "\<exists>c. for_loop 0 (uint len) (\<lambda>j crc. c_bind (arr_get data j) (\<lambda>d. Inr (step crc d))) 0 = Inr c \<and>
      bits_of c = reg_run p (replicate (length p) False) (concat (map bits_of (take (nat (uint len)) data)))"
  proof (rule for_loop_inv [where I = "\<lambda>j (c :: 'w word). bits_of c = reg_run p (replicate (length p) False) (concat (map bits_of (take (nat j) data)))"])
    fix j and c :: "'w word"
    assume j: "0 \<le> j" "j < uint len" and c: "bits_of c = reg_run p (replicate (length p) False) (concat (map bits_of (take (nat j) data)))"
    have l: "nat j < length data" "nat (j + 1) = Suc (nat j)" "j < int (length data)" using j assms(1) by auto
    have "bits_of (step c (data ! nat j)) = reg_run p (replicate (length p) False) (concat (map bits_of (take (nat (j + 1)) data)))"
      unfolding assms(4) c l(2) take_Suc_conv_app_nth [OF l(1)] by (simp only: map_append concat_append reg_run_simps(3)) simp
    then show "\<exists>c'. c_bind (arr_get data j) (\<lambda>d. Inr (step c d)) = Inr c' \<and>
        bits_of c' = reg_run p (replicate (length p) False) (concat (map bits_of (take (nat (j + 1)) data)))"
      using j(1) l(3) by simp
  qed (use assms(3) in simp_all)
  then show ?thesis using crc_reference_reg [OF assms(2)] by simp
qed

section \<open>Properties\<close>

text \<open>C17: Both check sums are the remainders of the division of the message by their polynomials: for any message of
  up to 255 bytes the bits of the result are those of the long division of the message followed by zeros.\<close>

theorem crc_is_remainder:
  assumes "uint len \<le> int (length data)"
  shows "(\<exists>crc. Compute_CRC8_Simple data len = Inr crc \<and>
      bits_of crc = crc_reference [False, False, False, True, True, True, False, True] (take (unat len) data)) \<and>
    (\<exists>crc. Compute_CRC16_Simple data len = Inr crc \<and>
      bits_of crc = crc_reference (replicate 3 False @ [True] @ replicate 6 False @ [True] @ replicate 4 False @ [True]) (take (unat len) data))"
proof
  have z: "bits_of (0 :: u8) = replicate (length (bits_of CRC8_POLY)) False" by (simp add: bits_of_zero)
  have "bits_of CRC8_POLY = [False, False, False, True, True, True, False, True]" by (simp add: bits_of_def upt_rec)
  then show "\<exists>crc. Compute_CRC8_Simple data len = Inr crc \<and>
      bits_of crc = crc_reference [False, False, False, True, True, True, False, True] (take (unat len) data)"
    using crc_loop [OF assms bits_of_nonempty z crc_byte(1)] unfolding Compute_CRC8_Simple_def shift_loop by (simp only:)
  have z: "bits_of (0 :: u16) = replicate (length (bits_of CRC16_POLY)) False" by (simp add: bits_of_zero)
  have "bits_of CRC16_POLY = replicate 3 False @ [True] @ replicate 6 False @ [True] @ replicate 4 False @ [True]"
    by (simp add: bits_of_def upt_rec eval_nat_numeral)
  then show "\<exists>crc. Compute_CRC16_Simple data len = Inr crc \<and>
      bits_of crc = crc_reference (replicate 3 False @ [True] @ replicate 6 False @ [True] @ replicate 4 False @ [True]) (take (unat len) data)"
    using crc_loop [OF assms bits_of_nonempty z crc_byte(2)] unfolding Compute_CRC16_Simple_def shift_loop by (simp only:)
qed

theorem crc_is_remainder_witness:
  "\<exists>crc. Compute_CRC8_Simple [1, 2] 2 = Inr crc \<and>
     bits_of crc = crc_reference [False, False, False, True, True, True, False, True] [1, 2]"
  using crc_is_remainder [of 2 "[1, 2]"] by simp

end
