(* ===== verification/Dsp.thy ===== *)
theory Dsp
  imports C_Prelude
begin

text \<open>
  The filters of \<open>test_dsp/main.c\<close> and \<open>test_struct_pointers/main.c\<close>: a moving average of eight
  samples in a circular buffer, in two versions, and a PID controller with two forms of its integral.
\<close>

section \<open>Moving averages\<close>

text \<open>The buffer and the index the pointer \<open>p_ma8\<close> stands at.\<close>

record ma8_state =
  v_ma8 :: "u16 list"
  p_ma8 :: int

definition MA8Circular_Start :: "ma8_state \<Rightarrow> ma8_state" where
  "MA8Circular_Start st = st\<lparr>p_ma8 := 0\<rparr>"

definition MA8Circular_Reset :: "ma8_state \<Rightarrow> ma8_state c_result" where
  "MA8Circular_Reset st =
     (let st = MA8Circular_Start st in
      for_loop 0 8 (\<lambda>i st. c_bind (arr_set (v_ma8 st) (p_ma8 st + i) 0) (\<lambda>v. Inr (st\<lparr>v_ma8 := v\<rparr>))) st)"

definition next_p :: "int \<Rightarrow> int" where
  "next_p p = (if p < 7 then p + 1 else 0)"

definition MA8Circular :: "u16 \<Rightarrow> ma8_state \<Rightarrow> (u16 \<times> ma8_state) c_result" where
  "MA8Circular new_sample st =
     c_bind (arr_set (v_ma8 st) (p_ma8 st) new_sample) (\<lambda>v.
     c_bind (for_loop 0 8 (\<lambda>i total. c_bind (arr_get v i) (\<lambda>x. Inr (total + ucast x))) (0 :: u32)) (\<lambda>total_ma.
     Inr (ucast (drop_bit 3 total_ma), st\<lparr>v_ma8 := v, p_ma8 := next_p (p_ma8 st)\<rparr>)))"

text \<open>The version of \<open>test_struct_pointers\<close> keeps the total.\<close>

record ma8_data_obj = ma8_state +
  total_ma8 :: u32

definition MA8Circular_Reset_obj :: "ma8_data_obj \<Rightarrow> ma8_data_obj c_result" where
  "MA8Circular_Reset_obj st =
     c_bind (for_loop 0 8 (\<lambda>i st. c_bind (arr_set (v_ma8 st) i 0) (\<lambda>v. Inr (st\<lparr>v_ma8 := v\<rparr>))) st) (\<lambda>st.
     Inr (st\<lparr>p_ma8 := 0, total_ma8 := 0\<rparr>))"

definition MA8Circular_obj :: "u16 \<Rightarrow> ma8_data_obj \<Rightarrow> (u16 \<times> ma8_data_obj) c_result" where
  "MA8Circular_obj new_sample st =
     c_bind (arr_get (v_ma8 st) (p_ma8 st)) (\<lambda>old.
     c_bind (arr_set (v_ma8 st) (p_ma8 st) new_sample) (\<lambda>v.
     let total = total_ma8 st - ucast old + ucast new_sample in
     Inr (ucast (drop_bit 3 total), st\<lparr>v_ma8 := v, p_ma8 := next_p (p_ma8 st), total_ma8 := total\<rparr>)))"

text \<open>A sequence of samples, and the answers.\<close>

fun run_filter :: "(u16 \<Rightarrow> 's \<Rightarrow> (u16 \<times> 's) c_result) \<Rightarrow> u16 list \<Rightarrow> 's \<Rightarrow> u16 list c_result" where
  "run_filter step [] st = Inr []"
| "run_filter step (x # xs) st = c_bind (step x st) (\<lambda>(y, st). c_bind (run_filter step xs st) (\<lambda>ys. Inr (y # ys)))"

section \<open>The averages are those of the last eight samples\<close>

text \<open>The window: the last eight samples, the oldest first; a new sample pushes the oldest out.\<close>

fun averages :: "u16 list \<Rightarrow> u16 list \<Rightarrow> int list" where
  "averages w [] = []"
| "averages w (x # xs) = sum_list (map uint (tl w @ [x])) div 8 # averages (tl w @ [x]) xs"

definition holds :: "ma8_state \<Rightarrow> u16 list \<Rightarrow> bool" where
  "holds st w \<longleftrightarrow> 0 \<le> p_ma8 st \<and> p_ma8 st < 8 \<and> length (v_ma8 st) = 8 \<and>
     w = drop (nat (p_ma8 st)) (v_ma8 st) @ take (nat (p_ma8 st)) (v_ma8 st)"

lemma holds_next:
  assumes "holds st w"
  shows "holds (st\<lparr>v_ma8 := (v_ma8 st)[nat (p_ma8 st) := x], p_ma8 := next_p (p_ma8 st)\<rparr>) (tl w @ [x])"
    "hd w = v_ma8 st ! nat (p_ma8 st)" "length w = 8" "w \<noteq> []"
proof -
  define n where "n = nat (p_ma8 st)"
  let ?v = "v_ma8 st"
  have n: "n < 8" "length ?v = 8" "p_ma8 st = int n" and w: "w = drop n ?v @ take n ?v"
    using assms by (auto simp: holds_def n_def)
  have d: "drop n ?v = ?v ! n # drop (Suc n) ?v" using n by (simp add: Cons_nth_drop_Suc)
  show "hd w = ?v ! nat (p_ma8 st)" "length w = 8" "w \<noteq> []" using n by (simp_all add: w d)
  have t: "tl w @ [x] = drop (Suc n) ?v @ take n ?v @ [x]" by (simp add: w d)
  show "holds (st\<lparr>v_ma8 := ?v[nat (p_ma8 st) := x], p_ma8 := next_p (p_ma8 st)\<rparr>) (tl w @ [x])"
  proof (cases "n = 7")
    case True
    have "?v[7 := x] = take 7 ?v @ [x]" using n by (simp add: list_eq_iff_nth_eq nth_append less_Suc_eq eval_nat_numeral)
    then show ?thesis using n True t by (simp add: holds_def next_p_def)
  next
    case False
    have "nat (int n + 1) = Suc n" by simp
    moreover have "take (Suc n) (?v[n := x]) = take n ?v @ [x]" using n by (simp add: take_Suc_conv_app_nth)
    moreover have "n < 7" using n False by simp
    ultimately show ?thesis using n t by (simp add: holds_def next_p_def)
  qed
qed

lemma reset_holds:
  assumes "length (v_ma8 st) = 8"
  shows "\<exists>st'. MA8Circular_Reset st = Inr st' \<and> holds st' (replicate 8 0)"
proof -
  let ?I = "\<lambda>i st. p_ma8 st = 0 \<and> length (v_ma8 st) = 8 \<and> take (nat i) (v_ma8 st) = replicate (nat i) 0"
  have "\<exists>st'. for_loop 0 8 (\<lambda>i st. c_bind (arr_set (v_ma8 st) (p_ma8 st + i) 0) (\<lambda>v. Inr (st\<lparr>v_ma8 := v\<rparr>))) (MA8Circular_Start st) = Inr st' \<and> ?I 8 st'"
  proof (rule for_loop_inv [where I = ?I])
    fix j and t :: ma8_state
    assume j: "0 \<le> j" "j < 8" and t: "?I j t"
    have "nat (j + 1) = Suc (nat j)" "nat j < 8" using j by auto
    then show "\<exists>t'. c_bind (arr_set (v_ma8 t) (p_ma8 t + j) 0) (\<lambda>v. Inr (t\<lparr>v_ma8 := v\<rparr>)) = Inr t' \<and> ?I (j + 1) t'"
      using j t by (simp add: take_Suc_conv_app_nth replicate_append_same flip: replicate_Suc)
  qed (use assms in \<open>simp_all add: MA8Circular_Start_def\<close>)
  then show ?thesis by (auto simp: MA8Circular_Reset_def holds_def)
qed

lemma reset_obj_holds:
  assumes "length (v_ma8 st) = 8"
  shows "\<exists>st'. MA8Circular_Reset_obj st = Inr st' \<and> holds (ma8_state.truncate st') (replicate 8 0) \<and> total_ma8 st' = 0"
proof -
  let ?I = "\<lambda>i st. length (v_ma8 st) = 8 \<and> take (nat i) (v_ma8 st) = replicate (nat i) 0"
  have "\<exists>st'. for_loop 0 8 (\<lambda>i st. c_bind (arr_set (v_ma8 st) i 0) (\<lambda>v. Inr (st\<lparr>v_ma8 := v\<rparr>))) st = Inr st' \<and> ?I 8 st'"
  proof (rule for_loop_inv [where I = ?I])
    fix j and t :: ma8_data_obj
    assume j: "0 \<le> j" "j < 8" and t: "?I j t"
    have "nat (j + 1) = Suc (nat j)" "nat j < 8" using j by auto
    then show "\<exists>t'. c_bind (arr_set (v_ma8 t) j 0) (\<lambda>v. Inr (t\<lparr>v_ma8 := v\<rparr>)) = Inr t' \<and> ?I (j + 1) t'"
      using j t by (simp add: take_Suc_conv_app_nth replicate_append_same flip: replicate_Suc)
  qed (use assms in simp_all)
  then show ?thesis by (auto simp: MA8Circular_Reset_obj_def holds_def ma8_state.truncate_def)
qed

lemma holds_sum: "holds st w \<Longrightarrow> sum_list (map uint (v_ma8 st)) = sum_list (map uint w)"
  unfolding holds_def by (metis add.commute append_take_drop_id map_append sum_list_append)

lemma sum_bound: "sum_list (map uint (w :: u16 list)) \<le> 65535 * int (length w)" "0 \<le> sum_list (map uint (w :: u16 list))"
proof -
  have "uint x \<le> 65535" for x :: u16 using uint_bounded [of x] by simp
  then show "sum_list (map uint w) \<le> 65535 * int (length w)" by (induction w) (auto simp: algebra_simps intro: add_mono)
  show "0 \<le> sum_list (map uint w)" by (induction w) simp_all
qed

lemma sum_loop:
  assumes "length v = 8"
  shows "for_loop 0 8 (\<lambda>i total. c_bind (arr_get v i) (\<lambda>x. Inr (total + ucast x))) 0 = Inr (of_int (sum_list (map uint v)) :: u32)"
proof -
  have "\<exists>t. for_loop 0 8 (\<lambda>i total. c_bind (arr_get v i) (\<lambda>x. Inr (total + ucast x))) 0 = Inr t \<and>
      t = (of_int (sum_list (map uint (take (nat 8) v))) :: u32)"
  proof (rule for_loop_inv [where I = "\<lambda>i t. t = of_int (sum_list (map uint (take (nat i) v)))"])
    fix j and t :: u32
    assume j: "0 \<le> j" "j < 8" and t: "t = of_int (sum_list (map uint (take (nat j) v)))"
    have "nat (j + 1) = Suc (nat j)" "nat j < length v" using j assms by auto
    then show "\<exists>t'. c_bind (arr_get v j) (\<lambda>x. Inr (t + ucast x)) = Inr t' \<and> t' = of_int (sum_list (map uint (take (nat (j + 1)) v)))"
      using j t assms by (simp add: take_Suc_conv_app_nth)
  qed simp_all
  then show ?thesis using assms by simp
qed

lemma average_word:
  assumes "0 \<le> s" "s \<le> 8 * 65535"
  shows "uint (ucast (drop_bit 3 (of_int s :: u32)) :: u16) = s div 8"
proof -
  have "uint (of_int s :: u32) = s" using assms by (simp add: uint_word_of_int take_bit_int_eq_self)
  then have "uint (drop_bit 3 (of_int s :: u32)) = s div 8" by (simp add: drop_bit_eq_div uint_div)
  moreover have "s div 8 \<le> 65535" "0 \<le> s div 8" using assms by simp_all
  ultimately show ?thesis by (simp add: unsigned_ucast_eq take_bit_int_eq_self)
qed

lemma MA8Circular_step:
  assumes "holds st w"
  shows "\<exists>y st'. MA8Circular x st = Inr (y, st') \<and> holds st' (tl w @ [x]) \<and> uint y = sum_list (map uint (tl w @ [x])) div 8"
proof -
  let ?v = "(v_ma8 st)[nat (p_ma8 st) := x]"
  let ?st = "st\<lparr>v_ma8 := ?v, p_ma8 := next_p (p_ma8 st)\<rparr>"
  note h = holds_next(1) [OF assms, of x] holds_next(2-) [OF assms]
  have b: "0 \<le> p_ma8 st" "p_ma8 st < 8" "length (v_ma8 st) = 8" using assms by (auto simp: holds_def)
  have s: "sum_list (map uint ?v) = sum_list (map uint (tl w @ [x]))" using holds_sum [OF h(1)] by simp
  have "MA8Circular x st = Inr (ucast (drop_bit 3 (of_int (sum_list (map uint ?v)) :: u32)), ?st)"
    using b sum_loop [of ?v] by (simp add: MA8Circular_def)
  moreover have "uint (ucast (drop_bit 3 (of_int (sum_list (map uint (tl w @ [x]))) :: u32)) :: u16) = sum_list (map uint (tl w @ [x])) div 8"
    using sum_bound [of "tl w @ [x]"] h(3) by (intro average_word) simp_all
  ultimately show ?thesis using h(1) unfolding s by blast
qed

lemma MA8Circular_obj_step:
  assumes "holds (ma8_state.truncate st) w" "total_ma8 st = of_int (sum_list (map uint w))"
  shows "\<exists>y st'. MA8Circular_obj x st = Inr (y, st') \<and> holds (ma8_state.truncate st') (tl w @ [x]) \<and>
    total_ma8 st' = of_int (sum_list (map uint (tl w @ [x]))) \<and> uint y = sum_list (map uint (tl w @ [x])) div 8"
proof -
  let ?v = "(v_ma8 st)[nat (p_ma8 st) := x]"
  note h = holds_next(1) [OF assms(1), of x] holds_next(2-) [OF assms(1)]
  have b: "0 \<le> p_ma8 st" "p_ma8 st < 8" "length (v_ma8 st) = 8" using assms(1) by (auto simp: holds_def ma8_state.truncate_def)
  obtain a r where w: "w = a # r" using h(4) by (cases w) auto
  have "a = v_ma8 st ! nat (p_ma8 st)" using h(2) by (simp add: w ma8_state.truncate_def)
  then have t: "total_ma8 st - ucast (v_ma8 st ! nat (p_ma8 st)) + ucast x = (of_int (sum_list (map uint (tl w @ [x]))) :: u32)"
    by (simp add: assms(2) w)
  have "uint (ucast (drop_bit 3 (of_int (sum_list (map uint (tl w @ [x]))) :: u32)) :: u16) = sum_list (map uint (tl w @ [x])) div 8"
    using sum_bound [of "tl w @ [x]"] h(3) by (intro average_word) simp_all
  moreover have "MA8Circular_obj x st = Inr (ucast (drop_bit 3 (of_int (sum_list (map uint (tl w @ [x]))) :: u32)),
      st\<lparr>v_ma8 := ?v, p_ma8 := next_p (p_ma8 st), total_ma8 := of_int (sum_list (map uint (tl w @ [x])))\<rparr>)"
    using b t by (simp add: MA8Circular_obj_def Let_def)
  ultimately show ?thesis using h(1) by (simp add: ma8_state.truncate_def)
qed

section \<open>The PID controller\<close>

text \<open>A \<open>short\<close> is a word read with its sign; the operations are those of \<open>int\<close>, which must not overflow.\<close>

type_synonym s16 = "16 word"

record pid_data_obj =
  setpoint :: s16
  sample :: s16
  last_d :: s16
  error_z1 :: s16
  error_z2 :: s16
  ki_accumulator :: s16
  kp :: u16
  ki :: u16
  kd :: u16

definition c_int :: "int \<Rightarrow> int c_result" where
  "c_int i = (if - (2 ^ 31) \<le> i \<and> i < 2 ^ 31 then Inr i else Inl Signed_Overflow)"

definition short :: "int \<Rightarrow> s16" where
  "short i = of_int i"

definition PID :: "pid_data_obj \<Rightarrow> (s16 \<times> pid_data_obj) c_result" where
  "PID p =
     (let k1 = kp p + ki p + kd p; k2 = kp p + kd p + kd p; k3 = kd p; error = setpoint p - sample p in
      c_bind (c_int (uint k1 * sint error)) (\<lambda>acc. let val_k1 = short (acc sdiv 128) in
      c_bind (c_int (uint k2 * sint (error_z1 p))) (\<lambda>acc. let val_k2 = short (acc sdiv 128) in
      c_bind (c_int (uint k3 * sint (error_z2 p))) (\<lambda>acc. let val_k3 = short (acc sdiv 128);
        d = last_d p + val_k1 - val_k2 + val_k3 in
      Inr (d, p\<lparr>error_z2 := error_z1 p, error_z1 := error, last_d := d\<rparr>)))))"

definition PID_Flush_Errors :: "pid_data_obj \<Rightarrow> pid_data_obj" where
  "PID_Flush_Errors p = p\<lparr>last_d := 0, error_z1 := 0, error_z2 := 0\<rparr>"

definition PID_Small_Ki :: "pid_data_obj \<Rightarrow> (s16 \<times> pid_data_obj) c_result" where
  "PID_Small_Ki p =
     (let k2 = kp p + kd p + kd p; k3 = kd p; error = setpoint p - sample p in
      c_bind (c_int (uint (ki p) * sint error)) (\<lambda>ki_error.
      c_bind (c_int (sint (ki_accumulator p) + ki_error)) (\<lambda>ki_sum.
      let ki_acc = short ki_sum; k1_small = kp p + kd p in
      c_bind (c_int (uint k1_small * sint error)) (\<lambda>kp_error.
      c_bind (c_int (kp_error + sint ki_acc)) (\<lambda>acc.
      let ki_kept = (if sint ki_acc > 127 \<or> sint ki_acc < -127 then 0 else ki_acc); val_k1 = short (acc sdiv 128) in
      c_bind (c_int (uint k2 * sint (error_z1 p))) (\<lambda>acc. let val_k2 = short (acc sdiv 128) in
      c_bind (c_int (uint k3 * sint (error_z2 p))) (\<lambda>acc. let val_k3 = short (acc sdiv 128);
        d = last_d p + val_k1 - val_k2 + val_k3 in
      Inr (d, p\<lparr>ki_accumulator := ki_kept, error_z2 := error_z1 p, error_z1 := error, last_d := d\<rparr>))))))))"

definition PID_Small_Ki_Flush_Errors :: "pid_data_obj \<Rightarrow> pid_data_obj" where
  "PID_Small_Ki_Flush_Errors p = p\<lparr>last_d := 0, ki_accumulator := 0, error_z1 := 0, error_z2 := 0\<rparr>"

fun pid_run :: "(pid_data_obj \<Rightarrow> (s16 \<times> pid_data_obj) c_result) \<Rightarrow> nat \<Rightarrow> pid_data_obj \<Rightarrow> pid_data_obj c_result" where
  "pid_run step 0 p = Inr p"
| "pid_run step (Suc n) p = c_bind (pid_run step n p) (\<lambda>p. c_bind (step p) (\<lambda>(_, p). Inr p))"

text \<open>An unsigned gain times a signed error fits an \<open>int\<close>, with room for one more short.\<close>

lemma gain_times_error: "- 2147450880 \<le> uint (k :: u16) * sint (e :: s16) \<and> uint k * sint e \<le> 2147450880"
proof -
  have e: "\<bar>sint e\<bar> \<le> 32768" using sint_ge [of e] sint_lt [of e] by simp
  have k: "0 \<le> uint k" "uint k \<le> 65535" using uint_bounded [of k] by simp_all
  have "\<bar>uint k * sint e\<bar> \<le> 65535 * 32768"
    using mult_mono [OF k(2) e] k by (simp add: abs_mult)
  then show ?thesis by linarith
qed

lemma gain_fits: "c_int (uint (k :: u16) * sint (e :: s16)) = Inr (uint k * sint e)"
  using gain_times_error [of k e] by (simp add: c_int_def)

lemma gain_and_short_fit:
  "c_int (uint (k :: u16) * sint (e :: s16) + sint (a :: s16)) = Inr (uint k * sint e + sint a)"
  "c_int (sint (a :: s16) + uint (k :: u16) * sint (e :: s16)) = Inr (sint a + uint k * sint e)"
  using gain_times_error [of k e] sint_ge [of a] sint_lt [of a] by (simp_all add: c_int_def)

lemmas pid_fits = gain_fits gain_and_short_fit

lemma sint_short: "-32768 \<le> i \<Longrightarrow> i < 32768 \<Longrightarrow> sint (short i) = i"
  by (simp add: short_def signed_of_int signed_take_bit_int_eq_self)

section \<open>A small integral gain\<close>

text \<open>The controller with an integral gain only, after \<open>n\<close> calls with a constant error.\<close>

definition integral_state :: "int \<Rightarrow> nat \<Rightarrow> pid_data_obj \<Rightarrow> bool" where
  "integral_state c n p \<longleftrightarrow> kp p = 0 \<and> kd p = 0 \<and> uint (ki p) * sint (setpoint p - sample p) = c \<and>
     last_d p = of_nat (n div nat (127 div c + 1)) \<and> sint (ki_accumulator p) = c * int (n mod nat (127 div c + 1))"

lemma small_ki_only:
  assumes "kp p = 0" "kd p = 0" "uint (ki p) * sint (setpoint p - sample p) = c" "sint (short (sint (ki_accumulator p) + c)) = s"
  shows "PID_Small_Ki p = Inr (last_d p + short (s sdiv 128), p\<lparr>ki_accumulator := if s > 127 \<or> s < -127 then 0 else short s,
    error_z2 := error_z1 p, error_z1 := setpoint p - sample p, last_d := last_d p + short (s sdiv 128)\<rparr>)"
proof -
  have "short s = short (sint (ki_accumulator p) + c)" unfolding assms(4) [symmetric] by (simp add: short_def)
  moreover have "short (0 sdiv 128) = 0" by (simp add: short_def)
  ultimately show ?thesis
    using pid_fits [where e = "setpoint p - sample p" and k = "ki p"] pid_fits [where k = 0] assms
    by (simp add: PID_Small_Ki_def Let_def)
qed

lemma small_ki_step:
  assumes "0 < c" "c \<le> 127" "integral_state c n p"
  shows "\<exists>d p'. PID_Small_Ki p = Inr (d, p') \<and> integral_state c (Suc n) p'"
proof -
  define q where "q = nat (127 div c + 1)"
  define r where "r = n mod q"
  have q: "int q = 127 div c + 1" "0 < q" using assms(1) pos_imp_zdiv_nonneg_iff [of c 127] by (simp_all add: q_def)
  have r: "r < q" using q(2) by (simp add: r_def)
  have st: "kp p = 0" "kd p = 0" "uint (ki p) * sint (setpoint p - sample p) = c" "last_d p = of_nat (n div q)" "sint (ki_accumulator p) = c * int r"
    using assms(3) by (simp_all add: integral_state_def q_def r_def)
  have e: "127 = c * (127 div c) + 127 mod c" by simp
  have m: "0 \<le> 127 mod c" "127 mod c < c" using assms(1) by simp_all
  have top: "c * int q = 127 - 127 mod c + c" using e by (simp add: q(1) algebra_simps)
  have lo: "c * int (Suc r) \<le> c * int q" "0 \<le> c * int r" using r assms(1) by simp_all
  have s: "sint (short (sint (ki_accumulator p) + c)) = c * int (Suc r)"
  proof -
    have "sint (ki_accumulator p) + c = c * int (Suc r)" by (simp add: st(5) algebra_simps)
    moreover have "0 \<le> c * int (Suc r)" "c * int (Suc r) < 256" using lo top assms(1,2) m by simp_all
    ultimately show ?thesis by (simp add: sint_short)
  qed
  note run = small_ki_only [OF st(1-3) s]
  show ?thesis
  proof (cases "Suc r = q")
    case True
    have v: "128 \<le> c * int (Suc r)" "c * int (Suc r) < 256" using top m assms(2) by (simp_all add: True)
    then have "c * int (Suc r) sdiv 128 = 1" by (simp add: signed_divide_int_def)
    moreover have "Suc n mod q = 0" "Suc n div q = Suc (n div q)" using True by (simp_all add: mod_Suc div_Suc r_def)
    ultimately show ?thesis
      using run v st q by (simp add: integral_state_def q_def [symmetric] short_def)
  next
    case False
    then have "c * int (Suc r) \<le> c * int (q - 1)" using r assms(1) by simp
    moreover have "c * int (q - 1) = c * int q - c" using q(2) by (simp add: algebra_simps)
    ultimately have v: "0 \<le> c * int (Suc r)" "c * int (Suc r) \<le> 127" using top m(1) lo assms(1) by (simp, linarith)
    then have "c * int (Suc r) sdiv 128 = 0" by (simp add: signed_divide_int_def)
    moreover have "Suc n mod q = Suc r" "Suc n div q = n div q" using False r by (simp_all add: mod_Suc div_Suc r_def)
    moreover have "sint (short (c * int (Suc r))) = c * int (Suc r)" using v by (intro sint_short) simp_all
    ultimately show ?thesis
      using run v st q by (simp add: integral_state_def q_def [symmetric] short_def)
  qed
qed

text \<open>With an integral gain only and a constant error whose product \<open>c\<close> is between 1 and 127, \<open>PID_Small_Ki\<close> raises its
  output by one every \<open>127 div c + 1\<close> calls: the remainder of each step is dropped with the integral, so the rate is
  below the \<open>c / 128\<close> of the gain unless \<open>c\<close> divides 128.\<close>

lemma small_ki_rate:
  assumes "0 < c" "c \<le> 127" "kp p = 0" "kd p = 0" "uint (ki p) * sint (setpoint p - sample p) = c"
  shows "\<exists>p'. pid_run PID_Small_Ki n (PID_Small_Ki_Flush_Errors p) = Inr p' \<and> last_d p' = of_nat (n div nat (127 div c + 1)) \<and>
    sint (ki_accumulator p') = c * int (n mod nat (127 div c + 1))"
proof -
  have "\<exists>p'. pid_run PID_Small_Ki n (PID_Small_Ki_Flush_Errors p) = Inr p' \<and> integral_state c n p'"
  proof (induction n)
    case 0
    then show ?case using assms by (simp add: PID_Small_Ki_Flush_Errors_def integral_state_def)
  next
    case (Suc n)
    then show ?case using small_ki_step [OF assms(1,2)] by fastforce
  qed
  then show ?thesis by (auto simp: integral_state_def)
qed

section \<open>Properties\<close>

text \<open>C24: After a reset, both moving averages answer every sample with the mean, rounded down, of the last eight
  samples (zeros before the first): the one that adds its buffer up each time and the one that keeps a total agree.\<close>

theorem moving_averages_agree:
  assumes "length (v_ma8 st) = 8" "length (v_ma8 obj) = 8"
  shows "\<exists>ys. map uint ys = averages (replicate 8 0) xs \<and>
    c_bind (MA8Circular_Reset st) (run_filter MA8Circular xs) = Inr ys \<and>
    c_bind (MA8Circular_Reset_obj obj) (run_filter MA8Circular_obj xs) = Inr ys"
proof -
  have run: "\<exists>ys. run_filter MA8Circular xs st = Inr ys \<and> map uint ys = averages w xs" if "holds st w" for st w xs
    using that
  proof (induction xs arbitrary: st w)
    case (Cons x xs)
    obtain y st' where "MA8Circular x st = Inr (y, st')" "holds st' (tl w @ [x])" "uint y = sum_list (map uint (tl w @ [x])) div 8"
      using MA8Circular_step [OF Cons.prems] by blast
    then show ?case using Cons.IH [of st' "tl w @ [x]"] by fastforce
  qed simp
  have run_obj: "\<exists>ys. run_filter MA8Circular_obj xs st = Inr ys \<and> map uint ys = averages w xs"
    if "holds (ma8_state.truncate st) w" "total_ma8 st = of_int (sum_list (map uint w))" for st w xs
    using that
  proof (induction xs arbitrary: st w)
    case (Cons x xs)
    obtain y st' where "MA8Circular_obj x st = Inr (y, st')" "holds (ma8_state.truncate st') (tl w @ [x])"
      "total_ma8 st' = of_int (sum_list (map uint (tl w @ [x])))" "uint y = sum_list (map uint (tl w @ [x])) div 8"
      using MA8Circular_obj_step [OF Cons.prems] by blast
    then show ?case using Cons.IH [of st' "tl w @ [x]"] by fastforce
  qed simp
  obtain st1 where st1: "MA8Circular_Reset st = Inr st1" "holds st1 (replicate 8 0)" using reset_holds [OF assms(1)] by blast
  obtain obj1 where obj1: "MA8Circular_Reset_obj obj = Inr obj1" "holds (ma8_state.truncate obj1) (replicate 8 0)" "total_ma8 obj1 = 0"
    using reset_obj_holds [OF assms(2)] by blast
  have t: "total_ma8 obj1 = of_int (sum_list (map uint (replicate 8 (0 :: u16))))" by (simp add: obj1(3) sum_list_replicate)
  obtain ys where ys: "run_filter MA8Circular xs st1 = Inr ys" "map uint ys = averages (replicate 8 0) xs" using run [OF st1(2)] by blast
  obtain zs where zs: "run_filter MA8Circular_obj xs obj1 = Inr zs" "map uint zs = averages (replicate 8 0) xs"
    using run_obj [OF obj1(2) t] by blast
  have "ys = zs" using ys(2) zs(2) by (metis map_injective injI word_uint_eqI)
  then show ?thesis using ys zs st1(1) obj1(1) by auto
qed

theorem moving_averages_agree_witness:
  "\<exists>ys. map uint ys = [125, 250, 375] \<and>
     c_bind (MA8Circular_Reset \<lparr>v_ma8 = replicate 8 7, p_ma8 = 3\<rparr>) (run_filter MA8Circular [1000, 1000, 1000]) = Inr ys \<and>
     c_bind (MA8Circular_Reset_obj \<lparr>v_ma8 = replicate 8 9, p_ma8 = 5, total_ma8 = 1\<rparr>) (run_filter MA8Circular_obj [1000, 1000, 1000]) = Inr ys"
proof -
  have "replicate 8 (0 :: u16) = [0, 0, 0, 0, 0, 0, 0, 0]" by (simp add: eval_nat_numeral)
  then have "averages (replicate 8 0) [1000, 1000, 1000] = [125, 250, 375]" by simp
  then show ?thesis
    using moving_averages_agree [of "\<lparr>v_ma8 = replicate 8 7, p_ma8 = 3\<rparr>" "\<lparr>v_ma8 = replicate 8 9, p_ma8 = 5, total_ma8 = 1\<rparr>"
        "[1000, 1000, 1000]"]
    by simp
qed

text \<open>C25: No gains, errors or history make the controllers overflow an \<open>int\<close>, and the integral that \<open>PID_Small_Ki\<close> keeps
  is between -127 and 127 after every call.\<close>

theorem pid_never_overflows:
  "(\<exists>d p'. PID p = Inr (d, p') \<and> last_d p' = d) \<and>
   (\<exists>d p'. PID_Small_Ki p = Inr (d, p') \<and> last_d p' = d \<and> -127 \<le> sint (ki_accumulator p') \<and> sint (ki_accumulator p') \<le> 127)"
  by (auto simp: PID_def PID_Small_Ki_def Let_def pid_fits)

end
