(* ===== verification/Numbers.thy ===== *)
theory Numbers
  imports C_Stdlib
begin

text \<open>
  Two exercises on decimal numbers: reversing the digits of an \<open>int\<close>, \<open>reverse_integer/main.c\<close>, and
  reading an \<open>int\<close> from a string, \<open>string_to_int_atoi/main.c\<close>. Both decide from the digits whether the
  value fits.
\<close>

section \<open>Digits and values\<close>

text \<open>The chain of comparisons of ten digits with a bound, the highest first.\<close>

fun digits_above :: "u8 list \<Rightarrow> u8 list \<Rightarrow> bool" where
  "digits_above (c # cs) (b # bs) = (if c > b then True else if c = b then digits_above cs bs else False)"
| "digits_above _ _ = False"

lemma digits_value_Cons: "digits_value (c # cs) = (uint c - 48) * 10 ^ length cs + digits_value cs"
  using digits_value_append [of "[c]" cs] by (simp add: digits_value_def)

lemma digits_above_value:
  assumes "length s = length t" "list_all is_digit s" "list_all is_digit t"
  shows "digits_above s t \<longleftrightarrow> digits_value t < digits_value s"
  using assms
proof (induction s t rule: list_induct2)
  case (Cons c s b t)
  let ?p = "(10 :: int) ^ length s"
  have s: "0 \<le> digits_value s" "digits_value s < ?p" and t: "0 \<le> digits_value t" "digits_value t < ?p"
    using digits_value_bounds [of s] digits_value_bounds [of t] Cons by auto
  have step: "(i :: int) < j \<Longrightarrow> i * ?p + x < j * ?p + y" if "x < ?p" "0 \<le> y" for i j x y
  proof -
    assume "i < j"
    then have "(i + 1) * ?p \<le> j * ?p" by (intro mult_right_mono) simp_all
    then show ?thesis using that by (simp add: algebra_simps)
  qed
  consider "uint c < uint b" | "c = b" | "uint b < uint c" by (metis linorder_less_linear word_uint_eqI)
  then show ?case
  proof cases
    case 1
    then show ?thesis
      using step [of "digits_value s" "digits_value t" "uint c - 48" "uint b - 48"] s t Cons.hyps
      by (auto simp: digits_value_Cons word_less_def)
  next
    case 2
    then show ?thesis using Cons by (simp add: digits_value_Cons)
  next
    case 3
    then show ?thesis
      using step [of "digits_value t" "digits_value s" "uint b - 48" "uint c - 48"] s t Cons.hyps
      by (simp add: digits_value_Cons word_less_def)
  qed
qed simp

lemma digits_value_inject:
  assumes "length s = length t" "list_all is_digit s" "list_all is_digit t" "digits_value s = digits_value t"
  shows "s = t"
proof -
  have "\<not> digits_above s t" "\<not> digits_above t s"
    using digits_above_value [OF assms(1-3)] digits_above_value [OF assms(1) [symmetric] assms(3,2)] assms(4) by simp_all
  then show ?thesis using assms(1)
  proof (induction s t rule: digits_above.induct)
    case (1 c cs b bs)
    then show ?case by (metis digits_above.simps(1) length_Cons nat.inject linorder_less_linear)
  qed auto
qed

section \<open>Reversing an integer\<close>

definition swap_bytes :: "int \<Rightarrow> int \<Rightarrow> u8 list \<Rightarrow> u8 list c_result" where
  "swap_bytes i j s =
     c_bind (arr_get s i) (\<lambda>a. c_bind (arr_get s j) (\<lambda>b. c_bind (arr_set s i b) (\<lambda>s. arr_set s j a)))"

text \<open>The result is the value returned, with \<open>int\<close> values as integers.\<close>

definition reverse_int :: "int \<Rightarrow> int c_result" where
  "reverse_int x =
     (if x = -2147483648 then Inr 0
      else
        let neg = (x < 0); x = (if neg then - x else x) in
        c_bind (mem_write (replicate 32 0) 0 (sprintf_d x @ [0])) (\<lambda>s_value.
        let len = int (length (sprintf_d x)) in
        c_bind (if len > 2 then for_loop 0 (len div 2) (\<lambda>i. swap_bytes i (len - i - 1)) s_value
                else if len = 2 then swap_bytes 0 1 s_value else Inr s_value) (\<lambda>s_value.
        if len > 10 then Inr 0
        else if len = 10 \<and> digits_above (take 10 s_value) (cstr ''2147483648'') then Inr 0
        else c_bind (atoi s_value) (\<lambda>value. Inr (if neg then - value else value)))))"

lemma swap_bytes_in:
  assumes "0 \<le> i" "i < int (length s)" "0 \<le> j" "j < int (length s)"
  shows "swap_bytes i j s = Inr ((s[nat i := s ! nat j])[nat j := s ! nat i])"
  using assms by (simp add: swap_bytes_def)

text \<open>The loop reverses the first \<open>len\<close> bytes.\<close>

lemma reverse_loop:
  assumes "k \<le> length s" 
  shows "for_loop 0 (int k div 2) (\<lambda>i. swap_bytes i (int k - i - 1)) s = Inr (rev (take k s) @ drop k s)"
proof -
  let ?I = "\<lambda>i t. length t = length s \<and> (\<forall>n < length s. t ! n =
     (if n < k \<and> (int n < i \<or> int k - 1 - int n < i) then s ! (k - 1 - n) else s ! n))"
  have "\<exists>t. for_loop 0 (int k div 2) (\<lambda>i. swap_bytes i (int k - i - 1)) s = Inr t \<and> ?I (int k div 2) t"
  proof (rule for_loop_inv [where I = ?I])
    fix i t assume i: "0 \<le> i" "i < int k div 2" and t: "?I i t"
    define m where "m = nat i"
    have m: "i = int m" "m < k div 2" using i by (auto simp: m_def)
    have j: "nat (int k - int m - 1) = k - Suc m" using m by auto
    have l: "m < length t" "k - 1 - m < length t" "m < k - 1 - m" using m t assms by auto
    have v: "t ! m = s ! m" "t ! (k - 1 - m) = s ! (k - 1 - m)" using t l m by auto
    have "swap_bytes i (int k - i - 1) t = Inr ((t[m := t ! (k - 1 - m)])[k - 1 - m := t ! m])"
      using l m unfolding m(1) by (subst swap_bytes_in) (auto simp: j)
    moreover have "?I (i + 1) ((t[m := t ! (k - 1 - m)])[k - 1 - m := t ! m])"
      using t l v m by (auto simp: nth_list_update)
    ultimately show "\<exists>t'. swap_bytes i (int k - i - 1) t = Inr t' \<and> ?I (i + 1) t'" by blast
  qed auto
  then obtain t where t: "for_loop 0 (int k div 2) (\<lambda>i. swap_bytes i (int k - i - 1)) s = Inr t" "?I (int k div 2) t" by blast
  have "t = rev (take k s) @ drop k s"
  proof (rule nth_equalityI)
    fix n assume n: "n < length t"
    have v: "t ! n = (if n < k \<and> (int n < int k div 2 \<or> int k - 1 - int n < int k div 2) then s ! (k - 1 - n) else s ! n)"
      using t(2) n by simp
    have r: "(rev (take k s) @ drop k s) ! n = (if n < k then s ! (k - 1 - n) else s ! n)"
      using assms n t(2) by (simp add: nth_append rev_nth)
    have m: "k - 1 - n = n" if "n < k" "\<not> (int n < int k div 2 \<or> int k - 1 - int n < int k div 2)"
    proof -
      have "int k \<le> 2 * (int k div 2) + 1" by simp
      then have "int k = 2 * int n + 1" using that by linarith
      then show ?thesis by simp
    qed
    show "t ! n = (rev (take k s) @ drop k s) ! n"
    proof (cases "n < k \<and> \<not> (int n < int k div 2 \<or> int k - 1 - int n < int k div 2)")
      case True
      then show ?thesis using m unfolding v r by metis
    next
      case False
      then show ?thesis unfolding v r by metis
    qed
  qed (use t(2) assms in simp)
  then show ?thesis using t(1) by simp
qed

lemma reverse_digits:
  assumes "0 \<le> x" "x < 2147483648" "s = sprintf_d x" "buf = s @ replicate (32 - length s) 0"
  shows "(if int (length s) > 2 then for_loop 0 (int (length s) div 2) (\<lambda>i. swap_bytes i (int (length s) - i - 1)) buf
      else if int (length s) = 2 then swap_bytes 0 1 buf else Inr buf) = Inr (rev s @ replicate (32 - length s) 0)"
proof -
  consider "length s > 2" | "length s = 2" | "length s \<le> 1" by linarith
  then show ?thesis
  proof cases
    case 1
    then show ?thesis using reverse_loop [of "length s" buf] by (simp add: assms(4))
  next
    case 2
    then obtain a b where "s = [a, b]" by (auto simp: length_Suc_conv numeral_2_eq_2)
    then show ?thesis by (simp add: assms(4) swap_bytes_in)
  next
    case 3
    then have "rev s = s" by (cases s) auto
    then show ?thesis using 3 by (simp add: assms(4))
  qed
qed

text \<open>The value of the digits read backwards.\<close>

definition reversed_value :: "int \<Rightarrow> int" where
  "reversed_value x = digits_value (rev (decimal_digits (nat x)))"

lemma sprintf_nonneg: "0 \<le> x \<Longrightarrow> sprintf_d x = decimal_digits (nat x)"
  by (simp add: sprintf_d_def)

lemma digits_rev: "list_all is_digit (rev (decimal_digits n))"
  using decimal_digits_digits by (auto simp: list_all_iff)

lemma length_int_digits: "0 \<le> x \<Longrightarrow> x < 2147483648 \<Longrightarrow> length (decimal_digits (nat x)) \<le> 10"
  using length_decimal_digits [of "nat x" 10] by (simp add: nat_less_iff)

text \<open>The bound itself is no reversed \<open>int\<close>.\<close>

lemma reversed_not_bound:
  assumes "0 \<le> x" "x < 2147483648" "length (decimal_digits (nat x)) = 10"
  shows "reversed_value x \<noteq> 2147483648"
proof
  assume r: "reversed_value x = 2147483648"
  have "digits_value (cstr ''2147483648'') = 2147483648" "list_all is_digit (cstr ''2147483648'')"
    by (simp_all add: digits_value_def is_digit_def)
  then have "rev (decimal_digits (nat x)) = cstr ''2147483648''"
    using r assms(3) digits_rev by (intro digits_value_inject) (simp_all add: reversed_value_def)
  then have "decimal_digits (nat x) = rev (cstr ''2147483648'')" by (metis rev_rev_ident)
  then have "digits_value (decimal_digits (nat x)) = 8463847412" by (simp add: digits_value_def)
  then show False using assms by (simp add: digits_value_decimal)
qed

lemma reverse_int_abs:
  assumes "0 \<le> x" "x < 2147483648"
  shows "c_bind (mem_write (replicate 32 0) 0 (sprintf_d x @ [0])) (\<lambda>s_value.
      let len = int (length (sprintf_d x)) in
      c_bind (if len > 2 then for_loop 0 (len div 2) (\<lambda>i. swap_bytes i (len - i - 1)) s_value
              else if len = 2 then swap_bytes 0 1 s_value else Inr s_value) (\<lambda>s_value.
      if len > 10 then Inr 0
      else if len = 10 \<and> digits_above (take 10 s_value) (cstr ''2147483648'') then Inr 0
      else c_bind (atoi s_value) (\<lambda>value. Inr (if neg then - value else value)))) =
    Inr (if reversed_value x < 2147483648 then (if neg then - reversed_value x else reversed_value x) else 0)"
proof -
  let ?s = "decimal_digits (nat x)"
  let ?buf = "?s @ replicate (32 - length ?s) 0"
  have s: "sprintf_d x = ?s" using assms(1) by (rule sprintf_nonneg)
  have l: "length ?s \<le> 10" "?s \<noteq> []" using length_int_digits [OF assms] decimal_digits_nonempty by blast+
  have w: "mem_write (replicate 32 0) 0 (?s @ [0]) = Inr ?buf"
    using l(1) by (simp add: mem_write_def Suc_diff_le flip: replicate_Suc)
  have r: "(if int (length ?s) > 2 then for_loop 0 (int (length ?s) div 2) (\<lambda>i. swap_bytes i (int (length ?s) - i - 1)) ?buf
      else if int (length ?s) = 2 then swap_bytes 0 1 ?buf else Inr ?buf) = Inr (rev ?s @ replicate (32 - length ?s) 0)"
    by (rule reverse_digits [OF assms s [symmetric] refl])
  have "replicate (32 - length ?s) (0 :: u8) \<noteq> []" "hd (replicate (32 - length ?s) (0 :: u8)) = 0" using l(1) by simp_all
  moreover have nd: "\<not> is_digit 0" by (simp add: is_digit_def)
  ultimately have a: "atoi_value (rev ?s @ replicate (32 - length ?s) 0) = reversed_value x"
    using atoi_digits [OF digits_rev, of "nat x" "replicate (32 - length ?s) 0"] l(2) nd
    by (simp add: reversed_value_def)
  have b: "digits_above (rev ?s) (cstr ''2147483648'') \<longleftrightarrow> 2147483648 < reversed_value x" if "length ?s = 10"
  proof -
    have "digits_value (cstr ''2147483648'') = 2147483648" "list_all is_digit (cstr ''2147483648'')"
      by (simp_all add: digits_value_def is_digit_def)
    then show ?thesis using digits_above_value [of "rev ?s" "cstr ''2147483648''"] that digits_rev [of "nat x"]
      by (simp add: reversed_value_def del: cstr_simps)
  qed
  have c: "reversed_value x < 2147483648" if "length ?s < 10"
  proof -
    have "(10 :: int) ^ length ?s \<le> 10 ^ 9" using that by (intro power_increasing) simp_all
    then show ?thesis using digits_value_bounds [OF digits_rev [of "nat x"]] by (simp add: reversed_value_def)
  qed
  have f: "atoi (rev ?s @ replicate (32 - length ?s) 0) = Inr (reversed_value x)" if "reversed_value x < 2147483648"
    using that digits_value_bounds [OF digits_rev [of "nat x"]] by (simp add: atoi_def a) (simp add: reversed_value_def)
  show ?thesis
    using l(1) b c f reversed_not_bound [OF assms] unfolding s w c_bind_simps Let_def r
    by (cases "length ?s = 10") (auto simp del: cstr_simps)
qed

section \<open>Reading an integer\<close>

definition isNumber :: "u8 \<Rightarrow> bool" where
  "isNumber c \<longleftrightarrow> 48 \<le> uint c \<and> uint c \<le> 57"

definition isSign :: "u8 \<Rightarrow> bool" where
  "isSign c \<longleftrightarrow> 43 \<le> uint c \<and> uint c \<le> 45"

definition checkBigNumber :: "u8 list \<Rightarrow> bool \<Rightarrow> bool" where
  "checkBigNumber s_value sign_positive \<longleftrightarrow>
     \<not> digits_above (take 10 s_value) (cstr (if sign_positive then ''2147483647'' else ''2147483648''))"

record atoi_scan =
  number_index :: int
  sign_index :: int
  number_len :: int
  get_some_zeroes :: bool

text \<open>The scan of the string from its index \<open>i\<close>; \<open>None\<close> is the early return of 0.\<close>

fun scan_string :: "int \<Rightarrow> u8 list \<Rightarrow> atoi_scan \<Rightarrow> atoi_scan option" where
  "scan_string i [] st = Some st"
| "scan_string i (c # str) st =
     (if number_index st < 0 then
        if isNumber c then
          scan_string (i + 1) str
            (if c \<noteq> 48 then st\<lparr>get_some_zeroes := True, number_index := i, number_len := number_len st + 1\<rparr>
             else st\<lparr>get_some_zeroes := True\<rparr>)
        else if isSign c \<and> \<not> get_some_zeroes st then
          if sign_index st < 0 then scan_string (i + 1) str (st\<lparr>sign_index := i\<rparr>) else None
        else if c \<noteq> 32 \<or> get_some_zeroes st \<or> sign_index st \<ge> 0 then None
        else scan_string (i + 1) str st
      else if isNumber c then scan_string (i + 1) str (st\<lparr>number_len := number_len st + 1\<rparr>)
      else Some st)"

definition multiplier :: "int \<Rightarrow> u32 c_result" where
  "multiplier n = for_loop 0 n (\<lambda>_ m. Inr (m * 10)) 1"

definition atoi_total :: "u8 list \<Rightarrow> int \<Rightarrow> int \<Rightarrow> u32 c_result" where
  "atoi_total str index len =
     for_loop index (index + len) (\<lambda>i total.
       c_bind (multiplier (len + index - i - 1)) (\<lambda>m.
       c_bind (arr_get str i) (\<lambda>c. Inr (total + of_int (uint c - 48) * m)))) 0"

definition myAtoi :: "u8 list \<Rightarrow> int c_result" where
  "myAtoi str =
     (case scan_string 0 str \<lparr>number_index = -1, sign_index = -1, number_len = 0, get_some_zeroes = False\<rparr> of
        None \<Rightarrow> Inr 0
      | Some st \<Rightarrow>
          if number_index st < 0 then Inr 0
          else
            c_bind (if sign_index st < 0 then Inr True else c_bind (arr_get str (sign_index st)) (\<lambda>c. Inr (c = 43))) (\<lambda>is_positive.
            if number_len st > 10 then Inr (if is_positive then INT_MAX else INT_MIN)
            else if number_len st = 10 \<and> \<not> checkBigNumber (drop (nat (number_index st)) str) is_positive
            then Inr (if is_positive then INT_MAX else INT_MIN)
            else c_bind (atoi_total str (number_index st) (number_len st)) (\<lambda>total.
                 Inr (if is_positive then sint total else sint (- total)))))"

text \<open>The reference: blanks, a sign, digits; the value cut to the range of an \<open>int\<close>. A comma is taken as a minus.\<close>

definition atoi_reference :: "u8 list \<Rightarrow> int" where
  "atoi_reference str =
     (let s = dropWhile (\<lambda>c. c = 32) str;
          sign = s \<noteq> [] \<and> hd s \<in> {43, 44, 45};
          v = digits_value (takeWhile is_digit (if sign then tl s else s))
      in if sign \<and> hd s \<noteq> 43 then max INT_MIN (- v) else min INT_MAX v)"

lemma isNumber_digit: "isNumber = is_digit"
  by (simp add: fun_eq_iff isNumber_def is_digit_def)

lemma isSign_chars: "isSign c \<longleftrightarrow> c \<in> {43, 44, 45}"
proof -
  have "uint c = 43 \<longleftrightarrow> c = 43" "uint c = 44 \<longleftrightarrow> c = 44" "uint c = 45 \<longleftrightarrow> c = 45"
    by (auto intro: word_uint_eqI)
  moreover have "isSign c \<longleftrightarrow> uint c = 43 \<or> uint c = 44 \<or> uint c = 45" by (auto simp: isSign_def)
  ultimately show ?thesis by simp
qed

text \<open>The digits of a number, once its first digit was found, and the digits after blanks and a sign.\<close>

definition significant :: "u8 list \<Rightarrow> u8 list" where
  "significant s = dropWhile (\<lambda>c. c = 48) (takeWhile is_digit s)"

definition leading_zeros :: "u8 list \<Rightarrow> nat" where
  "leading_zeros s = length (takeWhile (\<lambda>c. c = 48) s)"

lemma scan_digits:
  "0 \<le> number_index st \<Longrightarrow>
    scan_string i s st = Some (st\<lparr>number_len := number_len st + int (length (takeWhile is_digit s))\<rparr>)"
  by (induction s arbitrary: i st) (simp_all add: isNumber_digit)

lemma scan_number:
  assumes "number_index st = -1"
    and "get_some_zeroes st \<or> 0 \<le> sign_index st \<or> s = [] \<or> hd s \<noteq> 32 \<and> \<not> isSign (hd s)" "0 \<le> i"
  shows "if significant s = [] then scan_string i s st = None \<or> (\<exists>st'. scan_string i s st = Some st' \<and> number_index st' < 0)
    else \<exists>st'. scan_string i s st = Some st' \<and> number_index st' = i + int (leading_zeros s) \<and>
      number_len st' = number_len st + int (length (significant s)) \<and> sign_index st' = sign_index st"
  using assms
proof (induction s arbitrary: i st)
  case (Cons c s)
  show ?case
  proof (cases "is_digit c")
    case False
    then have "c \<noteq> 48" by (auto simp: is_digit_def)
    then have "significant (c # s) = []" using False by (simp add: significant_def)
    moreover have "scan_string i (c # s) st = None" using False Cons.prems by (auto simp: isNumber_digit)
    ultimately show ?thesis by simp
  next
    case digit: True
    show ?thesis
    proof (cases "c = 48")
      case True
      then have "significant (c # s) = significant s" "leading_zeros (c # s) = Suc (leading_zeros s)"
        using digit by (simp_all add: significant_def leading_zeros_def)
      then show ?thesis
        using Cons.IH [of "st\<lparr>get_some_zeroes := True\<rparr>" "i + 1"] Cons.prems digit True
        by (simp add: isNumber_digit add.assoc split: if_splits)
    next
      case False
      then have "significant (c # s) = c # takeWhile is_digit s" "leading_zeros (c # s) = 0"
        using digit by (simp_all add: significant_def leading_zeros_def)
      then show ?thesis using Cons.prems digit False by (simp add: isNumber_digit scan_digits)
    qed
  qed
qed (simp add: significant_def)

text \<open>Blanks are skipped.\<close>

lemma scan_blanks:
  "number_index st = -1 \<Longrightarrow> sign_index st = -1 \<Longrightarrow> \<not> get_some_zeroes st \<Longrightarrow>
    scan_string i s st = scan_string (i + int (length (takeWhile (\<lambda>c. c = 32) s))) (dropWhile (\<lambda>c. c = 32) s) st"
proof (induction s arbitrary: i)
  case (Cons c s)
  have "\<not> isNumber 32" "\<not> isSign 32" by (simp_all add: isNumber_def isSign_def)
  then show ?case using Cons by (cases "c = 32") (simp_all add: add.assoc)
qed simp

text \<open>The outcome of the whole scan: where the significant digits are, and the sign.\<close>

definition body_of :: "u8 list \<Rightarrow> nat \<times> u8 list option \<times> u8 list" where
  "body_of str = (let s = dropWhile (\<lambda>c. c = 32) str; k = length (takeWhile (\<lambda>c. c = 32) str)
     in if s \<noteq> [] \<and> isSign (hd s) then (k, Some [hd s], tl s) else (k, None, s))"

lemma body_of_split:
  assumes "body_of str = (k, sg, body)"
  shows "str = replicate k 32 @ (case sg of None \<Rightarrow> [] | Some c \<Rightarrow> c) @ body"
    "sg = None \<or> (\<exists>c. sg = Some [c] \<and> isSign c)"
proof -
  let ?s = "dropWhile (\<lambda>c. c = 32) str"
  have "takeWhile (\<lambda>c. c = 32) str = replicate (length (takeWhile (\<lambda>c. c = 32) str)) 32"
    by (rule replicate_length_same [symmetric]) (meson set_takeWhileD)
  then have r: "str = replicate (length (takeWhile (\<lambda>c. c = 32) str)) 32 @ ?s" by (metis takeWhile_dropWhile_id)
  show "str = replicate k 32 @ (case sg of None \<Rightarrow> [] | Some c \<Rightarrow> c) @ body"
  proof (cases "?s \<noteq> [] \<and> isSign (hd ?s)")
    case True
    then have "k = length (takeWhile (\<lambda>c. c = 32) str)" "sg = Some [hd ?s]" "body = tl ?s"
      using assms by (simp_all add: body_of_def Let_def)
    moreover have "?s = hd ?s # tl ?s" using True by (intro hd_Cons_tl [symmetric]) blast
    ultimately show ?thesis using r by simp
  next
    case False
    then have "k = length (takeWhile (\<lambda>c. c = 32) str)" "sg = None" "body = ?s"
      using assms unfolding body_of_def Let_def if_not_P [OF False] by simp_all
    then show ?thesis using r by simp
  qed
  show "sg = None \<or> (\<exists>c. sg = Some [c] \<and> isSign c)" using assms by (auto simp: body_of_def Let_def split: if_splits)
qed

abbreviation (input) scan_start :: atoi_scan where
  "scan_start \<equiv> \<lparr>number_index = -1, sign_index = -1, number_len = 0, get_some_zeroes = False\<rparr>"

lemma scan_whole:
  assumes "body_of str = (k, sg, body)"
  shows "if significant body = [] then scan_string 0 str scan_start = None \<or> (\<exists>st. scan_string 0 str scan_start = Some st \<and> number_index st < 0)
    else \<exists>st. scan_string 0 str scan_start = Some st \<and>
      number_index st = int k + (case sg of None \<Rightarrow> 0 | Some _ \<Rightarrow> 1) + int (leading_zeros body) \<and>
      number_len st = int (length (significant body)) \<and> sign_index st = (case sg of None \<Rightarrow> -1 | Some _ \<Rightarrow> int k)"
proof -
  let ?s = "dropWhile (\<lambda>c. c = 32) str" and ?k = "length (takeWhile (\<lambda>c. c = 32) str)"
  have b: "scan_string 0 str scan_start = scan_string (int ?k) ?s scan_start" using scan_blanks [of scan_start 0 str] by simp
  show ?thesis
  proof (cases "?s \<noteq> [] \<and> isSign (hd ?s)")
    case True
    then obtain c r where s: "?s = c # r" "isSign c" by (cases ?s) auto
    then have "k = ?k" "sg = Some [c]" "body = r" using assms by (simp_all add: body_of_def Let_def)
    moreover have "\<not> isNumber c" using s(2) by (simp add: isNumber_def isSign_def)
    then have "scan_string (int ?k) ?s scan_start = scan_string (int ?k + 1) r (scan_start\<lparr>sign_index := int ?k\<rparr>)"
      using s by simp
    ultimately show ?thesis using scan_number [of "\<lparr>number_index = -1, sign_index = int ?k, number_len = 0, get_some_zeroes = False\<rparr>" r "int ?k + 1"] b
      by (cases "significant r = []") auto
  next
    case False
    then have "k = ?k" "sg = None" "body = ?s"
      using assms unfolding body_of_def Let_def if_not_P [OF False] by simp_all
    moreover have "?s = [] \<or> hd ?s \<noteq> 32 \<and> \<not> isSign (hd ?s)" using False hd_dropWhile [of "\<lambda>c. c = 32" str] by blast
    ultimately show ?thesis using scan_number [of scan_start ?s "int ?k"] b by (cases "significant ?s = []") simp_all
  qed
qed

text \<open>The significant digits: their value, and where they stand.\<close>

lemma significant_digits: "list_all is_digit (significant s)" "digits_value (takeWhile is_digit s) = digits_value (significant s)"
  "significant s \<noteq> [] \<Longrightarrow> 49 \<le> uint (hd (significant s))"
proof -
  have d: "list_all is_digit (takeWhile is_digit s)" by (rule takeWhile_digits)
  have z: "digits_value ds = digits_value (dropWhile (\<lambda>c. c = 48) ds)" for ds
  proof (induction ds)
    case (Cons c ds)
    then show ?case by (cases "c = 48") (simp_all add: digits_value_Cons)
  qed simp
  show "digits_value (takeWhile is_digit s) = digits_value (significant s)" by (simp add: significant_def z [symmetric])
  show l: "list_all is_digit (significant s)" using d by (auto simp: significant_def list_all_iff dest: set_dropWhileD)
  assume n: "significant s \<noteq> []"
  then have "hd (significant s) \<noteq> 48"
    using hd_dropWhile [of "\<lambda>c. c = 48" "takeWhile is_digit s"] by (simp add: significant_def)
  moreover have "is_digit (hd (significant s))" using l n by (cases "significant s") auto
  moreover have "uint (hd (significant s)) \<noteq> uint (48 :: u8)" using calculation(1) by (metis word_uint_eqI)
  ultimately show "49 \<le> uint (hd (significant s))" by (simp add: is_digit_def)
qed

lemma significant_split: "\<exists>rest. s = replicate (leading_zeros s) 48 @ significant s @ rest \<and> significant s = takeWhile is_digit (significant s @ rest)"
proof -
  let ?z = "takeWhile (\<lambda>c. c = 48) s" and ?r = "dropWhile (\<lambda>c. c = 48) s"
  have z: "?z = replicate (length ?z) 48" by (rule replicate_length_same [symmetric]) (meson set_takeWhileD)
  have "is_digit 48" by (simp add: is_digit_def)
  then have "significant s = takeWhile is_digit ?r"
    unfolding significant_def by (induction s) auto
  then show ?thesis
    by (intro exI [of _ "dropWhile is_digit ?r"]) (metis leading_zeros_def takeWhile_dropWhile_id z)
qed

section \<open>The total of the digits\<close>

lemma multiplier_power: "0 \<le> n \<Longrightarrow> multiplier n = Inr (10 ^ nat n)"
proof -
  assume "0 \<le> n"
  then have "\<exists>m. for_loop 0 n (\<lambda>_ m. Inr (m * 10)) 1 = Inr m \<and> m = (10 :: u32) ^ nat n"
    by (intro for_loop_inv [where I = "\<lambda>i m. m = 10 ^ nat i"]) (simp_all add: nat_add_distrib)
  then show ?thesis by (simp add: multiplier_def)
qed

lemma digits_value_take_Suc:
  "m < length ds \<Longrightarrow> digits_value (take (Suc m) ds) = digits_value (take m ds) * 10 + (uint (ds ! m) - 48)"
  by (simp add: take_Suc_conv_app_nth digits_value_snoc)

text \<open>The loop adds every digit with its weight; the sum is taken modulo 2^32.\<close>

lemma atoi_total_value:
  assumes "str = pre @ ds @ rest"
  shows "atoi_total str (int (length pre)) (int (length ds)) = Inr (of_int (digits_value ds))"
proof -
  let ?k = "int (length pre)" and ?n = "int (length ds)"
  let ?I = "\<lambda>i (t :: u32). t = of_int (digits_value (take (nat (i - ?k)) ds) * 10 ^ nat (?k + ?n - i))"
  have "\<exists>t. atoi_total str ?k ?n = Inr t \<and> ?I (?k + ?n) t"
    unfolding atoi_total_def
  proof (rule for_loop_inv [where I = ?I])
    fix i and t :: u32 assume i: "?k \<le> i" "i < ?k + ?n" and t: "?I i t"
    define m where "m = nat (i - ?k)"
    define w where "w = nat (?k + ?n - i - 1)"
    have m: "i = ?k + int m" "m < length ds" "nat (i + 1 - ?k) = Suc m" using i by (auto simp: m_def)
    have w: "nat (?k + ?n - i) = Suc w" "nat (?k + ?n - (i + 1)) = w" using i by (auto simp: w_def)
    have c: "arr_get str i = Inr (ds ! m)" using m assms by (simp add: nth_append nat_add_distrib)
    have "multiplier (?n + ?k - i - 1) = Inr (10 ^ w)"
      using i by (simp add: multiplier_power w_def add.commute)
    moreover have "t + of_int (uint (ds ! m) - 48) * 10 ^ w =
        of_int (digits_value (take (Suc m) ds) * 10 ^ w)"
      using t unfolding w(1) m_def [symmetric] digits_value_take_Suc [OF m(2)] by (simp add: algebra_simps)
    ultimately show "\<exists>t'. c_bind (multiplier (?n + ?k - i - 1)) (\<lambda>m. c_bind (arr_get str i)
        (\<lambda>c. Inr (t + of_int (uint c - 48) * m))) = Inr t' \<and> ?I (i + 1) t'"
      by (simp add: c m(3) w(2))
  qed (simp_all add: digits_value_def)
  then show ?thesis by simp
qed

lemma digits_value_lower:
  assumes "list_all is_digit ds" "ds \<noteq> []" "49 \<le> uint (hd ds)"
  shows "10 ^ (length ds - 1) \<le> digits_value ds"
proof -
  obtain c r where c: "ds = c # r" using assms(2) by (cases ds) auto
  then have "0 \<le> digits_value r" using digits_value_bounds [of r] assms(1) by simp
  moreover have "1 * (10 :: int) ^ length r \<le> (uint c - 48) * 10 ^ length r"
    using assms(3) c by (intro mult_right_mono) simp_all
  ultimately have "10 ^ length r \<le> (uint c - 48) * 10 ^ length r + digits_value r" by linarith
  then show ?thesis by (simp add: c digits_value_Cons)
qed

text \<open>The conversion of the total to an \<open>int\<close>.\<close>

lemma sint_total:
  assumes "0 \<le> v"
  shows "v \<le> INT_MAX \<Longrightarrow> sint (of_int v :: u32) = v" "v \<le> 2147483648 \<Longrightarrow> sint (- of_int v :: u32) = - v"
proof -
  have s: "sint (of_int w :: u32) = w" if "INT_MIN \<le> w" "w \<le> INT_MAX" for w
    using that signed_take_bit_int_eq_self [of 31 w] by (simp add: sint_sbintrunc')
  show "v \<le> INT_MAX \<Longrightarrow> sint (of_int v :: u32) = v" using assms s [of v] by simp
  show "v \<le> 2147483648 \<Longrightarrow> sint (- of_int v :: u32) = - v" using assms s [of "- v"] by simp
qed

lemma checkBigNumber_value:
  assumes "list_all is_digit ds" "length ds = 10"
  shows "checkBigNumber (ds @ rest) pos \<longleftrightarrow> digits_value ds \<le> (if pos then INT_MAX else 2147483648)"
proof -
  have "digits_value (cstr ''2147483647'') = 2147483647" "list_all is_digit (cstr ''2147483647'')"
    "digits_value (cstr ''2147483648'') = 2147483648" "list_all is_digit (cstr ''2147483648'')"
    by (simp_all add: digits_value_def is_digit_def)
  then show ?thesis
    using digits_above_value [of ds "cstr ''2147483647''"] digits_above_value [of ds "cstr ''2147483648''"] assms
    by (auto simp: checkBigNumber_def simp del: cstr_simps)
qed

text \<open>What \<open>myAtoi\<close> does with the digits it found.\<close>

lemma atoi_decide:
  assumes "str = pre @ ds @ rest" "list_all is_digit ds" "ds \<noteq> []" "49 \<le> uint (hd ds)"
  shows "(if int (length ds) > 10 then Inr (if pos then INT_MAX else INT_MIN)
      else if int (length ds) = 10 \<and> \<not> checkBigNumber (drop (nat (int (length pre))) str) pos
      then Inr (if pos then INT_MAX else INT_MIN)
      else c_bind (atoi_total str (int (length pre)) (int (length ds))) (\<lambda>total.
        Inr (if pos then sint total else sint (- total)))) =
    Inr (if pos then min INT_MAX (digits_value ds) else max INT_MIN (- digits_value ds))"
proof -
  let ?v = "digits_value ds" and ?n = "length ds"
  have v: "0 \<le> ?v" "?v < 10 ^ ?n" "10 ^ (?n - 1) \<le> ?v"
    using digits_value_bounds [OF assms(2)] digits_value_lower [OF assms(2-4)] by simp_all
  have t: "atoi_total str (int (length pre)) (int (length ds)) = Inr (of_int ?v)"
    by (rule atoi_total_value [OF assms(1)])
  have d: "drop (nat (int (length pre))) str = ds @ rest" by (simp add: assms(1))
  consider "?n > 10" | "?n = 10" | "?n < 10" by linarith
  then show ?thesis
  proof cases
    case 1
    then have "(10 :: int) ^ 10 \<le> 10 ^ (?n - 1)" by (intro power_increasing) simp_all
    then have "10000000000 \<le> ?v" using v(3) by simp
    then show ?thesis using 1 by auto
  next
    case 2
    then show ?thesis
      using sint_total [OF v(1)] unfolding t d checkBigNumber_value [OF assms(2) 2] by auto
  next
    case 3
    then have "(10 :: int) ^ ?n \<le> 10 ^ 9" by (intro power_increasing) simp_all
    then have "?v < 1000000000" using v(2) by simp
    then show ?thesis using 3 sint_total [OF v(1)] unfolding t by auto
  qed
qed

lemma atoi_reference_body:
  assumes "body_of str = (k, sg, body)"
  shows "atoi_reference str = (if sg = None \<or> sg = Some [43] then min INT_MAX (digits_value (significant body))
    else max INT_MIN (- digits_value (significant body)))"
proof -
  let ?s = "dropWhile (\<lambda>c. c = 32) str"
  show ?thesis
  proof (cases "?s \<noteq> [] \<and> isSign (hd ?s)")
    case True
    then have "sg = Some [hd ?s]" "body = tl ?s" using assms by (simp_all add: body_of_def Let_def)
    then show ?thesis
      using True unfolding atoi_reference_def Let_def isSign_chars significant_digits(2) by auto
  next
    case False
    then have "sg = None" "body = ?s" using assms unfolding body_of_def Let_def if_not_P [OF False] by simp_all
    then show ?thesis
      using False unfolding atoi_reference_def Let_def isSign_chars significant_digits(2) by auto
  qed
qed

section \<open>Properties\<close>

text \<open>\<open>reverse\<close> answers every \<open>int\<close> with the number of its decimal digits in reverse, with its sign, and with 0
  exactly when that number does not fit an \<open>int\<close>; the buffer and \<open>atoi\<close> never overflow.\<close>

theorem reverse_is_reversed:
  assumes "-2147483648 \<le> x" "x < 2147483648"
  shows "reverse_int x = Inr (if x \<noteq> -2147483648 \<and> reversed_value \<bar>x\<bar> < 2147483648
    then (if x < 0 then - reversed_value \<bar>x\<bar> else reversed_value \<bar>x\<bar>) else 0)"
proof (cases "x = -2147483648")
  case True
  then show ?thesis by (simp add: reverse_int_def)
next
  case False
  have n: "(if x < 0 then - x else x) = \<bar>x\<bar>" by simp
  have "reverse_int x = Inr (if reversed_value \<bar>x\<bar> < 2147483648 then (if x < 0 then - reversed_value \<bar>x\<bar> else reversed_value \<bar>x\<bar>) else 0)"
    unfolding reverse_int_def if_not_P [OF False] Let_def n
    by (rule reverse_int_abs [unfolded Let_def]) (use False assms in auto)
  then show ?thesis using False by simp
qed

theorem reverse_is_reversed_witness: "reverse_int (-120) = Inr (-21)"
proof -
  have "decimal_digits 120 = [49, 50, 48]" by (simp add: decimal_digits.simps)
  then show ?thesis using reverse_is_reversed [of "-120"] by (simp add: reversed_value_def digits_value_def)
qed

text \<open>C26: \<open>myAtoi\<close> is its reference on every string: after blanks and one sign, the value of the digits, cut to the
  range of an \<open>int\<close>, whatever their number; the 32 bit total and its negation are exact in all cases that reach
  them, and the \<open>int\<close> it returns is the value. A comma counts as a minus.\<close>

theorem my_atoi_is_reference: "myAtoi str = Inr (atoi_reference str)"
proof -
  obtain k sg body where b: "body_of str = (k, sg, body)" by (metis prod_cases3)
  note r = atoi_reference_body [OF b] and w = scan_whole [OF b]
  show ?thesis
  proof (cases "significant body = []")
    case True
    then show ?thesis using w r by (auto simp: myAtoi_def digits_value_def)
  next
    case False
    define pre where "pre = replicate k 32 @ (case sg of None \<Rightarrow> [] | Some c \<Rightarrow> c) @ replicate (leading_zeros body) 48"
    obtain rest where "body = replicate (leading_zeros body) 48 @ significant body @ rest" using significant_split by blast
    then have str: "str = pre @ significant body @ rest" using body_of_split(1) [OF b] by (simp add: pre_def)
    have sg: "sg = None \<or> (\<exists>c. sg = Some [c])" using body_of_split(2) [OF b] by blast
    obtain st where st: "scan_string 0 str scan_start = Some st" "number_index st = int (length pre)"
        "number_len st = int (length (significant body))" "sign_index st = (case sg of None \<Rightarrow> -1 | Some _ \<Rightarrow> int k)"
      using w False sg by (auto simp: pre_def)
    have p: "(if sign_index st < 0 then Inr True else c_bind (arr_get str (sign_index st)) (\<lambda>c. Inr (c = 43))) =
        Inr (sg = None \<or> sg = Some [43])"
      using sg st(4) by (auto simp: str pre_def nth_append)
    show ?thesis
      unfolding myAtoi_def st(1) option.case p c_bind_simps r
      using atoi_decide [OF str significant_digits(1) False significant_digits(3) [OF False], of "sg = None \<or> sg = Some [43]"]
      unfolding st(2,3) by simp
  qed
qed

end
