(* ===== verification/Csv_Fix.thy ===== *)
theory Csv_Fix
  imports Csv_Format C_Stdlib
begin

text \<open>
  The filter \<open>csv_fix\<close>, \<open>test_csv/main.c\<close>, over the CSV library (the same sources as in \<open>test_csv3\<close>): it reads a
  file in blocks of 1024 bytes and writes every field in quotes, with a comma after it; the end of a row
  steps back over the last comma. What it writes holds the same fields, and is a fixed point of it.
\<close>

section \<open>The stream it writes\<close>

text \<open>A stream opened with \<open>"wb"\<close>: its bytes and its position. A full disk is not modelled.\<close>

record stream =
  bytes :: "u8 list"
  at :: nat

definition fputc :: "u8 \<Rightarrow> stream \<Rightarrow> stream option" where
  "fputc c fp = Some (fp\<lparr>bytes := take (at fp) (bytes fp) @ c # drop (Suc (at fp)) (bytes fp), at := Suc (at fp)\<rparr>)"

text \<open>\<open>fseek (fp, -1, SEEK_CUR)\<close>, which fails at the beginning of the file; the sources ignore the result.\<close>

definition fseek_back :: "stream \<Rightarrow> stream" where
  "fseek_back fp = (if at fp = 0 then fp else fp\<lparr>at := at fp - 1\<rparr>)"

section \<open>The program\<close>

definition ignoring :: "stream option \<Rightarrow> stream \<Rightarrow> stream" where
  "ignoring r fp = (case r of None \<Rightarrow> fp | Some fp' \<Rightarrow> fp')"

definition cb1_fix :: "u8 list option \<Rightarrow> stream \<Rightarrow> stream c_result" where
  "cb1_fix s fp =
     (let fp = (case s of None \<Rightarrow> fp | Some s \<Rightarrow> ignoring (csv_fwrite fputc fp s) fp) in
      Inr (ignoring (fputc CSV_COMMA fp) fp))"

definition cb2_fix :: "int \<Rightarrow> stream \<Rightarrow> stream c_result" where
  "cb2_fix c fp = (let fp = fseek_back fp in Inr (ignoring (fputc CSV_LF fp) fp))"

text \<open>The loop over the blocks \<open>fread\<close> gives; a block that is not parsed to its end stops it.\<close>

function fix_loop :: "u8 list \<Rightarrow> csv_parser \<Rightarrow> stream \<Rightarrow> (bool \<times> csv_parser \<times> stream) c_result" where
  "fix_loop infile p fp =
     (let buf = take 1024 infile in
      if buf = [] then Inr (True, p, fp)
      else c_bind (csv_parse cb1_fix cb2_fix buf p fp) (\<lambda>(n, p, fp).
             if n \<noteq> int (length buf) then Inr (False, p, fp) else fix_loop (drop 1024 infile) p fp))"
  by pat_completeness auto
termination
  by (relation "measure (\<lambda>(infile, _, _). length infile)") auto

declare fix_loop.simps [simp del]

text \<open>The exit code and the files; \<open>argv\<close> with the name of the program.\<close>

definition csv_fix ::
  "(u8 list option \<Rightarrow> int \<Rightarrow> u8 list option) \<Rightarrow> u8 list list \<Rightarrow> files \<Rightarrow> (int \<times> files) c_result" where
  "csv_fix realloc argv fs =
     (let p = csv_init realloc 0 in
      if length argv \<noteq> 3 then Inr (1, fs)
      else if argv ! 1 = argv ! 2 then Inr (1, fs)
      else
        case contents fs (argv ! 1) of
          None \<Rightarrow> Inr (1, fs)
        | Some infile \<Rightarrow>
            if \<not> writable fs (argv ! 2) then Inr (1, fs)
            else
              c_bind (fix_loop infile p \<lparr>bytes = [], at = 0\<rparr>) (\<lambda>(ok, p, fp).
              if \<not> ok then Inr (1, fs\<lparr>contents := (contents fs)(argv ! 2 := None)\<rparr>)
              else c_bind (csv_fini cb1_fix cb2_fix p fp) (\<lambda>(_, p, fp).
                     Inr (0, fs\<lparr>contents := (contents fs)(argv ! 2 \<mapsto> bytes fp)\<rparr>))))"

section \<open>What the callbacks write\<close>

definition written_to :: "u8 list \<Rightarrow> stream" where
  "written_to s = \<lparr>bytes = s, at = length s\<rparr>"

lemma fputc_end: "fputc c (written_to s) = Some (written_to (s @ [c]))"
  by (simp add: fputc_def written_to_def)

lemma csv_fwrite_end: "csv_fwrite fputc (written_to s) t = Some (written_to (s @ csv_quoted CSV_QUOTE t))"
proof -
  have "csv_fwrite_loop fputc q t (written_to s) = Some (written_to (s @ csv_escaped q t))" for q s
    by (induction t arbitrary: s) (simp_all add: fputc_end)
  then show ?thesis by (simp add: csv_fwrite_def csv_fwrite2_def fputc_end csv_quoted_def)
qed

lemma cb1_written: "cb1_fix (Some t) (written_to s) = Inr (written_to (s @ csv_quoted CSV_QUOTE t @ [CSV_COMMA]))"
  by (simp add: cb1_fix_def ignoring_def csv_fwrite_end fputc_end)

lemma cb2_written: "cb2_fix c (written_to (s @ [b])) = Inr (written_to (s @ [CSV_LF]))"
  by (simp add: cb2_fix_def fseek_back_def ignoring_def fputc_def written_to_def)

text \<open>A row of fields, as its events and as it is written: every cell in quotes.\<close>

definition row_of :: "u8 list list \<Rightarrow> int \<Rightarrow> csv_event list" where
  "row_of ts c = map (\<lambda>t. Field (Some t)) ts @ [Row c]"

definition row_text :: "u8 list list \<Rightarrow> u8 list" where
  "row_text ts = row_bytes (map Quoted ts)"

lemma fields_written:
  "run_events cb1_fix cb2_fix (map (\<lambda>t. Field (Some t)) ts) (written_to s) =
     Inr (written_to (s @ concat (map (\<lambda>t. csv_quoted CSV_QUOTE t @ [CSV_COMMA]) ts)))"
  by (induction ts arbitrary: s) (simp_all add: cb1_written)

lemma row_text_commas:
  "ts \<noteq> [] \<Longrightarrow> concat (map (\<lambda>t. csv_quoted CSV_QUOTE t @ [CSV_COMMA]) ts) = butlast (row_text ts) @ [CSV_COMMA] \<and>
    row_text ts = butlast (row_text ts) @ [CSV_LF]"
proof (induction ts rule: induct_list012)
  case (3 t u ts)
  have "row_text (t # u # ts) = (csv_quoted CSV_QUOTE t @ [CSV_COMMA]) @ row_text (u # ts)" by (simp add: row_text_def)
  moreover have "row_text (u # ts) \<noteq> []" using 3(2) by fastforce
  ultimately show ?case using 3(2) by (auto simp: butlast_append)
qed (simp_all add: row_text_def butlast_append)

lemma row_written:
  assumes "ts \<noteq> []"
  shows "run_events cb1_fix cb2_fix (row_of ts c) (written_to s) = Inr (written_to (s @ row_text ts))"
proof -
  obtain b where b: "concat (map (\<lambda>t. csv_quoted CSV_QUOTE t @ [CSV_COMMA]) ts) = b @ [CSV_COMMA]" "row_text ts = b @ [CSV_LF]"
    using row_text_commas [OF assms] by metis
  show ?thesis
    using cb2_written [of c "s @ b" CSV_COMMA] by (simp add: row_of_def run_events_append fields_written b)
qed

lemma rows_written:
  "list_all (\<lambda>(ts, c). ts \<noteq> []) rows \<Longrightarrow>
    run_events cb1_fix cb2_fix (concat (map (\<lambda>(ts, c). row_of ts c) rows)) (written_to s) =
      Inr (written_to (s @ concat (map (row_text \<circ> fst) rows)))"
  by (induction rows arbitrary: s) (auto simp: run_events_append row_written)

section \<open>What the parser reports, for any input\<close>

definition lenient :: "csv_parser \<Rightarrow> bool" where
  "lenient p \<longleftrightarrow> standard p \<and> \<not> opt p CSV_STRICT \<and> \<not> opt p CSV_REPALL_NL"

lemma lenient_init: "lenient (csv_init realloc 0)"
  by (simp add: lenient_def standard_def csv_init_def opt_def)

text \<open>A byte is never refused; it reports nothing, a field, or a field and the end of its row.\<close>

lemma spec_field_text: "standard p \<Longrightarrow> \<exists>t. spec_field p q sp f = Field (Some t) \<and> length t \<le> length f"
  using standard_chars by (simp add: spec_field_def Let_def)

definition byte_reports :: "u8 \<Rightarrow> csv_pstate \<Rightarrow> u8 list \<Rightarrow> csv_event list \<Rightarrow> csv_pstate \<Rightarrow> u8 list \<Rightarrow> bool" where
  "byte_reports c st f es st' f' \<longleftrightarrow> es = [] \<and> length f' \<le> length f + 1 \<and> (st' = ROW_NOT_BEGUN \<longrightarrow> st = ROW_NOT_BEGUN) \<or>
     (\<exists>t. es = [Field (Some t)] \<and> length t \<le> length f \<and> f' = [] \<and> st' = FIELD_NOT_BEGUN) \<or>
     (\<exists>t. es = [Field (Some t), Row (uint c)] \<and> length t \<le> length f \<and> f' = [] \<and> st' = ROW_NOT_BEGUN)"

lemma lenient_byte:
  assumes "lenient p"
  shows "\<exists>es st' q' sp' f'. spec_byte p c (st, q, sp, f) = Some (es, st', q', sp', f') \<and>
    byte_reports c st f es st' f'"
proof -
  have s: "standard p" "\<not> opt p CSV_STRICT" "\<not> opt p CSV_REPALL_NL" using assms by (simp_all add: lenient_def)
  obtain t where "spec_field p q sp f = Field (Some t)" "length t \<le> length f" using spec_field_text [OF s(1)] by blast
  then have "case spec_byte p c (st, q, sp, f) of None \<Rightarrow> False | Some (es, st', q', sp', f') \<Rightarrow> byte_reports c st f es st' f'"
    using s(2,3) by (cases st; cases q) (simp_all add: spec_byte_def Let_def byte_reports_def)
  then show ?thesis by (auto simp: byte_reports_def split: option.splits)
qed

text \<open>
  The events of an input: whole rows, each of one field or more, and the fields of the open row. A row
  that has fields is open. The text written for them is at most three times as long as the input.
\<close>

definition rows_events :: "(u8 list list \<times> int) list \<Rightarrow> csv_event list" where
  "rows_events rows = concat (map (\<lambda>(ts, c). row_of ts c) rows)"

definition quoted_size :: "u8 list list \<Rightarrow> nat" where
  "quoted_size ts = length (concat (map (\<lambda>t. csv_quoted CSV_QUOTE t @ [CSV_COMMA]) ts))"

definition rows_size :: "(u8 list list \<times> int) list \<Rightarrow> nat" where
  "rows_size rows = length (concat (map (row_text \<circ> fst) rows))"

lemma length_quoted: "length (csv_quoted q t) \<le> 2 * length t + 2"
proof -
  have "length (csv_escaped q t) \<le> 2 * length t" by (induction t) auto
  then show ?thesis by (simp add: csv_quoted_def)
qed

lemma quoted_size_snoc: "quoted_size (ts @ [t]) \<le> quoted_size ts + 2 * length t + 3"
  using length_quoted [of CSV_QUOTE t] by (simp add: quoted_size_def)

lemma row_size:
  assumes "ts \<noteq> []"
  shows "length (row_text ts) = quoted_size ts"
proof -
  obtain b where "concat (map (\<lambda>t. csv_quoted CSV_QUOTE t @ [CSV_COMMA]) ts) = b @ [CSV_COMMA]" "row_text ts = b @ [CSV_LF]"
    using row_text_commas [OF assms] by metis
  then show ?thesis by (simp add: quoted_size_def)
qed

lemma lenient_run:
  assumes "lenient p"
  shows "\<exists>rows ts st q sp f. spec_run p us (ROW_NOT_BEGUN, False, 0, []) = Some (rows_events rows @ map (\<lambda>t. Field (Some t)) ts, st, q, sp, f) \<and>
    list_all (\<lambda>(ts, c). ts \<noteq> []) rows \<and> (st = ROW_NOT_BEGUN \<longrightarrow> ts = []) \<and>
    rows_size rows + quoted_size ts + 2 * length f \<le> 3 * length us"
proof (induction us rule: rev_induct)
  case Nil
  show ?case
    by (intro exI [of _ "[]"] exI [of _ ROW_NOT_BEGUN] exI [of _ False]) (simp add: rows_events_def rows_size_def quoted_size_def)
next
  case (snoc c us)
  then obtain rows ts st q sp f where IH: "spec_run p us (ROW_NOT_BEGUN, False, 0, []) = Some (rows_events rows @ map (\<lambda>t. Field (Some t)) ts, st, q, sp, f)"
    "list_all (\<lambda>(ts, c). ts \<noteq> []) rows" "st = ROW_NOT_BEGUN \<longrightarrow> ts = []" "rows_size rows + quoted_size ts + 2 * length f \<le> 3 * length us"
    by blast
  obtain es st' q' sp' f' where b: "spec_byte p c (st, q, sp, f) = Some (es, st', q', sp', f')"
    and es: "byte_reports c st f es st' f'"
    using lenient_byte [OF assms] by blast
  have r: "spec_run p (us @ [c]) (ROW_NOT_BEGUN, False, 0, []) = Some ((rows_events rows @ map (\<lambda>t. Field (Some t)) ts) @ es, st', q', sp', f')"
    using IH(1) b by (simp add: spec_run_append)
  from es show ?case unfolding byte_reports_def
  proof (elim disjE exE conjE)
    assume e: "es = []" "length f' \<le> length f + 1" "st' = ROW_NOT_BEGUN \<longrightarrow> st = ROW_NOT_BEGUN"
    then show ?thesis using r IH(2-4)
      by (intro exI [of _ rows] exI [of _ ts] exI [of _ st'] exI [of _ q'] exI [of _ sp'] exI [of _ f']) simp
  next
    fix t assume e: "es = [Field (Some t)]" "length t \<le> length f" "f' = []" "st' = FIELD_NOT_BEGUN"
    then show ?thesis using r IH(2,4) quoted_size_snoc [of ts t]
      by (intro exI [of _ rows] exI [of _ "ts @ [t]"] exI [of _ st'] exI [of _ q'] exI [of _ sp'] exI [of _ f']) simp
  next
    fix t assume e: "es = [Field (Some t), Row (uint c)]" "length t \<le> length f" "f' = []" "st' = ROW_NOT_BEGUN"
    have "rows_events (rows @ [(ts @ [t], uint c)]) = rows_events rows @ map (\<lambda>t. Field (Some t)) ts @ es"
      by (simp add: rows_events_def row_of_def e(1))
    moreover have "rows_size (rows @ [(ts @ [t], uint c)]) = rows_size rows + quoted_size (ts @ [t])"
      by (simp add: rows_size_def row_size)
    ultimately show ?thesis using r IH(2,4) e quoted_size_snoc [of ts t]
      by (intro exI [of _ "rows @ [(ts @ [t], uint c)]"] exI [of _ "[]"] exI [of _ st'] exI [of _ q'] exI [of _ sp'] exI [of _ f'])
        (simp add: quoted_size_def)
  qed
qed

text \<open>With the end of the input the open row is closed.\<close>

definition spec_all :: "csv_parser \<Rightarrow> u8 list \<Rightarrow> csv_event list" where
  "spec_all p us = (case spec_run p us (ROW_NOT_BEGUN, False, 0, []) of None \<Rightarrow> [] | Some (es, a) \<Rightarrow> es @ spec_fini p a)"

lemma lenient_all:
  assumes "lenient p"
  shows "\<exists>rows. spec_all p us = rows_events rows \<and> list_all (\<lambda>(ts, c). ts \<noteq> []) rows \<and> rows_size rows \<le> 3 * length us + 3"
proof -
  obtain rows ts st q sp f where r: "spec_run p us (ROW_NOT_BEGUN, False, 0, []) = Some (rows_events rows @ map (\<lambda>t. Field (Some t)) ts, st, q, sp, f)"
    "list_all (\<lambda>(ts, c). ts \<noteq> []) rows" "st = ROW_NOT_BEGUN \<longrightarrow> ts = []" "rows_size rows + quoted_size ts + 2 * length f \<le> 3 * length us"
    using lenient_run [OF assms] by blast
  show ?thesis
  proof (cases "st = ROW_NOT_BEGUN")
    case True
    then show ?thesis using r by (intro exI [of _ rows]) (simp add: spec_all_def spec_fini_def)
  next
    case False
    have "standard p" using assms by (simp add: lenient_def)
    then obtain t where t: "spec_fini p (st, q, sp, f) = [Field (Some t), Row (-1)]" "length t \<le> length f"
      using False spec_field_text [of p q sp f] by (cases "st = FIELD_MIGHT_HAVE_ENDED") (auto simp: spec_fini_def)
    have "rows_events (rows @ [(ts @ [t], -1)]) = rows_events rows @ map (\<lambda>t. Field (Some t)) ts @ [Field (Some t), Row (-1)]"
      by (simp add: rows_events_def row_of_def)
    moreover have "rows_size (rows @ [(ts @ [t], -1)]) = rows_size rows + quoted_size (ts @ [t])"
      by (simp add: rows_size_def row_size)
    ultimately show ?thesis using r t quoted_size_snoc [of ts t]
      by (intro exI [of _ "rows @ [(ts @ [t], -1)]"]) (simp add: spec_all_def)
  qed
qed

section \<open>The program on any input\<close>

text \<open>The records of a text: what the callbacks of the library get for it.\<close>

definition csv_records :: "(u8 list option \<Rightarrow> int \<Rightarrow> u8 list option) \<Rightarrow> u8 list \<Rightarrow> csv_event list c_result" where
  "csv_records realloc text =
     c_bind (csv_parse record_field record_row text (csv_init realloc 0) []) (\<lambda>(n, p, es).
     c_bind (csv_fini record_field record_row p es) (\<lambda>(_, _, es). Inr es))"

text \<open>The blocks are parsed as one text.\<close>

lemma fix_loop_parse:
  assumes "csv_inv p"
  shows "fix_loop us p fp = c_bind (csv_parse cb1_fix cb2_fix us p fp) (\<lambda>(n, p, fp). Inr (n = int (length us), p, fp))"
  using assms
proof (induction us p fp rule: fix_loop.induct)
  case (1 us p fp)
  let ?buf = "take 1024 us"
  show ?case
  proof (cases "us = []")
    case True
    then show ?thesis by (simp add: fix_loop.simps csv_parse_def)
  next
    case False
    then have b: "?buf \<noteq> []" by simp
    have IH: "fix_loop (drop 1024 us) p' fp' = c_bind (csv_parse cb1_fix cb2_fix (drop 1024 us) p' fp')
        (\<lambda>(n, p, fp). Inr (n = int (length (drop 1024 us)), p, fp))"
      if "csv_parse cb1_fix cb2_fix ?buf p fp = Inr (int (length ?buf), p', fp')" for p' fp'
      using "1.IH" [OF refl b, of "int (length ?buf)" p' fp'] csv_parse_inv [OF "1.prems" that]
      by (simp only: not_not simp_thms)
    have "csv_parse cb1_fix cb2_fix us p fp = csv_parse cb1_fix cb2_fix (?buf @ drop 1024 us) p fp" by simp
    also have "\<dots> = c_bind (csv_parse cb1_fix cb2_fix ?buf p fp) (\<lambda>(n, p', d').
        if n = int (length ?buf) then c_bind (csv_parse cb1_fix cb2_fix (drop 1024 us) p' d') (\<lambda>(k, p', d'). Inr (n + k, p', d'))
        else Inr (n, p', d'))"
      by (rule csv_parse_append [OF "1.prems"])
    finally have s: "csv_parse cb1_fix cb2_fix us p fp = \<dots>" .
    show ?thesis
    proof (cases "csv_parse cb1_fix cb2_fix ?buf p fp")
      case (Inl e)
      then show ?thesis using b unfolding s by (subst fix_loop.simps) simp
    next
      case (Inr r)
      obtain n p' fp' where r: "csv_parse cb1_fix cb2_fix ?buf p fp = Inr (n, p', fp')" using Inr by (cases r) auto
      have l: "int (length us) = int (length ?buf) + int (length (drop 1024 us))" by simp
      show ?thesis
      proof (cases "n = int (length ?buf)")
        case True
        show ?thesis
          using b IH [of p' fp'] r True unfolding s l
          by (subst fix_loop.simps) (auto simp: c_bind_assoc split: prod.splits intro!: arg_cong [of _ _ "c_bind _"])
      next
        case False
        moreover have "n \<le> int (length ?buf)" using csv_parse_inv [OF "1.prems" r] by simp
        ultimately have "n \<noteq> int (length us)" by simp
        then show ?thesis using b r False unfolding s by (subst fix_loop.simps) (simp del: length_take)
      qed
    qed
  qed
qed

text \<open>With a memory that never runs out, both the program and the records follow the specification.\<close>

definition never_full :: "(u8 list option \<Rightarrow> int \<Rightarrow> u8 list option) \<Rightarrow> bool" where
  "never_full realloc \<longleftrightarrow> realloc_ok realloc \<and> (\<forall>b k. realloc b k \<noteq> None)"

lemma zero_never_full: "never_full zero_realloc"
  by (simp add: never_full_def zero_realloc_ok)

lemma parse_then_fini:
  assumes "never_full realloc" "int (length text) + 1 < SIZE_MAX"
  shows "\<exists>p q es fs. spec_all (csv_init realloc 0) text = es @ fs \<and>
    (\<forall>d. csv_parse cb1 cb2 text (csv_init realloc 0) d = c_bind (run_events cb1 cb2 es d) (\<lambda>d. Inr (int (length text), p, d))) \<and>
    (\<forall>d. csv_fini cb1 cb2 p d = c_bind (run_events cb1 cb2 fs d) (\<lambda>d. Inr (0, q, d)))"
proof -
  let ?p = "csv_init realloc 0"
  have i: "csv_inv ?p" "memory_for ?p (int (length text))" "abs_of ?p = (ROW_NOT_BEGUN, False, 0, [])"
    using assms init_inv [of realloc 0]
    by (auto simp: never_full_def memory_for_def csv_init_def abs_of_def field_read_def)
  obtain es a where s: "spec_run ?p text (abs_of ?p) = Some (es, a)" using lenient_run [OF lenient_init] by (metis i(3))
  obtain p where p: "csv_inv p" "same_config ?p p" "abs_of p = a"
    "\<forall>d. csv_parse cb1 cb2 text ?p d = c_bind (run_events cb1 cb2 es d) (\<lambda>d. Inr (int (length text), p, d))"
    using csv_parse_refines [OF i(1,2) s, of cb1 cb2] by blast
  have o: "\<not> opt p CSV_STRICT" using p(2) by (simp add: same_config_def opt_def csv_init_def)
  then obtain q where q: "\<forall>d. csv_fini cb1 cb2 p d = c_bind (run_events cb1 cb2 (spec_fini p a) d) (\<lambda>d. Inr (0, q, d))"
    using csv_fini_refines [OF p(1), of cb1 cb2] p(3) by blast
  have "spec_fini p a = spec_fini ?p a"
    using p(2) by (auto simp: spec_fini_def spec_field_def same_config_def opt_def split: prod.splits)
  then have "spec_all ?p text = es @ spec_fini p a" using s i(3) by (simp add: spec_all_def)
  then show ?thesis using p(4) q by blast
qed

lemma csv_records_spec:
  assumes "never_full realloc" "int (length text) + 1 < SIZE_MAX"
  shows "csv_records realloc text = Inr (spec_all (csv_init realloc 0) text)"
proof -
  obtain p q es fs where "spec_all (csv_init realloc 0) text = es @ fs"
    "\<forall>d. csv_parse record_field record_row text (csv_init realloc 0) d = c_bind (run_events record_field record_row es d) (\<lambda>d. Inr (int (length text), p, d))"
    "\<forall>d. csv_fini record_field record_row p d = c_bind (run_events record_field record_row fs d) (\<lambda>d. Inr (0, q, d))"
    using parse_then_fini [OF assms, of record_field record_row] by (elim exE conjE) (rule that)
  then show ?thesis by (simp add: csv_records_def run_recorded)
qed

lemma csv_fix_writes:
  assumes "never_full realloc" "int (length text) + 1 < SIZE_MAX" "contents fs inp = Some text" "inp \<noteq> out" "writable fs out"
    and "spec_all (csv_init realloc 0) text = rows_events rows" "list_all (\<lambda>(ts, c). ts \<noteq> []) rows"
  shows "csv_fix realloc [name, inp, out] fs =
    Inr (0, fs\<lparr>contents := (contents fs)(out \<mapsto> concat (map (row_text \<circ> fst) rows))\<rparr>)"
proof -
  let ?p = "csv_init realloc 0"
  obtain p q es gs where r: "rows_events rows = es @ gs"
    "\<forall>d. csv_parse cb1_fix cb2_fix text ?p d = c_bind (run_events cb1_fix cb2_fix es d) (\<lambda>d. Inr (int (length text), p, d))"
    "\<forall>d. csv_fini cb1_fix cb2_fix p d = c_bind (run_events cb1_fix cb2_fix gs d) (\<lambda>d. Inr (0, q, d))"
    using parse_then_fini [OF assms(1,2), of cb1_fix cb2_fix] unfolding assms(6) by (elim exE conjE) (rule that)
  have w: "run_events cb1_fix cb2_fix (es @ gs) (written_to []) = Inr (written_to (concat (map (row_text \<circ> fst) rows)))"
    using rows_written [OF assms(7), of "[]"] r(1) by (simp add: rows_events_def)
  then obtain d where d: "run_events cb1_fix cb2_fix es (written_to []) = Inr d"
      "run_events cb1_fix cb2_fix gs d = Inr (written_to (concat (map (row_text \<circ> fst) rows)))"
    unfolding run_events_append by (cases "run_events cb1_fix cb2_fix es (written_to [])") auto
  have i: "csv_inv ?p" using init_inv assms(1) by (simp add: never_full_def)
  have "\<lparr>bytes = [], at = 0\<rparr> = written_to []" by (simp add: written_to_def)
  then show ?thesis
    using assms(3-5) r(2,3) d by (simp add: csv_fix_def Let_def fix_loop_parse [OF i]) (simp add: written_to_def)
qed

text \<open>A text written row by row, with every cell in quotes, has these rows.\<close>

lemma spec_all_written:
  assumes "lenient p" "list_all (\<lambda>(ts, c). ts \<noteq> []) rows"
  shows "spec_all p (concat (map (row_text \<circ> fst) rows)) = rows_events (map (\<lambda>(ts, c). (ts, uint CSV_LF)) rows)"
proof -
  let ?cells = "map (map Quoted \<circ> fst) rows"
  have "list_all row_ok ?cells" using assms(2) by (induction rows) (auto simp: row_ok_def list_all_iff)
  moreover have "concat (map (row_text \<circ> fst) rows) = concat (map row_bytes ?cells)" by (simp add: row_text_def comp_def)
  moreover have "concat (map row_events ?cells) = rows_events (map (\<lambda>(ts, c). (ts, uint CSV_LF)) rows)"
    by (induction rows) (auto simp: rows_events_def row_of_def row_events_def)
  moreover have "standard p" using assms(1) by (simp add: lenient_def)
  ultimately show ?thesis using run_rows [of p ?cells] by (simp add: spec_all_def spec_fini_def)
qed

section \<open>Properties\<close>

text \<open>C27: \<open>csv_fix\<close> keeps every record of every input: whatever the bytes of the file, what it writes has the same
  rows with the same fields, each row ended by a line feed and each field in quotes, and a second run over what it
  wrote writes the same bytes again.\<close>

theorem csv_fix_keeps_records:
  assumes "never_full realloc" "contents fs inp = Some text" "writable fs out" "writable fs again"
    and "distinct [inp, out, again]" "3 * int (length text) + 4 < SIZE_MAX"
  shows "\<exists>rows result fs'. csv_records realloc text = Inr (rows_events rows) \<and> list_all (\<lambda>(ts, c). ts \<noteq> []) rows \<and>
    csv_records realloc result = Inr (rows_events (map (\<lambda>(ts, c). (ts, uint CSV_LF)) rows)) \<and>
    csv_fix realloc [name, inp, out] fs = Inr (0, fs') \<and> fs' = fs\<lparr>contents := (contents fs)(out \<mapsto> result)\<rparr> \<and>
    csv_fix realloc [name, out, again] fs' = Inr (0, fs'\<lparr>contents := (contents fs')(again \<mapsto> result)\<rparr>)"
proof -
  let ?p = "csv_init realloc 0"
  obtain rows where r: "spec_all ?p text = rows_events rows" "list_all (\<lambda>(ts, c). ts \<noteq> []) rows" "rows_size rows \<le> 3 * length text + 3"
    using lenient_all [OF lenient_init] by blast
  let ?out = "concat (map (row_text \<circ> fst) rows)" and ?rows = "map (\<lambda>(ts, c). (ts, uint CSV_LF)) rows"
  let ?fs = "fs\<lparr>contents := (contents fs)(out \<mapsto> ?out)\<rparr>"
  have l: "int (length ?out) + 1 < SIZE_MAX" "int (length text) + 1 < SIZE_MAX" using r(3) assms(6) by (simp_all add: rows_size_def)
  have s: "spec_all ?p ?out = rows_events ?rows" by (rule spec_all_written [OF lenient_init r(2)])
  have "list_all (\<lambda>(ts, c). ts \<noteq> []) ?rows" using r(2) by (auto simp: list_all_iff)
  moreover have e: "row_text \<circ> fst \<circ> (\<lambda>(ts, c). (ts, uint CSV_LF)) = row_text \<circ> fst" by auto
  ultimately have "csv_fix realloc [name, out, again] ?fs = Inr (0, ?fs\<lparr>contents := (contents ?fs)(again \<mapsto> ?out)\<rparr>)"
    using csv_fix_writes [OF assms(1) l(1), of ?fs out again ?rows name] s assms(4,5) unfolding map_map e by simp
  moreover have "csv_records realloc text = Inr (rows_events rows)" "csv_records realloc ?out = Inr (rows_events ?rows)"
    using csv_records_spec [OF assms(1)] l s r(1) by simp_all
  moreover have "csv_fix realloc [name, inp, out] fs = Inr (0, ?fs)"
    using csv_fix_writes [OF assms(1) l(2) assms(2) _ assms(3) r(1,2)] assms(5) by simp
  ultimately show ?thesis using r(2) by blast
qed

theorem csv_fix_keeps_records_witness:
  "\<exists>rows result. csv_records zero_realloc (cstr '' a ,\"b,c''  @ [10]) = Inr (rows_events rows) \<and>
     csv_records zero_realloc result = Inr (rows_events (map (\<lambda>(ts, c). (ts, 10)) rows))"
proof -
  let ?text = "cstr '' a ,\"b,c''  @ [10]"
  let ?fs = "\<lparr>contents = [cstr ''in'' \<mapsto> ?text], writable = \<lambda>_. True\<rparr>"
  show ?thesis
    using csv_fix_keeps_records [OF zero_never_full, of ?fs "cstr ''in''" ?text "cstr ''out''" "cstr ''again''" "cstr ''csv_fix''"] by auto
qed

end
