(* ===== verification/Kore_Pool.thy ===== *)
theory Kore_Pool
  imports C_Prelude "HOL-Library.Multiset"
begin

text \<open>
  The memory pools of the web server, \<open>kore-3.2.0/src/pool.c\<close>: elements of one size, cut from regions of
  mapped memory and kept on a free list. The interface \<open>allocator\<close> says what a client may rely on; the
  pool implements it. The build without tasks is modelled, in which the lock is not used.
\<close>

section \<open>The interface of an allocator\<close>

text \<open>A client asks for elements, with a request that may say what it needs, and gives them back.\<close>

datatype ('r, 'p) alloc_call = Get 'r | Put 'p

fun run_calls ::
  "('r \<Rightarrow> 's \<Rightarrow> ('p \<times> 's) c_result) \<Rightarrow> ('p \<Rightarrow> 's \<Rightarrow> 's c_result) \<Rightarrow> ('r, 'p) alloc_call list \<Rightarrow> 's \<Rightarrow> ('p list \<times> 's) c_result" where
  "run_calls get put [] s = Inr ([], s)"
| "run_calls get put (Get r # cs) s =
     c_bind (get r s) (\<lambda>(p, s). c_bind (run_calls get put cs s) (\<lambda>(ps, s). Inr (p # ps, s)))"
| "run_calls get put (Put p # cs) s = c_bind (put p s) (run_calls get put cs)"

fun given_back :: "('r, 'p) alloc_call list \<Rightarrow> 'p list" where
  "given_back [] = []"
| "given_back (Get r # cs) = given_back cs"
| "given_back (Put p # cs) = p # given_back cs"

locale allocator =
  fixes get :: "'r \<Rightarrow> 's \<Rightarrow> ('p \<times> 's) c_result"
    and put :: "'p \<Rightarrow> 's \<Rightarrow> 's c_result"
    and wf :: "'s \<Rightarrow> bool"
    and live :: "'s \<Rightarrow> 'p set"
  assumes finite_live: "wf s \<Longrightarrow> finite (live s)"
    and get_fresh: "wf s \<Longrightarrow> get r s = Inr (p, s') \<Longrightarrow> wf s' \<and> p \<notin> live s \<and> live s' = insert p (live s)"
    and put_live: "wf s \<Longrightarrow> p \<in> live s \<Longrightarrow> \<exists>s'. put p s = Inr s' \<and> wf s' \<and> live s' = live s - {p}"
    and put_dead: "wf s \<Longrightarrow> p \<notin> live s \<Longrightarrow> \<not> c_ok (put p s)"
begin

lemma put_ok: "wf s \<Longrightarrow> put p s = Inr s' \<Longrightarrow> p \<in> live s \<and> wf s' \<and> live s' = live s - {p}"
  using put_live [of s p] put_dead [of s p] by (cases "p \<in> live s") auto

text \<open>No element is given out twice without having been given back: the books balance.\<close>

lemma books_balance:
  "wf s \<Longrightarrow> run_calls get put cs s = Inr (ps, s') \<Longrightarrow>
    wf s' \<and> mset ps + mset_set (live s) = mset (given_back cs) + mset_set (live s')"
proof (induction cs arbitrary: s ps rule: given_back.induct)
  case (2 r cs)
  then obtain p s1 qs where s1: "get r s = Inr (p, s1)" "run_calls get put cs s1 = Inr (qs, s')" "ps = p # qs"
    by (auto simp: c_bind_Inr split: prod.splits)
  then have f: "wf s1" "p \<notin> live s" "live s1 = insert p (live s)" using get_fresh 2(2) by blast+
  then have "mset_set (live s1) = add_mset p (mset_set (live s))" using finite_live [OF 2(2)] by simp
  then show ?case using 2(1) [OF f(1) s1(2)] s1(3) by simp
next
  case (3 p cs)
  then obtain s1 where s1: "put p s = Inr s1" "run_calls get put cs s1 = Inr (ps, s')"
    by (auto simp: c_bind_Inr)
  then have f: "p \<in> live s" "wf s1" "live s1 = live s - {p}" using put_ok 3(2) by blast+
  then have "mset_set (live s) = add_mset p (mset_set (live s1))"
    using finite_live [OF 3(2)] by (metis mset_set.remove)
  then show ?case using 3(1) [OF f(2) s1(2)] by simp
qed simp

end

section \<open>The pool\<close>

datatype elem_state = POOL_ELEMENT_BUSY | POOL_ELEMENT_FREE

text \<open>
  An element is named by the number of its region and its place there; its state is in its header, and
  there is none outside the mapped regions. The list of regions holds their lengths, the newest first.
\<close>

type_synonym pool_entry = "nat \<times> nat"

record kore_pool =
  pool_name :: "u8 list option"
  elms :: int
  inuse :: int
  elen :: int
  slen :: int
  growth :: int
  regions :: "int list"
  freelist :: "pool_entry list"
  entry_state :: "pool_entry \<Rightarrow> elem_state option"

abbreviation (input) POOL_MIN_ELEMENTS :: int where "POOL_MIN_ELEMENTS \<equiv> 16"
abbreviation (input) SIZE_MAX :: int where "SIZE_MAX \<equiv> 0xffffffffffffffff"

text \<open>
  \<open>mmap\<close> is a parameter: whether a mapping of a length is granted. The division by zero elements, which
  no caller asks for, ends the process as \<open>fatal\<close> does.
\<close>

definition pool_region_create :: "(int \<Rightarrow> bool) \<Rightarrow> int \<Rightarrow> kore_pool \<Rightarrow> kore_pool c_result" where
  "pool_region_create mmap n pool =
     (if SIZE_MAX div n < slen pool then Inl Fatal
      else
        let len = n * slen pool; reg = length (regions pool) in
        if \<not> mmap len then Inl Fatal
        else
          c_bind (for_loop 0 n (\<lambda>i pool. let entry = (reg, nat i) in
              Inr (pool\<lparr>entry_state := (entry_state pool)(entry \<mapsto> POOL_ELEMENT_FREE), freelist := entry # freelist pool\<rparr>))
            (pool\<lparr>regions := len # regions pool\<rparr>)) (\<lambda>pool.
          Inr (pool\<lparr>elms := elms pool + n\<rparr>)))"

definition pool_region_destroy :: "kore_pool \<Rightarrow> kore_pool" where
  "pool_region_destroy pool = pool\<lparr>regions := [], freelist := [], entry_state := (\<lambda>_. None), elms := 0\<rparr>"

text \<open>
  The quarter of the number of elements is computed in \<open>float\<close>, exactly for less than 2^24 of them. The
  size of the header, \<open>struct kore_pool_entry\<close>, is a parameter. The length of an element with its header is a \<open>size_t\<close>: a
  wrapped one is too short, and writing the elements of the region leaves it.
\<close>

definition kore_pool_init :: "(int \<Rightarrow> bool) \<Rightarrow> int \<Rightarrow> u8 list \<Rightarrow> int \<Rightarrow> int \<Rightarrow> kore_pool c_result" where
  "kore_pool_init mmap entry_size name len elm =
     (let elm = (if elm < POOL_MIN_ELEMENTS then POOL_MIN_ELEMENTS else elm) in
      c_bind (pool_region_create mmap elm
        \<lparr>pool_name = Some name, elms = 0, inuse = 0, elen = len, slen = (len + entry_size) mod 2 ^ 64, growth = elm div 4,
         regions = [], freelist = [], entry_state = (\<lambda>_. None)\<rparr>) (\<lambda>pool.
      if slen pool < len + entry_size then Inl Out_Of_Bounds else Inr pool))"

definition kore_pool_cleanup :: "kore_pool \<Rightarrow> kore_pool" where
  "kore_pool_cleanup pool = pool_region_destroy (pool\<lparr>elms := 0, inuse := 0, elen := 0, slen := 0, pool_name := None\<rparr>)"

definition kore_pool_get :: "(int \<Rightarrow> bool) \<Rightarrow> kore_pool \<Rightarrow> (pool_entry \<times> kore_pool) c_result" where
  "kore_pool_get mmap pool =
     c_bind (if freelist pool = [] then pool_region_create mmap (growth pool) pool else Inr pool) (\<lambda>pool.
     case freelist pool of
       [] \<Rightarrow> Inl Out_Of_Bounds
     | entry # rest \<Rightarrow>
         if entry_state pool entry \<noteq> Some POOL_ELEMENT_FREE then Inl Fatal
         else Inr (entry, pool\<lparr>freelist := rest, entry_state := (entry_state pool)(entry \<mapsto> POOL_ELEMENT_BUSY),
                inuse := inuse pool + 1\<rparr>))"

definition kore_pool_put :: "pool_entry \<Rightarrow> kore_pool \<Rightarrow> kore_pool c_result" where
  "kore_pool_put entry pool =
     (if entry_state pool entry = None then Inl Out_Of_Bounds
      else if entry_state pool entry \<noteq> Some POOL_ELEMENT_BUSY then Inl Fatal
      else Inr (pool\<lparr>entry_state := (entry_state pool)(entry \<mapsto> POOL_ELEMENT_FREE), freelist := entry # freelist pool,
             inuse := inuse pool - 1\<rparr>))"

section \<open>Well-formed pools\<close>

definition busy :: "kore_pool \<Rightarrow> pool_entry set" where
  "busy pool = {e. entry_state pool e = Some POOL_ELEMENT_BUSY}"

definition pool_inv :: "kore_pool \<Rightarrow> bool" where
  "pool_inv pool \<longleftrightarrow> distinct (freelist pool) \<and> set (freelist pool) = {e. entry_state pool e = Some POOL_ELEMENT_FREE} \<and>
     finite (busy pool) \<and> inuse pool = int (card (busy pool)) \<and> elms pool = inuse pool + int (length (freelist pool)) \<and>
     (\<forall>r i. entry_state pool (r, i) \<noteq> None \<longrightarrow> r < length (regions pool)) \<and> 0 < growth pool \<and> 0 < slen pool"

text \<open>A new region adds its elements to the free list and changes nothing else.\<close>

definition with_region :: "nat \<Rightarrow> nat \<Rightarrow> (pool_entry \<Rightarrow> elem_state option) \<Rightarrow> pool_entry \<Rightarrow> elem_state option" where
  "with_region reg k st e = (if fst e = reg \<and> snd e < k then Some POOL_ELEMENT_FREE else st e)"

definition region_list :: "nat \<Rightarrow> nat \<Rightarrow> pool_entry list" where
  "region_list reg k = rev (map (\<lambda>i. (reg, i)) [0..<k])"

lemma region_list_simps: "set (region_list reg k) = {reg} \<times> {0..<k}" "length (region_list reg k) = k" "distinct (region_list reg k)"
  by (auto simp: region_list_def distinct_map inj_on_def)

lemma region_entries:
  "for_loop 0 (int k) (\<lambda>i pool. let entry = (reg, nat i) in
      Inr (pool\<lparr>entry_state := (entry_state pool)(entry \<mapsto> POOL_ELEMENT_FREE), freelist := entry # freelist pool\<rparr>)) pool =
    Inr (pool\<lparr>entry_state := with_region reg k (entry_state pool), freelist := region_list reg k @ freelist pool\<rparr>)"
proof -
  let ?I = "\<lambda>i p. p = pool\<lparr>entry_state := with_region reg (nat i) (entry_state pool), freelist := region_list reg (nat i) @ freelist pool\<rparr>"
  have "\<exists>p. for_loop 0 (int k) (\<lambda>i pool. let entry = (reg, nat i) in
      Inr (pool\<lparr>entry_state := (entry_state pool)(entry \<mapsto> POOL_ELEMENT_FREE), freelist := entry # freelist pool\<rparr>)) pool = Inr p \<and> ?I (int k) p"
  proof (rule for_loop_inv [where I = ?I])
    fix i :: int and p assume i: "0 \<le> i" "i < int k" and p: "?I i p"
    have n: "nat (i + 1) = Suc (nat i)" using i by simp
    have "(with_region reg (nat i) (entry_state pool))((reg, nat i) \<mapsto> POOL_ELEMENT_FREE) = with_region reg (nat (i + 1)) (entry_state pool)"
      using n by (auto simp: fun_eq_iff with_region_def)
    then show "\<exists>p'. (let entry = (reg, nat i) in Inr (p\<lparr>entry_state := (entry_state p)(entry \<mapsto> POOL_ELEMENT_FREE), freelist := entry # freelist p\<rparr>)) = Inr p' \<and>
        ?I (i + 1) p'"
      using p n by (simp add: Let_def region_list_def)
  next
    have "with_region reg 0 (entry_state pool) = entry_state pool" by (simp add: fun_eq_iff with_region_def)
    then show "?I 0 pool" by (simp add: region_list_def)
  qed simp
  then show ?thesis by simp
qed

lemma region_create_cases:
  assumes "0 \<le> n"
  shows "pool_region_create mmap n pool =
    (if SIZE_MAX div n < slen pool \<or> \<not> mmap (n * slen pool) then Inl Fatal
     else Inr (pool\<lparr>regions := n * slen pool # regions pool, elms := elms pool + n,
       entry_state := with_region (length (regions pool)) (nat n) (entry_state pool),
       freelist := region_list (length (regions pool)) (nat n) @ freelist pool\<rparr>))"
  using region_entries [of "nat n" "length (regions pool)" "pool\<lparr>regions := n * slen pool # regions pool\<rparr>"] assms
  by (simp add: pool_region_create_def Let_def)

lemma region_create_inv:
  assumes "pool_inv pool" "0 < n" "pool_region_create mmap n pool = Inr pool'"
  shows "pool_inv pool' \<and> busy pool' = busy pool \<and> freelist pool' \<noteq> [] \<and> growth pool' = growth pool \<and> slen pool' = slen pool"
proof -
  let ?reg = "length (regions pool)"
  have p': "pool' = pool\<lparr>regions := n * slen pool # regions pool, elms := elms pool + n,
       entry_state := with_region ?reg (nat n) (entry_state pool), freelist := region_list ?reg (nat n) @ freelist pool\<rparr>"
    using assms by (simp add: region_create_cases split: if_splits)
  have u: "entry_state pool (?reg, i) = None" for i using assms(1) by (fastforce simp: pool_inv_def)
  have "busy pool' = busy pool" using u by (auto simp: busy_def p' with_region_def)
  moreover have "freelist pool' \<noteq> []" using assms(2) region_list_simps(2) [of ?reg "nat n"] by (auto simp: p')
  moreover have "set (freelist pool') = {e. entry_state pool' e = Some POOL_ELEMENT_FREE}"
    using assms(1) by (auto simp: p' pool_inv_def region_list_simps with_region_def)
  moreover have "distinct (freelist pool')"
    using assms(1) u by (auto simp: p' pool_inv_def region_list_simps)
  moreover have "\<forall>r i. entry_state pool' (r, i) \<noteq> None \<longrightarrow> r < length (regions pool')"
  proof (intro allI impI)
    fix r i assume "entry_state pool' (r, i) \<noteq> None"
    then have "r = ?reg \<or> entry_state pool (r, i) \<noteq> None" by (auto simp: p' with_region_def split: if_splits)
    then have "r = ?reg \<or> r < ?reg" using assms(1) unfolding pool_inv_def by blast
    then show "r < length (regions pool')" by (auto simp: p')
  qed
  moreover have "elms pool' = elms pool + n" "length (freelist pool') = nat n + length (freelist pool)" "inuse pool' = inuse pool"
    "growth pool' = growth pool" "slen pool' = slen pool"
    by (simp_all add: p' region_list_simps)
  ultimately show ?thesis using assms(1,2) unfolding pool_inv_def by simp
qed

lemma pool_init_inv:
  assumes "0 < len" "0 \<le> entry_size" "kore_pool_init mmap entry_size name len elm = Inr pool"
  shows "pool_inv pool \<and> busy pool = {} \<and> slen pool = len + entry_size \<and>
    growth pool = (if elm < POOL_MIN_ELEMENTS then POOL_MIN_ELEMENTS else elm) div 4"
proof -
  let ?elm = "if elm < 16 then 16 else elm"
  let ?p = "\<lparr>pool_name = Some name, elms = 0, inuse = 0, elen = len, slen = (len + entry_size) mod 2 ^ 64, growth = ?elm div 4,
     regions = [], freelist = [], entry_state = (\<lambda>_. None)\<rparr>"
  have r: "pool_region_create mmap ?elm ?p = Inr pool" "len + entry_size \<le> slen pool"
    using assms(3) by (auto simp: kore_pool_init_def Let_def c_bind_Inr simp del: power_numeral split: if_splits)
  moreover have "slen pool = (len + entry_size) mod 2 ^ 64"
    using r(1) by (auto simp: region_create_cases split: if_splits)
  moreover have "(len + entry_size) mod 2 ^ 64 \<le> len + entry_size" using assms(1,2) by (intro zmod_le_nonneg_dividend) simp
  ultimately have s: "(len + entry_size) mod 2 ^ 64 = len + entry_size" by linarith
  then have "pool_inv ?p" "busy ?p = {}" unfolding s using assms(1,2) by (auto simp: pool_inv_def busy_def)
  then show ?thesis using region_create_inv [of ?p ?elm mmap pool] r(1) s by simp
qed

lemma pool_get_inv:
  assumes "pool_inv pool" "kore_pool_get mmap pool = Inr (e, pool')"
  shows "pool_inv pool' \<and> e \<notin> busy pool \<and> busy pool' = insert e (busy pool) \<and> growth pool' = growth pool \<and> slen pool' = slen pool"
proof -
  obtain p1 where p1: "(if freelist pool = [] then pool_region_create mmap (growth pool) pool else Inr pool) = Inr p1"
    "(case freelist p1 of [] \<Rightarrow> Inl Out_Of_Bounds
     | entry # rest \<Rightarrow> if entry_state p1 entry \<noteq> Some POOL_ELEMENT_FREE then Inl Fatal
         else Inr (entry, p1\<lparr>freelist := rest, entry_state := (entry_state p1)(entry \<mapsto> POOL_ELEMENT_BUSY), inuse := inuse p1 + 1\<rparr>)) = Inr (e, pool')"
    using assms(2) by (auto simp: kore_pool_get_def c_bind_Inr)
  have i: "pool_inv p1" "busy p1 = busy pool" "growth p1 = growth pool" "slen p1 = slen pool"
    using p1(1) assms(1) region_create_inv [OF assms(1), of "growth pool" mmap p1] by (auto simp: pool_inv_def split: if_splits)
  obtain rest where f: "freelist p1 = e # rest" "entry_state p1 e = Some POOL_ELEMENT_FREE"
    "pool' = p1\<lparr>freelist := rest, entry_state := (entry_state p1)(e \<mapsto> POOL_ELEMENT_BUSY), inuse := inuse p1 + 1\<rparr>"
    using p1(2) by (auto split: list.splits if_splits)
  have b: "e \<notin> busy p1" "busy pool' = insert e (busy p1)" using f(2) by (auto simp: busy_def f(3))
  have "set rest = set (freelist p1) - {e}" using i(1) f(1) by (auto simp: pool_inv_def)
  then have "set (freelist pool') = {x. entry_state pool' x = Some POOL_ELEMENT_FREE}"
    using i(1) by (auto simp: pool_inv_def f(3))
  moreover have "\<forall>r k. entry_state pool' (r, k) \<noteq> None \<longrightarrow> r < length (regions pool')"
    using i(1) f(2) by (auto simp: pool_inv_def f(3))
  ultimately show ?thesis using i b f(1) by (auto simp: pool_inv_def f(3))
qed

lemma pool_put_live:
  assumes "pool_inv pool" "e \<in> busy pool"
  shows "\<exists>pool'. kore_pool_put e pool = Inr pool' \<and> pool_inv pool' \<and> busy pool' = busy pool - {e}"
proof -
  let ?p = "pool\<lparr>entry_state := (entry_state pool)(e \<mapsto> POOL_ELEMENT_FREE), freelist := e # freelist pool, inuse := inuse pool - 1\<rparr>"
  have s: "entry_state pool e = Some POOL_ELEMENT_BUSY" using assms(2) by (simp add: busy_def)
  have b: "busy ?p = busy pool - {e}" by (auto simp: busy_def)
  have "0 < card (busy pool)" using assms by (auto simp: pool_inv_def card_gt_0_iff)
  then have c: "int (card (busy pool - {e})) = int (card (busy pool)) - 1" using assms(2) by (simp add: card_Diff_singleton)
  have "set (freelist ?p) = {x. entry_state ?p x = Some POOL_ELEMENT_FREE}" using assms(1) by (auto simp: pool_inv_def)
  moreover have "distinct (freelist ?p)" using assms(1) s by (simp add: pool_inv_def)
  moreover have "\<forall>r k. entry_state ?p (r, k) \<noteq> None \<longrightarrow> r < length (regions ?p)"
    using assms(1) s by (auto simp: pool_inv_def)
  ultimately have "pool_inv ?p" using assms(1) b c unfolding pool_inv_def by simp
  then show ?thesis using s b by (simp add: kore_pool_put_def)
qed

interpretation pool: allocator "\<lambda>_ :: unit. kore_pool_get mmap" kore_pool_put pool_inv busy
proof
  show "pool_inv s \<Longrightarrow> finite (busy s)" for s by (simp add: pool_inv_def)
  show "pool_inv s \<Longrightarrow> kore_pool_get mmap s = Inr (p, s') \<Longrightarrow> pool_inv s' \<and> p \<notin> busy s \<and> busy s' = insert p (busy s)" for s p s'
    using pool_get_inv by blast
  show "pool_inv s \<Longrightarrow> p \<in> busy s \<Longrightarrow> \<exists>s'. kore_pool_put p s = Inr s' \<and> pool_inv s' \<and> busy s' = busy s - {p}" for s p
    by (rule pool_put_live)
  show "pool_inv s \<Longrightarrow> p \<notin> busy s \<Longrightarrow> \<not> c_ok (kore_pool_put p s)" for s p
    by (cases "entry_state s p") (auto simp: busy_def kore_pool_put_def)
qed

text \<open>When memory can be mapped, an element is always found.\<close>

lemma pool_get_total:
  assumes "pool_inv pool" "\<And>n. mmap n" "growth pool * slen pool \<le> SIZE_MAX"
  shows "c_ok (kore_pool_get mmap pool)"
proof -
  have g: "0 < growth pool" "0 < slen pool" using assms(1) by (simp_all add: pool_inv_def)
  have "slen pool \<le> SIZE_MAX div growth pool" 
    using zdiv_mono1 [OF assms(3) g(1)] g(1) by simp
  then have "\<exists>p1. (if freelist pool = [] then pool_region_create mmap (growth pool) pool else Inr pool) = Inr p1"
    using assms(2) g by (cases "freelist pool = []") (simp_all add: region_create_cases)
  then obtain p1 where p1: "(if freelist pool = [] then pool_region_create mmap (growth pool) pool else Inr pool) = Inr p1" by blast
  then have "pool_inv p1 \<and> freelist p1 \<noteq> []"
    using assms(1) region_create_inv [OF assms(1) g(1), of mmap p1] by (auto split: if_splits)
  moreover from this have "entry_state p1 (hd (freelist p1)) = Some POOL_ELEMENT_FREE"
    by (auto simp: pool_inv_def)
  ultimately show ?thesis using p1 by (cases "freelist p1") (simp_all add: kore_pool_get_def)
qed

section \<open>Properties\<close>

text \<open>C28: Through any sequence of calls on a pool that \<open>kore_pool_init\<close> made, the elements handed out are those given
  back and those still in use, so no element is in two hands; the counters count them, the free list holds the rest,
  and exactly an element in use can be given back.\<close>

theorem pool_books_balance:
  assumes "0 < len" "0 \<le> entry_size" "kore_pool_init mmap entry_size name len elm = Inr pool"
    and "run_calls (\<lambda>_ :: unit. kore_pool_get mmap) kore_pool_put calls pool = Inr (es, pool')"
  shows "mset es = mset (given_back calls) + mset_set (busy pool') \<and> inuse pool' = int (card (busy pool')) \<and>
    elms pool' = inuse pool' + int (length (freelist pool')) \<and> distinct (freelist pool') \<and>
    busy pool' \<inter> set (freelist pool') = {} \<and> (\<forall>e. c_ok (kore_pool_put e pool') \<longleftrightarrow> e \<in> busy pool')"
proof -
  have p: "pool_inv pool" "busy pool = {}" using pool_init_inv [OF assms(1-3)] by simp_all
  have b: "pool_inv pool'" "mset es = mset (given_back calls) + mset_set (busy pool')"
    using pool.books_balance [OF p(1) assms(4)] p(2) by simp_all
  moreover have "c_ok (kore_pool_put e pool') \<longleftrightarrow> e \<in> busy pool'" for e
    using pool.put_live [OF b(1), of e] pool.put_dead [OF b(1), of e] by (auto simp: c_ok_def)
  ultimately show ?thesis by (auto simp: pool_inv_def busy_def)
qed

theorem pool_books_balance_witness:
  "\<exists>pool pool'. kore_pool_init (\<lambda>_. True) 24 [] 8 16 = Inr pool \<and>
     run_calls (\<lambda>_ :: unit. kore_pool_get (\<lambda>_. True)) kore_pool_put [Get (), Get (), Put (0, 15)] pool = Inr ([(0, 15), (0, 14)], pool') \<and>
     busy pool' = {(0, 14)}"
proof -
  have l: "region_list 0 16 = [(0,15),(0,14),(0,13),(0,12),(0,11),(0,10),(0,9),(0,8),(0,7),(0,6),(0,5),(0,4),(0,3),(0,2),(0,1),(0,0)]"
    by (simp add: region_list_def upt_rec)
  obtain pool where p: "kore_pool_init (\<lambda>_. True) 24 [] 8 16 = Inr pool"
    "entry_state pool = with_region 0 16 (\<lambda>_. None)" "freelist pool = region_list 0 16"
    by (simp add: kore_pool_init_def region_create_cases)
  have s: "entry_state pool (0, 15) = Some POOL_ELEMENT_FREE" "entry_state pool (0, 14) = Some POOL_ELEMENT_FREE"
    by (simp_all add: p(2) with_region_def)
  obtain pool' where r: "run_calls (\<lambda>_ :: unit. kore_pool_get (\<lambda>_. True)) kore_pool_put [Get (), Get (), Put (0, 15)] pool = Inr ([(0, 15), (0, 14)], pool')"
    using s by (simp add: kore_pool_get_def kore_pool_put_def p(3) l)
  have "mset_set (busy pool') = {#(0, 14)#}" and "inuse pool' = int (card (busy pool'))"
    using pool_books_balance [OF _ _ p(1) r] by simp_all
  moreover from this have "finite (busy pool')" by (metis mset_set.infinite multi_self_add_other_not_self add_mset_eq_singleton_iff empty_not_add_mset)
  ultimately have "busy pool' = {(0, 14)}" by (metis finite_set_mset_mset_set set_mset_single)
  then show ?thesis using p(1) r by blast
qed

end
