(* ===== verification/Kore_Mem.thy ===== *)
theory Kore_Mem
  imports Kore_Pool
begin

text \<open>
  The memory of the web server, \<open>kore-3.2.0/src/mem.c\<close>: blocks of up to 8192 bytes come from eleven pools
  of sizes 8, 16, ..., larger ones from \<open>calloc\<close>; a block has its length before it and a mark after it, and may
  carry a tag by which it is found. A \<open>size_t\<close> has eight bytes.
\<close>

section \<open>State\<close>

text \<open>
  A block is named by its pool and element, or by the number of the \<open>calloc\<close> call. What stands around and
  in a block: a byte that was never written is \<open>None\<close>. A freed block of a pool keeps it until it is
  reused.
\<close>

datatype kptr = Small nat pool_entry | Large nat

record meminfo =
  memsize :: int
  tagged :: bool
  magic :: u16
  cells :: "u8 option list"

record kore_tag =
  tag_ptr :: kptr
  tag_id :: u32
  tag_entry :: pool_entry

record kore_heap =
  blocks :: "kore_pool list"
  tag_pool :: kore_pool
  tags :: "kore_tag list"
  info :: "kptr \<Rightarrow> meminfo option"
  callocs :: nat

abbreviation (input) KORE_MEM_BLOCKS :: nat where "KORE_MEM_BLOCKS \<equiv> 11"
abbreviation (input) KORE_MEM_BLOCK_SIZE_MAX :: int where "KORE_MEM_BLOCK_SIZE_MAX \<equiv> 8192"
abbreviation (input) KORE_MEM_MAGIC :: u16 where "KORE_MEM_MAGIC \<equiv> 0xd0d0"

section \<open>Operations\<close>

function memblock_loop :: "nat \<Rightarrow> int \<Rightarrow> int \<Rightarrow> nat" where
  "memblock_loop idx mlen len = (if 0 < mlen \<and> mlen < len then memblock_loop (idx + 1) (2 * mlen) len else idx)"
  by pat_completeness auto
termination
  by (relation "measure (\<lambda>(_, mlen, len). nat (len - mlen))") auto

declare memblock_loop.simps [simp del]

definition memblock_index :: "int \<Rightarrow> nat c_result" where
  "memblock_index len =
     (let idx = memblock_loop 0 8 len in if idx > KORE_MEM_BLOCKS - 1 then Inl Fatal else Inr idx)"

text \<open>The sizes of \<open>struct tag\<close> and of the header of an element are parameters, as are the answers of \<open>mmap\<close> and \<open>calloc\<close>.\<close>

fun init_blocks :: "(int \<Rightarrow> bool) \<Rightarrow> int \<Rightarrow> (nat \<Rightarrow> u8 list) \<Rightarrow> nat \<Rightarrow> int \<Rightarrow> kore_pool list c_result" where
  "init_blocks mmap entry_size name 0 bsize = Inr []"
| "init_blocks mmap entry_size name (Suc n) bsize =
     (let elm = (128 * 1024) div bsize; mlen = (8 + bsize + 4 + 8) div 8 * 8 in
      c_bind (kore_pool_init mmap entry_size (name (nat bsize)) mlen elm) (\<lambda>pool.
      c_bind (init_blocks mmap entry_size name n (2 * bsize)) (\<lambda>pools. Inr (pool # pools))))"

definition kore_mem_init :: "(int \<Rightarrow> bool) \<Rightarrow> int \<Rightarrow> int \<Rightarrow> (nat \<Rightarrow> u8 list) \<Rightarrow> kore_heap c_result" where
  "kore_mem_init mmap entry_size tag_size name =
     c_bind (kore_pool_init mmap entry_size (cstr ''tag_pool'') tag_size 100) (\<lambda>tag_pool.
     c_bind (init_blocks mmap entry_size name KORE_MEM_BLOCKS 8) (\<lambda>blocks.
     Inr \<lparr>blocks = blocks, tag_pool = tag_pool, tags = [], info = (\<lambda>_. None), callocs = 0\<rparr>))"

definition kore_mem_cleanup :: "kore_heap \<Rightarrow> kore_heap" where
  "kore_mem_cleanup h = h\<lparr>blocks := map kore_pool_cleanup (blocks h)\<rparr>"

text \<open>The memory of a \<open>calloc\<close> call: its length, which the sum may wrap; a wrapped one is too short for the block.\<close>

definition kore_malloc :: "(int \<Rightarrow> bool) \<Rightarrow> (int \<Rightarrow> bool) \<Rightarrow> int \<Rightarrow> kore_heap \<Rightarrow> (kptr \<times> kore_heap) c_result" where
  "kore_malloc mmap calloc len h =
     (let len = (if len = 0 then 8 else len) in
      if len \<le> KORE_MEM_BLOCK_SIZE_MAX then
        c_bind (memblock_index len) (\<lambda>idx.
        c_bind (arr_get (blocks h) (int idx)) (\<lambda>pool.
        c_bind (kore_pool_get mmap pool) (\<lambda>(e, pool).
        Inr (Small idx e, h\<lparr>blocks := (blocks h)[idx := pool],
               info := (info h)(Small idx e \<mapsto> \<lparr>memsize = len, tagged = False, magic = KORE_MEM_MAGIC,
                 cells = replicate (nat len) None\<rparr>)\<rparr>))))
      else
        let mlen = (8 + len + 4) mod 2 ^ 64 in
        if \<not> calloc mlen then Inl Fatal
        else if mlen < len + 12 then Inl Out_Of_Bounds
        else
          let p = Large (callocs h) in
          Inr (p, h\<lparr>callocs := callocs h + 1,
                 info := (info h)(p \<mapsto> \<lparr>memsize = len, tagged = False, magic = KORE_MEM_MAGIC,
                   cells = replicate (nat len) (Some 0)\<rparr>)\<rparr>))"

definition KORE_MEMINFO :: "kptr \<Rightarrow> kore_heap \<Rightarrow> meminfo c_result" where
  "KORE_MEMINFO ptr h = (case info h ptr of None \<Rightarrow> Inl Out_Of_Bounds | Some m \<Rightarrow> Inr m)"

fun untag_first :: "kptr \<Rightarrow> kore_tag list \<Rightarrow> (kore_tag \<times> kore_tag list) option" where
  "untag_first ptr [] = None"
| "untag_first ptr (t # ts) =
     (if tag_ptr t = ptr then Some (t, ts)
      else case untag_first ptr ts of None \<Rightarrow> None | Some (u, us) \<Rightarrow> Some (u, t # us))"

definition kore_mem_untag :: "kptr \<Rightarrow> kore_heap \<Rightarrow> kore_heap c_result" where
  "kore_mem_untag ptr h =
     (case untag_first ptr (tags h) of
        None \<Rightarrow> Inr h
      | Some (t, ts) \<Rightarrow> c_bind (kore_pool_put (tag_entry t) (tag_pool h)) (\<lambda>pool. Inr (h\<lparr>tags := ts, tag_pool := pool\<rparr>)))"

definition kore_mem_lookup :: "u32 \<Rightarrow> kore_heap \<Rightarrow> kptr option" where
  "kore_mem_lookup tid h = map_option tag_ptr (find (\<lambda>t. tag_id t = tid) (tags h))"

definition kore_mem_tag :: "(int \<Rightarrow> bool) \<Rightarrow> kptr \<Rightarrow> u32 \<Rightarrow> kore_heap \<Rightarrow> kore_heap c_result" where
  "kore_mem_tag mmap ptr tid h =
     (if kore_mem_lookup tid h \<noteq> None then Inl Fatal
      else c_bind (KORE_MEMINFO ptr h) (\<lambda>mem.
        if magic mem \<noteq> KORE_MEM_MAGIC then Inl Fatal
        else c_bind (kore_pool_get mmap (tag_pool h)) (\<lambda>(e, pool).
          Inr (h\<lparr>info := (info h)(ptr \<mapsto> mem\<lparr>tagged := True\<rparr>), tag_pool := pool,
                 tags := tags h @ [\<lparr>tag_ptr = ptr, tag_id = tid, tag_entry = e\<rparr>]\<rparr>))))"

definition kore_malloc_tagged :: "(int \<Rightarrow> bool) \<Rightarrow> (int \<Rightarrow> bool) \<Rightarrow> int \<Rightarrow> u32 \<Rightarrow> kore_heap \<Rightarrow> (kptr \<times> kore_heap) c_result" where
  "kore_malloc_tagged mmap calloc len tag h =
     c_bind (kore_malloc mmap calloc len h) (\<lambda>(ptr, h). c_bind (kore_mem_tag mmap ptr tag h) (\<lambda>h. Inr (ptr, h)))"

text \<open>\<open>kore_free\<close> of a pointer that is not NULL; NULL is ignored. A large block goes back to the C library.\<close>

definition kore_free :: "kptr \<Rightarrow> kore_heap \<Rightarrow> kore_heap c_result" where
  "kore_free ptr h =
     c_bind (KORE_MEMINFO ptr h) (\<lambda>mem.
     if magic mem \<noteq> KORE_MEM_MAGIC then Inl Fatal
     else
       c_bind (if tagged mem
               then c_bind (kore_mem_untag ptr h) (\<lambda>h. Inr (h\<lparr>info := (info h)(ptr \<mapsto> mem\<lparr>tagged := False\<rparr>)\<rparr>))
               else Inr h) (\<lambda>h.
       case ptr of
         Small i e \<Rightarrow>
           c_bind (memblock_index (memsize mem)) (\<lambda>idx.
           c_bind (arr_get (blocks h) (int idx)) (\<lambda>pool.
           c_bind (kore_pool_put e pool) (\<lambda>pool. Inr (h\<lparr>blocks := (blocks h)[idx := pool]\<rparr>))))
       | Large n \<Rightarrow> Inr (h\<lparr>info := (info h)(ptr := None)\<rparr>)))"

definition kore_realloc :: "(int \<Rightarrow> bool) \<Rightarrow> (int \<Rightarrow> bool) \<Rightarrow> kptr option \<Rightarrow> int \<Rightarrow> kore_heap \<Rightarrow> (kptr \<times> kore_heap) c_result" where
  "kore_realloc mmap calloc ptr len h =
     (case ptr of
        None \<Rightarrow> kore_malloc mmap calloc len h
      | Some ptr \<Rightarrow>
          c_bind (KORE_MEMINFO ptr h) (\<lambda>mem.
          if len = memsize mem then Inr (ptr, h)
          else if magic mem \<noteq> KORE_MEM_MAGIC then Inl Fatal
          else
            c_bind (kore_malloc mmap calloc len h) (\<lambda>(nptr, h).
            c_bind (KORE_MEMINFO nptr h) (\<lambda>nmem.
            let n = nat (min len (memsize mem)) in
            c_bind (kore_free ptr (h\<lparr>info := (info h)(nptr \<mapsto> nmem\<lparr>cells := take n (cells mem) @ drop n (cells nmem)\<rparr>)\<rparr>)) (\<lambda>h.
            Inr (nptr, h))))))"

text \<open>The quotient by \<open>memb = 0\<close> is a division by zero, which ends the process as \<open>fatal\<close> does.\<close>

definition kore_calloc :: "(int \<Rightarrow> bool) \<Rightarrow> (int \<Rightarrow> bool) \<Rightarrow> int \<Rightarrow> int \<Rightarrow> kore_heap \<Rightarrow> (kptr \<times> kore_heap) c_result" where
  "kore_calloc mmap calloc memb len h =
     (if memb = 0 \<or> SIZE_MAX div memb < len then Inl Fatal
      else
        let total = memb * len in
        c_bind (kore_malloc mmap calloc total h) (\<lambda>(ptr, h).
        c_bind (KORE_MEMINFO ptr h) (\<lambda>mem.
        Inr (ptr, h\<lparr>info := (info h)(ptr \<mapsto> mem\<lparr>cells := replicate (nat total) (Some 0) @ drop (nat total) (cells mem)\<rparr>)\<rparr>))))"

section \<open>The size classes\<close>

lemma memblock_loop_least:
  assumes "0 < mlen" "len \<le> mlen * 2 ^ k"
  shows "memblock_loop idx mlen len \<le> idx + k \<and> len \<le> mlen * 2 ^ (memblock_loop idx mlen len - idx) \<and> idx \<le> memblock_loop idx mlen len"
  using assms
proof (induction idx mlen len arbitrary: k rule: memblock_loop.induct)
  case (1 idx mlen len)
  show ?case
  proof (cases "mlen < len")
    case True
    then obtain j where j: "k = Suc j" using 1(3) by (cases k) auto
    have "len \<le> 2 * mlen * 2 ^ j" using 1(3) j by (simp add: mult.commute mult.left_commute)
    then have IH: "memblock_loop (idx + 1) (2 * mlen) len \<le> idx + 1 + j"
      "len \<le> 2 * mlen * 2 ^ (memblock_loop (idx + 1) (2 * mlen) len - (idx + 1))" "idx + 1 \<le> memblock_loop (idx + 1) (2 * mlen) len"
      using 1(1) [of j] 1(2) True by simp_all
    have l: "memblock_loop idx mlen len = memblock_loop (idx + 1) (2 * mlen) len"
      using 1(2) True by (subst memblock_loop.simps) simp
    have "memblock_loop (idx + 1) (2 * mlen) len - idx = Suc (memblock_loop (idx + 1) (2 * mlen) len - (idx + 1))" using IH(3) by simp
    then show ?thesis unfolding l using IH j by (simp add: mult.commute mult.left_commute)
  next
    case False
    then have "memblock_loop idx mlen len = idx" by (subst memblock_loop.simps) simp
    then show ?thesis using False by simp
  qed
qed

text \<open>A block of a pool is long enough for every request that is sent to it.\<close>

lemma memblock_index_fits:
  assumes "len \<le> KORE_MEM_BLOCK_SIZE_MAX"
  shows "\<exists>idx. memblock_index len = Inr idx \<and> idx < KORE_MEM_BLOCKS \<and> len \<le> 8 * 2 ^ idx"
proof -
  have "len \<le> 8 * 2 ^ 10" using assms by simp
  then show ?thesis using memblock_loop_least [of 8 len 10 0] by (simp add: memblock_index_def)
qed

section \<open>Well-formed heaps\<close>

definition live :: "kore_heap \<Rightarrow> kptr set" where
  "live h = {Small i e |i e. i < length (blocks h) \<and> e \<in> busy (blocks h ! i)} \<union> {Large n |n. info h (Large n) \<noteq> None}"

definition block_ok :: "kptr \<Rightarrow> meminfo \<Rightarrow> bool" where
  "block_ok p m \<longleftrightarrow> magic m = KORE_MEM_MAGIC \<and> 0 < memsize m \<and> length (cells m) = nat (memsize m) \<and>
     (\<forall>i e. p = Small i e \<longrightarrow> memblock_index (memsize m) = Inr i)"

definition tags_ok :: "kore_heap \<Rightarrow> bool" where
  "tags_ok h \<longleftrightarrow> pool_inv (tag_pool h) \<and> distinct (map tag_entry (tags h)) \<and> set (map tag_entry (tags h)) \<subseteq> busy (tag_pool h)"

definition heap_inv :: "kore_heap \<Rightarrow> bool" where
  "heap_inv h \<longleftrightarrow> length (blocks h) = KORE_MEM_BLOCKS \<and> (\<forall>pool \<in> set (blocks h). pool_inv pool) \<and> tags_ok h \<and>
     (\<forall>p \<in> live h. info h p \<noteq> None) \<and> (\<forall>p m. info h p = Some m \<longrightarrow> block_ok p m) \<and> (\<forall>n \<ge> callocs h. info h (Large n) = None)"

lemma live_Small [simp]: "Small i e \<in> live h \<longleftrightarrow> i < length (blocks h) \<and> e \<in> busy (blocks h ! i)"
  by (cases e) (auto simp: live_def)

lemma live_Large [simp]: "Large n \<in> live h \<longleftrightarrow> info h (Large n) \<noteq> None"
  by (simp add: live_def)

lemma finite_live:
  assumes "heap_inv h"
  shows "finite (live h)"
proof -
  have "finite (busy (blocks h ! i))" if "i < length (blocks h)" for i
    using assms that by (auto simp: heap_inv_def pool_inv_def)
  then have "finite (\<Union>i \<in> {..<length (blocks h)}. Small i ` busy (blocks h ! i))" by auto
  moreover have "finite (Large ` {..<callocs h})" by simp
  moreover have "live h \<subseteq> (\<Union>i \<in> {..<length (blocks h)}. Small i ` busy (blocks h ! i)) \<union> Large ` {..<callocs h}"
  proof
    fix p assume p: "p \<in> live h"
    show "p \<in> (\<Union>i \<in> {..<length (blocks h)}. Small i ` busy (blocks h ! i)) \<union> Large ` {..<callocs h}"
    proof (cases p)
      case (Large n)
      then have "\<not> callocs h \<le> n" using p assms by (auto simp: heap_inv_def)
      then show ?thesis using Large by simp
    next
      case (Small i e)
      then have "i \<in> {..<length (blocks h)}" "p \<in> Small i ` busy (blocks h ! i)" using p by simp_all
      then show ?thesis by blast
    qed
  qed
  ultimately show ?thesis by (meson finite_UnI finite_subset)
qed

text \<open>What \<open>kore_malloc\<close> returns: a block that was not live, of the length asked for.\<close>

lemma malloc_fresh:
  assumes "heap_inv h" "0 \<le> len" "kore_malloc mmap calloc len h = Inr (p, h')"
  shows "heap_inv h' \<and> p \<notin> live h \<and> live h' = insert p (live h) \<and> (\<forall>q. q \<noteq> p \<longrightarrow> info h' q = info h q) \<and> tags h' = tags h \<and>
    (\<exists>m. info h' p = Some m \<and> memsize m = (if len = 0 then 8 else len) \<and> \<not> tagged m)"
proof -
  let ?len = "if len = 0 then 8 else len"
  have l: "0 < ?len" using assms(2) by simp
  have b: "length (blocks h) = KORE_MEM_BLOCKS" using assms(1) by (simp add: heap_inv_def)
  show ?thesis
  proof (cases "?len \<le> KORE_MEM_BLOCK_SIZE_MAX")
    case True
    obtain idx where idx: "memblock_index ?len = Inr idx" "idx < KORE_MEM_BLOCKS" using memblock_index_fits [OF True] by blast
    obtain e pool where g: "kore_pool_get mmap (blocks h ! idx) = Inr (e, pool)" "p = Small idx e"
      "h' = h\<lparr>blocks := (blocks h)[idx := pool], info := (info h)(p \<mapsto> \<lparr>memsize = ?len, tagged = False, magic = KORE_MEM_MAGIC,
          cells = replicate (nat ?len) None\<rparr>)\<rparr>"
      using assms(3) True idx b by (auto simp: kore_malloc_def Let_def c_bind_Inr split: prod.splits if_splits)
    have "pool_inv (blocks h ! idx)" using assms(1) idx(2) b by (simp add: heap_inv_def)
    then have u: "pool_inv pool" "e \<notin> busy (blocks h ! idx)" "busy pool = insert e (busy (blocks h ! idx))"
      using pool_get_inv [OF _ g(1)] by blast+
    have v: "live h' = insert p (live h)"
    proof (rule set_eqI)
      fix q show "q \<in> live h' \<longleftrightarrow> q \<in> insert p (live h)"
        using idx(2) b u by (cases q) (auto simp: g(2,3) nth_list_update)
    qed
    moreover have "\<forall>pool \<in> set (blocks h'). pool_inv pool"
      using assms(1) u(1) set_update_subset_insert [of "blocks h" idx pool] by (auto simp: heap_inv_def g(3))
    moreover have "(\<forall>q \<in> live h'. info h' q \<noteq> None) \<and> (\<forall>q m. info h' q = Some m \<longrightarrow> block_ok q m)"
      using assms(1) v l idx(1) by (auto simp: heap_inv_def g(2,3) block_ok_def)
    ultimately show ?thesis using assms(1) idx(2) b u(2) by (auto simp: heap_inv_def tags_ok_def g(2,3))
  next
    case False
    have g: "p = Large (callocs h)" "h' = h\<lparr>callocs := callocs h + 1, info := (info h)(p \<mapsto> \<lparr>memsize = ?len, tagged = False,
        magic = KORE_MEM_MAGIC, cells = replicate (nat ?len) (Some 0)\<rparr>)\<rparr>"
      using assms(3) False by (auto simp: kore_malloc_def Let_def split: if_splits)
    have n: "info h p = None" using assms(1) by (simp add: heap_inv_def g(1))
    have v: "live h' = insert p (live h)"
    proof (rule set_eqI)
      fix q show "q \<in> live h' \<longleftrightarrow> q \<in> insert p (live h)" by (cases q) (auto simp: g)
    qed
    moreover have "(\<forall>q \<in> live h'. info h' q \<noteq> None) \<and> (\<forall>q m. info h' q = Some m \<longrightarrow> block_ok q m)"
      using assms(1) v l by (auto simp: heap_inv_def g block_ok_def)
    ultimately show ?thesis using assms(1) n by (auto simp: heap_inv_def tags_ok_def g)
  qed
qed

text \<open>Giving back a tag, and a block.\<close>

lemma untag_first_Some:
  "untag_first p ts = Some (t, us) \<Longrightarrow> t \<in> set ts \<and> tag_ptr t = p \<and> mset ts = add_mset t (mset us)"
  by (induction ts arbitrary: us) (auto split: if_splits option.splits)

definition untagged :: "kptr \<Rightarrow> kore_tag list \<Rightarrow> kore_tag list" where
  "untagged p ts = (case untag_first p ts of None \<Rightarrow> ts | Some (t, us) \<Rightarrow> us)"

lemma untag_ok:
  assumes "tags_ok h"
  shows "\<exists>h'. kore_mem_untag p h = Inr h' \<and> tags_ok h' \<and> tags h' = untagged p (tags h) \<and> blocks h' = blocks h \<and> info h' = info h \<and> callocs h' = callocs h"
proof (cases "untag_first p (tags h)")
  case None
  then show ?thesis using assms by (simp add: kore_mem_untag_def untagged_def)
next
  case (Some tu)
  then obtain t us where u: "untag_first p (tags h) = Some (t, us)" by (cases tu) auto
  have m: "t \<in> set (tags h)" "mset (tags h) = add_mset t (mset us)" using untag_first_Some [OF u] by auto
  then have e: "tag_entry t \<in> busy (tag_pool h)" using assms by (auto simp: tags_ok_def)
  obtain pool where pool: "kore_pool_put (tag_entry t) (tag_pool h) = Inr pool" "pool_inv pool" "busy pool = busy (tag_pool h) - {tag_entry t}"
    using pool_put_live [OF _ e] assms by (auto simp: tags_ok_def)
  have "mset (map tag_entry (tags h)) = add_mset (tag_entry t) (mset (map tag_entry us))" using m(2) by simp
  then have "distinct (tag_entry t # map tag_entry us)" "set (map tag_entry (tags h)) = insert (tag_entry t) (set (map tag_entry us))"
    using assms by (metis mset.simps(2) mset_eq_imp_distinct_iff tags_ok_def, metis mset.simps(2) mset_eq_setD list.simps(15))
  then show ?thesis using u pool assms by (auto simp: kore_mem_untag_def tags_ok_def untagged_def)
qed

lemma free_start:
  assumes "heap_inv h" "info h p = Some m"
  shows "\<exists>h1. tags_ok h1 \<and> tags h1 = (if tagged m then untagged p (tags h) else tags h) \<and> blocks h1 = blocks h \<and> callocs h1 = callocs h \<and> (\<forall>q. q \<noteq> p \<longrightarrow> info h1 q = info h q) \<and>
    (\<exists>m1. info h1 p = Some m1 \<and> block_ok p m1) \<and>
    kore_free p h = (case p of
         Small i e \<Rightarrow> c_bind (kore_pool_put e (blocks h ! i)) (\<lambda>pool. Inr (h1\<lparr>blocks := (blocks h)[i := pool]\<rparr>))
       | Large n \<Rightarrow> Inr (h1\<lparr>info := (info h1)(p := None)\<rparr>))"
proof -
  have m: "block_ok p m" using assms by (simp add: heap_inv_def)
  define r where "r = (if tagged m then c_bind (kore_mem_untag p h) (\<lambda>h. Inr (h\<lparr>info := (info h)(p \<mapsto> m\<lparr>tagged := False\<rparr>)\<rparr>)) else Inr h)"
  have "\<exists>h1. r = Inr h1 \<and> tags_ok h1 \<and> tags h1 = (if tagged m then untagged p (tags h) else tags h) \<and> blocks h1 = blocks h \<and> callocs h1 = callocs h \<and> (\<forall>q. q \<noteq> p \<longrightarrow> info h1 q = info h q) \<and>
      (\<exists>m1. info h1 p = Some m1 \<and> block_ok p m1)"
  proof (cases "tagged m")
    case True
    obtain h1 where "kore_mem_untag p h = Inr h1" "tags_ok h1" "tags h1 = untagged p (tags h)" "blocks h1 = blocks h" "info h1 = info h" "callocs h1 = callocs h"
      using untag_ok [of h p] assms(1) by (auto simp: heap_inv_def)
    then show ?thesis using True m by (auto simp: r_def tags_ok_def block_ok_def)
  next
    case False
    then show ?thesis using assms m by (simp add: r_def heap_inv_def)
  qed
  then obtain h1 where h1: "r = Inr h1" "tags_ok h1" "tags h1 = (if tagged m then untagged p (tags h) else tags h)" "blocks h1 = blocks h" "callocs h1 = callocs h"
    "\<forall>q. q \<noteq> p \<longrightarrow> info h1 q = info h q" "\<exists>m1. info h1 p = Some m1 \<and> block_ok p m1" by blast
  have "kore_free p h = c_bind r (\<lambda>h. case p of
         Small i e \<Rightarrow> c_bind (memblock_index (memsize m)) (\<lambda>idx. c_bind (arr_get (blocks h) (int idx)) (\<lambda>pool.
           c_bind (kore_pool_put e pool) (\<lambda>pool. Inr (h\<lparr>blocks := (blocks h)[idx := pool]\<rparr>))))
       | Large n \<Rightarrow> Inr (h\<lparr>info := (info h)(p := None)\<rparr>))"
    using m assms(2) by (simp add: kore_free_def KORE_MEMINFO_def block_ok_def r_def)
  moreover have "memblock_index (memsize m) = Inr i \<and> i < KORE_MEM_BLOCKS" if "p = Small i e" for i e
    using m that by (auto simp: block_ok_def memblock_index_def Let_def split: if_splits)
  moreover have "length (blocks h) = KORE_MEM_BLOCKS" using assms(1) by (simp add: heap_inv_def)
  ultimately show ?thesis using h1 by (intro exI [of _ h1]) (auto split: kptr.splits)
qed

lemma free_live:
  assumes "heap_inv h" "p \<in> live h"
  shows "\<exists>h'. kore_free p h = Inr h' \<and> heap_inv h' \<and> live h' = live h - {p} \<and> (\<forall>q. q \<noteq> p \<longrightarrow> info h' q = info h q) \<and>
    (\<forall>m. info h p = Some m \<longrightarrow> tags h' = (if tagged m then untagged p (tags h) else tags h))"
proof -
  obtain m where m: "info h p = Some m" using assms by (auto simp: heap_inv_def)
  have b: "length (blocks h) = KORE_MEM_BLOCKS" using assms(1) by (simp add: heap_inv_def)
  obtain h1 m1 where h1: "tags_ok h1" "blocks h1 = blocks h" "callocs h1 = callocs h" "\<forall>q. q \<noteq> p \<longrightarrow> info h1 q = info h q"
    "info h1 p = Some m1" "block_ok p m1" "tags h1 = (if tagged m then untagged p (tags h) else tags h)"
    and f: "kore_free p h = (case p of
         Small i e \<Rightarrow> c_bind (kore_pool_put e (blocks h ! i)) (\<lambda>pool. Inr (h1\<lparr>blocks := (blocks h)[i := pool]\<rparr>))
       | Large n \<Rightarrow> Inr (h1\<lparr>info := (info h1)(p := None)\<rparr>))"
    using free_start [OF assms(1) m] by blast
  show ?thesis
  proof (cases p)
    case (Small i e)
    have i: "i < KORE_MEM_BLOCKS" "e \<in> busy (blocks h ! i)" using assms(2) b by (auto simp: Small)
    obtain pool where pool: "kore_pool_put e (blocks h ! i) = Inr pool" "pool_inv pool" "busy pool = busy (blocks h ! i) - {e}"
      using pool_put_live [OF _ i(2)] assms(1) i(1) b by (auto simp: heap_inv_def)
    let ?h = "h1\<lparr>blocks := (blocks h)[i := pool]\<rparr>"
    have r: "kore_free p h = Inr ?h" using f pool(1) by (simp add: Small)
    have v: "live ?h = live h - {p}"
    proof (rule set_eqI)
      fix q show "q \<in> live ?h \<longleftrightarrow> q \<in> live h - {p}"
        using i b pool(3) h1(2,4) by (cases q) (auto simp: Small nth_list_update split: if_splits)
    qed
    have "\<forall>pool \<in> set (blocks ?h). pool_inv pool"
      using assms(1) pool(2) set_update_subset_insert [of "blocks h" i pool] by (auto simp: heap_inv_def)
    moreover have "\<forall>n \<ge> callocs ?h. info ?h (Large n) = None" using assms(1) h1(3,4) by (auto simp: heap_inv_def Small)
    moreover have "block_ok q mq" if "info ?h q = Some mq" for q mq
      using assms(1) h1(4-6) that by (cases "q = p") (auto simp: heap_inv_def)
    moreover have "\<forall>q \<in> live ?h. info ?h q \<noteq> None" using assms(1) v h1(4) by (auto simp: heap_inv_def)
    ultimately have "heap_inv ?h" using b h1(1) by (simp add: heap_inv_def tags_ok_def)
    then show ?thesis using r v m h1(4,7) by auto
  next
    case (Large n)
    let ?h = "h1\<lparr>info := (info h1)(p := None)\<rparr>"
    have r: "kore_free p h = Inr ?h" using f by (simp add: Large)
    have v: "live ?h = live h - {p}"
    proof (rule set_eqI)
      fix q show "q \<in> live ?h \<longleftrightarrow> q \<in> live h - {p}" using h1(2,4) by (cases q) (auto simp: Large)
    qed
    have "\<forall>n \<ge> callocs ?h. info ?h (Large n) = None" using assms(1) h1(3,4) by (auto simp: heap_inv_def)
    moreover have "block_ok q mq" if "info ?h q = Some mq" for q mq
      using assms(1) h1(4) that by (cases "q = p") (auto simp: heap_inv_def)
    moreover have "\<forall>q \<in> live ?h. info ?h q \<noteq> None" using assms(1) v h1(4) by (auto simp: heap_inv_def)
    ultimately have "heap_inv ?h" using assms(1) h1(1,2) by (simp add: heap_inv_def tags_ok_def)
    then show ?thesis using r v m h1(4,7) by auto
  qed
qed

text \<open>A block that is not in use cannot be given back: the state of its element, or its absence, gives it away.\<close>

lemma free_dead:
  assumes "heap_inv h" "p \<notin> live h"
  shows "\<not> c_ok (kore_free p h)"
proof (cases "info h p")
  case None
  then show ?thesis by (simp add: kore_free_def KORE_MEMINFO_def)
next
  case (Some m)
  then obtain i e where p: "p = Small i e" using assms(2) by (cases p) auto
  have "memblock_index (memsize m) = Inr i" using assms(1) Some p by (simp add: heap_inv_def block_ok_def)
  then have i: "i < length (blocks h)" using assms(1) by (auto simp: heap_inv_def memblock_index_def Let_def split: if_splits)
  then have "e \<notin> busy (blocks h ! i)" using assms(2) p by simp
  moreover have "pool_inv (blocks h ! i)" using assms(1) i by (simp add: heap_inv_def)
  ultimately have "\<not> c_ok (kore_pool_put e (blocks h ! i))" by (rule pool.put_dead [rotated])
  then show ?thesis using free_start [OF assms(1) Some] p by (cases "kore_pool_put e (blocks h ! i)") auto
qed

interpretation heap: allocator "\<lambda>len. kore_malloc mmap calloc (int len)" kore_free heap_inv live
proof
  show "heap_inv s \<Longrightarrow> finite (live s)" for s by (rule finite_live)
  show "heap_inv s \<Longrightarrow> kore_malloc mmap calloc (int r) s = Inr (p, s') \<Longrightarrow> heap_inv s' \<and> p \<notin> live s \<and> live s' = insert p (live s)" for s r p s'
    using malloc_fresh [of s "int r"] by simp
  show "heap_inv s \<Longrightarrow> p \<in> live s \<Longrightarrow> \<exists>s'. kore_free p s = Inr s' \<and> heap_inv s' \<and> live s' = live s - {p}" for s p
    using free_live by blast
  show "heap_inv s \<Longrightarrow> p \<notin> live s \<Longrightarrow> \<not> c_ok (kore_free p s)" for s p by (rule free_dead)
qed

text \<open>\<open>kore_realloc\<close> keeps the bytes and the other blocks.\<close>

lemma realloc_keeps:
  assumes "heap_inv h" "p \<in> live h" "info h p = Some m" "0 \<le> len" "len \<noteq> memsize m" "kore_realloc mmap calloc (Some p) len h = Inr (q, h')"
  shows "heap_inv h' \<and> q \<notin> live h \<and> live h' = insert q (live h - {p}) \<and> (\<forall>r \<in> live h - {p}. info h' r = info h r) \<and>
    (\<exists>m'. info h' q = Some m' \<and> memsize m' = (if len = 0 then 8 else len) \<and>
      take (nat (min len (memsize m))) (cells m') = take (nat (min len (memsize m))) (cells m))"
proof -
  let ?n = "nat (min len (memsize m))"
  have ok: "block_ok p m" using assms(1,3) by (simp add: heap_inv_def)
  obtain h1 nm where h1: "kore_malloc mmap calloc len h = Inr (q, h1)" "info h1 q = Some nm"
    "kore_free p (h1\<lparr>info := (info h1)(q \<mapsto> nm\<lparr>cells := take ?n (cells m) @ drop ?n (cells nm)\<rparr>)\<rparr>) = Inr h'"
    using assms(3,5,6) by (auto simp: kore_realloc_def KORE_MEMINFO_def c_bind_Inr Let_def split: prod.splits if_splits option.splits)
  let ?nm = "nm\<lparr>cells := take ?n (cells m) @ drop ?n (cells nm)\<rparr>"
  let ?h = "h1\<lparr>info := (info h1)(q \<mapsto> ?nm)\<rparr>"
  have a: "heap_inv h1" "q \<notin> live h" "live h1 = insert q (live h)" "\<forall>r. r \<noteq> q \<longrightarrow> info h1 r = info h r"
    "memsize nm = (if len = 0 then 8 else len)"
    using malloc_fresh [OF assms(1,4) h1(1)] h1(2) by auto
  have "block_ok q nm" using a(1) h1(2) by (simp add: heap_inv_def)
  moreover have l: "?n \<le> length (cells m)" "?n \<le> length (cells nm)"
    using ok calculation a(5) assms(4) by (auto simp: block_ok_def)
  ultimately have "block_ok q ?nm" by (simp add: block_ok_def)
  moreover have v: "live ?h = live h1" using h1(2) by (auto simp: live_def)
  ultimately have i: "heap_inv ?h" using a(1) h1(2) unfolding heap_inv_def tags_ok_def v by auto
  have pq: "p \<noteq> q" using assms(2) a(2) by blast
  obtain h2 where "kore_free p ?h = Inr h2" "heap_inv h2" "live h2 = live ?h - {p}" "\<forall>r. r \<noteq> p \<longrightarrow> info h2 r = info ?h r"
    using free_live [OF i, of p] assms(2) a(3) v by blast
  then have f: "heap_inv h'" "live h' = live ?h - {p}" "\<forall>r. r \<noteq> p \<longrightarrow> info h' r = info ?h r" using h1(3) by simp_all
  have "info h' q = Some ?nm" using f(3) pq by simp
  moreover have "take ?n (cells ?nm) = take ?n (cells m)" using l by simp
  moreover have "\<forall>r \<in> live h - {p}. info h' r = info h r" using f(3) a(2,4) by auto
  ultimately show ?thesis using f(1,2) a(2,3,5) v pq by auto
qed

section \<open>The initial heap\<close>

lemma init_blocks_inv:
  assumes "0 \<le> entry_size" "0 < bsize" "init_blocks mmap entry_size name n bsize = Inr pools"
  shows "length pools = n \<and> (\<forall>pool \<in> set pools. pool_inv pool \<and> busy pool = {})"
  using assms(2,3)
proof (induction n arbitrary: bsize pools)
  case (Suc n)
  let ?mlen = "(8 + bsize + 4 + 8) div 8 * 8"
  obtain pool rest where p: "kore_pool_init mmap entry_size (name (nat bsize)) ?mlen ((128 * 1024) div bsize) = Inr pool"
    "init_blocks mmap entry_size name n (2 * bsize) = Inr rest" "pools = pool # rest"
    using Suc.prems(2) by (auto simp: c_bind_Inr Let_def)
  have "0 < ?mlen" using Suc.prems(1) by simp
  then have "pool_inv pool \<and> busy pool = {}" using pool_init_inv [OF _ assms(1) p(1)] by blast
  then show ?case using Suc.IH [OF _ p(2)] Suc.prems(1) p(3) by simp
qed simp

lemma mem_init_inv:
  assumes "0 \<le> entry_size" "0 < tag_size" "kore_mem_init mmap entry_size tag_size name = Inr h"
  shows "heap_inv h \<and> live h = {} \<and> tags h = []"
proof -
  obtain tp bs where b: "kore_pool_init mmap entry_size (cstr ''tag_pool'') tag_size 100 = Inr tp"
    "init_blocks mmap entry_size name KORE_MEM_BLOCKS 8 = Inr bs"
    "h = \<lparr>blocks = bs, tag_pool = tp, tags = [], info = (\<lambda>_. None), callocs = 0\<rparr>"
    using assms(3) by (auto simp: kore_mem_init_def c_bind_Inr simp del: init_blocks.simps)
  have "pool_inv tp" using pool_init_inv [OF assms(2,1) b(1)] by simp
  moreover have "length bs = KORE_MEM_BLOCKS" "\<forall>pool \<in> set bs. pool_inv pool \<and> busy pool = {}"
    using init_blocks_inv [OF assms(1) _ b(2)] by simp_all
  ultimately show ?thesis by (auto simp: heap_inv_def tags_ok_def live_def b(3))
qed

text \<open>When memory can be mapped there is one.\<close>

lemma pool_init_total:
  assumes "\<And>n. mmap n" "0 < len" "0 \<le> entry_size" "elm \<le> 2 ^ 20" "len + entry_size \<le> 2 ^ 40"
  shows "\<exists>pool. kore_pool_init mmap entry_size name len elm = Inr pool"
proof -
  let ?elm = "if elm < 16 then 16 else elm"
  have "?elm * (len + entry_size) \<le> 2 ^ 20 * 2 ^ 40" using assms by (intro mult_mono) auto
  also have "\<dots> \<le> SIZE_MAX" by simp
  finally have "len + entry_size \<le> SIZE_MAX div ?elm" using zdiv_mono1 [of "?elm * (len + entry_size)" SIZE_MAX ?elm] by simp
  moreover have "(len + entry_size) mod 2 ^ 64 = len + entry_size" using assms(2,3,5) by simp
  ultimately show ?thesis using assms(1) by (simp add: kore_pool_init_def region_create_cases Let_def)
qed

lemma init_blocks_total:
  assumes "\<And>n. mmap n" "0 \<le> entry_size" "entry_size \<le> 2 ^ 20" "0 < bsize" "bsize * 2 ^ n \<le> 2 ^ 20"
  shows "\<exists>pools. init_blocks mmap entry_size name n bsize = Inr pools"
  using assms(4,5)
proof (induction n arbitrary: bsize)
  case (Suc n)
  let ?mlen = "(8 + bsize + 4 + 8) div 8 * 8"
  have "bsize * 1 \<le> bsize * 2 ^ Suc n" using Suc.prems(1) by (intro mult_left_mono one_le_power) simp_all
  then have b: "bsize \<le> 2 ^ 20" using Suc.prems(2) by simp
  have "(128 * 1024) div bsize \<le> 128 * 1024" using Suc.prems(1) using zdiv_mono2 [of "128 * 1024" 1 bsize] by simp
  then have "\<exists>pool. kore_pool_init mmap entry_size (name (nat bsize)) ?mlen ((128 * 1024) div bsize) = Inr pool"
    using assms(1-3) Suc.prems(1) b by (intro pool_init_total) auto
  moreover have "\<exists>rest. init_blocks mmap entry_size name n (2 * bsize) = Inr rest"
    using Suc.IH [of "2 * bsize"] Suc.prems by (simp add: mult.commute mult.left_commute)
  ultimately show ?case by (auto simp: Let_def)
qed simp

lemma mem_init_total:
  assumes "\<And>n. mmap n" "0 \<le> entry_size" "entry_size \<le> 2 ^ 20" "0 < tag_size" "tag_size \<le> 2 ^ 20"
  shows "\<exists>h. kore_mem_init mmap entry_size tag_size name = Inr h \<and> callocs h = 0 \<and> growth (tag_pool h) * slen (tag_pool h) \<le> SIZE_MAX"
proof -
  have "\<exists>tp. kore_pool_init mmap entry_size (cstr ''tag_pool'') tag_size 100 = Inr tp"
    using assms by (intro pool_init_total) simp_all
  then obtain tp where t: "kore_pool_init mmap entry_size (cstr ''tag_pool'') tag_size 100 = Inr tp" by blast
  have "growth tp = 25" "slen tp = tag_size + entry_size" using pool_init_inv [OF assms(4,2) t] by simp_all
  then have "growth tp * slen tp \<le> SIZE_MAX" using assms(3,5) by simp
  moreover have "\<exists>bs. init_blocks mmap entry_size name KORE_MEM_BLOCKS 8 = Inr bs"
    using assms by (intro init_blocks_total) simp_all
  then obtain bs where "init_blocks mmap entry_size name KORE_MEM_BLOCKS 8 = Inr bs" by blast
  ultimately show ?thesis using t by (simp add: kore_mem_init_def del: init_blocks.simps cstr_simps)
qed

section \<open>Properties\<close>

text \<open>
  The lengths of the blocks in use, from the calls and the blocks they returned alone: a \<open>kore_malloc\<close> enters the block
  it returned with the length asked for, a \<open>kore_free\<close> takes the block out.
\<close>

fun lengths_asked :: "(nat, kptr) alloc_call list \<Rightarrow> kptr list \<Rightarrow> (kptr \<Rightarrow> nat option) \<Rightarrow> kptr \<Rightarrow> nat option" where
  "lengths_asked [] ps t = t"
| "lengths_asked (Get n # cs) ps t = (case ps of [] \<Rightarrow> t | p # ps \<Rightarrow> lengths_asked cs ps (t(p \<mapsto> n)))"
| "lengths_asked (Put p # cs) ps t = lengths_asked cs ps (t(p := None))"

definition lengths_kept :: "(kptr \<Rightarrow> nat option) \<Rightarrow> kore_heap \<Rightarrow> bool" where
  "lengths_kept t h \<longleftrightarrow> dom t = live h \<and>
     (\<forall>p n. t p = Some n \<longrightarrow> (\<exists>m. info h p = Some m \<and> memsize m = (if n = 0 then 8 else int n)))"

lemma calls_keep_lengths:
  "heap_inv h \<Longrightarrow> lengths_kept t h \<Longrightarrow> run_calls (\<lambda>len. kore_malloc mmap calloc (int len)) kore_free calls h = Inr (ps, h') \<Longrightarrow>
    lengths_kept (lengths_asked calls ps t) h'"
proof (induction calls ps t arbitrary: h rule: lengths_asked.induct)
  case (2 n cs ps t)
  then obtain p h1 qs where g: "kore_malloc mmap calloc (int n) h = Inr (p, h1)" "ps = p # qs"
    "run_calls (\<lambda>len. kore_malloc mmap calloc (int len)) kore_free cs h1 = Inr (qs, h')"
    by (auto simp: c_bind_Inr split: prod.splits)
  have f: "heap_inv h1 \<and> p \<notin> live h \<and> live h1 = insert p (live h) \<and> (\<forall>q. q \<noteq> p \<longrightarrow> info h1 q = info h q) \<and>
    (\<exists>m. info h1 p = Some m \<and> memsize m = (if int n = 0 then 8 else int n))"
    using malloc_fresh [OF 2(2) _ g(1)] by auto
  then have "lengths_kept (t(p \<mapsto> n)) h1" using 2(3) by (auto simp: lengths_kept_def)
  then show ?case using 2(1) [OF g(2) _ _ g(3)] f g(2) by (simp del: fun_upd_apply add: fun_upd_def)
next
  case (3 p cs ps t)
  then obtain h1 where g: "kore_free p h = Inr h1"
    "run_calls (\<lambda>len. kore_malloc mmap calloc (int len)) kore_free cs h1 = Inr (ps, h')"
    by (auto simp: c_bind_Inr)
  have p: "p \<in> live h" using free_dead [OF 3(2)] g(1) by (auto simp: c_ok_def)
  then have f: "heap_inv h1" "live h1 = live h - {p}" "\<forall>r. r \<noteq> p \<longrightarrow> info h1 r = info h r"
    using free_live [OF 3(2) p] g(1) by auto
  then have "lengths_kept (t(p := None)) h1" using 3(3) by (auto simp: lengths_kept_def)
  then show ?case using 3(1) [OF f(1) _ g(2)] by (simp del: fun_upd_apply add: fun_upd_def)
qed simp

text \<open>C29: On the heap that \<open>kore_mem_init\<close> made, any sequence of \<open>kore_malloc\<close> and \<open>kore_free\<close> calls, of any
  sizes, keeps the books: the blocks handed out are those given back and those still live. Each live block has the length
  asked for when it was handed out (eight bytes for 0), with as many bytes, and its mark. A block that is not live, one
  given back twice included, cannot be given back.\<close>

theorem malloc_books_balance:
  assumes "0 \<le> entry_size" "0 < tag_size" "kore_mem_init mmap entry_size tag_size name = Inr h"
    and "run_calls (\<lambda>len. kore_malloc mmap calloc (int len)) kore_free calls h = Inr (ps, h')"
  shows "mset ps = mset (given_back calls) + mset_set (live h') \<and>
    (\<forall>p \<in> live h'. \<exists>n m. lengths_asked calls ps Map.empty p = Some n \<and> info h' p = Some m \<and> magic m = KORE_MEM_MAGIC \<and>
      memsize m = (if n = 0 then 8 else int n) \<and> length (cells m) = nat (memsize m)) \<and>
    (\<forall>p. c_ok (kore_free p h') \<longleftrightarrow> p \<in> live h')"
proof -
  have h: "heap_inv h" "live h = {}" using mem_init_inv [OF assms(1-3)] by simp_all
  have b: "heap_inv h'" "mset ps = mset (given_back calls) + mset_set (live h')"
    using heap.books_balance [OF h(1) assms(4)] h(2) by simp_all
  have "lengths_kept Map.empty h" using h(2) by (simp add: lengths_kept_def)
  then have k: "lengths_kept (lengths_asked calls ps Map.empty) h'" by (rule calls_keep_lengths [OF h(1) _ assms(4)])
  have "c_ok (kore_free p h') \<longleftrightarrow> p \<in> live h'" for p
    using free_live [OF b(1), of p] free_dead [OF b(1), of p] by (auto simp: c_ok_def)
  moreover have "\<exists>n m. lengths_asked calls ps Map.empty p = Some n \<and> info h' p = Some m \<and> magic m = KORE_MEM_MAGIC \<and>
      memsize m = (if n = 0 then 8 else int n) \<and> length (cells m) = nat (memsize m)" if "p \<in> live h'" for p
  proof -
    obtain n where n: "lengths_asked calls ps Map.empty p = Some n" using k \<open>p \<in> live h'\<close> unfolding lengths_kept_def by blast
    then obtain m where m: "info h' p = Some m" "memsize m = (if n = 0 then 8 else int n)" using k unfolding lengths_kept_def by blast
    then have "block_ok p m" using b(1) by (simp add: heap_inv_def)
    then show ?thesis using n m by (simp add: block_ok_def)
  qed
  ultimately show ?thesis using b(2) by blast
qed

theorem malloc_books_balance_witness:
  "\<exists>h h'. kore_mem_init (\<lambda>_. True) 24 32 (\<lambda>_. []) = Inr h \<and>
     run_calls (\<lambda>len. kore_malloc (\<lambda>_. True) (\<lambda>_. True) (int len)) kore_free [Get 9000, Get 70000, Put (Large 0)] h =
       Inr ([Large 0, Large 1], h') \<and> \<not> c_ok (kore_free (Large 0) h') \<and> c_ok (kore_free (Large 1) h') \<and>
     (\<exists>m. info h' (Large 1) = Some m \<and> memsize m = 70000)"
proof -
  obtain h where h: "kore_mem_init (\<lambda>_. True) 24 32 (\<lambda>_. []) = Inr h" "callocs h = 0"
    using mem_init_total [of "\<lambda>_. True" 24 32] by fastforce
  have "\<exists>h'. run_calls (\<lambda>len. kore_malloc (\<lambda>_. True) (\<lambda>_. True) (int len)) kore_free [Get 9000, Get 70000, Put (Large 0)] h =
      Inr ([Large 0, Large 1], h') \<and> live h' = live h' \<and> info h' (Large 0) = None \<and> info h' (Large 1) \<noteq> None"
    by (simp add: kore_malloc_def kore_free_def KORE_MEMINFO_def Let_def h(2))
  then obtain h' where h': "run_calls (\<lambda>len. kore_malloc (\<lambda>_. True) (\<lambda>_. True) (int len)) kore_free [Get 9000, Get 70000, Put (Large 0)] h =
      Inr ([Large 0, Large 1], h')" "Large 0 \<notin> live h'" "Large 1 \<in> live h'" by auto
  then show ?thesis using malloc_books_balance [OF _ _ h(1) h'(1)] h(1) by fastforce
qed

text \<open>C30: \<open>kore_realloc\<close> of a live block to another length returns a block that was not live, with the bytes of the old
  one up to the shorter length, gives the old one back, and leaves every other live block as it was.\<close>

theorem realloc_keeps_bytes:
  assumes "heap_inv h" "p \<in> live h" "info h p = Some m" "0 \<le> len" "len \<noteq> memsize m" "kore_realloc mmap calloc (Some p) len h = Inr (q, h')"
  shows "heap_inv h' \<and> q \<notin> live h \<and> live h' = insert q (live h - {p}) \<and> (\<forall>r \<in> live h - {p}. info h' r = info h r) \<and>
    (\<exists>m'. info h' q = Some m' \<and> memsize m' = (if len = 0 then 8 else len) \<and>
      take (nat (min len (memsize m))) (cells m') = take (nat (min len (memsize m))) (cells m))"
  by (rule realloc_keeps [OF assms])

theorem realloc_keeps_bytes_witness:
  "\<exists>h m h1 h2 m2. kore_malloc (\<lambda>_. True) (\<lambda>_. True) 9000 h = Inr (Large 0, h1) \<and> kore_realloc (\<lambda>_. True) (\<lambda>_. True) (Some (Large 0)) 10000 h1 = Inr (Large 1, h2) \<and>
     info h1 (Large 0) = Some m \<and> info h2 (Large 1) = Some m2 \<and> memsize m2 = 10000 \<and> take 9000 (cells m2) = take 9000 (cells m)"
proof -
  let ?t = "\<lambda>_ :: int. True"
  obtain h where h: "kore_mem_init ?t 24 32 (\<lambda>_. []) = Inr h" "callocs h = 0"
    using mem_init_total [of ?t 24 32] by fastforce
  have i: "heap_inv h" using mem_init_inv [OF _ _ h(1)] by simp
  have "\<exists>h1 m. kore_malloc ?t ?t 9000 h = Inr (Large 0, h1) \<and> info h1 (Large 0) = Some m \<and> memsize m = 9000 \<and> \<not> tagged m \<and>
      magic m = KORE_MEM_MAGIC \<and> callocs h1 = 1"
    by (simp add: kore_malloc_def Let_def h(2))
  then obtain h1 m where h1: "kore_malloc ?t ?t 9000 h = Inr (Large 0, h1)" "info h1 (Large 0) = Some m" "memsize m = 9000" "\<not> tagged m"
    "magic m = KORE_MEM_MAGIC" "callocs h1 = 1" by blast
  have "\<exists>h2. kore_realloc ?t ?t (Some (Large 0)) 10000 h1 = Inr (Large 1, h2)"
    using h1(2-6) by (simp add: kore_realloc_def kore_malloc_def kore_free_def KORE_MEMINFO_def Let_def)
  then obtain h2 where h2: "kore_realloc ?t ?t (Some (Large 0)) 10000 h1 = Inr (Large 1, h2)" by blast
  have "heap_inv h1" using malloc_fresh [OF i _ h1(1)] by simp
  then have "\<exists>m2. info h2 (Large 1) = Some m2 \<and> memsize m2 = 10000 \<and> take 9000 (cells m2) = take 9000 (cells m)"
    using realloc_keeps_bytes [OF _ _ h1(2) _ _ h2] h1(2,3) by simp
  then show ?thesis using h1(1,2) h2 by blast
qed

text \<open>
  A block tagged twice, with two identifiers: \<open>kore_mem_untag\<close>, and so \<open>kore_free\<close>, takes off the first tag
  only, and the second one still finds the block that was given back.
\<close>

theorem second_tag_dangles:
  assumes "heap_inv h" "p \<in> live h" "kore_mem_lookup a h = None" "kore_mem_lookup b h = None" "a \<noteq> b" "p \<notin> tag_ptr ` set (tags h)"
    and "kore_mem_tag mmap p a h = Inr h1" "kore_mem_tag mmap p b h1 = Inr h2"
  shows "\<exists>h3. kore_free p h2 = Inr h3 \<and> p \<notin> live h3 \<and> kore_mem_lookup a h3 = None \<and> kore_mem_lookup b h3 = Some p"
proof -
  obtain m where m: "info h p = Some m" "block_ok p m" using assms(1,2) by (auto simp: heap_inv_def)
  let ?m = "m\<lparr>tagged := True\<rparr>"
  have ok: "block_ok p ?m" using m(2) by (simp add: block_ok_def)
  obtain e1 p1 where h1: "kore_pool_get mmap (tag_pool h) = Inr (e1, p1)"
    "h1 = h\<lparr>info := (info h)(p \<mapsto> ?m), tag_pool := p1, tags := tags h @ [\<lparr>tag_ptr = p, tag_id = a, tag_entry = e1\<rparr>]\<rparr>"
    using assms(7) m by (auto simp: kore_mem_tag_def KORE_MEMINFO_def c_bind_Inr block_ok_def split: if_splits)
  obtain e2 p2 where h2: "kore_pool_get mmap p1 = Inr (e2, p2)"
    "h2 = h1\<lparr>info := (info h)(p \<mapsto> ?m), tag_pool := p2, tags := tags h1 @ [\<lparr>tag_ptr = p, tag_id = b, tag_entry = e2\<rparr>]\<rparr>"
    using assms(8) m by (auto simp: kore_mem_tag_def KORE_MEMINFO_def c_bind_Inr block_ok_def h1(2) split: if_splits)
  have g1: "pool_inv p1" "e1 \<notin> busy (tag_pool h)" "busy p1 = insert e1 (busy (tag_pool h))"
    using pool_get_inv [OF _ h1(1)] assms(1) by (auto simp: heap_inv_def tags_ok_def)
  have g2: "pool_inv p2" "e2 \<notin> busy p1" "busy p2 = insert e2 (busy p1)" using pool_get_inv [of p1 mmap e2 p2] g1(1) h2(1) by simp_all
  have "tags_ok h2" using assms(1) g1 g2 by (auto simp: heap_inv_def tags_ok_def h2(2) h1(2))
  moreover have v: "live h2 = live h" using m(1) by (auto simp: live_def h2(2) h1(2))
  ultimately have i: "heap_inv h2" "p \<in> live h2"
    using assms(1,2) ok by (auto simp: heap_inv_def h2(2) h1(2))
  have "info h2 p = Some ?m" by (simp add: h2(2))
  then obtain h3 where h3: "kore_free p h2 = Inr h3" "live h3 = live h2 - {p}" "tags h3 = untagged p (tags h2)"
    using free_live [OF i] by auto
  have "untag_first p (ts @ t # us) = Some (t, ts @ us)" if "p \<notin> tag_ptr ` set ts" "tag_ptr t = p" for ts t us
    using that by (induction ts) auto
  then have t: "tags h3 = tags h @ [\<lparr>tag_ptr = p, tag_id = b, tag_entry = e2\<rparr>]"
    using assms(6) by (simp add: h3(3) h2(2) h1(2) untagged_def)
  have f: "find P (ts @ [t]) = (if P t then Some t else None)" if "find P ts = None" for P and ts :: "kore_tag list" and t
    using that by (induction ts) (auto split: if_splits)
  have "find (\<lambda>t. tag_id t = a) (tags h) = None" "find (\<lambda>t. tag_id t = b) (tags h) = None"
    using assms(3,4) by (simp_all add: kore_mem_lookup_def)
  note n = f [OF this(1)] f [OF this(2)]
  have "kore_mem_lookup a h3 = None" "kore_mem_lookup b h3 = Some p" unfolding kore_mem_lookup_def t n using assms(5) by simp_all
  then show ?thesis using h3(1,2) by simp
qed

theorem second_tag_dangles_witness:
  "\<exists>h h3. kore_free (Large 0) h = Inr h3 \<and> Large 0 \<notin> live h3 \<and> kore_mem_lookup 8 h3 = Some (Large 0)"
proof -
  let ?t = "\<lambda>_ :: int. True"
  obtain h where h: "kore_mem_init ?t 24 32 (\<lambda>_. []) = Inr h" "callocs h = 0" "growth (tag_pool h) * slen (tag_pool h) \<le> SIZE_MAX"
    using mem_init_total [of ?t 24 32] by fastforce
  have i: "heap_inv h" "tags h = []" using mem_init_inv [OF _ _ h(1)] by simp_all
  have "\<exists>h1. kore_malloc ?t ?t 9000 h = Inr (Large 0, h1) \<and> tags h1 = [] \<and> tag_pool h1 = tag_pool h"
    by (simp add: kore_malloc_def Let_def h(2) i(2))
  then obtain h1 where h1: "kore_malloc ?t ?t 9000 h = Inr (Large 0, h1)" "tags h1 = []" "tag_pool h1 = tag_pool h" by blast
  have l: "heap_inv h1" "Large 0 \<in> live h1" using malloc_fresh [OF i(1) _ h1(1)] by auto
  then obtain m where m: "info h1 (Large 0) = Some m" "magic m = KORE_MEM_MAGIC" by (auto simp: heap_inv_def block_ok_def)
  obtain e1 p1 where p1: "kore_pool_get ?t (tag_pool h1) = Inr (e1, p1)"
    using pool_get_total [of "tag_pool h1" ?t] l(1) h(3) h1(3) by (auto simp: heap_inv_def tags_ok_def c_ok_def)
  then have "pool_inv p1 \<and> growth p1 * slen p1 \<le> SIZE_MAX"
    using pool_get_inv [OF _ p1] l(1) h(3) h1(3) by (auto simp: heap_inv_def tags_ok_def)
  then obtain e2 p2 where p2: "kore_pool_get ?t p1 = Inr (e2, p2)"
    using pool_get_total [of p1 ?t] by (auto simp: c_ok_def)
  have "\<exists>h2. kore_mem_tag ?t (Large 0) 7 h1 = Inr h2 \<and> tag_pool h2 = p1 \<and> info h2 (Large 0) = Some (m\<lparr>tagged := True\<rparr>) \<and>
      kore_mem_lookup 8 h2 = None"
    using p1 m h1(2) by (simp add: kore_mem_tag_def KORE_MEMINFO_def kore_mem_lookup_def)
  then obtain h2 where h2: "kore_mem_tag ?t (Large 0) 7 h1 = Inr h2" "tag_pool h2 = p1" "info h2 (Large 0) = Some (m\<lparr>tagged := True\<rparr>)"
      "kore_mem_lookup 8 h2 = None" by blast
  have "\<exists>h3. kore_mem_tag ?t (Large 0) 8 h2 = Inr h3"
    using p2 m(2) h2(2-4) by (simp add: kore_mem_tag_def KORE_MEMINFO_def)
  then obtain h3 where h3: "kore_mem_tag ?t (Large 0) 8 h2 = Inr h3" by blast
  show ?thesis
    using second_tag_dangles [OF l _ _ _ _ h2(1) h3] h1(2) by (auto simp: kore_mem_lookup_def)
qed

end
