(* ===== verification/Kore_Buf.thy ===== *)
theory Kore_Buf
  imports C_Prelude "HOL-Library.Sublist"
begin

text \<open>
  The growing byte buffers of the web server, \<open>kore-3.2.0/src/buf.c\<close>, and the search they use,
  \<open>kore_mem_find\<close> of \<open>utils.c\<close>. An allocation that is refused ends the process in \<open>kore_malloc\<close>; here it is
  granted, and \<open>kore_realloc\<close> keeps the bytes, as \<open>Kore_Mem\<close> proves. A \<open>size_t\<close> has eight bytes.
\<close>

section \<open>State\<close>

text \<open>Memory that was never written is \<open>None\<close>. A NULL pointer is \<open>None\<close> as a whole.\<close>

type_synonym cells = "u8 option list"

record kore_buf =
  buf_data :: "cells option"
  buf_length :: int
  buf_offset :: int
  owner_api :: bool

abbreviation cells_of :: "kore_buf \<Rightarrow> cells" where
  "cells_of buf \<equiv> (case buf_data buf of None \<Rightarrow> [] | Some c \<Rightarrow> c)"

definition fresh_cells :: "int \<Rightarrow> cells" where
  "fresh_cells n = replicate (nat n) None"

text \<open>A block of another length with the bytes of the old one, as far as they fit.\<close>

definition realloc_cells :: "cells \<Rightarrow> int \<Rightarrow> cells" where
  "realloc_cells c n = take (nat n) c @ fresh_cells (n - int (length c))"

text \<open>\<open>memcpy\<close> of cells to an offset of a block.\<close>

definition copy_to :: "int \<Rightarrow> cells \<Rightarrow> cells \<Rightarrow> cells c_result" where
  "copy_to off src dst =
     (if 0 \<le> off \<and> off + int (length src) \<le> int (length dst)
      then Inr (take (nat off) dst @ src @ drop (nat off + length src) dst) else Inl Out_Of_Bounds)"

section \<open>Operations\<close>

definition kore_buf_init :: "int \<Rightarrow> kore_buf" where
  "kore_buf_init initial =
     \<lparr>buf_data = (if initial > 0 then Some (fresh_cells initial) else None), buf_length = initial, buf_offset = 0,
      owner_api = False\<rparr>"

definition kore_buf_alloc :: "int \<Rightarrow> kore_buf" where
  "kore_buf_alloc initial = (kore_buf_init initial)\<lparr>owner_api := True\<rparr>"

definition kore_buf_cleanup :: "kore_buf \<Rightarrow> kore_buf" where
  "kore_buf_cleanup buf = buf\<lparr>buf_data := None, buf_offset := 0, buf_length := 0\<rparr>"

text \<open>What is left of a buffer: its owner may be the library, which frees the structure too.\<close>

definition kore_buf_free :: "kore_buf \<Rightarrow> kore_buf option" where
  "kore_buf_free buf = (let buf = kore_buf_cleanup buf in if owner_api buf then None else Some buf)"

definition kore_buf_append :: "u8 list \<Rightarrow> kore_buf \<Rightarrow> kore_buf c_result" where
  "kore_buf_append bs buf =
     (let len = int (length bs); end = (buf_offset buf + len) mod 2 ^ 64 in
      if end < len then Inl Fatal
      else
        let buf = (if end > buf_length buf
                   then let n = (buf_length buf + len) mod 2 ^ 64 in
                        buf\<lparr>buf_length := n, buf_data := Some (realloc_cells (cells_of buf) n)\<rparr>
                   else buf) in
        c_bind (copy_to (buf_offset buf) (map Some bs) (cells_of buf)) (\<lambda>c.
        Inr (buf\<lparr>buf_data := (if buf_data buf = None then None else Some c), buf_offset := (buf_offset buf + len) mod 2 ^ 64\<rparr>)))"

text \<open>The text a format makes of its arguments, or that it cannot be made, is a parameter.\<close>

definition kore_buf_appendv :: "u8 list option \<Rightarrow> kore_buf \<Rightarrow> kore_buf c_result" where
  "kore_buf_appendv formatted buf = (case formatted of None \<Rightarrow> Inl Fatal | Some bs \<Rightarrow> kore_buf_append bs buf)"

definition kore_buf_appendf :: "u8 list option \<Rightarrow> kore_buf \<Rightarrow> kore_buf c_result" where
  "kore_buf_appendf formatted buf = kore_buf_appendv formatted buf"

definition kore_buf_stringify :: "kore_buf \<Rightarrow> (int \<times> kore_buf) c_result" where
  "kore_buf_stringify buf = (let len = buf_offset buf in c_bind (kore_buf_append [0] buf) (\<lambda>buf. Inr (len, buf)))"

definition kore_buf_release :: "kore_buf \<Rightarrow> cells option \<times> int \<times> kore_buf option" where
  "kore_buf_release buf =
     (let p = buf_data buf; len = buf_offset buf in (p, len, kore_buf_free (buf\<lparr>buf_data := None\<rparr>)))"

definition kore_buf_reset :: "kore_buf \<Rightarrow> kore_buf" where
  "kore_buf_reset buf = buf\<lparr>buf_offset := 0\<rparr>"

text \<open>
  \<open>kore_mem_find\<close>: the bytes from a position on, the needle with whatever follows it in memory, and its length.
  A comparison with memory that was never written is a fault.
\<close>

fun mem_find_loop :: "cells \<Rightarrow> u8 list \<Rightarrow> int \<Rightarrow> int \<Rightarrow> int option c_result" where
  "mem_find_loop [] needle len pos = Inr None"
| "mem_find_loop (c # cs) needle len pos =
     (case c of
        None \<Rightarrow> Inl Uninitialised
      | Some b \<Rightarrow>
          c_bind (arr_get needle 0) (\<lambda>n0.
          if b \<noteq> n0 then mem_find_loop cs needle len (pos + 1)
          else if int (length (c # cs)) < len then Inr None
          else if None \<in> set (take (nat len) (c # cs)) then Inl Uninitialised
          else if take (nat len) (c # cs) = map Some (take (nat len) needle) then Inr (Some pos)
          else mem_find_loop cs needle len (pos + 1)))"

definition kore_mem_find :: "cells \<Rightarrow> u8 list \<Rightarrow> int \<Rightarrow> int option c_result" where
  "kore_mem_find src needle len = mem_find_loop src needle len 0"

text \<open>
  One turn of the loop of \<open>kore_buf_replace_string\<close>, after the string was found at \<open>off\<close>. \<open>dst\<close> may be NULL,
  then the \<open>len\<close> bytes in its place are not written.
\<close>

definition replace_at :: "int \<Rightarrow> int \<Rightarrow> u8 list option \<Rightarrow> int \<Rightarrow> kore_buf \<Rightarrow> kore_buf c_result" where
  "replace_at off klen dst len b =
     (let nlen = (buf_offset b + len) mod 2 ^ 64; p = cells_of b;
          end = off + klen; off2 = buf_offset b - end;
          tmp = fresh_cells (if nlen = 0 then 8 else nlen) in
      c_bind (copy_to 0 (take (nat off) p) tmp) (\<lambda>tmp.
      c_bind (case dst of None \<Rightarrow> Inr tmp | Some d \<Rightarrow> if int (length d) < len then Inl Out_Of_Bounds
              else copy_to off (map Some (take (nat len) d)) tmp) (\<lambda>tmp.
      c_bind (copy_to (off + len) (take (nat off2) (drop (nat end) p)) tmp) (\<lambda>tmp.
      Inr (b\<lparr>buf_data := Some tmp, buf_offset := off + len + off2, buf_length := nlen\<rparr>)))))"

text \<open>
  With an empty \<open>src\<close> and a NUL in the buffer the loop may not end, so it is a partial function; it returns
  for every string that is not empty.
\<close>

partial_function (option) replace_loop ::
  "u8 list \<Rightarrow> u8 list option \<Rightarrow> int \<Rightarrow> int \<Rightarrow> kore_buf \<Rightarrow> kore_buf c_result option" where
  "replace_loop src dst len off b =
     (let klen = int (length src); text = take (nat (buf_offset b - off)) (drop (nat off) (cells_of b)) in
      case kore_mem_find text (src @ [0]) klen of
        Inl e \<Rightarrow> Some (Inl e)
      | Inr None \<Rightarrow> Some (Inr b)
      | Inr (Some key) \<Rightarrow>
          (case replace_at (off + key) klen dst len b of
             Inl e \<Rightarrow> Some (Inl e)
           | Inr b \<Rightarrow> replace_loop src dst len (off + key + len) b))"

definition kore_buf_replace_string :: "u8 list \<Rightarrow> u8 list option \<Rightarrow> int \<Rightarrow> kore_buf \<Rightarrow> kore_buf c_result option" where
  "kore_buf_replace_string src dst len b = replace_loop src dst len 0 b"

section \<open>What a buffer holds\<close>

definition BUF_MAX :: nat where
  "BUF_MAX = 2 ^ 62"

definition buf_holds :: "kore_buf \<Rightarrow> u8 list \<Rightarrow> bool" where
  "buf_holds b bs \<longleftrightarrow> buf_offset b = int (length bs) \<and> buf_offset b \<le> buf_length b \<and> buf_length b < 2 ^ 63 \<and>
     length (cells_of b) = nat (buf_length b) \<and> take (length bs) (cells_of b) = map Some bs"

lemma fresh_cells_length [simp]: "length (fresh_cells n) = nat n"
  by (simp add: fresh_cells_def)

lemma realloc_cells_length: "0 \<le> n \<Longrightarrow> length (realloc_cells c n) = nat n"
  by (simp add: realloc_cells_def min_def) arith

lemma realloc_cells_take: "k \<le> nat n \<Longrightarrow> k \<le> length c \<Longrightarrow> take k (realloc_cells c n) = take k c"
  by (simp add: realloc_cells_def)

lemma copy_to_ok:
  assumes "off + length src \<le> length dst"
  shows "copy_to (int off) src dst = Inr (take off dst @ src @ drop (off + length src) dst)"
  using assms by (simp add: copy_to_def)

lemma buf_alloc_holds:
  assumes "0 \<le> n" "n < 2 ^ 63"
  shows "buf_holds (kore_buf_init n) []" "buf_holds (kore_buf_alloc n) []"
  using assms by (auto simp: buf_holds_def kore_buf_init_def kore_buf_alloc_def)

lemma buf_reset_holds: "buf_holds b bs \<Longrightarrow> buf_holds (kore_buf_reset b) []"
  by (auto simp: buf_holds_def kore_buf_reset_def)

lemma buf_append_holds:
  assumes "buf_holds b bs" "length (bs @ cs) \<le> BUF_MAX"
  shows "\<exists>b'. kore_buf_append cs b = Inr b' \<and> buf_holds b' (bs @ cs) \<and> owner_api b' = owner_api b"
proof -
  let ?n = "buf_length b + int (length cs)"
  let ?e = "int (length bs + length cs)"
  define b1 where "b1 = (if ?e > buf_length b
    then b\<lparr>buf_length := ?n, buf_data := Some (realloc_cells (cells_of b) ?n)\<rparr> else b)"
  note h = assms(1) [unfolded buf_holds_def]
  have e: "(buf_offset b + int (length cs)) mod 2 ^ 64 = ?e" using h assms(2) by (simp add: BUF_MAX_def)
  have n: "?n mod 2 ^ 64 = ?n" using h assms(2) by (simp add: BUF_MAX_def)
  have l: "length (cells_of b1) = nat (buf_length b1)" "?e \<le> buf_length b1" "buf_length b1 < 2 ^ 63" "buf_offset b1 = buf_offset b"
    "owner_api b1 = owner_api b"
    using h assms(2) by (auto simp: b1_def realloc_cells_length BUF_MAX_def)
  have t: "take (length bs) (cells_of b1) = map Some bs"
    using h by (auto simp: b1_def realloc_cells_take)
  have o: "int (length bs) = buf_offset b" using h by simp
  have "length bs + length (map Some cs) \<le> length (cells_of b1)" using l by simp
  then have c: "copy_to (buf_offset b) (map Some cs) (cells_of b1) =
      Inr (map Some (bs @ cs) @ drop (length (bs @ cs)) (cells_of b1))" (is "_ = Inr ?c")
    using copy_to_ok [of "length bs" "map Some cs" "cells_of b1"] t o by simp
  have "kore_buf_append cs b = Inr (b1\<lparr>buf_data := (if buf_data b1 = None then None else Some ?c), buf_offset := ?e\<rparr>)"
    unfolding kore_buf_append_def Let_def e n b1_def [symmetric] l(4) c using o by simp
  moreover have "buf_holds (b1\<lparr>buf_data := (if buf_data b1 = None then None else Some ?c), buf_offset := ?e\<rparr>) (bs @ cs)"
  proof (cases "buf_data b1")
    case None
    then have "int (length bs + length cs) \<le> 0" using l(1,2) by simp
    then have "length bs + length cs = 0" by linarith
    then have "bs = []" "cs = []" by simp_all
    then show ?thesis using None l by (simp add: buf_holds_def)
  qed (use l in \<open>auto simp: buf_holds_def\<close>)
  ultimately show ?thesis using l(5) by simp
qed

text \<open>The interface a client of a buffer relies on: what it appends comes after what is there.\<close>

locale byte_sink =
  fixes append :: "u8 list \<Rightarrow> 'b \<Rightarrow> 'b c_result"
    and holds :: "'b \<Rightarrow> u8 list \<Rightarrow> bool"
    and room :: nat
  assumes append_holds: "holds b bs \<Longrightarrow> length (bs @ cs) \<le> room \<Longrightarrow> \<exists>b'. append cs b = Inr b' \<and> holds b' (bs @ cs)"
begin

lemma append_then:
  assumes "holds b bs" "length (bs @ cs) \<le> room"
    and "\<And>b'. holds b' (bs @ cs) \<Longrightarrow> P (f b')"
  shows "P (c_bind (append cs b) f)"
  using append_holds [OF assms(1,2)] assms(3) by auto

lemma append_bytes:
  assumes "holds b bs" "length (bs @ cs) \<le> room"
  shows "\<exists>b'. foldl (\<lambda>r c. c_bind r (append [c])) (Inr b) cs = Inr b' \<and> holds b' (bs @ cs)"
  using assms
proof (induction cs arbitrary: b bs)
  case (Cons c cs)
  then obtain b1 where "append [c] b = Inr b1" "holds b1 (bs @ [c])" using append_holds [of b bs "[c]"] by auto
  then show ?case using Cons.IH [of b1 "bs @ [c]"] Cons.prems(2) by simp
qed simp

end

interpretation kbuf: byte_sink kore_buf_append buf_holds BUF_MAX
  using buf_append_holds by unfold_locales blast

section \<open>The search\<close>

fun first_occ :: "'a list \<Rightarrow> 'a list \<Rightarrow> nat option" where
  "first_occ s [] = None"
| "first_occ s (c # cs) = (if prefix s (c # cs) then Some 0 else map_option Suc (first_occ s cs))"

lemma first_occ_short: "length t < length s \<Longrightarrow> first_occ s t = None"
  by (induction t) (auto dest: prefix_length_le)

lemma take_is_prefix: "take (length s) t = s \<longleftrightarrow> prefix s t"
  by (metis append_eq_conv_conj prefix_def take_is_prefix)

text \<open>\<open>kore_mem_find\<close> finds the first occurrence.\<close>

lemma mem_find_loop_first:
  assumes "s \<noteq> []"
  shows "mem_find_loop (map Some t) (s @ rest) (int (length s)) pos = Inr (map_option (\<lambda>k. pos + int k) (first_occ s t))"
proof (induction t arbitrary: pos)
  case (Cons c cs)
  obtain n0 ns where s: "s = n0 # ns" using assms by (cases s) auto
  have IH: "mem_find_loop (map Some cs) (s @ rest) (int (length s)) (pos + 1) = Inr (map_option (\<lambda>k. pos + int k) (map_option Suc (first_occ s cs)))"
    unfolding Cons by (cases "first_occ s cs") simp_all
  have g: "arr_get (s @ rest) 0 = Inr n0" by (simp add: s)
  consider "c \<noteq> n0" | "c = n0" "length (c # cs) < length s" | "c = n0" "length s \<le> length (c # cs)" by linarith
  then show ?case
  proof cases
    case 1
    then have "\<not> prefix s (c # cs)" by (simp add: s)
    then show ?thesis using 1 g IH by simp
  next
    case 2
    then show ?thesis using g first_occ_short [OF 2(2)] by simp
  next
    case 3
    have m: "take (nat (int (length s))) (map Some (c # cs)) = map Some (take (length s) (c # cs))" by (simp only: nat_int take_map)
    have "map Some (take (length s) (c # cs)) = map Some (take (nat (int (length s))) (s @ rest)) \<longleftrightarrow> prefix s (c # cs)"
      by (simp only: inj_map_eq_map [OF inj_Some] nat_int take_append take_all diff_self_eq_0 take_0 append_Nil2 take_is_prefix order_refl)
    moreover have "None \<notin> set (map Some (take (length s) (c # cs)))" by auto
    ultimately show ?thesis using 3 g IH m by (simp del: take_Cons)
  qed
qed simp

lemma first_occ_Some:
  assumes "first_occ s t = Some k"
  shows "prefix s (drop k t) \<and> k + length s \<le> length t \<and> (\<forall>j < k. \<not> prefix s (drop j t))"
  using assms
proof (induction t arbitrary: k)
  case (Cons c cs)
  show ?case
  proof (cases "prefix s (c # cs)")
    case True
    then show ?thesis using Cons.prems prefix_length_le [OF True] by simp
  next
    case False
    then obtain i where i: "first_occ s cs = Some i" "k = Suc i" using Cons.prems by (cases "first_occ s cs") auto
    have "\<not> prefix s (drop j (c # cs))" if "j < k" for j using Cons.IH [OF i(1)] i(2) that False by (cases j) auto
    then show ?thesis using Cons.IH [OF i(1)] i(2) by simp
  qed
qed simp

section \<open>Replacing\<close>

text \<open>The specification: every occurrence, from the left, none overlapping the one before.\<close>

fun replace_all :: "'a list \<Rightarrow> 'a list \<Rightarrow> 'a list \<Rightarrow> 'a list" where
  "replace_all s d [] = []"
| "replace_all s d (c # cs) =
     (if prefix s (c # cs) then d @ replace_all s d (drop (length s - 1) cs) else c # replace_all s d cs)"

lemma replace_all_none: "first_occ s t = None \<Longrightarrow> replace_all s d t = t"
  by (induction t) (auto split: if_splits)

lemma replace_all_some:
  "first_occ s t = Some k \<Longrightarrow> s \<noteq> [] \<Longrightarrow> replace_all s d t = take k t @ d @ replace_all s d (drop (k + length s) t)"
proof (induction t arbitrary: k)
  case (Cons c cs)
  then show ?case by (cases s) (auto split: if_splits)
qed simp

lemma copy_after:
  assumes "length m \<le> length x"
  shows "copy_to (int (length a)) m (a @ x) = Inr (a @ m @ drop (length m) x)"
  using assms by (simp add: copy_to_def)

lemma replace_at_holds:
  assumes "buf_holds b (pre @ s @ post)" "pre @ s @ post \<noteq> []" "length (pre @ s @ post) + length d < 2 ^ 63"
  shows "\<exists>b'. replace_at (int (length pre)) (int (length s)) (Some d) (int (length d)) b = Inr b' \<and> buf_holds b' (pre @ d @ post) \<and>
    owner_api b' = owner_api b"
proof -
  note h = assms(1) [unfolded buf_holds_def]
  let ?n = "length (pre @ s @ post) + length d"
  have n: "(buf_offset b + int (length d)) mod 2 ^ 64 = int ?n" "?n \<noteq> 0" using h assms(2,3) by auto
  obtain t where t: "cells_of b = map Some (pre @ s @ post) @ t" using h by (metis append_take_drop_id)
  have o: "buf_offset b - (int (length pre) + int (length s)) = int (length post)" using h by simp
  have e: "nat (int (length pre) + int (length s)) = length (pre @ s)" by simp
  have p: "take (nat (int (length pre))) (cells_of b) = map Some pre" "take (nat (int (length post))) (drop (length (pre @ s)) (cells_of b)) = map Some post"
    by (simp_all add: t)
  define x where "x = fresh_cells (int ?n)"
  have "int ?n \<noteq> 0" using n(2) by (simp only: of_nat_eq_0_iff not_False_eq_True)
  then have x: "length x = ?n" "fresh_cells (if int ?n = 0 then 8 else int ?n) = x" by (simp_all only: x_def if_False fresh_cells_length nat_int)
  have c1: "copy_to 0 (map Some pre) x = Inr (map Some pre @ drop (length pre) x)"
    using copy_after [of "map Some pre" x "[]"] x(1) by simp
  have c2: "copy_to (int (length pre)) (map Some d) (map Some pre @ drop (length pre) x) = Inr (map Some (pre @ d) @ drop (length (pre @ d)) x)"
    using copy_after [of "map Some d" "drop (length pre) x" "map Some pre"] x(1) by (simp add: add.commute)
  have c3: "copy_to (int (length pre) + int (length d)) (map Some post) (map Some (pre @ d) @ drop (length (pre @ d)) x) =
      Inr (map Some (pre @ d @ post) @ drop (length (pre @ d @ post)) x)"
    using copy_after [of "map Some post" "drop (length (pre @ d)) x" "map Some (pre @ d)"] x(1) by (simp add: add_ac)
  have "replace_at (int (length pre)) (int (length s)) (Some d) (int (length d)) b =
      Inr (b\<lparr>buf_data := Some (map Some (pre @ d @ post) @ drop (length (pre @ d @ post)) x),
        buf_offset := int (length pre) + int (length d) + int (length post), buf_length := int ?n\<rparr>)"
    unfolding replace_at_def Let_def n(1) o e p x(2) using c1 c2 c3 by simp
  then show ?thesis using x(1) assms(3) by (simp add: buf_holds_def)
qed

lemma replace_loop_all:
  assumes "buf_holds b (pre @ t)" "s \<noteq> []" "length (pre @ t) + (length t + 1) * length d \<le> BUF_MAX"
  shows "\<exists>b'. replace_loop s (Some d) (int (length d)) (int (length pre)) b = Some (Inr b') \<and> buf_holds b' (pre @ replace_all s d t) \<and>
    owner_api b' = owner_api b"
  using assms
proof (induction "length t" arbitrary: b pre t rule: less_induct)
  case less
  note h = less.prems(1) [unfolded buf_holds_def]
  have "take (nat (buf_offset b - int (length pre))) (drop (nat (int (length pre))) (cells_of b)) =
      drop (length pre) (take (length (pre @ t)) (cells_of b))"
    using h unfolding drop_take by simp
  then have tx: "take (nat (buf_offset b - int (length pre))) (drop (nat (int (length pre))) (cells_of b)) = map Some t"
    using h by (simp only: map_append append_eq_conv_conj length_map) simp
  have f: "kore_mem_find (map Some t) (s @ [0]) (int (length s)) = Inr (map_option int (first_occ s t))"
    unfolding kore_mem_find_def mem_find_loop_first [OF less.prems(2)] by simp
  show ?case
  proof (cases "first_occ s t")
    case None
    then show ?thesis using less.prems(1) replace_all_none [OF None] by (subst replace_loop.simps) (simp add: Let_def tx [simplified] f)
  next
    case (Some k)
    define u v where "u = take k t" and "v = drop (k + length s) t"
    have k: "k + length s \<le> length t" "prefix s (drop k t)" using first_occ_Some [OF Some] by auto
    then obtain w where "drop k t = s @ w" by (auto simp: prefix_def)
    moreover have "v = drop (length s) (drop k t)" by (simp add: v_def add.commute)
    ultimately have "drop k t = s @ v" by simp
    then have t: "t = u @ s @ v" unfolding u_def by (metis append_take_drop_id)
    have lu: "length u = k" using k(1) by (simp add: u_def)
    have sl: "0 < length s" using less.prems(2) by simp
    have m: "(length v + 1) * length d + length d \<le> (length t + 1) * length d"
      using less.prems(2) by (cases s) (simp_all add: t algebra_simps)
    obtain b1 where b1: "replace_at (int (length pre) + int k) (int (length s)) (Some d) (int (length d)) b = Inr b1"
      "buf_holds b1 ((pre @ u @ d) @ v)" "owner_api b1 = owner_api b"
      using replace_at_holds [of b "pre @ u" s v d] less.prems m by (auto simp: t lu BUF_MAX_def)
    have "length ((pre @ u @ d) @ v) + (length v + 1) * length d \<le> BUF_MAX" using less.prems(3) m sl by (simp add: t)
    then obtain b2 where b2: "replace_loop s (Some d) (int (length d)) (int (length (pre @ u @ d))) b1 = Some (Inr b2)"
      "buf_holds b2 ((pre @ u @ d) @ replace_all s d v)" "owner_api b2 = owner_api b1"
      using less.hyps [OF _ b1(2) less.prems(2)] sl by (auto simp: t)
    have "replace_loop s (Some d) (int (length d)) (int (length pre)) b = Some (Inr b2)"
      using b2(1) b1(1) by (subst replace_loop.simps) (simp add: Let_def tx [simplified] f Some lu add_ac)
    then show ?thesis using b2(2,3) b1(3) replace_all_some [OF Some less.prems(2), of d] by (simp add: u_def v_def)
  qed
qed

section \<open>The empty search string\<close>

text \<open>
  A search for the empty string compares the bytes with the NUL that ends it: it stops at the first NUL, if there is
  one. Replaced by nothing, that NUL stays where it is and is found again.
\<close>

lemma text_read:
  assumes "buf_holds b (pre @ t)"
  shows "take (nat (buf_offset b - int (length pre))) (drop (length pre) (cells_of b)) = map Some t"
proof -
  note h = assms [unfolded buf_holds_def]
  have "take (nat (buf_offset b - int (length pre))) (drop (length pre) (cells_of b)) =
      drop (length pre) (take (length (pre @ t)) (cells_of b))"
    using h unfolding drop_take by simp
  then show ?thesis using h by (simp only: map_append append_eq_conv_conj length_map) simp
qed

lemma mem_find_empty:
  "mem_find_loop (map Some t) [0] 0 pos = Inr (if 0 \<in> set t then Some (pos + int (length (takeWhile (\<lambda>c. c \<noteq> 0) t))) else None)"
  by (induction t arbitrary: pos) auto

lemma replace_empty_none:
  assumes "buf_holds b t" "0 \<notin> set t"
  shows "kore_buf_replace_string [] (Some d) len b = Some (Inr b)"
  using text_read [of b "[]" t] assms
  by (subst kore_buf_replace_string_def, subst replace_loop.simps) (simp add: Let_def kore_mem_find_def mem_find_empty)

lemma replace_empty_again:
  assumes "replace_loop src dst len off b = Some r" "src = []" "dst = Some []" "len = 0"
    and "off = int (length pre)" "buf_holds b (pre @ t)" "0 \<in> set t"
  shows False
proof -
  have "\<forall>pre t. src = [] \<and> dst = Some [] \<and> len = 0 \<and> off = int (length pre) \<and> buf_holds b (pre @ t) \<and> 0 \<in> set t \<longrightarrow> False"
  proof (rule replace_loop.raw_induct [OF _ assms(1), where P = "\<lambda>src dst len off b y. \<forall>pre t.
      src = [] \<and> dst = Some [] \<and> len = 0 \<and> off = int (length pre) \<and> buf_holds b (pre @ t) \<and> 0 \<in> set t \<longrightarrow> False"], intro allI impI)
    fix f src dst len off b y pre t
    assume IH: "\<And>src dst len off b y. f src dst len off b = Some y \<Longrightarrow> \<forall>pre t.
        src = [] \<and> dst = Some [] \<and> len = 0 \<and> off = int (length pre) \<and> buf_holds b (pre @ t) \<and> 0 \<in> set t \<longrightarrow> False"
      and y: "(let klen = int (length src); text = take (nat (buf_offset b - off)) (drop (nat off) (cells_of b)) in
        case kore_mem_find text (src @ [0]) klen of
          Inl e \<Rightarrow> Some (Inl e)
        | Inr None \<Rightarrow> Some (Inr b)
        | Inr (Some key) \<Rightarrow>
            (case replace_at (off + key) klen dst len b of
               Inl e \<Rightarrow> Some (Inl e)
             | Inr b \<Rightarrow> f src dst len (off + key + len) b)) = Some y"
      and a: "src = [] \<and> dst = Some [] \<and> len = 0 \<and> off = int (length pre) \<and> buf_holds b (pre @ t) \<and> 0 \<in> set t"
    let ?k = "length (takeWhile (\<lambda>c. c \<noteq> 0) t)"
    have u: "t = take ?k t @ drop ?k t" "length (take ?k t) = ?k" by (simp_all add: length_takeWhile_le)
    have z: "0 \<in> set (drop ?k t)"
      using a by (metis UnE append_take_drop_id set_append set_takeWhileD takeWhile_eq_take)
    have "length (pre @ t) < 2 ^ 63" using a by (auto simp: buf_holds_def)
    then have "\<exists>b1. replace_at (int (length pre) + int ?k) 0 (Some []) 0 b = Inr b1 \<and> buf_holds b1 ((pre @ take ?k t) @ drop ?k t)"
    proof -
      have "pre @ take ?k t @ [] @ drop ?k t \<noteq> []" "length (pre @ take ?k t @ [] @ drop ?k t) + length ([] :: u8 list) < 2 ^ 63"
        using z \<open>length (pre @ t) < 2 ^ 63\<close> by auto
      then show ?thesis
        using replace_at_holds [of b "pre @ take ?k t" "[]" "drop ?k t" "[]"] a u(2) by (auto simp del: length_take)
    qed
    then obtain b1 where b1: "replace_at (int (length pre) + int ?k) 0 (Some []) 0 b = Inr b1" "buf_holds b1 ((pre @ take ?k t) @ drop ?k t)"
      by blast
    have "f [] (Some []) 0 (int (length (pre @ take ?k t))) b1 = Some y"
      using y a text_read [of b pre t] b1(1) u(2) by (simp add: Let_def kore_mem_find_def mem_find_empty)
    then show False using IH b1(2) z by blast
  qed
  then show ?thesis using assms(2-) by blast
qed

lemma replace_empty_hangs: "buf_holds b t \<Longrightarrow> 0 \<in> set t \<Longrightarrow> kore_buf_replace_string [] (Some []) 0 b = None"
  using replace_empty_again [of "[]" "Some []" 0 0 b _ "[]" t] unfolding kore_buf_replace_string_def
  by (cases "replace_loop [] (Some []) 0 0 b") auto

section \<open>The buffer is a list of bytes\<close>

datatype buf_op = Append "u8 list" | Replace "u8 list" "u8 list" | Stringify | Reset

fun run_buf :: "buf_op list \<Rightarrow> kore_buf \<Rightarrow> kore_buf c_result option" where
  "run_buf [] b = Some (Inr b)"
| "run_buf (op # ops) b =
     (case (case op of
              Append bs \<Rightarrow> Some (kore_buf_append bs b)
            | Replace s d \<Rightarrow> kore_buf_replace_string s (Some d) (int (length d)) b
            | Stringify \<Rightarrow> Some (c_bind (kore_buf_stringify b) (\<lambda>(len, b). Inr b))
            | Reset \<Rightarrow> Some (Inr (kore_buf_reset b))) of
        None \<Rightarrow> None
      | Some (Inl e) \<Rightarrow> Some (Inl e)
      | Some (Inr b) \<Rightarrow> run_buf ops b)"

fun text_after :: "buf_op \<Rightarrow> u8 list \<Rightarrow> u8 list" where
  "text_after (Append cs) bs = bs @ cs"
| "text_after (Replace s d) bs = replace_all s d bs"
| "text_after Stringify bs = bs @ [0]"
| "text_after Reset bs = []"

text \<open>The sizes stay below 2^62, and no search is for an empty string.\<close>

fun op_fits :: "buf_op \<Rightarrow> u8 list \<Rightarrow> bool" where
  "op_fits (Append cs) bs = (length bs + length cs \<le> BUF_MAX)"
| "op_fits (Replace s d) bs = (s \<noteq> [] \<and> length bs + (length bs + 1) * length d \<le> BUF_MAX)"
| "op_fits Stringify bs = (length bs + 1 \<le> BUF_MAX)"
| "op_fits Reset bs = True"

fun ops_fit :: "buf_op list \<Rightarrow> u8 list \<Rightarrow> bool" where
  "ops_fit [] bs = True"
| "ops_fit (op # ops) bs = (op_fits op bs \<and> ops_fit ops (text_after op bs))"

lemma run_buf_holds:
  assumes "buf_holds b bs" "ops_fit ops bs"
  shows "\<exists>b'. run_buf ops b = Some (Inr b') \<and> buf_holds b' (fold text_after ops bs) \<and> owner_api b' = owner_api b"
  using assms
proof (induction ops arbitrary: b bs)
  case (Cons op ops)
  have "\<exists>b1. (case op of
              Append bs \<Rightarrow> Some (kore_buf_append bs b)
            | Replace s d \<Rightarrow> kore_buf_replace_string s (Some d) (int (length d)) b
            | Stringify \<Rightarrow> Some (c_bind (kore_buf_stringify b) (\<lambda>(len, b). Inr b))
            | Reset \<Rightarrow> Some (Inr (kore_buf_reset b))) = Some (Inr b1) \<and> buf_holds b1 (text_after op bs) \<and> owner_api b1 = owner_api b"
  proof (cases op)
    case (Append cs)
    then show ?thesis using buf_append_holds [OF Cons.prems(1), of cs] Cons.prems(2) by auto
  next
    case (Replace s d)
    then show ?thesis using replace_loop_all [of b "[]" bs s d] Cons.prems by (simp add: kore_buf_replace_string_def)
  next
    case Stringify
    then show ?thesis using buf_append_holds [OF Cons.prems(1), of "[0]"] Cons.prems(2) by (auto simp: kore_buf_stringify_def)
  next
    case Reset
    then show ?thesis using buf_reset_holds [OF Cons.prems(1)] by (simp add: kore_buf_reset_def)
  qed
  then obtain b1 where b1: "(case op of
              Append bs \<Rightarrow> Some (kore_buf_append bs b)
            | Replace s d \<Rightarrow> kore_buf_replace_string s (Some d) (int (length d)) b
            | Stringify \<Rightarrow> Some (c_bind (kore_buf_stringify b) (\<lambda>(len, b). Inr b))
            | Reset \<Rightarrow> Some (Inr (kore_buf_reset b))) = Some (Inr b1)" "buf_holds b1 (text_after op bs)" "owner_api b1 = owner_api b"
    by blast
  then show ?case using Cons.IH [OF b1(2)] Cons.prems(2) by simp
qed simp

lemma run_buf_snoc: "run_buf ops b = Some (Inr b') \<Longrightarrow> run_buf (ops @ [op]) b = run_buf [op] b'"
  by (induction ops arbitrary: b) (auto split: option.splits sum.splits)

text \<open>
  C31: what is done with a buffer of the library, in any order, as long as the sizes stay below 2^62 and no
  empty string is searched: no operation faults or hangs, and what is released in the end is the bytes that the
  same operations make of a list of bytes, where replacing means every occurrence, from the left, none overlapping
  the one before; nothing of the buffer remains. At any point, searching for the empty string does nothing when the
  buffer holds no NUL; when it holds one, replacing the empty string by nothing never returns.
\<close>

theorem buffer_is_byte_list:
  assumes "0 \<le> n" "n < 2 ^ 63" "ops_fit ops []"
  shows "\<exists>b p. run_buf ops (kore_buf_alloc n) = Some (Inr b) \<and>
    kore_buf_release b = (p, int (length (fold text_after ops [])), None) \<and>
    take (length (fold text_after ops [])) (case p of None \<Rightarrow> [] | Some c \<Rightarrow> c) = map Some (fold text_after ops []) \<and>
    (if 0 \<in> set (fold text_after ops []) then run_buf (ops @ [Replace [] []]) (kore_buf_alloc n) = None
     else \<forall>d. run_buf (ops @ [Replace [] d]) (kore_buf_alloc n) = Some (Inr b))"
proof -
  obtain b where b: "run_buf ops (kore_buf_alloc n) = Some (Inr b)" "buf_holds b (fold text_after ops [])"
    "owner_api b = owner_api (kore_buf_alloc n)"
    using run_buf_holds [OF buf_alloc_holds(2) [OF assms(1,2)] assms(3)] by blast
  have "if 0 \<in> set (fold text_after ops []) then run_buf (ops @ [Replace [] []]) (kore_buf_alloc n) = None
     else \<forall>d. run_buf (ops @ [Replace [] d]) (kore_buf_alloc n) = Some (Inr b)"
    using replace_empty_hangs [OF b(2)] replace_empty_none [OF b(2)] run_buf_snoc [OF b(1)] by simp
  moreover have "\<exists>p. kore_buf_release b = (p, int (length (fold text_after ops [])), None) \<and>
    take (length (fold text_after ops [])) (case p of None \<Rightarrow> [] | Some c \<Rightarrow> c) = map Some (fold text_after ops [])"
    using b by (simp add: kore_buf_release_def kore_buf_free_def kore_buf_cleanup_def kore_buf_alloc_def buf_holds_def)
  ultimately show ?thesis using b(1) by blast
qed

theorem buffer_is_byte_list_witness:
  "(\<exists>b p. run_buf [Append [1, 2, 1, 2, 3], Replace [1, 2] [9], Stringify] (kore_buf_alloc 4) = Some (Inr b) \<and>
    kore_buf_release b = (p, 4, None) \<and> take 4 (case p of None \<Rightarrow> [] | Some c \<Rightarrow> c) = map Some [9, 9, 3, 0]) \<and>
   run_buf [Append [1, 2, 1, 2, 3], Replace [1, 2] [9], Stringify, Replace [] []] (kore_buf_alloc 4) = None"
proof -
  let ?ops = "[Append [1, 2, 1, 2, 3], Replace [1, 2] [9], Stringify]"
  have c: "fold text_after ?ops [] = [9, 9, 3, 0]" by simp
  have "ops_fit ?ops []" by (simp add: BUF_MAX_def)
  then obtain b p where "run_buf ?ops (kore_buf_alloc 4) = Some (Inr b)"
    "kore_buf_release b = (p, int (length (fold text_after ?ops [])), None)"
    "take (length (fold text_after ?ops [])) (case p of None \<Rightarrow> [] | Some c \<Rightarrow> c) = map Some (fold text_after ?ops [])"
    "if 0 \<in> set (fold text_after ?ops []) then run_buf (?ops @ [Replace [] []]) (kore_buf_alloc 4) = None
     else \<forall>d. run_buf (?ops @ [Replace [] d]) (kore_buf_alloc 4) = Some (Inr b)"
    using buffer_is_byte_list [of 4 ?ops] by auto
  moreover have "length [9, 9, 3, 0 :: u8] = 4" "0 \<in> set [9, 9, 3, 0 :: u8]" by simp_all
  ultimately show ?thesis unfolding c append.simps by (metis of_nat_numeral)
qed

end
