(* ===== verification/Kore_Utils.thy ===== *)
theory Kore_Utils
  imports Kore_Buf C_Stdlib
begin

text \<open>
  The helpers of the web server, \<open>kore-3.2.0/src/utils.c\<close>: copies and cuts of strings, numbers, dates and
  base64. Results \<open>KORE_RESULT_OK\<close> and \<open>KORE_RESULT_ERROR\<close> are a value and \<open>None\<close>. A string is given by its
  bytes before the NUL.
\<close>

section \<open>Strings\<close>

text \<open>What \<open>kore_strlcpy\<close> leaves in \<open>dst\<close>, an object of \<open>length dst\<close> bytes, and its result.\<close>

fun strlcpy_loop :: "u8 list \<Rightarrow> int \<Rightarrow> int \<Rightarrow> u8 list \<Rightarrow> u8 list c_result" where
  "strlcpy_loop [] d end dst = arr_set dst d 0"
| "strlcpy_loop (c # s) d end dst =
     c_bind (arr_set dst d c) (\<lambda>dst. if d = end then arr_set dst d 0 else strlcpy_loop s (d + 1) end dst)"

definition kore_strlcpy :: "u8 list \<Rightarrow> u8 list \<Rightarrow> int \<Rightarrow> (int \<times> u8 list) c_result" where
  "kore_strlcpy dst src len =
     (if len = 0 then Inl Fatal
      else c_bind (strlcpy_loop src 0 (len - 1) dst) (\<lambda>dst. Inr (int (length src), dst)))"

text \<open>\<open>strsep\<close>: the token up to the first delimiter, and what follows that, if there is one.\<close>

definition strsep :: "u8 list \<Rightarrow> u8 list \<Rightarrow> u8 list \<times> u8 list option" where
  "strsep s delim =
     (takeWhile (\<lambda>c. c \<notin> set delim) s,
      case dropWhile (\<lambda>c. c \<notin> set delim) s of [] \<Rightarrow> None | _ # r \<Rightarrow> Some r)"

lemma strsep_shorter: "strsep s delim = (tok, Some r) \<Longrightarrow> length r < length s"
proof -
  assume "strsep s delim = (tok, Some r)"
  then obtain c where "dropWhile (\<lambda>c. c \<notin> set delim) s = c # r" by (auto simp: strsep_def split: list.splits)
  then show ?thesis using length_dropWhile_le [of "\<lambda>c. c \<notin> set delim" s] by simp
qed

text \<open>The room of \<open>out\<close> is what is left of the \<open>ele - 1\<close> places before the closing NULL.\<close>

function split_loop :: "u8 list option \<Rightarrow> u8 list \<Rightarrow> nat \<Rightarrow> u8 list list" where
  "split_loop None delim n = []"
| "split_loop (Some input) delim 0 = []"
| "split_loop (Some input) delim (Suc n) =
     (let (ap, input') = strsep input delim in
      if ap \<noteq> [] then ap # split_loop input' delim n else split_loop input' delim (Suc n))"
  by pat_completeness auto
termination
proof (relation "measure (\<lambda>(i, _, _). case i of None \<Rightarrow> 0 | Some s \<Rightarrow> Suc (length s))")
qed (auto split: option.split dest: strsep_shorter [OF sym])

definition kore_split_string :: "u8 list \<Rightarrow> u8 list \<Rightarrow> nat \<Rightarrow> u8 list list" where
  "kore_split_string input delim ele = (if ele = 0 then [] else split_loop (Some input) delim (ele - 1))"

text \<open>The length is kept in 32 bits, also for the block the result is written to.\<close>

definition kore_strip_chars :: "u8 list \<Rightarrow> u8 \<Rightarrow> u8 list c_result" where
  "kore_strip_chars line strip =
     (let len = length line mod 2 ^ 32;
          size = (len + 1) mod 2 ^ 32;
          out = filter (\<lambda>c. c \<noteq> strip) (take len line) in
      if (if size = 0 then 8 else size) < length out + 1 then Inl Out_Of_Bounds else Inr out)"

text \<open>
  \<open>kore_text_trim\<close> works in place on the \<open>len\<close> bytes of a string: the place where the trimmed string starts, and
  the memory with the blanks of the end overwritten.
\<close>

function trim_end :: "nat \<Rightarrow> nat \<Rightarrow> u8 list \<Rightarrow> u8 list" where
  "trim_end start end mem =
     (if start < end \<and> is_white (mem ! end) then trim_end start (end - 1) (mem[end := 0]) else mem)"
  by pat_completeness auto
termination
  by (relation "measure (\<lambda>(_, end, _). end)") auto

declare trim_end.simps [simp del]

function trim_start :: "nat \<Rightarrow> nat \<Rightarrow> u8 list \<Rightarrow> nat" where
  "trim_start start end mem =
     (if is_white (mem ! start) \<and> start < end then trim_start (start + 1) end mem else start)"
  by pat_completeness auto
termination
  by (relation "measure (\<lambda>(start, end, _). end - start)") auto

declare trim_start.simps [simp del]

definition kore_text_trim :: "u8 list \<Rightarrow> nat \<Rightarrow> (nat \<times> u8 list) c_result" where
  "kore_text_trim mem len =
     (if len = 0 then Inr (0, mem)
      else if length mem < len then Inl Out_Of_Bounds
      else let end = len - 1; start = trim_start 0 end mem in Inr (start, trim_end start end mem))"

text \<open>A line of a file as \<open>fgets\<close> stores it in \<open>in\<close>, with room for \<open>len\<close> bytes; the rest of the file.\<close>

definition kore_read_line :: "u8 list \<Rightarrow> nat \<Rightarrow> (u8 list \<times> u8 list) option" where
  "kore_read_line fp len =
     (if fp = [] then None
      else
        let l = fgets_line len fp;
            line = takeWhile (\<lambda>c. c \<noteq> 0 \<and> c \<noteq> 10) l;
            p = dropWhile is_white line;
            rest = drop (length l) fp in
        if p = [] \<or> hd p = 35 then Some ([], rest)
        else Some (map (\<lambda>c. if c = 9 then 32 else c) p, rest))"

section \<open>Numbers\<close>

definition digit_val :: "u8 \<Rightarrow> int" where
  "digit_val c =
     (if 48 \<le> uint c \<and> uint c \<le> 57 then uint c - 48
      else if 97 \<le> uint c \<and> uint c \<le> 122 then uint c - 97 + 10
      else if 65 \<le> uint c \<and> uint c \<le> 90 then uint c - 65 + 10
      else 36)"

definition base_value :: "int \<Rightarrow> u8 list \<Rightarrow> int" where
  "base_value base s = foldl (\<lambda>n c. n * base + digit_val c) 0 s"

text \<open>
  What \<open>strtoll\<close> and \<open>strtoull\<close> read in a base from 2 to 36: blanks, a sign, in base 16 perhaps \<open>0x\<close>, and digits.
  The sign, the value of the digits and what follows them; without digits nothing is read.
\<close>

definition skip_0x :: "int \<Rightarrow> u8 list \<Rightarrow> u8 list" where
  "skip_0x base t =
     (case t of z # x # c # _ \<Rightarrow> if base = 16 \<and> z = 48 \<and> (x = 120 \<or> x = 88) \<and> digit_val c < 16 then drop 2 t else t
      | _ \<Rightarrow> t)"

definition strto_scan :: "int \<Rightarrow> u8 list \<Rightarrow> (bool \<times> int \<times> u8 list) option" where
  "strto_scan base s =
     (let t = dropWhile is_white s;
          neg = (t \<noteq> [] \<and> hd t = 45);
          t = (if t \<noteq> [] \<and> (hd t = 45 \<or> hd t = 43) then tl t else t);
          t = skip_0x base t;
          ds = takeWhile (\<lambda>c. digit_val c < base) t in
      if ds = [] then None else Some (neg, base_value base ds, drop (length ds) t))"

abbreviation (input) LLONG_MIN :: int where "LLONG_MIN \<equiv> - (2 ^ 63)"
abbreviation (input) LLONG_MAX :: int where "LLONG_MAX \<equiv> 2 ^ 63 - 1"
abbreviation (input) ULLONG_MAX :: int where "ULLONG_MAX \<equiv> 2 ^ 64 - 1"

text \<open>The value, what follows the number, and whether \<open>errno\<close> is set to \<open>ERANGE\<close>.\<close>

definition strtoll :: "int \<Rightarrow> u8 list \<Rightarrow> int \<times> u8 list \<times> bool" where
  "strtoll base s =
     (case strto_scan base s of
        None \<Rightarrow> (0, s, False)
      | Some (neg, v, ep) \<Rightarrow>
          let v = (if neg then - v else v) in
          if v < LLONG_MIN then (LLONG_MIN, ep, True) else if v > LLONG_MAX then (LLONG_MAX, ep, True) else (v, ep, False))"

definition strtoull :: "int \<Rightarrow> u8 list \<Rightarrow> int \<times> u8 list \<times> bool" where
  "strtoull base s =
     (case strto_scan base s of
        None \<Rightarrow> (0, s, False)
      | Some (neg, v, ep) \<Rightarrow>
          if v > ULLONG_MAX then (ULLONG_MAX, ep, True) else ((if neg then (- v) mod 2 ^ 64 else v), ep, False))"

definition kore_strtonum :: "u8 list \<Rightarrow> int \<Rightarrow> int \<Rightarrow> int \<Rightarrow> int option" where
  "kore_strtonum str base lo hi =
     (if lo > hi then None
      else
        let (l, ep, errno) = strtoll base str in
        if errno \<or> ep = str \<or> ep \<noteq> [] then None
        else if l < lo then None
        else if l > hi then None
        else Some l)"

text \<open>Here \<open>errno\<close> is not cleared first: the calls start with what it holds, \<open>EINVAL\<close> or \<open>ERANGE\<close> or neither.\<close>

definition kore_strtonum64 :: "bool \<Rightarrow> u8 list \<Rightarrow> bool \<Rightarrow> int option" where
  "kore_strtonum64 errno0 str sign =
     (let (ll, ep, err) = strtoll 10 str; errno = (errno0 \<or> err); range = (errno \<and> (ll = LLONG_MIN \<or> ll = LLONG_MAX)) in
      if range \<and> sign then None
      else
        let check = \<not> range in
        if sign then (if str = ep \<or> ep \<noteq> [] then None else Some (ll mod 2 ^ 64))
        else
          let (l, ep, err) = strtoull 10 str; errno = (errno \<or> err) in
          if errno \<and> l = ULLONG_MAX then None
          else if check \<and> ll < 0 then None
          else if str = ep \<or> ep \<noteq> [] then None
          else Some l)"

section \<open>Dates\<close>

definition month_names :: "(u8 list \<times> int) list" where
  "month_names =
     [(cstr ''Jan'', 0), (cstr ''Feb'', 1), (cstr ''Mar'', 2), (cstr ''Apr'', 3), (cstr ''May'', 4), (cstr ''Jun'', 5),
      (cstr ''Jul'', 6), (cstr ''Aug'', 7), (cstr ''Sep'', 8), (cstr ''Oct'', 9), (cstr ''Nov'', 10), (cstr ''Dec'', 11)]"

record http_tm =
  http_year :: int
  http_mon :: int
  http_mday :: int
  http_hour :: int
  http_min :: int
  http_sec :: int

text \<open>
  The local time zone is a parameter: \<open>mktime\<close> with the \<open>tm_isdst\<close> of now, which answers \<open>-1\<close> when it
  has no answer, and the offset \<open>tm_gmtoff\<close> of the current time. \<open>None\<close> is the error result.
\<close>

definition kore_date_to_time :: "(http_tm \<Rightarrow> int) \<Rightarrow> int \<Rightarrow> u8 list \<Rightarrow> int option" where
  "kore_date_to_time mktime gmtoff http_date =
     (let args = kore_split_string http_date (cstr '' '') 7 in
      if length args \<noteq> 6 then None
      else case kore_strtonum (args ! 3) 10 1900 2068 of None \<Rightarrow> None | Some y \<Rightarrow>
      (case map_of month_names (args ! 2) of None \<Rightarrow> None | Some mon \<Rightarrow>
      (case kore_strtonum (args ! 1) 10 1 31 of None \<Rightarrow> None | Some mday \<Rightarrow>
       let tbuf = kore_split_string (args ! 4) (cstr '':'') 5 in
       if length tbuf \<noteq> 3 then None
       else case kore_strtonum (tbuf ! 0) 10 0 23 of None \<Rightarrow> None | Some hour \<Rightarrow>
      (case kore_strtonum (tbuf ! 1) 10 0 59 of None \<Rightarrow> None | Some mins \<Rightarrow>
      (case kore_strtonum (tbuf ! 2) 10 0 60 of None \<Rightarrow> None | Some sec \<Rightarrow>
       let t = mktime \<lparr>http_year = y - 1900, http_mon = mon, http_mday = mday, http_hour = hour, http_min = mins, http_sec = sec\<rparr> + gmtoff in
       Some (if t = -1 then 0 else t))))))"

section \<open>Reading numbers\<close>

lemma digit_val_digit: "digit_val c < 10 \<longleftrightarrow> is_digit c" "is_digit c \<Longrightarrow> digit_val c = uint c - 48"
  by (auto simp: digit_val_def is_digit_def)

lemma base_value_digits: "list_all is_digit ds \<Longrightarrow> base_value 10 ds = digits_value ds"
proof (induction ds rule: rev_induct)
  case (snoc c ds)
  then show ?case by (simp add: base_value_def digits_value_def digit_val_digit(2))
qed (simp add: base_value_def digits_value_def)

text \<open>Decimal digits with or without a sign are read up to the first other byte.\<close>

lemma strto_scan_digits:
  assumes "list_all is_digit ds" "ds \<noteq> []" "rest = [] \<or> \<not> is_digit (hd rest)"
  shows "strto_scan 10 (ds @ rest) = Some (False, digits_value ds, rest)" "strto_scan 10 (45 # ds @ rest) = Some (True, digits_value ds, rest)"
proof -
  obtain c r where c: "ds = c # r" using assms(2) by (cases ds) auto
  then have d: "is_digit c" using assms(1) by simp
  have t: "takeWhile (\<lambda>c. digit_val c < 10) (ds @ rest) = ds"
    using assms(1,3) by (cases rest) (auto simp: digit_val_digit(1) list_all_iff takeWhile_append)
  have w: "dropWhile is_white (ds @ rest) = ds @ rest" "\<not> is_white 45" using digit_not_white [OF d] c by (auto simp: is_white_def)
  have y: "dropWhile is_white (45 # ds @ rest) = 45 # ds @ rest" using w(2) by simp
  have x: "skip_0x 10 t = t" for t by (simp add: skip_0x_def split: list.split)
  have h: "hd (ds @ rest) \<noteq> 45" "hd (ds @ rest) \<noteq> 43" using digit_not_white [OF d] c by auto
  show "strto_scan 10 (ds @ rest) = Some (False, digits_value ds, rest)"
    unfolding strto_scan_def Let_def w(1) using h x t assms(1,2) by (simp add: base_value_digits)
  show "strto_scan 10 (45 # ds @ rest) = Some (True, digits_value ds, rest)"
    unfolding strto_scan_def Let_def y using x t assms(1,2) by (simp add: base_value_digits)
qed

lemma decimal_all_digits: "list_all is_digit (decimal_digits n)"
  using decimal_digits_digits by (auto simp: list_all_iff)

lemmas strto_scan_decimal = strto_scan_digits [OF decimal_all_digits decimal_digits_nonempty, unfolded digits_value_decimal]

lemma strto_scan_sprintf: "strto_scan 10 (sprintf_d i) = Some (i < 0, \<bar>i\<bar>, [])"
  using strto_scan_decimal [of "[]" "nat i"] strto_scan_decimal [of "[]" "nat (- i)"] by (simp add: sprintf_d_def)

lemma sprintf_d_nonempty: "sprintf_d i \<noteq> []"
  by (simp add: sprintf_d_def decimal_digits_nonempty)

text \<open>
  \<open>kore_strtonum\<close> reads back what \<open>%d\<close> prints of any number, if it lies between the bounds, and refuses it
  if it does not; so it refuses everything between bounds in the wrong order.
\<close>

theorem strtonum_reads_numbers:
  assumes "- (2 ^ 63) \<le> lo" "hi < 2 ^ 63"
  shows "kore_strtonum (sprintf_d i) 10 lo hi = (if lo \<le> i \<and> i \<le> hi then Some i else None)"
  using assms sprintf_d_nonempty [of i]
  by (auto simp: kore_strtonum_def strtoll_def strto_scan_sprintf Let_def)

theorem strtonum_reads_numbers_witness: "kore_strtonum (sprintf_d 206) 10 0 255 = Some 206 \<and> kore_strtonum (sprintf_d 256) 10 0 255 = None"
  using strtonum_reads_numbers [of 0 255 206] strtonum_reads_numbers [of 0 255 256] by simp

text \<open>
  \<open>kore_strtonum64\<close> refuses the small negative numbers when asked for an unsigned one, but reads those below
  the least 64-bit integer as the positive number 2^64 above them.
\<close>

theorem strtonum64_takes_negative:
  assumes "0 < n" "n < 2 ^ 64"
  shows "kore_strtonum64 False (sprintf_d (- n)) False = (if n \<le> 2 ^ 63 then None else Some (2 ^ 64 - n))"
proof -
  have s: "strto_scan 10 (sprintf_d (- n)) = Some (True, n, [])" using strto_scan_sprintf [of "- n"] assms(1) by simp
  have m: "(- n) mod 2 ^ 64 = 2 ^ 64 - n" using assms by (simp add: zmod_zminus1_eq_if)
  show ?thesis
  proof (cases "n \<le> 2 ^ 63")
    case True
    then show ?thesis using s m assms by (simp add: kore_strtonum64_def strtoll_def strtoull_def Let_def)
  next
    case False
    then have "strtoll 10 (sprintf_d (- n)) = (- (2 ^ 63), [], True)" using s by (simp add: strtoll_def Let_def)
    moreover have "strtoull 10 (sprintf_d (- n)) = (2 ^ 64 - n, [], False)" using s m assms by (simp add: strtoull_def)
    ultimately show ?thesis using False sprintf_d_nonempty [of "- n"] by (simp add: kore_strtonum64_def Let_def)
  qed
qed

theorem strtonum64_takes_negative_witness: "kore_strtonum64 False (sprintf_d (- 9223372036854775809)) False = Some 9223372036854775807"
  using strtonum64_takes_negative [of 9223372036854775809] by simp

section \<open>Cutting strings\<close>

fun joined :: "u8 \<Rightarrow> u8 list list \<Rightarrow> u8 list" where
  "joined d [] = []"
| "joined d [t] = t"
| "joined d (t # ts) = t @ d # joined d ts"

lemma strsep_token: "d \<notin> set t \<Longrightarrow> strsep t [d] = (t, None)" "d \<notin> set t \<Longrightarrow> strsep (t @ d # r) [d] = (t, Some r)"
proof -
  assume d: "d \<notin> set t"
  have e: "(\<lambda>c. c \<notin> set [d]) = (\<lambda>c. c \<noteq> d)" by auto
  have "takeWhile (\<lambda>c. c \<noteq> d) t = t" "dropWhile (\<lambda>c. c \<noteq> d) t = []" using d by auto
  then show "strsep t [d] = (t, None)" unfolding strsep_def e by (simp only: list.case)
  have "takeWhile (\<lambda>c. c \<noteq> d) (t @ d # r) = t" "dropWhile (\<lambda>c. c \<noteq> d) (t @ d # r) = d # r"
    using d by (auto simp: takeWhile_append takeWhile_eq_all_conv dropWhile_append)
  then show "strsep (t @ d # r) [d] = (t, Some r)" unfolding strsep_def e by (simp only: list.case)
qed

lemma split_joined:
  "ts \<noteq> [] \<Longrightarrow> \<forall>t \<in> set ts. t \<noteq> [] \<and> d \<notin> set t \<Longrightarrow> split_loop (Some (joined d ts)) [d] n = take n ts"
proof (induction d ts arbitrary: n rule: joined.induct)
  case (2 d t)
  then show ?case by (cases n) (simp_all add: strsep_token)
next
  case (3 d t u ts)
  then show ?case by (cases n) (simp_all add: strsep_token)
qed simp

text \<open>\<open>kore_split_string\<close> is the list of the tokens that are not empty, as many as there is room for.\<close>

lemma split_string_joined:
  assumes "ts \<noteq> []" "\<forall>t \<in> set ts. t \<noteq> [] \<and> d \<notin> set t" "length ts < ele"
  shows "kore_split_string (joined d ts) [d] ele = ts"
  using split_joined [OF assms(1,2), of "ele - 1"] assms(3) by (simp add: kore_split_string_def)

definition two_digits :: "int \<Rightarrow> u8 list" where
  "two_digits n = pad_zeros 2 (decimal_digits (nat n))"

lemma two_digits_props: "list_all is_digit (two_digits n)" "two_digits n \<noteq> []" "0 \<le> n \<Longrightarrow> digits_value (two_digits n) = n"
proof -
  have r: "list_all is_digit (replicate k 48)" "digits_value (replicate k 48) = 0" for k
    by (simp add: list_all_iff is_digit_def, induction k) (auto simp: digits_value_def)
  show "list_all is_digit (two_digits n)" using r decimal_all_digits by (simp add: two_digits_def pad_zeros_def)
  show "two_digits n \<noteq> []" using decimal_digits_nonempty by (simp add: two_digits_def pad_zeros_def)
  show "0 \<le> n \<Longrightarrow> digits_value (two_digits n) = n"
    using r digits_value_decimal by (simp add: two_digits_def pad_zeros_def digits_value_append)
qed

lemma strtonum_digits:
  assumes "list_all is_digit ds" "ds \<noteq> []" "lo \<le> digits_value ds" "digits_value ds \<le> hi" "hi < 2 ^ 63"
  shows "kore_strtonum ds 10 lo hi = Some (digits_value ds)"
  using strto_scan_digits(1) [OF assms(1,2), of "[]"] assms digits_value_bounds [OF assms(1)]
  by (simp add: kore_strtonum_def strtoll_def Let_def)

lemma digits_no: "list_all is_digit ds \<Longrightarrow> \<not> is_digit c \<Longrightarrow> c \<notin> set ds"
  by (auto simp: list_all_iff)

text \<open>The text of a date: the day of the week and the zone are any words.\<close>

definition http_date :: "u8 list \<Rightarrow> http_tm \<Rightarrow> u8 list \<Rightarrow> u8 list" where
  "http_date week tm zone =
     joined 32 [week, two_digits (http_mday tm), fst (month_names ! nat (http_mon tm)), sprintf_d (http_year tm + 1900),
       joined 58 [two_digits (http_hour tm), two_digits (http_min tm), two_digits (http_sec tm)], zone]"

lemma month_names_found:
  assumes "0 \<le> m" "m \<le> 11"
  shows "map_of month_names (fst (month_names ! nat m)) = Some m" "fst (month_names ! nat m) \<noteq> []" "32 \<notin> set (fst (month_names ! nat m))"
proof -
  have l: "length month_names = 12" "nat m < 12" using assms by (simp_all add: month_names_def)
  then have i: "month_names ! nat m \<in> set month_names" by simp
  have "distinct (map fst month_names)" by (simp add: month_names_def)
  moreover have "map snd month_names = map int [0..<12]" by (simp add: month_names_def upt_rec)
  then have "map snd month_names ! nat m = map int [0..<12] ! nat m" by simp
  then have "snd (month_names ! nat m) = m" using l assms by simp
  ultimately show "map_of month_names (fst (month_names ! nat m)) = Some m" using i by (metis map_of_is_SomeI prod.collapse)
  have "\<forall>p \<in> set month_names. fst p \<noteq> [] \<and> 32 \<notin> set (fst p)" by (simp add: month_names_def)
  then show "fst (month_names ! nat m) \<noteq> []" "32 \<notin> set (fst (month_names ! nat m))" using i by blast+
qed

text \<open>
  C33: the text of a date, from 1900 to 2068, is read back: \<open>kore_date_to_time\<close> answers the time that \<open>mktime\<close> has
  for exactly its fields, moved by the zone; a time of \<open>-1\<close> becomes 0.
\<close>

theorem date_is_read:
  assumes "0 \<le> http_year tm" "http_year tm \<le> 168" "0 \<le> http_mon tm" "http_mon tm \<le> 11" "1 \<le> http_mday tm" "http_mday tm \<le> 31"
    "0 \<le> http_hour tm" "http_hour tm \<le> 23" "0 \<le> http_min tm" "http_min tm \<le> 59" "0 \<le> http_sec tm" "http_sec tm \<le> 60"
    "week \<noteq> []" "32 \<notin> set week" "zone \<noteq> []" "32 \<notin> set zone"
  shows "kore_date_to_time mktime gmtoff (http_date week tm zone) =
    Some (if mktime tm + gmtoff = -1 then 0 else mktime tm + gmtoff)"
proof -
  let ?day = "two_digits (http_mday tm)" and ?mon = "fst (month_names ! nat (http_mon tm))" and ?year = "sprintf_d (http_year tm + 1900)"
  let ?hms = "[two_digits (http_hour tm), two_digits (http_min tm), two_digits (http_sec tm)]"
  note td = two_digits_props(1)
  have sp: "\<not> is_digit 32" "\<not> is_digit 58" by (simp_all add: is_digit_def)
  have y: "list_all is_digit ?year" using assms(1) by (simp add: sprintf_d_def decimal_all_digits)
  have hms: "32 \<notin> set (joined 58 ?hms)" "joined 58 ?hms \<noteq> []"
    using digits_no [OF td sp(1)] two_digits_props(2) by auto
  have s1: "kore_split_string (http_date week tm zone) (cstr '' '') 7 = [week, ?day, ?mon, ?year, joined 58 ?hms, zone]"
    unfolding http_date_def using split_string_joined [of "[week, ?day, ?mon, ?year, joined 58 ?hms, zone]" 32 7]
      assms month_names_found(2,3) two_digits_props(2) digits_no [OF td sp(1)] digits_no [OF y sp(1)] sprintf_d_nonempty hms by simp
  have s2: "kore_split_string (joined 58 ?hms) (cstr '':'') 5 = ?hms"
    using split_string_joined [of ?hms 58 5] two_digits_props(2) digits_no [OF td sp(2)] by simp
  have n: "kore_strtonum ?year 10 1900 2068 = Some (http_year tm + 1900)" using strtonum_reads_numbers [of 1900 2068] assms(1,2) by simp
  have t: "kore_strtonum (two_digits k) 10 lo hi = Some k" if "0 \<le> lo" "lo \<le> k" "k \<le> hi" "hi \<le> 60" for k lo hi
    using strtonum_digits [OF two_digits_props(1,2), of lo k hi] two_digits_props(3) [of k] that by simp
  have r: "\<lparr>http_year = http_year tm, http_mon = http_mon tm, http_mday = http_mday tm, http_hour = http_hour tm, http_min = http_min tm,
      http_sec = http_sec tm\<rparr> = tm" by simp
  show ?thesis
    unfolding kore_date_to_time_def Let_def s1 using s2 n t [of 1] t [of 0] month_names_found(1) assms by (simp add: r)
qed

theorem date_is_read_witness:
  "kore_date_to_time (\<lambda>tm. if http_mday tm = 6 \<and> http_year tm = 94 then 784111777 else 0) 0 (cstr ''Sun, 06 Nov 1994 08:49:37 GMT'') = Some 784111777"
proof -
  let ?tm = "\<lparr>http_year = 94, http_mon = 10, http_mday = 6, http_hour = 8, http_min = 49, http_sec = 37\<rparr>"
  have "http_date (cstr ''Sun,'') ?tm (cstr ''GMT'') = cstr ''Sun, 06 Nov 1994 08:49:37 GMT''"
    by (simp add: http_date_def two_digits_def pad_zeros_def month_names_def sprintf_d_def decimal_digits.simps)
  then show ?thesis
    using date_is_read [of ?tm "cstr ''Sun,''" "cstr ''GMT''" "\<lambda>tm. if http_mday tm = 6 \<and> http_year tm = 94 then 784111777 else 0" 0] by simp
qed

section \<open>Trimming\<close>

lemma trim_start_spec:
  "start \<le> end \<Longrightarrow> let s = trim_start start end mem in start \<le> s \<and> s \<le> end \<and> (\<forall>j. start \<le> j \<and> j < s \<longrightarrow> is_white (mem ! j)) \<and>
    (s = end \<or> \<not> is_white (mem ! s))"
proof (induction start "end" mem rule: trim_start.induct)
  case (1 start e mem)
  show ?case
  proof (cases "is_white (mem ! start) \<and> start < e")
    case True
    then have "trim_start start e mem = trim_start (start + 1) e mem" by (subst trim_start.simps) simp
    then show ?thesis using 1(1) [OF True] True by (auto simp: Let_def) (metis le_antisym not_less_eq_eq)+
  next
    case False
    then have "trim_start start e mem = start" by (subst trim_start.simps) auto
    then show ?thesis using False 1(2) by (auto simp: Let_def)
  qed
qed

lemma trim_end_spec:
  "start \<le> end \<Longrightarrow> end < length mem \<Longrightarrow> \<exists>e. start \<le> e \<and> e \<le> end \<and> (\<forall>j. e < j \<and> j \<le> end \<longrightarrow> is_white (mem ! j)) \<and> (e = start \<or> \<not> is_white (mem ! e)) \<and>
    trim_end start end mem = take (e + 1) mem @ replicate (end - e) 0 @ drop (end + 1) mem"
proof (induction start "end" mem rule: trim_end.induct)
  case (1 start l mem)
  show ?case
  proof (cases "start < l \<and> is_white (mem ! l)")
    case True
    then have t: "trim_end start l mem = trim_end start (l - 1) (mem[l := 0])" by (subst trim_end.simps) simp
    have "start \<le> l - 1" "l - 1 < length (mem[l := 0])" using True 1(3) by auto
    note IH = 1(1) [OF True this]
    obtain e where e: "start \<le> e" "e \<le> l - 1" "\<forall>j. e < j \<and> j \<le> l - 1 \<longrightarrow> is_white (mem[l := 0] ! j)" "e = start \<or> \<not> is_white (mem[l := 0] ! e)"
      "trim_end start (l - 1) (mem[l := 0]) = take (e + 1) (mem[l := 0]) @ replicate (l - 1 - e) 0 @ drop (l - 1 + 1) (mem[l := 0])"
      using IH by blast
    have d: "drop l (mem[l := 0]) = 0 # drop (l + 1) mem" "l - 1 + 1 = l"
      using 1(3) True by (simp_all add: drop_update_swap Cons_nth_drop_Suc [symmetric])
    have "e + 1 \<le> l" using e(2) True by linarith
    then have k: "take (e + 1) (mem[l := 0]) = take (e + 1) mem" by (rule take_update_cancel)
    have "Suc (l - 1 - e) = l - e" using e(2) True by linarith
    then have "replicate (l - 1 - e) 0 @ 0 # drop (l + 1) mem = replicate (l - e) 0 @ drop (l + 1) mem"
      by (metis append.assoc append_Cons append_Nil replicate_Suc replicate_append_same)
    then have "trim_end start l mem = take (e + 1) mem @ replicate (l - e) 0 @ drop (l + 1) mem"
      unfolding t e(5) d k by simp
    moreover have "is_white (mem ! j)" if "e < j" "j \<le> l" for j using e(3) that True by (cases "j = l") auto
    moreover have "e = start \<or> \<not> is_white (mem ! e)" using e(2,4) True by auto
    ultimately show ?thesis using e(1,2) by (intro exI [of _ e]) auto
  next
    case False
    then have "trim_end start l mem = mem" by (subst trim_end.simps) auto
    then show ?thesis using False 1(2) by (intro exI [of _ l]) auto
  qed
qed

text \<open>
  \<open>kore_text_trim\<close> finds the text between the blanks of the two ends and overwrites the blanks after it with
  NULs; but of a string that is all blanks the last one stays, so the trimmed string is not empty.
\<close>

theorem text_trim_strips:
  assumes "0 < len" "len \<le> length mem"
  shows "\<exists>s e. kore_text_trim mem len = Inr (s, take (e + 1) mem @ replicate (len - 1 - e) 0 @ drop len mem) \<and> s \<le> e \<and> e < len \<and>
    (\<forall>j < s. is_white (mem ! j)) \<and> (\<forall>j. e < j \<and> j < len \<longrightarrow> is_white (mem ! j)) \<and>
    (if \<forall>j < len. is_white (mem ! j) then s = len - 1 \<and> e = len - 1 else \<not> is_white (mem ! s) \<and> \<not> is_white (mem ! e))"
proof -
  define s where "s = trim_start 0 (len - 1) mem"
  have s: "s \<le> len - 1" "\<forall>j < s. is_white (mem ! j)" "s = len - 1 \<or> \<not> is_white (mem ! s)"
    using trim_start_spec [of 0 "len - 1" mem] by (auto simp: s_def Let_def)
  have l: "len - 1 < length mem" using assms by simp
  obtain e where e: "s \<le> e" "e \<le> len - 1" "\<forall>j. e < j \<and> j \<le> len - 1 \<longrightarrow> is_white (mem ! j)" "e = s \<or> \<not> is_white (mem ! e)"
    "trim_end s (len - 1) mem = take (e + 1) mem @ replicate (len - 1 - e) 0 @ drop (len - 1 + 1) mem"
    using trim_end_spec [OF s(1) l] by blast
  have "kore_text_trim mem len = Inr (s, take (e + 1) mem @ replicate (len - 1 - e) 0 @ drop len mem)"
    using e(5) assms by (simp add: kore_text_trim_def Let_def s_def)
  moreover have "is_white (mem ! j)" if "e < j" "j < len" for j using e(3) that by auto
  moreover have "\<not> is_white (mem ! s)" if "\<not> (\<forall>j < len. is_white (mem ! j))"
  proof
    assume w: "is_white (mem ! s)"
    then have "s = len - 1" using s(3) by blast
    then have "is_white (mem ! j)" if "j < len" for j using s(2) w that by (cases "j = s") auto
    then show False using that by blast
  qed
  ultimately show ?thesis using s e(1,2,4) assms(1) by (intro exI [of _ s] exI [of _ e]) auto
qed

theorem text_trim_strips_witness:
  "\<exists>s e. kore_text_trim [32, 97, 32] 3 = Inr (s, take (e + 1) [32, 97, 32] @ replicate (2 - e) 0) \<and> s \<le> e \<and> e < 3"
  using text_trim_strips [of 3 "[32, 97, 32]"] by force

section \<open>Base64\<close>

definition b64table :: "u8 list" where
  "b64table = cstr ''ABCDEFGHIJKLMNOPQRSTUVWXYZabcdefghijklmnopqrstuvwxyz0123456789+/'' @ [0]"

definition b64_char :: "nat \<Rightarrow> u32 \<Rightarrow> u8" where
  "b64_char k bytes = b64table ! unat (drop_bit k bytes AND 0x3f)"

definition b64_bytes :: "u8 list \<Rightarrow> u32" where
  "b64_bytes g = (case g of
     a # b # c # _ \<Rightarrow> push_bit 16 (ucast a) OR push_bit 8 (ucast b) OR ucast c
   | [a, b] \<Rightarrow> push_bit 16 (ucast a) OR push_bit 8 (ucast b)
   | [a] \<Rightarrow> push_bit 16 (ucast a)
   | [] \<Rightarrow> 0)"

definition encode_group :: "nat \<Rightarrow> u32 \<Rightarrow> kore_buf \<Rightarrow> kore_buf c_result" where
  "encode_group nb bytes result =
     c_bind (kore_buf_append [b64_char 18 bytes] result) (\<lambda>result.
     c_bind (kore_buf_append [b64_char 12 bytes] result) (\<lambda>result.
     if nb > 1 then
       c_bind (kore_buf_append [b64_char 6 bytes] result) (\<lambda>result.
       if nb > 2 then kore_buf_append [b64_char 0 bytes] result else Inr result)
     else Inr result))"

fun encode_loop :: "u8 list \<Rightarrow> nat \<Rightarrow> kore_buf \<Rightarrow> (nat \<times> kore_buf) c_result" where
  "encode_loop [] nb result = Inr (nb, result)"
| "encode_loop [a] nb result = c_bind (encode_group 1 (b64_bytes [a]) result) (\<lambda>result. Inr (1, result))"
| "encode_loop [a, b] nb result = c_bind (encode_group 2 (b64_bytes [a, b]) result) (\<lambda>result. Inr (2, result))"
| "encode_loop (a # b # c # ptr) nb result = c_bind (encode_group 3 (b64_bytes [a, b, c]) result) (encode_loop ptr 3)"

definition kore_base64_encode :: "u8 list \<Rightarrow> cells option c_result" where
  "kore_base64_encode data =
     c_bind (encode_loop data 0 (kore_buf_init (int (length data) div 3 * 4))) (\<lambda>(nb, result).
     if nb = 0 then Inr None
     else
       c_bind (if nb = 1 then kore_buf_appendf (Some (cstr ''=='')) result
               else if nb = 2 then kore_buf_appendf (Some (cstr ''='')) result else Inr result) (\<lambda>result.
       c_bind (kore_buf_stringify result) (\<lambda>(_, result). Inr (Some (cells_of result)))))"

text \<open>\<open>for (i = 2; i >= o; i--)\<close>, a byte of \<open>b\<close> each.\<close>

function decode_bytes :: "int \<Rightarrow> int \<Rightarrow> u32 \<Rightarrow> kore_buf \<Rightarrow> kore_buf c_result" where
  "decode_bytes i to b res =
     (if i \<ge> to \<and> i \<ge> 0 then c_bind (kore_buf_append [ucast (drop_bit (nat (8 * i)) b)] res) (decode_bytes (i - 1) to b) else Inr res)"
  by pat_completeness auto
termination
  by (relation "measure (\<lambda>(i, to, b, res). nat (i + 1))") auto

declare decode_bytes.simps [simp del]

fun decode_loop :: "u8 list \<Rightarrow> int \<Rightarrow> u32 \<Rightarrow> u8 \<Rightarrow> kore_buf \<Rightarrow> (int \<times> u32 \<times> u8 \<times> kore_buf) option c_result" where
  "decode_loop [] i b c res = Inr (Some (i, b, c, res))"
| "decode_loop (c # cs) i b _ res =
     (if c = 61 then Inr (Some (i, b, c, res))
      else
        let d = length (takeWhile (\<lambda>t. t \<noteq> c) b64table) in
        if d = length b64table then Inr None
        else
          let b = b OR push_bit (nat ((i - 1) * 6)) (of_nat d AND 0x3f); i = i - 1 in
          if i = 0 then c_bind (decode_bytes 2 0 b res) (decode_loop cs 4 0 c)
          else decode_loop cs i b c res)"

definition kore_base64_decode :: "u8 list \<Rightarrow> (cells option \<times> int) option c_result" where
  "kore_base64_decode line =
     (let len = length line mod 2 ^ 32 in
      c_bind (decode_loop (take len line) 4 0 0 (kore_buf_alloc (int len))) (\<lambda>r.
      case r of
        None \<Rightarrow> Inr None
      | Some (i, b, c, res) \<Rightarrow>
          if c = 61 \<and> i > 2 then Inr None
          else c_bind (if c = 61 then decode_bytes 2 i b res else Inr res) (\<lambda>res.
               let (out, olen, _) = kore_buf_release res in Inr (Some (out, olen)))))"

subsection \<open>Encoding\<close>

text \<open>The text of base64: four characters for three bytes, the last ones filled up with \<open>=\<close>.\<close>

fun b64_text :: "u8 list \<Rightarrow> u8 list" where
  "b64_text [] = []"
| "b64_text [a] = (let g = b64_bytes [a] in [b64_char 18 g, b64_char 12 g, 61, 61])"
| "b64_text [a, b] = (let g = b64_bytes [a, b] in [b64_char 18 g, b64_char 12 g, b64_char 6 g, 61])"
| "b64_text (a # b # c # r) =
     (let g = b64_bytes [a, b, c] in [b64_char 18 g, b64_char 12 g, b64_char 6 g, b64_char 0 g] @ b64_text r)"

lemma length_b64_text: "length (b64_text xs) = 4 * ((length xs + 2) div 3)"
proof (induction xs rule: b64_text.induct)
  case (4 a b c r)
  have "(length r + 2 + 3) div 3 = (length r + 2) div 3 + 1" by (rule div_add_self2) simp
  then show ?case using 4 by (simp add: Let_def)
qed (simp_all add: Let_def)

definition b64_padding :: "nat \<Rightarrow> u8 list" where
  "b64_padding nb = (if nb = 1 then [61, 61] else if nb = 2 then [61] else [])"

lemma encode_group_holds:
  assumes "buf_holds r bs" "length bs + 4 \<le> BUF_MAX" "0 < nb" "nb \<le> 3"
  shows "\<exists>r'. encode_group nb g r = Inr r' \<and> buf_holds r' (bs @ take (nb + 1) [b64_char 18 g, b64_char 12 g, b64_char 6 g, b64_char 0 g])"
proof -
  obtain r1 where r1: "kore_buf_append [b64_char 18 g] r = Inr r1" "buf_holds r1 (bs @ [b64_char 18 g])"
    using kbuf.append_holds [OF assms(1), of "[b64_char 18 g]"] assms(2) by auto
  obtain r2 where r2: "kore_buf_append [b64_char 12 g] r1 = Inr r2" "buf_holds r2 (bs @ [b64_char 18 g, b64_char 12 g])"
    using kbuf.append_holds [OF r1(2), of "[b64_char 12 g]"] assms(2) by auto
  obtain r3 where r3: "kore_buf_append [b64_char 6 g] r2 = Inr r3" "buf_holds r3 (bs @ [b64_char 18 g, b64_char 12 g, b64_char 6 g])"
    using kbuf.append_holds [OF r2(2), of "[b64_char 6 g]"] assms(2) by auto
  obtain r4 where r4: "kore_buf_append [b64_char 0 g] r3 = Inr r4" "buf_holds r4 (bs @ [b64_char 18 g, b64_char 12 g, b64_char 6 g, b64_char 0 g])"
    using kbuf.append_holds [OF r3(2), of "[b64_char 0 g]"] assms(2) by auto
  consider "nb = 1" | "nb = 2" | "nb = 3" using assms(3,4) by linarith
  then show ?thesis using r1 r2 r3 r4 by cases (simp_all add: encode_group_def)
qed

lemma encode_loop_holds:
  assumes "buf_holds r bs" "length bs + length (b64_text xs) \<le> BUF_MAX"
  shows "\<exists>nb' r' raw. encode_loop xs nb r = Inr (nb', r') \<and> buf_holds r' (bs @ raw) \<and>
    raw @ b64_padding (if xs = [] then 0 else nb') = b64_text xs \<and> nb' \<le> max nb 3 \<and> (xs \<noteq> [] \<longrightarrow> 0 < nb' \<and> nb' \<le> 3) \<and> (xs = [] \<longrightarrow> nb' = nb)"
  using assms
proof (induction xs nb r arbitrary: bs rule: encode_loop.induct)
  case (2 a nb r)
  then obtain r' where "encode_group 1 (b64_bytes [a]) r = Inr r'" "buf_holds r' (bs @ take 2 [b64_char 18 (b64_bytes [a]), b64_char 12 (b64_bytes [a]), b64_char 6 (b64_bytes [a]), b64_char 0 (b64_bytes [a])])"
    using encode_group_holds [of r bs 1 "b64_bytes [a]"] by (auto simp: Let_def)
  then show ?case by (fastforce simp: b64_padding_def Let_def)
next
  case (3 a b nb r)
  then obtain r' where "encode_group 2 (b64_bytes [a, b]) r = Inr r'" "buf_holds r' (bs @ take 3 [b64_char 18 (b64_bytes [a, b]), b64_char 12 (b64_bytes [a, b]), b64_char 6 (b64_bytes [a, b]), b64_char 0 (b64_bytes [a, b])])"
    using encode_group_holds [of r bs 2 "b64_bytes [a, b]"] by (auto simp: Let_def)
  then show ?case by (fastforce simp: b64_padding_def Let_def)
next
  case (4 a b c ptr nb r)
  let ?g = "b64_bytes [a, b, c]" and ?t = "\<lambda>g. [b64_char 18 g, b64_char 12 g, b64_char 6 g, b64_char 0 g]"
  obtain r1 where r1: "encode_group 3 ?g r = Inr r1" "buf_holds r1 (bs @ ?t ?g)"
    using encode_group_holds [OF 4(2), of 3 ?g] 4(3) by (auto simp: Let_def)
  obtain nb' r' raw where x: "encode_loop ptr 3 r1 = Inr (nb', r')" "buf_holds r' ((bs @ ?t ?g) @ raw)"
    "raw @ b64_padding (if ptr = [] then 0 else nb') = b64_text ptr" "nb' \<le> 3" "ptr \<noteq> [] \<longrightarrow> 0 < nb'" "ptr = [] \<longrightarrow> nb' = 3"
    using 4(1) [OF r1(2)] 4(3) by (auto simp: Let_def)
  have "(?t ?g @ raw) @ b64_padding nb' = b64_text (a # b # c # ptr)" using x(3,6) by (cases "ptr = []") (auto simp: b64_padding_def Let_def)
  then show ?case using r1(1) x(1,2,4-6) by (intro exI [of _ nb'] exI [of _ r'] exI [of _ "?t ?g @ raw"]) auto
qed (simp add: b64_padding_def)

subsection \<open>Decoding\<close>

lemma b64table_props: "length b64table = 65" "distinct b64table" "61 \<notin> set b64table" "take 64 b64table = filter (\<lambda>c. c \<noteq> 0) b64table"
  by (simp_all add: b64table_def)

lemma takeWhile_distinct: "distinct xs \<Longrightarrow> n < length xs \<Longrightarrow> length (takeWhile (\<lambda>t. t \<noteq> xs ! n) xs) = n"
proof (induction xs arbitrary: n)
  case (Cons x xs)
  then show ?case by (cases n) (auto simp: nth_mem)
qed simp

lemma sextet_lt: "unat ((w :: u32) AND 63) < 64"
  using word_and_le1 [of w 63] word_and_le2 [of w 63] by (simp add: word_le_nat_alt)

lemma b64_char_index:
  "length (takeWhile (\<lambda>t. t \<noteq> b64_char k w) b64table) = unat (drop_bit k w AND 63)" "b64_char k w \<noteq> 61" "b64_char k w \<noteq> 0"
proof -
  let ?n = "unat (drop_bit k w AND 63)"
  have n: "?n < 64" by (rule sextet_lt)
  then show "length (takeWhile (\<lambda>t. t \<noteq> b64_char k w) b64table) = ?n"
    using takeWhile_distinct [OF b64table_props(2), of ?n] b64table_props(1) by (simp add: b64_char_def)
  have "b64_char k w \<in> set b64table" using n b64table_props(1) by (simp add: b64_char_def)
  then show "b64_char k w \<noteq> 61" using b64table_props(3) by metis
  have "b64_char k w = take 64 b64table ! ?n" using n by (simp add: b64_char_def)
  moreover have "take 64 b64table ! ?n \<in> set (take 64 b64table)" by (rule nth_mem) (simp add: n b64table_props(1))
  ultimately show "b64_char k w \<noteq> 0" by (simp add: b64table_props(4))
qed

lemma decode_char:
  assumes "i \<noteq> 1"
  shows "decode_loop (b64_char k w # cs) i b c0 res =
    decode_loop cs (i - 1) (b OR push_bit (nat ((i - 1) * 6)) (drop_bit k w AND 63)) (b64_char k w) res"
  using assms b64_char_index [of k w] sextet_lt [of "drop_bit k w"] b64table_props(1) by (simp add: Let_def and.assoc)

lemma decode_fourth:
  "decode_loop (b64_char k w # cs) 1 b c0 res =
    c_bind (decode_bytes 2 0 (b OR (drop_bit k w AND 63)) res) (decode_loop cs 4 0 (b64_char k w))"
  using b64_char_index [of k w] sextet_lt [of "drop_bit k w"] b64table_props(1) by (simp add: Let_def and.assoc)

text \<open>The bits of a group, cut into sextets and put together again.\<close>

lemma sextets:
  fixes w :: u32
  shows "push_bit 18 (drop_bit 18 w AND 63) OR push_bit 12 (drop_bit 12 w AND 63) OR push_bit 6 (drop_bit 6 w AND 63) OR (w AND 63) = take_bit 24 w"
proof -
  have m: "(63 :: u32) = mask 6" by (simp add: mask_eq_exp_minus_1)
  show ?thesis unfolding m
  proof (rule bit_word_eqI)
    fix n :: nat
    assume "n < LENGTH(32)"
    consider "n < 6" | "6 \<le> n" "n < 12" | "12 \<le> n" "n < 18" | "18 \<le> n" "n < 24" | "24 \<le> n" by linarith
    then show "bit (push_bit 18 (drop_bit 18 w AND mask 6) OR push_bit 12 (drop_bit 12 w AND mask 6) OR push_bit 6 (drop_bit 6 w AND mask 6) OR
        (w AND mask 6)) n = bit (take_bit 24 w) n"
      by cases (auto simp: bit_simps)
  qed
qed

lemma group_bytes:
  fixes a b c :: u8
  defines "g \<equiv> b64_bytes [a, b, c]"
  shows "take_bit 24 g = g" "ucast (drop_bit 16 g) = a" "ucast (drop_bit 8 g) = b" "ucast g = c"
proof -
  have g: "g = push_bit 16 (ucast a) OR push_bit 8 (ucast b) OR ucast c" by (simp add: g_def b64_bytes_def)
  show "take_bit 24 g = g" unfolding g
  proof (rule bit_word_eqI)
    fix n :: nat
    assume "n < LENGTH(32)"
    have "\<not> bit (x :: u8) k" if "8 \<le> k" for x k using that bit_imp_le_length [of x k] by auto
    then show "bit (take_bit 24 (push_bit 16 (ucast a) OR push_bit 8 (ucast b) OR ucast c :: u32)) n =
        bit (push_bit 16 (ucast a) OR push_bit 8 (ucast b) OR ucast c :: u32) n"
      by (cases "n < 24") (auto simp: bit_simps)
  qed
  have z: "\<not> bit (x :: u8) k" if "8 \<le> k" for x k using that bit_imp_le_length [of x k] by auto
  show "ucast (drop_bit 16 g) = a" unfolding g by (rule bit_word_eqI) (auto simp: bit_simps z)
  show "ucast (drop_bit 8 g) = b" unfolding g by (rule bit_word_eqI) (auto simp: bit_simps z)
  show "ucast g = c" unfolding g by (rule bit_word_eqI) (auto simp: bit_simps z)
qed

lemma short_groups: "b64_bytes [a] = b64_bytes [a, 0, 0]" "b64_bytes [a, b] = b64_bytes [a, b, 0]"
  by (simp_all add: b64_bytes_def)

lemma upper_sextets:
  fixes w :: u32
  shows "ucast (drop_bit 16 (push_bit 18 (drop_bit 18 w AND 63) OR push_bit 12 (drop_bit 12 w AND 63))) = (ucast (drop_bit 16 (take_bit 24 w)) :: u8)"
    "ucast (drop_bit 16 (push_bit 18 (drop_bit 18 w AND 63) OR push_bit 12 (drop_bit 12 w AND 63) OR push_bit 6 (drop_bit 6 w AND 63))) = (ucast (drop_bit 16 (take_bit 24 w)) :: u8)"
    "ucast (drop_bit 8 (push_bit 18 (drop_bit 18 w AND 63) OR push_bit 12 (drop_bit 12 w AND 63) OR push_bit 6 (drop_bit 6 w AND 63))) = (ucast (drop_bit 8 (take_bit 24 w)) :: u8)"
proof -
  have e: "ucast (drop_bit k u) = (ucast (drop_bit k (take_bit 24 w)) :: u8)"
    if "\<And>n. k \<le> n \<Longrightarrow> n < k + 8 \<Longrightarrow> bit u n = bit (take_bit 24 w) n" for k and u :: u32
    by (rule bit_word_eqI) (use that in \<open>simp add: bit_simps\<close>)
  note s = sextets [of w, symmetric]
  have m: "(63 :: u32) = mask 6" by (simp add: mask_eq_exp_minus_1)
  show "ucast (drop_bit 16 (push_bit 18 (drop_bit 18 w AND 63) OR push_bit 12 (drop_bit 12 w AND 63))) = (ucast (drop_bit 16 (take_bit 24 w)) :: u8)"
    by (rule e) (auto simp: s m bit_simps)
  show "ucast (drop_bit 16 (push_bit 18 (drop_bit 18 w AND 63) OR push_bit 12 (drop_bit 12 w AND 63) OR push_bit 6 (drop_bit 6 w AND 63))) = (ucast (drop_bit 16 (take_bit 24 w)) :: u8)"
    by (rule e) (auto simp: s m bit_simps)
  show "ucast (drop_bit 8 (push_bit 18 (drop_bit 18 w AND 63) OR push_bit 12 (drop_bit 12 w AND 63) OR push_bit 6 (drop_bit 6 w AND 63))) = (ucast (drop_bit 8 (take_bit 24 w)) :: u8)"
    by (rule e) (auto simp: s m bit_simps)
qed

lemma decode_bytes_holds:
  assumes "buf_holds r bs" "length bs + 3 \<le> BUF_MAX" "0 \<le> to" "to \<le> 2"
  shows "\<exists>r'. decode_bytes 2 to b r = Inr r' \<and> buf_holds r' (bs @ take (nat (3 - to)) [ucast (drop_bit 16 b), ucast (drop_bit 8 b), ucast b])"
proof -
  let ?a = "ucast (drop_bit 16 b) :: u8" and ?b = "ucast (drop_bit 8 b) :: u8" and ?c = "ucast b :: u8"
  obtain r1 where r1: "kore_buf_append [?a] r = Inr r1" "buf_holds r1 (bs @ [?a])"
    using kbuf.append_holds [OF assms(1), of "[?a]"] assms(2) by auto
  obtain r2 where r2: "kore_buf_append [?b] r1 = Inr r2" "buf_holds r2 (bs @ [?a, ?b])"
    using kbuf.append_holds [OF r1(2), of "[?b]"] assms(2) by auto
  obtain r3 where r3: "kore_buf_append [?c] r2 = Inr r3" "buf_holds r3 (bs @ [?a, ?b, ?c])"
    using kbuf.append_holds [OF r2(2), of "[?c]"] assms(2) by auto
  consider "to = 0" | "to = 1" | "to = 2" using assms(3,4) by linarith
  then show ?thesis using r1 r2 r3
    by cases (simp_all add: decode_bytes.simps [of 2] decode_bytes.simps [of 1] decode_bytes.simps [of 0] decode_bytes.simps [of "-1"])
qed

lemma decode_sextet:
  "decode_loop (b64_char k w # cs) 4 b c0 res = decode_loop cs 3 (b OR push_bit 18 (drop_bit k w AND 63)) (b64_char k w) res"
  "decode_loop (b64_char k w # cs) 3 b c0 res = decode_loop cs 2 (b OR push_bit 12 (drop_bit k w AND 63)) (b64_char k w) res"
  "decode_loop (b64_char k w # cs) 2 b c0 res = decode_loop cs 1 (b OR push_bit 6 (drop_bit k w AND 63)) (b64_char k w) res"
  using decode_char [of 4 k w cs b c0 res] decode_char [of 3 k w cs b c0 res] decode_char [of 2 k w cs b c0 res]
  by (simp_all del: decode_loop.simps)

lemma decode_group:
  "decode_loop (b64_char 18 g # b64_char 12 g # b64_char 6 g # b64_char 0 g # cs) 4 0 c0 res =
    c_bind (decode_bytes 2 0 (take_bit 24 g) res) (decode_loop cs 4 0 (b64_char 0 g))"
  by (simp only: decode_sextet decode_fourth or.left_neutral or.assoc sextets drop_bit_0 id_apply)

lemma decode_text:
  assumes "buf_holds r bs" "length bs + length xs + 3 \<le> BUF_MAX" "c0 \<noteq> 61"
  shows "\<exists>i b c r1 r2. decode_loop (b64_text xs) 4 0 c0 r = Inr (Some (i, b, c, r1)) \<and> \<not> (c = 61 \<and> i > 2) \<and>
    (if c = 61 then decode_bytes 2 i b r1 else Inr r1) = Inr r2 \<and> buf_holds r2 (bs @ xs)"
  using assms
proof (induction xs arbitrary: r bs c0 rule: b64_text.induct)
  case 1
  then show ?case by auto
next
  case (2 a)
  let ?g = "b64_bytes [a]" and ?b = "push_bit 18 (drop_bit 18 (b64_bytes [a]) AND 63) OR push_bit 12 (drop_bit 12 (b64_bytes [a]) AND 63)"
  have "decode_loop (b64_text [a]) 4 0 c0 r = Inr (Some (2, ?b, 61, r))"
    by (simp only: b64_text.simps Let_def decode_sextet or.left_neutral) simp
  moreover have "ucast (drop_bit 16 ?b) = a" using upper_sextets(1) [of ?g] group_bytes(1,2) [of a 0 0] by (simp only: short_groups)
  ultimately show ?case using decode_bytes_holds [OF 2(1), of 2 ?b] 2(2) by auto
next
  case (3 a b)
  let ?g = "b64_bytes [a, b]" and ?b = "push_bit 18 (drop_bit 18 (b64_bytes [a, b]) AND 63) OR push_bit 12 (drop_bit 12 (b64_bytes [a, b]) AND 63) OR
    push_bit 6 (drop_bit 6 (b64_bytes [a, b]) AND 63)"
  have "decode_loop (b64_text [a, b]) 4 0 c0 r = Inr (Some (1, ?b, 61, r))"
    by (simp only: b64_text.simps Let_def decode_sextet or.left_neutral or.assoc) simp
  moreover have "ucast (drop_bit 16 ?b) = a" "ucast (drop_bit 8 ?b) = b"
    using upper_sextets(2,3) [of ?g] group_bytes(1-3) [of a b 0] by (simp_all only: short_groups)
  ultimately show ?case using decode_bytes_holds [OF 3(1), of 1 ?b] 3(2) by auto
next
  case (4 a b c xs)
  let ?g = "b64_bytes [a, b, c]"
  obtain r1 where r1: "decode_bytes 2 0 (take_bit 24 ?g) r = Inr r1" "buf_holds r1 (bs @ [a, b, c])"
    using decode_bytes_holds [OF 4(2), of 0 "take_bit 24 ?g"] 4(3) group_bytes [of a b c] by auto
  have "decode_loop (b64_text (a # b # c # xs)) 4 0 c0 r = decode_loop (b64_text xs) 4 0 (b64_char 0 ?g) r1"
    by (simp only: b64_text.simps Let_def append_Cons append_Nil decode_group r1(1) c_bind_simps)
  then show ?case using 4(1) [OF refl r1(2), of "b64_char 0 ?g"] 4(3) b64_char_index(2) [of 0 ?g] by simp
qed

lemma b64_text_bytes: "0 \<notin> set (b64_text xs)"
  by (induction xs rule: b64_text.induct) (auto simp: Let_def b64_char_index(3) b64_char_index(3) [symmetric])

text \<open>
  C32: what \<open>kore_base64_encode\<close> makes of any bytes but none at all is a string of four characters for every three
  bytes or part of three, and \<open>kore_base64_decode\<close> of that string gives the bytes and their number back.
\<close>

theorem base64_round_trip:
  assumes "data \<noteq> []" "length data < 2 ^ 31"
  shows "\<exists>out text back. kore_base64_encode data = Inr (Some out) \<and> take (length text + 1) out = map Some (text @ [0]) \<and> 0 \<notin> set text \<and>
    length text = 4 * ((length data + 2) div 3) \<and>
    kore_base64_decode text = Inr (Some (back, int (length data))) \<and>
    take (length data) (case back of None \<Rightarrow> [] | Some c \<Rightarrow> c) = map Some data"
proof -
  let ?t = "b64_text data" and ?n = "int (length data) div 3 * 4"
  have n: "0 \<le> ?n" "?n < 2 ^ 63" "length ?t + 1 \<le> BUF_MAX" "length ?t < 2 ^ 32" using assms(2) by (simp_all add: length_b64_text BUF_MAX_def)
  obtain nb r raw where e: "encode_loop data 0 (kore_buf_init ?n) = Inr (nb, r)" "buf_holds r raw" "raw @ b64_padding nb = ?t" "0 < nb" "nb \<le> 3"
    using encode_loop_holds [OF buf_alloc_holds(1) [OF n(1,2)], of data 0] n(3) assms(1) by auto
  have "\<exists>r1. (if nb = 1 then kore_buf_appendf (Some (cstr ''=='')) r else if nb = 2 then kore_buf_appendf (Some (cstr ''='')) r else Inr r) = Inr r1 \<and>
      buf_holds r1 ?t"
    using kbuf.append_holds [OF e(2), of "[61, 61]"] kbuf.append_holds [OF e(2), of "[61]"] e(2,3) n(3)
    by (cases "nb = 1"; cases "nb = 2") (auto simp: b64_padding_def kore_buf_appendf_def kore_buf_appendv_def simp flip: e(3))
  then obtain r1 where r1: "(if nb = 1 then kore_buf_appendf (Some (cstr ''=='')) r else if nb = 2 then kore_buf_appendf (Some (cstr ''='')) r else Inr r) = Inr r1"
    "buf_holds r1 ?t" by blast
  obtain r2 where r2: "kore_buf_append [0] r1 = Inr r2" "buf_holds r2 (?t @ [0])" using kbuf.append_holds [OF r1(2), of "[0]"] n(3) by auto
  have enc: "kore_base64_encode data = Inr (Some (cells_of r2))"
    using e r1(1) r2(1) by (simp add: kore_base64_encode_def kore_buf_stringify_def)
  obtain i b c q1 q2 where d: "decode_loop ?t 4 0 0 (kore_buf_alloc (int (length ?t))) = Inr (Some (i, b, c, q1))" "\<not> (c = 61 \<and> i > 2)"
    "(if c = 61 then decode_bytes 2 i b q1 else Inr q1) = Inr q2" "buf_holds q2 data"
    using decode_text [OF buf_alloc_holds(2) [of "int (length ?t)"], of data 0] n(4) assms(2) by (auto simp: BUF_MAX_def)
  have "kore_base64_decode ?t = Inr (Some (buf_data q2, buf_offset q2))"
    using d n(4) by (simp add: kore_base64_decode_def kore_buf_release_def)
  then show ?thesis using enc r2(2) d(4) b64_text_bytes [of data] length_b64_text [of data]
    by (intro exI [of _ "cells_of r2"] exI [of _ ?t] exI [of _ "buf_data q2"]) (auto simp: buf_holds_def)
qed

theorem base64_round_trip_witness:
  "\<exists>out text back. kore_base64_encode [77, 97] = Inr (Some out) \<and> take (length text + 1) out = map Some (text @ [0]) \<and> 0 \<notin> set text \<and>
    length text = 4 \<and> kore_base64_decode text = Inr (Some (back, 2)) \<and> take 2 (case back of None \<Rightarrow> [] | Some c \<Rightarrow> c) = map Some [77, 97]"
proof -
  have "length [77, 97 :: u8] = 2" "4 * ((2 + 2) div 3) = (4 :: nat)" "int 2 = 2" by simp_all
  then show ?thesis using base64_round_trip [of "[77, 97]"] by (simp only: list.distinct not_False_eq_True) simp
qed

end
