(* ===== verification/Kore_Timer.thy ===== *)
theory Kore_Timer
  imports C_Prelude
begin

text \<open>
  The timers of the web server, \<open>kore-3.2.0/src/timer.c\<close>: a list ordered by the time of the next run, and the loop
  that calls the timers that are due. Times are 64-bit milliseconds.
\<close>

section \<open>State and operations\<close>

text \<open>A timer is named by its address; its callback and argument are one parameter.\<close>

record 'cb kore_timer =
  timer_addr :: nat
  timer_cb :: 'cb
  interval :: int
  nextrun :: int
  oneshot :: bool

fun insert_timer :: "'cb kore_timer \<Rightarrow> 'cb kore_timer list \<Rightarrow> 'cb kore_timer list" where
  "insert_timer timer [] = [timer]"
| "insert_timer timer (t # ts) = (if nextrun t > nextrun timer then timer # t # ts else t # insert_timer timer ts)"

definition kore_timer_init :: "'cb kore_timer list" where
  "kore_timer_init = []"

definition kore_timer_add :: "int \<Rightarrow> nat \<Rightarrow> 'cb \<Rightarrow> int \<Rightarrow> bool \<Rightarrow> 'cb kore_timer list \<Rightarrow> 'cb kore_timer list" where
  "kore_timer_add now addr cb ival flag timers =
     insert_timer \<lparr>timer_addr = addr, timer_cb = cb, interval = ival, nextrun = (now + ival) mod 2 ^ 64, oneshot = flag\<rparr> timers"

definition kore_timer_remove :: "nat \<Rightarrow> 'cb kore_timer list \<Rightarrow> 'cb kore_timer list" where
  "kore_timer_remove addr timers = filter (\<lambda>t. timer_addr t \<noteq> addr) timers"

text \<open>
  What a callback does to the timers and to the rest of the state is a parameter. The loop may run forever,
  so it is a partial function.
\<close>

partial_function (option) timer_loop ::
  "('cb \<Rightarrow> int \<Rightarrow> 'cb kore_timer list \<times> 's \<Rightarrow> 'cb kore_timer list \<times> 's) \<Rightarrow> int \<Rightarrow> 'cb kore_timer list \<times> 's \<Rightarrow> (int \<times> 'cb kore_timer list \<times> 's) option" where
  "timer_loop call now st =
     (case fst st of
        [] \<Rightarrow> Some (1000, st)
      | timer # rest \<Rightarrow>
          if nextrun timer > now then Some (nextrun timer - now, st)
          else
            let st = call (timer_cb timer) now (rest, snd st) in
            timer_loop call now
              (if oneshot timer then st
               else (insert_timer (timer\<lparr>nextrun := (now + interval timer) mod 2 ^ 64\<rparr>) (fst st), snd st)))"

definition kore_timer_run ::
  "('cb \<Rightarrow> int \<Rightarrow> 'cb kore_timer list \<times> 's \<Rightarrow> 'cb kore_timer list \<times> 's) \<Rightarrow> int \<Rightarrow> 'cb kore_timer list \<times> 's \<Rightarrow> (int \<times> 'cb kore_timer list \<times> 's) option" where
  "kore_timer_run call now st =
     (case timer_loop call now st of
        None \<Rightarrow> None
      | Some (next_timer, st) \<Rightarrow> Some ((if next_timer > 1 then next_timer - 1 else next_timer), st))"

section \<open>The list stays in order\<close>

definition in_order :: "'cb kore_timer list \<Rightarrow> bool" where
  "in_order ts = sorted (map nextrun ts)"

lemma set_insert_timer [simp]: "set (insert_timer t ts) = insert t (set ts)"
  by (induction ts) auto

lemma insert_in_order: "in_order ts \<Longrightarrow> in_order (insert_timer t ts)"
  by (induction ts) (auto simp: in_order_def)

lemma add_in_order: "in_order ts \<Longrightarrow> in_order (kore_timer_add now addr cb ival flag ts)"
  by (simp add: kore_timer_add_def insert_in_order)

lemma remove_in_order: "in_order ts \<Longrightarrow> in_order (kore_timer_remove addr ts)"
  by (simp add: in_order_def kore_timer_remove_def sorted_filter)

lemma insert_after: "\<forall>t \<in> set as. nextrun t \<le> nextrun x \<Longrightarrow> insert_timer x (as @ bs) = as @ insert_timer x bs"
  by (induction as) auto

section \<open>Running the timers\<close>

text \<open>A callback that only changes the rest of the state.\<close>

definition acting :: "('cb \<Rightarrow> int \<Rightarrow> 's \<Rightarrow> 's) \<Rightarrow> 'cb \<Rightarrow> int \<Rightarrow> 'cb kore_timer list \<times> 's \<Rightarrow> 'cb kore_timer list \<times> 's" where
  "acting act cb now st = (fst st, act cb now (snd st))"

definition again :: "int \<Rightarrow> 'cb kore_timer \<Rightarrow> 'cb kore_timer" where
  "again now t = t\<lparr>nextrun := now + interval t\<rparr>"

definition rescheduled :: "int \<Rightarrow> 'cb kore_timer list \<Rightarrow> 'cb kore_timer list \<Rightarrow> 'cb kore_timer list" where
  "rescheduled now due later = fold insert_timer (map (again now) (filter (\<lambda>t. \<not> oneshot t) due)) later"

lemma again_fields [simp]: "nextrun (again now t) = now + interval t" "interval (again now t) = interval t" "oneshot (again now t) = oneshot t"
  by (simp_all add: again_def)

lemma set_rescheduled: "set (rescheduled now xs ys) = set ys \<union> again now ` {t \<in> set xs. \<not> oneshot t}"
  by (induction xs arbitrary: ys) (auto simp: rescheduled_def)

lemma rescheduled_in_order: "in_order ys \<Longrightarrow> in_order (rescheduled now xs ys)"
  by (induction xs arbitrary: ys) (auto simp: rescheduled_def insert_in_order)

lemma timer_loop_due:
  assumes "\<forall>t \<in> set due. nextrun t \<le> now" "\<forall>t \<in> set later. now < nextrun t"
    "\<forall>t \<in> set due. \<not> oneshot t \<longrightarrow> 0 < interval t \<and> now + interval t < 2 ^ 64" "0 \<le> now"
  shows "timer_loop (acting act) now (due @ later, s) =
    (let ts = rescheduled now due later; s' = fold (\<lambda>t. act (timer_cb t) now) due s in
     Some ((case ts of [] \<Rightarrow> 1000 | t # _ \<Rightarrow> nextrun t - now), ts, s'))"
  using assms
proof (induction due arbitrary: later s)
  case Nil
  then show ?case by (subst timer_loop.simps) (cases later; simp add: rescheduled_def)
next
  case (Cons t due)
  let ?later = "if oneshot t then later else insert_timer (again now t) later"
  have n: "(now + interval t) mod 2 ^ 64 = now + interval t" if "\<not> oneshot t" using Cons.prems(3,4) that by simp
  have i: "insert_timer (again now t) (due @ later) = due @ insert_timer (again now t) later" if "\<not> oneshot t"
    using insert_after [of due "again now t" later] Cons.prems(1,3) that by fastforce
  have "timer_loop (acting act) now ((t # due) @ later, s) = timer_loop (acting act) now (due @ ?later, act (timer_cb t) now s)"
    using Cons.prems(1) n i by (subst timer_loop.simps) (auto simp: acting_def Let_def again_def)
  moreover have "\<forall>u \<in> set ?later. now < nextrun u" using Cons.prems by auto
  ultimately show ?case using Cons.IH [of ?later "act (timer_cb t) now s"] Cons.prems
    by (cases "oneshot t") (simp_all add: rescheduled_def Let_def)
qed

text \<open>
  C34: if no repeated timer has the interval 0, \<open>kore_timer_run\<close> returns: it has called exactly the timers that were
  due, each once and in the order of their times, has dropped those that run once and put the others back at \<open>now\<close>
  plus their interval; the list is in order, nothing in it is due, and the answer is a millisecond less than the time
  to the first of them, but at least 1.
\<close>

theorem timers_run_once:
  fixes now :: int
  defines "due ts \<equiv> takeWhile (\<lambda>t. nextrun t \<le> now) ts"
  assumes "in_order ts" "\<forall>t \<in> set ts. \<not> oneshot t \<longrightarrow> 0 < interval t \<and> now + interval t < 2 ^ 64" "0 \<le> now"
  shows "\<exists>next ts'. kore_timer_run (acting act) now (ts, s) = Some (next, ts', fold (\<lambda>t. act (timer_cb t) now) (due ts) s) \<and>
    set ts' = {t \<in> set ts. now < nextrun t} \<union> again now ` {t \<in> set ts. nextrun t \<le> now \<and> \<not> oneshot t} \<and>
    in_order ts' \<and> (\<forall>t \<in> set ts'. now < nextrun t) \<and>
    next = max 1 ((case ts' of [] \<Rightarrow> 1000 | t # _ \<Rightarrow> nextrun t - now) - 1)"
proof -
  let ?later = "dropWhile (\<lambda>t. nextrun t \<le> now) ts" and ?due = "takeWhile (\<lambda>t. nextrun t \<le> now) ts"
  have d: "\<forall>t \<in> set ?due. nextrun t \<le> now" by (auto dest: set_takeWhileD)
  have o: "sorted (map nextrun ?later)" using assms(2) unfolding in_order_def by (metis dropWhile_eq_drop drop_map sorted_wrt_drop)
  have l: "\<forall>t \<in> set ?later. now < nextrun t"
  proof (cases "?later")
    case (Cons x xs)
    then have "now < nextrun x" using hd_dropWhile [of "\<lambda>t. nextrun t \<le> now" ts] by (metis list.distinct(1) list.sel(1) not_le)
    then show ?thesis using o Cons by fastforce
  qed (simp only: list.set ball_empty)
  have st: "set ?due = {t \<in> set ts. nextrun t \<le> now}" "set ?later = {t \<in> set ts. now < nextrun t}"
  proof -
    have "set ts = set ?due \<union> set ?later" by (metis set_append takeWhile_dropWhile_id)
    then show "set ?due = {t \<in> set ts. nextrun t \<le> now}" "set ?later = {t \<in> set ts. now < nextrun t}" using d l by fastforce+
  qed
  let ?ts = "rescheduled now ?due ?later"
  have iv: "\<forall>t \<in> set ?due. \<not> oneshot t \<longrightarrow> 0 < interval t \<and> now + interval t < 2 ^ 64" using assms(3) st(1) by blast
  have r: "timer_loop (acting act) now (ts, s) = Some ((case ?ts of [] \<Rightarrow> 1000 | t # _ \<Rightarrow> nextrun t - now), ?ts, fold (\<lambda>t. act (timer_cb t) now) ?due s)"
    using timer_loop_due [OF d l iv assms(4), of act s] by (simp add: Let_def)
  have later: "\<forall>t \<in> set ?ts. now < nextrun t" using l iv by (auto simp: set_rescheduled)
  then have "0 < (case ?ts of [] \<Rightarrow> 1000 | t # _ \<Rightarrow> nextrun t - now)" by (cases ?ts) auto
  moreover have "set ?ts = {t \<in> set ts. now < nextrun t} \<union> again now ` {t \<in> set ts. nextrun t \<le> now \<and> \<not> oneshot t}"
    unfolding set_rescheduled st by simp
  moreover have "in_order ?ts" using rescheduled_in_order o by (simp add: in_order_def)
  moreover have "kore_timer_run (acting act) now (ts, s) =
      Some (max 1 ((case ?ts of [] \<Rightarrow> 1000 | t # _ \<Rightarrow> nextrun t - now) - 1), ?ts, fold (\<lambda>t. act (timer_cb t) now) (due ts) s)"
    using calculation(1) unfolding kore_timer_run_def r due_def by simp
  ultimately show ?thesis using later by blast
qed

theorem timers_run_once_witness:
  "\<exists>next ts'. kore_timer_run (acting (\<lambda>cb now s. s @ [cb])) 10
      ([\<lparr>timer_addr = 0, timer_cb = (3 :: nat), interval = 5, nextrun = 8, oneshot = False\<rparr>], []) = Some (next, ts', [3]) \<and> next = 4"
proof -
  let ?t = "\<lparr>timer_addr = 0, timer_cb = (3 :: nat), interval = 5, nextrun = 8, oneshot = False\<rparr>"
  have h: "in_order [?t]" "\<forall>t \<in> set [?t]. \<not> oneshot t \<longrightarrow> 0 < interval t \<and> 10 + interval t < 2 ^ 64" "(0 :: int) \<le> 10"
    "takeWhile (\<lambda>t. nextrun t \<le> 10) [?t] = [?t]" "{t \<in> set [?t]. 10 < nextrun t} = {}" "{t \<in> set [?t]. nextrun t \<le> 10 \<and> \<not> oneshot t} = {?t}"
    by (simp_all add: in_order_def) auto
  obtain next' ts' where r: "kore_timer_run (acting (\<lambda>cb now s. s @ [cb])) 10 ([?t], []) = Some (next', ts', fold (\<lambda>t s. s @ [timer_cb t]) [?t] [])"
    "set ts' = {} \<union> again 10 ` {?t}" "next' = max 1 ((case ts' of [] \<Rightarrow> 1000 | t # _ \<Rightarrow> nextrun t - 10) - 1)"
    using timers_run_once [OF h(1-3), of "\<lambda>cb now s. s @ [cb]" "[]", unfolded h(4-6)] by blast
  then have "next' = 4" by (cases ts') auto
  moreover have "fold (\<lambda>t s. s @ [timer_cb t]) [?t] [] = [3]" by simp
  ultimately show ?thesis using r(1) by (simp only:) blast
qed

section \<open>The interval 0\<close>

text \<open>
  A timer that is repeated with the interval 0 keeps \<open>kore_timer_run\<close> from ever returning, once it is due.
\<close>

theorem interval_zero_never_returns:
  fixes act :: "'a \<Rightarrow> int \<Rightarrow> 's \<Rightarrow> 's" and ts :: "'a kore_timer list"
  assumes "in_order ts" "t \<in> set ts" "\<not> oneshot t" "interval t = 0" "nextrun t \<le> now" "0 \<le> now" "now < 2 ^ 64"
  shows "kore_timer_run (acting act) now (ts, s) = None"
proof -
  define stuck where "stuck ts \<longleftrightarrow> in_order ts \<and> (\<exists>t \<in> set ts. \<not> oneshot t \<and> interval t = 0 \<and> nextrun t \<le> now)" for ts :: "'a kore_timer list"
  have "timer_loop (acting act) now (ts, s) \<noteq> Some y" for y
  proof
    assume "timer_loop (acting act) now (ts, s) = Some y"
    then have "acting act = acting act \<longrightarrow> now = now \<longrightarrow> stuck (fst (ts, s)) \<longrightarrow> False"
    proof (rule timer_loop.raw_induct [where P = "\<lambda>c n st y. c = acting act \<longrightarrow> n = now \<longrightarrow> stuck (fst st) \<longrightarrow> False", rotated])
      fix f :: "('a \<Rightarrow> int \<Rightarrow> 'a kore_timer list \<times> 's \<Rightarrow> 'a kore_timer list \<times> 's) \<Rightarrow> int \<Rightarrow> 'a kore_timer list \<times> 's \<Rightarrow>
        (int \<times> 'a kore_timer list \<times> 's) option"
      fix c :: "'a \<Rightarrow> int \<Rightarrow> 'a kore_timer list \<times> 's \<Rightarrow> 'a kore_timer list \<times> 's" and n and st :: "'a kore_timer list \<times> 's" and y
      assume IH: "\<And>c n st y. f c n st = Some y \<Longrightarrow> c = acting act \<longrightarrow> n = now \<longrightarrow> stuck (fst st) \<longrightarrow> False"
      assume r: "(case fst st of [] \<Rightarrow> Some (1000, st)
          | timer # rest \<Rightarrow> if nextrun timer > n then Some (nextrun timer - n, st)
              else let st = c (timer_cb timer) n (rest, snd st) in
                f c n (if oneshot timer then st else (insert_timer (timer\<lparr>nextrun := (n + interval timer) mod 2 ^ 64\<rparr>) (fst st), snd st))) = Some y"
      show "c = acting act \<longrightarrow> n = now \<longrightarrow> stuck (fst st) \<longrightarrow> False"
      proof (intro impI)
        assume c: "c = acting act" "n = now" "stuck (fst st)"
        then obtain u us where u: "fst st = u # us" by (cases "fst st") (auto simp: stuck_def)
        obtain v where v: "v \<in> set (u # us)" "\<not> oneshot v" "interval v = 0" "nextrun v \<le> now" using c(3) u by (auto simp: stuck_def)
        have o: "in_order us" "nextrun u \<le> now" using c(3) u v by (auto simp: stuck_def in_order_def)
        let ?next = "if oneshot u then us else insert_timer (u\<lparr>nextrun := (now + interval u) mod 2 ^ 64\<rparr>) us"
        have "stuck ?next"
        proof (cases "v = u")
          case True
          then have m: "(now + interval u) mod 2 ^ 64 = now" using v(3) assms(6,7) by simp
          have "in_order ?next" using o(1) insert_in_order by auto
          moreover have "u\<lparr>nextrun := now\<rparr> \<in> set ?next" unfolding m using True v(2) by simp
          ultimately show ?thesis unfolding stuck_def using True v(2,3) by (intro conjI bexI [of _ "u\<lparr>nextrun := now\<rparr>"]) simp_all
        next
          case False
          then have "v \<in> set ?next" using v by auto
          then show ?thesis unfolding stuck_def using v o insert_in_order by (intro conjI bexI [of _ v]) auto
        qed
        moreover obtain st' where "f (acting act) now st' = Some y" "fst st' = ?next"
          using r c(1,2) u o(2) by (auto simp: Let_def acting_def split: if_splits)
        ultimately show False using IH [of "acting act" now st' y] by simp
      qed
    qed
    then show False using assms(1-5) by (auto simp: stuck_def)
  qed
  then have "timer_loop (acting act) now (ts, s) = None" by (cases "timer_loop (acting act) now (ts, s)") blast+
  then show ?thesis by (simp add: kore_timer_run_def)
qed

theorem interval_zero_never_returns_witness:
  "kore_timer_run (acting (\<lambda>cb now s. s)) 10 ([\<lparr>timer_addr = 0, timer_cb = (), interval = 0, nextrun = 8, oneshot = False\<rparr>], ()) = None"
  by (rule interval_zero_never_returns [where t = "\<lparr>timer_addr = 0, timer_cb = (), interval = 0, nextrun = 8, oneshot = False\<rparr>"])
    (simp_all add: in_order_def)

end
