(* ===== verification/Kore_Net.thy ===== *)
theory Kore_Net
  imports Kore_Buf
begin

text \<open>
  The connections of the web server, \<open>kore-3.2.0/src/net.c\<close> and the part of \<open>connection.c\<close> it calls: the queue of
  buffers to send, the buffer being received, and the loops that move bytes between them and the socket. Sizes are
  those of objects in memory, below 2^64. The structures themselves come from pools (\<open>Kore_Pool\<close>).
\<close>

section \<open>State\<close>

datatype netbuf_type = NETBUF_RECV | NETBUF_SEND

record 'cb netbuf =
  nb_cb :: "'cb option"
  nb_buf :: "cells option"
  nb_type :: netbuf_type
  s_off :: nat
  b_len :: nat
  m_len :: nat
  nb_stream :: bool
  nb_resend :: bool
  nb_remove :: bool
  nb_always :: bool

text \<open>What the system answers to a call: it takes or gives some bytes, or one of the errors that are told apart.\<close>

datatype io_result = Io_Bytes nat | Io_EINTR | Io_EAGAIN | Io_Want | Io_EOF | Io_Error

text \<open>
  A connection, with the two directions of its socket and the answers the system will give to the next writes and
  reads; when there are no more, the socket is not ready. \<open>snb\<close> says whether \<open>c->snb\<close> is the first of the queue or
  NULL, and \<open>finished\<close> lists the callbacks of the streams that were removed.
\<close>

record 'cb connection =
  send_queue :: "'cb netbuf list"
  snb :: bool
  rnb :: "'cb netbuf option"
  evt_read :: bool
  evt_write :: bool
  close_empty :: bool
  disconnecting :: bool
  tls :: bool
  tls_reneg :: int
  sock_out :: "u8 list"
  sock_in :: "u8 list"
  writes :: "io_result list"
  reads :: "io_result list"
  finished :: "'cb list"

text \<open>A new connection: nothing queued, nothing to receive; the events are those of a socket that is not ready.\<close>

definition kore_connection_new :: "bool \<Rightarrow> 'cb connection" where
  "kore_connection_new with_tls =
     \<lparr>send_queue = [], snb = False, rnb = None, evt_read = False, evt_write = False, close_empty = False, disconnecting = False,
      tls = with_tls, tls_reneg = 0, sock_out = [], sock_in = [], writes = [], reads = [], finished = []\<rparr>"

text \<open>Code that may fault and may not return.\<close>

definition co_bind :: "'a c_result option \<Rightarrow> ('a \<Rightarrow> 'b c_result option) \<Rightarrow> 'b c_result option" where
  "co_bind r f = (case r of None \<Rightarrow> None | Some (Inl e) \<Rightarrow> Some (Inl e) | Some (Inr x) \<Rightarrow> f x)"

lemma co_bind_simps [simp]: "co_bind None f = None" "co_bind (Some (Inl e)) f = Some (Inl e)" "co_bind (Some (Inr x)) f = f x"
  by (simp_all add: co_bind_def)

lemma co_bind_mono [partial_function_mono]:
  assumes "mono_option B" "\<And>y. mono_option (C y)"
  shows "mono_option (\<lambda>f. co_bind (B f) (\<lambda>y. C y f))"
proof -
  have "mono_option (\<lambda>f. Option.bind (B f) (\<lambda>r. case r of Inl e \<Rightarrow> Some (Inl e) | Inr x \<Rightarrow> C x f))"
  proof (rule bind_mono [OF assms(1)])
    fix r
    show "mono_option (\<lambda>f. case r of Inl e \<Rightarrow> Some (Inl e) | Inr x \<Rightarrow> C x f)"
      using assms(2) by (cases r) (simp_all add: option.const_mono)
  qed
  moreover have "co_bind (B f) (\<lambda>y. C y f) = Option.bind (B f) (\<lambda>r. case r of Inl e \<Rightarrow> Some (Inl e) | Inr x \<Rightarrow> C x f)" for f
    by (cases "B f") (auto simp: co_bind_def split: sum.split)
  ultimately show ?thesis by simp
qed

section \<open>Numbers on the wire\<close>

text \<open>The host is little-endian: \<open>ntohs\<close> and the like turn the bytes around.\<close>

definition net_read16 :: "u8 list \<Rightarrow> int" where
  "net_read16 b = foldl (\<lambda>n c. n * 256 + uint c) 0 (take 2 b)"

definition net_read32 :: "u8 list \<Rightarrow> int" where
  "net_read32 b = foldl (\<lambda>n c. n * 256 + uint c) 0 (take 4 b)"

definition net_read64 :: "u8 list \<Rightarrow> int" where
  "net_read64 b = foldl (\<lambda>n c. n * 256 + uint c) 0 (take 8 b)"

fun big_endian :: "nat \<Rightarrow> int \<Rightarrow> u8 list" where
  "big_endian 0 n = []"
| "big_endian (Suc k) n = big_endian k (n div 256) @ [word_of_int n]"

definition net_write16 :: "int \<Rightarrow> u8 list" where "net_write16 n = big_endian 2 n"
definition net_write32 :: "int \<Rightarrow> u8 list" where "net_write32 n = big_endian 4 n"
definition net_write64 :: "int \<Rightarrow> u8 list" where "net_write64 n = big_endian 8 n"

lemma length_big_endian [simp]: "length (big_endian k n) = k"
  by (induction k arbitrary: n) simp_all

lemma big_endian_value: "foldl (\<lambda>n c. n * 256 + uint c) 0 (big_endian k n) = n mod 256 ^ k"
proof (induction k arbitrary: n)
  case (Suc k)
  have "uint (word_of_int n :: u8) = n mod 256" by (simp add: uint_word_of_int)
  then show ?case using Suc [of "n div 256"] by (simp add: zmod_zmult2_eq)
qed simp

lemma net_numbers:
  "0 \<le> n \<Longrightarrow> n < 2 ^ 16 \<Longrightarrow> net_read16 (net_write16 n @ r) = n"
  "0 \<le> n \<Longrightarrow> n < 2 ^ 32 \<Longrightarrow> net_read32 (net_write32 n @ r) = n"
  "0 \<le> n \<Longrightarrow> n < 2 ^ 64 \<Longrightarrow> net_read64 (net_write64 n @ r) = n"
  using big_endian_value [of 2 n] big_endian_value [of 4 n] big_endian_value [of 8 n]
  by (simp_all add: net_read16_def net_read32_def net_read64_def net_write16_def net_write32_def net_write64_def)

section \<open>Queueing\<close>

definition net_netbuf_get :: "'cb netbuf" where
  "net_netbuf_get = \<lparr>nb_cb = None, nb_buf = None, nb_type = NETBUF_RECV, s_off = 0, b_len = 0, m_len = 0,
     nb_stream = False, nb_resend = False, nb_remove = False, nb_always = False\<rparr>"

definition new_send_netbuf :: "nat \<Rightarrow> u8 list \<Rightarrow> 'cb netbuf c_result" where
  "new_send_netbuf payload_max d =
     (let nb = net_netbuf_get\<lparr>b_len := length d, nb_type := NETBUF_SEND,
            m_len := (if length d < payload_max then payload_max else length d)\<rparr> in
      c_bind (copy_to 0 (map Some d) (fresh_cells (if m_len nb = 0 then 8 else int (m_len nb)))) (\<lambda>buf.
      Inr (nb\<lparr>nb_buf := Some buf\<rparr>)))"

text \<open>\<open>NETBUF_SEND_PAYLOAD_MAX\<close>, from a header that is not in the sources, is a parameter.\<close>

definition net_send_queue :: "nat \<Rightarrow> u8 list \<Rightarrow> ('cb, 'm) connection_scheme \<Rightarrow> ('cb, 'm) connection_scheme c_result" where
  "net_send_queue payload_max data c =
     (let append_new = (\<lambda>d c. c_bind (new_send_netbuf payload_max d) (\<lambda>nb. Inr (c\<lparr>send_queue := send_queue c @ [nb]\<rparr>))) in
      if send_queue c \<noteq> [] \<and> \<not> nb_stream (last (send_queue c)) \<and> b_len (last (send_queue c)) < m_len (last (send_queue c)) then
        let nb = last (send_queue c); avail = m_len nb - b_len nb;
            part = (if length data < avail then data else take avail data) in
        c_bind (copy_to (int (b_len nb)) (map Some part) (case nb_buf nb of None \<Rightarrow> [] | Some b \<Rightarrow> b)) (\<lambda>buf.
        let c = c\<lparr>send_queue := butlast (send_queue c) @ [nb\<lparr>nb_buf := Some buf, b_len := b_len nb + length part\<rparr>]\<rparr> in
        if length data < avail then Inr c
        else if length data - avail = 0 then Inr c
        else append_new (drop avail data) c)
      else append_new data c)"

definition net_send_stream :: "cells option \<Rightarrow> nat \<Rightarrow> 'cb option \<Rightarrow> ('cb, 'm) connection_scheme \<Rightarrow> ('cb, 'm) connection_scheme" where
  "net_send_stream data len cb c =
     c\<lparr>send_queue := send_queue c @
         [net_netbuf_get\<lparr>nb_cb := cb, nb_buf := data, b_len := len, m_len := len, nb_type := NETBUF_SEND, nb_stream := True\<rparr>]\<rparr>"

definition net_remove_netbuf :: "nat \<Rightarrow> ('cb, 'm) connection_scheme \<Rightarrow> ('cb, 'm) connection_scheme c_result" where
  "net_remove_netbuf i c =
     c_bind (arr_get (send_queue c) (int i)) (\<lambda>nb.
     if nb_type nb = NETBUF_RECV then Inl Fatal
     else if nb_resend nb then Inr (c\<lparr>send_queue := (send_queue c)[i := nb\<lparr>nb_remove := True\<rparr>]\<rparr>)
     else
       let c = (if nb_stream nb then (case nb_cb nb of None \<Rightarrow> c | Some cb \<Rightarrow> c\<lparr>finished := finished c @ [cb]\<rparr>) else c) in
       Inr (c\<lparr>send_queue := take i (send_queue c) @ drop (i + 1) (send_queue c)\<rparr>))"

section \<open>Sending\<close>

text \<open>The bytes of the first buffer that a write of \<open>len\<close> bytes offers to the system; \<open>r\<close> of them are taken.\<close>

definition offered :: "'cb netbuf \<Rightarrow> nat \<Rightarrow> cells c_result" where
  "offered nb len =
     (let buf = (case nb_buf nb of None \<Rightarrow> [] | Some b \<Rightarrow> b) in
      if length buf < s_off nb + len then Inl Out_Of_Bounds else Inr (take len (drop (s_off nb) buf)))"

definition take_bytes :: "'cb netbuf \<Rightarrow> nat \<Rightarrow> nat \<Rightarrow> ('cb, 'm) connection_scheme \<Rightarrow> ('cb, 'm) connection_scheme c_result" where
  "take_bytes nb len r c =
     c_bind (offered nb len) (\<lambda>bs.
     if None \<in> set (take r bs) then Inl Uninitialised else Inr (c\<lparr>sock_out := sock_out c @ map the (take r bs)\<rparr>))"

definition next_write :: "('cb, 'm) connection_scheme \<Rightarrow> io_result \<times> ('cb, 'm) connection_scheme" where
  "next_write c = (case writes c of [] \<Rightarrow> (Io_EAGAIN, c) | w # ws \<Rightarrow> (w, c\<lparr>writes := ws\<rparr>))"

definition net_write :: "'cb netbuf \<Rightarrow> nat \<Rightarrow> ('cb, 'm) connection_scheme \<Rightarrow> (bool \<times> nat \<times> ('cb, 'm) connection_scheme) c_result" where
  "net_write nb len c =
     (let (w, c) = next_write c in
      case w of
        Io_Bytes n \<Rightarrow> let r = min n len in c_bind (take_bytes nb len r c) (\<lambda>c. Inr (True, r, c))
      | Io_EINTR \<Rightarrow> Inr (True, 0, c)
      | Io_EAGAIN \<Rightarrow> Inr (True, 0, c\<lparr>evt_write := False\<rparr>)
      | _ \<Rightarrow> Inr (False, 0, c))"

abbreviation (input) INT_MAX :: int where "INT_MAX \<equiv> 2 ^ 31 - 1"

fun mark_first :: "'cb netbuf list \<Rightarrow> 'cb netbuf list" where
  "mark_first [] = []"
| "mark_first (nb # q) = nb\<lparr>nb_resend := True\<rparr> # q"

definition must_resend :: "('cb, 'm) connection_scheme \<Rightarrow> ('cb, 'm) connection_scheme" where
  "must_resend c = c\<lparr>send_queue := mark_first (send_queue c)\<rparr>"

definition net_write_tls :: "'cb netbuf \<Rightarrow> nat \<Rightarrow> ('cb, 'm) connection_scheme \<Rightarrow> (bool \<times> nat \<times> ('cb, 'm) connection_scheme) c_result" where
  "net_write_tls nb len c =
     (if int len > INT_MAX then Inr (False, 0, c)
      else
        let (w, c) = next_write c; r = (case w of Io_Bytes n \<Rightarrow> min n len | _ \<Rightarrow> 0) in
        c_bind (take_bytes nb len r c) (\<lambda>c.
        if tls_reneg c > 1 then Inr (False, 0, c)
        else if r > 0 then Inr (True, r, c)
        else case w of
            Io_Want \<Rightarrow> Inr (True, 0, must_resend (c\<lparr>evt_write := False\<rparr>))
          | Io_EINTR \<Rightarrow> Inr (True, 0, c)
          | Io_EAGAIN \<Rightarrow> Inr (True, 0, must_resend (c\<lparr>evt_write := False\<rparr>))
          | _ \<Rightarrow> Inr (False, 0, c)))"

text \<open>\<open>net_send\<close>, for a queue that is not empty: an empty one is a NULL pointer.\<close>

definition net_send :: "nat \<Rightarrow> ('cb, 'm) connection_scheme \<Rightarrow> (bool \<times> ('cb, 'm) connection_scheme) c_result" where
  "net_send payload_max c =
     (case send_queue c of
        [] \<Rightarrow> Inl Out_Of_Bounds
      | nb # q \<Rightarrow>
          let c = c\<lparr>snb := True\<rparr> in
          c_bind (if b_len nb = 0 then Inr (None, c)
                  else if b_len nb < s_off nb then Inl Out_Of_Bounds
                  else
                    let smin = b_len nb - s_off nb; len = min payload_max smin in
                    c_bind (if tls c then net_write_tls nb len c else net_write nb len c) (\<lambda>(ok, r, c).
                    if \<not> ok then Inr (Some False, c)
                    else if \<not> evt_write c then Inr (Some True, c)
                    else Inr (None, c\<lparr>send_queue := nb\<lparr>s_off := s_off nb + r, nb_resend := False\<rparr> # q\<rparr>)))
            (\<lambda>(ret, c).
            case ret of
              Some r \<Rightarrow> Inr (r, c)
            | None \<Rightarrow>
                let nb = hd (send_queue c) in
                if s_off nb = b_len nb \<or> nb_remove nb
                then c_bind (net_remove_netbuf 0 c) (\<lambda>c. Inr (True, c\<lparr>snb := False\<rparr>))
                else Inr (True, c)))"

text \<open>
  \<open>kore_connection_disconnect\<close> calls \<open>c->disconnect\<close> once, a parameter here; the lists of connections are not modelled.
\<close>

definition kore_connection_disconnect ::
  "(('cb, 'm) connection_scheme \<Rightarrow> ('cb, 'm) connection_scheme c_result option) \<Rightarrow> ('cb, 'm) connection_scheme \<Rightarrow> ('cb, 'm) connection_scheme c_result option" where
  "kore_connection_disconnect disconnect c =
     (if disconnecting c then Some (Inr c) else disconnect (c\<lparr>disconnecting := True\<rparr>))"

partial_function (option) send_loop :: "nat \<Rightarrow> ('cb, 'm) connection_scheme \<Rightarrow> (bool \<times> ('cb, 'm) connection_scheme) c_result option" where
  "send_loop payload_max c =
     (if send_queue c \<noteq> [] \<and> evt_write c then
        co_bind (Some (net_send payload_max c)) (\<lambda>r. if fst r then send_loop payload_max (snd r) else Some (Inr r))
      else Some (Inr (True, c)))"

definition net_send_flush ::
  "nat \<Rightarrow> (('cb, 'm) connection_scheme \<Rightarrow> ('cb, 'm) connection_scheme c_result option) \<Rightarrow> ('cb, 'm) connection_scheme \<Rightarrow>
    (bool \<times> ('cb, 'm) connection_scheme) c_result option" where
  "net_send_flush payload_max disconnect c =
     co_bind (send_loop payload_max c) (\<lambda>(ok, c).
     if \<not> ok then Some (Inr (False, c))
     else co_bind (if close_empty c \<and> send_queue c = [] then kore_connection_disconnect disconnect c else Some (Inr c)) (\<lambda>c.
     Some (Inr (True, c))))"

section \<open>Receiving\<close>

definition malloc_cells :: "nat \<Rightarrow> cells" where
  "malloc_cells n = fresh_cells (if n = 0 then 8 else int n)"

definition net_recv_queue :: "nat \<Rightarrow> bool \<Rightarrow> 'cb \<Rightarrow> ('cb, 'm) connection_scheme \<Rightarrow> ('cb, 'm) connection_scheme c_result" where
  "net_recv_queue len always cb c =
     (if rnb c \<noteq> None then Inl Fatal
      else Inr (c\<lparr>rnb := Some (net_netbuf_get\<lparr>nb_cb := Some cb, b_len := len, m_len := len, nb_always := always, nb_type := NETBUF_RECV,
                  nb_buf := Some (malloc_cells len)\<rparr>)\<rparr>))"

definition net_recv_reset :: "nat \<Rightarrow> nat \<Rightarrow> 'cb \<Rightarrow> ('cb, 'm) connection_scheme \<Rightarrow> ('cb, 'm) connection_scheme c_result" where
  "net_recv_reset payload_max len cb c =
     (case rnb c of
        None \<Rightarrow> Inl Out_Of_Bounds
      | Some nb \<Rightarrow>
          let nb = nb\<lparr>nb_cb := Some cb, s_off := 0, b_len := len\<rparr> in
          if nb_buf nb \<noteq> None \<and> b_len nb \<le> m_len nb \<and> m_len nb < payload_max div 2 then Inr (c\<lparr>rnb := Some nb\<rparr>)
          else Inr (c\<lparr>rnb := Some (nb\<lparr>m_len := len, nb_buf := Some (malloc_cells len)\<rparr>)\<rparr>))"

definition net_recv_expand :: "nat \<Rightarrow> 'cb \<Rightarrow> ('cb, 'm) connection_scheme \<Rightarrow> ('cb, 'm) connection_scheme c_result" where
  "net_recv_expand len cb c =
     (case rnb c of
        None \<Rightarrow> Inl Out_Of_Bounds
      | Some nb \<Rightarrow>
          let n = b_len nb + len in
          Inr (c\<lparr>rnb := Some (nb\<lparr>nb_cb := Some cb, b_len := n, m_len := n,
                 nb_buf := Some (case nb_buf nb of None \<Rightarrow> malloc_cells n | Some b \<Rightarrow> realloc_cells b (if n = 0 then 8 else int n))\<rparr>)\<rparr>))"

definition next_read :: "('cb, 'm) connection_scheme \<Rightarrow> io_result \<times> ('cb, 'm) connection_scheme" where
  "next_read c = (case reads c of [] \<Rightarrow> (Io_EAGAIN, c) | r # rs \<Rightarrow> (r, c\<lparr>reads := rs\<rparr>))"

text \<open>The system stores up to \<open>n\<close> bytes of what has arrived, and not more than there is room for.\<close>

definition got_bytes :: "'cb netbuf \<Rightarrow> nat \<Rightarrow> ('cb, 'm) connection_scheme \<Rightarrow> (nat \<times> ('cb, 'm) connection_scheme) c_result" where
  "got_bytes nb n c =
     (let k = min (min n (b_len nb - s_off nb)) (length (sock_in c)) in
      c_bind (copy_to (int (s_off nb)) (map Some (take k (sock_in c))) (case nb_buf nb of None \<Rightarrow> [] | Some b \<Rightarrow> b)) (\<lambda>buf.
      Inr (k, c\<lparr>sock_in := drop k (sock_in c), rnb := Some (nb\<lparr>nb_buf := Some buf\<rparr>)\<rparr>)))"

text \<open>A read into no room gives no byte, like the end of the input; a room below 0 is a huge \<open>size_t\<close>.\<close>

definition net_read ::
  "(('cb, 'm) connection_scheme \<Rightarrow> ('cb, 'm) connection_scheme c_result option) \<Rightarrow> 'cb netbuf \<Rightarrow> ('cb, 'm) connection_scheme \<Rightarrow>
    (bool \<times> nat \<times> ('cb, 'm) connection_scheme) c_result option" where
  "net_read disconnect nb c =
     (let (r, c) = next_read c;
          eof = co_bind (kore_connection_disconnect disconnect c) (\<lambda>c. Some (Inr (True, 0, c\<lparr>evt_read := False\<rparr>))) in
      if b_len nb < s_off nb then Some (Inl Out_Of_Bounds)
      else case r of
          Io_Bytes n \<Rightarrow>
            if b_len nb = s_off nb then eof
            else co_bind (Some (got_bytes nb n c)) (\<lambda>(k, c).
                 if k = 0 then Some (Inr (True, 0, c\<lparr>evt_read := False\<rparr>)) else Some (Inr (True, k, c)))
        | Io_EINTR \<Rightarrow> Some (Inr (True, 0, c))
        | Io_EAGAIN \<Rightarrow> Some (Inr (True, 0, c\<lparr>evt_read := False\<rparr>))
        | Io_EOF \<Rightarrow> eof
        | _ \<Rightarrow> Some (Inr (False, 0, c)))"

text \<open>When the socket is not ready, \<open>net_read_tls\<close> marks \<open>c->snb\<close>, which is NULL unless a buffer is being sent.\<close>

definition net_read_tls :: "'cb netbuf \<Rightarrow> ('cb, 'm) connection_scheme \<Rightarrow> (bool \<times> nat \<times> ('cb, 'm) connection_scheme) c_result" where
  "net_read_tls nb c =
     (let (r, c) = next_read c in
      if b_len nb < s_off nb then Inl Out_Of_Bounds
      else
        c_bind (case r of Io_Bytes n \<Rightarrow> got_bytes nb n c | _ \<Rightarrow> Inr (0, c)) (\<lambda>(k, c).
        if tls_reneg c > 1 then Inr (False, 0, c)
        else if k > 0 then Inr (True, k, c)
        else case r of
            Io_Bytes n \<Rightarrow> Inr (True, 0, c\<lparr>evt_read := False\<rparr>)
          | Io_Want \<Rightarrow> Inr (True, 0, c\<lparr>evt_read := False\<rparr>)
          | Io_EINTR \<Rightarrow> Inr (True, 0, c)
          | Io_EAGAIN \<Rightarrow>
              if snb c \<and> send_queue c \<noteq> [] then Inr (True, 0, must_resend (c\<lparr>evt_read := False\<rparr>)) else Inl Out_Of_Bounds
          | _ \<Rightarrow> Inr (False, 0, c)))"

text \<open>The callback of the receive buffer is run on the connection: a parameter of the loop.\<close>

partial_function (option) recv_loop ::
  "('cb \<Rightarrow> ('cb, 'm) connection_scheme \<Rightarrow> (bool \<times> ('cb, 'm) connection_scheme) c_result option) \<Rightarrow>
    (('cb, 'm) connection_scheme \<Rightarrow> ('cb, 'm) connection_scheme c_result option) \<Rightarrow> ('cb, 'm) connection_scheme \<Rightarrow>
    (bool \<times> ('cb, 'm) connection_scheme) c_result option" where
  "recv_loop run_cb disconnect c =
     (if \<not> evt_read c then Some (Inr (True, c))
      else case rnb c of
          None \<Rightarrow> Some (Inl Out_Of_Bounds)
        | Some nb \<Rightarrow>
            if nb_buf nb = None then Some (Inr (True, c))
            else
              co_bind (if tls c then Some (net_read_tls nb c) else net_read disconnect nb c) (\<lambda>res.
              let ok = fst res; r = fst (snd res); c = snd (snd res) in
              if \<not> ok then Some (Inr (False, c))
              else if \<not> evt_read c then Some (Inr (True, c))
              else case rnb c of
                  None \<Rightarrow> Some (Inl Out_Of_Bounds)
                | Some nb \<Rightarrow>
                    let nb = nb\<lparr>s_off := s_off nb + r\<rparr>; c = c\<lparr>rnb := Some nb\<rparr> in
                    if s_off nb = b_len nb \<or> nb_always nb then
                      case nb_cb nb of
                        None \<Rightarrow> Some (Inl Out_Of_Bounds)
                      | Some cb \<Rightarrow> co_bind (run_cb cb c) (\<lambda>res. if \<not> fst res then Some (Inr res) else recv_loop run_cb disconnect (snd res))
                    else recv_loop run_cb disconnect c))"

definition net_recv_flush ::
  "('cb \<Rightarrow> ('cb, 'm) connection_scheme \<Rightarrow> (bool \<times> ('cb, 'm) connection_scheme) c_result option) \<Rightarrow>
    (('cb, 'm) connection_scheme \<Rightarrow> ('cb, 'm) connection_scheme c_result option) \<Rightarrow> ('cb, 'm) connection_scheme \<Rightarrow>
    (bool \<times> ('cb, 'm) connection_scheme) c_result option" where
  "net_recv_flush run_cb disconnect c = (if rnb c = None then Some (Inr (True, c)) else recv_loop run_cb disconnect c)"

section \<open>What is queued is sent in order\<close>

definition nb_text :: "'cb netbuf \<Rightarrow> u8 list" where
  "nb_text nb = map the (take (b_len nb) (case nb_buf nb of None \<Rightarrow> [] | Some b \<Rightarrow> b))"

definition nb_ok :: "'cb netbuf \<Rightarrow> bool" where
  "nb_ok nb \<longleftrightarrow> nb_type nb = NETBUF_SEND \<and> \<not> nb_remove nb \<and> s_off nb \<le> b_len nb \<and> (0 < b_len nb \<longrightarrow> s_off nb < b_len nb) \<and> b_len nb \<le> m_len nb \<and>
     (nb_resend nb \<longrightarrow> 0 < b_len nb) \<and>
     (\<exists>buf. nb_buf nb = Some buf \<and> m_len nb \<le> length buf \<and> None \<notin> set (take (b_len nb) buf))"

definition unsent :: "('cb, 'm) connection_scheme \<Rightarrow> u8 list" where
  "unsent c = concat (map (\<lambda>nb. drop (s_off nb) (nb_text nb)) (send_queue c))"

definition send_ok :: "('cb, 'm) connection_scheme \<Rightarrow> bool" where
  "send_ok c \<longleftrightarrow> (\<forall>nb \<in> set (send_queue c). nb_ok nb)"

text \<open>The part of a connection that sending does not touch.\<close>

definition unsending :: "('cb, 'm) connection_scheme \<Rightarrow> ('cb, 'm) connection_scheme" where
  "unsending c = c\<lparr>send_queue := [], snb := False, evt_write := False, sock_out := [], writes := [], finished := []\<rparr>"

lemma cells_are_text: "None \<notin> set cs \<Longrightarrow> map Some (map the cs) = cs"
  by (induction cs) auto

lemma new_send_netbuf_ok:
  "\<exists>nb. new_send_netbuf pm d = Inr nb \<and> nb_ok nb \<and> nb_text nb = d \<and> s_off nb = 0 \<and> b_len nb = length d"
proof -
  let ?m = "if length d < pm then pm else length d"
  let ?x = "fresh_cells (if ?m = 0 then 8 else int ?m)"
  have x: "length d \<le> length ?x" "?m \<le> length ?x" by auto
  have "copy_to 0 (map Some d) ?x = Inr (map Some d @ drop (length d) ?x)"
    using copy_after [of "map Some d" ?x "[]"] x(1) by simp
  then show ?thesis using x
    by (auto simp: new_send_netbuf_def net_netbuf_get_def Let_def nb_ok_def nb_text_def comp_def)
qed

lemma queue_new:
  fixes c :: "('a, 'b) connection_scheme"
  assumes "send_ok c"
  shows "\<exists>c'. c_bind (new_send_netbuf pm d) (\<lambda>nb. Inr (c\<lparr>send_queue := send_queue c @ [nb]\<rparr>)) = Inr c' \<and> send_ok c' \<and>
    unsent c' = unsent c @ d \<and> sock_out c' = sock_out c \<and> unsending c' = unsending c \<and> evt_write c' = evt_write c"
proof -
  obtain nb :: "'a netbuf" where nb: "new_send_netbuf pm d = Inr nb" "nb_ok nb" "nb_text nb = d" "s_off nb = 0"
    using new_send_netbuf_ok [of pm d] by blast
  then show ?thesis using assms
    by (intro exI [of _ "c\<lparr>send_queue := send_queue c @ [nb]\<rparr>"]) (simp add: send_ok_def unsent_def unsending_def)
qed

lemma queue_holds:
  assumes "send_ok c"
  shows "\<exists>c'. net_send_queue pm d c = Inr c' \<and> send_ok c' \<and> unsent c' = unsent c @ d \<and> sock_out c' = sock_out c \<and>
    unsending c' = unsending c \<and> evt_write c' = evt_write c"
proof (cases "send_queue c \<noteq> [] \<and> \<not> nb_stream (last (send_queue c)) \<and> b_len (last (send_queue c)) < m_len (last (send_queue c))")
  case False
  then show ?thesis unfolding net_send_queue_def Let_def if_not_P [OF False] using queue_new [OF assms] by blast
next
  case True
  define nb where "nb = last (send_queue c)"
  have q: "send_queue c = butlast (send_queue c) @ [nb]" using True by (simp add: nb_def)
  then have "nb_ok nb" using assms unfolding send_ok_def by (metis in_set_conv_decomp)
  then obtain buf where b: "nb_buf nb = Some buf" "m_len nb \<le> length buf" "None \<notin> set (take (b_len nb) buf)" and
    n: "nb_type nb = NETBUF_SEND" "\<not> nb_remove nb" "s_off nb \<le> b_len nb" "0 < b_len nb \<longrightarrow> s_off nb < b_len nb" "b_len nb \<le> m_len nb"
    "nb_resend nb \<longrightarrow> 0 < b_len nb"
    by (auto simp: nb_ok_def)
  define avail where "avail = m_len nb - b_len nb"
  define part where "part = (if length d < avail then d else take avail d)"
  have lp: "length part \<le> avail" by (simp add: part_def)
  have "copy_to (int (b_len nb)) (map Some part) buf = Inr (take (b_len nb) buf @ map Some part @ drop (b_len nb + length (map Some part)) buf)"
    using copy_to_ok [of "b_len nb" "map Some part" buf] b(2) n(5) lp by (simp add: avail_def)
  then obtain buf' where buf': "copy_to (int (b_len nb)) (map Some part) buf = Inr buf'" "take (b_len nb + length part) buf' = take (b_len nb) buf @ map Some part"
    "length buf' = length buf"
    using b(2) n(5) lp by (auto simp: avail_def)
  let ?nb = "nb\<lparr>nb_buf := Some buf', b_len := b_len nb + length part\<rparr>"
  let ?c = "c\<lparr>send_queue := butlast (send_queue c) @ [?nb]\<rparr>"
  have ok: "nb_ok ?nb" using n b(2,3) lp buf'(2,3) by (auto simp: nb_ok_def avail_def)
  have "nb_text ?nb = nb_text nb @ part" using buf'(2) b(1) by (simp add: nb_text_def comp_def)
  moreover have "length (nb_text nb) = b_len nb" using b n(5) by (simp add: nb_text_def)
  ultimately have "drop (s_off nb) (nb_text ?nb) = drop (s_off nb) (nb_text nb) @ part" using n(3) by simp
  then have u: "unsent ?c = unsent c @ part" using arg_cong [OF q, of "\<lambda>q. concat (map (\<lambda>nb. drop (s_off nb) (nb_text nb)) q)"]
    by (simp add: unsent_def)
  have so: "send_ok ?c" using assms ok by (auto simp: send_ok_def dest: in_set_butlastD)
  have r: "net_send_queue pm d c = (if length d < avail then Inr ?c else if length d - avail = 0 then Inr ?c
      else c_bind (new_send_netbuf pm (drop avail d)) (\<lambda>nb. Inr (?c\<lparr>send_queue := send_queue ?c @ [nb]\<rparr>)))"
    unfolding net_send_queue_def Let_def if_P [OF True] unfolding nb_def [symmetric] avail_def [symmetric] part_def [symmetric]
    by (simp add: b(1) buf'(1))
  show ?thesis
  proof (cases "length d \<le> avail")
    case True
    then have "part = d" by (simp add: part_def)
    moreover have "net_send_queue pm d c = Inr ?c" unfolding r using True by simp
    ultimately show ?thesis using u so by (intro exI [of _ ?c]) (simp add: unsending_def)
  next
    case False
    then have "part = take avail d" by (simp add: part_def)
    then have "part @ drop avail d = d" by simp
    moreover obtain c' where "c_bind (new_send_netbuf pm (drop avail d)) (\<lambda>nb. Inr (?c\<lparr>send_queue := send_queue ?c @ [nb]\<rparr>)) = Inr c'" "send_ok c'"
      "unsent c' = unsent ?c @ drop avail d" "sock_out c' = sock_out ?c" "unsending c' = unsending ?c" "evt_write c' = evt_write ?c"
      using queue_new [OF so, of pm "drop avail d"] by blast
    moreover have "net_send_queue pm d c = c_bind (new_send_netbuf pm (drop avail d)) (\<lambda>nb. Inr (?c\<lparr>send_queue := send_queue ?c @ [nb]\<rparr>))"
      unfolding r using False by simp
    ultimately show ?thesis using u by (intro exI [of _ c']) (simp add: unsending_def)
  qed
qed

text \<open>A write takes the next bytes of the first buffer, or none.\<close>

lemma take_bytes_ok:
  assumes "nb_ok nb" "r \<le> len" "len \<le> b_len nb - s_off nb"
  shows "take_bytes nb len r c = Inr (c\<lparr>sock_out := sock_out c @ take r (drop (s_off nb) (nb_text nb))\<rparr>)"
proof -
  obtain buf where b: "nb_buf nb = Some buf" "b_len nb \<le> length buf" "None \<notin> set (take (b_len nb) buf)" "s_off nb \<le> b_len nb"
    using assms(1) by (auto simp: nb_ok_def)
  have t: "take r (take len (drop (s_off nb) buf)) = take r (drop (s_off nb) (take (b_len nb) buf))"
    using assms(2,3) by (simp add: drop_take min_def)
  have "None \<notin> set (take r (drop (s_off nb) (take (b_len nb) buf)))" using b(3) by (meson in_set_dropD in_set_takeD)
  then show ?thesis using b assms t
    by (simp add: take_bytes_def offered_def Let_def nb_text_def take_map drop_map del: take_take)
qed

lemma unsending_simps [simp]:
  "unsending (c\<lparr>send_queue := q\<rparr>) = unsending c" "unsending (c\<lparr>snb := b\<rparr>) = unsending c" "unsending (c\<lparr>evt_write := b\<rparr>) = unsending c"
  "unsending (c\<lparr>sock_out := out\<rparr>) = unsending c" "unsending (c\<lparr>writes := ws\<rparr>) = unsending c" "unsending (c\<lparr>finished := fs\<rparr>) = unsending c"
  by (simp_all add: unsending_def)

lemma must_resend_simps [simp]:
  "unsending (must_resend c) = unsending c" "sock_out (must_resend c) = sock_out c" "evt_write (must_resend c) = evt_write c"
  "send_queue (must_resend c) = mark_first (send_queue c)"
  by (simp_all add: must_resend_def)

text \<open>The queue is as before, or its first buffer is marked to be sent again as it is.\<close>

definition first_marked :: "'cb netbuf list \<Rightarrow> 'cb netbuf list \<Rightarrow> bool" where
  "first_marked q q' \<longleftrightarrow> q' = q \<or> q' = mark_first q"

lemma first_marked_intros [simp]: "first_marked q q" "first_marked q (mark_first q)"
  by (simp_all add: first_marked_def)

lemma marked_same: "0 < b_len nb \<Longrightarrow> nb_ok (nb\<lparr>nb_resend := True\<rparr>) = nb_ok nb" "nb_text (nb\<lparr>nb_resend := b\<rparr>) = nb_text nb"
  by (simp_all add: nb_ok_def nb_text_def)

lemma first_marked_same:
  assumes "first_marked (send_queue c) (send_queue c')" "send_queue c \<noteq> []" "0 < b_len (hd (send_queue c))"
  shows "send_ok c' = send_ok c" "unsent c' = unsent c"
proof -
  obtain nb r where q: "send_queue c = nb # r" "0 < b_len nb" using assms(2,3) by (cases "send_queue c") auto
  then have "send_queue c' = nb # r \<or> send_queue c' = nb\<lparr>nb_resend := True\<rparr> # r" using assms(1) by (simp add: first_marked_def)
  then show "send_ok c' = send_ok c" "unsent c' = unsent c"
    using q by (auto simp: send_ok_def unsent_def marked_same)
qed

definition write_post :: "'cb netbuf \<Rightarrow> nat \<Rightarrow> ('cb, 'm) connection_scheme \<Rightarrow> bool \<times> nat \<times> ('cb, 'm) connection_scheme \<Rightarrow> bool" where
  "write_post nb len c res = (case res of (ok, r, c') \<Rightarrow> r \<le> len \<and> unsending c' = unsending c \<and>
    (if ok \<and> evt_write c' then send_queue c' = send_queue c \<and> sock_out c' = sock_out c @ take r (drop (s_off nb) (nb_text nb)) \<and>
        length (writes c') < length (writes c)
     else sock_out c' = sock_out c \<and> first_marked (send_queue c) (send_queue c')))"

lemma write_step:
  assumes "nb_ok nb" "len \<le> b_len nb - s_off nb" "tls_reneg c \<le> 1" "evt_write c"
  shows "case (if tls c then net_write_tls nb len c else net_write nb len c) of Inl _ \<Rightarrow> False | Inr res \<Rightarrow> write_post nb len c res"
proof -
  obtain w c1 where w: "next_write c = (w, c1)" "unsending c1 = unsending c" "send_queue c1 = send_queue c" "sock_out c1 = sock_out c"
    "tls_reneg c1 \<le> 1" "w \<noteq> Io_EAGAIN \<Longrightarrow> length (writes c1) < length (writes c)" "evt_write c1"
    using assms(3,4) by (cases "writes c") (auto simp: next_write_def)
  note tb = take_bytes_ok [OF assms(1) _ assms(2), of _ c1]
  show ?thesis
  proof (cases "tls c")
    case False
    then show ?thesis using w tb by (cases w) (simp_all add: net_write_def write_post_def Let_def)
  next
    case True
    show ?thesis
    proof (cases "int len > INT_MAX")
      case big: True
      then show ?thesis using True by (simp add: net_write_tls_def write_post_def Let_def)
    next
      case small: False
      show ?thesis using True small w tb by (cases w) (simp_all add: net_write_tls_def write_post_def Let_def)
    qed
  qed
qed

text \<open>\<open>net_send\<close> loses nothing and repeats nothing, and uses up an answer of the system or a buffer.\<close>

lemma remove_first:
  assumes "send_queue d = n # q" "nb_type n = NETBUF_SEND" "\<not> nb_resend n"
  shows "\<exists>d'. net_remove_netbuf 0 d = Inr d' \<and> send_queue d' = q \<and> sock_out d' = sock_out d \<and> unsending d' = unsending d \<and>
      writes d' = writes d \<and> evt_write d' = evt_write d"
  using assms by (cases "nb_cb n") (auto simp: net_remove_netbuf_def Let_def)

lemma net_send_step:
  assumes "send_ok c" "send_queue c \<noteq> []" "0 < pm" "tls_reneg c \<le> 1" "evt_write c"
  shows "\<exists>ok c'. net_send pm c = Inr (ok, c') \<and> send_ok c' \<and> sock_out c' @ unsent c' = sock_out c @ unsent c \<and> unsending c' = unsending c \<and>
    (ok \<and> evt_write c' \<longrightarrow> length (writes c') + length (send_queue c') < length (writes c) + length (send_queue c))"
proof -
  obtain nb q where q: "send_queue c = nb # q" using assms(2) by (cases "send_queue c") auto
  let ?c = "c\<lparr>snb := True\<rparr>"
  have ok: "nb_ok nb" "\<forall>n \<in> set q. nb_ok n" using assms(1) q by (auto simp: send_ok_def)
  have u: "unsent c = drop (s_off nb) (nb_text nb) @ concat (map (\<lambda>nb. drop (s_off nb) (nb_text nb)) q)" by (simp add: unsent_def q)
  have lt: "length (nb_text nb) = b_len nb" using ok(1) by (auto simp: nb_ok_def nb_text_def)
  show ?thesis
  proof (cases "b_len nb = 0")
    case True
    then have n: "\<not> nb_resend nb" "s_off nb = 0" "nb_type nb = NETBUF_SEND" using ok(1) by (auto simp: nb_ok_def)
    obtain d where d: "net_remove_netbuf 0 ?c = Inr d" "send_queue d = q" "sock_out d = sock_out c" "unsending d = unsending c" "writes d = writes c"
      using remove_first [of ?c nb q] n q by auto
    have "net_send pm c = Inr (True, d\<lparr>snb := False\<rparr>)" using d(1) True n by (simp add: net_send_def q)
    then show ?thesis using d ok(2) u lt True by (auto simp: send_ok_def unsent_def q)
  next
    case False
    have n: "s_off nb < b_len nb" "nb_type nb = NETBUF_SEND" "\<not> nb_remove nb" using ok(1) False by (auto simp: nb_ok_def)
    define len where "len = min pm (b_len nb - s_off nb)"
    have l: "len \<le> b_len nb - s_off nb" by (simp add: len_def)
    obtain res where r0: "(if tls ?c then net_write_tls nb len ?c else net_write nb len ?c) = Inr res" "write_post nb len ?c res"
      using write_step [OF ok(1) l, of ?c] assms(4,5) by (auto split: sum.splits)
    obtain wok r c1 where res: "res = (wok, r, c1)" by (cases res) auto
    note w = r0(1) [unfolded res] r0(2) [unfolded res write_post_def prod.case]
    show ?thesis
    proof (cases "wok \<and> evt_write c1")
      case False
      then have "net_send pm c = Inr (if \<not> wok then False else True, c1)"
        using w(1) n \<open>b_len nb \<noteq> 0\<close> by (auto simp: net_send_def q Let_def len_def [symmetric])
      moreover have "first_marked (send_queue c) (send_queue c1)" "sock_out c1 = sock_out c" "unsending c1 = unsending c" using w(2) False by auto
      moreover have "send_ok c1" "unsent c1 = unsent c"
        using first_marked_same [OF calculation(2)] assms(1,2) q \<open>b_len nb \<noteq> 0\<close> by auto
      ultimately show ?thesis using False by auto
    next
      case True
      then have c1: "send_queue c1 = nb # q" "sock_out c1 = sock_out c @ take r (drop (s_off nb) (nb_text nb))" "length (writes c1) < length (writes c)"
        "unsending c1 = unsending c" "r \<le> len" using w(2) q by auto
      let ?nb = "nb\<lparr>s_off := s_off nb + r, nb_resend := False\<rparr>"
      let ?d = "c1\<lparr>send_queue := ?nb # q\<rparr>"
      have t: "take r (drop (s_off nb) (nb_text nb)) @ drop (s_off nb + r) (nb_text nb) = drop (s_off nb) (nb_text nb)"
        by (metis add.commute append_take_drop_id drop_drop)
      have s: "net_send pm c = (if s_off ?nb = b_len nb then c_bind (net_remove_netbuf 0 ?d) (\<lambda>c. Inr (True, c\<lparr>snb := False\<rparr>)) else Inr (True, ?d))"
        using w(1) True n \<open>b_len nb \<noteq> 0\<close> by (cases "tls c") (simp_all add: net_send_def q Let_def len_def [symmetric])
      show ?thesis
      proof (cases "s_off ?nb = b_len nb")
        case whole: True
        obtain d where d: "net_remove_netbuf 0 ?d = Inr d" "send_queue d = q" "sock_out d = sock_out c1" "unsending d = unsending c1"
          "writes d = writes c1" using remove_first [of ?d ?nb q] n(2) by auto
        have "drop (s_off nb + r) (nb_text nb) = []" using whole lt by simp
        then have "take r (drop (s_off nb) (nb_text nb)) = drop (s_off nb) (nb_text nb)" using t by simp
        then show ?thesis using s whole d c1 ok(2) u by (auto simp: send_ok_def unsent_def q)
      next
        case more: False
        have "nb_ok ?nb" using ok(1) more c1(5) l n(1) by (auto simp: nb_ok_def)
        moreover have "nb_text ?nb = nb_text nb" by (simp add: nb_text_def)
        ultimately show ?thesis using s more c1 ok(2) u t by (auto simp: send_ok_def unsent_def q)
      qed
    qed
  qed
qed

lemma send_loop_sends:
  assumes "send_ok c" "0 < pm" "tls_reneg c \<le> 1"
  shows "\<exists>ok c'. send_loop pm c = Some (Inr (ok, c')) \<and> send_ok c' \<and> sock_out c' @ unsent c' = sock_out c @ unsent c \<and> unsending c' = unsending c \<and>
    (ok \<longrightarrow> send_queue c' = [] \<or> \<not> evt_write c')"
  using assms
proof (induction "length (writes c) + length (send_queue c)" arbitrary: c rule: less_induct)
  case less
  show ?case
  proof (cases "send_queue c \<noteq> [] \<and> evt_write c")
    case False
    then have "send_loop pm c = Some (Inr (True, c))" by (subst send_loop.simps) auto
    then show ?thesis using less.prems False by auto
  next
    case True
    obtain ok c1 where c1: "net_send pm c = Inr (ok, c1)" "send_ok c1" "sock_out c1 @ unsent c1 = sock_out c @ unsent c" "unsending c1 = unsending c"
      "ok \<and> evt_write c1 \<longrightarrow> length (writes c1) + length (send_queue c1) < length (writes c) + length (send_queue c)"
      using net_send_step [OF less.prems(1) _ less.prems(2,3)] True by blast
    have r: "tls_reneg c1 \<le> 1" using arg_cong [OF c1(4), of tls_reneg] less.prems(3) by (simp add: unsending_def)
    have s: "send_loop pm c = (if ok then send_loop pm c1 else Some (Inr (False, c1)))" using True c1(1) by (subst send_loop.simps) simp
    show ?thesis
    proof (cases "ok \<and> evt_write c1")
      case True
      then show ?thesis using less.hyps [OF _ c1(2) less.prems(2) r] c1(3-5) s by auto
    next
      case stop: False
      then have "ok \<Longrightarrow> send_loop pm c1 = Some (Inr (True, c1))" by (subst send_loop.simps) auto
      then show ?thesis using s c1(2-4) stop by (cases ok) auto
    qed
  qed
qed

datatype 'cb net_op = Queue_Bytes "u8 list" | Queue_Stream "u8 list" "'cb option" | Flush "io_result list"

text \<open>Queueing, and what the event loop does when the socket is ready for writing.\<close>

definition run_op ::
  "nat \<Rightarrow> (('cb, 'm) connection_scheme \<Rightarrow> ('cb, 'm) connection_scheme c_result option) \<Rightarrow> 'cb net_op \<Rightarrow> ('cb, 'm) connection_scheme \<Rightarrow>
    (bool \<times> ('cb, 'm) connection_scheme) c_result option" where
  "run_op pm disconnect op c =
     (case op of
        Queue_Bytes d \<Rightarrow> Some (c_bind (net_send_queue pm d c) (\<lambda>c. Inr (True, c)))
      | Queue_Stream d cb \<Rightarrow> Some (Inr (True, net_send_stream (Some (map Some d)) (length d) cb c))
      | Flush ws \<Rightarrow> net_send_flush pm disconnect (c\<lparr>evt_write := True, writes := ws\<rparr>))"

fun run_ops ::
  "nat \<Rightarrow> (('cb, 'm) connection_scheme \<Rightarrow> ('cb, 'm) connection_scheme c_result option) \<Rightarrow> 'cb net_op list \<Rightarrow> ('cb, 'm) connection_scheme \<Rightarrow>
    ('cb, 'm) connection_scheme c_result option" where
  "run_ops pm disconnect [] c = Some (Inr c)"
| "run_ops pm disconnect (op # ops) c = co_bind (run_op pm disconnect op c) (\<lambda>(_, c). run_ops pm disconnect ops c)"

fun given :: "'cb net_op \<Rightarrow> u8 list" where
  "given (Queue_Bytes d) = d"
| "given (Queue_Stream d cb) = d"
| "given (Flush ws) = []"

lemma stream_ok: "send_ok c \<Longrightarrow> send_ok (net_send_stream (Some (map Some d)) (length d) cb c)"
  by (auto simp: send_ok_def net_send_stream_def net_netbuf_get_def nb_ok_def)

lemma unsending_fields:
  assumes "unsending c' = unsending c"
  shows "close_empty c' = close_empty c" "tls_reneg c' = tls_reneg c"
  using arg_cong [OF assms, of close_empty] arg_cong [OF assms, of tls_reneg] by (simp_all add: unsending_def)

lemma run_op_sends:
  assumes "send_ok c" "0 < pm" "tls_reneg c \<le> 1" "\<not> close_empty c"
  shows "\<exists>ok c'. run_op pm disconnect op c = Some (Inr (ok, c')) \<and> send_ok c' \<and> sock_out c' @ unsent c' = sock_out c @ unsent c @ given op \<and>
    unsending c' = unsending c \<and> (op = Flush ws \<and> ok \<longrightarrow> send_queue c' = [] \<or> \<not> evt_write c')"
proof (cases op)
  case (Queue_Bytes d)
  then show ?thesis using queue_holds [OF assms(1), of pm d] by (auto simp: run_op_def)
next
  case (Queue_Stream d cb)
  have "sock_out (net_send_stream (Some (map Some d)) (length d) cb c) @ unsent (net_send_stream (Some (map Some d)) (length d) cb c) = sock_out c @ unsent c @ d"
    by (simp add: net_send_stream_def unsent_def net_netbuf_get_def nb_text_def comp_def)
  then show ?thesis using Queue_Stream stream_ok [OF assms(1), of d cb] by (auto simp: run_op_def net_send_stream_def)
next
  case (Flush us)
  let ?c = "c\<lparr>evt_write := True, writes := us\<rparr>"
  have "send_ok ?c" "unsent ?c = unsent c" using assms(1) by (simp_all add: send_ok_def unsent_def)
  then obtain ok c' where r: "send_loop pm ?c = Some (Inr (ok, c'))" "send_ok c'" "sock_out c' @ unsent c' = sock_out c @ unsent c" "unsending c' = unsending c"
    "ok \<longrightarrow> send_queue c' = [] \<or> \<not> evt_write c'"
    using send_loop_sends [of ?c pm] assms(2,3) by auto
  have "net_send_flush pm disconnect ?c = Some (Inr (ok, c'))"
    using r(1) assms(4) unsending_fields(1) [OF r(4)] by (simp add: net_send_flush_def)
  then show ?thesis using Flush r(2-5) by (simp add: run_op_def)
qed

text \<open>
  C35: whatever is queued on a connection, in pieces or as streams, and whatever the system answers to the writes
  in between - parts, interruptions, errors, plain or TLS -, nothing faults or hangs, and the bytes it took so far
  followed by those still queued are exactly the bytes given, in order; after a flush that succeeds while the
  socket stays ready, all of them have been taken.
\<close>

theorem bytes_sent_in_order:
  assumes "0 < pm" "send_queue c = []" "sock_out c = []" "tls_reneg c \<le> 1" "\<not> close_empty c"
  shows "\<exists>ok c'. co_bind (run_ops pm disconnect ops c) (run_op pm disconnect (Flush ws)) = Some (Inr (ok, c')) \<and>
    sock_out c' @ unsent c' = concat (map given ops) \<and> (ok \<and> evt_write c' \<longrightarrow> sock_out c' = concat (map given ops))"
proof -
  have run: "\<exists>c'. run_ops pm disconnect ops d = Some (Inr c') \<and> send_ok c' \<and> sock_out c' @ unsent c' = sock_out d @ unsent d @ concat (map given ops) \<and>
      unsending c' = unsending d" if "send_ok d" "tls_reneg d \<le> 1" "\<not> close_empty d" for d
    using that
  proof (induction ops arbitrary: d)
    case (Cons op ops)
    obtain ok c1 where c1: "run_op pm disconnect op d = Some (Inr (ok, c1))" "send_ok c1" "sock_out c1 @ unsent c1 = sock_out d @ unsent d @ given op"
      "unsending c1 = unsending d"
      using run_op_sends [OF Cons.prems(1) assms(1) Cons.prems(2,3)] by blast
    have "tls_reneg c1 \<le> 1" "\<not> close_empty c1" using unsending_fields [OF c1(4)] Cons.prems by simp_all
    then obtain c2 where c2: "run_ops pm disconnect ops c1 = Some (Inr c2)" "send_ok c2"
      "sock_out c2 @ unsent c2 = sock_out c1 @ unsent c1 @ concat (map given ops)" "unsending c2 = unsending c1"
      using Cons.IH [OF c1(2)] by blast
    have "sock_out c2 @ unsent c2 = sock_out d @ unsent d @ concat (map given (op # ops))"
      unfolding c2(3) using c1(3) by (metis append.assoc concat.simps(2) list.simps(9))
    then show ?case using c1(1,4) c2(1,2,4) by simp
  qed simp
  have "send_ok c" "unsent c = []" using assms(2) by (simp_all add: send_ok_def unsent_def)
  then obtain c1 where c1: "run_ops pm disconnect ops c = Some (Inr c1)" "send_ok c1" "sock_out c1 @ unsent c1 = concat (map given ops)" "unsending c1 = unsending c"
    using run [of c] assms(3-5) by auto
  have f: "tls_reneg c1 \<le> 1" "\<not> close_empty c1" using unsending_fields [OF c1(4)] assms(4,5) by simp_all
  obtain ok c' where c': "run_op pm disconnect (Flush ws) c1 = Some (Inr (ok, c'))" "sock_out c' @ unsent c' = sock_out c1 @ unsent c1 @ []"
    "ok \<longrightarrow> send_queue c' = [] \<or> \<not> evt_write c'"
    using run_op_sends [OF c1(2) assms(1) f, of disconnect "Flush ws" ws] by auto
  have "sock_out c' = concat (map given ops)" if "ok \<and> evt_write c'"
    using that c'(2,3) c1(3) by (simp add: unsent_def)
  then show ?thesis using c1(1,3) c'(1,2) by auto
qed

theorem bytes_sent_in_order_witness:
  "\<exists>ok c'. co_bind (run_ops 8 (\<lambda>c. Some (Inr c)) [Queue_Bytes [1, 2, 3], Flush [Io_Bytes 2], Queue_Stream [4] None] (kore_connection_new True :: nat connection))
      (run_op 8 (\<lambda>c. Some (Inr c)) (Flush [Io_EINTR, Io_Bytes 9])) = Some (Inr (ok, c')) \<and> sock_out c' @ unsent c' = [1, 2, 3, 4]"
  using bytes_sent_in_order [of 8 "kore_connection_new True :: nat connection" "\<lambda>c. Some (Inr c)"
      "[Queue_Bytes [1, 2, 3], Flush [Io_Bytes 2], Queue_Stream [4] None]" "[Io_EINTR, Io_Bytes 9]"]
  by (simp only: kore_connection_new_def connection.simps list.map given.simps concat.simps append.simps) auto

text \<open>
  On a TLS connection that receives while nothing is being sent, a read that finds the socket not ready
  writes through the NULL pointer \<open>c->snb\<close>.
\<close>

theorem tls_read_marks_null:
  assumes "tls c" "tls_reneg c \<le> 1" "evt_read c" "rnb c = Some nb" "nb_buf nb \<noteq> None" "s_off nb \<le> b_len nb" "\<not> snb c" "reads c = Io_EAGAIN # rs"
  shows "net_recv_flush run_cb disconnect c = Some (Inl Out_Of_Bounds)"
  unfolding net_recv_flush_def using assms by (subst recv_loop.simps) (simp add: net_read_tls_def next_read_def Let_def)

theorem tls_read_marks_null_witness:
  "net_recv_flush (\<lambda>cb c. Some (Inr (True, c))) (\<lambda>c. Some (Inr c))
     ((kore_connection_new True)\<lparr>rnb := Some (net_netbuf_get\<lparr>nb_buf := Some (malloc_cells 2), b_len := 2, m_len := 2\<rparr>), evt_read := True,
        reads := [Io_EAGAIN]\<rparr> :: nat connection) = Some (Inl Out_Of_Bounds)"
  by (rule tls_read_marks_null [where nb = "net_netbuf_get\<lparr>nb_buf := Some (malloc_cells 2), b_len := 2, m_len := 2\<rparr>" and rs = "[]"])
    (simp_all add: kore_connection_new_def net_netbuf_get_def)

section \<open>What is received\<close>

text \<open>
  The receive buffer waits with callback \<open>cb\<close> for \<open>b\<close> bytes of the stream \<open>t\<close>, of which it holds \<open>k\<close>; the rest of
  the stream has not been read. \<open>always\<close> says whether the callback is called for every read.
\<close>

definition receiving :: "('cb, 'm) connection_scheme \<Rightarrow> bool \<Rightarrow> 'cb \<Rightarrow> nat \<Rightarrow> nat \<Rightarrow> u8 list \<Rightarrow> bool" where
  "receiving c always cb b k t \<longleftrightarrow>
     (\<exists>nb buf. rnb c = Some nb \<and> nb_buf nb = Some buf \<and> nb_cb nb = Some cb \<and> nb_always nb = always \<and> b_len nb = b \<and> s_off nb = k \<and>
        m_len nb \<le> length buf \<and> b \<le> length buf \<and> k \<le> b \<and> k \<le> length t \<and> take k buf = map Some (take k t)) \<and>
     sock_in c = drop k t"

lemma receiving_update [simp]:
  "receiving (c\<lparr>evt_read := e\<rparr>) al cb b k t = receiving c al cb b k t" "receiving (c\<lparr>reads := rs\<rparr>) al cb b k t = receiving c al cb b k t"
  by (simp_all add: receiving_def)

lemma receiving_unique:
  assumes "receiving c al cb b k t" "receiving c al' cb' b' k' t'"
  shows "al' = al \<and> cb' = cb \<and> b' = b \<and> k' = k \<and> t' = t"
proof -
  have u: "al' = al \<and> cb' = cb \<and> b' = b \<and> k' = k \<and> map Some (take k t') = (map Some (take k t) :: cells) \<and> drop k t' = drop k t"
    using assms by (auto simp: receiving_def)
  then have "take k t' = take k t" by (metis inj_map_eq_map inj_Some)
  then have "t' = t" using u by (metis append_take_drop_id)
  then show ?thesis using u by blast
qed

lemma reset_receiving:
  assumes "rnb c = Some nb" "nb_buf nb = None \<or> (\<exists>buf. nb_buf nb = Some buf \<and> m_len nb \<le> length buf)" "sock_in c = t"
  shows "\<exists>c'. net_recv_reset pm b cb c = Inr c' \<and> receiving c' (nb_always nb) cb b 0 t \<and> (\<exists>nb. c' = c\<lparr>rnb := Some nb\<rparr>)"
  using assms by (auto simp: net_recv_reset_def Let_def receiving_def malloc_cells_def)

text \<open>A read gives some bytes of the stream.\<close>

lemma got_step:
  assumes "receiving c al cb b k t" "rnb c = Some nb" "k < b"
  shows "\<exists>j nb1. (j = 0 \<longrightarrow> n = 0 \<or> drop k t = []) \<and> got_bytes nb n c = Inr (j, c\<lparr>sock_in := drop (k + j) t, rnb := Some nb1\<rparr>) \<and> nb_always nb1 = al \<and> nb_cb nb1 = Some cb \<and> nb_buf nb1 \<noteq> None \<and>
    k + j \<le> b \<and> b_len nb1 = b \<and> s_off nb1 = k \<and> (j = 0 \<longrightarrow> nb1 = nb) \<and>
    receiving (c\<lparr>sock_in := drop (k + j) t, rnb := Some (nb1\<lparr>s_off := k + j\<rparr>)\<rparr>) al cb b (k + j) t"
proof -
  obtain buf where nb: "nb_buf nb = Some buf" "nb_cb nb = Some cb" "nb_always nb = al" "b_len nb = b" "s_off nb = k" "m_len nb \<le> length buf" "b \<le> length buf" "k \<le> length t"
    "take k buf = map Some (take k t)" "sock_in c = drop k t" using assms(1,2) by (auto simp: receiving_def)
  define j where "j = min (min n (b - k)) (length (drop k t))"
  have j: "k + j \<le> b" "k + j \<le> length t" using assms(3) nb(8) by (auto simp: j_def)
  have j0: "j = 0 \<longrightarrow> n = 0 \<or> drop k t = []" using assms(3) by (simp add: j_def min_def)
  have lj: "length (take j (drop k t)) = j" using j(2) by simp
  let ?buf = "take k buf @ map Some (take j (drop k t)) @ drop (k + j) buf"
  have cp: "copy_to (int k) (map Some (take j (drop k t))) buf = Inr ?buf"
    using copy_to_ok [of k "map Some (take j (drop k t))" buf] j(1) nb(7) lj by simp
  have lb: "length (take k buf) = k" "length ?buf = length buf" using nb(7) j(1) lj assms(3) by simp_all
  have "take (k + j) ?buf = take k buf @ map Some (take j (drop k t))" using lb(1) lj by simp
  then have tk: "take (k + j) ?buf = map Some (take (k + j) t)" using nb(9) by (simp add: take_add)
  have g: "got_bytes nb n c = Inr (j, c\<lparr>sock_in := drop (k + j) t, rnb := Some (nb\<lparr>nb_buf := Some ?buf\<rparr>)\<rparr>)"
    unfolding got_bytes_def nb(1,4,5,10) j_def [symmetric] Let_def using cp by (simp add: add.commute)
  have "nb\<lparr>nb_buf := Some ?buf\<rparr> = nb" if "j = 0" using that nb(1) by simp
  moreover have "receiving (c\<lparr>sock_in := drop (k + j) t, rnb := Some (nb\<lparr>nb_buf := Some ?buf, s_off := k + j\<rparr>)\<rparr>) al cb b (k + j) t"
    unfolding receiving_def using nb j tk lb(2) by (intro conjI exI [of _ "nb\<lparr>nb_buf := Some ?buf, s_off := k + j\<rparr>"] exI [of _ ?buf]) simp_all
  ultimately show ?thesis using g nb j(1) j0 by (intro exI [of _ j] exI [of _ "nb\<lparr>nb_buf := Some ?buf\<rparr>"]) simp
qed

fun no_failure :: "io_result \<Rightarrow> bool" where
  "no_failure (Io_Bytes n) = True"
| "no_failure Io_EINTR = True"
| "no_failure Io_EAGAIN = True"
| "no_failure _ = False"

text \<open>How many reads give at least one byte, when there are bytes to give, before the socket is no longer ready.\<close>

fun gives :: "io_result list \<Rightarrow> nat" where
  "gives (Io_Bytes (Suc n) # rs) = Suc (gives rs)"
| "gives (Io_EINTR # rs) = gives rs"
| "gives _ = 0"

lemma gives_some [simp]: "0 < n \<Longrightarrow> gives (Io_Bytes n # rs) = Suc (gives rs)"
  by (cases n) simp_all

text \<open>The event loop: the socket becomes ready again and again, and each time gives what it will.\<close>

fun recv_rounds ::
  "(('cb, 'm) connection_scheme \<Rightarrow> (bool \<times> ('cb, 'm) connection_scheme) c_result option) \<Rightarrow> io_result list list \<Rightarrow> ('cb, 'm) connection_scheme \<Rightarrow>
    (bool \<times> ('cb, 'm) connection_scheme) c_result option" where
  "recv_rounds recv [] c = Some (Inr (True, c))"
| "recv_rounds recv (rs # rss) c =
     co_bind (recv (c\<lparr>evt_read := True, reads := rs\<rparr>)) (\<lambda>(ok, c). if ok then recv_rounds recv rss c else Some (Inr (False, c)))"

text \<open>
  What the loop asks of a protocol on top of it: its states are buffers that wait for bytes, or have been handed over;
  a part of the bytes waited for does not change the state; and the callback, which is called when all of them are
  there or when it is called always, leads to a later state of the protocol and leaves the socket as it is. In return
  no turn of the loop fails, and enough reads take every byte.
\<close>

locale recv_protocol =
  fixes run_cb :: "'cb \<Rightarrow> ('cb, 'm) connection_scheme \<Rightarrow> (bool \<times> ('cb, 'm) connection_scheme) c_result option"
    and holds :: "('cb, 'm) connection_scheme \<Rightarrow> 'x \<Rightarrow> bool"
    and later :: "'x \<Rightarrow> 'x \<Rightarrow> bool"
  assumes later_refl: "later x x"
    and later_trans: "later x y \<Longrightarrow> later y z \<Longrightarrow> later x z"
    and awaits: "holds c x \<Longrightarrow> \<not> tls c \<and> (\<exists>nb. rnb c = Some nb \<and> (nb_buf nb = None \<or> (\<exists>al cb b k t. receiving c al cb b k t \<and> k < b)))"
    and holds_events: "holds (c\<lparr>evt_read := e\<rparr>) x = holds c x" "holds (c\<lparr>reads := rs\<rparr>) x = holds c x"
    and over: "holds c x \<Longrightarrow> rnb c = Some nb \<Longrightarrow> nb_buf nb = None \<Longrightarrow> sock_in c = []"
    and part: "holds c x \<Longrightarrow> receiving c False cb b k t \<Longrightarrow> receiving (c\<lparr>sock_in := drop k1 t, rnb := Some nb1\<rparr>) False cb b k1 t \<Longrightarrow>
      k < k1 \<Longrightarrow> k1 < b \<Longrightarrow> holds (c\<lparr>sock_in := drop k1 t, rnb := Some nb1\<rparr>) x"
    and called: "holds c x \<Longrightarrow> receiving c al cb b k t \<Longrightarrow> receiving (c\<lparr>sock_in := drop k1 t, rnb := Some nb1\<rparr>) al cb b k1 t \<Longrightarrow>
      k \<le> k1 \<Longrightarrow> k < b \<Longrightarrow> k1 = b \<or> al \<Longrightarrow>
      \<exists>c2 y. run_cb cb (c\<lparr>sock_in := drop k1 t, rnb := Some nb1\<rparr>) = Some (Inr (True, c2)) \<and> holds c2 y \<and> later x y \<and> reads c2 = reads c \<and>
        evt_read c2 = evt_read c \<and> sock_in c2 = drop k1 t"
begin

lemma recv_loop_holds:
  assumes "holds c x" "list_all no_failure (reads c)"
  shows "\<exists>c' y. recv_loop run_cb disconnect c = Some (Inr (True, c')) \<and> holds c' y \<and> later x y \<and>
    list_all no_failure (reads c') \<and> (evt_read c \<longrightarrow> length (sock_in c') \<le> length (sock_in c) - gives (reads c))"
  using assms
proof (induction "length (reads c)" arbitrary: c x rule: less_induct)
  case less
  obtain nb where tls: "\<not> tls c" and nb: "rnb c = Some nb" and w: "nb_buf nb = None \<or> (\<exists>al cb b k t. receiving c al cb b k t \<and> k < b)"
    using awaits [OF less.prems(1)] by blast
  let ?loop = "recv_loop run_cb disconnect"
  have stop: ?case if "?loop c = Some (Inr (True, c'))" "holds c' x" "list_all no_failure (reads c')" "evt_read c \<longrightarrow> length (sock_in c') \<le> length (sock_in c) - gives (reads c)" for c'
    using that later_refl by blast
  consider (off) "\<not> evt_read c" | (taken) "nb_buf nb = None" | (waits) "evt_read c" "nb_buf nb \<noteq> None" by blast
  then show ?case
  proof cases
    case off
    then have "?loop c = Some (Inr (True, c))" by (subst recv_loop.simps) simp
    then show ?thesis using stop less.prems off by blast
  next
    case taken
    then have "?loop c = Some (Inr (True, c))" using nb by (subst recv_loop.simps) simp
    then show ?thesis using stop less.prems over [OF less.prems(1) nb taken] by simp
  next
    case waits
    have "\<exists>al cb b k t. receiving c al cb b k t \<and> k < b" using w waits(2) by (elim disjE) simp_all
    then obtain al cb b k t where r: "receiving c al cb b k t" "k < b" by (elim exE conjE)
    then obtain buf where b: "nb_buf nb = Some buf" "b_len nb = b" "s_off nb = k" "nb_cb nb = Some cb" "nb_always nb = al" "sock_in c = drop k t"
      using nb by (auto simp: receiving_def)
    show ?thesis
    proof (cases "reads c")
      case Nil
      then have "?loop c = Some (Inr (True, c\<lparr>evt_read := False\<rparr>))"
        using waits tls nb b r(2) by (subst recv_loop.simps) (simp add: net_read_def next_read_def)
      then show ?thesis using stop [of "c\<lparr>evt_read := False\<rparr>"] less.prems Nil by (simp add: holds_events)
    next
      case (Cons a rs)
      then have a: "no_failure a" "list_all no_failure rs" using less.prems(2) by simp_all
      let ?c0 = "c\<lparr>reads := rs\<rparr>"
      have h0: "holds ?c0 x" "receiving ?c0 al cb b k t" "rnb ?c0 = Some nb" using less.prems(1) r(1) nb by (simp_all add: holds_events)
      have again: ?thesis if nx: "?loop c = ?loop c1" "holds c1 y" "later x y" "reads c1 = rs" "evt_read c1"
          "length (sock_in c1) - gives rs \<le> length (sock_in c) - gives (a # rs)" for c1 y
      proof -
        have "length (reads c1) < length (reads c)" "list_all no_failure (reads c1)" using nx(4) Cons a(2) by simp_all
        then obtain c' z where c': "?loop c1 = Some (Inr (True, c'))" "holds c' z" "later y z" "length (sock_in c') \<le> length (sock_in c1) - gives (reads c1)"
          "list_all no_failure (reads c')"
          using less.hyps [OF _ nx(2)] nx(5) by blast
        have "length (sock_in c') \<le> length (sock_in c) - gives (reads c)" using c'(4) nx(6) unfolding nx(4) Cons by (rule order_trans)
        then show ?thesis using nx(1) c'(1,2,5) later_trans [OF nx(3) c'(3)] by auto
      qed
      have step: ?thesis if l: "?loop c = (if s_off nb2 = b_len nb2 \<or> nb_always nb2 then
            co_bind (run_cb cb c1) (\<lambda>res. if \<not> fst res then Some (Inr res) else ?loop (snd res)) else ?loop c1)"
          and c1: "c1 = ?c0\<lparr>sock_in := drop k1 t, rnb := Some nb2\<rparr>" "receiving c1 al cb b k1 t" "k \<le> k1" "k = k1 \<longrightarrow> nb2 = nb"
            "length (drop k1 t) - gives rs \<le> length (sock_in c) - gives (a # rs)" for c1 nb2 k1
      proof -
        have s: "s_off nb2 = k1" "b_len nb2 = b" "nb_always nb2 = al" using c1(1,2) by (auto simp: receiving_def)
        have e: "evt_read c1" "reads c1 = rs" "length (sock_in c1) - gives rs \<le> length (sock_in c) - gives (a # rs)"
          using c1(1,5) waits(1) by simp_all
        show ?thesis
        proof (cases "k1 = b \<or> al")
          case True
          then obtain c2 y where c2: "run_cb cb c1 = Some (Inr (True, c2))" "holds c2 y" "later x y" "reads c2 = rs"
              "evt_read c2" "sock_in c2 = drop k1 t"
            using called [OF h0(1,2), where ?k1.0 = k1 and ?nb1.0 = nb2] c1(1-4) r(2) waits(1) by auto
          then show ?thesis using again [of c2 y] l True s c1(5) by simp
        next
          case False
          then have lp: "?loop c = ?loop c1" using l s by simp
          show ?thesis
          proof (cases "k = k1")
            case True
            then have "c1 = ?c0" using c1(1,4) h0(3) b(6) by simp
            then show ?thesis using again [of ?c0 x] lp h0(1) later_refl e by simp
          next
            case kk: False
            have "receiving ?c0 False cb b k t" "receiving c1 False cb b k1 t" using h0(2) c1(2) False by simp_all
            then have "holds c1 x" using part [OF h0(1), where cb = cb and b = b and k = k and t = t and ?k1.0 = k1 and ?nb1.0 = nb2] c1 kk False s by (auto simp: receiving_def)
            then show ?thesis using again [OF lp _ later_refl e(2,1,3)] by blast
          qed
        qed
      qed
      show ?thesis
      proof (cases a)
        case Io_EAGAIN
        then have "?loop c = Some (Inr (True, ?c0\<lparr>evt_read := False\<rparr>))"
          using Cons waits tls nb b r(2) by (subst recv_loop.simps) (simp add: net_read_def next_read_def)
        then show ?thesis using stop [of "?c0\<lparr>evt_read := False\<rparr>"] h0(1) Cons Io_EAGAIN a(2) by (simp add: holds_events)
      next
        case Io_EINTR
        have "nb\<lparr>s_off := k\<rparr> = nb" using b(3) by simp
        then have e: "?c0\<lparr>rnb := Some (nb\<lparr>s_off := k\<rparr>)\<rparr> = ?c0\<lparr>sock_in := drop k t, rnb := Some nb\<rparr>" using nb b(6) by simp
        have "?loop c = (if s_off nb = b_len nb \<or> nb_always nb then
            co_bind (run_cb cb (?c0\<lparr>sock_in := drop k t, rnb := Some nb\<rparr>)) (\<lambda>res. if \<not> fst res then Some (Inr res) else ?loop (snd res))
            else ?loop (?c0\<lparr>sock_in := drop k t, rnb := Some nb\<rparr>))"
          unfolding e [symmetric] using Cons waits tls nb b r(2) Io_EINTR by (subst recv_loop.simps) (simp add: net_read_def next_read_def Let_def)
        moreover have "receiving (?c0\<lparr>sock_in := drop k t, rnb := Some nb\<rparr>) al cb b k t" using h0(2,3) b(6) by (simp add: receiving_def)
        moreover have "length (drop k t) - gives rs \<le> length (sock_in c) - gives (a # rs)" using Io_EINTR b(6) by simp
        ultimately show ?thesis using step [OF _ refl _ le_refl] by blast
      next
        case (Io_Bytes n)
        obtain j nb1 where g: "got_bytes nb n ?c0 = Inr (j, ?c0\<lparr>sock_in := drop (k + j) t, rnb := Some nb1\<rparr>)" "nb_always nb1 = al" "nb_cb nb1 = Some cb"
          "nb_buf nb1 \<noteq> None" "k + j \<le> b" "b_len nb1 = b" "s_off nb1 = k" "j = 0 \<longrightarrow> nb1 = nb"
          "receiving (?c0\<lparr>sock_in := drop (k + j) t, rnb := Some (nb1\<lparr>s_off := k + j\<rparr>)\<rparr>) al cb b (k + j) t"
          "j = 0 \<longrightarrow> n = 0 \<or> drop k t = []"
          using got_step [OF h0(2,3) r(2), of n] by auto
        show ?thesis
        proof (cases "j = 0")
          case True
          then have e: "?c0\<lparr>sock_in := drop (k + j) t, rnb := Some nb1\<rparr> = ?c0" using g(8) h0(3) b(6) by simp
          have l: "?loop c = Some (Inr (True, ?c0\<lparr>sock_in := drop (k + j) t, rnb := Some nb1, evt_read := False\<rparr>))"
            using Cons waits tls nb b r(2) Io_Bytes g(1) True by (subst recv_loop.simps) (simp add: net_read_def next_read_def Let_def)
          have "length (sock_in c) \<le> length (sock_in c) - gives (reads c)"
            using g(10) True Io_Bytes Cons b(6) by (cases n) simp_all
          then show ?thesis using stop [of "?c0\<lparr>evt_read := False\<rparr>"] h0(1) e l a(2) by (simp add: holds_events)
        next
          case False
          let ?nb = "nb1\<lparr>s_off := k + j\<rparr>"
          have "?loop c = (if s_off ?nb = b_len ?nb \<or> nb_always ?nb then
              co_bind (run_cb cb (?c0\<lparr>sock_in := drop (k + j) t, rnb := Some ?nb\<rparr>)) (\<lambda>res. if \<not> fst res then Some (Inr res) else ?loop (snd res))
              else ?loop (?c0\<lparr>sock_in := drop (k + j) t, rnb := Some ?nb\<rparr>))"
            using Cons waits tls nb b r(2) Io_Bytes g(1-7) False by (subst recv_loop.simps) (simp add: net_read_def next_read_def Let_def)
          moreover have kj: "k \<le> k + j" "k = k + j \<longrightarrow> ?nb = nb" using False by simp_all
          moreover have "length (drop (k + j) t) - gives rs \<le> length (sock_in c) - gives (a # rs)"
            using False b(6) Io_Bytes by (cases n) simp_all
          ultimately show ?thesis using step [OF _ refl g(9) kj] by blast
        qed
      qed (use a(1) in auto)
    qed
  qed
qed

lemma recv_rounds_hold:
  assumes "holds c x" "\<forall>rs \<in> set rss. list_all no_failure rs"
  shows "\<exists>c' y. recv_rounds (net_recv_flush run_cb disconnect) rss c = Some (Inr (True, c')) \<and> holds c' y \<and> later x y \<and>
    (list_all no_failure (reads c) \<longrightarrow> list_all no_failure (reads c')) \<and> length (sock_in c') \<le> length (sock_in c) - sum_list (map gives rss)"
  using assms
proof (induction rss arbitrary: c x)
  case Nil
  then show ?case using later_refl by auto
next
  case (Cons rs rss)
  let ?c = "c\<lparr>evt_read := True, reads := rs\<rparr>"
  have h: "holds ?c x" using Cons.prems(1) by (simp add: holds_events)
  obtain nb where nb: "rnb c = Some nb" using awaits [OF Cons.prems(1)] by blast
  obtain c1 y where c1: "recv_loop run_cb disconnect ?c = Some (Inr (True, c1))" "holds c1 y" "later x y"
    "length (sock_in c1) \<le> length (sock_in c) - gives rs" "list_all no_failure (reads c1)"
    using recv_loop_holds [OF h, of disconnect] Cons.prems(2) by auto
  obtain c2 z where "recv_rounds (net_recv_flush run_cb disconnect) rss c1 = Some (Inr (True, c2))" "holds c2 z" "later y z"
    "length (sock_in c2) \<le> length (sock_in c1) - sum_list (map gives rss)" "list_all no_failure (reads c2)"
    using c1(5) Cons.IH [OF c1(2)] Cons.prems(2) by auto
  then show ?case using c1 nb later_trans [of x y z] by (auto simp: net_recv_flush_def [of run_cb disconnect ?c])
qed

end

end
