(* ===== verification/Kore_Websocket.thy ===== *)
theory Kore_Websocket
  imports Kore_Net
begin

text \<open>
  The websockets of the web server, \<open>kore-3.2.0/src/websocket.c\<close>, after the handshake: the frames the server sends,
  and the two callbacks that receive a frame - first its two bytes of header, then the rest, in as many parts as
  the socket gives. The operation codes are named in a header that is not in the sources; they are parameters.
\<close>

section \<open>State\<close>

record ws_opcodes =
  OP_CONT :: u8
  OP_TEXT :: u8
  OP_BINARY :: u8
  OP_CLOSE :: u8
  OP_PING :: u8
  OP_PONG :: u8

datatype ws_cb = Recv_Opcode | Recv_Frame | Send_Clean

text \<open>
  \<open>ws_has_message\<close> says whether \<open>c->ws_message\<close> is set, \<open>messages\<close> lists the messages handed to it, with their
  operation, and \<open>ws_closed\<close> counts the calls of \<open>c->ws_disconnect\<close>.
\<close>

record ws_connection = "ws_cb connection" +
  close_sent :: bool
  ws_has_message :: bool
  messages :: "(u8 \<times> u8 list) list"
  ws_closed :: nat

abbreviation (input) WEBSOCKET_FRAME_HDR :: nat where "WEBSOCKET_FRAME_HDR \<equiv> 2"
abbreviation (input) WEBSOCKET_MASK_LEN :: int where "WEBSOCKET_MASK_LEN \<equiv> 4"

section \<open>Sending\<close>

definition websocket_frame_build :: "u8 \<Rightarrow> u8 list option \<Rightarrow> nat \<Rightarrow> kore_buf \<Rightarrow> kore_buf c_result" where
  "websocket_frame_build op data len frame =
     (let len_1 = (if len > 125 then (if len \<le> 65535 then 126 else 127) else of_nat len) :: u8;
          op = op OR 0x80 in
      c_bind (kore_buf_append [op] frame) (\<lambda>frame.
      let len_1 = len_1 AND 0x7f in
      c_bind (kore_buf_append [len_1] frame) (\<lambda>frame.
      c_bind (if len_1 > 125 then
                (if len_1 = 126 then kore_buf_append (net_write16 (int len)) frame
                 else if len_1 = 127 then kore_buf_append (net_write64 (int len)) frame
                 else Inr frame)
              else Inr frame) (\<lambda>frame.
      case data of
        None \<Rightarrow> Inr frame
      | Some d \<Rightarrow> if len > 0 then (if length d < len then Inl Out_Of_Bounds else kore_buf_append (take len d) frame) else Inr frame))))"

definition kore_websocket_send ::
  "nat \<Rightarrow> (ws_connection \<Rightarrow> ws_connection c_result option) \<Rightarrow> u8 \<Rightarrow> u8 list option \<Rightarrow> nat \<Rightarrow> ws_connection \<Rightarrow> ws_connection c_result option" where
  "kore_websocket_send payload_max disconnect op data len c =
     co_bind (Some (websocket_frame_build op data len (kore_buf_init (int len)))) (\<lambda>frame.
     co_bind (net_send_flush payload_max disconnect (net_send_stream (buf_data frame) (nat (buf_offset frame)) (Some Send_Clean) c)) (\<lambda>(_, c).
     Some (Inr c)))"

text \<open>
  \<open>websocket_disconnect\<close> is called by \<open>kore_connection_disconnect\<close>, which has already marked the connection; the
  disconnection in the flush below it does nothing.
\<close>

definition websocket_disconnect :: "nat \<Rightarrow> ws_opcodes \<Rightarrow> ws_connection \<Rightarrow> ws_connection c_result option" where
  "websocket_disconnect payload_max w c =
     (let c = c\<lparr>ws_closed := ws_closed c + 1\<rparr> in
      if \<not> close_sent c
      then kore_websocket_send payload_max (\<lambda>c. Some (Inr c)) (OP_CLOSE w) None 0 (c\<lparr>close_sent := True, evt_read := False\<rparr>)
      else Some (Inr c))"

section \<open>Receiving\<close>

definition rd :: "cells \<Rightarrow> nat \<Rightarrow> u8 c_result" where
  "rd buf i = (if i < length buf then (case buf ! i of None \<Rightarrow> Inl Uninitialised | Some b \<Rightarrow> Inr b) else Inl Out_Of_Bounds)"

fun rds :: "cells \<Rightarrow> nat \<Rightarrow> nat \<Rightarrow> u8 list c_result" where
  "rds buf i 0 = Inr []"
| "rds buf i (Suc n) = c_bind (rd buf i) (\<lambda>b. c_bind (rds buf (i + 1) n) (\<lambda>bs. Inr (b # bs)))"

definition the_rnb :: "('cb, 'm) connection_scheme \<Rightarrow> ('cb netbuf \<times> cells) c_result" where
  "the_rnb c = (case rnb c of None \<Rightarrow> Inl Out_Of_Bounds
     | Some nb \<Rightarrow> (case nb_buf nb of None \<Rightarrow> Inl Out_Of_Bounds | Some buf \<Rightarrow> Inr (nb, buf)))"

definition websocket_recv_opcode :: "ws_opcodes \<Rightarrow> ws_connection \<Rightarrow> (bool \<times> ws_connection) c_result" where
  "websocket_recv_opcode w c =
     c_bind (the_rnb c) (\<lambda>(nb, buf).
     c_bind (rd buf 1) (\<lambda>b1.
     if b1 AND 0x80 = 0 then Inr (False, c)
     else
       c_bind (rd buf 0) (\<lambda>b0.
       if b0 AND 0x40 \<noteq> 0 \<or> b0 AND 0x20 \<noteq> 0 \<or> b0 AND 0x10 \<noteq> 0 then Inr (False, c)
       else
         let len = b1 AND 0x7f; op = b0 AND 0x0f in
         if (if op = OP_CONT w \<or> op = OP_TEXT w \<or> op = OP_BINARY w then False
             else if op = OP_CLOSE w \<or> op = OP_PING w \<or> op = OP_PONG w then len > 125 \<or> b0 AND 0x80 = 0
             else True)
         then Inr (False, c)
         else
           let len = (if len = 126 then len + 2 else if len = 127 then len + 8 else len);
               len = len + 4 in
           c_bind (net_recv_expand (unat len) Recv_Frame c) (\<lambda>c. Inr (True, c)))))"

text \<open>The payload is unmasked in place.\<close>

definition unmask :: "nat \<Rightarrow> int \<Rightarrow> cells \<Rightarrow> cells c_result" where
  "unmask moff len buf =
     for_loop 0 len (\<lambda>i buf.
       c_bind (rd buf (moff + 4 + nat i)) (\<lambda>x.
       c_bind (rd buf (moff + nat (i mod 4))) (\<lambda>m.
       Inr (buf[moff + 4 + nat i := Some (x XOR m)])))) buf"

text \<open>The operation, the offset of the mask, the bytes the length takes after the header, and the length.\<close>

definition frame_header :: "cells \<Rightarrow> (u8 \<times> nat \<times> int \<times> int) c_result" where
  "frame_header buf =
     c_bind (rd buf 0) (\<lambda>b0.
     c_bind (rd buf 1) (\<lambda>b1.
     let len_1 = b1 AND 0x7f in
     c_bind (if len_1 = 126 then c_bind (rds buf 2 2) (\<lambda>bs. Inr (4, 2, net_read16 bs))
             else if len_1 = 127 then c_bind (rds buf 2 8) (\<lambda>bs. Inr (10, 8, net_read64 bs))
             else Inr (2, 0, uint len_1)) (\<lambda>(moff, extra, len).
     Inr (b0 AND 0x0f, moff, extra, len))))"

definition websocket_recv_frame :: "nat \<Rightarrow> int \<Rightarrow> ws_opcodes \<Rightarrow> ws_connection \<Rightarrow> (bool \<times> ws_connection) c_result option" where
  "websocket_recv_frame payload_max maxframe w c =
     co_bind (Some (c_bind (the_rnb c) (\<lambda>(nb, buf). c_bind (frame_header buf) (\<lambda>h. Inr (nb, buf, h)))))
     (\<lambda>(nb, buf, op, moff, extra, len).
     if len > maxframe then Some (Inr (False, c))
     else
       let extra = extra + int WEBSOCKET_FRAME_HDR; total = (len + extra + WEBSOCKET_MASK_LEN) mod 2 ^ 64 in
       if total > int (b_len nb) then Some (c_bind (net_recv_expand (nat total - b_len nb) Recv_Frame c) (\<lambda>c. Inr (True, c)))
       else if total \<noteq> int (b_len nb) then Some (Inr (False, c))
       else
         co_bind (Some (unmask moff len buf)) (\<lambda>buf.
         let c = c\<lparr>rnb := Some (nb\<lparr>nb_buf := Some buf\<rparr>)\<rparr>;
             reset = (\<lambda>ret c. Some (c_bind (net_recv_reset payload_max WEBSOCKET_FRAME_HDR Recv_Opcode c) (\<lambda>c. Inr (ret, c)))) in
         if op = OP_PONG w then reset True c
         else if op = OP_CONT w then reset False c
         else if op = OP_TEXT w \<or> op = OP_BINARY w then
           (if ws_has_message c
            then co_bind (Some (rds buf (moff + 4) (nat len))) (\<lambda>m. reset True (c\<lparr>messages := messages c @ [(op, m)]\<rparr>))
            else reset True c)
         else if op = OP_CLOSE w then
           (let c = c\<lparr>evt_read := False\<rparr>; disconnect = websocket_disconnect payload_max w in
            co_bind (if \<not> close_sent c
                     then kore_websocket_send payload_max disconnect (OP_CLOSE w) None 0 (c\<lparr>close_sent := True\<rparr>)
                     else Some (Inr c)) (\<lambda>c.
            co_bind (kore_connection_disconnect disconnect c) (reset True)))
         else if op = OP_PING w then
           co_bind (Some (rds buf (moff + 4) (nat len))) (\<lambda>m.
           co_bind (kore_websocket_send payload_max (websocket_disconnect payload_max w) (OP_PONG w) (Some m) (nat len) c) (reset True))
         else Some (Inr (False, c))))"

definition ws_run_cb :: "nat \<Rightarrow> int \<Rightarrow> ws_opcodes \<Rightarrow> ws_cb \<Rightarrow> ws_connection \<Rightarrow> (bool \<times> ws_connection) c_result option" where
  "ws_run_cb payload_max maxframe w cb c =
     (case cb of
        Recv_Opcode \<Rightarrow> Some (websocket_recv_opcode w c)
      | Recv_Frame \<Rightarrow> websocket_recv_frame payload_max maxframe w c
      | Send_Clean \<Rightarrow> Some (Inr (False, c)))"

definition ws_recv :: "nat \<Rightarrow> int \<Rightarrow> ws_opcodes \<Rightarrow> ws_connection \<Rightarrow> (bool \<times> ws_connection) c_result option" where
  "ws_recv payload_max maxframe w = net_recv_flush (ws_run_cb payload_max maxframe w) (websocket_disconnect payload_max w)"

section \<open>What a client sends\<close>

text \<open>A frame with the last flag set: its operation, mask and payload; the length in its shortest form.\<close>

type_synonym ws_frame = "u8 \<times> u8 list \<times> u8 list"

definition len_byte :: "nat \<Rightarrow> u8" where
  "len_byte n = (if n \<le> 125 then of_nat n else if n \<le> 65535 then 126 else 127)"

definition len_ext :: "nat \<Rightarrow> u8 list" where
  "len_ext n = (if n \<le> 125 then [] else if n \<le> 65535 then net_write16 (int n) else net_write64 (int n))"

definition masked :: "u8 list \<Rightarrow> u8 list \<Rightarrow> u8 list" where
  "masked key payload = map (\<lambda>i. payload ! i XOR key ! (i mod 4)) [0..<length payload]"

fun client_frame :: "ws_frame \<Rightarrow> u8 list" where
  "client_frame (op, key, payload) =
     [op OR 0x80, len_byte (length payload) OR 0x80] @ len_ext (length payload) @ key @ masked key payload"

fun frame_ok :: "ws_opcodes \<Rightarrow> int \<Rightarrow> ws_frame \<Rightarrow> bool" where
  "frame_ok w maxframe (op, key, payload) \<longleftrightarrow>
     (op = OP_TEXT w \<or> op = OP_BINARY w) \<and> op AND 0x0f = op \<and> op \<noteq> OP_CONT w \<and> op \<noteq> OP_PONG w \<and>
     length key = 4 \<and> int (length payload) \<le> maxframe"

lemma length_masked [simp]: "length (masked key payload) = length payload"
  by (simp add: masked_def)

lemma unmasked: "i < length payload \<Longrightarrow> masked key payload ! i XOR key ! (i mod 4) = payload ! i"
  by (simp add: masked_def xor.assoc)

definition ext_len :: "nat \<Rightarrow> nat" where
  "ext_len n = (if n \<le> 125 then 0 else if n \<le> 65535 then 2 else 8)"

lemma length_len_ext [simp]: "length (len_ext n) = ext_len n"
  by (simp add: len_ext_def ext_len_def net_write16_def net_write64_def)

lemma len_byte_bits: "(len_byte n OR 0x80) AND 0x80 \<noteq> 0" "(len_byte n OR 0x80) AND 0x7f = len_byte n" "len_byte n AND 0x7f = len_byte n"
proof -
  have "len_byte n < 2 ^ 7"
    by (auto simp: len_byte_def word_less_nat_alt unat_of_nat)
  then show m: "len_byte n AND 0x7f = len_byte n" using less_mask_eq [of "len_byte n" 7] by (simp add: mask_eq_exp_minus_1)
  then show "(len_byte n OR 0x80) AND 0x7f = len_byte n" by (simp add: bit.conj_disj_distrib2)
  have "len_byte n AND 0x80 = (len_byte n AND 0x7f) AND 0x80" by (simp only: m)
  also have "\<dots> = 0" by (simp add: and.assoc)
  finally show "(len_byte n OR 0x80) AND 0x80 \<noteq> 0" by (simp add: bit.conj_disj_distrib2)
qed

lemma op_bits:
  assumes "(op :: u8) AND 0x0f = op"
  shows "(op OR 0x80) AND 0x0f = op" "(op OR 0x80) AND 0x40 = 0" "(op OR 0x80) AND 0x20 = 0" "(op OR 0x80) AND 0x10 = 0"
proof -
  have h: "op AND m = op AND (0x0f AND m)" for m using assms by (simp flip: and.assoc)
  show "(op OR 0x80) AND 0x0f = op" using assms by (simp add: bit.conj_disj_distrib2)
  show "(op OR 0x80) AND 0x40 = 0" using h [of "0x40"] by (simp add: bit.conj_disj_distrib2)
  show "(op OR 0x80) AND 0x20 = 0" using h [of "0x20"] by (simp add: bit.conj_disj_distrib2)
  show "(op OR 0x80) AND 0x10 = 0" using h [of "0x10"] by (simp add: bit.conj_disj_distrib2)
qed

lemma len_byte_values:
  "n \<le> 125 \<Longrightarrow> len_byte n \<noteq> 126 \<and> len_byte n \<noteq> 127 \<and> uint (len_byte n) = int n \<and> unat (len_byte n + 4) = n + 4"
  "125 < n \<Longrightarrow> n \<le> 65535 \<Longrightarrow> len_byte n = 126"
  "65535 < n \<Longrightarrow> len_byte n = 127"
proof -
  show "n \<le> 125 \<Longrightarrow> len_byte n \<noteq> 126 \<and> len_byte n \<noteq> 127 \<and> uint (len_byte n) = int n \<and> unat (len_byte n + 4) = n + 4"
  proof -
    assume n: "n \<le> 125"
    have u: "uint (of_nat n :: u8) = int n" using n by simp
    have "(of_nat n + 4 :: u8) = of_nat (n + 4)" by simp
    then have "unat (of_nat n + 4 :: u8) = n + 4" using n by (simp only: unat_of_nat) (simp add: take_bit_nat_eq_self_iff)
    moreover have "uint (of_nat n :: u8) \<noteq> uint (126 :: u8)" "uint (of_nat n :: u8) \<noteq> uint (127 :: u8)" using u n by simp_all
    then have "(of_nat n :: u8) \<noteq> 126" "(of_nat n :: u8) \<noteq> 127" by metis+
    ultimately show ?thesis using u n by (simp add: len_byte_def)
  qed
qed (simp_all add: len_byte_def)

section \<open>Reading a frame\<close>

lemma rd_known:
  assumes "take k buf = map Some (take k t)" "i < k" "k \<le> length t"
  shows "rd buf i = Inr (t ! i)"
proof -
  have "take k buf ! i = Some (t ! i)" using assms by simp
  moreover have "length (take k buf) = k" using assms(1,3) by simp
  ultimately show ?thesis using assms(2) by (simp add: rd_def)
qed

lemma rds_known:
  assumes "take k buf = map Some (take k t)" "i + n \<le> k" "k \<le> length t"
  shows "rds buf i n = Inr (take n (drop i t))"
  using assms(2)
proof (induction n arbitrary: i)
  case (Suc n)
  then show ?case using rd_known [OF assms(1) _ assms(3), of i] assms(3) by (simp add: Cons_nth_drop_Suc [symmetric])
qed simp

text \<open>Unmasking, with the mask at \<open>moff\<close> and the payload after it.\<close>

lemma unmask_payload:
  assumes m: "length h = moff" and "length key = 4"
    "buf = map Some (h @ key @ masked key payload) @ z"
  shows "unmask moff (int (length payload)) buf = Inr (map Some (h @ key @ payload) @ z)"
proof -
  define st where "st i = map Some (h @ key @ take (nat i) payload @ drop (nat i) (masked key payload)) @ z" for i
  let ?body = "\<lambda>i buf. c_bind (rd buf (moff + 4 + nat i)) (\<lambda>x. c_bind (rd buf (moff + nat (i mod 4))) (\<lambda>m. Inr (buf[moff + 4 + nat i := Some (x XOR m)])))"
  have "\<exists>b. for_loop 0 (int (length payload)) ?body buf = Inr b \<and> b = st (int (length payload))"
  proof (rule for_loop_inv [where I = "\<lambda>i b. b = st i"])
    show "buf = st 0" using assms(3) by (simp add: st_def)
  next
    fix j b assume j: "0 \<le> j" "j < int (length payload)" and b: "b = st j"
    let ?n = "nat j"
    have n: "?n < length payload" using j by simp
    have d: "drop ?n (masked key payload) = masked key payload ! ?n # drop (Suc ?n) (masked key payload)" using n by (simp add: Cons_nth_drop_Suc)
    have r1: "rd b (moff + 4 + ?n) = Inr (masked key payload ! ?n)"
      using n m assms(2) by (simp add: b st_def rd_def nth_append d)
    have k: "nat (j mod 4) < 4" "nat (j mod 4) = ?n mod 4" using j by (simp_all add: nat_mod_distrib)
    have r2: "rd b (moff + nat (j mod 4)) = Inr (key ! (?n mod 4))"
      using k m assms(2) by (simp add: b st_def rd_def nth_append trans_less_add1)
    have u: "b[moff + 4 + ?n := Some (payload ! ?n)] = st (j + 1)"
    proof -
      have s: "nat (j + 1) = Suc ?n" using j by simp
      have "b = map Some (h @ key @ take ?n payload) @ Some (masked key payload ! ?n) # map Some (drop (Suc ?n) (masked key payload)) @ z"
        by (simp add: b st_def d)
      moreover have "length (map Some (h @ key @ take ?n payload)) = moff + 4 + ?n" using m assms(2) n by simp
      ultimately have "b[moff + 4 + ?n := Some (payload ! ?n)] =
          map Some (h @ key @ take ?n payload) @ Some (payload ! ?n) # map Some (drop (Suc ?n) (masked key payload)) @ z"
        by (metis list_update_length)
      then show ?thesis using n by (simp add: st_def s take_Suc_conv_app_nth)
    qed
    show "\<exists>b'. ?body j b = Inr b' \<and> b' = st (j + 1)" using r1 r2 u unmasked [OF n, of key] by simp
  qed simp
  then show ?thesis by (simp add: unmask_def st_def)
qed

section \<open>The buffer while a frame arrives\<close>

abbreviation frame_receiving :: "ws_connection \<Rightarrow> ws_cb \<Rightarrow> nat \<Rightarrow> nat \<Rightarrow> u8 list \<Rightarrow> bool" where
  "frame_receiving c cb b k t \<equiv> receiving c False cb b k t"

definition first_len :: "nat \<Rightarrow> nat" where
  "first_len n = (if n \<le> 125 then 6 + n else if n \<le> 65535 then 134 else 141)"

definition frame_len :: "nat \<Rightarrow> nat" where
  "frame_len n = 6 + ext_len n + n"

lemma length_client_frame: "length key = 4 \<Longrightarrow> length (client_frame (op, key, payload)) = frame_len (length payload)"
  by (simp add: frame_len_def)

lemma first_len_le: "first_len n \<le> frame_len n" "2 < first_len n" "n \<le> 125 \<Longrightarrow> first_len n = frame_len n"
  by (auto simp: first_len_def frame_len_def ext_len_def)

lemma expand_receiving:
  assumes "frame_receiving c cb b k t"
  shows "\<exists>c'. net_recv_expand n cb' c = Inr c' \<and> frame_receiving c' cb' (b + n) k t \<and> (\<exists>nb. c' = c\<lparr>rnb := Some nb\<rparr>)"
proof -
  obtain nb buf where nb: "rnb c = Some nb" "nb_buf nb = Some buf" "\<not> nb_always nb" "b_len nb = b" "s_off nb = k" "b \<le> length buf" "k \<le> b" "k \<le> length t"
    "take k buf = map Some (take k t)" "sock_in c = drop k t" using assms by (auto simp: receiving_def)
  let ?m = "if b + n = 0 then 8 else int (b + n)"
  have l: "length (realloc_cells buf ?m) = nat ?m" by (rule realloc_cells_length) simp
  have t: "take k (realloc_cells buf ?m) = take k buf" using nb by (intro realloc_cells_take) auto
  have g: "b + n \<le> nat ?m" by (simp add: nat_int_add)
  let ?nb = "nb\<lparr>nb_cb := Some cb', b_len := b + n, m_len := b + n, nb_buf := Some (realloc_cells buf ?m)\<rparr>"
  have "net_recv_expand n cb' c = Inr (c\<lparr>rnb := Some ?nb\<rparr>)" using nb(1,2,4) by (simp add: net_recv_expand_def Let_def)
  moreover have "frame_receiving (c\<lparr>rnb := Some ?nb\<rparr>) cb' (b + n) k t"
    unfolding receiving_def using nb t l g by (intro conjI exI [of _ ?nb] exI [of _ "realloc_cells buf ?m"]) simp_all
  ultimately show ?thesis by blast
qed

lemma opcode_step:
  assumes "frame_receiving c Recv_Opcode 2 2 t" "t = client_frame f @ r" "frame_ok w maxframe f"
  shows "\<exists>c'. websocket_recv_opcode w c = Inr (True, c') \<and> frame_receiving c' Recv_Frame (first_len (length (snd (snd f)))) 2 t \<and> (\<exists>nb. c' = c\<lparr>rnb := Some nb\<rparr>)"
proof -
  obtain op key payload where f: "f = (op, key, payload)" by (cases f) auto
  let ?n = "length payload"
  have ok: "op = OP_TEXT w \<or> op = OP_BINARY w" "op AND 0x0f = op" "op \<noteq> OP_CONT w" using assms(3) f by auto
  obtain nb buf where nb: "rnb c = Some nb" "nb_buf nb = Some buf" "take 2 buf = map Some (take 2 t)" "2 \<le> length t"
    using assms(1) by (auto simp: receiving_def)
  have r: "rd buf 0 = Inr (op OR 0x80)" "rd buf 1 = Inr (len_byte ?n OR 0x80)"
    using rd_known [OF nb(3) _ nb(4), of 0] rd_known [OF nb(3) _ nb(4), of 1] by (simp_all add: assms(2) f)
  let ?l = "(if len_byte ?n = 126 then len_byte ?n + 2 else if len_byte ?n = 127 then len_byte ?n + 8 else len_byte ?n) + 4"
  have l: "2 + unat ?l = first_len ?n"
    using len_byte_values [of ?n] by (cases "?n \<le> 125"; cases "?n \<le> 65535") (simp_all add: first_len_def)
  have s: "websocket_recv_opcode w c = c_bind (net_recv_expand (unat ?l) Recv_Frame c) (\<lambda>c. Inr (True, c))"
    unfolding websocket_recv_opcode_def the_rnb_def using nb(1,2) r ok op_bits [OF ok(2)] len_byte_bits by (simp add: Let_def)
  obtain c' where c': "net_recv_expand (unat ?l) Recv_Frame c = Inr c'" "frame_receiving c' Recv_Frame (2 + unat ?l) 2 t" "\<exists>nb. c' = c\<lparr>rnb := Some nb\<rparr>"
    using expand_receiving [OF assms(1), of "unat ?l" Recv_Frame] by blast
  then show ?thesis using s l f by (intro exI [of _ c']) (simp only: c_bind_simps snd_conv simp_thms)
qed

lemma frame_header_read:
  assumes "take b buf = map Some (take b t)" "b \<le> length t" "first_len (length payload) \<le> b" "t = client_frame (op, key, payload) @ r"
    "op AND 0x0f = op" "int (length payload) < 2 ^ 64"
  shows "frame_header buf = Inr (op, 2 + ext_len (length payload), int (ext_len (length payload)), int (length payload))"
proof -
  let ?n = "length payload"
  have b: "2 < b" using first_len_le(2) [of ?n] assms(3) by linarith
  have r: "rd buf 0 = Inr (op OR 0x80)" "rd buf 1 = Inr (len_byte ?n OR 0x80)"
    using rd_known [OF assms(1) _ assms(2), of 0] rd_known [OF assms(1) _ assms(2), of 1] b by (simp_all add: assms(4))
  have e: "rds buf 2 (ext_len ?n) = Inr (len_ext ?n)"
  proof -
    have "2 + ext_len ?n \<le> b" using assms(3) by (auto simp: first_len_def ext_len_def split: if_splits)
    then show ?thesis using rds_known [OF assms(1) _ assms(2), of 2 "ext_len ?n"] by (simp add: assms(4))
  qed
  consider "?n \<le> 125" | "125 < ?n" "?n \<le> 65535" | "65535 < ?n" by linarith
  then show ?thesis
  proof cases
    case 1
    then show ?thesis using r len_byte_values(1) [OF 1] op_bits(1) [OF assms(5)] len_byte_bits(2)
      by (simp add: frame_header_def Let_def ext_len_def)
  next
    case 2
    then have "net_read16 (net_write16 (int ?n) @ []) = int ?n" by (intro net_numbers(1)) simp_all
    then show ?thesis using 2 r e len_byte_values(2) [OF 2] op_bits(1) [OF assms(5)] len_byte_bits(2) [of ?n]
      by (simp add: frame_header_def Let_def ext_len_def len_ext_def)
  next
    case 3
    then have "net_read64 (net_write64 (int ?n) @ []) = int ?n" using assms(6) by (intro net_numbers(3)) simp_all
    then show ?thesis using 3 r e len_byte_values(3) [OF 3] op_bits(1) [OF assms(5)] len_byte_bits(2) [of ?n]
      by (simp add: frame_header_def Let_def ext_len_def len_ext_def)
  qed
qed

text \<open>The callback for the frame asks for the missing bytes, or hands the message over and waits for the next header.\<close>

lemma frame_step_more:
  assumes "frame_receiving c Recv_Frame b b t" "t = client_frame f @ r" "frame_ok w maxframe f" "maxframe < 2 ^ 62"
    "first_len (length (snd (snd f))) \<le> b" "b < frame_len (length (snd (snd f)))"
  shows "\<exists>c'. websocket_recv_frame pm maxframe w c = Some (Inr (True, c')) \<and> frame_receiving c' Recv_Frame (frame_len (length (snd (snd f)))) b t \<and>
    (\<exists>nb. c' = c\<lparr>rnb := Some nb\<rparr>)"
proof -
  obtain op key payload where f: "f = (op, key, payload)" by (cases f) auto
  let ?n = "length payload"
  have ok: "op AND 0x0f = op" "int ?n \<le> maxframe" using assms(3) f by auto
  obtain nb buf where nb: "rnb c = Some nb" "nb_buf nb = Some buf" "take b buf = map Some (take b t)" "b \<le> length t" "b_len nb = b"
    using assms(1) by (auto simp: receiving_def)
  have h: "frame_header buf = Inr (op, 2 + ext_len ?n, int (ext_len ?n), int ?n)"
    using frame_header_read [OF nb(3,4), of payload op key r] assms f ok by simp
  have tot: "(int ?n + (int (ext_len ?n) + 2) + 4) mod 2 ^ 64 = int (frame_len ?n)"
    using ok(2) assms(4) by (simp add: frame_len_def ext_len_def)
  have s: "websocket_recv_frame pm maxframe w c = Some (c_bind (net_recv_expand (frame_len ?n - b) Recv_Frame c) (\<lambda>c. Inr (True, c)))"
    unfolding websocket_recv_frame_def the_rnb_def using nb(1,2,5) h tot ok(2) assms(6) f by (simp add: Let_def)
  obtain c' where c': "net_recv_expand (frame_len ?n - b) Recv_Frame c = Inr c'" "frame_receiving c' Recv_Frame (b + (frame_len ?n - b)) b t" "\<exists>nb. c' = c\<lparr>rnb := Some nb\<rparr>"
    using expand_receiving [OF assms(1), of "frame_len ?n - b" Recv_Frame] by blast
  then show ?thesis using s f assms(6) by (intro exI [of _ c']) simp
qed

lemma frame_step_last:
  assumes "frame_receiving c Recv_Frame b b t" "t = client_frame f @ r" "frame_ok w maxframe f" "maxframe < 2 ^ 62"
    "b = frame_len (length (snd (snd f)))" "ws_has_message c"
  shows "\<exists>c'. websocket_recv_frame pm maxframe w c = Some (Inr (True, c')) \<and> frame_receiving c' Recv_Opcode 2 0 r \<and>
    (\<exists>nb. c' = c\<lparr>rnb := Some nb, messages := messages c @ [(fst f, snd (snd f))]\<rparr>)"
proof -
  obtain op key payload where f: "f = (op, key, payload)" by (cases f) auto
  let ?n = "length payload" and ?h = "[op OR 0x80, len_byte (length payload) OR 0x80] @ len_ext (length payload)"
  have ok: "op AND 0x0f = op" "int ?n \<le> maxframe" "op = OP_TEXT w \<or> op = OP_BINARY w" "op \<noteq> OP_CONT w" "op \<noteq> OP_PONG w" "length key = 4"
    using assms(3) f by auto
  obtain nb buf where nb: "rnb c = Some nb" "nb_buf nb = Some buf" "take b buf = map Some (take b t)" "b \<le> length t" "b_len nb = b"
    "m_len nb \<le> length buf" "\<not> nb_always nb" "sock_in c = drop b t"
    using assms(1) by (auto simp: receiving_def)
  have h: "frame_header buf = Inr (op, 2 + ext_len ?n, int (ext_len ?n), int ?n)"
    using frame_header_read [OF nb(3,4), of payload op key r] first_len_le(1) [of ?n] assms f ok by simp
  have tot: "(int ?n + (int (ext_len ?n) + 2) + 4) mod 2 ^ 64 = int (frame_len ?n)"
    using ok(2) assms(4) by (simp add: frame_len_def ext_len_def)
  have l: "b = length (client_frame f)" using length_client_frame [OF ok(6)] f assms(5) by simp
  then have d: "drop b t = r" "take b t = ?h @ key @ masked key payload" by (simp_all add: assms(2) f)
  have m: "length ?h = 2 + ext_len ?n" by simp
  have "buf = map Some (?h @ key @ masked key payload) @ drop b buf" using nb(3) d(2) by (metis append_take_drop_id)
  then have u: "unmask (2 + ext_len ?n) (int ?n) buf = Inr (map Some (?h @ key @ payload) @ drop b buf)"
    using unmask_payload [OF m ok(6), of buf payload "drop b buf"] by simp
  let ?buf = "map Some (?h @ key @ payload) @ drop b buf"
  have lb: "length ?buf = length buf"
  proof -
    have "b \<le> length buf" using assms(1) nb(1,2) by (auto simp: receiving_def)
    then show ?thesis using assms(5) ok(6) f by (simp add: frame_len_def)
  qed
  have fl: "take b ?buf = map Some (take b (?h @ key @ payload))" "b \<le> length (?h @ key @ payload)"
  proof -
    have bl: "b = length (?h @ key @ payload)" using assms(5) ok(6) f by (simp add: frame_len_def)
    moreover have "take (length x) (map Some x @ drop b buf) = map Some (take (length x) x)" for x by simp
    ultimately show "take b ?buf = map Some (take b (?h @ key @ payload))" by metis
    show "b \<le> length (?h @ key @ payload)" using bl by linarith
  qed
  have "(2 + ext_len ?n + 4) + ?n \<le> b" using assms(5) f by (simp add: frame_len_def)
  then have "rds ?buf (2 + ext_len ?n + 4) ?n = Inr (take ?n (drop (2 + ext_len ?n + 4) (?h @ key @ payload)))"
    by (rule rds_known [OF fl(1) _ fl(2)])
  moreover have "length (?h @ key) = 2 + ext_len ?n + 4" using ok(6) by simp
  then have "drop (2 + ext_len ?n + 4) (?h @ key @ payload) = payload" by (metis append.assoc append_eq_conv_conj)
  ultimately have p: "rds ?buf (2 + ext_len ?n + 4) ?n = Inr payload" by simp
  let ?c = "c\<lparr>rnb := Some (nb\<lparr>nb_buf := Some ?buf\<rparr>), messages := messages c @ [(op, payload)]\<rparr>"
  have s: "websocket_recv_frame pm maxframe w c = Some (c_bind (net_recv_reset pm 2 Recv_Opcode ?c) (\<lambda>c. Inr (True, c)))"
  proof -
    have "\<not> int ?n > maxframe" "b_len nb = frame_len ?n" using ok(2) nb(5) assms(5) f by simp_all
    then show ?thesis
      unfolding websocket_recv_frame_def the_rnb_def using nb(1,2) h tot u p ok assms(6) by (auto simp: Let_def)
  qed
  obtain c' nb' where c': "net_recv_reset pm 2 Recv_Opcode ?c = Inr c'" "frame_receiving c' Recv_Opcode 2 0 r" "c' = ?c\<lparr>rnb := Some nb'\<rparr>"
    using reset_receiving [of ?c "nb\<lparr>nb_buf := Some ?buf\<rparr>" r pm 2 Recv_Opcode] nb lb d(1) by auto
  then show ?thesis using s f by (intro exI [of _ c'] conjI exI [of _ nb']) simp_all
qed

section \<open>Receiving any number of frames\<close>

text \<open>
  Between two reads: the frames \<open>fs\<close> are still to come, and of the first of them some bytes may have arrived.
\<close>

definition waiting :: "ws_connection \<Rightarrow> ws_frame list \<Rightarrow> bool" where
  "waiting c fs \<longleftrightarrow> \<not> tls c \<and> ws_has_message c \<and>
     (\<exists>cb b k. frame_receiving c cb b k (concat (map client_frame fs)) \<and> k < b \<and>
        (cb = Recv_Opcode \<and> b = 2 \<or>
         (\<exists>f rest. fs = f # rest \<and> cb = Recv_Frame \<and> (b = first_len (length (snd (snd f))) \<or> b = frame_len (length (snd (snd f)))))))"

definition message :: "ws_frame \<Rightarrow> u8 \<times> u8 list" where
  "message f = (fst f, snd (snd f))"

lemma frame_receiving_messages: "frame_receiving (c\<lparr>messages := ms\<rparr>) cb b k t = frame_receiving c cb b k t"
  by (simp add: receiving_def)

lemma waiting_update:
  "waiting (c\<lparr>evt_read := e\<rparr>) fs = waiting c fs" "waiting (c\<lparr>reads := rs\<rparr>) fs = waiting c fs"
  by (simp_all add: waiting_def)

lemma waitingI:
  assumes "frame_receiving c cb b k (concat (map client_frame fs))" "k < b"
    "cb = Recv_Opcode \<and> b = 2 \<or> (\<exists>f rest. fs = f # rest \<and> cb = Recv_Frame \<and> (b = first_len (length (snd (snd f))) \<or> b = frame_len (length (snd (snd f)))))"
    "\<not> tls c" "ws_has_message c"
  shows "waiting c fs"
  using assms unfolding waiting_def by blast

lemma waiting_start:
  assumes "frame_receiving c Recv_Opcode 2 0 (concat (map client_frame fs))" "\<not> tls c" "ws_has_message c"
  shows "waiting c fs"
  unfolding waiting_def using assms by (intro conjI exI [of _ Recv_Opcode] exI [of _ 2] exI [of _ 0]) simp_all

text \<open>A callback that runs when all bytes it waited for are there.\<close>

lemma callback_step:
  assumes "frame_receiving c cb b b (concat (map client_frame fs))" "\<not> tls c" "ws_has_message c" "\<forall>f \<in> set fs. frame_ok w maxframe f" "maxframe < 2 ^ 62"
    "cb = Recv_Opcode \<and> b = 2 \<or> (\<exists>f rest. fs = f # rest \<and> cb = Recv_Frame \<and> (b = first_len (length (snd (snd f))) \<or> b = frame_len (length (snd (snd f)))))"
  shows "\<exists>c' d fs'. ws_run_cb pm maxframe w cb c = Some (Inr (True, c')) \<and> waiting c' fs' \<and> fs = d @ fs' \<and> messages c' = messages c @ map message d \<and>
    evt_read c' = evt_read c \<and> reads c' = reads c \<and> sock_in c' = sock_in c"
proof -
  have x: "2 \<le> first_len n" "2 \<le> frame_len n" for n using first_len_le [of n] by linarith+
  have "2 \<le> b" using assms(6) by (elim disjE exE conjE) (simp_all add: x)
  moreover have "b \<le> length (concat (map client_frame fs))" using assms(1) by (auto simp: receiving_def)
  ultimately obtain f rest where fs: "fs = f # rest" by (cases fs) auto
  let ?n = "length (snd (snd f))"
  have t: "concat (map client_frame fs) = client_frame f @ concat (map client_frame rest)" by (simp add: fs)
  have ok: "frame_ok w maxframe f" using assms(4) fs by simp
  show ?thesis
  proof (cases "cb = Recv_Opcode \<and> b = 2")
    case True
    then obtain c' nb where c': "websocket_recv_opcode w c = Inr (True, c')" "frame_receiving c' Recv_Frame (first_len ?n) 2 (concat (map client_frame fs))"
      "c' = c\<lparr>rnb := Some nb\<rparr>" using opcode_step [OF _ t ok] assms(1) by blast
    have "waiting c' fs" unfolding waiting_def using c'(2,3) assms(2,3) fs first_len_le(2) by auto
    moreover have "ws_run_cb pm maxframe w cb c = Some (Inr (True, c'))" using True c'(1) by (simp add: ws_run_cb_def)
    ultimately show ?thesis using c'(3) by (intro exI [of _ c'] exI [of _ "[]"] exI [of _ fs]) simp
  next
    case False
    then have cb: "cb = Recv_Frame" "first_len ?n \<le> b" "b = first_len ?n \<or> b = frame_len ?n" using assms(6) fs first_len_le(1) [of ?n] by auto
    show ?thesis
    proof (cases "b < frame_len ?n")
      case True
      obtain c' nb where c': "websocket_recv_frame pm maxframe w c = Some (Inr (True, c'))" "frame_receiving c' Recv_Frame (frame_len ?n) b (concat (map client_frame fs))"
        "c' = c\<lparr>rnb := Some nb\<rparr>" using frame_step_more [OF _ t ok assms(5) cb(2) True] assms(1) cb(1) by blast
      have "waiting c' fs" unfolding waiting_def using c'(2,3) assms(2,3) fs True by auto
      moreover have "ws_run_cb pm maxframe w cb c = Some (Inr (True, c'))" using cb(1) c'(1) by (simp add: ws_run_cb_def)
      ultimately show ?thesis using c'(3) by (intro exI [of _ c'] exI [of _ "[]"] exI [of _ fs]) simp
    next
      case False
      then have b: "b = frame_len ?n" using cb(3) first_len_le(1) [of ?n] by linarith
      obtain c' nb where c': "websocket_recv_frame pm maxframe w c = Some (Inr (True, c'))" "frame_receiving c' Recv_Opcode 2 0 (concat (map client_frame rest))"
        "c' = c\<lparr>rnb := Some nb, messages := messages c @ [(fst f, snd (snd f))]\<rparr>" using frame_step_last [OF _ t ok assms(5) b assms(3)] assms(1) cb(1) by blast
      have "waiting c' rest" using waiting_start [OF c'(2)] c'(3) assms(2,3) by simp
      moreover have "ws_run_cb pm maxframe w cb c = Some (Inr (True, c'))" using cb(1) c'(1) by (simp add: ws_run_cb_def)
      ultimately show ?thesis using c'(3) fs by (intro exI [of _ c'] exI [of _ "[f]"] exI [of _ rest]) (simp add: message_def)
    qed
  qed
qed

text \<open>
  Any number of reads in any number of turns of the event loop: the state of the protocol is the frames to come and
  the messages handed over.
\<close>

definition ws_deliver :: "nat \<Rightarrow> int \<Rightarrow> ws_opcodes \<Rightarrow> io_result list list \<Rightarrow> ws_connection \<Rightarrow> (bool \<times> ws_connection) c_result option" where
  "ws_deliver pm maxframe w = recv_rounds (ws_recv pm maxframe w)"

fun ws_state :: "ws_opcodes \<Rightarrow> int \<Rightarrow> ws_connection \<Rightarrow> ws_frame list \<times> (u8 \<times> u8 list) list \<Rightarrow> bool" where
  "ws_state w maxframe c (fs, ms) \<longleftrightarrow> waiting c fs \<and> messages c = ms \<and> (\<forall>f \<in> set fs. frame_ok w maxframe f) \<and> maxframe < 2 ^ 62"

fun ws_later :: "ws_frame list \<times> (u8 \<times> u8 list) list \<Rightarrow> ws_frame list \<times> (u8 \<times> u8 list) list \<Rightarrow> bool" where
  "ws_later (fs, ms) (fs', ms') \<longleftrightarrow> (\<exists>d. fs = d @ fs' \<and> ms' = ms @ map message d)"

lemma waiting_phase:
  assumes w: "waiting c fs" and r: "receiving c al cb b k t"
  shows "\<not> al" "t = concat (map client_frame fs)"
    "cb = Recv_Opcode \<and> b = 2 \<or> (\<exists>f rest. fs = f # rest \<and> cb = Recv_Frame \<and> (b = first_len (length (snd (snd f))) \<or> b = frame_len (length (snd (snd f)))))"
proof -
  obtain cb0 b0 k0 where r0: "frame_receiving c cb0 b0 k0 (concat (map client_frame fs))"
    and p: "cb0 = Recv_Opcode \<and> b0 = 2 \<or>
      (\<exists>f rest. fs = f # rest \<and> cb0 = Recv_Frame \<and> (b0 = first_len (length (snd (snd f))) \<or> b0 = frame_len (length (snd (snd f)))))"
    using w unfolding waiting_def by blast
  have u: "al = False" "cb = cb0" "b = b0" "t = concat (map client_frame fs)" using receiving_unique [OF r0 r] by simp_all
  show "\<not> al" "t = concat (map client_frame fs)" using u by simp_all
  show "cb = Recv_Opcode \<and> b = 2 \<or> (\<exists>f rest. fs = f # rest \<and> cb = Recv_Frame \<and> (b = first_len (length (snd (snd f))) \<or> b = frame_len (length (snd (snd f)))))"
    unfolding u(2,3) by (rule p)
qed

lemma waiting_awaits:
  assumes "waiting c fs"
  shows "\<not> tls c" "\<exists>nb. rnb c = Some nb \<and> (nb_buf nb = None \<or> (\<exists>al cb b k t. receiving c al cb b k t \<and> k < b))"
proof -
  obtain cb b k where r: "frame_receiving c cb b k (concat (map client_frame fs))" "k < b" using assms by (auto simp: waiting_def)
  then have "\<exists>nb. rnb c = Some nb" by (auto simp: receiving_def)
  then show "\<exists>nb. rnb c = Some nb \<and> (nb_buf nb = None \<or> (\<exists>al cb b k t. receiving c al cb b k t \<and> k < b))" using r by blast
qed (use assms in \<open>simp add: waiting_def\<close>)

interpretation ws: recv_protocol "ws_run_cb pm maxframe w" "ws_state w maxframe" ws_later
proof unfold_locales
  fix x show "ws_later x x" by (cases x) (auto intro!: exI [of _ "[]"])
next
  fix x y z assume a: "ws_later x y" "ws_later y z"
  obtain fs ms fs1 ms1 fs2 ms2 where x: "x = (fs, ms)" "y = (fs1, ms1)" "z = (fs2, ms2)" by (metis surj_pair)
  then obtain d e where "fs = d @ fs1" "ms1 = ms @ map message d" "fs1 = e @ fs2" "ms2 = ms1 @ map message e" using a by auto
  then show "ws_later x z" using x by (auto intro!: exI [of _ "d @ e"])
next
  fix c x assume "ws_state w maxframe c x"
  then show "\<not> tls c \<and> (\<exists>nb. rnb c = Some nb \<and> (nb_buf nb = None \<or> (\<exists>al cb b k t. receiving c al cb b k t \<and> k < b)))"
    using waiting_awaits [of c "fst x"] by (cases x) simp
next
  fix c e x show "ws_state w maxframe (c\<lparr>evt_read := e\<rparr>) x = ws_state w maxframe c x" by (cases x) (simp add: waiting_update)
next
  fix c rs x show "ws_state w maxframe (c\<lparr>reads := rs\<rparr>) x = ws_state w maxframe c x" by (cases x) (simp add: waiting_update)
next
  fix c x nb assume "ws_state w maxframe c x" "rnb c = Some nb" "nb_buf nb = None"
  then show "sock_in c = []" by (cases x) (auto simp: waiting_def receiving_def)
next
  fix c :: ws_connection and x cb b k t k1 nb1
  let ?c1 = "c\<lparr>sock_in := drop k1 t, rnb := Some nb1\<rparr>"
  assume a: "ws_state w maxframe c x" "receiving c False cb b k t" "receiving ?c1 False cb b k1 t" "k1 < b"
  obtain fs ms where x: "x = (fs, ms)" "waiting c fs" using a(1) by (cases x) auto
  note p = waiting_phase [OF x(2) a(2)]
  have "waiting ?c1 fs" by (rule waitingI [OF _ a(4) p(3)]) (use a(3) p(2) x(2) in \<open>auto simp: waiting_def\<close>)
  then show "ws_state w maxframe ?c1 x" using a(1) x(1) by simp
next
  fix c :: ws_connection and x al cb b k t k1 nb1
  let ?c1 = "c\<lparr>sock_in := drop k1 t, rnb := Some nb1\<rparr>"
  assume a: "ws_state w maxframe c x" "receiving c al cb b k t" "receiving ?c1 al cb b k1 t" "k1 = b \<or> al"
  obtain fs ms where x: "x = (fs, ms)" "waiting c fs" "messages c = ms" "\<forall>f \<in> set fs. frame_ok w maxframe f" "maxframe < 2 ^ 62"
    using a(1) by (cases x) auto
  note p = waiting_phase [OF x(2) a(2)]
  have r: "frame_receiving ?c1 cb b b (concat (map client_frame fs))" using a(3,4) p(1,2) by auto
  have h: "\<not> tls ?c1" "ws_has_message ?c1" using x(2) by (auto simp: waiting_def)
  obtain c2 d fs' where c2: "ws_run_cb pm maxframe w cb ?c1 = Some (Inr (True, c2))" "waiting c2 fs'" "fs = d @ fs'" "messages c2 = ms @ map message d" "reads c2 = reads c"
    "evt_read c2 = evt_read c" "sock_in c2 = drop k1 t"
    using callback_step [OF r h x(4,5) p(3), of pm] x(3) by auto
  have "ws_state w maxframe c2 (fs', ms @ map message d)" "ws_later x (fs', ms @ map message d)" using c2 x by auto
  then show "\<exists>c2 y. ws_run_cb pm maxframe w cb ?c1 = Some (Inr (True, c2)) \<and> ws_state w maxframe c2 y \<and> ws_later x y \<and> reads c2 = reads c \<and>
      evt_read c2 = evt_read c \<and> sock_in c2 = drop k1 t"
    using c2 by blast
qed

lemma ws_deliver_frames:
  assumes "waiting c fs" "\<forall>f \<in> set fs. frame_ok w maxframe f" "maxframe < 2 ^ 62" "\<forall>rs \<in> set rss. list_all no_failure rs"
  shows "\<exists>c' d fs'. ws_deliver pm maxframe w rss c = Some (Inr (True, c')) \<and> waiting c' fs' \<and> fs = d @ fs' \<and> messages c' = messages c @ map message d \<and>
    length (sock_in c') \<le> length (sock_in c) - sum_list (map gives rss)"
proof -
  have "ws_state w maxframe c (fs, messages c)" using assms by simp
  then obtain c' y where c': "recv_rounds (net_recv_flush (ws_run_cb pm maxframe w) (websocket_disconnect pm w)) rss c = Some (Inr (True, c'))"
    "ws_state w maxframe c' y" "ws_later (fs, messages c) y"
    "length (sock_in c') \<le> length (sock_in c) - sum_list (map gives rss)" using ws.recv_rounds_hold [OF _ assms(4)] by blast
  then show ?thesis by (cases y) (auto simp: ws_deliver_def ws_recv_def)
qed

lemma waiting_all_read:
  assumes "waiting c fs" "sock_in c = []" "\<forall>f \<in> set fs. frame_ok w maxframe f"
  shows "fs = []"
proof (rule ccontr)
  assume "fs \<noteq> []"
  then obtain f rest where fs: "fs = f # rest" by (cases fs) auto
  obtain op key payload where f: "f = (op, key, payload)" by (cases f) auto
  let ?n = "length payload"
  obtain cb b k where r: "frame_receiving c cb b k (concat (map client_frame fs))" "k < b" "b = 2 \<or> b = first_len ?n \<or> b = frame_len ?n"
    using assms(1) fs f by (auto simp: waiting_def)
  have "length (concat (map client_frame fs)) \<le> k" using r(1) assms(2) by (simp add: receiving_def)
  moreover have "length (client_frame f) = frame_len ?n" using length_client_frame [of key op payload] assms(3) fs f by simp
  then have "frame_len ?n \<le> length (concat (map client_frame fs))" by (simp add: fs)
  moreover have "b \<le> frame_len ?n" using r(3) first_len_le(1,2) [of ?n] by linarith
  ultimately show False using r(2) by linarith
qed

text \<open>
  C36: after the handshake, the frames of a client - text or binary, masked, any number of them with any payload up
  to the limit - arrive as their messages, unmasked and in order, however the bytes are cut into reads and
  whatever interruptions there are: at any time the messages handed over are those of the first frames, and when
  every byte has been read - at the latest when as many reads as there are bytes have given something - they are all of
  them.
\<close>

theorem websocket_messages_delivered:
  assumes "rnb c = Some nb" "nb_buf nb = Some buf" "m_len nb \<le> length buf" "\<not> nb_always nb" "\<not> tls c" "ws_has_message c"
    "sock_in c = concat (map client_frame fs)" "\<forall>f \<in> set fs. frame_ok w maxframe f" "maxframe < 2 ^ 62"
    "\<forall>rs \<in> set rss. list_all no_failure rs"
  shows "\<exists>c1 c' d fs'. net_recv_reset pm WEBSOCKET_FRAME_HDR Recv_Opcode c = Inr c1 \<and> ws_deliver pm maxframe w rss c1 = Some (Inr (True, c')) \<and>
    fs = d @ fs' \<and> messages c' = messages c @ map message d \<and> (sock_in c' = [] \<or> length (sock_in c) \<le> sum_list (map gives rss) \<longrightarrow> fs' = [])"
proof -
  obtain c1 nb1 where c1: "net_recv_reset pm 2 Recv_Opcode c = Inr c1" "frame_receiving c1 Recv_Opcode 2 0 (concat (map client_frame fs))" "c1 = c\<lparr>rnb := Some nb1\<rparr>"
    using reset_receiving [OF assms(1) _ assms(7), of pm 2 Recv_Opcode] assms(2-4) by auto
  have "waiting c1 fs" using waiting_start [OF c1(2)] c1(3) assms(5,6) by simp
  then obtain c' d fs' where c': "ws_deliver pm maxframe w rss c1 = Some (Inr (True, c'))" "waiting c' fs'" "fs = d @ fs'" "messages c' = messages c1 @ map message d"
    "length (sock_in c') \<le> length (sock_in c1) - sum_list (map gives rss)"
    using ws_deliver_frames [OF _ assms(8-10)] by blast
  moreover have "sock_in c' = [] \<longrightarrow> fs' = []" using waiting_all_read [OF c'(2)] assms(8) c'(3) by auto
  moreover have "sock_in c' = []" if "length (sock_in c) \<le> sum_list (map gives rss)" using c'(5) c1(3) that by simp
  ultimately show ?thesis using c1(1,3) by auto
qed

definition sample_opcodes :: ws_opcodes where
  "sample_opcodes = \<lparr>OP_CONT = 0, OP_TEXT = 1, OP_BINARY = 2, OP_CLOSE = 8, OP_PING = 9, OP_PONG = 10\<rparr>"

definition sample_connection :: "u8 list \<Rightarrow> ws_connection" where
  "sample_connection t = \<lparr>send_queue = [], snb = False, rnb = Some (net_netbuf_get\<lparr>nb_buf := Some (malloc_cells 16), m_len := 16\<rparr>), evt_read = False,
     evt_write = False, close_empty = False, disconnecting = False, tls = False, tls_reneg = 0, sock_out = [], sock_in = t, writes = [], reads = [],
     finished = [], close_sent = False, ws_has_message = True, messages = [], ws_closed = 0\<rparr>"

theorem websocket_messages_delivered_witness:
  "\<exists>c1 c'. net_recv_reset 8192 2 Recv_Opcode (sample_connection (client_frame (1, [1, 2, 3, 4], [104, 105]))) = Inr c1 \<and>
    ws_deliver 8192 16384 sample_opcodes [[Io_Bytes 1, Io_EINTR, Io_Bytes 3, Io_Bytes 1], replicate 5 (Io_Bytes 9)] c1 = Some (Inr (True, c')) \<and>
    messages c' = [(1, [104, 105])]"
proof -
  let ?f = "(1, [1, 2, 3, 4], [104, 105])" and ?nb = "net_netbuf_get\<lparr>nb_buf := Some (malloc_cells 16), m_len := 16\<rparr> :: ws_cb netbuf"
  let ?c = "sample_connection (client_frame ?f)" and ?rss = "[[Io_Bytes 1, Io_EINTR, Io_Bytes 3, Io_Bytes 1], replicate 5 (Io_Bytes 9)]"
  have c: "rnb ?c = Some ?nb" "nb_buf ?nb = Some (malloc_cells 16)" "m_len ?nb \<le> length (malloc_cells 16)" "\<not> nb_always ?nb" "\<not> tls ?c" "ws_has_message ?c"
    "sock_in ?c = concat (map client_frame [?f])" "messages ?c = []" "sock_in ?c = client_frame ?f"
    by (simp_all add: sample_connection_def net_netbuf_get_def malloc_cells_def)
  have f: "\<forall>f \<in> set [?f]. frame_ok sample_opcodes 16384 f" by (simp add: sample_opcodes_def)
  have r: "\<forall>rs \<in> set ?rss. list_all no_failure rs" by (simp add: numeral_eq_Suc)
  have m: "(16384 :: int) < 2 ^ 62" by simp
  have "length (client_frame ?f) = 8" using length_client_frame [of "[1, 2, 3, 4]" 1 "[104, 105]"] by (simp add: frame_len_def ext_len_def)
  moreover have "sum_list (map gives ?rss) = 8" by (simp add: numeral_eq_Suc)
  ultimately have n: "length (sock_in ?c) \<le> sum_list (map gives ?rss)" by (simp only: c(9))
  obtain c1 c' d fs' where d: "net_recv_reset 8192 2 Recv_Opcode ?c = Inr c1" "ws_deliver 8192 16384 sample_opcodes ?rss c1 = Some (Inr (True, c'))"
    "[?f] = d @ fs'" "messages c' = messages ?c @ map message d" "fs' = []"
    using websocket_messages_delivered [OF c(1-7) f m r, of 8192] n by blast
  have "d = [?f]" using d(3,5) by simp
  then have "messages c' = [(1, [104, 105])]" using d(4) c(8) by (simp add: message_def)
  then show ?thesis using d(1,2) by blast
qed

end
