(* ===== verification/Kore_Http_Text.thy ===== *)
theory Kore_Http_Text
  imports Kore_Utils
begin

text \<open>
  The texts of HTTP, from \<open>kore-3.2.0/src/http.c\<close>: the lines of a header, the encoding of arguments in a URL, the
  names of methods, states and media. The codes of the states are declared in a header that is not in the sources;
  they are a parameter.
\<close>

section \<open>Comparing strings\<close>

definition tolower :: "u8 \<Rightarrow> u8" where
  "tolower c = (if 65 \<le> uint c \<and> uint c \<le> 90 then c + 32 else c)"

text \<open>Whether \<open>strcasecmp\<close> and \<open>strncasecmp\<close> find two strings equal.\<close>

definition same_text :: "u8 list \<Rightarrow> u8 list \<Rightarrow> bool" where
  "same_text s t \<longleftrightarrow> map tolower s = map tolower t"

definition same_start :: "nat \<Rightarrow> u8 list \<Rightarrow> u8 list \<Rightarrow> bool" where
  "same_start n s t \<longleftrightarrow> same_text (take n s) (take n t)"

lemma same_text_refl [simp]: "same_text s s"
  by (simp add: same_text_def)

lemma same_text_sym: "same_text s t \<Longrightarrow> same_text t s"
  by (simp add: same_text_def)

section \<open>Header lines\<close>

definition http_token :: "u8 list" where
  "http_token =
     replicate 32 0 @
     [0, 0x21, 0, 0x23, 0x24, 0x25, 0x26, 0x27, 0, 0, 0x2a, 0x2b, 0, 0x2d, 0x2e, 0,
      0x30, 0x31, 0x32, 0x33, 0x34, 0x35, 0x36, 0x37, 0x38, 0x39, 0, 0, 0, 0, 0, 0,
      0, 0x41, 0x42, 0x43, 0x44, 0x45, 0x46, 0x47, 0x48, 0x49, 0x4a, 0x4b, 0x4c, 0x4d, 0x4e, 0x4f,
      0x50, 0x51, 0x52, 0x53, 0x54, 0x55, 0x56, 0x57, 0x58, 0x59, 0x5a, 0, 0, 0, 0x5e, 0x5f,
      0x60, 0x61, 0x62, 0x63, 0x64, 0x65, 0x66, 0x67, 0x68, 0x69, 0x6a, 0x6b, 0x6c, 0x6d, 0x6e, 0x6f,
      0x70, 0x71, 0x72, 0x73, 0x74, 0x75, 0x76, 0x77, 0x78, 0x79, 0x7a, 0, 0x7c, 0, 0x7e]"

definition http_field_content :: "u8 list" where
  "http_field_content = replicate 32 0 @ map of_nat [32..<127]"

abbreviation (input) HTTP_MAP_LIMIT :: int where "HTTP_MAP_LIMIT \<equiv> 127"

text \<open>
  The name up to the colon, which becomes a NUL, and what follows it; \<open>None\<close> for a byte that no name may have.
  The two tables have 127 members, and the limit lets the index 127 through.
\<close>

fun header_name :: "u8 list \<Rightarrow> (u8 list \<times> u8 list) option c_result" where
  "header_name [] = Inr (Some ([], []))"
| "header_name (c # p) =
     (if uint c > HTTP_MAP_LIMIT then Inr None
      else if c = 0x3a then Inr (Some ([], p))
      else c_bind (arr_get http_token (uint c)) (\<lambda>t.
           if t = 0 then Inr None else c_bind (header_name p) (\<lambda>r. Inr (map_option (\<lambda>(n, p). (c # n, p)) r))))"

fun field_content :: "u8 list \<Rightarrow> bool c_result" where
  "field_content [] = Inr True"
| "field_content (c # p) =
     (if uint c > HTTP_MAP_LIMIT then Inr False
      else c_bind (arr_get http_field_content (uint c)) (\<lambda>t. if t = 0 then Inr False else field_content p))"

definition http_validate_header :: "u8 list \<Rightarrow> (u8 list \<times> u8 list) option c_result" where
  "http_validate_header header =
     c_bind (header_name header) (\<lambda>r.
     case r of
       None \<Rightarrow> Inr None
     | Some (name, p) \<Rightarrow>
         let value = dropWhile is_white p in
         if value = [] then Inr None
         else c_bind (field_content value) (\<lambda>ok. Inr (if ok then Some (name, value) else None)))"

text \<open>The characters of a name and of a value, as the comments on the tables have them.\<close>

definition separators :: "u8 list" where
  "separators = [0x28, 0x29, 0x3c, 0x3e, 0x40, 0x2c, 0x3b, 0x3a, 0x5c, 0x22, 0x2f, 0x5b, 0x5d, 0x3f, 0x3d, 0x7b, 0x7d, 0x20, 0x09]"

definition token_char :: "u8 \<Rightarrow> bool" where
  "token_char c \<longleftrightarrow> 32 < uint c \<and> uint c < 127 \<and> c \<notin> set separators"

definition field_char :: "u8 \<Rightarrow> bool" where
  "field_char c \<longleftrightarrow> 32 \<le> uint c \<and> uint c < 127"

lemma http_token_table: "http_token = map (\<lambda>i. if token_char (of_nat i) then of_nat i else 0) [0..<127]"
proof -
  have "[0..<127] = [0..<33] @ [33..<127 :: nat]" using upt_add_eq_append [of 0 33 94] by simp
  moreover have "map (\<lambda>i. if token_char (of_nat i) then of_nat i else (0 :: u8)) [0..<33] = replicate 33 0"
    by (rule nth_equalityI) (simp_all add: token_char_def)
  moreover have "map (\<lambda>i. if token_char (of_nat i) then of_nat i else (0 :: u8)) [33..<127] = drop 33 http_token"
    by (simp add: upt_rec_numeral token_char_def separators_def http_token_def)
  ultimately show ?thesis by (simp add: http_token_def numeral_eq_Suc)
qed

lemma u8_index:
  assumes "uint (c :: u8) < int n"
  shows "unat c < n" "uint c = int (unat c)" "of_nat (unat c) = c"
proof -
  show "uint c = int (unat c)" by simp
  then show "unat c < n" using assms by linarith
qed simp

lemma arr_get_table: "n < length xs \<Longrightarrow> arr_get xs (int n) = Inr (xs ! n)"
  by simp

lemma http_token_char:
  assumes "uint c < 127"
  shows "\<exists>t. arr_get http_token (uint c) = Inr t \<and> (t \<noteq> 0) = token_char c"
proof -
  have i: "unat c < 127" "uint c = int (unat c)" "of_nat (unat c) = c" using u8_index [of c 127] assms by simp_all
  have "arr_get http_token (int (unat c)) = Inr (if token_char c then c else 0)"
    unfolding http_token_table by (subst arr_get_table) (use i in simp_all)
  moreover have "token_char c \<Longrightarrow> c \<noteq> 0" by (auto simp: token_char_def)
  ultimately show ?thesis unfolding i(2) by auto
qed

lemma http_field_char:
  assumes "uint c < 127"
  shows "\<exists>t. arr_get http_field_content (uint c) = Inr t \<and> (t \<noteq> 0) = field_char c"
proof -
  have i: "unat c < 127" "uint c = int (unat c)" "of_nat (unat c) = c" using u8_index [of c 127] assms by simp_all
  have l: "length http_field_content = 127" by (simp add: http_field_content_def del: upt_rec_numeral)
  have t: "http_field_content ! unat c = (if unat c < 32 then 0 else c)"
    using i(1,3) unfolding http_field_content_def by (simp add: nth_append del: upt_rec_numeral)
  have "arr_get http_field_content (int (unat c)) = Inr (if unat c < 32 then 0 else c)"
    by (subst arr_get_table) (use i l t in simp_all)
  moreover have "unat c < 32 \<longleftrightarrow> \<not> field_char c" unfolding field_char_def i(2) using i(1) by linarith
  moreover have "c \<noteq> 0" if "\<not> unat c < 32" using that by auto
  ultimately show ?thesis unfolding i(2) by auto
qed

lemma token_char_ascii: "token_char c \<Longrightarrow> uint c < 127 \<and> c \<noteq> 0x3a"
  by (auto simp: token_char_def separators_def)

lemma header_name_token: "token_char c \<Longrightarrow> header_name (c # p) = c_bind (header_name p) (\<lambda>r. Inr (map_option (\<lambda>(n, p). (c # n, p)) r))"
  using token_char_ascii [of c] http_token_char [of c] by auto

lemma header_name_tokens:
  "list_all token_char n \<Longrightarrow> header_name (n @ p) = c_bind (header_name p) (\<lambda>r. Inr (map_option (\<lambda>(m, p). (n @ m, p)) r))"
proof (induction n)
  case Nil
  then show ?case by (cases "header_name p") (auto simp: option.map_ident)
next
  case (Cons c n)
  then show ?case by (cases "header_name p") (auto simp: header_name_token option.map_comp comp_def split_def simp del: header_name.simps)
qed

lemma header_name_eq:
  assumes "127 \<notin> set h"
  shows "header_name h = Inr (case dropWhile token_char h of [] \<Rightarrow> Some (h, []) | c # p \<Rightarrow> if c = 0x3a then Some (takeWhile token_char h, p) else None)"
proof -
  let ?n = "takeWhile token_char h" and ?r = "dropWhile token_char h"
  have n: "list_all token_char ?n" by (metis list_all_iff set_takeWhileD)
  have h: "header_name h = c_bind (header_name ?r) (\<lambda>r. Inr (map_option (\<lambda>(m, p). (?n @ m, p)) r))"
    using header_name_tokens [OF n, of ?r] by simp
  show ?thesis
  proof (cases ?r)
    case Nil
    then have "?n = h" by (metis append_Nil2 takeWhile_dropWhile_id)
    then show ?thesis using h by (simp add: Nil)
  next
    case (Cons c p)
    then have c: "\<not> token_char c" "c \<noteq> 127" using assms hd_dropWhile [of token_char h] set_dropWhileD [of c token_char h] by auto
    have "uint c \<noteq> 127" using c(2) by (simp add: word_uint_eq_iff)
    then consider "c = 0x3a" | "c \<noteq> 0x3a" "uint c > 127" | "c \<noteq> 0x3a" "uint c < 127" by force
    then show ?thesis using h Cons c(1) http_token_char [of c] by cases auto
  qed
qed

lemma field_content_eq: "127 \<notin> set p \<Longrightarrow> field_content p = Inr (list_all field_char p)"
proof (induction p)
  case (Cons c p)
  then have "uint c \<noteq> 127" by (simp add: word_uint_eq_iff)
  then consider "uint c > 127" | "uint c < 127" by force
  then show ?case using Cons http_field_char [of c] by cases (auto simp: field_char_def)
qed simp

lemma colon_no_token [simp]: "\<not> token_char 0x3a"
  by (simp add: token_char_def separators_def)

text \<open>A name, a colon, blanks and a value can be cut in one way.\<close>

lemma header_parts:
  assumes "dropWhile token_char h = c # p" "h = n @ 0x3a # ws @ v" "list_all token_char n" "list_all is_white ws" "v \<noteq> []" "\<not> is_white (hd v)"
  shows "n = takeWhile token_char h \<and> c = 0x3a \<and> v = dropWhile is_white p"
proof -
  have "takeWhile token_char h = n" "dropWhile token_char h = 0x3a # ws @ v"
    using assms(2,3) by (simp_all add: list_all_iff takeWhile_append2 dropWhile_append2)
  moreover have "dropWhile is_white (ws @ v) = v" using assms(4-6) by (cases v) (auto simp: list_all_iff dropWhile_append2)
  ultimately show ?thesis using assms(1) by simp
qed

text \<open>
  A line of a header is taken exactly if it is a name of token characters, a colon, blanks, and a value that is
  not empty and has printable characters only; the name and the value are then these.
\<close>

theorem header_line_split:
  assumes "127 \<notin> set h"
  shows "\<exists>r. http_validate_header h = Inr r \<and>
    (\<forall>n v. r = Some (n, v) \<longleftrightarrow>
       (\<exists>ws. h = n @ 0x3a # ws @ v \<and> list_all token_char n \<and> list_all is_white ws \<and> v \<noteq> [] \<and> \<not> is_white (hd v) \<and> list_all field_char v))"
proof (cases "dropWhile token_char h")
  case Nil
  then have "list_all token_char h" by (simp add: list_all_iff)
  moreover have "http_validate_header h = Inr None" using header_name_eq [OF assms] Nil by (simp add: http_validate_header_def)
  ultimately show ?thesis by (intro exI [of _ None]) auto
next
  case (Cons c p)
  let ?n = "takeWhile token_char h" and ?v = "dropWhile is_white p"
  have h: "h = ?n @ c # p" "\<not> token_char c" using Cons takeWhile_dropWhile_id [of token_char h] hd_dropWhile [of token_char h] by auto
  have key: "n = ?n \<and> c = 0x3a \<and> v = ?v"
    if "h = n @ 0x3a # ws @ v" "list_all token_char n" "list_all is_white ws" "v \<noteq> []" "\<not> is_white (hd v)" for n ws v
    by (rule header_parts [OF Cons that])
  show ?thesis
  proof (cases "c = 0x3a \<and> ?v \<noteq> [] \<and> list_all field_char ?v")
    case False
    have "http_validate_header h = Inr None"
    proof (cases "c = 0x3a \<and> ?v \<noteq> []")
      case True
      then have "127 \<notin> set ?v" using assms h(1) by (metis in_set_conv_decomp set_dropWhileD append_Cons set_append UnCI list.set_intros(2))
      then show ?thesis using header_name_eq [OF assms] Cons True False by (simp add: http_validate_header_def field_content_eq Let_def)
    qed (use header_name_eq [OF assms] Cons in \<open>auto simp: http_validate_header_def\<close>)
    moreover have "\<not> (h = n @ 0x3a # ws @ v \<and> list_all token_char n \<and> list_all is_white ws \<and> v \<noteq> [] \<and> \<not> is_white (hd v) \<and> list_all field_char v)" for n ws v
    proof
      assume a: "h = n @ 0x3a # ws @ v \<and> list_all token_char n \<and> list_all is_white ws \<and> v \<noteq> [] \<and> \<not> is_white (hd v) \<and> list_all field_char v"
      then have "c = 0x3a \<and> v = ?v" using key by blast
      then show False using a False by blast
    qed
    ultimately show ?thesis by (intro exI [of _ None]) blast
  next
    case True
    have "127 \<notin> set ?v" using assms h(1) by (metis in_set_conv_decomp set_dropWhileD append_Cons set_append UnCI list.set_intros(2))
    then have r: "http_validate_header h = Inr (Some (?n, ?v))"
      using header_name_eq [OF assms] Cons True by (simp add: http_validate_header_def field_content_eq Let_def)
    have "h = ?n @ 0x3a # p" using h(1) True by blast
    moreover have "p = takeWhile is_white p @ ?v" by simp
    moreover have "list_all token_char ?n" "list_all is_white (takeWhile is_white p)" by (metis list_all_iff set_takeWhileD)+
    moreover have "?v \<noteq> []" "\<not> is_white (hd ?v)" using True hd_dropWhile [of is_white p] by blast+
    ultimately have ex: "\<exists>ws. h = ?n @ 0x3a # ws @ ?v \<and> list_all token_char ?n \<and> list_all is_white ws \<and> ?v \<noteq> [] \<and> \<not> is_white (hd ?v) \<and> list_all field_char ?v"
      using True by metis
    have "Some (?n, ?v) = Some (n, v) \<longleftrightarrow>
        (\<exists>ws. h = n @ 0x3a # ws @ v \<and> list_all token_char n \<and> list_all is_white ws \<and> v \<noteq> [] \<and> \<not> is_white (hd v) \<and> list_all field_char v)" for n v
    proof
      assume "\<exists>ws. h = n @ 0x3a # ws @ v \<and> list_all token_char n \<and> list_all is_white ws \<and> v \<noteq> [] \<and> \<not> is_white (hd v) \<and> list_all field_char v"
      then have "n = ?n" "v = ?v" using key by blast+
      from this [symmetric] show "Some (?n, ?v) = Some (n, v)" by (simp only:)
    qed (use ex in blast)
    then show ?thesis using r by blast
  qed
qed

theorem header_line_split_witness:
  "\<exists>r. http_validate_header (cstr ''Host:  a'') = Inr r \<and>
    (\<forall>n v. r = Some (n, v) \<longleftrightarrow>
       (\<exists>ws. cstr ''Host:  a'' = n @ 0x3a # ws @ v \<and> list_all token_char n \<and> list_all is_white ws \<and> v \<noteq> [] \<and> \<not> is_white (hd v) \<and> list_all field_char v))"
  by (rule header_line_split) simp

text \<open>
  The byte 127 passes the limit and indexes the tables past their end, in the name and in the value.
\<close>

theorem header_del_reads_past:
  assumes "list_all token_char n" "list_all is_white ws" "list_all field_char v" "v \<noteq> []" "\<not> is_white (hd v)"
  shows "http_validate_header (n @ 127 # p) = Inl Out_Of_Bounds" "http_validate_header (n @ 0x3a # ws @ v @ 127 # p) = Inl Out_Of_Bounds"
proof -
  have oob: "arr_get http_token 127 = Inl Out_Of_Bounds" "arr_get http_field_content 127 = Inl Out_Of_Bounds"
    by (simp_all add: arr_get_def http_token_table http_field_content_def)
  show "http_validate_header (n @ 127 # p) = Inl Out_Of_Bounds"
    using header_name_tokens [OF assms(1), of "127 # p"] oob by (simp add: http_validate_header_def)
  have f: "field_content (v @ 127 # p) = Inl Out_Of_Bounds" using assms(3)
  proof (induction v)
    case (Cons c v)
    then show ?case using http_field_char [of c] by (auto simp: field_char_def)
  qed (use oob in simp)
  have "dropWhile is_white (ws @ v @ 127 # p) = v @ 127 # p"
    using assms(2,4,5) by (cases v) (auto simp: list_all_iff dropWhile_append2)
  then show "http_validate_header (n @ 0x3a # ws @ v @ 127 # p) = Inl Out_Of_Bounds"
    using header_name_tokens [OF assms(1), of "0x3a # ws @ v @ 127 # p"] f assms(4) by (simp add: http_validate_header_def is_white_def [of 127])
qed

section \<open>Encoded arguments\<close>

definition is_xdigit :: "u8 \<Rightarrow> bool" where
  "is_xdigit c \<longleftrightarrow> is_digit c \<or> 65 \<le> uint c \<and> uint c \<le> 70 \<or> 97 \<le> uint c \<and> uint c \<le> 102"

text \<open>
  \<open>http_argument_urldecode\<close> works in place: \<open>p\<close> reads and \<open>i\<close> writes, never before it. The answer and what is in
  the memory, whatever the answer.
\<close>

function urldecode_loop :: "nat \<Rightarrow> nat \<Rightarrow> nat \<Rightarrow> u8 list \<Rightarrow> bool \<times> u8 list" where
  "urldecode_loop len p i arg =
     (if arg ! p \<noteq> 0 \<and> p < len then
        let arg = (if arg ! p = 0x2b then arg[p := 0x20] else arg) in
        if arg ! p \<noteq> 0x25 then urldecode_loop len (p + 1) (i + 1) (arg[i := arg ! p])
        else if p + 2 \<ge> len then (False, arg)
        else if \<not> is_xdigit (arg ! (p + 1)) \<or> \<not> is_xdigit (arg ! (p + 2)) then urldecode_loop len (p + 1) (i + 1) (arg[i := arg ! p])
        else
          case kore_strtonum [0x30, 0x78, arg ! (p + 1), arg ! (p + 2)] 16 0 0xff of
            None \<Rightarrow> (False, arg)
          | Some v \<Rightarrow>
              if v \<le> 0x1f \<or> v = 0x7f \<or> v \<ge> 0x80 \<and> v \<le> 0x9f then (False, arg)
              else urldecode_loop len (p + 3) (i + 1) (arg[i := word_of_int v])
      else (True, arg[i := 0]))"
  by pat_completeness auto
termination
  by (relation "measure (\<lambda>(len, p, _, _). len - p)") auto

declare urldecode_loop.simps [simp del]

text \<open>The string in a buffer of its length, before and after.\<close>

definition http_argument_urldecode :: "u8 list \<Rightarrow> bool \<times> u8 list" where
  "http_argument_urldecode s =
     (let (ok, arg) = urldecode_loop (length s) 0 0 (s @ [0]) in (ok, takeWhile (\<lambda>c. c \<noteq> 0) arg))"

text \<open>What a client sends: a blank as a plus or a code, some characters as they are, the others as a code.\<close>

definition hex_digit :: "nat \<Rightarrow> u8" where
  "hex_digit n = (if n < 10 then 48 + of_nat n else 55 + of_nat n)"

definition hex_code :: "u8 \<Rightarrow> u8 list" where
  "hex_code c = [0x25, hex_digit (unat c div 16), hex_digit (unat c mod 16)]"

definition url_char :: "(u8 \<Rightarrow> bool) \<Rightarrow> u8 \<Rightarrow> u8 list" where
  "url_char plain c = (if plain c then [if c = 0x20 then 0x2b else c] else hex_code c)"

definition url_encode :: "(u8 \<Rightarrow> bool) \<Rightarrow> u8 list \<Rightarrow> u8 list" where
  "url_encode plain s = concat (map (url_char plain) s)"

text \<open>The bytes that \<open>http_argument_urldecode\<close> refuses as codes: the control characters of Latin-1.\<close>

definition control_byte :: "u8 \<Rightarrow> bool" where
  "control_byte c \<longleftrightarrow> uint c \<le> 0x1f \<or> uint c = 0x7f \<or> 0x80 \<le> uint c \<and> uint c \<le> 0x9f"

lemma hex_digit_val:
  assumes "n < 16"
  shows "digit_val (hex_digit n) = int n \<and> is_xdigit (hex_digit n) \<and> hex_digit n \<noteq> 0 \<and> hex_digit n \<noteq> 0x2b"
proof -
  have "hex_digit n = of_nat (if n < 10 then 48 + n else 55 + n)" by (simp add: hex_digit_def)
  moreover have "(if n < 10 then 48 + n else 55 + n) < 256" using assms by simp
  ultimately have "uint (hex_digit n) = int (if n < 10 then 48 + n else 55 + n)" by (simp only: uint_of_nat_u8)
  then show ?thesis using assms by (auto simp: digit_val_def is_xdigit_def is_digit_def word_uint_eq_iff split: if_splits)
qed

lemma hex_code_read: "kore_strtonum [0x30, 0x78, hex_digit (unat c div 16), hex_digit (unat c mod 16)] 16 0 0xff = Some (uint (c :: u8))"
proof -
  have b: "unat c div 16 < 16" "unat c mod 16 < 16" using unat_u8_lt [of c] by (auto simp: less_mult_imp_div_less)
  let ?h = "hex_digit (unat c div 16)" and ?l = "hex_digit (unat c mod 16)"
  have d: "digit_val ?h = int (unat c div 16)" "digit_val ?l = int (unat c mod 16)" using hex_digit_val b by blast+
  have "int (unat c div 16) * 16 + int (unat c mod 16) = int (unat c)" by (metis div_mult_mod_eq of_nat_add of_nat_mult of_nat_numeral)
  then have v: "base_value 16 [?h, ?l] = uint c" by (simp add: base_value_def d del: of_nat_mod of_nat_div)
  have "strto_scan 16 [0x30, 0x78, ?h, ?l] = Some (False, uint c, [])"
    using b v d by (simp add: strto_scan_def skip_0x_def is_white_def del: of_nat_mod of_nat_div)
  moreover have b: "uint c \<le> 255" "0 \<le> uint c" using uint_bounded [of c] by simp_all
  have "LLONG_MIN \<le> 0" by simp
  then have "\<not> uint c < LLONG_MIN" using b(2) by linarith
  moreover have "\<not> uint c > LLONG_MAX" "\<not> uint c < 0" "\<not> uint c > 0xff" using b by simp_all
  ultimately show ?thesis by (simp only: kore_strtonum_def strtoll_def option.case prod.case if_False Let_def) simp
qed

text \<open>
  One character is read: what was written before it, what is left in the gap from \<open>i\<close> to \<open>p\<close>, and what follows.
\<close>

lemma store_in_gap: "(out @ gap @ u @ rest)[length out := c] = (out @ [c]) @ tl (gap @ u) @ rest" if "u \<noteq> []"
  using that by (cases gap; cases u) (simp_all add: list_update_append)

lemma urldecode_plain:
  assumes "c \<noteq> 0" "c \<noteq> 0x25" "c \<noteq> 0x2b" "length out + length gap < len"
  shows "urldecode_loop len (length out + length gap) (length out) (out @ gap @ [if c = 0x20 then 0x2b else c] @ rest) =
    urldecode_loop len (length out + length gap + 1) (length out + 1) ((out @ [c]) @ tl (gap @ [c]) @ rest)"
proof -
  let ?p = "length out + length gap" and ?e = "if c = 0x20 then 0x2b else c"
  let ?arg = "out @ gap @ [?e] @ rest"
  have g: "?arg ! ?p = ?e" "(out @ gap @ [c] @ rest) ! ?p = c" by (simp_all add: nth_append)
  have a: "(if ?e = 0x2b then ?arg[?p := 0x20] else ?arg) = out @ gap @ [c] @ rest"
    using assms(3) by (auto simp: list_update_append)
  have "?e \<noteq> 0 \<and> ?p < len" using assms(1,4) by simp
  then have "urldecode_loop len ?p (length out) ?arg = urldecode_loop len (?p + 1) (length out + 1) ((out @ gap @ [c] @ rest)[length out := c])"
    by (subst urldecode_loop.simps) (simp only: Let_def a g assms(2) if_True not_False_eq_True simp_thms)
  then show ?thesis by (simp only: store_in_gap not_Cons_self2 not_False_eq_True)
qed

lemma urldecode_code:
  assumes "length out + length gap + 2 < len"
  shows "urldecode_loop len (length out + length gap) (length out) (out @ gap @ hex_code c @ rest) =
    (if control_byte c then (False, out @ gap @ hex_code c @ rest)
     else urldecode_loop len (length out + length gap + 3) (length out + 1) ((out @ [c]) @ tl (gap @ hex_code c) @ rest))"
proof -
  let ?p = "length out + length gap" and ?arg = "out @ gap @ hex_code c @ rest"
  have b: "unat c div 16 < 16" "unat c mod 16 < 16" using unat_u8_lt [of c] by (auto simp: less_mult_imp_div_less)
  have g: "?arg ! ?p = 0x25" "?arg ! (?p + 1) = hex_digit (unat c div 16)" "?arg ! (?p + 2) = hex_digit (unat c mod 16)"
    by (simp_all add: nth_append hex_code_def)
  have x: "is_xdigit (hex_digit (unat c div 16))" "is_xdigit (hex_digit (unat c mod 16))" using hex_digit_val b by blast+
  have w: "word_of_int (uint c) = c" by simp
  have k: "uint c \<le> 0x1f \<or> uint c = 0x7f \<or> uint c \<ge> 0x80 \<and> uint c \<le> 0x9f \<longleftrightarrow> control_byte c" by (simp add: control_byte_def)
  have s: "?arg[length out := c] = (out @ [c]) @ tl (gap @ hex_code c) @ rest" by (rule store_in_gap) (simp add: hex_code_def)
  have n: "(0x25 :: u8) \<noteq> 0" "(0x25 :: u8) \<noteq> 0x2b" "\<not> ?p + 2 \<ge> len" "?p < len" using assms by simp_all
  show ?thesis
    by (subst urldecode_loop.simps) (simp only: g x n k s w Let_def hex_code_read option.case if_True if_False simp_thms not_False_eq_True)
qed

definition blanks :: "u8 list \<Rightarrow> u8 list" where
  "blanks e = map (\<lambda>c. if c = 0x2b then 0x20 else c) e"

definition encodable :: "(u8 \<Rightarrow> bool) \<Rightarrow> u8 list \<Rightarrow> bool" where
  "encodable plain s \<longleftrightarrow> (\<forall>c \<in> set s. if plain c then c \<noteq> 0 \<and> c \<noteq> 0x25 \<and> c \<noteq> 0x2b else \<not> control_byte c)"

lemma length_blanks [simp]: "length (blanks e) = length e"
  by (simp add: blanks_def)

lemma blanks_append: "blanks (a @ b) = blanks a @ blanks b"
  by (simp add: blanks_def)

lemma length_hex_code [simp]: "length (hex_code c) = 3"
  by (simp add: hex_code_def)

lemma blanks_hex_code [simp]: "blanks (hex_code c) = hex_code c"
proof -
  have "unat c div 16 < 16" "unat c mod 16 < 16" using unat_u8_lt [of c] by (auto simp: less_mult_imp_div_less)
  then show ?thesis using hex_digit_val by (simp add: blanks_def hex_code_def)
qed

lemma url_encode_snoc: "url_encode plain (s @ [c]) = url_encode plain s @ url_char plain c"
  by (simp add: url_encode_def)

lemma length_url_encode: "length s \<le> length (url_encode plain s)"
  by (induction s) (auto simp: url_encode_def url_char_def hex_code_def)

text \<open>The encoding of a string is read from the start, whatever follows it.\<close>

lemma urldecode_encoded:
  assumes "encodable plain s" "length (url_encode plain s) + length rest \<le> len" 
  shows "urldecode_loop len 0 0 (url_encode plain s @ rest @ [0]) =
    urldecode_loop len (length (url_encode plain s)) (length s) (s @ drop (length s) (blanks (url_encode plain s)) @ rest @ [0])"
  using assms
proof (induction s arbitrary: rest rule: rev_induct)
  case (snoc c s)
  let ?e = "url_encode plain s" and ?u = "url_char plain c"
  let ?gap = "drop (length s) (blanks ?e)"
  have l: "length s + length ?gap = length ?e" using length_url_encode [of s plain] by simp
  have "drop (length s) (blanks ?e @ blanks ?u) = ?gap @ blanks ?u" using length_url_encode [of s plain] by simp
  moreover have "drop (length (s @ [c])) e = tl (drop (length s) e)" for e :: "u8 list" by (simp add: drop_Suc tl_drop)
  ultimately have tl: "tl (?gap @ blanks ?u) = drop (length (s @ [c])) (blanks (url_encode plain (s @ [c])))"
    by (simp only: url_encode_snoc blanks_append)
  have "urldecode_loop len 0 0 (url_encode plain (s @ [c]) @ rest @ [0]) = urldecode_loop len (length ?e) (length s) (s @ ?gap @ ?u @ rest @ [0])"
    using snoc.IH [of "?u @ rest"] snoc.prems by (simp add: url_encode_snoc encodable_def)
  also have "\<dots> = urldecode_loop len (length (?e @ ?u)) (length (s @ [c])) ((s @ [c]) @ tl (?gap @ blanks ?u) @ rest @ [0])"
  proof (cases "plain c")
    case True
    then have u: "?u = [if c = 0x20 then 0x2b else c]" "blanks ?u = [c]" and c: "c \<noteq> 0" "c \<noteq> 0x25" "c \<noteq> 0x2b"
      using snoc.prems(1) by (auto simp: url_char_def blanks_def encodable_def)
    then show ?thesis using urldecode_plain [of c s ?gap len "rest @ [0]"] snoc.prems(2) l by (simp add: url_encode_snoc)
  next
    case False
    then have u: "?u = hex_code c" and c: "\<not> control_byte c" using snoc.prems(1) by (auto simp: url_char_def encodable_def)
    then show ?thesis using urldecode_code [of s ?gap len c "rest @ [0]"] snoc.prems(2) l by (simp add: url_encode_snoc)
  qed
  finally show ?case by (simp only: tl url_encode_snoc append_assoc)
qed (simp add: url_encode_def blanks_def)

lemma urldecode_inverse:
  assumes "encodable plain s" "0 \<notin> set s"
  shows "http_argument_urldecode (url_encode plain s) = (True, s)"
proof -
  let ?e = "url_encode plain s"
  have l: "length s + length (drop (length s) (blanks ?e)) = length ?e" using length_url_encode [of s plain] by simp
  have z: "(s @ drop (length s) (blanks ?e) @ [0]) ! length ?e = 0" using l by (simp add: nth_append)
  have "urldecode_loop (length ?e) 0 0 (?e @ [0]) = urldecode_loop (length ?e) (length ?e) (length s) (s @ drop (length s) (blanks ?e) @ [0])"
    using urldecode_encoded [OF assms(1), of "[]" "length ?e"] by simp
  also have "\<dots> = (True, (s @ drop (length s) (blanks ?e) @ [0])[length s := 0])" by (subst urldecode_loop.simps) simp
  also have "\<dots> = (True, s @ 0 # tl (drop (length s) (blanks ?e) @ [0]))"
    using store_in_gap [of "[0]" s "drop (length s) (blanks ?e)" "[]" 0] by simp
  finally have "http_argument_urldecode ?e = (True, takeWhile (\<lambda>c. c \<noteq> 0) (s @ 0 # tl (drop (length s) (blanks ?e) @ [0])))"
    by (simp add: http_argument_urldecode_def)
  moreover have "takeWhile (\<lambda>c. c \<noteq> 0) (s @ 0 # r) = s" for r using assms(2) by (induction s) auto
  ultimately show ?thesis by simp
qed

text \<open>
  \<open>http_argument_urldecode\<close> gives back what was encoded, whichever characters the client sends as they are and
  which as codes, as long as there is no control character.
\<close>

theorem url_round_trip:
  assumes "encodable plain s" "0 \<notin> set s"
  shows "http_argument_urldecode (url_encode plain s) = (True, s)"
  by (rule urldecode_inverse [OF assms])

theorem url_round_trip_witness: "http_argument_urldecode (url_encode (\<lambda>c. c \<noteq> 0x2b) (cstr ''a b+c'')) = (True, cstr ''a b+c'')"
  by (rule url_round_trip) (simp_all add: encodable_def control_byte_def)

text \<open>
  The code of a control character, and every byte from 128 to 159 is one, stops the decoding: what is in the memory
  then is the decoded start followed by bytes of the encoding.
\<close>

lemma urldecode_stops:
  assumes "encodable plain s" "control_byte c"
  shows "urldecode_loop (length (url_encode plain s @ hex_code c @ rest)) 0 0 (url_encode plain s @ hex_code c @ rest @ [0]) =
    (False, s @ drop (length s) (blanks (url_encode plain s)) @ hex_code c @ rest @ [0])"
proof -
  let ?e = "url_encode plain s" and ?len = "length (url_encode plain s @ hex_code c @ rest)"
  have "length s + length (drop (length s) (blanks ?e)) = length ?e" using length_url_encode [of s plain] by simp
  then have "urldecode_loop ?len (length ?e) (length s) (s @ drop (length s) (blanks ?e) @ hex_code c @ rest @ [0]) =
      (False, s @ drop (length s) (blanks ?e) @ hex_code c @ rest @ [0])"
    using urldecode_code [of s "drop (length s) (blanks ?e)" ?len c "rest @ [0]"] assms(2) by (simp add: hex_code_def)
  then show ?thesis using urldecode_encoded [OF assms(1), of "hex_code c @ rest" ?len] by simp
qed

text \<open>A client that writes the characters with a meaning of their own, and the NUL, as codes.\<close>

definition codes_reserved :: "(u8 \<Rightarrow> bool) \<Rightarrow> bool" where
  "codes_reserved plain \<longleftrightarrow> (\<forall>c \<in> {0, 0x25, 0x2b, 0x3d, 0x26}. \<not> plain c)"

text \<open>
  What a page gets for any text of such a client. A text of which no control character is written as a code is
  decoded. Otherwise it is decoded up to the first of them only; after that come what the encoding of the decoded part has
  left behind, and the rest as it was encoded.
\<close>

definition decoded_text :: "(u8 \<Rightarrow> bool) \<Rightarrow> u8 list \<Rightarrow> u8 list" where
  "decoded_text plain s =
     (let u = takeWhile (\<lambda>c. plain c \<or> \<not> control_byte c) s in
      if u = s then s
      else u @ drop (length u) (blanks (url_encode plain u)) @ url_encode plain (drop (length u) s))"

lemma hex_digit_plain: "n < 16 \<Longrightarrow> hex_digit n \<notin> {0x3d, 0x26, 0}"
proof -
  assume n: "n < 16"
  then have "\<forall>n \<in> {..<16}. hex_digit n \<notin> {0x3d, 0x26, 0}" by (simp add: hex_digit_def lessThan_nat_numeral lessThan_Suc)
  then show ?thesis using n by auto
qed

lemma url_encode_no:
  assumes "d \<in> {0x3d, 0x26, 0}" "codes_reserved plain"
  shows "d \<notin> set (url_encode plain s)"
proof
  assume "d \<in> set (url_encode plain s)"
  then obtain c where c: "d \<in> set (url_char plain c)" by (auto simp: url_encode_def)
  show False
  proof (cases "plain c")
    case True
    then have "d = (if c = 0x20 then 0x2b else c)" using c by (simp add: url_char_def)
    then show False using assms True by (auto simp: codes_reserved_def split: if_splits)
  next
    case False
    have "unat c div 16 < 16" "unat c mod 16 < 16" using unat_u8_lt [of c] by (auto simp: less_mult_imp_div_less)
    then show False using c False assms(1) hex_digit_plain by (fastforce simp: url_char_def hex_code_def)
  qed
qed

lemma url_encode_empty [simp]: "url_encode plain s = [] \<longleftrightarrow> s = []"
  using length_url_encode [of s plain] by (cases s) (auto simp: url_encode_def url_char_def hex_code_def)

lemma urldecode_any:
  assumes "codes_reserved plain"
  shows "snd (http_argument_urldecode (url_encode plain s)) = decoded_text plain s"
proof -
  define u where "u = takeWhile (\<lambda>c. plain c \<or> \<not> control_byte c) s"
  have u: "\<forall>c \<in> set u. plain c \<or> \<not> control_byte c" by (auto simp: u_def dest: set_takeWhileD)
  then have e: "encodable plain u" using assms by (auto simp: encodable_def codes_reserved_def)
  have z: "0 \<notin> set u" using u assms by (auto simp: codes_reserved_def control_byte_def)
  show ?thesis
  proof (cases "u = s")
    case True
    then show ?thesis using urldecode_inverse [of plain s] e z by (simp add: decoded_text_def Let_def flip: u_def)
  next
    case False
    have s: "s = u @ dropWhile (\<lambda>c. plain c \<or> \<not> control_byte c) s" by (simp add: u_def)
    then have "dropWhile (\<lambda>c. plain c \<or> \<not> control_byte c) s \<noteq> []" using False by (metis append_Nil2)
    then obtain c r where r: "dropWhile (\<lambda>c. plain c \<or> \<not> control_byte c) s = c # r"
      by (cases "dropWhile (\<lambda>c. plain c \<or> \<not> control_byte c) s") auto
    then have c: "dropWhile (\<lambda>c. plain c \<or> \<not> control_byte c) s = c # r" "\<not> plain c" "control_byte c"
      using hd_dropWhile [of "\<lambda>c. plain c \<or> \<not> control_byte c" s] by simp_all
    let ?e = "url_encode plain u" and ?f = "url_encode plain r"
    have f: "url_encode plain s = ?e @ hex_code c @ ?f" and d: "url_encode plain (drop (length u) s) = hex_code c @ ?f"
      using c by (subst s, simp add: url_encode_def url_char_def)+
    have "http_argument_urldecode (url_encode plain s) =
        (False, takeWhile (\<lambda>c. c \<noteq> 0) (u @ drop (length u) (blanks ?e) @ hex_code c @ ?f @ [0]))"
      using urldecode_stops [OF e c(3), of ?f] by (simp add: http_argument_urldecode_def f)
    moreover have "0 \<notin> set (u @ drop (length u) (blanks ?e) @ hex_code c @ ?f)"
    proof -
      have "0 \<notin> set (url_encode plain s)" by (rule url_encode_no [OF _ assms]) simp
      then have "0 \<notin> set (hex_code c @ ?f)" "0 \<notin> set (blanks ?e)" by (auto simp: f blanks_def)
      then show ?thesis using z by (auto dest: in_set_dropD)
    qed
    then have "takeWhile (\<lambda>c. c \<noteq> 0) ((u @ drop (length u) (blanks ?e) @ hex_code c @ ?f) @ [0]) =
        u @ drop (length u) (blanks ?e) @ hex_code c @ ?f"
      by (subst takeWhile_append2) auto
    ultimately show ?thesis using False d by (simp add: decoded_text_def Let_def flip: u_def)
  qed
qed

section \<open>Names\<close>

text \<open>The names of the states, with the names of their codes.\<close>

definition status_texts :: "(string \<times> string) list" where
  "status_texts =
     [(''HTTP_STATUS_CONTINUE'', ''Continue''), (''HTTP_STATUS_SWITCHING_PROTOCOLS'', ''Switching Protocols''),
      (''HTTP_STATUS_OK'', ''OK''), (''HTTP_STATUS_CREATED'', ''Created''), (''HTTP_STATUS_ACCEPTED'', ''Accepted''),
      (''HTTP_STATUS_NON_AUTHORITATIVE'', ''Non-Authoritative Information''), (''HTTP_STATUS_NO_CONTENT'', ''No Content''),
      (''HTTP_STATUS_RESET_CONTENT'', ''Reset Content''), (''HTTP_STATUS_PARTIAL_CONTENT'', ''Partial Content''),
      (''HTTP_STATUS_MULTIPLE_CHOICES'', ''Multiple Choices''), (''HTTP_STATUS_MOVED_PERMANENTLY'', ''Moved Permanently''),
      (''HTTP_STATUS_FOUND'', ''Found''), (''HTTP_STATUS_SEE_OTHER'', ''See Other''), (''HTTP_STATUS_NOT_MODIFIED'', ''Not Modified''),
      (''HTTP_STATUS_USE_PROXY'', ''Use Proxy''), (''HTTP_STATUS_TEMPORARY_REDIRECT'', ''Temporary Redirect''),
      (''HTTP_STATUS_BAD_REQUEST'', ''Bad Request''), (''HTTP_STATUS_UNAUTHORIZED'', ''Unauthorized''),
      (''HTTP_STATUS_PAYMENT_REQUIRED'', ''Payment Required''), (''HTTP_STATUS_FORBIDDEN'', ''Forbidden''),
      (''HTTP_STATUS_NOT_FOUND'', ''Not Found''), (''HTTP_STATUS_METHOD_NOT_ALLOWED'', ''Method Not Allowed''),
      (''HTTP_STATUS_NOT_ACCEPTABLE'', ''Not Acceptable''), (''HTTP_STATUS_PROXY_AUTH_REQUIRED'', ''Proxy Authentication Required''),
      (''HTTP_STATUS_REQUEST_TIMEOUT'', ''Request Time-out''), (''HTTP_STATUS_CONFLICT'', ''Conflict''), (''HTTP_STATUS_GONE'', ''Gone''),
      (''HTTP_STATUS_LENGTH_REQUIRED'', ''Length Required''), (''HTTP_STATUS_PRECONDITION_FAILED'', ''Precondition Failed''),
      (''HTTP_STATUS_REQUEST_ENTITY_TOO_LARGE'', ''Request Entity Too Large''), (''HTTP_STATUS_REQUEST_URI_TOO_LARGE'', ''Request-URI Too Large''),
      (''HTTP_STATUS_UNSUPPORTED_MEDIA_TYPE'', ''Unsupported Media Type''), (''HTTP_STATUS_REQUEST_RANGE_INVALID'', ''Requested range not satisfiable''),
      (''HTTP_STATUS_EXPECTATION_FAILED'', ''Expectation Failed''), (''HTTP_STATUS_INTERNAL_ERROR'', ''Internal Server Error''),
      (''HTTP_STATUS_NOT_IMPLEMENTED'', ''Not Implemented''), (''HTTP_STATUS_BAD_GATEWAY'', ''Bad Gateway''),
      (''HTTP_STATUS_SERVICE_UNAVAILABLE'', ''Service Unavailable''), (''HTTP_STATUS_GATEWAY_TIMEOUT'', ''Gateway Time-out''),
      (''HTTP_STATUS_BAD_VERSION'', ''HTTP Version not supported'')]"

definition http_status_text :: "(string \<Rightarrow> int) \<Rightarrow> int \<Rightarrow> u8 list" where
  "http_status_text code status = (case find (\<lambda>(n, _). code n = status) status_texts of None \<Rightarrow> [] | Some (_, r) \<Rightarrow> cstr r)"

datatype http_method = GET | POST | PUT | DELETE | HEAD | OPTIONS | PATCH

fun http_method_text :: "http_method \<Rightarrow> u8 list" where
  "http_method_text GET = cstr ''GET''"
| "http_method_text POST = cstr ''POST''"
| "http_method_text PUT = cstr ''PUT''"
| "http_method_text DELETE = cstr ''DELETE''"
| "http_method_text HEAD = cstr ''HEAD''"
| "http_method_text OPTIONS = cstr ''OPTIONS''"
| "http_method_text PATCH = cstr ''PATCH''"

text \<open>The media types: the list is searched from its head, where the last one registered is.\<close>

definition builtin_media :: "(u8 list \<times> u8 list) list" where
  "builtin_media =
     [(cstr ''gif'', cstr ''image/gif''), (cstr ''png'', cstr ''image/png''), (cstr ''jpeg'', cstr ''image/jpeg''), (cstr ''jpg'', cstr ''image/jpeg''),
      (cstr ''zip'', cstr ''application/zip''), (cstr ''pdf'', cstr ''application/pdf''), (cstr ''json'', cstr ''application/json''),
      (cstr ''js'', cstr ''application/javascript''), (cstr ''htm'', cstr ''text/html''), (cstr ''txt'', cstr ''text/plain''),
      (cstr ''css'', cstr ''text/css''), (cstr ''html'', cstr ''text/html'')]"

definition http_media_register :: "u8 list \<Rightarrow> u8 list \<Rightarrow> (u8 list \<times> u8 list) list \<Rightarrow> bool \<times> (u8 list \<times> u8 list) list" where
  "http_media_register ext ty media =
     (if list_ex (\<lambda>(e, _). same_text e ext) media then (False, media) else (True, (ext, ty) # media))"

text \<open>\<open>http_init\<close> registers the built-in types, and stops if one of them is there already.\<close>

fun register_builtin :: "(u8 list \<times> u8 list) list \<Rightarrow> (u8 list \<times> u8 list) list \<Rightarrow> (u8 list \<times> u8 list) list c_result" where
  "register_builtin [] media = Inr media"
| "register_builtin ((e, t) # ms) media =
     (let (ok, media) = http_media_register e t media in if ok then register_builtin ms media else Inl Fatal)"

definition strrchr :: "u8 list \<Rightarrow> u8 \<Rightarrow> u8 list option" where
  "strrchr s c = (if c \<in> set s then Some (c # rev (takeWhile (\<lambda>x. x \<noteq> c) (rev s))) else None)"

definition http_media_type :: "u8 list \<Rightarrow> (u8 list \<times> u8 list) list \<Rightarrow> u8 list option" where
  "http_media_type path media =
     (case strrchr path 0x2e of
        None \<Rightarrow> None
      | Some p \<Rightarrow> if tl p = [] then None else map_option snd (find (\<lambda>(e, _). same_text e (tl p)) media))"

lemma strrchr_last: "c \<notin> set ext \<Longrightarrow> strrchr (base @ c # ext) c = Some (c # ext)"
proof -
  assume c: "c \<notin> set ext"
  have "takeWhile (\<lambda>x. x \<noteq> c) (rev ext @ c # rev base) = rev ext"
    using c by (subst takeWhile_append2) auto
  then show ?thesis by (simp add: strrchr_def)
qed

lemma strrchr_none: "strrchr s c = None \<longleftrightarrow> c \<notin> set s"
  by (simp add: strrchr_def)

text \<open>
  After the built-in types, and any others that were accepted, the type of a path is the one registered for what
  follows its last point, in capitals or not.
\<close>

fun register_all :: "(u8 list \<times> u8 list) list \<Rightarrow> (u8 list \<times> u8 list) list \<Rightarrow> (u8 list \<times> u8 list) list" where
  "register_all [] media = media"
| "register_all ((e, t) # ms) media = register_all ms (snd (http_media_register e t media))"

definition one_per_ext :: "(u8 list \<times> u8 list) list \<Rightarrow> bool" where
  "one_per_ext media \<longleftrightarrow> distinct (map (\<lambda>(e, _). map tolower e) media)"

lemma register_one_per_ext: "one_per_ext media \<Longrightarrow> one_per_ext (snd (http_media_register e t media)) \<and> set media \<subseteq> set (snd (http_media_register e t media))"
  by (auto simp: one_per_ext_def http_media_register_def list_ex_iff same_text_def)

lemma register_all_one_per_ext: "one_per_ext media \<Longrightarrow> one_per_ext (register_all ms media) \<and> set media \<subseteq> set (register_all ms media)"
proof (induction ms arbitrary: media)
  case (Cons m ms)
  then show ?case using register_one_per_ext [of media "fst m" "snd m"] by (cases m) fastforce
qed simp

lemma find_media: "one_per_ext media \<Longrightarrow> (e, t) \<in> set media \<Longrightarrow> same_text e ext \<Longrightarrow> map_option snd (find (\<lambda>(e, _). same_text e ext) media) = Some t"
  by (induction media) (force simp: one_per_ext_def same_text_def)+

lemma builtin_registered: "register_builtin builtin_media [] = Inr (rev builtin_media)"
  by (simp add: builtin_media_def http_media_register_def same_text_def tolower_def)

theorem media_type_by_ext:
  assumes "register_builtin builtin_media [] = Inr media" "(e, t) \<in> set (register_all ms media)" "same_text e ext" "ext \<noteq> []" "0x2e \<notin> set ext"
  shows "http_media_type (base @ 0x2e # ext) (register_all ms media) = Some t"
proof -
  have "one_per_ext media" using assms(1) by (simp add: builtin_registered) (auto simp: one_per_ext_def builtin_media_def tolower_def)
  then have "one_per_ext (register_all ms media)" using register_all_one_per_ext by blast
  then show ?thesis using find_media [OF _ assms(2,3)] strrchr_last [OF assms(5), of base] assms(4) by (simp add: http_media_type_def)
qed

end
