(* ===== verification/Kore_Http.thy ===== *)
theory Kore_Http
  imports Kore_Http_Text Kore_Net
begin

text \<open>
  The requests of the web server, \<open>kore-3.2.0/src/http.c\<close>: the callback that reads the header of a request, the one
  that reads its body, the list of the requests and of those asleep, and the answers. The state is the connection at
  hand with the worker's requests; those of other connections are in the same lists.
\<close>

section \<open>State\<close>

datatype http_cb = Header_Recv | Body_Recv | Stream_Sent nat

record http_param =
  param_name :: "u8 list"
  param_method :: http_method
  param_qs :: bool
  param_validator :: nat

record http_handler =
  methods :: "http_method list"
  params :: "http_param list"

record http_cookie =
  ck_name :: "u8 list"
  ck_value :: "u8 list"
  ck_path :: "u8 list option"
  ck_domain :: "u8 list option"
  ck_expires :: int
  ck_maxage :: int
  ck_httponly :: bool
  ck_secure :: bool

record http_file =
  f_name :: "u8 list"
  f_filename :: "u8 list"
  f_position :: int
  f_offset :: int
  f_length :: int

text \<open>
  A request; its flags are truth values. A body on disk is the bytes of the file and the position in it,
  \<open>hashed\<close> is what the hash context was given.
\<close>

record http_request =
  req_method :: http_method
  req_host :: "u8 list"
  req_path :: "u8 list"
  query_string :: "u8 list option"
  req_agent :: "u8 list option"
  req_referer :: "u8 list option"
  hdlr :: http_handler
  has_owner :: bool
  rq_v10 :: bool
  rq_complete :: bool
  rq_expect_body :: bool
  rq_delete :: bool
  rq_sleeping :: bool
  rq_no_content_length :: bool
  req_status :: int
  req_headers :: "(u8 list \<times> u8 list) list"
  resp_headers :: "(u8 list \<times> u8 list) list"
  req_cookies :: "(u8 list \<times> u8 list) list"
  resp_cookies :: "http_cookie list"
  arguments :: "(u8 list \<times> u8 list) list"
  files :: "http_file list"
  content_length :: int
  http_body_length :: int
  http_body_offset :: int
  http_body :: "kore_buf option"
  http_body_fd :: "(u8 list \<times> nat) option"
  http_body_path :: "u8 list option"
  hashed :: "u8 list"
  http_body_digest :: "u8 list"
  fsm_state :: nat

text \<open>
  The requests are in a store and in the lists; \<open>rnb_extra\<close> is \<open>c->rnb->extra\<close>. \<open>stale\<close> is what the element of the pool
  holds where \<open>http_request_new\<close> does not write.
\<close>

record http_connection = "http_cb connection" +
  proto_http :: bool
  inet6 :: bool
  rnb_extra :: "nat option"
  requests :: "nat \<Rightarrow> http_request"
  http_requests :: "nat list"
  http_requests_sleeping :: "nat list"
  conn_requests :: "nat list"
  http_request_count :: nat
  next_request :: nat
  stale :: http_request

text \<open>
  The configuration, the constants of headers that are not in the sources, and the outside: the handler for a
  host and a path, the files, the hash, and the date as \<open>strftime\<close> writes it.
\<close>

record http_config =
  http_request_limit :: nat
  http_body_max :: int
  http_header_max :: nat
  http_keepalive_time :: int
  http_hsts_enable :: int
  http_body_disk_offload :: int
  http_body_disk_path :: "u8 list"
  http_version :: "u8 list"
  KORE_DOMAINNAME_LEN :: nat
  HTTP_URI_LEN :: nat
  HTTP_REQ_HEADER_MAX :: nat
  HTTP_BODY_PATH_MAX :: nat
  HTTP_MAX_QUERY_ARGS :: nat
  HTTP_MAX_COOKIES :: nat
  HTTP_BOUNDARY_MAX :: nat
  NETBUF_SEND_PAYLOAD_MAX :: nat
  code :: "string \<Rightarrow> int"
  kore_module_handler_find :: "u8 list \<Rightarrow> u8 list \<Rightarrow> http_handler option"
  kore_validator_check :: "nat \<Rightarrow> u8 list \<Rightarrow> bool"
  mkstemp :: "u8 list \<Rightarrow> u8 list option"
  write_ok :: "u8 list \<Rightarrow> bool"
  sha256 :: "u8 list \<Rightarrow> u8 list"
  cookie_date :: "int \<Rightarrow> u8 list option"

type_synonym http_step = "http_connection \<Rightarrow> http_connection c_result option"

definition set_req :: "nat \<Rightarrow> (http_request \<Rightarrow> http_request) \<Rightarrow> http_connection \<Rightarrow> http_connection" where
  "set_req r f c = c\<lparr>requests := (requests c)(r := f (requests c r))\<rparr>"

text \<open>\<open>c->disconnect\<close> is NULL on a connection of the protocol.\<close>

definition no_disconnect :: http_step where
  "no_disconnect c = Some (Inr c)"

section \<open>The lists\<close>

definition http_request_sleep :: "nat \<Rightarrow> http_connection \<Rightarrow> http_connection" where
  "http_request_sleep r c =
     (if \<not> rq_sleeping (requests c r)
      then set_req r (rq_sleeping_update (\<lambda>_. True))
             (c\<lparr>http_requests := remove1 r (http_requests c), http_requests_sleeping := http_requests_sleeping c @ [r]\<rparr>)
      else c)"

definition http_request_wakeup :: "nat \<Rightarrow> http_connection \<Rightarrow> http_connection" where
  "http_request_wakeup r c =
     (if rq_sleeping (requests c r)
      then set_req r (rq_sleeping_update (\<lambda>_. False))
             (c\<lparr>http_requests_sleeping := remove1 r (http_requests_sleeping c), http_requests := http_requests c @ [r]\<rparr>)
      else c)"

section \<open>Headers of a request and of an answer\<close>

definition http_request_header :: "http_request \<Rightarrow> u8 list \<Rightarrow> u8 list option" where
  "http_request_header req header =
     (case find (\<lambda>(n, _). same_text n header) (req_headers req) of
        Some (_, v) \<Rightarrow> Some v
      | None \<Rightarrow> if same_text header (cstr ''host'') then Some (req_host req) else None)"

definition http_response_header :: "nat \<Rightarrow> u8 list \<Rightarrow> u8 list \<Rightarrow> http_connection \<Rightarrow> http_connection" where
  "http_response_header r header val = set_req r (\<lambda>req. req\<lparr>resp_headers := resp_headers req @ [(header, val)]\<rparr>)"

abbreviation (input) crlf :: "u8 list" where "crlf \<equiv> [13, 10]"

text \<open>A cookie of an answer, or nothing when its date cannot be written. \<open>ckhdr_buf\<close> is its text.\<close>

definition http_write_response_cookie :: "http_config \<Rightarrow> http_cookie \<Rightarrow> u8 list" where
  "http_write_response_cookie env ck =
     (let ckhdr_buf = ck_name ck @ cstr ''='' @ ck_value ck;
          ckhdr_buf = ckhdr_buf @ (case ck_path ck of None \<Rightarrow> [] | Some p \<Rightarrow> cstr ''; Path='' @ p);
          ckhdr_buf = ckhdr_buf @ (case ck_domain ck of None \<Rightarrow> [] | Some d \<Rightarrow> cstr ''; Domain='' @ d);
          rest = (\<lambda>ckhdr_buf.
            let ckhdr_buf = ckhdr_buf @ (if ck_maxage ck > 0 then cstr ''; Max-Age='' @ sprintf_d (ck_maxage ck) else []);
                ckhdr_buf = ckhdr_buf @ (if ck_httponly ck then cstr ''; HttpOnly'' else []);
                ckhdr_buf = ckhdr_buf @ (if ck_secure ck then cstr ''; Secure'' else []) in
            cstr ''set-cookie: '' @ ckhdr_buf @ crlf) in
      if ck_expires ck > 0
      then (case cookie_date env (ck_expires ck) of None \<Rightarrow> [] | Some d \<Rightarrow> rest (ckhdr_buf @ cstr ''; Expires='' @ d))
      else rest ckhdr_buf)"

text \<open>The first bytes of an object that are read; a shorter object is read past its end.\<close>

definition first_bytes :: "nat \<Rightarrow> u8 list \<Rightarrow> u8 list c_result" where
  "first_bytes n d = (if length d < n then Inl Out_Of_Bounds else Inr (take n d))"

lemma first_bytes_all [simp]: "first_bytes (length d) d = Inr d"
  by (simp add: first_bytes_def)

text \<open>
  \<open>http_response_normal\<close>: the request may be NULL. The buffer \<open>header_buf\<close>, emptied at the start, is the list of its
  bytes (\<open>Kore_Buf\<close> shows that it is one). The last step receives what the client has sent meanwhile, a parameter
  here; its result is ignored, and so is the loop when the connection is to be closed.
\<close>

definition http_response_normal ::
  "http_config \<Rightarrow> (http_connection \<Rightarrow> (bool \<times> http_connection) c_result option) \<Rightarrow> nat option \<Rightarrow> int \<Rightarrow> u8 list option \<Rightarrow> nat \<Rightarrow> http_step" where
  "http_response_normal env recv_flush r status d len c =
     (let req = map_option (requests c) r;
          v = (case req of None \<Rightarrow> 49 | Some q \<Rightarrow> if rq_v10 q then 48 else 49);
          header_buf = cstr ''HTTP/1.'' @ [v] @ cstr '' '' @ sprintf_d status @ cstr '' '' @ http_status_text (code env) status @ crlf;
          header_buf = header_buf @ http_version env;
          connection_close =
            (close_empty c \<or>
             (case req of None \<Rightarrow> False
              | Some q \<Rightarrow> (case http_request_header q (cstr ''connection'') of None \<Rightarrow> False | Some v \<Rightarrow> same_text v (cstr ''close''))));
          (header_buf, c) =
            (if req = None \<or> proto_http c then
               if http_keepalive_time env \<noteq> 0 \<and> \<not> connection_close
               then (header_buf @ cstr ''connection: keep-alive'' @ crlf @ cstr ''keep-alive: timeout='' @ sprintf_d (http_keepalive_time env) @ crlf, c)
               else (header_buf @ cstr ''connection: close'' @ crlf, c\<lparr>close_empty := True\<rparr>)
             else (header_buf, c));
          header_buf = header_buf @
            (if http_hsts_enable env \<noteq> 0
             then cstr ''strict-transport-security: '' @ cstr ''max-age='' @ sprintf_d (http_hsts_enable env) @ cstr ''; includeSubDomains'' @ crlf
             else []);
          content_len = cstr ''content-length: '' @ sprintf_d (int len) @ crlf;
          header_buf = header_buf @
            (case req of
               Some q \<Rightarrow>
                 if req_status q < code env ''HTTP_STATUS_INTERNAL_ERROR''
                 then concat (map (http_write_response_cookie env) (resp_cookies q)) @
                      concat (map (\<lambda>(n, v). n @ cstr '': '' @ v @ crlf) (resp_headers q)) @
                      (if status \<noteq> 204 \<and> status \<ge> 200 \<and> \<not> rq_no_content_length q then content_len else [])
                 else if status \<noteq> 204 \<and> status \<ge> 200 then content_len else []
             | None \<Rightarrow> if status \<noteq> 204 \<and> status \<ge> 200 then content_len else []);
          header_buf = header_buf @ crlf in
      co_bind (Some (net_send_queue (NETBUF_SEND_PAYLOAD_MAX env) header_buf c)) (\<lambda>c.
      co_bind (case (d, req) of
                 (Some d, Some q) \<Rightarrow>
                   if req_method q \<noteq> HEAD then Some (c_bind (first_bytes len d) (\<lambda>d. net_send_queue (NETBUF_SEND_PAYLOAD_MAX env) d c)) else Some (Inr c)
               | _ \<Rightarrow> Some (Inr c)) (\<lambda>c.
      co_bind (if \<not> close_empty c
               then co_bind (Some (net_recv_reset (NETBUF_SEND_PAYLOAD_MAX env) (http_header_max env) Header_Recv c)) (\<lambda>c.
                    co_bind (recv_flush c) (\<lambda>(_, c). Some (Inr c)))
               else Some (Inr c)) (\<lambda>c.
      Some (Inr (case r of None \<Rightarrow> c | Some r \<Rightarrow> set_req r (content_length_update (\<lambda>_. int len)) c))))))"

text \<open>The answer to a request that cannot be served closes the connection, so that nothing is received after it.\<close>

definition http_error_response :: "http_config \<Rightarrow> int \<Rightarrow> http_step" where
  "http_error_response env status c =
     (let c = c\<lparr>close_empty := True\<rparr> in
      if \<not> proto_http c then Some (Inl Fatal)
      else
        co_bind (http_response_normal env (\<lambda>c. Some (Inr (True, c))) None status None 0 c) (\<lambda>c.
        co_bind (net_send_flush (NETBUF_SEND_PAYLOAD_MAX env) no_disconnect c) (\<lambda>(ok, c).
        if \<not> ok then kore_connection_disconnect no_disconnect c else Some (Inr c))))"

section \<open>A new request\<close>

definition strchr_before :: "u8 list \<Rightarrow> u8 \<Rightarrow> u8 list" where
  "strchr_before s c = takeWhile (\<lambda>x. x \<noteq> c) s"

text \<open>What stands before the last occurrence of a character.\<close>

definition strrchr_before :: "u8 list \<Rightarrow> u8 \<Rightarrow> u8 list" where
  "strrchr_before s c = (case strrchr s c of None \<Rightarrow> s | Some p \<Rightarrow> take (length s - length p) s)"

text \<open>
  The host without its port: \<open>[...]:port\<close> on a connection of IPv6, and \<open>name:port\<close> on the others. \<open>None\<close> for a
  bracket that is not closed.
\<close>

definition host_name :: "bool \<Rightarrow> u8 list \<Rightarrow> u8 list option" where
  "host_name v6 host =
     (if v6 then
        (if host \<noteq> [] \<and> hd host = 0x5b then
           (case strrchr host 0x5d of
              None \<Rightarrow> None
            | Some p \<Rightarrow> Some (if tl p \<noteq> [] \<and> hd (tl p) = 0x3a then take (length host - length (tl p)) host else host))
         else Some host)
      else Some (strrchr_before host 0x3a))"

definition method_of :: "u8 list \<Rightarrow> http_method option" where
  "method_of m =
     (if same_text m (cstr ''get'') then Some GET
      else if same_text m (cstr ''delete'') then Some DELETE
      else if same_text m (cstr ''post'') then Some POST
      else if same_text m (cstr ''put'') then Some PUT
      else if same_text m (cstr ''head'') then Some HEAD
      else if same_text m (cstr ''options'') then Some OPTIONS
      else if same_text m (cstr ''patch'') then Some PATCH
      else None)"

text \<open>A method that carries a body is not complete with its header.\<close>

definition has_body :: "http_method \<Rightarrow> bool" where
  "has_body m \<longleftrightarrow> m = POST \<or> m = PUT \<or> m = PATCH"

text \<open>
  The request, put at the head of the list, or \<open>None\<close> when an answer has been given. The part of the path after the
  question mark is the query; a path that starts with it has none.
\<close>

definition http_request_new ::
  "http_config \<Rightarrow> u8 list \<Rightarrow> u8 list \<Rightarrow> u8 list \<Rightarrow> u8 list \<Rightarrow> http_connection \<Rightarrow> (nat option \<times> http_connection) c_result option" where
  "http_request_new env host method path version c =
     (let refuse = (\<lambda>status c. co_bind (http_error_response env status c) (\<lambda>c. Some (Inr (None, c)))) in
      if http_request_count c \<ge> http_request_limit env then refuse 503 c
      else if int (length host) \<ge> int (KORE_DOMAINNAME_LEN env) - 1 then refuse 400 c
      else if int (length path) \<ge> int (HTTP_URI_LEN env) - 1 then refuse 414 c
      else if \<not> same_text version (cstr ''http/1.1'') \<and> \<not> same_text version (cstr ''http/1.0'') then refuse 505 c
      else
        let v10 = (\<not> same_text version (cstr ''http/1.1''));
            c = (if v10 then c\<lparr>close_empty := True\<rparr> else c);
            bare = strchr_before path 0x3f;
            qsoff = (if 0x3f \<in> set path then length bare else 0) in
        case host_name (inet6 c) host of
          None \<Rightarrow> refuse 400 c
        | Some name \<Rightarrow>
            (case kore_module_handler_find env name bare of
               None \<Rightarrow> refuse 404 c
             | Some h \<Rightarrow>
                 (case method_of method of
                    None \<Rightarrow> refuse 400 c
                  | Some m \<Rightarrow>
                      if v10 \<and> m \<noteq> GET \<and> m \<noteq> POST \<and> m \<noteq> HEAD then refuse (code env ''HTTP_STATUS_METHOD_NOT_ALLOWED'') c
                      else if m \<notin> set (methods h) then refuse (code env ''HTTP_STATUS_METHOD_NOT_ALLOWED'') c
                      else
                        let r = next_request c;
                            req = (stale c)\<lparr>req_method := m, req_host := host, req_path := (if qsoff > 0 then bare else path),
                              query_string := (if qsoff > 0 then Some (drop (qsoff + 1) path) else None),
                              req_agent := None, req_referer := None, hdlr := h, has_owner := True,
                              rq_v10 := v10, rq_complete := \<not> has_body m, rq_expect_body := has_body m, rq_delete := False, rq_sleeping := False,
                              rq_no_content_length := False, req_status := 0, req_headers := [], resp_headers := [], req_cookies := [],
                              resp_cookies := [], arguments := [], files := [], http_body_length := 0, http_body_offset := 0, http_body := None,
                              http_body_fd := None, http_body_path := None, fsm_state := 0\<rparr> in
                        Some (Inr (Some r, c\<lparr>requests := (requests c)(r := req), next_request := r + 1,
                          http_request_count := http_request_count c + 1, http_requests := r # http_requests c,
                          conn_requests := conn_requests c @ [r]\<rparr>)))))"

section \<open>The header of a request\<close>

text \<open>
  What \<open>kore_split_string\<close> leaves of the string it cuts: a NUL in the place of every delimiter it has seen.
\<close>

function split_mem :: "u8 list option \<Rightarrow> u8 list \<Rightarrow> nat \<Rightarrow> u8 list" where
  "split_mem None delim n = []"
| "split_mem (Some input) delim 0 = input"
| "split_mem (Some input) delim (Suc n) =
     (let (ap, input') = strsep input delim in
      ap @ (case input' of None \<Rightarrow> [] | Some r \<Rightarrow> 0 # split_mem (Some r) delim (if ap \<noteq> [] then n else Suc n)))"
  by pat_completeness auto
termination
proof (relation "measure (\<lambda>(i, _, _). case i of None \<Rightarrow> 0 | Some s \<Rightarrow> Suc (length s))")
qed (auto split: option.split dest: strsep_shorter [OF sym])

text \<open>The first line that starts like \<open>host\<close>, whatever follows in its name.\<close>

fun host_line :: "u8 list list \<Rightarrow> nat \<Rightarrow> (nat \<times> u8 list) option" where
  "host_line [] i = None"
| "host_line (h # hs) i = (if same_start 4 h (cstr ''host'') then Some (i, h) else host_line hs (i + 1))"

text \<open>The other lines are added to the request in order; the answer says whether all are good.\<close>

fun add_headers :: "nat \<Rightarrow> u8 list list \<Rightarrow> nat \<Rightarrow> http_request \<Rightarrow> (bool \<times> http_request) c_result" where
  "add_headers skip [] i req = Inr (True, req)"
| "add_headers skip (h # hs) i req =
     (if i = skip then add_headers skip hs (i + 1) req
      else
        c_bind (http_validate_header h) (\<lambda>r.
        case r of
          None \<Rightarrow> Inr (False, req\<lparr>rq_delete := True\<rparr>)
        | Some (name, val) \<Rightarrow>
            if val = [] then Inr (False, req\<lparr>rq_delete := True\<rparr>)
            else
              let req = req\<lparr>req_headers := req_headers req @ [(name, val)]\<rparr>;
                  req = (if req_agent req = None \<and> same_text name (cstr ''user-agent'') then req\<lparr>req_agent := Some val\<rparr> else req);
                  req = (if req_referer req = None \<and> same_text name (cstr ''referer'') then req\<lparr>req_referer := Some val\<rparr> else req) in
              add_headers skip hs (i + 1) req))"

text \<open>A body starts to be read again; \<open>lseek\<close> to the start of the file does not fail.\<close>

definition http_body_rewind :: "http_request \<Rightarrow> http_request" where
  "http_body_rewind req =
     (let req = (case http_body_fd req of
                   Some (f, _) \<Rightarrow> req\<lparr>http_body_fd := Some (f, 0)\<rparr>
                 | None \<Rightarrow> (case http_body req of None \<Rightarrow> req | Some b \<Rightarrow> req\<lparr>http_body := Some (kore_buf_reset b)\<rparr>)) in
      req\<lparr>http_body_offset := 0, http_body_length := content_length req\<rparr>)"

text \<open>
  Where the body goes: to a file when it is long, to a buffer otherwise. \<open>start\<close> is the part of it that came with the
  header. The answer is the result of the callback when an answer has been given to the client.
\<close>

definition store_body :: "http_config \<Rightarrow> nat \<Rightarrow> u8 list \<Rightarrow> http_connection \<Rightarrow> (bool option \<times> http_connection) c_result option" where
  "store_body env r start c =
     (let n = content_length (requests c r);
          refuse = (\<lambda>ret c. co_bind (http_error_response env 500 (set_req r (rq_delete_update (\<lambda>_. True)) c)) (\<lambda>c. Some (Inr (Some ret, c)))) in
      if http_body_disk_offload env > 0 \<and> n > http_body_disk_offload env then
        let template = http_body_disk_path env @ cstr ''/http_body.XXXXXX'' in
        if length template \<ge> HTTP_BODY_PATH_MAX env
        then refuse False (set_req r (http_body_path_update (\<lambda>_. Some (take (HTTP_BODY_PATH_MAX env - 1) template))) c)
        else
          case mkstemp env template of
            None \<Rightarrow> refuse True (set_req r (\<lambda>q. q\<lparr>http_body_path := Some template, http_body := None, http_body_fd := None\<rparr>) c)
          | Some path \<Rightarrow>
              let c = set_req r (\<lambda>q. q\<lparr>http_body_path := Some path, http_body := None, http_body_fd := Some ([], 0)\<rparr>) c in
              if \<not> write_ok env start then refuse True c
              else Some (Inr (None, set_req r (http_body_fd_update (\<lambda>_. Some (start, length start))) c))
      else
        co_bind (Some (kore_buf_append start (kore_buf_alloc n))) (\<lambda>b.
        Some (Inr (None, set_req r (\<lambda>q. q\<lparr>http_body_fd := None, http_body := Some b\<rparr>) c))))"

text \<open>The part of \<open>http_header_recv\<close> for a request with a body.\<close>

definition expect_body :: "http_config \<Rightarrow> nat \<Rightarrow> u8 list \<Rightarrow> http_connection \<Rightarrow> (bool \<times> http_connection) c_result option" where
  "expect_body env r start c =
     (let refuse = (\<lambda>status c. co_bind (http_error_response env status (set_req r (rq_delete_update (\<lambda>_. True)) c)) (\<lambda>c. Some (Inr (True, c)))) in
      if http_body_max env = 0 then refuse 405 c
      else
        case http_request_header (requests c r) (cstr ''content-length'') of
          None \<Rightarrow> refuse 411 c
        | Some clp \<Rightarrow>
            (case kore_strtonum clp 10 0 LLONG_MAX of
               None \<Rightarrow> refuse 411 (set_req r (content_length_update (\<lambda>_. 0)) c)
             | Some n \<Rightarrow>
                 let c = set_req r (content_length_update (\<lambda>_. n)) c in
                 if n = 0 then Some (Inr (True, set_req r (\<lambda>q. q\<lparr>rq_complete := True, rq_expect_body := False\<rparr>) c))
                 else if n > http_body_max env then refuse 413 c
                 else
                   co_bind (store_body env r start (set_req r (http_body_length_update (\<lambda>_. n)) c)) (\<lambda>(ret, c).
                   case ret of
                     Some ret \<Rightarrow> Some (Inr (ret, c))
                   | None \<Rightarrow>
                       let c = set_req r (hashed_update (\<lambda>_. start)) c;
                           bytes_left = (n - int (length start)) mod 2 ^ 64 in
                       if bytes_left > 0 then
                         co_bind (Some (net_recv_reset (NETBUF_SEND_PAYLOAD_MAX env) (nat (min bytes_left (int (NETBUF_SEND_PAYLOAD_MAX env)))) Body_Recv c)) (\<lambda>c.
                         Some (Inr (True, set_req r (content_length_update (\<lambda>_. bytes_left)) (http_request_sleep r (c\<lparr>rnb_extra := Some r\<rparr>)))))
                       else
                         Some (Inr (True, set_req r (\<lambda>q. http_body_rewind (q\<lparr>rq_complete := True, rq_expect_body := False,
                           http_body_digest := sha256 env (hashed q)\<rparr>)) c)))))"

text \<open>The buffer of the connection and the bytes received in it.\<close>

definition recv_bytes :: "http_connection \<Rightarrow> (http_cb netbuf \<times> cells \<times> u8 list) c_result" where
  "recv_bytes c =
     (case rnb c of
        None \<Rightarrow> Inl Out_Of_Bounds
      | Some nb \<Rightarrow>
          (case nb_buf nb of
             None \<Rightarrow> Inl Out_Of_Bounds
           | Some buf \<Rightarrow>
               if length buf < s_off nb then Inl Out_Of_Bounds
               else if None \<in> set (take (s_off nb) buf) then Inl Uninitialised
               else Inr (nb, buf, map the (take (s_off nb) buf))))"

text \<open>Where the header ends, and how many bytes its end takes.\<close>

definition header_end :: "u8 list \<Rightarrow> (nat \<times> nat) option c_result" where
  "header_end bs =
     c_bind (kore_mem_find (map Some bs) [13, 10, 13, 10] 4) (\<lambda>r.
     case r of
       Some e \<Rightarrow> Inr (Some (nat e, 4))
     | None \<Rightarrow> c_bind (kore_mem_find (map Some bs) [10, 10] 2) (\<lambda>r. Inr (map_option (\<lambda>e. (nat e, 2)) r)))"

text \<open>
  The header is a string in the buffer, which ends at its first NUL; its lines are cut in place, and the first of them
  into its words. The NULs written between the words and after the names are not in the model of the buffer: it is
  searched again only for an empty line, when the answer is that the request is refused. A request takes the
  buffer over.
\<close>

definition http_header_recv :: "http_config \<Rightarrow> http_connection \<Rightarrow> (bool \<times> http_connection) c_result option" where
  "http_header_recv env c =
     co_bind (Some (recv_bytes c)) (\<lambda>(nb, buf, bs).
     if b_len nb < 4 then Some (Inr (True, c))
     else
       co_bind (Some (header_end bs)) (\<lambda>r.
       case r of
         None \<Rightarrow> Some (Inr (True, c))
       | Some (e, skip) \<Rightarrow>
           let len = e + skip;
               hbuf = takeWhile (\<lambda>x. x \<noteq> 0) (take e bs);
               left = split_mem (Some hbuf) crlf (HTTP_REQ_HEADER_MAX env - 1) @ drop (length hbuf) (bs[e := 0]);
               c = c\<lparr>rnb := Some (nb\<lparr>nb_buf := Some (map Some left @ drop (s_off nb) buf)\<rparr>)\<rparr>;
               refuse = (\<lambda>status c. co_bind (http_error_response env status c) (\<lambda>c. Some (Inr (True, c))));
               headers = kore_split_string hbuf crlf (HTTP_REQ_HEADER_MAX env) in
           if length headers < 2 then refuse 400 c
           else
             let request = kore_split_string (hd headers) [32] 4 in
             if length request \<noteq> 3 then refuse 400 c
             else
               let lines = strchr_before (hd headers) 32 # tl headers in
               case host_line lines 0 of
                 None \<Rightarrow> refuse 400 c
               | Some (skip, line) \<Rightarrow>
                   co_bind (Some (http_validate_header line)) (\<lambda>v.
                   case v of
                     None \<Rightarrow> refuse 400 c
                   | Some (_, host) \<Rightarrow>
                       if host = [] then refuse 400 c
                       else
                         co_bind (http_request_new env host (request ! 0) (request ! 1) (request ! 2) c) (\<lambda>(r, c).
                         case r of
                           None \<Rightarrow> Some (Inr (True, c))
                         | Some r \<Rightarrow>
                             let c = c\<lparr>rnb := map_option (\<lambda>nb. nb\<lparr>nb_buf := None, m_len := 0\<rparr>) (rnb c)\<rparr> in
                             co_bind (Some (add_headers skip (tl lines) 1 (requests c r))) (\<lambda>(ok, req).
                             let c = set_req r (\<lambda>_. req) c in
                             if \<not> ok then refuse 400 c
                             else if rq_expect_body req then expect_body env r (drop len bs) c
                             else Some (Inr (True, c)))))))"

section \<open>The body of a request\<close>

text \<open>What follows when \<open>n\<close> more bytes of the body are stored.\<close>

definition body_stored :: "http_config \<Rightarrow> nat \<Rightarrow> nat \<Rightarrow> http_connection \<Rightarrow> (bool \<times> http_connection) c_result option" where
  "body_stored env r n c =
     (let left = (content_length (requests c r) - int n) mod 2 ^ 64;
          c = set_req r (content_length_update (\<lambda>_. left)) c in
      if left = 0 then
        let c = http_request_wakeup r (c\<lparr>rnb_extra := None\<rparr>);
            c = set_req r (\<lambda>q. q\<lparr>rq_complete := True, rq_expect_body := False, content_length := http_body_length q\<rparr>) c;
            c = set_req r (\<lambda>q. (http_body_rewind q)\<lparr>http_body_digest := sha256 env (hashed q)\<rparr>) c in
        co_bind (Some (net_recv_reset (NETBUF_SEND_PAYLOAD_MAX env) (http_header_max env) Header_Recv c)) (\<lambda>c. Some (Inr (True, c)))
      else
        co_bind (Some (net_recv_reset (NETBUF_SEND_PAYLOAD_MAX env) (nat (min left (int (NETBUF_SEND_PAYLOAD_MAX env)))) Body_Recv c)) (\<lambda>c.
        Some (Inr (True, c))))"

definition http_body_recv :: "http_config \<Rightarrow> http_connection \<Rightarrow> (bool \<times> http_connection) c_result option" where
  "http_body_recv env c =
     co_bind (Some (recv_bytes c)) (\<lambda>(nb, buf, bs).
     case rnb_extra c of
       None \<Rightarrow> Some (Inl Out_Of_Bounds)
     | Some r \<Rightarrow>
         let refuse = (\<lambda>c. co_bind (http_error_response env 500 (set_req r (rq_delete_update (\<lambda>_. True)) c)) (\<lambda>c. Some (Inr (False, c))));
             c = set_req r (\<lambda>q. q\<lparr>hashed := hashed q @ bs\<rparr>) c in
         case (http_body_fd (requests c r), http_body (requests c r)) of
           (Some (f, pos), _) \<Rightarrow>
             if write_ok env bs then body_stored env r (s_off nb) (set_req r (http_body_fd_update (\<lambda>_. Some (take pos f @ bs @ drop (pos + length bs) f, pos + length bs))) c)
             else refuse c
         | (None, Some b) \<Rightarrow>
             co_bind (Some (kore_buf_append bs b)) (\<lambda>b. body_stored env r (s_off nb) (set_req r (http_body_update (\<lambda>_. Some b)) c))
         | (None, None) \<Rightarrow> refuse c)"

definition http_run_cb :: "http_config \<Rightarrow> http_cb \<Rightarrow> http_connection \<Rightarrow> (bool \<times> http_connection) c_result option" where
  "http_run_cb env cb c =
     (case cb of
        Header_Recv \<Rightarrow> http_header_recv env c
      | Body_Recv \<Rightarrow> http_body_recv env c
      | Stream_Sent _ \<Rightarrow> Some (Inr (True, c)))"

definition http_recv :: "http_config \<Rightarrow> http_connection \<Rightarrow> (bool \<times> http_connection) c_result option" where
  "http_recv env = net_recv_flush (http_run_cb env) no_disconnect"

section \<open>Answers\<close>

text \<open>A request whose connection is gone has no owner, and is not answered.\<close>

definition http_response :: "http_config \<Rightarrow> nat \<Rightarrow> int \<Rightarrow> u8 list option \<Rightarrow> nat \<Rightarrow> http_step" where
  "http_response env r status d len c =
     (if \<not> has_owner (requests c r) then Some (Inr c)
      else http_response_normal env (http_recv env) (Some r) status d len (set_req r (req_status_update (\<lambda>_. status)) c))"

definition http_response_stream :: "http_config \<Rightarrow> nat \<Rightarrow> int \<Rightarrow> cells \<Rightarrow> nat \<Rightarrow> nat \<Rightarrow> http_step" where
  "http_response_stream env r status base len arg c =
     (if \<not> has_owner (requests c r) then Some (Inr c)
      else let c = set_req r (req_status_update (\<lambda>_. status)) c in
      if \<not> proto_http c then Some (Inl Fatal)
      else
        co_bind (http_response_normal env (http_recv env) (Some r) status None len c) (\<lambda>c.
        Some (Inr (if req_method (requests c r) \<noteq> HEAD then net_send_stream (Some base) len (Some (Stream_Sent arg)) c else c))))"

definition http_serveable :: "http_config \<Rightarrow> nat \<Rightarrow> u8 list option \<Rightarrow> nat \<Rightarrow> u8 list \<Rightarrow> u8 list \<Rightarrow> http_step" where
  "http_serveable env r d len etag ty c =
     (if req_method (requests c r) \<noteq> GET
      then http_response env r (code env ''HTTP_STATUS_BAD_REQUEST'') None 0 (http_response_header r (cstr ''allow'') (cstr ''get'') c)
      else if http_request_header (requests c r) (cstr ''if-none-match'') = Some etag
      then http_response env r (code env ''HTTP_STATUS_NOT_MODIFIED'') None 0 c
      else http_response env r (code env ''HTTP_STATUS_OK'') d len
             (http_response_header r (cstr ''content-type'') ty (http_response_header r (cstr ''etag'') etag c)))"

end
