(* ===== verification/Kore_Http_Recv.thy ===== *)
theory Kore_Http_Recv
  imports Kore_Http
begin

text \<open>
  What a client sends and what the callbacks of \<open>Kore_Http\<close> make of it, however it is cut into reads: the lines of a
  header, the words of the first one, the headers, and the body.
\<close>

section \<open>The end of a header\<close>

lemma first_occ_le: "prefix s (drop j t) \<Longrightarrow> s \<noteq> [] \<Longrightarrow> \<exists>k \<le> j. first_occ s t = Some k"
proof (induction t arbitrary: j)
  case (Cons c t)
  show ?case
  proof (cases "prefix s (c # t)")
    case False
    then obtain i where "j = Suc i" using Cons.prems by (cases j) auto
    then show ?thesis using Cons False by fastforce
  qed simp
qed auto

lemma first_occ_take:
  assumes "s \<noteq> []" "first_occ s t = None \<or> (\<exists>e. first_occ s t = Some e \<and> k < e + length s)"
  shows "first_occ s (take k t) = None"
proof (rule ccontr)
  assume "first_occ s (take k t) \<noteq> None"
  then obtain j where j: "first_occ s (take k t) = Some j" by auto
  then have p: "prefix s (drop j (take k t))" "j + length s \<le> k" using first_occ_Some [OF j] by auto
  moreover have "prefix (drop j (take k t)) (drop j t)" by (simp add: drop_take Sublist.take_is_prefix)
  ultimately have "prefix s (drop j t)" using prefix_order.trans by blast
  then show False using first_occ_le [OF _ assms(1), of j t] p(2) assms(2) by fastforce
qed

definition clean :: "u8 list \<Rightarrow> bool" where
  "clean l \<longleftrightarrow> l \<noteq> [] \<and> 0 \<notin> set l \<and> 10 \<notin> set l \<and> 13 \<notin> set l"

definition lines_text :: "u8 list list \<Rightarrow> u8 list" where
  "lines_text ls = concat (map (\<lambda>l. l @ crlf) ls)"

lemma lines_text_simps [simp]: "lines_text [] = []" "lines_text (l # ls) = l @ 13 # 10 # lines_text ls"
  by (simp_all add: lines_text_def)

lemma first_occ_skip: "n0 \<notin> set l \<Longrightarrow> first_occ (n0 # s) (l @ t) = map_option (\<lambda>k. length l + k) (first_occ (n0 # s) t)"
  by (induction l; cases "first_occ (n0 # s) t") auto

lemma header_end_lines:
  assumes "ls \<noteq> []" "\<forall>l \<in> set ls. clean l"
  shows "first_occ [13, 10, 13, 10] (lines_text ls @ 13 # 10 # t) = Some (length (lines_text ls) - 2)"
  using assms
proof (induction ls)
  case (Cons l ls)
  have l: "13 \<notin> set l" using Cons.prems by (simp add: clean_def)
  show ?case
  proof (cases ls)
    case Nil
    then show ?thesis using first_occ_skip [OF l, of "[10, 13, 10]" "13 # 10 # 13 # 10 # t"] by simp
  next
    case (Cons m ms)
    then obtain c m' where m: "m = c # m'" "c \<noteq> 13" using Cons.prems by (cases m) (auto simp: clean_def)
    have "2 \<le> length (lines_text ls)" using Cons by simp
    moreover have "first_occ [13, 10, 13, 10] (lines_text ls @ 13 # 10 # t) = Some (length (lines_text ls) - 2)"
      using Cons.IH Cons.prems Cons by simp
    moreover have "lines_text ls @ 13 # 10 # t = c # m' @ 13 # 10 # lines_text ms @ 13 # 10 # t" using Cons m by simp
    ultimately have "first_occ [13, 10, 13, 10] (13 # 10 # lines_text ls @ 13 # 10 # t) = Some (length (lines_text ls))" using m(2) by simp
    then show ?thesis using first_occ_skip [OF l, of "[10, 13, 10]" "13 # 10 # lines_text ls @ 13 # 10 # t"] by simp
  qed
qed simp

lemma no_empty_lf_line:
  assumes "\<forall>l \<in> set ls. clean l" "first_occ [10, 10] t = None" "t = [] \<or> hd t \<noteq> 10"
  shows "first_occ [10, 10] (lines_text ls @ t) = None \<and> (lines_text ls @ t = [] \<or> hd (lines_text ls @ t) \<noteq> 10)"
  using assms
proof (induction ls)
  case (Cons l ls)
  have l: "10 \<notin> set l" "l \<noteq> []" using Cons.prems by (simp_all add: clean_def)
  have "first_occ [10, 10] (13 # 10 # lines_text ls @ t) = None" using Cons by (cases "lines_text ls @ t") auto
  then show ?case using first_occ_skip [OF l(1), of "[10]" "13 # 10 # lines_text ls @ t"] l by (cases l) auto
qed simp

text \<open>The end is found when the whole header is there, and not before.\<close>

lemma mem_find_first: "s \<noteq> [] \<Longrightarrow> kore_mem_find (map Some t) s (int (length s)) = Inr (map_option int (first_occ s t))"
  using mem_find_loop_first [of s t "[]" 0] by (simp add: kore_mem_find_def)

lemma header_end_eq:
  "header_end bs = Inr (case first_occ [13, 10, 13, 10] bs of Some e \<Rightarrow> Some (e, 4)
     | None \<Rightarrow> map_option (\<lambda>e. (e, 2)) (first_occ [10, 10] bs))"
  using mem_find_first [of "[13, 10, 13, 10]" bs] mem_find_first [of "[10, 10]" bs]
  by (auto simp: header_end_def option.map_comp comp_def split: option.split)

lemma header_end_whole:
  assumes "ls \<noteq> []" "\<forall>l \<in> set ls. clean l"
  shows "header_end (lines_text ls @ 13 # 10 # t) = Inr (Some (length (lines_text ls) - 2, 4))"
  by (simp add: header_end_eq header_end_lines [OF assms])

lemma header_end_part:
  assumes "ls \<noteq> []" "\<forall>l \<in> set ls. clean l" "k < length (lines_text ls) + 2"
  shows "header_end (take k (lines_text ls @ 13 # 10 # t)) = Inr None"
proof -
  let ?t = "lines_text ls @ [13, 10]"
  have "2 \<le> length (lines_text ls)" using assms(1) by (cases ls) simp_all
  then have "first_occ [13, 10, 13, 10] (take k (lines_text ls @ 13 # 10 # t)) = None"
    using header_end_lines [OF assms(1,2), of t] assms(3) by (intro first_occ_take) auto
  moreover have "first_occ [10, 10] ?t = None" using no_empty_lf_line [OF assms(2), of "[13, 10]"] by simp
  then have "first_occ [10, 10] (take k ?t) = None" by (intro first_occ_take) simp_all
  moreover have "lines_text ls @ 13 # 10 # t = ?t @ t" "k - length ?t = 0" using assms(3) by simp_all
  then have "take k (lines_text ls @ 13 # 10 # t) = take k ?t" by (simp only: take_append take_0 append_Nil2)
  ultimately show ?thesis by (simp add: header_end_eq)
qed

section \<open>The lines and the words\<close>

lemma strsep_clean: "13 \<notin> set l \<Longrightarrow> 10 \<notin> set l \<Longrightarrow> strsep l crlf = (l, None)" "13 \<notin> set l \<Longrightarrow> 10 \<notin> set l \<Longrightarrow> strsep (l @ 13 # r) crlf = (l, Some r)"
proof -
  assume l: "13 \<notin> set l" "10 \<notin> set l"
  have "takeWhile (\<lambda>c. c \<notin> set crlf) l = l" "dropWhile (\<lambda>c. c \<notin> set crlf) l = []" using l by (auto simp: takeWhile_eq_all_conv)
  then show "strsep l crlf = (l, None)" unfolding strsep_def by (simp only: list.case)
  have "takeWhile (\<lambda>c. c \<notin> set crlf) (l @ 13 # r) = l" "dropWhile (\<lambda>c. c \<notin> set crlf) (l @ 13 # r) = 13 # r"
    using l by (induction l) auto
  then show "strsep (l @ 13 # r) crlf = (l, Some r)" unfolding strsep_def by (simp only: list.case)
qed

lemma split_lines:
  assumes "ls \<noteq> []" "\<forall>l \<in> set ls. clean l" "length ls \<le> n"
  shows "split_loop (Some (take (length (lines_text ls) - 2) (lines_text ls))) crlf n = ls"
  using assms
proof (induction ls arbitrary: n)
  case (Cons l ls)
  obtain n' where n: "n = Suc n'" using Cons.prems(3) by (cases n) auto
  have l: "l \<noteq> []" "13 \<notin> set l" "10 \<notin> set l" using Cons.prems by (simp_all add: clean_def)
  show ?case
  proof (cases ls)
    case Nil
    then show ?thesis using l by (simp add: n strsep_clean)
  next
    case (Cons m ms)
    let ?r = "take (length (lines_text ls) - 2) (lines_text ls)"
    have "split_loop (Some ?r) crlf n' = ls" using Cons.IH [of n'] Cons.prems Cons n by simp
    moreover have "strsep (10 # ?r) crlf = ([], Some ?r)" by (simp add: strsep_def)
    ultimately have "split_loop (Some (10 # ?r)) crlf n' = ls" using Cons by (cases n') simp_all
    moreover have "take (length (lines_text (l # ls)) - 2) (lines_text (l # ls)) = l @ 13 # 10 # ?r"
      using Cons by (simp add: take_Cons' Suc_diff_le)
    ultimately show ?thesis using l strsep_clean(2) [OF l(2,3), of "10 # ?r"] by (simp add: n)
  qed
qed simp

text \<open>The words of the first line.\<close>

definition word_text :: "u8 list \<Rightarrow> bool" where
  "word_text w \<longleftrightarrow> clean w \<and> 32 \<notin> set w"

lemma split_words:
  assumes "word_text a" "word_text b" "word_text c"
  shows "kore_split_string (a @ 32 # b @ 32 # c) [32] 4 = [a, b, c]"
  using split_string_joined [of "[a, b, c]" 32 4] assms by (simp add: word_text_def clean_def)

section \<open>What a client sends\<close>

record client_request =
  cr_method :: "u8 list"
  cr_path :: "u8 list"
  cr_query :: "u8 list option"
  cr_version :: "u8 list"
  cr_host :: "u8 list"
  cr_headers :: "(u8 list \<times> u8 list) list"
  cr_body :: "u8 list"

definition cr_target :: "client_request \<Rightarrow> u8 list" where
  "cr_target cr = cr_path cr @ (case cr_query cr of None \<Rightarrow> [] | Some q \<Rightarrow> 0x3f # q)"

definition header_line :: "u8 list \<times> u8 list \<Rightarrow> u8 list" where
  "header_line h = fst h @ cstr '': '' @ snd h"

definition request_lines :: "client_request \<Rightarrow> u8 list list" where
  "request_lines cr =
     (cr_method cr @ 32 # cr_target cr @ 32 # cr_version cr) # map header_line ((cstr ''Host'', cr_host cr) # cr_headers cr)"

definition request_text :: "client_request \<Rightarrow> u8 list" where
  "request_text cr = lines_text (request_lines cr) @ crlf"

definition header_ok :: "u8 list \<times> u8 list \<Rightarrow> bool" where
  "header_ok h \<longleftrightarrow> list_all token_char (fst h) \<and> snd h \<noteq> [] \<and> \<not> is_white (hd (snd h)) \<and> list_all field_char (snd h)"

lemma validate_line:
  assumes "header_ok h"
  shows "http_validate_header (header_line h) = Inr (Some h)"
proof -
  obtain n v where h: "h = (n, v)" by (cases h)
  have o: "list_all token_char n" "v \<noteq> []" "\<not> is_white (hd v)" "list_all field_char v" using assms h by (simp_all add: header_ok_def)
  have "127 \<notin> set v" using o(4) by (auto simp: list_all_iff field_char_def)
  then have f: "field_content v = Inr True" using o(4) by (simp add: field_content_eq)
  have "header_name (n @ 0x3a # 32 # v) = Inr (Some (n, 32 # v))" using header_name_tokens [OF o(1)] by simp
  moreover have "dropWhile is_white (32 # v) = v" using o(2,3) by (cases v) (auto simp: is_white_def)
  moreover have "\<exists>x \<in> set v. \<not> is_white x" using o(2,3) hd_in_set by blast
  ultimately show ?thesis using o(2) f by (simp add: http_validate_header_def header_line_def h Let_def)
qed

lemma printable_clean:
  assumes "header_ok h"
  shows "clean (header_line h)"
proof -
  have t: "token_char c \<Longrightarrow> c \<noteq> 0 \<and> c \<noteq> 10 \<and> c \<noteq> 13" "field_char c \<Longrightarrow> c \<noteq> 0 \<and> c \<noteq> 10 \<and> c \<noteq> 13" for c
    by (auto simp: token_char_def field_char_def)
  have "\<forall>c \<in> set (fst h). c \<noteq> 0 \<and> c \<noteq> 10 \<and> c \<noteq> 13" "\<forall>c \<in> set (snd h). c \<noteq> 0 \<and> c \<noteq> 10 \<and> c \<noteq> 13"
    using assms t by (auto simp: header_ok_def list_all_iff)
  then show ?thesis by (auto simp: clean_def header_line_def)
qed

lemma add_headers_ok:
  assumes "\<forall>h \<in> set hs. header_ok h" "skip < i"
  shows "\<exists>ag rf. add_headers skip (map header_line hs) i req =
    Inr (True, req\<lparr>req_headers := req_headers req @ hs, req_agent := ag, req_referer := rf\<rparr>)"
  using assms
proof (induction hs arbitrary: i req)
  case Nil
  show ?case by (rule exI [of _ "req_agent req"], rule exI [of _ "req_referer req"]) simp
next
  case (Cons h hs)
  obtain n v where h: "h = (n, v)" by (cases h)
  have v: "http_validate_header (header_line h) = Inr (Some (n, v))" "v \<noteq> []" using Cons.prems validate_line h by (auto simp: header_ok_def)
  have s: "(i = skip) = False" using Cons.prems(2) by simp
  define q0 where "q0 = req\<lparr>req_headers := req_headers req @ [(n, v)]\<rparr>"
  define q1 where "q1 = (if req_agent q0 = None \<and> same_text n (cstr ''user-agent'') then q0\<lparr>req_agent := Some v\<rparr> else q0)"
  define q2 where "q2 = (if req_referer q1 = None \<and> same_text n (cstr ''referer'') then q1\<lparr>req_referer := Some v\<rparr> else q1)"
  have "add_headers skip (map header_line (h # hs)) i req = add_headers skip (map header_line hs) (i + 1) q2"
    unfolding list.map add_headers.simps v(1) Let_def q2_def q1_def q0_def
    by (simp only: c_bind_simps option.case prod.case if_False s v(2))
  moreover obtain ag rf where "add_headers skip (map header_line hs) (i + 1) q2 =
      Inr (True, q2\<lparr>req_headers := req_headers q2 @ hs, req_agent := ag, req_referer := rf\<rparr>)"
    using Cons.IH [of "i + 1" q2] Cons.prems by auto
  moreover have "q2\<lparr>req_headers := req_headers q2 @ hs, req_agent := ag, req_referer := rf\<rparr> =
      req\<lparr>req_headers := req_headers req @ (h # hs), req_agent := ag, req_referer := rf\<rparr>"
    by (simp add: q2_def q1_def q0_def h)
  ultimately show ?case by (intro exI [of _ ag] exI [of _ rf]) simp
qed

text \<open>What the server is asked to be able to serve: the handler, the limits, and files that can be written.\<close>

definition stores_bodies :: "http_config \<Rightarrow> bool" where
  "stores_bodies env \<longleftrightarrow>
     (\<forall>bs. write_ok env bs) \<and>
     (http_body_disk_offload env \<le> 0 \<or>
      length (http_body_disk_path env @ cstr ''/http_body.XXXXXX'') < HTTP_BODY_PATH_MAX env \<and>
      mkstemp env (http_body_disk_path env @ cstr ''/http_body.XXXXXX'') \<noteq> None)"

definition served_by :: "http_config \<Rightarrow> bool \<Rightarrow> client_request \<Rightarrow> http_method \<Rightarrow> http_handler \<Rightarrow> bool" where
  "served_by env v6 cr m h \<longleftrightarrow>
     method_of (cr_method cr) = Some m \<and> m \<in> set (methods h) \<and>
     (\<exists>name. host_name v6 (cr_host cr) = Some name \<and> kore_module_handler_find env name (cr_path cr) = Some h)"

definition body_announced :: "http_config \<Rightarrow> client_request \<Rightarrow> http_method \<Rightarrow> bool" where
  "body_announced env cr m \<longleftrightarrow>
     (if has_body m
      then (\<exists>n v. find (\<lambda>(n, _). same_text n (cstr ''content-length'')) (cr_headers cr) = Some (n, v) \<and>
              kore_strtonum v 10 0 LLONG_MAX = Some (int (length (cr_body cr)))) \<and>
           0 < http_body_max env \<and> int (length (cr_body cr)) \<le> http_body_max env \<and> length (cr_body cr) < BUF_MAX
      else cr_body cr = [])"

definition sendable :: "http_config \<Rightarrow> client_request \<Rightarrow> bool" where
  "sendable env cr \<longleftrightarrow>
     word_text (cr_method cr) \<and> word_text (cr_path cr) \<and> 0x3f \<notin> set (cr_path cr) \<and> word_text (cr_target cr) \<and>
     same_text (cr_version cr) (cstr ''http/1.1'') \<and>
     header_ok (cstr ''Host'', cr_host cr) \<and> (\<forall>h \<in> set (cr_headers cr). header_ok h) \<and>
     length (cr_headers cr) + 2 < HTTP_REQ_HEADER_MAX env \<and>
     int (length (cr_host cr)) < int (KORE_DOMAINNAME_LEN env) - 1 \<and> int (length (cr_target cr)) < int (HTTP_URI_LEN env) - 1 \<and>
     length (request_text cr) \<le> http_header_max env"

lemma version_word:
  assumes "same_text v (cstr ''http/1.1'')"
  shows "word_text v"
proof -
  have e: "map tolower v = [104, 116, 116, 112, 47, 49, 46, 49]" using assms by (simp add: same_text_def tolower_def)
  have "c \<notin> set v" if "c \<in> {0, 10, 13, 32}" for c
  proof
    assume "c \<in> set v"
    then have "tolower c \<in> set (map tolower v)" by simp
    moreover have "tolower c = c" using that by (auto simp: tolower_def)
    ultimately show False using that unfolding e by auto
  qed
  then show ?thesis using e by (auto simp: word_text_def clean_def)
qed

lemma request_lines_clean:
  assumes "sendable env cr"
  shows "\<forall>l \<in> set (request_lines cr). clean l"
proof -
  have w: "word_text (cr_method cr)" "word_text (cr_target cr)" "word_text (cr_version cr)"
    using assms version_word by (simp_all add: sendable_def)
  have "clean (cr_method cr @ 32 # cr_target cr @ 32 # cr_version cr)" using w by (auto simp: word_text_def clean_def)
  moreover have "\<forall>h \<in> set ((cstr ''Host'', cr_host cr) # cr_headers cr). clean (header_line h)"
    using assms printable_clean by (simp add: sendable_def del: cstr_simps)
  ultimately show ?thesis by (simp add: request_lines_def del: cstr_simps)
qed

lemma request_text_parts:
  assumes "sendable env cr"
  shows "request_lines cr \<noteq> []" "\<forall>l \<in> set (request_lines cr). clean l" "length (request_text cr) = length (lines_text (request_lines cr)) + 2"
    "2 \<le> length (lines_text (request_lines cr))"
proof -
  show "request_lines cr \<noteq> []" by (simp add: request_lines_def)
  then show "2 \<le> length (lines_text (request_lines cr))" by (cases "request_lines cr") simp_all
qed (use request_lines_clean [OF assms] in \<open>simp_all add: request_text_def\<close>)

text \<open>The string in the buffer, and its lines.\<close>

lemma lines_no_nul: "\<forall>l \<in> set ls. clean l \<Longrightarrow> 0 \<notin> set (lines_text ls)"
  by (induction ls) (auto simp: clean_def)

lemma request_split:
  assumes "sendable env cr" and e: "e = length (request_text cr) - 4" and bs: "bs = request_text cr @ rest"
  shows "takeWhile (\<lambda>x. x \<noteq> 0) (take e bs) = take e bs"
    "kore_split_string (take e bs) crlf (HTTP_REQ_HEADER_MAX env) = request_lines cr"
proof -
  note p = request_text_parts [OF assms(1)]
  have t: "take e bs = take (length (lines_text (request_lines cr)) - 2) (lines_text (request_lines cr))"
    using p(3) by (simp add: bs e request_text_def)
  then have "0 \<notin> set (take e bs)" using lines_no_nul [OF p(2)] by (auto dest: in_set_takeD)
  then show "takeWhile (\<lambda>x. x \<noteq> 0) (take e bs) = take e bs" by (auto simp: takeWhile_eq_all_conv)
  have "length (cr_headers cr) + 2 < HTTP_REQ_HEADER_MAX env" using assms(1) by (simp add: sendable_def)
  then have "length (request_lines cr) \<le> HTTP_REQ_HEADER_MAX env - 1" "HTTP_REQ_HEADER_MAX env \<noteq> 0" by (simp_all add: request_lines_def)
  then show "kore_split_string (take e bs) crlf (HTTP_REQ_HEADER_MAX env) = request_lines cr"
    using split_lines [OF p(1,2)] by (simp add: t kore_split_string_def)
qed

lemma not_host_method: "method_of m = Some x \<Longrightarrow> \<not> same_start 4 m (cstr ''host'')"
proof
  assume m: "method_of m = Some x" and h: "same_start 4 m (cstr ''host'')"
  have "take 4 (map tolower m) = cstr ''host''" using h by (simp add: same_start_def same_text_def take_map tolower_def)
  moreover have "map tolower m \<in> {cstr ''get'', cstr ''delete'', cstr ''post'', cstr ''put'', cstr ''head'', cstr ''options'', cstr ''patch''}"
    using m by (simp add: method_of_def same_text_def tolower_def split: if_splits)
  ultimately show False by auto
qed

section \<open>The request\<close>

text \<open>What of a request is known from its header.\<close>

definition is_request :: "http_request \<Rightarrow> client_request \<Rightarrow> http_method \<Rightarrow> http_handler \<Rightarrow> bool" where
  "is_request q cr m h \<longleftrightarrow> req_method q = m \<and> req_host q = cr_host cr \<and> req_path q = cr_path cr \<and> query_string q = cr_query cr \<and>
     hdlr q = h \<and> has_owner q \<and> \<not> rq_v10 q \<and> \<not> rq_delete q \<and> req_headers q = cr_headers cr \<and> arguments q = [] \<and> files q = [] \<and>
     resp_headers q = [] \<and> resp_cookies q = [] \<and> \<not> rq_no_content_length q"

text \<open>The store and the lists, with one request more than before.\<close>

definition with_request :: "http_request \<Rightarrow> http_connection \<Rightarrow> http_connection" where
  "with_request q c =
     c\<lparr>requests := (requests c)(next_request c := q), next_request := next_request c + 1, http_request_count := http_request_count c + 1,
       http_requests := next_request c # http_requests c, conn_requests := conn_requests c @ [next_request c]\<rparr>"

lemma target_parts:
  assumes "0x3f \<notin> set (cr_path cr)" "cr_path cr \<noteq> []"
  shows "strchr_before (cr_target cr) 0x3f = cr_path cr"
    "(if 0x3f \<in> set (cr_target cr) then length (cr_path cr) else 0) > 0 \<longleftrightarrow> cr_query cr \<noteq> None"
    "cr_query cr = None \<Longrightarrow> cr_target cr = cr_path cr"
    "cr_query cr \<noteq> None \<Longrightarrow> Some (drop (length (cr_path cr) + 1) (cr_target cr)) = cr_query cr"
proof -
  have t: "takeWhile (\<lambda>x. x \<noteq> 0x3f) (cr_path cr) = cr_path cr" using assms(1) by (auto simp: takeWhile_eq_all_conv)
  have "takeWhile (\<lambda>x. x \<noteq> 0x3f) (cr_path cr @ 0x3f # r) = cr_path cr" for r
    using assms(1) by (subst takeWhile_append2) auto
  then show "strchr_before (cr_target cr) 0x3f = cr_path cr" using t by (simp add: strchr_before_def cr_target_def split: option.split)
qed (cases "cr_query cr"; use assms in \<open>simp add: cr_target_def\<close>)+

lemma request_new_ok:
  assumes "sendable env cr" "served_by env (inet6 c) cr m h" "http_request_count c < http_request_limit env"
  shows "\<exists>q. http_request_new env (cr_host cr) (cr_method cr) (cr_target cr) (cr_version cr) c = Some (Inr (Some (next_request c), with_request q c)) \<and>
    is_request (q\<lparr>req_headers := cr_headers cr\<rparr>) cr m h \<and> req_headers q = [] \<and> rq_complete q = (\<not> has_body m) \<and> rq_expect_body q = has_body m \<and>
    \<not> rq_sleeping q"
proof -
  obtain name where n: "host_name (inet6 c) (cr_host cr) = Some name" "kore_module_handler_find env name (cr_path cr) = Some h"
    "method_of (cr_method cr) = Some m" "m \<in> set (methods h)" using assms(2) by (auto simp: served_by_def)
  have s: "\<not> http_request_limit env \<le> http_request_count c" "\<not> int (KORE_DOMAINNAME_LEN env) - 1 \<le> int (length (cr_host cr))"
    "\<not> int (HTTP_URI_LEN env) - 1 \<le> int (length (cr_target cr))" "same_text (cr_version cr) (cstr ''http/1.1'')"
    using assms(1,3) by (simp_all add: sendable_def)
  have p: "0x3f \<notin> set (cr_path cr)" "cr_path cr \<noteq> []" using assms(1) by (simp_all add: sendable_def word_text_def clean_def)
  note t = target_parts [OF p]
  define qs where "qs = (if 0x3f \<in> set (cr_target cr) then length (cr_path cr) else 0)"
  have q: "(0 < qs) = (cr_query cr \<noteq> None)" "cr_query cr \<noteq> None \<Longrightarrow> qs = length (cr_path cr)"
    using t(2) by (auto simp: qs_def split: if_splits)
  define q0 where "q0 = (stale c)\<lparr>req_method := m, req_host := cr_host cr, req_path := (if qs > 0 then cr_path cr else cr_target cr),
    query_string := (if qs > 0 then Some (drop (qs + 1) (cr_target cr)) else None),
    req_agent := None, req_referer := None, hdlr := h, has_owner := True,
    rq_v10 := False, rq_complete := \<not> has_body m, rq_expect_body := has_body m, rq_delete := False, rq_sleeping := False,
    rq_no_content_length := False, req_status := 0, req_headers := [], resp_headers := [], req_cookies := [],
    resp_cookies := [], arguments := [], files := [], http_body_length := 0, http_body_offset := 0, http_body := None,
    http_body_fd := None, http_body_path := None, fsm_state := 0\<rparr>"
  have "http_request_new env (cr_host cr) (cr_method cr) (cr_target cr) (cr_version cr) c = Some (Inr (Some (next_request c), with_request q0 c))"
    unfolding http_request_new_def Let_def t(1) qs_def [symmetric] with_request_def q0_def
    by (simp only: s n option.case if_False if_True simp_thms)
  moreover have "is_request (q0\<lparr>req_headers := cr_headers cr\<rparr>) cr m h"
    using t(3,4) q by (auto simp: is_request_def q0_def)
  ultimately show ?thesis by (intro exI [of _ q0]) (simp add: q0_def)
qed

lemma with_request_simps:
  "with_request q (c\<lparr>rnb := x\<rparr>) = with_request q c\<lparr>rnb := x\<rparr>" "requests (with_request q c) (next_request c) = q"
  "set_req (next_request c) (\<lambda>_. q') (with_request q c) = with_request q' c" "rnb (with_request q c) = rnb c"
  by (simp_all add: with_request_def set_req_def)

lemma set_req_rnb: "set_req r f (c\<lparr>rnb := x\<rparr>) = set_req r f c\<lparr>rnb := x\<rparr>"
  by (simp add: set_req_def)

text \<open>What is found in the lines.\<close>

lemma lines_found:
  assumes "sendable env cr" "method_of (cr_method cr) = Some m"
  shows "\<not> length (request_lines cr) < 2" "kore_split_string (hd (request_lines cr)) [32] 4 = [cr_method cr, cr_target cr, cr_version cr]"
    "host_line (strchr_before (hd (request_lines cr)) 32 # tl (request_lines cr)) 0 = Some (1, header_line (cstr ''Host'', cr_host cr))"
    "http_validate_header (header_line (cstr ''Host'', cr_host cr)) = Inr (Some (cstr ''Host'', cr_host cr))"
    "\<exists>ag rf. add_headers 1 (tl (request_lines cr)) 1 req = Inr (True, req\<lparr>req_headers := req_headers req @ cr_headers cr, req_agent := ag, req_referer := rf\<rparr>)"
proof -
  have w: "word_text (cr_method cr)" "word_text (cr_target cr)" "word_text (cr_version cr)" "header_ok (cstr ''Host'', cr_host cr)"
    "\<forall>h \<in> set (cr_headers cr). header_ok h" using assms(1) version_word by (simp_all add: sendable_def del: cstr_simps)
  show "\<not> length (request_lines cr) < 2" by (simp add: request_lines_def)
  show "kore_split_string (hd (request_lines cr)) [32] 4 = [cr_method cr, cr_target cr, cr_version cr]"
    using split_words [OF w(1-3)] by (simp add: request_lines_def del: cstr_simps)
  have "strchr_before (cr_method cr @ 32 # x) 32 = cr_method cr" for x
    using w(1) unfolding strchr_before_def word_text_def by (subst takeWhile_append2) auto
  then have "strchr_before (hd (request_lines cr)) 32 # tl (request_lines cr) =
      cr_method cr # header_line (cstr ''Host'', cr_host cr) # map header_line (cr_headers cr)"
    by (simp add: request_lines_def del: cstr_simps)
  moreover have "same_start 4 (header_line (cstr ''Host'', cr_host cr)) (cstr ''host'')"
    by (simp add: same_start_def same_text_def header_line_def tolower_def)
  ultimately show "host_line (strchr_before (hd (request_lines cr)) 32 # tl (request_lines cr)) 0 = Some (1, header_line (cstr ''Host'', cr_host cr))"
    using not_host_method [OF assms(2)] by (simp del: cstr_simps)
  show "http_validate_header (header_line (cstr ''Host'', cr_host cr)) = Inr (Some (cstr ''Host'', cr_host cr))" by (rule validate_line [OF w(4)])
  have "add_headers 1 (tl (request_lines cr)) 1 req = add_headers 1 (map header_line (cr_headers cr)) 2 req"
    by (simp add: request_lines_def numeral_2_eq_2 del: cstr_simps)
  then show "\<exists>ag rf. add_headers 1 (tl (request_lines cr)) 1 req = Inr (True, req\<lparr>req_headers := req_headers req @ cr_headers cr, req_agent := ag, req_referer := rf\<rparr>)"
    using add_headers_ok [OF w(5), of 1 2 req] by simp
qed

text \<open>The whole header is read.\<close>

lemma header_recv_whole:
  assumes "sendable env cr" "served_by env (inet6 c) cr m h" "http_request_count c < http_request_limit env"
    "recv_bytes c = Inr (nb, buf, request_text cr @ rest)" "4 \<le> b_len nb"
  shows "\<exists>q nb'. http_header_recv env c =
      (let c' = with_request q c\<lparr>rnb := Some nb'\<rparr> in if has_body m then expect_body env (next_request c) rest c' else Some (Inr (True, c'))) \<and>
    nb_buf nb' = None \<and> nb_always nb' = nb_always nb \<and>
    is_request q cr m h \<and> rq_complete q = (\<not> has_body m) \<and> rq_expect_body q = has_body m \<and> \<not> rq_sleeping q"
proof -
  note p = request_text_parts [OF assms(1)]
  let ?bs = "request_text cr @ rest" and ?e = "length (request_text cr) - 4"
  have m: "method_of (cr_method cr) = Some m" using assms(2) by (simp add: served_by_def)
  have "header_end ?bs = Inr (Some (length (lines_text (request_lines cr)) - 2, 4))"
    using header_end_whole [OF p(1,2), of rest] by (simp add: request_text_def)
  then have e: "header_end ?bs = Inr (Some (?e, 4))" "?e + 4 = length (request_text cr)" using p(3,4) by simp_all
  note s = request_split [OF assms(1) refl refl, of rest]
  define left where "left = split_mem (Some (take ?e ?bs)) crlf (HTTP_REQ_HEADER_MAX env - 1) @ drop (length (take ?e ?bs)) (?bs[?e := 0])"
  let ?nb = "nb\<lparr>nb_buf := Some (map Some left @ drop (s_off nb) buf)\<rparr>"
  let ?c = "c\<lparr>rnb := Some ?nb\<rparr>"
  note l = lines_found [OF assms(1) m]
  obtain q where q: "http_request_new env (cr_host cr) (cr_method cr) (cr_target cr) (cr_version cr) ?c = Some (Inr (Some (next_request c), with_request q ?c))"
    "is_request (q\<lparr>req_headers := cr_headers cr\<rparr>) cr m h" "req_headers q = []" "rq_complete q = (\<not> has_body m)" "rq_expect_body q = has_body m" "\<not> rq_sleeping q"
    using request_new_ok [OF assms(1), of ?c m h] assms(2,3) by auto
  obtain ag rf where a: "add_headers 1 (tl (request_lines cr)) 1 q = Inr (True, q\<lparr>req_headers := req_headers q @ cr_headers cr, req_agent := ag, req_referer := rf\<rparr>)"
    using l(5) by blast
  let ?q = "q\<lparr>req_headers := req_headers q @ cr_headers cr, req_agent := ag, req_referer := rf\<rparr>"
  let ?nb' = "nb\<lparr>nb_buf := None, m_len := 0\<rparr>"
  have hn: "cr_host cr \<noteq> []" using assms(1) by (simp add: sendable_def header_ok_def)
  have "(b_len nb < 4) = False" "drop (length (request_text cr)) ?bs = rest" using assms(5) by simp_all
  then have "http_header_recv env c =
      (let c' = with_request ?q c\<lparr>rnb := Some ?nb'\<rparr> in if rq_expect_body ?q then expect_body env (next_request c) rest c' else Some (Inr (True, c')))"
    unfolding http_header_recv_def assms(4) co_bind_simps prod.case e(1) option.case e(2) Let_def s left_def [symmetric]
    using l(1-4) q(1) a hn by (simp add: with_request_simps set_req_rnb del: cstr_simps)
  moreover have "is_request ?q cr m h" using q(2,3) by (simp add: is_request_def)
  ultimately show ?thesis using q(4-6) by (intro exI [of _ ?q] exI [of _ ?nb']) simp
qed

text \<open>The bytes in the buffer, and a header that is not yet complete.\<close>

lemma receiving_bytes:
  assumes "receiving c al cb b k t"
  shows "\<exists>nb buf. rnb c = Some nb \<and> recv_bytes c = Inr (nb, buf, take k t) \<and> b_len nb = b \<and> s_off nb = k \<and> nb_always nb = al"
proof -
  obtain nb buf where nb: "rnb c = Some nb" "nb_buf nb = Some buf" "b_len nb = b" "s_off nb = k" "nb_always nb = al" "k \<le> length buf"
    "take k buf = map Some (take k t)" using assms by (auto simp: receiving_def)
  then have "recv_bytes c = Inr (nb, buf, take k t)" by (auto simp: recv_bytes_def comp_def)
  then show ?thesis using nb by blast
qed

lemma header_recv_part:
  assumes "recv_bytes c = Inr (nb, buf, bs)" "header_end bs = Inr None"
  shows "http_header_recv env c = Some (Inr (True, c))"
  using assms by (simp add: http_header_recv_def)

lemma request_text_part:
  assumes "sendable env cr" "k < length (request_text cr)"
  shows "header_end (take k (request_text cr @ rest)) = Inr None"
  using header_end_part [OF request_text_parts(1,2) [OF assms(1)], of k rest] request_text_parts(3) [OF assms(1)] assms(2)
  by (simp add: request_text_def)

section \<open>The body\<close>

text \<open>A body as far as it has come, and one that is complete and ready to be read.\<close>

definition stored :: "http_request \<Rightarrow> u8 list \<Rightarrow> bool" where
  "stored q bs \<longleftrightarrow>
     (case http_body_fd q of
        Some (f, pos) \<Rightarrow> f = bs \<and> pos = length bs \<and> http_body q = None
      | None \<Rightarrow> (\<exists>b. http_body q = Some b \<and> buf_holds b bs))"

lemma stored_update [simp]:
  "stored (q\<lparr>hashed := x\<rparr>) bs = stored q bs" "stored (q\<lparr>rq_sleeping := b\<rparr>) bs = stored q bs" "stored (q\<lparr>content_length := n\<rparr>) bs = stored q bs"
  "stored (q\<lparr>rq_complete := b\<rparr>) bs = stored q bs" "stored (q\<lparr>rq_expect_body := b\<rparr>) bs = stored q bs" "stored (q\<lparr>http_body_digest := x\<rparr>) bs = stored q bs"
  by (cases "http_body_fd q"; simp add: stored_def)+

definition body_ready :: "http_request \<Rightarrow> u8 list \<Rightarrow> bool" where
  "body_ready q bs \<longleftrightarrow>
     (case http_body_fd q of
        Some (f, pos) \<Rightarrow> f = bs \<and> pos = 0 \<and> http_body q = None
      | None \<Rightarrow> (\<exists>b. http_body q = Some b \<and> buf_offset b = 0 \<and> buf_holds (b\<lparr>buf_offset := int (length bs)\<rparr>) bs)) \<and>
     http_body_offset q = 0 \<and> http_body_length q = int (length bs) \<and> content_length q = int (length bs)"

lemma body_ready_digest: "body_ready (q\<lparr>http_body_digest := x\<rparr>) bs = body_ready q bs"
  by (cases "http_body_fd q") (simp_all add: body_ready_def)

definition request_done :: "http_config \<Rightarrow> http_request \<Rightarrow> u8 list \<Rightarrow> bool" where
  "request_done env q body \<longleftrightarrow> rq_complete q \<and> \<not> rq_expect_body q \<and> \<not> rq_sleeping q \<and>
     (body \<noteq> [] \<longrightarrow> body_ready q body \<and> http_body_digest q = sha256 env body)"

lemma rewind_ready:
  assumes "stored q bs" "content_length q = int (length bs)"
  shows "body_ready (http_body_rewind q) bs"
  using assms by (auto simp: stored_def body_ready_def http_body_rewind_def Let_def buf_holds_def kore_buf_reset_def split: option.splits)

lemma store_body_ok:
  assumes "stores_bodies env" "content_length (requests c r) = int n" "n \<le> BUF_MAX" "length start \<le> n"
  shows "\<exists>q'. store_body env r start c = Some (Inr (None, set_req r (\<lambda>_. q') c)) \<and> stored q' start \<and>
    (\<exists>b f p. q' = (requests c r)\<lparr>http_body := b, http_body_fd := f, http_body_path := p\<rparr>)"
proof (cases "http_body_disk_offload env > 0 \<and> int n > http_body_disk_offload env")
  case True
  let ?t = "http_body_disk_path env @ cstr ''/http_body.XXXXXX''"
  obtain path where m: "mkstemp env ?t = Some path" "\<not> HTTP_BODY_PATH_MAX env \<le> length ?t" "write_ok env start"
    using assms(1) True by (auto simp: stores_bodies_def)
  let ?q = "(requests c r)\<lparr>http_body_path := Some path, http_body := None, http_body_fd := Some (start, length start)\<rparr>"
  have e: "?q = (requests c r)\<lparr>http_body := None, http_body_fd := Some (start, length start), http_body_path := Some path\<rparr>"
    by (cases "requests c r") simp
  have "store_body env r start c = Some (Inr (None, set_req r (\<lambda>_. ?q) c))"
    unfolding store_body_def Let_def assms(2) using True m by (simp add: set_req_def del: cstr_simps)
  moreover have "stored ?q start" by (simp add: stored_def)
  ultimately show ?thesis using e by blast
next
  case False
  have "int n < 2 ^ 63" using assms(3) by (simp add: BUF_MAX_def)
  then obtain b where b: "kore_buf_append start (kore_buf_alloc (int n)) = Inr b" "buf_holds b start"
    using buf_append_holds [OF buf_alloc_holds(2), of "int n" start] assms(3,4) by auto
  let ?q = "(requests c r)\<lparr>http_body_fd := None, http_body := Some b\<rparr>"
  have e: "?q = (requests c r)\<lparr>http_body := Some b, http_body_fd := None, http_body_path := http_body_path (requests c r)\<rparr>"
    by (cases "requests c r") simp
  have d: "(http_body_disk_offload env > 0 \<and> int n > http_body_disk_offload env) = False" using False by simp
  have "store_body env r start c = Some (Inr (None, set_req r (\<lambda>_. ?q) c))"
    unfolding store_body_def Let_def assms(2) d if_False b(1) co_bind_simps by (simp add: set_req_def)
  moreover have "stored ?q start" using b(2) by (simp add: stored_def)
  ultimately show ?thesis using e by blast
qed

text \<open>While the body arrives, \<open>k\<close> of its bytes are stored and the request sleeps.\<close>

definition awaits_body :: "http_config \<Rightarrow> http_connection \<Rightarrow> nat \<Rightarrow> u8 list \<Rightarrow> nat \<Rightarrow> bool" where
  "awaits_body env c r body k \<longleftrightarrow>
     k < length body \<and> rnb_extra c = Some r \<and>
     receiving c True Body_Recv (min (length body - k) (NETBUF_SEND_PAYLOAD_MAX env)) 0 (drop k body) \<and>
     stored (requests c r) (take k body) \<and> hashed (requests c r) = take k body \<and>
     content_length (requests c r) = int (length body - k) \<and> http_body_length (requests c r) = int (length body) \<and> rq_sleeping (requests c r)"

text \<open>Receiving does not touch what is sent.\<close>

definition same_sending :: "http_connection \<Rightarrow> http_connection \<Rightarrow> bool" where
  [simp]: "same_sending c0 c \<longleftrightarrow> send_queue c = send_queue c0 \<and> snb c = snb c0 \<and> sock_out c = sock_out c0 \<and> close_empty c = close_empty c0 \<and>
     tls_reneg c = tls_reneg c0 \<and> proto_http c = proto_http c0"

definition same_others :: "nat \<Rightarrow> http_connection \<Rightarrow> http_connection \<Rightarrow> bool" where
  "same_others r c c' \<longleftrightarrow> (\<forall>i. i \<noteq> r \<longrightarrow> requests c' i = requests c i) \<and> conn_requests c' = conn_requests c \<and>
     http_request_count c' = http_request_count c \<and> next_request c' = next_request c \<and> tls c' = tls c \<and> reads c' = reads c \<and>
     evt_read c' = evt_read c \<and> sock_in c' = sock_in c \<and> same_sending c c'"

lemma receiving_ext [simp]:
  "receiving (set_req r f c) al cb b k t = receiving c al cb b k t"
  "receiving (c\<lparr>rnb_extra := e\<rparr>) al cb b k t = receiving c al cb b k t"
  "receiving (c\<lparr>http_requests := hs, http_requests_sleeping := sl\<rparr>) al cb b k t = receiving c al cb b k t"
  by (simp_all add: receiving_def set_req_def)

lemma receiving_sleep [simp]: "receiving (http_request_sleep r c) al cb b k t = receiving c al cb b k t"
  by (simp add: http_request_sleep_def)

lemma receiving_wakeup [simp]: "receiving (http_request_wakeup r c) al cb b k t = receiving c al cb b k t"
  by (simp add: http_request_wakeup_def receiving_def set_req_def)

text \<open>The part of the body that came with the header, \<open>k\<close> bytes of it, is taken.\<close>

lemma expect_body_ok:
  assumes an: "body_announced env cr m" "has_body m" "stores_bodies env" and k: "k \<le> length (cr_body cr)"
    and q: "is_request (requests c r) cr m h" "rq_expect_body (requests c r)" "\<not> rq_sleeping (requests c r)"
    and nb: "rnb c = Some nb" "nb_buf nb = None" "nb_always nb" "sock_in c = drop k (cr_body cr)"
    and l: "http_requests c = r # hs"
  shows "\<exists>c'. expect_body env r (take k (cr_body cr)) c = Some (Inr (True, c')) \<and> same_others r c c' \<and> is_request (requests c' r) cr m h \<and>
    (if k < length (cr_body cr)
     then awaits_body env c' r (cr_body cr) k \<and> http_requests c' = hs \<and> http_requests_sleeping c' = http_requests_sleeping c @ [r]
     else request_done env (requests c' r) (cr_body cr) \<and> http_requests c' = r # hs \<and> http_requests_sleeping c' = http_requests_sleeping c \<and>
          rnb c' = Some nb \<and> sock_in c' = [])"
proof -
  let ?body = "cr_body cr" and ?n = "int (length (cr_body cr))" and ?pm = "NETBUF_SEND_PAYLOAD_MAX env"
  obtain nm v where ann: "find (\<lambda>(n, _). same_text n (cstr ''content-length'')) (cr_headers cr) = Some (nm, v)" "kore_strtonum v 10 0 LLONG_MAX = Some ?n"
    "0 < http_body_max env" "?n \<le> http_body_max env" "length ?body \<le> BUF_MAX" using an(1,2) by (auto simp: body_announced_def)
  have hd: "http_request_header (requests c r) (cstr ''content-length'') = Some v"
    using ann(1) q(1) by (simp add: http_request_header_def is_request_def del: cstr_simps)
  have f: "(http_body_max env = 0) = False" "(?n > http_body_max env) = False" using ann(3,4) by simp_all
  define c1 where "c1 = set_req r (content_length_update (\<lambda>_. ?n)) c"
  define c2 where "c2 = set_req r (http_body_length_update (\<lambda>_. ?n)) c1"
  show ?thesis
  proof (cases "?body = []")
    case True
    let ?c = "set_req r (\<lambda>q. q\<lparr>rq_complete := True, rq_expect_body := False\<rparr>) c1"
    have "expect_body env r (take k ?body) c = Some (Inr (True, ?c))"
      unfolding expect_body_def Let_def f hd option.case ann(2) c1_def using True by simp
    then show ?thesis using True q l nb by (intro exI [of _ ?c]) (simp add: c1_def set_req_def same_others_def is_request_def request_done_def)
  next
    case ne: False
    then have n0: "(?n = 0) = False" by simp
    have lk: "length (take k ?body) = k" using k by simp
    have r2: "requests c2 r = (requests c r)\<lparr>content_length := ?n, http_body_length := ?n\<rparr>" by (simp add: c2_def c1_def set_req_def)
    obtain q' b fd p where st: "store_body env r (take k ?body) c2 = Some (Inr (None, set_req r (\<lambda>_. q') c2))" "stored q' (take k ?body)"
      "q' = (requests c2 r)\<lparr>http_body := b, http_body_fd := fd, http_body_path := p\<rparr>"
      using store_body_ok [OF an(3), of c2 r "length ?body" "take k ?body"] ann(5) r2 by auto
    define c3 where "c3 = set_req r (hashed_update (\<lambda>_. take k ?body)) (set_req r (\<lambda>_. q') c2)"
    define left where "left = (?n - int (length (take k ?body))) mod 2 ^ 64"
    have left: "left = int (length ?body - k)" using k ann(5) by (simp add: left_def BUF_MAX_def of_nat_diff)
    have c3: "requests c3 = (requests c)(r := q'\<lparr>hashed := take k ?body\<rparr>)" "rnb c3 = rnb c" "sock_in c3 = sock_in c" "tls c3 = tls c" "reads c3 = reads c" "evt_read c3 = evt_read c"
      "http_requests c3 = http_requests c" "http_requests_sleeping c3 = http_requests_sleeping c" "conn_requests c3 = conn_requests c"
      "http_request_count c3 = http_request_count c" "next_request c3 = next_request c" "same_sending c c3"
      by (simp_all add: c3_def c2_def c1_def set_req_def)
    have e: "expect_body env r (take k ?body) c =
      (if left > 0 then
         co_bind (Some (net_recv_reset ?pm (nat (min left (int ?pm))) Body_Recv c3)) (\<lambda>c.
         Some (Inr (True, set_req r (content_length_update (\<lambda>_. left)) (http_request_sleep r (c\<lparr>rnb_extra := Some r\<rparr>)))))
       else
         Some (Inr (True, set_req r (\<lambda>q. http_body_rewind (q\<lparr>rq_complete := True, rq_expect_body := False,
           http_body_digest := sha256 env (hashed q)\<rparr>)) c3)))"
      unfolding expect_body_def Let_def f hd option.case ann(2) if_False n0 c1_def [symmetric] c2_def [symmetric] st(1) co_bind_simps prod.case
        c3_def [symmetric] left_def [symmetric] ..
    show ?thesis
    proof (cases "k < length ?body")
      case True
      have b: "nat (min left (int ?pm)) = min (length ?body - k) ?pm" by (simp add: left min_def)
      obtain c4 nb4 where c4: "net_recv_reset ?pm (min (length ?body - k) ?pm) Body_Recv c3 = Inr c4"
        "receiving c4 True Body_Recv (min (length ?body - k) ?pm) 0 (drop k ?body)" "c4 = c3\<lparr>rnb := Some nb4\<rparr>"
        using reset_receiving [of c3 nb "drop k ?body" ?pm "min (length ?body - k) ?pm" Body_Recv] nb c3(2,3) by auto
      let ?c = "set_req r (content_length_update (\<lambda>_. left)) (http_request_sleep r (c4\<lparr>rnb_extra := Some r\<rparr>))"
      have "expect_body env r (take k ?body) c = Some (Inr (True, ?c))" unfolding e b c4(1) using True left by simp
      moreover have "http_requests ?c = hs" "http_requests_sleeping ?c = http_requests_sleeping c @ [r]"
        "requests ?c = (requests c)(r := q'\<lparr>hashed := take k ?body, rq_sleeping := True, content_length := left\<rparr>)" "rnb_extra ?c = Some r"
        using c4(3) c3 l q(3) st(3) r2 by (simp_all add: http_request_sleep_def set_req_def)
      moreover have "same_others r c ?c" using c4(3) c3 by (simp add: same_others_def http_request_sleep_def set_req_def)
      moreover have "is_request (q'\<lparr>hashed := take k ?body, rq_sleeping := True, content_length := left\<rparr>) cr m h"
        using q(1) st(3) r2 by (simp add: is_request_def)
      moreover have "awaits_body env ?c r ?body k"
      proof -
        have "content_length q' = ?n" "http_body_length q' = ?n" using st(3) r2 by simp_all
        then show ?thesis unfolding awaits_body_def calculation(4,5) using True c4(2) st(2) left by simp
      qed
      ultimately show ?thesis using True by auto
    next
      case False
      then have kk: "k = length ?body" "take k ?body = ?body" "\<not> left > 0" using k left by simp_all
      define q5 where "q5 = http_body_rewind (q'\<lparr>hashed := ?body, rq_complete := True, rq_expect_body := False, http_body_digest := sha256 env ?body\<rparr>)"
      let ?c = "set_req r (\<lambda>q. http_body_rewind (q\<lparr>rq_complete := True, rq_expect_body := False, http_body_digest := sha256 env (hashed q)\<rparr>)) c3"
      have "expect_body env r (take k ?body) c = Some (Inr (True, ?c))" unfolding e using kk(3) by simp
      moreover have "requests ?c = (requests c)(r := q5)" using c3(1) kk(2) by (simp add: set_req_def q5_def)
      moreover have "same_others r c ?c" using c3 by (simp add: same_others_def set_req_def)
      moreover have "is_request q5 cr m h" "rq_complete q5" "\<not> rq_expect_body q5" "\<not> rq_sleeping q5" "http_body_digest q5 = sha256 env ?body"
        using q st(3) r2 by (simp_all add: q5_def http_body_rewind_def is_request_def Let_def split: option.split)
      moreover have "body_ready q5 ?body"
        unfolding q5_def by (rule rewind_ready) (use st(2,3) r2 kk(2) in simp_all)
      moreover have "rnb ?c = Some nb" "sock_in ?c = []" "http_requests ?c = r # hs" "http_requests_sleeping ?c = http_requests_sleeping c"
        using c3 nb kk(1) l by (simp_all add: set_req_def)
      ultimately show ?thesis using False by (intro exI [of _ ?c]) (simp add: request_done_def)
    qed
  qed
qed

text \<open>A part of the body, or nothing when the read was interrupted, arrives later.\<close>

lemma body_kept:
  assumes aw: "awaits_body env c r body k" and w: "length (take k body @ bs) \<le> BUF_MAX" "\<forall>bs. write_ok env bs"
    and c1: "recv_bytes c1 = Inr (nb, buf, bs)" "rnb_extra c1 = Some r" "requests c1 = requests c"
  shows "\<exists>b fd. http_body_recv env c1 =
      body_stored env r (s_off nb) (set_req r (\<lambda>q. q\<lparr>hashed := take k body @ bs, http_body := b, http_body_fd := fd\<rparr>) c1) \<and>
    stored ((requests c r)\<lparr>hashed := take k body @ bs, http_body := b, http_body_fd := fd\<rparr>) (take k body @ bs)"
proof -
  let ?q = "requests c r"
  have st: "stored ?q (take k body)" "hashed ?q = take k body" using aw by (simp_all add: awaits_body_def)
  show ?thesis
  proof (cases "http_body_fd ?q")
    case None
    then obtain b where b: "http_body ?q = Some b" "buf_holds b (take k body)" using st(1) by (auto simp: stored_def)
    obtain b' where b': "kore_buf_append bs b = Inr b'" "buf_holds b' (take k body @ bs)" using buf_append_holds [OF b(2) w(1)] by auto
    have n: "?q\<lparr>hashed := h, http_body := x, http_body_fd := None\<rparr> = ?q\<lparr>hashed := h, http_body := x\<rparr>" for h x
      using None by (cases ?q) simp
    show ?thesis
      by (intro exI [of _ "Some b'"] exI [of _ None])
        (use None b b' st(2) in \<open>simp add: n http_body_recv_def c1 set_req_def stored_def comp_def\<close>)
  next
    case (Some a)
    then have a: "a = (take k body, length (take k body))" "http_body ?q = None" using st(1) by (cases a, simp add: stored_def)+
    have mk: "take (min (length body) k) body = take k body" by (simp add: min_def)
    have n: "?q\<lparr>hashed := h, http_body := None, http_body_fd := x\<rparr> = ?q\<lparr>hashed := h, http_body_fd := x\<rparr>" for h x
      using a(2) by (cases ?q) simp
    show ?thesis
      by (intro exI [of _ None] exI [of _ "Some (take k body @ bs, length (take k body @ bs))"])
        (use Some a w(2) st(2) in \<open>simp add: n mk http_body_recv_def c1 set_req_def stored_def comp_def\<close>)
  qed
qed

lemma body_recv_ok:
  assumes aw: "awaits_body env c r body k" and lim: "length body \<le> BUF_MAX" "0 < NETBUF_SEND_PAYLOAD_MAX env" and w: "\<forall>bs. write_ok env bs"
    and c1: "c1 = c\<lparr>sock_in := drop j (drop k body), rnb := Some nb1\<rparr>"
    and r1: "receiving c1 True Body_Recv (min (length body - k) (NETBUF_SEND_PAYLOAD_MAX env)) j (drop k body)"
    and q: "is_request (requests c r) cr m h"
  shows "\<exists>c2. http_body_recv env c1 = Some (Inr (True, c2)) \<and> same_others r c1 c2 \<and> is_request (requests c2 r) cr m h \<and>
    (if k + j < length body
     then awaits_body env c2 r body (k + j) \<and> http_requests c2 = http_requests c \<and> http_requests_sleeping c2 = http_requests_sleeping c
     else request_done env (requests c2 r) body \<and> receiving c2 True Header_Recv (http_header_max env) 0 [] \<and>
          http_requests c2 = http_requests c @ [r] \<and> http_requests_sleeping c2 = remove1 r (http_requests_sleeping c))"
proof -
  let ?pm = "NETBUF_SEND_PAYLOAD_MAX env" and ?bs = "take j (drop k body)"
  note a = aw [unfolded awaits_body_def]
  obtain nb buf where nb: "rnb c1 = Some nb" "recv_bytes c1 = Inr (nb, buf, ?bs)" "s_off nb = j" "nb_always nb" using receiving_bytes [OF r1] by auto
  obtain buf' where buf': "nb_buf nb = Some buf'" "m_len nb \<le> length buf'" "j \<le> min (length body - k) ?pm" using r1 nb(1) by (auto simp: receiving_def)
  have j: "k + j \<le> length body" using buf'(3) a by auto
  have tk: "take k body @ ?bs = take (k + j) body" by (simp add: take_add)
  have lt: "length (take k body @ ?bs) \<le> BUF_MAX" using lim(1) by (simp add: tk min.coboundedI1)
  have x: "rnb_extra c1 = Some r" "requests c1 = requests c" "sock_in c1 = drop (k + j) body" using a by (simp_all add: c1 add.commute)
  obtain b fd where q2: "http_body_recv env c1 = body_stored env r j (set_req r (\<lambda>q. q\<lparr>hashed := take (k + j) body, http_body := b, http_body_fd := fd\<rparr>) c1)"
    "stored ((requests c r)\<lparr>hashed := take (k + j) body, http_body := b, http_body_fd := fd\<rparr>) (take (k + j) body)"
    using body_kept [OF aw lt w nb(2) x(1,2)] unfolding tk nb(3) by blast
  let ?q2 = "(requests c r)\<lparr>hashed := take (k + j) body, http_body := b, http_body_fd := fd\<rparr>"
  define c2 where "c2 = set_req r (\<lambda>q. q\<lparr>hashed := take (k + j) body, http_body := b, http_body_fd := fd\<rparr>) c1"
  define left where "left = length body - (k + j)"
  have left: "(int (length body - k) - int j) mod 2 ^ 64 = int left" using j lim(1) by (simp add: left_def BUF_MAX_def of_nat_diff)
  show ?thesis
  proof (cases "k + j < length body")
    case True
    define c3 where "c3 = set_req r (content_length_update (\<lambda>_. int left)) c2"
    have c3: "rnb c3 = Some nb" "sock_in c3 = drop (k + j) body" using nb(1) x(3) by (simp_all add: c3_def c2_def set_req_def)
    obtain c4 nb4 where c4: "net_recv_reset ?pm (min left ?pm) Body_Recv c3 = Inr c4" "receiving c4 True Body_Recv (min left ?pm) 0 (drop (k + j) body)"
      "c4 = c3\<lparr>rnb := Some nb4\<rparr>"
      using reset_receiving [OF c3(1) _ c3(2), of ?pm "min left ?pm" Body_Recv] buf' nb(4) by auto
    have l0: "(int left = 0) = False" "nat (min (int left) (int ?pm)) = min left ?pm" using True by (simp_all add: left_def)
    have rq: "requests c4 = (requests c)(r := ?q2\<lparr>content_length := int left\<rparr>)" using c4(3) by (simp add: c3_def c2_def set_req_def c1)
    have cl: "content_length (requests c2 r) = int (length body - k)" using a by (simp add: c2_def set_req_def c1)
    have "http_body_recv env c1 = Some (Inr (True, c4))"
      unfolding q2(1) c2_def [symmetric] body_stored_def cl left Let_def c3_def [symmetric] l0 if_False c4(1) co_bind_simps ..
    moreover have "same_others r c1 c4" using rq c4(3) by (simp add: same_others_def c3_def c2_def set_req_def c1)
    moreover have "awaits_body env c4 r body (k + j)"
      unfolding awaits_body_def rq using True c4(2,3) q2(2) a by (simp add: left_def c3_def c2_def set_req_def c1)
    moreover have "http_requests c4 = http_requests c" "http_requests_sleeping c4 = http_requests_sleeping c" "is_request (requests c4 r) cr m h"
      using c4(3) q by (simp_all add: rq is_request_def) (simp_all add: c3_def c2_def set_req_def c1)
    ultimately show ?thesis using True by auto
  next
    case False
    then have e: "k + j = length body" "int left = 0" "take (k + j) body = body" "drop (k + j) body = []" using j by (simp_all add: left_def)
    define q3 where "q3 = (http_body_rewind (?q2\<lparr>content_length := 0, rq_sleeping := False, rq_complete := True, rq_expect_body := False,
      content_length := int (length body)\<rparr>))\<lparr>http_body_digest := sha256 env body\<rparr>"
    define c3 where "c3 = c1\<lparr>rnb_extra := None, requests := (requests c)(r := q3),
      http_requests_sleeping := remove1 r (http_requests_sleeping c), http_requests := http_requests c @ [r]\<rparr>"
    have c3: "rnb c3 = Some nb" "sock_in c3 = []" using nb(1) x(3) e(4) by (simp_all add: c3_def)
    obtain c4 nb4 where c4: "net_recv_reset ?pm (http_header_max env) Header_Recv c3 = Inr c4" "receiving c4 True Header_Recv (http_header_max env) 0 []"
      "c4 = c3\<lparr>rnb := Some nb4\<rparr>"
      using reset_receiving [OF c3(1) _ c3(2), of ?pm "http_header_max env" Header_Recv] buf' nb(4) by auto
    have rq: "requests c4 = (requests c)(r := q3)" using c4(3) by (simp add: c3_def)
    have cl: "content_length (requests c2 r) = int (length body - k)" using a by (simp add: c2_def set_req_def c1)
    have wk: "set_req r (\<lambda>q. http_body_rewind q\<lparr>http_body_digest := sha256 env (hashed q)\<rparr>)
        (set_req r (\<lambda>q. q\<lparr>rq_complete := True, rq_expect_body := False, content_length := http_body_length q\<rparr>)
          (http_request_wakeup r (set_req r (content_length_update (\<lambda>_. 0)) c2\<lparr>rnb_extra := None\<rparr>))) = c3"
      using a e(3) by (simp add: http_request_wakeup_def set_req_def c2_def c3_def q3_def c1)
    have "http_body_recv env c1 = Some (Inr (True, c4))"
      unfolding q2(1) c2_def [symmetric] body_stored_def cl left Let_def e(2) simp_thms if_True wk c4(1) co_bind_simps ..
    moreover have "same_others r c1 c4" using rq c4(3) by (simp add: same_others_def c3_def c1)
    moreover have "request_done env (requests c4 r) body"
    proof -
      have "body_ready (http_body_rewind (?q2\<lparr>content_length := 0, rq_sleeping := False, rq_complete := True, rq_expect_body := False,
          content_length := int (length body)\<rparr>)) body" by (rule rewind_ready) (use q2(2) e(3) in simp_all)
      then have "body_ready q3 body" by (simp only: q3_def body_ready_digest)
      moreover have "rq_complete q3 \<and> \<not> rq_expect_body q3 \<and> \<not> rq_sleeping q3 \<and> http_body_digest q3 = sha256 env body"
        by (simp add: q3_def http_body_rewind_def Let_def split: option.split)
      ultimately show ?thesis by (simp add: request_done_def rq)
    qed
    moreover have "http_requests c4 = http_requests c @ [r]" "http_requests_sleeping c4 = remove1 r (http_requests_sleeping c)"
      using c4(3) by (simp_all add: c3_def)
    moreover have "is_request (requests c4 r) cr m h"
      using q by (simp add: rq q3_def http_body_rewind_def is_request_def Let_def split: option.split)
    ultimately show ?thesis using False c4(2) by auto
  qed
qed

section \<open>A request arrives\<close>

text \<open>
  From the start \<open>c0\<close>, where nothing of the request has come, the connection first waits for the header, then for
  the body, and then the request is there.
\<close>

definition same_requests :: "http_connection \<Rightarrow> http_connection \<Rightarrow> bool" where
  "same_requests c0 c \<longleftrightarrow> requests c = requests c0 \<and> http_requests c = http_requests c0 \<and> http_requests_sleeping c = http_requests_sleeping c0 \<and>
     conn_requests c = conn_requests c0 \<and> http_request_count c = http_request_count c0 \<and> next_request c = next_request c0 \<and> inet6 c = inet6 c0 \<and> same_sending c0 c"

definition one_more :: "http_connection \<Rightarrow> http_connection \<Rightarrow> bool" where
  "one_more c0 c \<longleftrightarrow> (\<forall>i. i \<noteq> next_request c0 \<longrightarrow> requests c i = requests c0 i) \<and> conn_requests c = conn_requests c0 @ [next_request c0] \<and>
     http_request_count c = http_request_count c0 + 1 \<and> next_request c = next_request c0 + 1 \<and> same_sending c0 c"

text \<open>The receive buffer can be set up for the next request.\<close>

definition rnb_ready :: "http_connection \<Rightarrow> bool" where
  "rnb_ready c \<longleftrightarrow> (\<exists>nb. rnb c = Some nb \<and> nb_always nb \<and> (\<forall>buf. nb_buf nb = Some buf \<longrightarrow> m_len nb \<le> length buf))"

lemma rnb_ready_update [simp]:
  "rnb_ready (c\<lparr>evt_read := e\<rparr>) = rnb_ready c" "rnb_ready (c\<lparr>reads := rs\<rparr>) = rnb_ready c"
  by (simp_all add: rnb_ready_def)

lemma rnb_readyI: "receiving c True cb b k t \<Longrightarrow> rnb_ready c" "rnb c = Some nb \<Longrightarrow> nb_buf nb = None \<Longrightarrow> nb_always nb \<Longrightarrow> rnb_ready c"
  by (auto simp: rnb_ready_def receiving_def)

definition request_here :: "http_config \<Rightarrow> client_request \<Rightarrow> http_method \<Rightarrow> http_handler \<Rightarrow> http_connection \<Rightarrow> http_connection \<Rightarrow> bool" where
  "request_here env cr m h c0 c \<longleftrightarrow> one_more c0 c \<and> is_request (requests c (next_request c0)) cr m h \<and>
     request_done env (requests c (next_request c0)) (cr_body cr) \<and>
     (http_requests c = next_request c0 # http_requests c0 \<or> http_requests c = http_requests c0 @ [next_request c0]) \<and>
     http_requests_sleeping c = http_requests_sleeping c0 \<and> \<not> tls c \<and> rnb_ready c \<and> sock_in c = []"

definition request_arrives :: "http_config \<Rightarrow> client_request \<Rightarrow> http_method \<Rightarrow> http_handler \<Rightarrow> http_connection \<Rightarrow> http_connection \<Rightarrow> bool" where
  "request_arrives env cr m h c0 c \<longleftrightarrow> \<not> tls c \<and>
     ((\<exists>k. receiving c True Header_Recv (http_header_max env) k (request_text cr @ cr_body cr) \<and> k < length (request_text cr) \<and> same_requests c0 c) \<or>
      (\<exists>k. awaits_body env c (next_request c0) (cr_body cr) k \<and> one_more c0 c \<and> is_request (requests c (next_request c0)) cr m h \<and>
         http_requests c = http_requests c0 \<and> http_requests_sleeping c = http_requests_sleeping c0 @ [next_request c0]) \<or>
      request_here env cr m h c0 c \<and> sock_in c = [] \<and>
        (\<exists>nb. rnb c = Some nb \<and> (nb_buf nb = None \<or> receiving c True Header_Recv (http_header_max env) 0 [])))"

text \<open>What is asked of the server and of the request, from the start on.\<close>

definition can_serve :: "http_config \<Rightarrow> client_request \<Rightarrow> http_method \<Rightarrow> http_handler \<Rightarrow> http_connection \<Rightarrow> bool" where
  "can_serve env cr m h c0 \<longleftrightarrow> sendable env cr \<and> served_by env (inet6 c0) cr m h \<and> body_announced env cr m \<and> stores_bodies env \<and>
     http_request_count c0 < http_request_limit env \<and> 0 < NETBUF_SEND_PAYLOAD_MAX env \<and>
     next_request c0 \<notin> set (http_requests_sleeping c0)"

lemma body_bound: "body_announced env cr m \<Longrightarrow> length (cr_body cr) \<le> BUF_MAX"
  by (auto simp: body_announced_def split: if_splits)

lemma header_step:
  assumes can: "can_serve env cr m h c0" and c1: "same_requests c0 c1" "\<not> tls c1"
    and r1: "receiving c1 True Header_Recv (http_header_max env) k1 (request_text cr @ cr_body cr)"
  shows "\<exists>c2. http_header_recv env c1 = Some (Inr (True, c2)) \<and> request_arrives env cr m h c0 c2 \<and> reads c2 = reads c1 \<and>
    evt_read c2 = evt_read c1 \<and> sock_in c2 = sock_in c1"
proof -
  have s: "sendable env cr" "served_by env (inet6 c1) cr m h" "body_announced env cr m" "stores_bodies env" "http_request_count c1 < http_request_limit env"
    using can c1(1) by (simp_all add: can_serve_def same_requests_def)
  let ?t = "request_text cr @ cr_body cr" and ?r = "next_request c1"
  obtain nb buf where nb: "rnb c1 = Some nb" "recv_bytes c1 = Inr (nb, buf, take k1 ?t)" "b_len nb = http_header_max env" "nb_always nb"
    using receiving_bytes [OF r1] by auto
  show ?thesis
  proof (cases "k1 < length (request_text cr)")
    case True
    then have "http_header_recv env c1 = Some (Inr (True, c1))" using header_recv_part [OF nb(2)] request_text_part [OF s(1) True] by simp
    moreover have "request_arrives env cr m h c0 c1" using True r1 c1 by (auto simp: request_arrives_def)
    ultimately show ?thesis by blast
  next
    case False
    define k where "k = k1 - length (request_text cr)"
    have k: "k \<le> length (cr_body cr)" "sock_in c1 = drop k (cr_body cr)" using r1 False by (auto simp: receiving_def k_def)
    have "take k1 ?t = request_text cr @ take k (cr_body cr)" using False by (simp add: k_def)
    moreover have "4 \<le> b_len nb" using request_text_parts(3,4) [OF s(1)] s(1) nb(3) by (simp add: sendable_def)
    ultimately obtain q nb' where q: "http_header_recv env c1 = (let c' = with_request q c1\<lparr>rnb := Some nb'\<rparr> in
        if has_body m then expect_body env ?r (take k (cr_body cr)) c' else Some (Inr (True, c')))"
      "nb_buf nb' = None" "nb_always nb'" "is_request q cr m h" "rq_complete q = (\<not> has_body m)" "rq_expect_body q = has_body m" "\<not> rq_sleeping q"
      using header_recv_whole [OF s(1,2,5), of nb buf "take k (cr_body cr)"] nb(2,4) by auto
    let ?c = "with_request q c1\<lparr>rnb := Some nb'\<rparr>"
    have n: "?r = next_request c0" using c1(1) by (simp add: same_requests_def)
    have w: "requests ?c ?r = q" "http_requests ?c = ?r # http_requests c0" "http_requests_sleeping ?c = http_requests_sleeping c0" "one_more c0 ?c"
      "sock_in ?c = drop k (cr_body cr)" "reads ?c = reads c1" "\<not> tls ?c" "evt_read ?c = evt_read c1" "sock_in ?c = sock_in c1"
      using c1 k(2) by (simp_all add: with_request_def same_requests_def one_more_def)
    show ?thesis
    proof (cases "has_body m")
      case False
      then have "cr_body cr = []" using s(3) by (simp add: body_announced_def)
      then have "request_arrives env cr m h c0 ?c" using False q(2-7) w rnb_readyI(2) [of ?c nb'] by (simp add: request_arrives_def request_here_def request_done_def n)
      then show ?thesis using q(1) False w(6,8,9) by simp
    next
      case True
      obtain c2 where c2: "expect_body env ?r (take k (cr_body cr)) ?c = Some (Inr (True, c2))" "same_others ?r ?c c2" "is_request (requests c2 ?r) cr m h"
        "if k < length (cr_body cr)
         then awaits_body env c2 ?r (cr_body cr) k \<and> http_requests c2 = http_requests c0 \<and> http_requests_sleeping c2 = http_requests_sleeping ?c @ [?r]
         else request_done env (requests c2 ?r) (cr_body cr) \<and> http_requests c2 = ?r # http_requests c0 \<and>
           http_requests_sleeping c2 = http_requests_sleeping ?c \<and> rnb c2 = Some nb' \<and> sock_in c2 = []"
        using expect_body_ok [OF s(3) True s(4) k(1), where c = ?c and r = ?r and nb = nb' and hs = "http_requests c0" and h = h] q w True by auto
      have o: "one_more c0 c2" "\<not> tls c2" "reads c2 = reads c1" "evt_read c2 = evt_read c1" "sock_in c2 = sock_in c1"
        using c2(2) w(4,6-9) by (auto simp: one_more_def same_others_def n)
      then have "request_arrives env cr m h c0 c2" using c2(3,4) w(3) q(2,3) o(1,2) rnb_readyI(2) [of c2 nb'] by (auto simp: request_arrives_def request_here_def n split: if_splits)
      then show ?thesis using q(1) True c2(1) o(3-5) by simp
    qed
  qed
qed

fun arriving :: "http_config \<Rightarrow> client_request \<Rightarrow> http_method \<Rightarrow> http_handler \<Rightarrow> http_connection \<Rightarrow> http_connection \<Rightarrow> unit \<Rightarrow> bool" where
  "arriving env cr m h c0 c () \<longleftrightarrow> can_serve env cr m h c0 \<and> request_arrives env cr m h c0 c"

lemma arrives_update [simp]:
  "request_arrives env cr m h c0 (c\<lparr>evt_read := e\<rparr>) = request_arrives env cr m h c0 c"
  "request_arrives env cr m h c0 (c\<lparr>reads := rs\<rparr>) = request_arrives env cr m h c0 c"
  by (simp_all add: request_arrives_def awaits_body_def request_here_def same_requests_def one_more_def)

text \<open>In every phase something is waited for, or the buffer has gone to the request.\<close>

lemma arrives_waits:
  assumes can: "can_serve env cr m h c0" and a: "request_arrives env cr m h c0 c"
  shows "\<not> tls c" "\<exists>nb. rnb c = Some nb \<and> (nb_buf nb = None \<or> (\<exists>k b cb t. receiving c True cb b k t \<and> k < b))"
proof -
  have s: "sendable env cr" "0 < NETBUF_SEND_PAYLOAD_MAX env" using can by (simp_all add: can_serve_def)
  have lt: "length (request_text cr) \<le> http_header_max env" "0 < length (request_text cr)"
    using s(1) request_text_parts(3) [OF s(1)] by (simp_all add: sendable_def)
  have w: "\<exists>nb. rnb c = Some nb \<and> (nb_buf nb = None \<or> (\<exists>k b cb t. receiving c True cb b k t \<and> k < b))"
    if "receiving c True cb b k t" "k < b" for cb b k t
    using that receiving_bytes [OF that(1)] by blast
  show "\<not> tls c" using a by (simp add: request_arrives_def)
  show "\<exists>nb. rnb c = Some nb \<and> (nb_buf nb = None \<or> (\<exists>k b cb t. receiving c True cb b k t \<and> k < b))"
    using a [unfolded request_arrives_def]
  proof (elim conjE disjE exE)
    fix k assume "receiving c True Header_Recv (http_header_max env) k (request_text cr @ cr_body cr)" "k < length (request_text cr)"
    then show ?thesis using w lt(1) by fastforce
  next
    fix k assume "awaits_body env c (next_request c0) (cr_body cr) k"
    then have "receiving c True Body_Recv (min (length (cr_body cr) - k) (NETBUF_SEND_PAYLOAD_MAX env)) 0 (drop k (cr_body cr))"
      "0 < min (length (cr_body cr) - k) (NETBUF_SEND_PAYLOAD_MAX env)" using s(2) by (simp_all add: awaits_body_def)
    then show ?thesis using w by blast
  next
    fix nb assume "rnb c = Some nb" "nb_buf nb = None" then show ?thesis by blast
  next
    assume "receiving c True Header_Recv (http_header_max env) 0 []"
    then show ?thesis using w lt by fastforce
  qed
qed

text \<open>The callback takes a request to a later phase, whatever it was given.\<close>

lemma arrives_step:
  assumes can: "can_serve env cr m h c0" and a: "request_arrives env cr m h c0 c" and r: "receiving c al cb b k t"
    and r1: "receiving (c\<lparr>sock_in := drop k1 t, rnb := Some nb1\<rparr>) al cb b k1 t"
  shows "al \<and> (\<exists>c2. http_run_cb env cb (c\<lparr>sock_in := drop k1 t, rnb := Some nb1\<rparr>) = Some (Inr (True, c2)) \<and>
    request_arrives env cr m h c0 c2 \<and> reads c2 = reads c \<and> evt_read c2 = evt_read c \<and> sock_in c2 = drop k1 t)"
proof -
  let ?c1 = "c\<lparr>sock_in := drop k1 t, rnb := Some nb1\<rparr>" and ?r = "next_request c0" and ?body = "cr_body cr"
  have tls: "\<not> tls c" using a by (simp add: request_arrives_def)
  have s: "sendable env cr" "0 < NETBUF_SEND_PAYLOAD_MAX env" "\<forall>bs. write_ok env bs" "length ?body \<le> BUF_MAX" "?r \<notin> set (http_requests_sleeping c0)"
    using can body_bound by (auto simp: can_serve_def stores_bodies_def)
  have nbuf: "\<exists>nb. rnb c = Some nb \<and> nb_buf nb \<noteq> None" using r by (auto simp: receiving_def)
  consider (header) k0 where "receiving c True Header_Recv (http_header_max env) k0 (request_text cr @ ?body)" "same_requests c0 c"
    | (body) k0 where "awaits_body env c ?r ?body k0" "one_more c0 c" "is_request (requests c ?r) cr m h"
        "http_requests c = http_requests c0" "http_requests_sleeping c = http_requests_sleeping c0 @ [?r]"
    | (done_) "request_here env cr m h c0 c" "receiving c True Header_Recv (http_header_max env) 0 []"
    using a nbuf unfolding request_arrives_def by auto
  then show ?thesis
  proof cases
    case header
    have u: "al" "cb = Header_Recv" "b = http_header_max env" "t = request_text cr @ ?body" using receiving_unique [OF header(1) r] by auto
    have "same_requests c0 ?c1" "\<not> tls ?c1" using header(2) tls by (simp_all add: same_requests_def)
    then show ?thesis using header_step [OF can, of ?c1 k1] r1 u by (auto simp: http_run_cb_def)
  next
    case body
    let ?b = "min (length ?body - k0) (NETBUF_SEND_PAYLOAD_MAX env)"
    have r0: "receiving c True Body_Recv ?b 0 (drop k0 ?body)" using body(1) by (simp add: awaits_body_def)
    have u: "al" "cb = Body_Recv" "b = ?b" "t = drop k0 ?body" using receiving_unique [OF r0 r] by auto
    have "receiving ?c1 True Body_Recv ?b k1 (drop k0 ?body)" using r1 u by simp
    then obtain c2 where c2: "http_body_recv env ?c1 = Some (Inr (True, c2))" "same_others ?r ?c1 c2" "is_request (requests c2 ?r) cr m h"
      "if k0 + k1 < length ?body
       then awaits_body env c2 ?r ?body (k0 + k1) \<and> http_requests c2 = http_requests c \<and> http_requests_sleeping c2 = http_requests_sleeping c
       else request_done env (requests c2 ?r) ?body \<and> receiving c2 True Header_Recv (http_header_max env) 0 [] \<and>
         http_requests c2 = http_requests c @ [?r] \<and> http_requests_sleeping c2 = remove1 ?r (http_requests_sleeping c)"
      using body_recv_ok [OF body(1) s(4,2,3) _ _ body(3), where ?c1.0 = ?c1 and j = k1 and ?nb1.0 = nb1] u(4) by auto
    have o: "one_more c0 c2" "reads c2 = reads c \<and> evt_read c2 = evt_read c \<and> sock_in c2 = drop k1 t" "\<not> tls c2" using c2(2) body(2) tls by (auto simp: one_more_def same_others_def)
    have e: "sock_in c2 = []" "\<exists>nb. rnb c2 = Some nb" if "receiving c2 True Header_Recv (http_header_max env) 0 []" using that by (auto simp: receiving_def)
    have "request_arrives env cr m h c0 c2"
      using rnb_readyI(1) [of c2 Header_Recv] c2(3,4) o(1,3) body(4,5) s(5) e by (auto simp: request_arrives_def request_here_def remove1_append split: if_splits)
    then show ?thesis using u(1,2) c2(1) o(2) by (simp add: http_run_cb_def)
  next
    case done_
    have u: "al" "cb = Header_Recv" "b = http_header_max env" "t = []" using receiving_unique [OF done_(2) r] by auto
    have k1: "k1 = 0" using r1 u(4) by (auto simp: receiving_def)
    have r2: "receiving ?c1 True Header_Recv (http_header_max env) 0 []" using r1 u k1 by simp
    have he: "header_end [] = Inr None" by (simp add: header_end_eq)
    obtain nb buf where "recv_bytes ?c1 = Inr (nb, buf, [])" using receiving_bytes [OF r2] by auto
    then have "http_header_recv env ?c1 = Some (Inr (True, ?c1))" using header_recv_part [OF _ he] by blast
    moreover have "request_arrives env cr m h c0 ?c1" using done_(1) r2 rnb_readyI(1) [OF r2] tls u(4) by (simp add: request_arrives_def request_here_def one_more_def)
    ultimately show ?thesis using u(1,2) by (simp add: http_run_cb_def)
  qed
qed

interpretation http: recv_protocol "http_run_cb env" "arriving env cr m h c0" "\<lambda>_ _. True"
proof unfold_locales
  fix c x assume "arriving env cr m h c0 c x"
  then show "\<not> tls c \<and> (\<exists>nb. rnb c = Some nb \<and> (nb_buf nb = None \<or> (\<exists>al cb b k t. receiving c al cb b k t \<and> k < b)))"
    using arrives_waits [of env cr m h c0 c] by (cases x) (simp, blast)
next
  fix c x nb assume "arriving env cr m h c0 c x" "rnb c = Some nb" "nb_buf nb = None"
  then show "sock_in c = []" by (cases x) (auto simp: request_arrives_def awaits_body_def receiving_def)
next
  fix c :: http_connection and x cb b k t k1 nb1
  assume "arriving env cr m h c0 c x" "receiving c False cb b k t" "receiving (c\<lparr>sock_in := drop k1 t, rnb := Some nb1\<rparr>) False cb b k1 t"
  then show "arriving env cr m h c0 (c\<lparr>sock_in := drop k1 t, rnb := Some nb1\<rparr>) x"
    using arrives_step [where env = env and cr = cr and m = m and h = h and ?c0.0 = c0 and c = c and al = False and cb = cb and b = b and k = k and t = t and ?k1.0 = k1 and ?nb1.0 = nb1] by (cases x) simp
next
  fix c :: http_connection and x al cb b k t k1 nb1
  assume "arriving env cr m h c0 c x" "receiving c al cb b k t" "receiving (c\<lparr>sock_in := drop k1 t, rnb := Some nb1\<rparr>) al cb b k1 t"
  then show "\<exists>c2 y. http_run_cb env cb (c\<lparr>sock_in := drop k1 t, rnb := Some nb1\<rparr>) = Some (Inr (True, c2)) \<and>
      arriving env cr m h c0 c2 y \<and> True \<and> reads c2 = reads c \<and> evt_read c2 = evt_read c \<and> sock_in c2 = drop k1 t"
    using arrives_step [where env = env and cr = cr and m = m and h = h and ?c0.0 = c0 and c = c and al = al and cb = cb and b = b and k = k and t = t and ?k1.0 = k1 and ?nb1.0 = nb1] by (cases x) (auto intro!: exI [of _ "()"])
next
  fix c e x show "arriving env cr m h c0 (c\<lparr>evt_read := e\<rparr>) x = arriving env cr m h c0 c x" by (cases x) simp
next
  fix c rs x show "arriving env cr m h c0 (c\<lparr>reads := rs\<rparr>) x = arriving env cr m h c0 c x" by (cases x) simp
qed simp_all

lemma request_received_socket:
  assumes "can_serve env cr m h c0" "receiving c0 True Header_Recv (http_header_max env) 0 (request_text cr @ cr_body cr)" "\<not> tls c0"
    "\<forall>rs \<in> set rss. list_all no_failure rs"
  shows "\<exists>c'. recv_rounds (http_recv env) rss c0 = Some (Inr (True, c')) \<and> (list_all no_failure (reads c0) \<longrightarrow> list_all no_failure (reads c')) \<and>
    (sock_in c' = [] \<or> length (sock_in c0) \<le> sum_list (map gives rss) \<longrightarrow> request_here env cr m h c0 c')"
proof -
  have "0 < length (request_text cr)" using assms(1) request_text_parts(3) [of env cr] by (simp add: can_serve_def)
  then have "arriving env cr m h c0 c0 ()" using assms(1-3) by (auto simp: request_arrives_def same_requests_def)
  then obtain c' where c': "recv_rounds (net_recv_flush (http_run_cb env) no_disconnect) rss c0 = Some (Inr (True, c'))" "request_arrives env cr m h c0 c'"
    "length (sock_in c') \<le> length (sock_in c0) - sum_list (map gives rss)" "list_all no_failure (reads c0) \<longrightarrow> list_all no_failure (reads c')"
    using http.recv_rounds_hold [OF _ assms(4), of env cr m h c0 c0 "()" no_disconnect] by auto
  have "request_here env cr m h c0 c'" if "sock_in c' = []"
    using c'(2) that by (auto simp: request_arrives_def awaits_body_def receiving_def)
  moreover have "sock_in c' = []" if "length (sock_in c0) \<le> sum_list (map gives rss)" using c'(3) that by simp
  ultimately show ?thesis using c'(1,4) by (auto simp: http_recv_def)
qed

lemma request_received:
  assumes "can_serve env cr m h c0" "receiving c0 True Header_Recv (http_header_max env) 0 (request_text cr @ cr_body cr)" "\<not> tls c0"
    "\<forall>rs \<in> set rss. list_all no_failure rs"
  shows "\<exists>c'. recv_rounds (http_recv env) rss c0 = Some (Inr (True, c')) \<and>
    (sock_in c' = [] \<or> length (sock_in c0) \<le> sum_list (map gives rss) \<longrightarrow> request_here env cr m h c0 c')"
  using request_received_socket [OF assms] by blast

text \<open>
  C6: a request in the form a client sends it - the line with the method, the path, the query and the version, the
  header with the host, any other headers, the empty line and the body that was announced - arrives as it was sent,
  however its bytes are cut into reads and whatever interruptions there are: nothing is refused and nothing faults,
  and when every byte has been read - at the latest when as many reads as there are bytes have given something - there is one request more, awake and complete, with this method, host, path,
  query, these headers in order and the handler of the host and the path; its body, in a buffer or a file, is ready to be
  read from the start and its digest is that of the body.
\<close>

theorem request_is_received:
  assumes "can_serve env cr m h c0" "receiving c0 True Header_Recv (http_header_max env) 0 (request_text cr @ cr_body cr)" "\<not> tls c0"
    "\<forall>rs \<in> set rss. list_all no_failure rs"
  shows "\<exists>c'. recv_rounds (http_recv env) rss c0 = Some (Inr (True, c')) \<and>
    (sock_in c' = [] \<or> length (sock_in c0) \<le> sum_list (map gives rss) \<longrightarrow> request_here env cr m h c0 c')"
  by (rule request_received [OF assms])

section \<open>More than the body\<close>

text \<open>
  When more bytes than the body come in the read that completes the header, the count of the bytes still to come
  goes below zero.
\<close>

text \<open>
  C40: the number of bytes of a body that are still to come is computed without a check (line 826): when the read that
  completes the header brings more than the body, by as little as a line end after it, the count wraps, and the request,
  whose body is all there, is put to sleep until some 2 to the 64 bytes more arrive.
\<close>

theorem extra_bytes_stall:
  assumes "http_request_header (requests c r) (cstr ''content-length'') = Some v" "kore_strtonum v 10 0 LLONG_MAX = Some n"
    "0 < n" "n \<le> http_body_max env" "http_body_disk_offload env \<le> 0" "n < int (length start)" "length start \<le> BUF_MAX"
    "rnb c = Some nb" "nb_buf nb = None" "\<not> rq_complete (requests c r)" "\<not> rq_sleeping (requests c r)"
  shows "\<exists>c' b. expect_body env r start c = Some (Inr (True, c')) \<and> rq_sleeping (requests c' r) \<and> \<not> rq_complete (requests c' r) \<and>
    http_body (requests c' r) = Some b \<and> buf_holds b start \<and>
    content_length (requests c' r) = 2 ^ 64 - (int (length start) - n)"
proof -
  let ?pm = "NETBUF_SEND_PAYLOAD_MAX env"
  obtain b where b: "kore_buf_append start (kore_buf_alloc n) = Inr b" "buf_holds b start"
    using buf_append_holds [OF buf_alloc_holds(2), of n start] assms(3,6,7) by (auto simp: BUF_MAX_def)
  define left where "left = (n - int (length start)) mod 2 ^ 64"
  have "left = (n - int (length start) + 2 ^ 64) mod 2 ^ 64" by (simp add: left_def)
  also have "\<dots> = n - int (length start) + 2 ^ 64" using assms(3,6,7) by (intro mod_pos_pos_trivial) (simp_all add: BUF_MAX_def)
  finally have left: "left = 2 ^ 64 - (int (length start) - n)" by simp
  then have l0: "left > 0" using assms(3,7) by (simp add: BUF_MAX_def)
  let ?c = "set_req r (hashed_update (\<lambda>_. start)) (set_req r (\<lambda>q. q\<lparr>http_body_fd := None, http_body := Some b\<rparr>)
    (set_req r (http_body_length_update (\<lambda>_. n)) (set_req r (content_length_update (\<lambda>_. n)) c)))"
  have f: "(http_body_max env = 0) = False" "(n = 0) = False" "(n > http_body_max env) = False" using assms(3,4) by simp_all
  have st: "store_body env r start (set_req r (http_body_length_update (\<lambda>_. n)) (set_req r (content_length_update (\<lambda>_. n)) c)) =
      Some (Inr (None, set_req r (\<lambda>q. q\<lparr>http_body_fd := None, http_body := Some b\<rparr>)
        (set_req r (http_body_length_update (\<lambda>_. n)) (set_req r (content_length_update (\<lambda>_. n)) c))))"
    using assms(5) b(1) by (simp add: store_body_def set_req_def)
  have "rnb ?c = Some nb" "sock_in ?c = sock_in c" using assms(8) by (simp_all add: set_req_def)
  then obtain c4 nb4 where c4: "net_recv_reset ?pm (nat (min left (int ?pm))) Body_Recv ?c = Inr c4" "c4 = ?c\<lparr>rnb := Some nb4\<rparr>"
    using reset_receiving [of ?c nb "sock_in c" ?pm "nat (min left (int ?pm))" Body_Recv] assms(9) by auto
  let ?d = "set_req r (content_length_update (\<lambda>_. left)) (http_request_sleep r (c4\<lparr>rnb_extra := Some r\<rparr>))"
  have "expect_body env r start c = Some (Inr (True, ?d))"
    unfolding expect_body_def Let_def assms(1) option.case assms(2) f if_False st co_bind_simps prod.case left_def [symmetric] c4(1)
    using l0 by simp
  moreover have "rq_sleeping (requests ?d r)" "\<not> rq_complete (requests ?d r)" "http_body (requests ?d r) = Some b" "content_length (requests ?d r) = left"
    using assms(10,11) by (simp_all add: c4(2) http_request_sleep_def set_req_def)
  ultimately show ?thesis using b(2) left by auto
qed

section \<open>An example\<close>

definition sample_handler :: http_handler where
  "sample_handler = \<lparr>methods = [GET, POST], params = []\<rparr>"

definition sample_config :: http_config where
  "sample_config = \<lparr>http_request_limit = 10, http_body_max = 1000, http_header_max = 4096, http_keepalive_time = 20, http_hsts_enable = 0,
     http_body_disk_offload = 0, http_body_disk_path = [], http_version = [], KORE_DOMAINNAME_LEN = 255, HTTP_URI_LEN = 2000,
     HTTP_REQ_HEADER_MAX = 25, HTTP_BODY_PATH_MAX = 256, HTTP_MAX_QUERY_ARGS = 20, HTTP_MAX_COOKIES = 10, HTTP_BOUNDARY_MAX = 80,
     NETBUF_SEND_PAYLOAD_MAX = 8192, code = (\<lambda>_. 500), kore_module_handler_find = (\<lambda>_ _. Some sample_handler),
     kore_validator_check = (\<lambda>_ _. True), mkstemp = (\<lambda>t. Some t), write_ok = (\<lambda>_. True), sha256 = (\<lambda>bs. bs), cookie_date = (\<lambda>_. None)\<rparr>"

definition sample_request :: client_request where
  "sample_request = \<lparr>cr_method = cstr ''POST'', cr_path = cstr ''/a'', cr_query = Some (cstr ''x=1''), cr_version = cstr ''HTTP/1.1'',
     cr_host = cstr ''h'', cr_headers = [(cstr ''Content-Length'', cstr ''2'')], cr_body = [104, 105]\<rparr>"

definition sample_start :: "u8 list \<Rightarrow> http_request \<Rightarrow> http_connection" where
  "sample_start t q = \<lparr>send_queue = [], snb = False, rnb = Some (net_netbuf_get\<lparr>nb_cb := Some Header_Recv, nb_buf := Some (malloc_cells 4096), b_len := 4096,
     m_len := 4096, nb_always := True\<rparr>), evt_read = False, evt_write = False, close_empty = False, disconnecting = False, tls = False, tls_reneg = 0,
     sock_out = [], sock_in = t, writes = [], reads = [], finished = [], proto_http = True, inet6 = False, rnb_extra = None, requests = (\<lambda>_. q),
     http_requests = [], http_requests_sleeping = [], conn_requests = [], http_request_count = 0, next_request = 0, stale = q\<rparr>"

lemma sample_can_serve: "can_serve sample_config sample_request POST sample_handler (sample_start t q)"
  unfolding can_serve_def
proof (intro conjI)
  show "sendable sample_config sample_request"
    by (simp add: sendable_def word_text_def clean_def cr_target_def header_ok_def request_text_def request_lines_def header_line_def
      token_char_def separators_def field_char_def is_white_def same_text_def tolower_def sample_config_def sample_request_def)
  show "served_by sample_config (inet6 (sample_start t q)) sample_request POST sample_handler"
    by (simp add: served_by_def method_of_def same_text_def tolower_def host_name_def sample_config_def sample_request_def sample_handler_def sample_start_def)
  have "kore_strtonum (cstr ''2'') 10 0 LLONG_MAX = Some 2" by code_simp
  then show "body_announced sample_config sample_request POST"
    by (simp add: body_announced_def has_body_def same_text_def tolower_def BUF_MAX_def sample_config_def sample_request_def)
qed (simp_all add: stores_bodies_def sample_config_def sample_start_def)

theorem request_is_received_witness:
  "\<forall>q. \<exists>c'. recv_rounds (http_recv sample_config) [[Io_Bytes 7, Io_EINTR, Io_Bytes 40], replicate 66 (Io_Bytes 3)]
      (sample_start (request_text sample_request @ [104, 105]) q) = Some (Inr (True, c')) \<and>
    req_path (requests c' 0) = cstr ''/a'' \<and> query_string (requests c' 0) = Some (cstr ''x=1'') \<and> rq_complete (requests c' 0) \<and>
    http_body_digest (requests c' 0) = [104, 105] \<and> http_requests c' = [0]"
proof
  fix q
  let ?t = "request_text sample_request @ [104, 105]" and ?rss = "[[Io_Bytes 7, Io_EINTR, Io_Bytes 40], replicate 66 (Io_Bytes 3)]"
  let ?c = "sample_start ?t q"
  have b: "cr_body sample_request = [104, 105]" by (simp add: sample_request_def)
  have r: "receiving ?c True Header_Recv (http_header_max sample_config) 0 (request_text sample_request @ cr_body sample_request)" "\<not> tls ?c"
    by (simp_all add: receiving_def sample_start_def sample_config_def net_netbuf_get_def malloc_cells_def b)
  have f: "\<forall>rs \<in> set ?rss. list_all no_failure rs" by (simp add: numeral_eq_Suc)
  have "length ?t \<le> 68" by (simp add: request_text_def request_lines_def header_line_def cr_target_def sample_request_def)
  moreover have "sum_list (map gives ?rss) = 68" by (simp add: numeral_eq_Suc)
  ultimately have n: "length (sock_in ?c) \<le> sum_list (map gives ?rss)" by (simp add: sample_start_def)
  obtain c' where c': "recv_rounds (http_recv sample_config) ?rss ?c = Some (Inr (True, c'))" "request_here sample_config sample_request POST sample_handler ?c c'"
    using request_is_received [OF sample_can_serve r f] n by blast
  have "next_request ?c = 0" "http_requests ?c = []" by (simp_all add: sample_start_def)
  then have "req_path (requests c' 0) = cstr ''/a'' \<and> query_string (requests c' 0) = Some (cstr ''x=1'') \<and> rq_complete (requests c' 0) \<and>
      http_body_digest (requests c' 0) = [104, 105] \<and> http_requests c' = [0]"
    using c'(2) b by (auto simp: request_here_def is_request_def request_done_def sample_request_def sample_config_def)
  then show "\<exists>c'. recv_rounds (http_recv sample_config) ?rss ?c = Some (Inr (True, c')) \<and>
    req_path (requests c' 0) = cstr ''/a'' \<and> query_string (requests c' 0) = Some (cstr ''x=1'') \<and> rq_complete (requests c' 0) \<and>
    http_body_digest (requests c' 0) = [104, 105] \<and> http_requests c' = [0]" using c'(1) by blast
qed

theorem extra_bytes_stall_witness:
  "\<forall>q. \<exists>c' b. expect_body sample_config 0 [104, 105, 10]
      (sample_start [] (q\<lparr>req_headers := [(cstr ''content-length'', cstr ''2'')], rq_complete := False, rq_sleeping := False\<rparr>)\<lparr>rnb := Some net_netbuf_get\<rparr>) =
      Some (Inr (True, c')) \<and>
    rq_sleeping (requests c' 0) \<and> \<not> rq_complete (requests c' 0) \<and> http_body (requests c' 0) = Some b \<and> buf_holds b [104, 105, 10] \<and>
    content_length (requests c' 0) = 2 ^ 64 - 1"
proof
  fix q
  let ?c = "sample_start [] (q\<lparr>req_headers := [(cstr ''content-length'', cstr ''2'')], rq_complete := False, rq_sleeping := False\<rparr>)\<lparr>rnb := Some net_netbuf_get\<rparr>"
  have h: "http_request_header (requests ?c 0) (cstr ''content-length'') = Some (cstr ''2'')"
    by (simp add: http_request_header_def sample_start_def same_text_def)
  have n: "kore_strtonum (cstr ''2'') 10 0 LLONG_MAX = Some 2" by code_simp
  have o: "(0 :: int) < 2" "2 \<le> http_body_max sample_config" "http_body_disk_offload sample_config \<le> 0" "(2 :: int) < int (length [104, 105, 10 :: u8])"
    "length [104, 105, 10 :: u8] \<le> BUF_MAX" "rnb ?c = Some net_netbuf_get" "nb_buf net_netbuf_get = None" "\<not> rq_complete (requests ?c 0)"
    "\<not> rq_sleeping (requests ?c 0)"
    by (simp_all add: sample_config_def sample_start_def net_netbuf_get_def BUF_MAX_def)
  show "\<exists>c' b. expect_body sample_config 0 [104, 105, 10] ?c = Some (Inr (True, c')) \<and> rq_sleeping (requests c' 0) \<and> \<not> rq_complete (requests c' 0) \<and>
      http_body (requests c' 0) = Some b \<and> buf_holds b [104, 105, 10] \<and> content_length (requests c' 0) = 2 ^ 64 - 1"
    using extra_bytes_stall [OF h n o] by simp
qed

end
