(* ===== verification/Kore_Http_Args.thy ===== *)
theory Kore_Http_Args
  imports Kore_Http_Recv
begin

text \<open>
  What a page reads of a request, from \<open>kore-3.2.0/src/http.c\<close>: its body, the arguments in the query and in the body
  of a form, the cookies, and the fields and files of a form in parts. The buffers of this code, to which bytes are
  only appended and from whose start bytes are taken, are the lists of their bytes (\<open>Kore_Buf\<close> shows that they are).
\<close>

section \<open>The body\<close>

text \<open>
  \<open>http_body_read\<close>: the bytes that were read, or \<open>None\<close> for an error. A file gives what it has from its position on.
\<close>

definition read_cells :: "kore_buf \<Rightarrow> nat \<Rightarrow> nat \<Rightarrow> u8 list c_result" where
  "read_cells b off n =
     (let bs = take n (drop off (cells_of b)) in
      if length bs < n then Inl Out_Of_Bounds else if None \<in> set bs then Inl Uninitialised else Inr (map the bs))"

definition http_body_read :: "nat \<Rightarrow> http_request \<Rightarrow> (u8 list option \<times> http_request) c_result" where
  "http_body_read len req =
     (let toread = nat (min (http_body_length req) (int len));
          took = (\<lambda>bs req. Inr (Some bs, req\<lparr>http_body_length := http_body_length req - int (length bs),
            http_body_offset := http_body_offset req + int (length bs)\<rparr>)) in
      if toread = 0 then Inr (Some [], req)
      else
        case http_body_fd req of
          Some (f, pos) \<Rightarrow>
            let bs = take toread (drop pos f) in
            if bs = [] then Inr (Some [], req) else took bs (req\<lparr>http_body_fd := Some (f, pos + length bs)\<rparr>)
        | None \<Rightarrow>
            (case http_body req of
               Some b \<Rightarrow>
                 c_bind (read_cells b (nat (buf_offset b)) toread) (\<lambda>bs.
                 took bs (req\<lparr>http_body := Some (b\<lparr>buf_offset := buf_offset b + int toread\<rparr>)\<rparr>))
             | None \<Rightarrow> Inr (None, req)))"

text \<open>
  \<open>http_file_read\<close>, on a file of the request; the sums of sizes wrap. The body in a file is read from the place the
  file position is moved to, which has to be a positive \<open>off_t\<close>.
\<close>

definition http_file_read :: "http_file \<Rightarrow> nat \<Rightarrow> http_request \<Rightarrow> (u8 list option \<times> http_file \<times> http_request) c_result" where
  "http_file_read f len req =
     (let sum = (\<lambda>a b. (a + b) mod 2 ^ 64) in
      if f_length f < f_offset f \<or> sum (f_offset f) (int len) < f_offset f \<or> sum (f_position f) (f_offset f) < f_position f then Inr (None, f, req)
      else
        let off = sum (f_position f) (f_offset f); toread = nat (min (int len) (f_length f - f_offset f));
            took = (\<lambda>bs req. Inr (Some bs, f\<lparr>f_offset := f_offset f + int (length bs)\<rparr>, req)) in
        if toread = 0 then Inr (Some [], f, req)
        else
          case http_body_fd req of
            Some (d, _) \<Rightarrow>
              if off > LLONG_MAX then Inr (None, f, req)
              else
                let bs = take toread (drop (nat off) d); req = req\<lparr>http_body_fd := Some (d, nat off + length bs)\<rparr> in
                if bs = [] then Inr (Some [], f, req) else took bs req
          | None \<Rightarrow>
              (case http_body req of
                 Some b \<Rightarrow> if off > buf_length b then Inr (Some [], f, req) else c_bind (read_cells b (nat off) toread) (\<lambda>bs. took bs req)
               | None \<Rightarrow> Inr (None, f, req)))"

definition http_file_rewind :: "http_file \<Rightarrow> http_file" where
  "http_file_rewind f = f\<lparr>f_offset := 0\<rparr>"

definition http_file_lookup :: "http_request \<Rightarrow> u8 list \<Rightarrow> http_file option" where
  "http_file_lookup req name = find (\<lambda>f. f_name f = name) (files req)"

section \<open>Arguments\<close>

text \<open>
  The first parameter of the handler with the name decides. A name or a value that cannot be decoded is what the
  decoding left of it.
\<close>

definition takes_argument :: "http_request \<Rightarrow> bool \<Rightarrow> u8 list \<Rightarrow> http_param \<Rightarrow> bool" where
  "takes_argument req qs name p \<longleftrightarrow> param_qs p = qs \<and> param_method p = req_method req \<and> param_name p = name"

definition http_argument_add :: "http_config \<Rightarrow> u8 list \<Rightarrow> u8 list \<Rightarrow> bool \<Rightarrow> bool \<Rightarrow> http_request \<Rightarrow> http_request" where
  "http_argument_add env name val qs decode req =
     (let name = (if decode then snd (http_argument_urldecode name) else name) in
      case find (takes_argument req qs name) (params (hdlr req)) of
        None \<Rightarrow> req
      | Some p \<Rightarrow>
          let val = (if decode then snd (http_argument_urldecode val) else val) in
          if \<not> kore_validator_check env (param_validator p) val then req
          else req\<lparr>arguments := arguments req @ [(name, val)]\<rparr>)"

text \<open>The loop over the arguments of a query, and of a body in the same form.\<close>

definition add_argument :: "http_config \<Rightarrow> bool \<Rightarrow> u8 list \<Rightarrow> http_request \<Rightarrow> http_request" where
  "add_argument env qs arg req =
     (case kore_split_string arg (cstr ''='') 3 of
        name # val # _ \<Rightarrow> http_argument_add env name val qs True req
      | _ \<Rightarrow> req)"

definition add_arguments :: "http_config \<Rightarrow> bool \<Rightarrow> u8 list \<Rightarrow> http_request \<Rightarrow> http_request" where
  "add_arguments env qs text req = fold (add_argument env qs) (kore_split_string text (cstr ''&'') (HTTP_MAX_QUERY_ARGS env)) req"

definition http_populate_qs :: "http_config \<Rightarrow> http_request \<Rightarrow> http_request" where
  "http_populate_qs env req = (case query_string req of None \<Rightarrow> req | Some query \<Rightarrow> add_arguments env True query req)"

text \<open>A string in memory of which some bytes may never have been written.\<close>

fun cells_string :: "cells \<Rightarrow> u8 list c_result" where
  "cells_string [] = Inl Out_Of_Bounds"
| "cells_string (None # _) = Inl Uninitialised"
| "cells_string (Some c # cs) = (if c = 0 then Inr [] else c_bind (cells_string cs) (\<lambda>s. Inr (c # s)))"

abbreviation (input) BUFSIZ :: nat where "BUFSIZ \<equiv> 8192"

partial_function (option) read_body :: "u8 list \<Rightarrow> http_request \<Rightarrow> (u8 list option \<times> http_request) c_result option" where
  "read_body body req =
     co_bind (Some (http_body_read BUFSIZ req)) (\<lambda>r.
     if fst r = None then Some (Inr (None, snd r))
     else if the (fst r) = [] then Some (Inr (Some body, snd r))
     else read_body (body @ the (fst r)) (snd r))"

definition http_populate_post :: "http_config \<Rightarrow> http_request \<Rightarrow> http_request c_result option" where
  "http_populate_post env req =
     (if req_method req \<noteq> POST then Some (Inr req)
      else
        case http_body req of
          Some b \<Rightarrow>
            co_bind (Some (kore_buf_stringify (b\<lparr>buf_offset := content_length req\<rparr>))) (\<lambda>(_, b).
            co_bind (Some (cells_string (cells_of b))) (\<lambda>string.
            Some (Inr (add_arguments env False string (req\<lparr>http_body := Some b\<rparr>)))))
        | None \<Rightarrow>
            co_bind (read_body [] req) (\<lambda>(body, req).
            case body of
              None \<Rightarrow> Some (Inr req)
            | Some body \<Rightarrow> Some (Inr (add_arguments env False (takeWhile (\<lambda>c. c \<noteq> 0) body) req))))"

section \<open>Cookies\<close>

definition add_cookie :: "u8 list \<Rightarrow> http_request \<Rightarrow> http_request" where
  "add_cookie cookie req =
     (let pair = kore_split_string (dropWhile is_white cookie) (cstr ''='') 3 in
      if length pair \<noteq> 2 then req else req\<lparr>req_cookies := req_cookies req @ [(pair ! 0, pair ! 1)]\<rparr>)"

definition http_populate_cookies :: "http_config \<Rightarrow> http_request \<Rightarrow> http_request" where
  "http_populate_cookies env req =
     (case http_request_header req (cstr ''cookie'') of
        None \<Rightarrow> req
      | Some hdr \<Rightarrow> fold add_cookie (kore_split_string hdr (cstr '';'') (HTTP_MAX_COOKIES env)) req)"

definition http_request_cookie :: "http_request \<Rightarrow> u8 list \<Rightarrow> u8 list option" where
  "http_request_cookie req cookie = map_option snd (find (\<lambda>(n, _). same_text n cookie) (req_cookies req))"

definition http_response_cookie :: "u8 list \<Rightarrow> u8 list \<Rightarrow> u8 list option \<Rightarrow> int \<Rightarrow> int \<Rightarrow> http_request \<Rightarrow> http_request" where
  "http_response_cookie name val path expires maxage req =
     req\<lparr>resp_cookies := resp_cookies req @
       [\<lparr>ck_name = name, ck_value = val, ck_path = path, ck_domain = Some (strrchr_before (req_host req) 0x3a),
         ck_expires = expires, ck_maxage = maxage, ck_httponly = True, ck_secure = True\<rparr>]\<rparr>"

section \<open>Forms in parts\<close>

text \<open>
  \<open>multipart_find_data\<close>: the needle is looked for in the bytes that were read and those still to come. What stands
  before it is the second result, which goes to \<open>out\<close> and is counted in \<open>olen\<close> when they are not NULL.
\<close>

partial_function (option) find_data ::
  "u8 list \<Rightarrow> u8 list \<Rightarrow> u8 list \<Rightarrow> http_request \<Rightarrow> (bool \<times> u8 list \<times> u8 list \<times> http_request) c_result option" where
  "find_data needle inb out req =
     (if length inb < length needle then
        co_bind (Some (http_body_read 4096 req)) (\<lambda>r.
        if fst r = None \<or> fst r = Some [] then Some (Inr (False, inb, out, snd r))
        else find_data needle (inb @ the (fst r)) out (snd r))
      else
        co_bind (Some (kore_mem_find (map Some inb) (take 1 needle) 1)) (\<lambda>r.
        if r = None then find_data needle [] (out @ inb) req
        else let p = nat (the r); left = length inb - p in
          if left < length needle then find_data needle (drop p inb) (out @ take p inb) req
          else if take (length needle) (drop p inb) = needle then Some (Inr (True, drop (p + length needle) inb, out @ take p inb, req))
          else find_data needle (drop (p + 1) inb) (out @ take (p + 1) inb) req))"

definition multipart_find_data :: "u8 list \<Rightarrow> u8 list \<Rightarrow> http_request \<Rightarrow> (bool \<times> u8 list \<times> u8 list \<times> http_request) c_result option" where
  "multipart_find_data needle inb req = find_data needle inb [] req"

definition multipart_add_field ::
  "http_config \<Rightarrow> u8 list \<Rightarrow> u8 list \<Rightarrow> u8 list \<Rightarrow> http_request \<Rightarrow> (u8 list \<times> http_request) c_result option" where
  "multipart_add_field env name boundary inb req =
     co_bind (multipart_find_data boundary inb req) (\<lambda>(ok, inb, data, req).
     if \<not> ok \<or> length data < 3 then Some (Inr (inb, req))
     else
       let string = takeWhile (\<lambda>c. c \<noteq> 0) (take (length data - 2) data) in
       Some (Inr (inb, http_argument_add env name string False False req)))"

definition multipart_file_add ::
  "u8 list \<Rightarrow> u8 list \<Rightarrow> u8 list \<Rightarrow> u8 list \<Rightarrow> http_request \<Rightarrow> (u8 list \<times> http_request) c_result option" where
  "multipart_file_add name fname boundary inb req =
     (let position = http_body_offset req - int (length inb) in
      co_bind (multipart_find_data boundary inb req) (\<lambda>(ok, inb, data, req).
      if \<not> ok \<or> length data < 3 then Some (Inr (inb, req))
      else
        Some (Inr (inb, req\<lparr>files := files req @
          [\<lparr>f_name = name, f_filename = fname, f_position = position, f_offset = 0, f_length = int (length data) - 2\<rparr>]\<rparr>))))"

text \<open>
  One line of the header of a part. \<open>strchr_from\<close> is \<open>strchr\<close>.
\<close>

definition strchr_from :: "u8 list \<Rightarrow> u8 \<Rightarrow> u8 list option" where
  "strchr_from s c = (case dropWhile (\<lambda>x. x \<noteq> c) s of [] \<Rightarrow> None | r \<Rightarrow> Some r)"

definition multipart_header ::
  "http_config \<Rightarrow> u8 list \<Rightarrow> u8 list \<Rightarrow> u8 list \<Rightarrow> http_request \<Rightarrow> (u8 list \<times> http_request) c_result option" where
  "multipart_header env boundary header inb req =
     (let args = kore_split_string header (cstr '':'') 5; skip = Some (Inr (inb, req)) in
      if length args \<noteq> 2 \<or> \<not> same_text (args ! 0) (cstr ''content-disposition'') then skip
      else
        let opt = kore_split_string (dropWhile is_white (args ! 1)) (cstr '';'') 5 in
        if length opt < 2 \<or> \<not> same_text (opt ! 0) (cstr ''form-data'') then skip
        else
          case strchr_from (opt ! 1) 0x3d of
            None \<Rightarrow> skip
          | Some val \<Rightarrow>
              if length val < 3 then skip
              else
                co_bind (Some (kore_strip_chars (tl val) 0x22)) (\<lambda>name.
                if length opt = 2 then multipart_add_field env name boundary inb req
                else
                  let d = dropWhile is_white (opt ! 2) in
                  if same_start 9 d (cstr ''filename='') then
                    (case strchr_from d 0x3d of
                       None \<Rightarrow> skip
                     | Some val \<Rightarrow>
                         co_bind (Some (kore_strip_chars (tl val) 0x22)) (\<lambda>fname.
                         if length fname > 0 then multipart_file_add name fname boundary inb req else skip))
                  else skip))"

fun multipart_headers ::
  "http_config \<Rightarrow> u8 list \<Rightarrow> u8 list list \<Rightarrow> u8 list \<Rightarrow> http_request \<Rightarrow> (u8 list \<times> http_request) c_result option" where
  "multipart_headers env boundary [] inb req = Some (Inr (inb, req))"
| "multipart_headers env boundary (h # hs) inb req =
     co_bind (multipart_header env boundary h inb req) (\<lambda>(inb, req). multipart_headers env boundary hs inb req)"

definition multipart_parse_headers ::
  "http_config \<Rightarrow> u8 list \<Rightarrow> u8 list \<Rightarrow> u8 list \<Rightarrow> http_request \<Rightarrow> (u8 list \<times> http_request) c_result option" where
  "multipart_parse_headers env boundary hbuf inb req =
     multipart_headers env boundary (kore_split_string (takeWhile (\<lambda>c. c \<noteq> 0) hbuf) crlf 5) inb req"

partial_function (option) multipart_loop :: "http_config \<Rightarrow> u8 list \<Rightarrow> u8 list \<Rightarrow> http_request \<Rightarrow> http_request c_result option" where
  "multipart_loop env boundary inb req =
     co_bind (multipart_find_data crlf inb req) (\<lambda>a.
     if \<not> fst a then Some (Inr (snd (snd (snd a))))
     else if length (fst (snd a)) < 4 \<and> http_body_length (snd (snd (snd a))) = 0 then Some (Inr (snd (snd (snd a))))
     else
       co_bind (multipart_find_data [13, 10, 13, 10] (fst (snd a)) (snd (snd (snd a)))) (\<lambda>b.
       if \<not> fst b then Some (Inr (snd (snd (snd b))))
       else
         co_bind (multipart_parse_headers env boundary (fst (snd (snd b))) (fst (snd b)) (snd (snd (snd b)))) (\<lambda>c.
         multipart_loop env boundary (fst c) (snd c))))"

definition http_populate_multipart_form :: "http_config \<Rightarrow> http_request \<Rightarrow> http_request c_result option" where
  "http_populate_multipart_form env req =
     (if req_method req \<noteq> POST then Some (Inr req)
      else
        case http_request_header req (cstr ''content-type'') of
          None \<Rightarrow> Some (Inr req)
        | Some hdr \<Rightarrow>
            let args = kore_split_string hdr (cstr '';'') 3 in
            if length args \<noteq> 2 \<or> \<not> same_text (args ! 0) (cstr ''multipart/form-data'') then Some (Inr req)
            else
              case strchr_from (args ! 1) 0x3d of
                None \<Rightarrow> Some (Inr req)
              | Some val \<Rightarrow>
                  let boundary = cstr ''--'' @ tl val in
                  if length boundary \<ge> HTTP_BOUNDARY_MAX env then Some (Inr req)
                  else
                    co_bind (multipart_find_data boundary [] req) (\<lambda>(ok, inb, _, req).
                    if \<not> ok then Some (Inr req) else multipart_loop env boundary inb req))"

section \<open>Reading\<close>

text \<open>The body \<open>body\<close> is there and \<open>k\<close> bytes of it have been read.\<close>

definition reading :: "u8 list \<Rightarrow> nat \<Rightarrow> http_request \<Rightarrow> bool" where
  "reading body k q \<longleftrightarrow> k \<le> length body \<and> http_body_length q = int (length body - k) \<and> http_body_offset q = int k \<and>
     (case http_body_fd q of
        Some (f, pos) \<Rightarrow> f = body \<and> pos = k
      | None \<Rightarrow> (\<exists>b. http_body q = Some b \<and> buf_offset b = int k \<and> int (length body) \<le> buf_length b \<and>
          take (length body) (cells_of b) = map Some body))"

definition same_page :: "http_request \<Rightarrow> http_request \<Rightarrow> bool" where
  "same_page q q' \<longleftrightarrow> (\<exists>b fd l off. q' = q\<lparr>http_body := b, http_body_fd := fd, http_body_length := l, http_body_offset := off\<rparr>)"

lemma same_page_refl [simp]: "same_page q q"
  unfolding same_page_def
  by (rule exI [of _ "http_body q"], rule exI [of _ "http_body_fd q"], rule exI [of _ "http_body_length q"], rule exI [of _ "http_body_offset q"]) simp

lemma same_page_trans: "same_page q q' \<Longrightarrow> same_page q' q'' \<Longrightarrow> same_page q q''"
  unfolding same_page_def by fastforce

lemma same_page_fields:
  "same_page q q' \<Longrightarrow> arguments q' = arguments q \<and> files q' = files q \<and> hdlr q' = hdlr q \<and> req_method q' = req_method q \<and>
    req_headers q' = req_headers q \<and> req_host q' = req_host q"
  by (auto simp: same_page_def)

lemma body_ready_reading: "body_ready q body \<Longrightarrow> reading body 0 q"
  by (auto simp: body_ready_def reading_def buf_holds_def split: option.splits)

lemma read_known:
  assumes "take (length body) (cells_of b) = map Some body" "k + j \<le> length body"
  shows "read_cells b k j = Inr (take j (drop k body))"
proof -
  have "take j (drop k (cells_of b)) = take j (drop k (take (length body) (cells_of b)))" using assms(2) by (simp add: drop_take min_def)
  also have "\<dots> = map Some (take j (drop k body))" by (simp add: assms(1) drop_map take_map)
  finally show ?thesis using assms(2) by (auto simp: read_cells_def comp_def)
qed

lemma body_read_step:
  assumes "reading body k q" "0 < n"
  shows "\<exists>q'. http_body_read n q = Inr (Some (take n (drop k body)), q') \<and> reading body (k + length (take n (drop k body))) q' \<and> same_page q q'"
proof -
  let ?j = "min n (length body - k)" and ?bs = "take n (drop k body)"
  have r: "k \<le> length body" "http_body_length q = int (length body - k)" "http_body_offset q = int k" using assms(1) by (simp_all add: reading_def)
  have j: "nat (min (http_body_length q) (int n)) = ?j" "length ?bs = ?j" "take ?j (drop k body) = ?bs" "k + ?j \<le> length body"
    using r by (auto simp: min_def nat_int)
  show ?thesis
  proof (cases "?j = 0")
    case True
    then have "?bs = []" using j(2) by (metis length_0_conv)
    then show ?thesis using True j(1) assms(1) by (auto simp: http_body_read_def)
  next
    case False
    have len: "int (length body - k) - int ?j = int (length body - (k + ?j))" using j(4) by linarith
    show ?thesis
    proof (cases "http_body_fd q")
      case (Some a)
      then have a: "a = (body, k)" using assms(1) by (cases a) (simp add: reading_def)
      have ne: "(?bs = []) = False" using j(2) False by auto
      let ?q = "q\<lparr>http_body_fd := Some (body, k + ?j), http_body_length := int (length body - k) - int ?j, http_body_offset := int k + int ?j\<rparr>"
      have "http_body_read n q = Inr (Some ?bs, ?q)"
        unfolding http_body_read_def Let_def j(1) using False Some a r by (simp add: j(2,3) ne)
      moreover have "reading body (k + ?j) ?q" using j(4) len by (simp add: reading_def)
      moreover have "same_page q ?q" unfolding same_page_def
        by (rule exI [of _ "http_body q"], rule exI [of _ "http_body_fd ?q"], rule exI [of _ "http_body_length ?q"], rule exI [of _ "http_body_offset ?q"]) (cases q; simp)
      ultimately show ?thesis using j(2) by simp
    next
      case None
      then obtain b where b: "http_body q = Some b" "buf_offset b = int k" "take (length body) (cells_of b) = map Some body" "int (length body) \<le> buf_length b"
        using assms(1) by (auto simp: reading_def)
      let ?b = "b\<lparr>buf_offset := int k + int ?j\<rparr>"
      let ?q = "q\<lparr>http_body := Some ?b, http_body_length := int (length body - k) - int ?j, http_body_offset := int k + int ?j\<rparr>"
      have "http_body_read n q = Inr (Some ?bs, ?q)"
        unfolding http_body_read_def Let_def j(1) using False None b(1,2) r read_known [OF b(3) j(4)] by (simp add: j(2,3))
      moreover have "reading body (k + ?j) ?q" using j(4) len None b(3,4) by (simp add: reading_def)
      moreover have "same_page q ?q" unfolding same_page_def
        by (rule exI [of _ "Some ?b"], rule exI [of _ "http_body_fd ?q"], rule exI [of _ "http_body_length ?q"], rule exI [of _ "http_body_offset ?q"]) (cases q; simp)
      ultimately show ?thesis using j(2) by simp
    qed
  qed
qed

section \<open>The needle\<close>

lemma first_byte:
  "first_occ [c] t = None \<longleftrightarrow> c \<notin> set t"
  "first_occ [c] t = Some p \<Longrightarrow> c \<notin> set (take p t) \<and> p < length t \<and> t ! p = c"
proof -
  show "first_occ [c] t = None \<longleftrightarrow> c \<notin> set t" by (induction t) auto
  show "first_occ [c] t = Some p \<Longrightarrow> c \<notin> set (take p t) \<and> p < length t \<and> t ! p = c"
    by (induction t arbitrary: p) (auto split: if_splits)
qed

text \<open>The bytes \<open>inb\<close> that were read and not taken stand before those to come, from \<open>p\<close> on.\<close>

definition at_place :: "u8 list \<Rightarrow> nat \<Rightarrow> u8 list \<Rightarrow> http_request \<Rightarrow> bool" where
  "at_place body p inb q \<longleftrightarrow> reading body (p + length inb) q \<and> (\<exists>rest. drop p body = inb @ rest)"

lemma at_place_whole: "at_place body p inb q \<Longrightarrow> inb @ drop (p + length inb) body = drop p body"
  unfolding at_place_def by (metis append_eq_conv_conj drop_drop add.commute)

lemma at_place_later:
  assumes "at_place body p inb q" "j \<le> length inb"
  shows "at_place body (p + j) (drop j inb) q"
proof -
  obtain rest where "drop p body = inb @ rest" using assms(1) by (auto simp: at_place_def)
  then have "drop j (drop p body) = drop j inb @ rest" using assms(2) by simp
  then have "drop (p + j) body = drop j inb @ rest" by (simp add: add.commute)
  moreover have "p + j + length (drop j inb) = p + length inb" using assms(2) by simp
  ultimately show ?thesis using assms(1) unfolding at_place_def by metis
qed

lemma at_place_read:
  assumes "at_place body p inb q" "0 < n"
  shows "\<exists>q'. http_body_read n q = Inr (Some (take n (drop (p + length inb) body)), q') \<and> same_page q q' \<and>
    at_place body p (inb @ take n (drop (p + length inb) body)) q'"
proof -
  let ?d = "take n (drop (p + length inb) body)"
  obtain q' where q': "http_body_read n q = Inr (Some ?d, q')" "reading body (p + length inb + length ?d) q'" "same_page q q'"
    using body_read_step [of body "p + length inb" q n] assms by (auto simp: at_place_def)
  have "drop p body = (inb @ ?d) @ drop n (drop (p + length inb) body)"
    unfolding append_assoc append_take_drop_id by (rule at_place_whole [OF assms(1), symmetric])
  moreover have "p + length inb + length ?d = p + length (inb @ ?d)" by (simp only: length_append add.assoc)
  ultimately have "at_place body p (inb @ ?d) q'" using q'(2) unfolding at_place_def by metis
  then show ?thesis using q'(1,3) by blast
qed

text \<open>Whatever is read at a time, the needle that is found is the first, and what stands before it is kept whole.\<close>

lemma find_data_first:
  assumes "needle \<noteq> []" "at_place body p inb q"
  shows "case first_occ needle (drop p body) of
      Some e \<Rightarrow> \<exists>inb' q'. find_data needle inb out q = Some (Inr (True, inb', out @ take e (drop p body), q')) \<and>
        at_place body (p + e + length needle) inb' q' \<and> same_page q q'
    | None \<Rightarrow> \<exists>inb' out' q'. find_data needle inb out q = Some (Inr (False, inb', out', q')) \<and> same_page q q'"
  using assms(2)
proof (induction "2 * (length body - (p + length inb)) + length inb" arbitrary: p inb out q rule: less_induct)
  case less
  let ?S = "drop p body"
  obtain c s where needle: "needle = c # s" using assms(1) by (cases needle) auto
  have whole: "inb @ drop (p + length inb) body = ?S" by (rule at_place_whole [OF less.prems])
  have again: ?case if f: "find_data needle inb out q = find_data needle inb2 (out @ take j ?S) q2" and a: "at_place body (p + j) inb2 q2" "same_page q q2"
      and m: "2 * (length body - (p + j + length inb2)) + length inb2 < 2 * (length body - (p + length inb)) + length inb"
      and o: "first_occ needle ?S = map_option (\<lambda>e. j + e) (first_occ needle (drop j ?S))" for inb2 q2 j
  proof -
    have d: "drop j ?S = drop (p + j) body" by (simp add: add.commute)
    note ih = less.hyps [OF m a(1), of "out @ take j ?S"]
    show ?thesis
    proof (cases "first_occ needle (drop (p + j) body)")
      case None
      then show ?thesis using ih o f a(2) d by (auto intro: same_page_trans)
    next
      case (Some e)
      then have n: "first_occ needle ?S = Some (j + e)" using o d by simp
      obtain inb' q' where i: "find_data needle inb2 (out @ take j ?S) q2 = Some (Inr (True, inb', (out @ take j ?S) @ take e (drop (p + j) body), q'))"
        "at_place body (p + j + e + length needle) inb' q'" "same_page q2 q'" using ih Some by auto
      have "take (j + e) ?S = take j ?S @ take e (drop (p + j) body)" by (simp only: take_add d)
      then show ?thesis unfolding n option.case using i f same_page_trans [OF a(2) i(3)] by (auto simp: add.assoc)
    qed
  qed
  show ?case
  proof (cases "length inb < length needle")
    case True
    let ?d = "take 4096 (drop (p + length inb) body)"
    obtain q' where q': "http_body_read 4096 q = Inr (Some ?d, q')" "same_page q q'" "at_place body p (inb @ ?d) q'"
      using at_place_read [OF less.prems, of 4096] by auto
    show ?thesis
    proof (cases "?d = []")
      case True
      then have "length ?S < length needle" using whole \<open>length inb < length needle\<close> by (metis append_Nil2 take_eq_Nil zero_neq_numeral)
      then have n: "first_occ needle ?S = None" by (rule first_occ_short)
      have "find_data needle inb out q = Some (Inr (False, inb, out, q'))"
        using \<open>length inb < length needle\<close> q'(1) True by (subst find_data.simps) simp
      then show ?thesis unfolding n using q'(2) by auto
    next
      case False
      have f: "find_data needle inb out q = find_data needle (inb @ ?d) (out @ take 0 ?S) q'"
        using True q'(1) False by (subst find_data.simps) simp
      have "0 < length ?d" "length ?d \<le> length body - (p + length inb)" using False by simp_all
      then show ?thesis using q'(2,3) by (intro again [OF f]) (simp_all add: option.map_ident)
    qed
  next
    case False
    have mf: "kore_mem_find (map Some inb) (take 1 needle) 1 = Inr (map_option int (first_occ [c] inb))"
      using mem_find_first [of "[c]" inb] needle by simp
    have ne: "0 < length inb" using False assms(1) by (cases needle) auto
    show ?thesis
    proof (cases "first_occ [c] inb")
      case None
      then have c: "c \<notin> set inb" by (simp add: first_byte)
      have t: "take (length inb) ?S = inb" "drop (length inb) ?S = drop (p + length inb) body" using whole by (metis append_eq_conv_conj)+
      have f: "find_data needle inb out q = find_data needle [] (out @ take (length inb) ?S) q"
        using False mf None by (subst find_data.simps) (simp add: t(1))
      have "first_occ needle ?S = map_option (\<lambda>e. length inb + e) (first_occ needle (drop (length inb) ?S))"
        using first_occ_skip [OF c, of s "drop (p + length inb) body"] whole t(2) needle by simp
      then show ?thesis using ne at_place_later [OF less.prems le_refl] by (intro again [OF f]) simp_all
    next
      case (Some i)
      have i: "c \<notin> set (take i inb)" "i < length inb" "inb ! i = c" using first_byte(2) [OF Some] by simp_all
      have ti: "take i ?S = take i inb" "drop i ?S = drop i inb @ drop (p + length inb) body" using i(2) whole [symmetric] by simp_all
      have "first_occ (c # s) (take i inb @ drop i ?S) = map_option (\<lambda>e. i + e) (first_occ (c # s) (drop i ?S))"
        using first_occ_skip [OF i(1), of s "drop i ?S"] i(2) by simp
      moreover have "take i inb @ drop i ?S = ?S" using ti(1) by (metis append_take_drop_id)
      ultimately have o: "first_occ needle ?S = map_option (\<lambda>e. i + e) (first_occ needle (drop i ?S))" using needle by simp
      have p: "nat (int i) = i" by simp
      consider (short) "length inb - i < length needle"
        | (found) "\<not> length inb - i < length needle" "take (length needle) (drop i inb) = needle"
        | (other) "\<not> length inb - i < length needle" "take (length needle) (drop i inb) \<noteq> needle" by blast
      then show ?thesis
      proof cases
        case short
        then have i0: "0 < i" using False by (cases i) auto
        have f: "find_data needle inb out q = find_data needle (drop i inb) (out @ take i ?S) q"
          using False mf Some short by (subst find_data.simps) (simp add: ti(1))
        show ?thesis using i0 i(2) at_place_later [OF less.prems, of i] o by (intro again [OF f]) simp_all
      next
        case found
        have "prefix needle (drop i ?S)" using found by (metis ti(2) append_prefixD take_is_prefix prefix_order.trans prefixI)
        moreover obtain d ds where dd: "drop i ?S = d # ds" using i(2) ti(2) by (cases "drop i inb") auto
        ultimately have n: "first_occ needle ?S = Some i" using o by simp
        have "find_data needle inb out q = Some (Inr (True, drop (i + length needle) inb, out @ take i ?S, q))"
          using False mf Some found by (subst find_data.simps) (simp add: ti(1))
        moreover have "at_place body (p + (i + length needle)) (drop (i + length needle) inb) q"
          using found(1) i(2) by (intro at_place_later [OF less.prems]) linarith
        ultimately show ?thesis unfolding n by (auto simp: add.assoc)
      next
        case other
        have t1: "take (Suc i) ?S = take (Suc i) inb" using i(2) whole [symmetric] by simp
        have f: "find_data needle inb out q = find_data needle (drop (i + 1) inb) (out @ take (i + 1) ?S) q"
          using False mf Some other by (subst find_data.simps) (simp add: t1)
        have np: "\<not> prefix needle (drop i ?S)"
        proof
          assume "prefix needle (drop i ?S)"
          then have "take (length needle) (drop i ?S) = needle" by (metis append_eq_conv_conj prefixE)
          then show False using other unfolding ti(2) by simp
        qed
        obtain ds where dd: "drop i ?S = c # ds" "drop (i + 1) ?S = ds"
        proof -
          have "i < length ?S" "?S ! i = c" using i(2,3) by (simp_all add: whole [symmetric] nth_append)
          then have "drop i ?S = c # drop (Suc i) ?S" by (metis Cons_nth_drop_Suc)
          then show ?thesis using that by simp
        qed
        then have "first_occ needle (drop i ?S) = map_option Suc (first_occ needle ds)" using np by simp
        then have "first_occ needle ?S = map_option (\<lambda>e. i + 1 + e) (first_occ needle (drop (i + 1) ?S))"
          using o dd(2) by (cases "first_occ needle ds") simp_all
        then show ?thesis using i(2) at_place_later [OF less.prems, of "i + 1"] by (intro again [OF f]) simp_all
      qed
    qed
  qed
qed

section \<open>Arguments of a query and of a form\<close>

text \<open>How a client writes arguments: encoded, the characters \<open>=\<close> and \<open>&\<close> among those written as codes.\<close>

definition arg_text :: "(u8 \<Rightarrow> bool) \<Rightarrow> u8 list \<times> u8 list \<Rightarrow> u8 list" where
  "arg_text plain a = url_encode plain (fst a) @ 0x3d # url_encode plain (snd a)"

definition query_text :: "(u8 \<Rightarrow> bool) \<Rightarrow> (u8 list \<times> u8 list) list \<Rightarrow> u8 list" where
  "query_text plain args = joined 0x26 (map (arg_text plain) args)"

text \<open>
  Of these arguments the page is shown as many as it has room for, less those with an empty name or value, each with
  its name and value as far as they can be decoded.
\<close>

definition args_shown :: "http_config \<Rightarrow> (u8 \<Rightarrow> bool) \<Rightarrow> (u8 list \<times> u8 list) list \<Rightarrow> (u8 list \<times> u8 list) list" where
  "args_shown env plain args =
     map (\<lambda>(n, v). (decoded_text plain n, decoded_text plain v))
       (filter (\<lambda>(n, v). n \<noteq> [] \<and> v \<noteq> []) (take (HTTP_MAX_QUERY_ARGS env - 1) args))"

text \<open>What the handler takes: its first parameter of the name, for this place and method, accepts the value.\<close>

definition accepted :: "http_config \<Rightarrow> http_handler \<Rightarrow> http_method \<Rightarrow> bool \<Rightarrow> u8 list \<times> u8 list \<Rightarrow> bool" where
  "accepted env h m qs a \<longleftrightarrow>
     (case find (\<lambda>p. param_qs p = qs \<and> param_method p = m \<and> param_name p = fst a) (params h) of
        None \<Rightarrow> False
      | Some p \<Rightarrow> kore_validator_check env (param_validator p) (snd a))"

lemma argument_add_decoded:
  assumes "name = (if decode then snd (http_argument_urldecode ename) else ename)"
    "val = (if decode then snd (http_argument_urldecode eval) else eval)"
  shows "http_argument_add env ename eval qs decode req =
    req\<lparr>arguments := arguments req @ filter (accepted env (hdlr req) (req_method req) qs) [(name, val)]\<rparr>"
proof -
  have "takes_argument req qs name = (\<lambda>p. param_qs p = qs \<and> param_method p = req_method req \<and> param_name p = name)"
    by (intro ext) (simp add: takes_argument_def)
  then show ?thesis unfolding http_argument_add_def accepted_def Let_def assms [symmetric] by (auto split: option.split)
qed

lemma split_pair:
  assumes "d \<notin> set x" "d \<notin> set y"
  shows "kore_split_string (x @ d # y) [d] 3 = filter (\<lambda>t. t \<noteq> []) [x, y]"
  using assms by (cases "x = []"; cases "y = []") (simp_all add: kore_split_string_def numeral_2_eq_2 strsep_token strsep_token(2) [of d "[]", simplified])

lemma add_argument_decoded:
  assumes "codes_reserved plain"
  shows "add_argument env qs (arg_text plain (n, v)) req = req\<lparr>arguments := arguments req @
    (if n = [] \<or> v = [] then [] else filter (accepted env (hdlr req) (req_method req) qs) [(decoded_text plain n, decoded_text plain v)])\<rparr>"
proof -
  let ?n = "url_encode plain n" and ?v = "url_encode plain v"
  have "0x3d \<notin> set ?n" "0x3d \<notin> set ?v" using assms url_encode_no [where d = "0x3d"] by simp_all
  then have "kore_split_string (arg_text plain (n, v)) (cstr ''='') 3 = filter (\<lambda>t. t \<noteq> []) [?n, ?v]"
    using split_pair [of "0x3d" ?n ?v] by (simp add: arg_text_def)
  moreover have "decoded_text plain n = snd (http_argument_urldecode ?n)" "decoded_text plain v = snd (http_argument_urldecode ?v)"
    using urldecode_any [OF assms] by simp_all
  ultimately show ?thesis
    using argument_add_decoded [where name = "decoded_text plain n" and decode = True and ename = ?n and val = "decoded_text plain v" and eval = ?v]
    by (simp add: add_argument_def)
qed

lemma add_arguments_decoded:
  assumes "codes_reserved plain" "args \<noteq> []"
  shows "add_arguments env qs (query_text plain args) req =
    req\<lparr>arguments := arguments req @ filter (accepted env (hdlr req) (req_method req) qs) (args_shown env plain args)\<rparr>"
proof -
  let ?dec = "\<lambda>args. map (\<lambda>(n, v). (decoded_text plain n, decoded_text plain v)) (filter (\<lambda>(n, v). n \<noteq> [] \<and> v \<noteq> []) args)"
  have "\<forall>t \<in> set (map (arg_text plain) args). t \<noteq> [] \<and> 0x26 \<notin> set t"
    using url_encode_no [OF _ assms(1), where d = "0x26"] by (auto simp: arg_text_def)
  then have "kore_split_string (query_text plain args) [0x26] (HTTP_MAX_QUERY_ARGS env) =
      map (arg_text plain) (take (HTTP_MAX_QUERY_ARGS env - 1) args)"
    using split_joined [of "map (arg_text plain) args" "0x26"] assms(2) by (simp add: query_text_def kore_split_string_def take_map)
  moreover have "fold (add_argument env qs) (map (arg_text plain) args) req =
      req\<lparr>arguments := arguments req @ filter (accepted env (hdlr req) (req_method req) qs) (?dec args)\<rparr>" for args
  proof (induction args arbitrary: req)
    case (Cons x args)
    obtain n v where x: "x = (n, v)" by (cases x) auto
    then show ?case using add_argument_decoded [OF assms(1)] Cons.IH by simp
  qed simp
  ultimately show ?thesis by (simp add: add_arguments_def args_shown_def)
qed

lemma query_text_no_nul:
  assumes "codes_reserved plain"
  shows "0 \<notin> set (query_text plain args)"
proof -
  have "\<forall>a \<in> set args. 0 \<notin> set (arg_text plain a)"
    using url_encode_no [OF _ assms, where d = "0"] by (auto simp: arg_text_def)
  moreover have "(\<forall>t \<in> set ts. 0 \<notin> set t) \<Longrightarrow> 0 \<notin> set (joined 0x26 ts)" for ts :: "u8 list list" by (induction "0x26 :: u8" ts rule: joined.induct) auto
  ultimately show ?thesis by (simp add: query_text_def)
qed

text \<open>
  The arguments of a query, any texts, percent-encoded in whichever way: the page gets those it is shown for which the
  handler has a parameter of the name for the query and the method which accepts the value, in order, and nothing else of
  the request changes.
\<close>

theorem query_arguments_received:
  assumes "query_string req = Some (query_text plain args)" "codes_reserved plain" "args \<noteq> []"
  shows "http_populate_qs env req =
    req\<lparr>arguments := arguments req @ filter (accepted env (hdlr req) (req_method req) True) (args_shown env plain args)\<rparr>"
  using assms by (simp add: http_populate_qs_def add_arguments_decoded)

lemma cells_string_text: "0 \<notin> set t \<Longrightarrow> cells_string (map Some t @ Some 0 # r) = Inr t"
  by (induction t) auto

lemma take_then_rest: "take n xs @ drop (length (take n xs)) xs = xs"
  by (cases "n \<le> length xs") simp_all

lemma read_body_rest:
  assumes "reading body k q"
  shows "\<exists>q'. read_body out q = Some (Inr (Some (out @ drop k body), q')) \<and> same_page q q'"
  using assms
proof (induction "length body - k" arbitrary: k out q rule: less_induct)
  case less
  let ?d = "take BUFSIZ (drop k body)"
  obtain q' where q': "http_body_read BUFSIZ q = Inr (Some ?d, q')" "reading body (k + length ?d) q'" "same_page q q'"
    using body_read_step [OF less.prems, of BUFSIZ] by auto
  show ?case
  proof (cases "?d = []")
    case True
    then have "read_body out q = Some (Inr (Some out, q'))" using q'(1) by (subst read_body.simps) simp
    moreover have "drop k body = []" using True by simp
    ultimately show ?thesis using q'(3) by simp
  next
    case False
    then have l: "length body - (k + length ?d) < length body - k" by simp
    obtain q'' where q'': "read_body (out @ ?d) q' = Some (Inr (Some ((out @ ?d) @ drop (k + length ?d) body), q''))" "same_page q' q''"
      using less.hyps [OF l q'(2)] by blast
    have "drop (k + length ?d) body = drop (length ?d) (drop k body)" by (simp only: drop_drop add.commute)
    then have "?d @ drop (k + length ?d) body = drop k body" by (simp only: take_then_rest)
    moreover have "read_body out q = read_body (out @ ?d) q'" using q'(1) False by (subst read_body.simps) simp
    ultimately show ?thesis using q'' same_page_trans [OF q'(3) q''(2)] by simp
  qed
qed

lemma post_text_received:
  assumes "req_method req = POST" "body_ready req t" "0 \<notin> set t" "length t < BUF_MAX" "codes_reserved plain" "args \<noteq> []" "t = query_text plain args"
  shows "\<exists>req'. http_populate_post env req = Some (Inr req') \<and>
    arguments req' = arguments req @ filter (accepted env (hdlr req) POST False) (args_shown env plain args)"
proof (cases "http_body req")
  case None
  then obtain a where a: "http_body_fd req = Some a" using assms(2) by (auto simp: body_ready_def split: option.splits)
  obtain req1 where r: "read_body [] req = Some (Inr (Some t, req1))" "same_page req req1"
    using read_body_rest [OF body_ready_reading [OF assms(2)], of "[]"] by auto
  have tw: "takeWhile (\<lambda>c. c \<noteq> 0) t = t" using assms(3) unfolding takeWhile_eq_all_conv by blast
  have "http_populate_post env req = Some (Inr (add_arguments env False t req1))" using assms(1) None r(1) by (simp add: http_populate_post_def tw)
  then show ?thesis using add_arguments_decoded [OF assms(5,6), of env False req1] same_page_fields [OF r(2)] assms(1,7) by simp
next
  case (Some b)
  have h: "http_body_fd req = None" "buf_holds (b\<lparr>buf_offset := int (length t)\<rparr>) t" "content_length req = int (length t)"
    using assms(2) Some by (auto simp: body_ready_def split: option.splits)
  obtain b' where b': "kore_buf_append [0] (b\<lparr>buf_offset := int (length t)\<rparr>) = Inr b'" "buf_holds b' (t @ [0])"
    using buf_append_holds [OF h(2), of "[0]"] assms(4) by auto
  have "cells_of b' = map Some t @ Some 0 # drop (length t + 1) (cells_of b')"
    using b'(2) append_take_drop_id [of "length t + 1" "cells_of b'"] by (simp add: buf_holds_def)
  then have "cells_string (cells_of b') = Inr t" using cells_string_text [OF assms(3)] by metis
  then have "http_populate_post env req = Some (Inr (add_arguments env False t (req\<lparr>http_body := Some b'\<rparr>)))"
    using assms(1) Some h(3) b'(1) by (simp add: http_populate_post_def kore_buf_stringify_def)
  then show ?thesis using add_arguments_decoded [OF assms(5,6), of env False "req\<lparr>http_body := Some b'\<rparr>"] assms(1,7) by simp
qed

text \<open>
  C37: From the socket to the page: a client posts the arguments of a form, any names and values, in the body of a
  request on a plain connection, percent-encoded in whichever way, with the reserved characters and the NUL written as
  codes. Whatever way the bytes are cut into reads, when as many reads as there are bytes have given something the
  arguments of the request are, in order, those that the page is shown and for which the handler has a parameter that
  accepts the value; nothing faults, whether the body is in a buffer or in a file. Shown are the first arguments up to the
  limit of the server less one, without those with an empty name or value. A text is shown decoded, unless a control
  character (up to 0x1f, or 0x7f to 0x9f) is written as a code in it: then it is decoded up to there, and goes on with left-over
  and encoded bytes.
\<close>

theorem posted_arguments_received:
  assumes "can_serve env cr POST h c0" "receiving c0 True Header_Recv (http_header_max env) 0 (request_text cr @ cr_body cr)" "\<not> tls c0"
    "\<forall>rs \<in> set rss. list_all no_failure rs" "length (sock_in c0) \<le> sum_list (map gives rss)"
    "cr_body cr = query_text plain args" "codes_reserved plain" "args \<noteq> []"
  shows "\<exists>c' req'. recv_rounds (http_recv env) rss c0 = Some (Inr (True, c')) \<and>
    http_populate_post env (requests c' (next_request c0)) = Some (Inr req') \<and>
    arguments req' = filter (accepted env h POST False) (args_shown env plain args)"
proof -
  obtain c' where c': "recv_rounds (http_recv env) rss c0 = Some (Inr (True, c'))" "request_here env cr POST h c0 c'"
    using request_received [OF assms(1-4)] assms(5) by blast
  let ?q = "requests c' (next_request c0)"
  have q: "req_method ?q = POST" "hdlr ?q = h" "arguments ?q = []" "request_done env ?q (cr_body cr)" using c'(2) by (simp_all add: request_here_def is_request_def)
  have "cr_body cr \<noteq> []" using assms(6,8) by (cases args rule: list.exhaust; cases "tl args") (auto simp: query_text_def arg_text_def)
  then have "body_ready ?q (cr_body cr)" using q(4) by (simp add: request_done_def)
  moreover have "length (cr_body cr) < BUF_MAX" using assms(1) by (simp add: can_serve_def body_announced_def has_body_def)
  ultimately show ?thesis
    using post_text_received [OF q(1) _ _ _ assms(7,8,6)] query_text_no_nul [OF assms(7)] q(2,3) assms(6) c'(1) by fastforce
qed

section \<open>Fields and files\<close>

record form_part =
  pt_name :: "u8 list"
  pt_file :: "u8 list option"
  pt_extra :: "u8 list list"
  pt_data :: "u8 list"

definition disposition :: "form_part \<Rightarrow> u8 list" where
  "disposition pt = cstr ''Content-Disposition: form-data; name='' @ 0x22 # pt_name pt @ 0x22 #
     (case pt_file pt of None \<Rightarrow> [] | Some f \<Rightarrow> cstr ''; filename='' @ 0x22 # f @ [0x22])"

definition part_text :: "u8 list \<Rightarrow> form_part \<Rightarrow> u8 list" where
  "part_text bd pt = crlf @ lines_text (disposition pt # pt_extra pt) @ crlf @ pt_data pt @ crlf @ bd"

definition form_text :: "u8 list \<Rightarrow> form_part list \<Rightarrow> u8 list" where
  "form_text bd pts = bd @ concat (map (part_text bd) pts) @ cstr ''--'' @ crlf"

definition quotable :: "u8 list \<Rightarrow> bool" where
  "quotable s \<longleftrightarrow> (\<forall>c \<in> {0, 10, 13, 0x22, 0x3a, 0x3b}. c \<notin> set s) \<and> length s < 2 ^ 31"

definition other_header :: "u8 list \<Rightarrow> bool" where
  "other_header l \<longleftrightarrow> clean l \<and> (\<forall>n v. kore_split_string l (cstr '':'') 5 = [n, v] \<longrightarrow> \<not> same_text n (cstr ''content-disposition''))"

definition part_ok :: "u8 list \<Rightarrow> form_part \<Rightarrow> bool" where
  "part_ok bd pt \<longleftrightarrow> quotable (pt_name pt) \<and> (case pt_file pt of None \<Rightarrow> 0 \<notin> set (pt_data pt) | Some f \<Rightarrow> quotable f \<and> f \<noteq> []) \<and>
     length (pt_extra pt) \<le> 3 \<and> (\<forall>l \<in> set (pt_extra pt). other_header l) \<and>
     first_occ bd (pt_data pt @ crlf @ bd) = Some (length (pt_data pt) + 2)"

definition page_gains :: "http_request \<Rightarrow> (u8 list \<times> u8 list) list \<Rightarrow> http_file list \<Rightarrow> http_request \<Rightarrow> bool" where
  "page_gains q as fs q' \<longleftrightarrow> hdlr q' = hdlr q \<and> req_method q' = req_method q \<and> arguments q' = arguments q @ as \<and> files q' = files q @ fs"

lemma page_gains_same: "same_page q q' \<Longrightarrow> page_gains q [] [] q'"
  using same_page_fields [of q q'] by (simp add: page_gains_def)

lemma page_gains_trans: "page_gains q as fs q' \<Longrightarrow> page_gains q' as' fs' q'' \<Longrightarrow> page_gains q (as @ as') (fs @ fs') q''"
  by (simp add: page_gains_def)

lemma at_place_update [simp]:
  "at_place body p inb (q\<lparr>arguments := as\<rparr>) = at_place body p inb q" "at_place body p inb (q\<lparr>files := fs\<rparr>) = at_place body p inb q"
  by (cases "http_body_fd q"; simp add: at_place_def reading_def)+

lemma first_occ_append: "first_occ s t = Some k \<Longrightarrow> first_occ s (t @ u) = Some k"
proof (induction t arbitrary: k)
  case (Cons c t)
  show ?case
  proof (cases "prefix s (c # t)")
    case True
    then have "prefix s (c # t @ u)" by (metis append_Cons prefix_prefix)
    then show ?thesis using Cons.prems True by simp
  next
    case False
    then obtain i where i: "first_occ s t = Some i" "k = Suc i" using Cons.prems by auto
    have "length s \<le> length (c # t)" using first_occ_short [of t s] i(1) by fastforce
    then have "\<not> prefix s (c # t @ u)" using False by (metis append_Cons prefix_length_prefix prefix_prefix prefix_order.refl)
    then show ?thesis using Cons.IH [OF i(1)] i(2) by simp
  qed
qed simp

lemma data_found:
  assumes "needle \<noteq> []" "at_place body p inb q" "first_occ needle (drop p body) = Some e"
  shows "\<exists>inb' q'. multipart_find_data needle inb q = Some (Inr (True, inb', take e (drop p body), q')) \<and>
    at_place body (p + e + length needle) inb' q' \<and> page_gains q [] [] q'"
  using find_data_first [OF assms(1,2), of "[]"] assms(3) page_gains_same by (auto simp: multipart_find_data_def)

lemma strip_quotes:
  assumes "quotable s"
  shows "kore_strip_chars (0x22 # s @ [0x22]) 0x22 = Inr s"
proof -
  have "filter (\<lambda>c. c \<noteq> 0x22) s = s" using assms by (auto simp: quotable_def filter_id_conv)
  then show ?thesis using assms by (simp add: kore_strip_chars_def quotable_def Let_def)
qed

lemma disposition_line:
  assumes "quotable (pt_name pt)" "\<And>f. pt_file pt = Some f \<Longrightarrow> quotable f"
  shows "clean (disposition pt)"
    "kore_split_string (disposition pt) (cstr '':'') 5 = [cstr ''Content-Disposition'', drop 20 (disposition pt)]"
    "kore_split_string (dropWhile is_white (drop 20 (disposition pt))) (cstr '';'') 5 =
       [cstr ''form-data'', cstr '' name='' @ 0x22 # pt_name pt @ [0x22]] @
       (case pt_file pt of None \<Rightarrow> [] | Some f \<Rightarrow> [cstr '' filename='' @ 0x22 # f @ [0x22]])"
proof -
  let ?n = "cstr '' name='' @ 0x22 # pt_name pt @ [0x22]" and ?f = "case pt_file pt of None \<Rightarrow> [] | Some f \<Rightarrow> [cstr '' filename='' @ 0x22 # f @ [0x22]]"
  let ?r = "joined 0x3b ([cstr ''form-data'', ?n] @ ?f)"
  have d: "disposition pt = joined 0x3a [cstr ''Content-Disposition'', 32 # ?r]"
    by (simp add: disposition_def split: option.split)
  have no: "0 \<notin> set (32 # ?r)" "10 \<notin> set (32 # ?r)" "13 \<notin> set (32 # ?r)" "0x3a \<notin> set (32 # ?r)"
    using assms by (cases "pt_file pt"; simp add: quotable_def)+
  show "clean (disposition pt)" unfolding d clean_def using no by auto
  have "kore_split_string (disposition pt) [0x3a] 5 = [cstr ''Content-Disposition'', 32 # ?r]"
    unfolding d using no(4) by (intro split_string_joined) auto
  moreover have "drop 20 (disposition pt) = 32 # ?r" by (simp add: d)
  ultimately show "kore_split_string (disposition pt) (cstr '':'') 5 = [cstr ''Content-Disposition'', drop 20 (disposition pt)]" by simp
  have "dropWhile is_white (32 # ?r) = ?r" by (simp add: is_white_def)
  moreover have "kore_split_string ?r [0x3b] 5 = [cstr ''form-data'', ?n] @ ?f"
    using assms by (intro split_string_joined) (auto simp: quotable_def split: option.split)
  ultimately show "kore_split_string (dropWhile is_white (drop 20 (disposition pt))) (cstr '';'') 5 = [cstr ''form-data'', ?n] @ ?f"
    using \<open>drop 20 (disposition pt) = 32 # ?r\<close> by simp
qed

text \<open>A part gives the page a field, or a file whose bytes stand in the body, or nothing when it is empty.\<close>

definition part_fields :: "form_part \<Rightarrow> (u8 list \<times> u8 list) list" where
  "part_fields pt = (if pt_file pt = None \<and> pt_data pt \<noteq> [] then [(pt_name pt, pt_data pt)] else [])"

definition part_files :: "nat \<Rightarrow> form_part \<Rightarrow> http_file list" where
  "part_files p pt =
     (case pt_file pt of
        None \<Rightarrow> []
      | Some f \<Rightarrow>
          if pt_data pt = [] then []
          else [\<lparr>f_name = pt_name pt, f_filename = f, f_position = int p, f_offset = 0, f_length = int (length (pt_data pt))\<rparr>])"

lemma disposition_read:
  assumes ok: "part_ok bd pt" and bd: "bd \<noteq> []" and at: "at_place body p inb q" "drop p body = pt_data pt @ crlf @ bd @ rest"
  shows "\<exists>inb' q'. multipart_header env bd (disposition pt) inb q = Some (Inr (inb', q')) \<and>
    at_place body (p + length (pt_data pt) + 2 + length bd) inb' q' \<and>
    page_gains q (filter (accepted env (hdlr q) (req_method q) False) (part_fields pt)) (part_files p pt) q'"
proof -
  let ?d = "pt_data pt" and ?n = "cstr '' name='' @ 0x22 # pt_name pt @ [0x22]"
  have pt: "quotable (pt_name pt)" "\<And>f. pt_file pt = Some f \<Longrightarrow> quotable f \<and> f \<noteq> []" "pt_file pt = None \<Longrightarrow> 0 \<notin> set ?d"
    "first_occ bd (?d @ crlf @ bd) = Some (length ?d + 2)" using ok by (auto simp: part_ok_def)
  have l: "kore_split_string (disposition pt) (cstr '':'') 5 = [cstr ''Content-Disposition'', drop 20 (disposition pt)]"
    "kore_split_string (dropWhile is_white (drop 20 (disposition pt))) (cstr '';'') 5 =
       [cstr ''form-data'', ?n] @ (case pt_file pt of None \<Rightarrow> [] | Some f \<Rightarrow> [cstr '' filename='' @ 0x22 # f @ [0x22]])"
    using disposition_line(2,3) [OF pt(1)] pt(2) by blast+
  have "first_occ bd (drop p body) = Some (length ?d + 2)" using first_occ_append [OF pt(4), of rest] at(2) by simp
  then obtain inb1 q1 where f: "multipart_find_data bd inb q = Some (Inr (True, inb1, take (length ?d + 2) (drop p body), q1))"
    "at_place body (p + (length ?d + 2) + length bd) inb1 q1" "page_gains q [] [] q1" using data_found [OF bd at(1)] by blast
  have tk: "take (length ?d + 2) (drop p body) = ?d @ crlf" using at(2) by simp
  have at1: "at_place body (p + length ?d + 2 + length bd) inb1 q1" using f(2) by (simp add: add.assoc)
  have st: "same_text (cstr ''Content-Disposition'') (cstr ''content-disposition'')" "strchr_from ?n 0x3d = Some (0x3d # 0x22 # pt_name pt @ [0x22])"
    by (simp_all add: same_text_def tolower_def strchr_from_def)
  show ?thesis
  proof (cases "pt_file pt")
    case None
    have h: "multipart_header env bd (disposition pt) inb q = multipart_add_field env (pt_name pt) bd inb q"
      using l st None strip_quotes [OF pt(1)] by (simp add: multipart_header_def del: cstr_simps)
    show ?thesis
    proof (cases "?d = []")
      case True
      then have "multipart_add_field env (pt_name pt) bd inb q = Some (Inr (inb1, q1))" using f(1) tk by (simp add: multipart_add_field_def)
      then show ?thesis using h at1 f(3) None True by (simp add: part_fields_def part_files_def)
    next
      case False
      have tw: "takeWhile (\<lambda>c. c \<noteq> 0) ?d = ?d" using pt(3) None unfolding takeWhile_eq_all_conv by blast
      let ?q = "http_argument_add env (pt_name pt) ?d False False q1"
      have q: "?q = q1\<lparr>arguments := arguments q1 @ filter (accepted env (hdlr q1) (req_method q1) False) [(pt_name pt, ?d)]\<rparr>"
        by (rule argument_add_decoded) simp_all
      have "multipart_add_field env (pt_name pt) bd inb q = Some (Inr (inb1, ?q))" using f(1) tk False by (simp add: multipart_add_field_def tw)
      moreover have "at_place body (p + length ?d + 2 + length bd) inb1 ?q" using at1 by (simp add: q)
      moreover have "page_gains q (filter (accepted env (hdlr q) (req_method q) False) (part_fields pt)) (part_files p pt) ?q"
        using f(3) None False by (simp add: q page_gains_def part_fields_def part_files_def)
      ultimately show ?thesis unfolding h by (intro exI [of _ inb1] exI [of _ ?q] conjI)
    qed
  next
    case (Some fn)
    have dw: "dropWhile is_white (cstr '' filename='' @ 0x22 # fn @ [0x22]) = cstr ''filename='' @ 0x22 # fn @ [0x22]" by (simp add: is_white_def)
    have sf: "same_start 9 (cstr ''filename='' @ 0x22 # fn @ [0x22]) (cstr ''filename='')" "strchr_from (cstr ''filename='' @ 0x22 # fn @ [0x22]) 0x3d = Some (0x3d # 0x22 # fn @ [0x22])"
      by (simp_all add: same_start_def strchr_from_def)
    have h: "multipart_header env bd (disposition pt) inb q = multipart_file_add (pt_name pt) fn bd inb q"
      using l st Some strip_quotes [OF pt(1)] strip_quotes [of fn] pt(2) [OF Some] dw sf by (simp add: multipart_header_def del: cstr_simps)
    have pos: "http_body_offset q - int (length inb) = int p" using at(1) by (simp add: at_place_def reading_def)
    show ?thesis
    proof (cases "?d = []")
      case True
      then have "multipart_file_add (pt_name pt) fn bd inb q = Some (Inr (inb1, q1))" using f(1) tk by (simp add: multipart_file_add_def)
      then show ?thesis using h at1 f(3) Some True by (simp add: part_fields_def part_files_def)
    next
      case False
      let ?q = "q1\<lparr>files := files q1 @ [\<lparr>f_name = pt_name pt, f_filename = fn, f_position = int p, f_offset = 0, f_length = int (length ?d)\<rparr>]\<rparr>"
      have "multipart_file_add (pt_name pt) fn bd inb q = Some (Inr (inb1, ?q))" using f(1) tk False pos by (simp add: multipart_file_add_def)
      moreover have "page_gains q (filter (accepted env (hdlr q) (req_method q) False) (part_fields pt)) (part_files p pt) ?q"
        using f(3) Some False by (simp add: page_gains_def part_fields_def part_files_def)
      ultimately show ?thesis using h at1 by auto
    qed
  qed
qed

text \<open>The other lines of the header of a part are passed over.\<close>

lemma other_headers_skipped:
  assumes "\<forall>l \<in> set ls. other_header l"
  shows "multipart_headers env bd ls inb q = Some (Inr (inb, q))"
  using assms
proof (induction ls)
  case (Cons l ls)
  have o: "other_header l" using Cons.prems by simp
  have "multipart_header env bd l inb q = Some (Inr (inb, q))"
  proof (cases "length (kore_split_string l (cstr '':'') 5) = 2")
    case True
    then obtain n v where "kore_split_string l (cstr '':'') 5 = [n, v]" by (auto simp: numeral_2_eq_2 length_Suc_conv)
    then show ?thesis using o by (simp add: other_header_def multipart_header_def)
  qed (simp add: multipart_header_def)
  then show ?case using Cons by simp
qed simp

lemma part_headers_read:
  assumes ok: "part_ok bd pt" and bd: "bd \<noteq> []" and at: "at_place body p inb q" "drop p body = pt_data pt @ crlf @ bd @ rest"
    and hb: "ls = disposition pt # pt_extra pt" "hbuf = take (length (lines_text ls) - 2) (lines_text ls)"
  shows "\<exists>inb' q'. multipart_parse_headers env bd hbuf inb q = Some (Inr (inb', q')) \<and>
    at_place body (p + length (pt_data pt) + 2 + length bd) inb' q' \<and>
    page_gains q (filter (accepted env (hdlr q) (req_method q) False) (part_fields pt)) (part_files p pt) q'"
proof -
  have pt: "quotable (pt_name pt)" "\<And>f. pt_file pt = Some f \<Longrightarrow> quotable f" "length (pt_extra pt) \<le> 3" "\<forall>l \<in> set (pt_extra pt). other_header l"
    using ok by (auto simp: part_ok_def)
  have cl: "\<forall>l \<in> set ls. clean l" using disposition_line(1) [OF pt(1,2)] pt(4) by (auto simp: hb(1) other_header_def)
  have "0 \<notin> set hbuf" using lines_no_nul [OF cl] by (auto simp: hb(2) dest: in_set_takeD)
  then have tw: "takeWhile (\<lambda>c. c \<noteq> 0) hbuf = hbuf" unfolding takeWhile_eq_all_conv by blast
  have "kore_split_string hbuf crlf 5 = ls" using split_lines [OF _ cl, of 4] pt(3) by (simp add: kore_split_string_def hb)
  then have "multipart_parse_headers env bd hbuf inb q = multipart_headers env bd ls inb q" by (simp add: multipart_parse_headers_def tw)
  moreover obtain inb' q' where "multipart_header env bd (disposition pt) inb q = Some (Inr (inb', q'))"
    "at_place body (p + length (pt_data pt) + 2 + length bd) inb' q'"
    "page_gains q (filter (accepted env (hdlr q) (req_method q) False) (part_fields pt)) (part_files p pt) q'"
    using disposition_read [OF ok bd at] by blast
  ultimately show ?thesis using other_headers_skipped [OF pt(4)] by (auto simp: hb(1))
qed

fun form_files :: "u8 list \<Rightarrow> nat \<Rightarrow> form_part list \<Rightarrow> http_file list" where
  "form_files bd p [] = []"
| "form_files bd p (pt # pts) =
     part_files (p + 2 + length (lines_text (disposition pt # pt_extra pt)) + 2) pt @ form_files bd (p + length (part_text bd pt)) pts"

lemma multipart_loop_reads:
  assumes "bd \<noteq> []" "\<forall>pt \<in> set pts. part_ok bd pt" "at_place body p inb q"
    "drop p body = concat (map (part_text bd) pts) @ [0x2d, 0x2d, 13, 10]"
  shows "\<exists>q'. multipart_loop env bd inb q = Some (Inr q') \<and>
    page_gains q (filter (accepted env (hdlr q) (req_method q) False) (concat (map part_fields pts))) (form_files bd p pts) q' \<and>
    (\<exists>k. reading body k q')"
  using assms(2-4)
proof (induction pts arbitrary: p inb q)
  case Nil
  have "first_occ crlf (drop p body) = Some 2" using Nil.prems(3) by simp
  then obtain inb1 q1 where f: "multipart_find_data crlf inb q = Some (Inr (True, inb1, take 2 (drop p body), q1))"
    "at_place body (p + 2 + length crlf) inb1 q1" "page_gains q [] [] q1" using data_found [OF _ Nil.prems(2), of crlf 2] by blast
  have "length (drop p body) = 4" unfolding Nil.prems(3) by simp
  then have "length body - p = 4" by simp
  then have "drop (p + 4) body = []" "length body = p + 4" by simp_all
  then have "inb1 = []" "http_body_length q1 = 0" using f(2) by (auto simp: at_place_def reading_def)
  then have "multipart_loop env bd inb q = Some (Inr q1)" using f(1) by (subst multipart_loop.simps) simp
  moreover have "\<exists>k. reading body k q1" using f(2) by (auto simp: at_place_def)
  ultimately show ?case using f(3) by auto
next
  case (Cons pt pts)
  let ?ls = "disposition pt # pt_extra pt"
  let ?L = "lines_text ?ls" and ?rest = "concat (map (part_text bd) pts) @ [0x2d, 0x2d, 13, 10]"
  have ok: "part_ok bd pt" and oks: "\<forall>pt \<in> set pts. part_ok bd pt" using Cons.prems(1) by simp_all
  have "quotable (pt_name pt)" "\<And>f. pt_file pt = Some f \<Longrightarrow> quotable f" "\<forall>l \<in> set (pt_extra pt). other_header l" using ok by (auto simp: part_ok_def)
  then have cl: "\<forall>l \<in> set ?ls. clean l" using disposition_line(1) [of pt] by (simp add: other_header_def)
  have L: "2 \<le> length ?L" by simp
  have b0: "drop p body = 13 # 10 # ?L @ 13 # 10 # pt_data pt @ crlf @ bd @ ?rest" using Cons.prems(3) by (simp add: part_text_def [of bd pt])
  then have "first_occ crlf (drop p body) = Some 0" by simp
  then obtain inb1 q1 where f1: "multipart_find_data crlf inb q = Some (Inr (True, inb1, take 0 (drop p body), q1))"
    "at_place body (p + 0 + length crlf) inb1 q1" "page_gains q [] [] q1" using data_found [OF _ Cons.prems(2), of crlf 0] by blast
  have a1: "at_place body (p + 2) inb1 q1" using f1(2) by simp
  have "drop (p + 2) body = drop 2 (drop p body)" by (simp add: add.commute)
  then have b1: "drop (p + 2) body = ?L @ 13 # 10 # pt_data pt @ crlf @ bd @ ?rest" using b0 by simp
  have "4 \<le> length (drop (p + 2) body)" unfolding b1 by simp
  then have more: "(length inb1 < 4 \<and> http_body_length q1 = 0) = False" using a1 by (auto simp: at_place_def reading_def)
  have "first_occ [13, 10, 13, 10] (drop (p + 2) body) = Some (length ?L - 2)" unfolding b1 using header_end_lines [OF _ cl] by simp
  then obtain inb2 q2 where f2: "multipart_find_data [13, 10, 13, 10] inb1 q1 = Some (Inr (True, inb2, take (length ?L - 2) (drop (p + 2) body), q2))"
    "at_place body (p + 2 + (length ?L - 2) + length [13, 10, 13, 10 :: u8]) inb2 q2" "page_gains q1 [] [] q2" using data_found [OF _ a1, of "[13, 10, 13, 10]"] by blast
  let ?p = "p + 2 + length ?L + 2"
  have "p + 2 + (length ?L - 2) + length [13, 10, 13, 10 :: u8] = ?p" using L by simp
  then have a2: "at_place body ?p inb2 q2" using f2(2) by (simp only:)
  have "drop ?p body = drop (length (?L @ crlf)) (drop (p + 2) body)" by (simp add: add_ac)
  moreover have "(?L @ crlf) @ pt_data pt @ crlf @ bd @ ?rest = drop (p + 2) body" unfolding b1 by simp
  ultimately have b2: "drop ?p body = pt_data pt @ crlf @ bd @ ?rest" by (metis append_eq_conv_conj)
  have tk: "take (length ?L - 2) (drop (p + 2) body) = take (length ?L - 2) ?L"
  proof -
    have "length ?L - 2 - length ?L = 0" by simp
    then show ?thesis unfolding b1 by (simp only: take_append take_0 append_Nil2)
  qed
  obtain inb3 q3 where f3: "multipart_parse_headers env bd (take (length ?L - 2) ?L) inb2 q2 = Some (Inr (inb3, q3))"
    "at_place body (?p + length (pt_data pt) + 2 + length bd) inb3 q3"
    "page_gains q2 (filter (accepted env (hdlr q2) (req_method q2) False) (part_fields pt)) (part_files ?p pt) q3"
    using part_headers_read [OF ok assms(1) a2 b2 refl refl, of env] by blast
  let ?e = "p + length (part_text bd pt)"
  have e: "?p + length (pt_data pt) + 2 + length bd = ?e" by (simp add: part_text_def)
  have "drop ?e body = drop (length (part_text bd pt)) (drop p body)" by (simp add: add.commute)
  then have b3: "drop ?e body = ?rest" using Cons.prems(3) by simp
  have same: "hdlr q2 = hdlr q" "req_method q2 = req_method q" "hdlr q3 = hdlr q" "req_method q3 = req_method q"
    using f1(3) f2(3) f3(3) by (simp_all add: page_gains_def)
  obtain q4 where f4: "multipart_loop env bd inb3 q3 = Some (Inr q4)"
    "page_gains q3 (filter (accepted env (hdlr q3) (req_method q3) False) (concat (map part_fields pts))) (form_files bd ?e pts) q4" "\<exists>k. reading body k q4"
    using Cons.IH [OF oks _ b3] f3(2) unfolding e by blast
  have "multipart_loop env bd inb q = Some (Inr q4)" using f1(1) f2(1) f3(1) f4(1) by (subst multipart_loop.simps) (simp add: more tk del: lines_text_simps drop_drop One_nat_def add_2_eq_Suc')
  moreover have "page_gains q (filter (accepted env (hdlr q) (req_method q) False) (concat (map part_fields (pt # pts)))) (form_files bd p (pt # pts)) q4"
    using page_gains_trans [OF page_gains_trans [OF page_gains_trans [OF f1(3) f2(3)] f3(3)] f4(2)] by (simp add: same)
  ultimately show ?case using f4(3) by blast
qed

text \<open>
  A file of the form, read from any place with any length, whatever reads of files there were before: they change nothing of
  the request but the position in the file of the body.
\<close>

definition moved :: "http_request \<Rightarrow> http_request \<Rightarrow> bool" where
  "moved q q' \<longleftrightarrow> q' = q\<lparr>http_body_fd := http_body_fd q'\<rparr> \<and> map_option fst (http_body_fd q') = map_option fst (http_body_fd q)"

definition file_reads :: "http_request \<Rightarrow> http_file \<Rightarrow> u8 list \<Rightarrow> bool" where
  "file_reads q f d \<longleftrightarrow> f_offset f = 0 \<and>
     (\<forall>q1 k n. moved q q1 \<longrightarrow> k \<le> length d \<longrightarrow> n < 2 ^ 62 \<longrightarrow>
        (\<exists>q2. moved q q2 \<and> http_file_read (f\<lparr>f_offset := int k\<rparr>) n q1 =
        Inr (Some (take n (drop k d)), f\<lparr>f_offset := int (k + length (take n (drop k d)))\<rparr>, q2)))"

lemma moved_body:
  assumes "moved q q1" "reading body r q"
  shows "(\<exists>r'. http_body_fd q1 = Some (body, r')) \<or> http_body_fd q1 = None \<and> http_body_fd q = None \<and> http_body q1 = http_body q"
proof (cases "http_body_fd q")
  case (Some a)
  then have "a = (body, r)" using assms(2) by (cases a) (simp add: reading_def)
  then show ?thesis using assms(1) Some by (auto simp: moved_def)
next
  case None
  then have "http_body_fd q1 = None" using assms(1) by (simp add: moved_def)
  moreover from this None have "q1 = q" using assms(1) by (simp add: moved_def)
  ultimately show ?thesis using None by simp
qed

lemma moved_again: "moved q q1 \<Longrightarrow> http_body_fd q1 = Some (body, r) \<Longrightarrow> moved q (q1\<lparr>http_body_fd := Some (body, r')\<rparr>)"
  by (cases q; cases q1) (auto simp: moved_def)

lemma file_read_part:
  assumes "reading body r q" "take l (drop p body) = d" "p + l \<le> length body" "length body \<le> BUF_MAX" "f_position f = int p" "f_length f = int l"
    "f_offset f = 0"
  shows "file_reads q f d"
  unfolding file_reads_def
proof (intro conjI allI impI)
  fix q1 k n assume mv: "moved q q1" and k: "k \<le> length d" and n: "n < (2 :: nat) ^ 62"
  have l: "length d = l" using assms(2,3) by auto
  let ?j = "min n (l - k)"
  have d: "take n (drop k d) = take ?j (drop (p + k) body)" "length (take n (drop k d)) = ?j"
  proof -
    have "drop k d = take (l - k) (drop (p + k) body)" using assms(2) by (auto simp: drop_take add.commute)
    then show "take n (drop k d) = take ?j (drop (p + k) body)" by simp
  qed (simp add: l min.commute)
  have b: "length body \<le> 2 ^ 62" using assms(4) by (simp add: BUF_MAX_def)
  have "p + k \<le> length body" "k + n < 2 ^ 63" using k l assms(3) n b by (simp_all add: field_simps)
  then have w: "(int k + int n) mod 2 ^ 64 = int (k + n)" "(int p + int k) mod 2 ^ 64 = int (p + k)" using b by simp_all
  let ?f = "f\<lparr>f_offset := int k\<rparr>"
  have tr: "nat (min (int n) (f_length ?f - f_offset ?f)) = ?j"
  proof -
    have "f_length ?f - f_offset ?f = int (l - k)" using k l assms(6) by (simp add: of_nat_diff)
    then show ?thesis by (simp only: of_nat_min [symmetric] nat_int)
  qed
  have nt: "nat (int p + int k) = p + k" by simp
  have off: "(f_position ?f + f_offset ?f) mod 2 ^ 64 = int (p + k)" using w(2) assms(5) by simp
  have g: "(f_length ?f < f_offset ?f \<or> (f_offset ?f + int n) mod 2 ^ 64 < f_offset ?f \<or> int (p + k) < f_position ?f) = False"
    using k l assms(5,6) w by simp
  have lo: "\<not> LLONG_MAX < int (p + k)" using \<open>p + k \<le> length body\<close> b by simp
  show "\<exists>q2. moved q q2 \<and> http_file_read ?f n q1 = Inr (Some (take n (drop k d)), f\<lparr>f_offset := int (k + length (take n (drop k d)))\<rparr>, q2)"
  proof (cases "?j = 0")
    case True
    then have e: "take n (drop k d) = []" using d(2) by (metis length_0_conv)
    show ?thesis unfolding http_file_read_def Let_def e off tr g if_False using True mv by auto
  next
    case False
    have ne: "take ?j (drop (p + k) body) \<noteq> []" using d False by (metis length_0_conv)
    from moved_body [OF mv assms(1)] show ?thesis
    proof (elim disjE exE conjE)
      fix r' assume 1: "http_body_fd q1 = Some (body, r')"
      let ?q2 = "q1\<lparr>http_body_fd := Some (body, p + k + length (take ?j (drop (p + k) body)))\<rparr>"
      have "http_file_read ?f n q1 = Inr (Some (take ?j (drop (p + k) body)), f\<lparr>f_offset := int k + int (length (take ?j (drop (p + k) body)))\<rparr>, ?q2)"
        unfolding http_file_read_def Let_def off tr g if_False 1 option.case prod.case if_not_P [OF False] if_not_P [OF lo] nat_int if_not_P [OF ne]
        by simp
      moreover have "moved q ?q2" by (rule moved_again [OF mv 1])
      ultimately show ?thesis using d by (intro exI [of _ ?q2]) (simp only: of_nat_add simp_thms)
    next
      assume 2: "http_body_fd q1 = None" "http_body_fd q = None" "http_body q1 = http_body q"
      then obtain bf where bf: "http_body q1 = Some bf" "int (length body) \<le> buf_length bf" "take (length body) (cells_of bf) = map Some body"
        using assms(1) by (auto simp: reading_def)
      have "read_cells bf (p + k) ?j = Inr (take ?j (drop (p + k) body))" using assms(3) k l by (intro read_known [OF bf(3)]) simp
      moreover have "\<not> int (p + k) > buf_length bf" using bf(2) assms(3) k l by simp
      ultimately show ?thesis unfolding http_file_read_def Let_def off tr g if_False using 2(1) bf(1) False d mv by (simp add: nt)
    qed
  qed
qed (rule assms(7))

definition upload :: "form_part \<Rightarrow> bool" where
  "upload pt \<longleftrightarrow> pt_file pt \<noteq> None \<and> pt_data pt \<noteq> []"

lemma form_files_read:
  assumes "reading body r q" "length body \<le> BUF_MAX" "drop p body = concat (map (part_text bd) pts) @ rest"
  shows "list_all2 (\<lambda>f pt. f_name f = pt_name pt \<and> Some (f_filename f) = pt_file pt \<and> file_reads q f (pt_data pt)) (form_files bd p pts) (filter upload pts)"
  using assms(3)
proof (induction pts arbitrary: p)
  case (Cons pt pts)
  let ?L = "lines_text (disposition pt # pt_extra pt)" and ?e = "p + length (part_text bd pt)" and ?R = "concat (map (part_text bd) pts) @ rest"
  let ?p = "p + 2 + length ?L + 2"
  have "drop ?e body = drop (length (part_text bd pt)) (drop p body)" by (simp add: add.commute)
  then have rest: "drop ?e body = ?R" using Cons.prems by simp
  have "(crlf @ ?L @ crlf) @ pt_data pt @ crlf @ bd @ ?R = drop p body" using Cons.prems by (simp add: part_text_def [of bd pt])
  moreover have "drop ?p body = drop (length (crlf @ ?L @ crlf)) (drop p body)" by (simp add: add_ac)
  ultimately have dd: "drop ?p body = pt_data pt @ crlf @ bd @ ?R" by (metis append_eq_conv_conj)
  then have "length (drop ?p body) \<ge> length (pt_data pt) + 2" by simp
  then have l: "?p + length (pt_data pt) \<le> length body" by simp
  have t: "take (length (pt_data pt)) (drop ?p body) = pt_data pt" unfolding dd by simp
  have "list_all2 (\<lambda>f pt. f_name f = pt_name pt \<and> Some (f_filename f) = pt_file pt \<and> file_reads q f (pt_data pt)) (part_files ?p pt) (filter upload [pt])"
    using file_read_part [OF assms(1) t l assms(2)] by (auto simp: part_files_def upload_def split: option.split)
  then have "list_all2 (\<lambda>f pt. f_name f = pt_name pt \<and> Some (f_filename f) = pt_file pt \<and> file_reads q f (pt_data pt))
      (part_files ?p pt @ form_files bd ?e pts) (filter upload [pt] @ filter upload pts)" using Cons.IH [OF rest] by (rule list_all2_appendI)
  then show ?case by (cases "upload pt") simp_all
qed simp

lemma form_read:
  assumes "req_method q = POST" "body_ready q (form_text bd pts)" "length (form_text bd pts) \<le> BUF_MAX"
    "http_request_header q (cstr ''content-type'') = Some (cstr ''multipart/form-data; boundary='' @ b)"
    "bd = cstr ''--'' @ b" "0x3b \<notin> set b" "length bd < HTTP_BOUNDARY_MAX env" "\<forall>pt \<in> set pts. part_ok bd pt"
  shows "\<exists>q' fs. http_populate_multipart_form env q = Some (Inr q') \<and>
    arguments q' = arguments q @ filter (accepted env (hdlr q) POST False) (concat (map part_fields pts)) \<and> files q' = files q @ fs \<and>
    list_all2 (\<lambda>f pt. f_name f = pt_name pt \<and> Some (f_filename f) = pt_file pt \<and> file_reads q' f (pt_data pt)) fs (filter upload pts)"
proof -
  let ?body = "form_text bd pts" and ?t = "cstr ''multipart/form-data''"
  have bd: "bd \<noteq> []" using assms(5) by simp
  have "kore_split_string (joined 0x3b [?t, cstr '' boundary='' @ b]) [0x3b] 3 = [?t, cstr '' boundary='' @ b]"
    using assms(6) by (intro split_string_joined) auto
  then have sp: "kore_split_string (cstr ''multipart/form-data; boundary='' @ b) (cstr '';'') 3 = [?t, cstr '' boundary='' @ b]" by simp
  have st: "strchr_from (cstr '' boundary='' @ b) 0x3d = Some (0x3d # b)" by (simp add: strchr_from_def)
  have "at_place ?body 0 [] q" using body_ready_reading [OF assms(2)] by (simp add: at_place_def)
  moreover have "first_occ bd ?body = Some 0" using bd by (cases bd) (simp_all add: form_text_def)
  ultimately obtain inb1 q1 where f: "multipart_find_data bd [] q = Some (Inr (True, inb1, take 0 (drop 0 ?body), q1))" "at_place ?body (0 + 0 + length bd) inb1 q1"
    "page_gains q [] [] q1" using data_found [OF bd, of ?body 0 "[]" q 0] by auto
  have a: "at_place ?body (length bd) inb1 q1" "drop (length bd) ?body = concat (map (part_text bd) pts) @ [0x2d, 0x2d, 13, 10]"
    using f(2) by (simp_all add: form_text_def)
  obtain q2 k where q2: "multipart_loop env bd inb1 q1 = Some (Inr q2)"
    "page_gains q1 (filter (accepted env (hdlr q1) (req_method q1) False) (concat (map part_fields pts))) (form_files bd (length bd) pts) q2" "reading ?body k q2"
    using multipart_loop_reads [OF bd assms(8) a, of env] by blast
  have p: "http_populate_multipart_form env q = Some (Inr q2)"
    unfolding http_populate_multipart_form_def Let_def assms(4) option.case sp
    using assms(1,5,7) st f(1) q2(1) by (simp del: cstr_simps)
  have "list_all2 (\<lambda>f pt. f_name f = pt_name pt \<and> Some (f_filename f) = pt_file pt \<and> file_reads q2 f (pt_data pt)) (form_files bd (length bd) pts) (filter upload pts)"
    by (rule form_files_read [OF q2(3) assms(3) a(2)])
  moreover have "arguments q2 = arguments q @ filter (accepted env (hdlr q) POST False) (concat (map part_fields pts))" "files q2 = files q @ form_files bd (length bd) pts"
    using f(3) q2(2) assms(1) by (simp_all add: page_gains_def)
  ultimately show ?thesis using p by blast
qed

section \<open>Properties\<close>

fun http_body_reads :: "nat list \<Rightarrow> http_request \<Rightarrow> (u8 list option list \<times> http_request) c_result" where
  "http_body_reads [] req = Inr ([], req)"
| "http_body_reads (n # ns) req =
     c_bind (http_body_read n req) (\<lambda>(bs, req). c_bind (http_body_reads ns req) (\<lambda>(bss, req). Inr (bs # bss, req)))"

text \<open>
  C39: The body of a request that has arrived is read in order and without a fault, whatever lengths are asked for and
  whether it is in a buffer or in a file: what the reads give is the body as far as they reach, and nothing after
  its end.
\<close>

theorem body_read_in_order:
  assumes "body_ready req body" "\<forall>n \<in> set ns. 0 < n"
  shows "\<exists>bss req'. http_body_reads ns req = Inr (map Some bss, req') \<and> concat bss = take (sum_list ns) body"
proof -
  have "\<exists>bss req'. http_body_reads ns req = Inr (map Some bss, req') \<and> concat bss = take (sum_list ns) (drop k body)"
    if "reading body k req" "\<forall>n \<in> set ns. 0 < n" for k
    using that
  proof (induction ns arbitrary: k req)
    case (Cons n ns)
    let ?d = "take n (drop k body)"
    obtain q where q: "http_body_read n req = Inr (Some ?d, q)" "reading body (k + length ?d) q" using body_read_step [OF Cons.prems(1), of n] Cons.prems(2) by auto
    obtain bss req' where r: "http_body_reads ns q = Inr (map Some bss, req')" "concat bss = take (sum_list ns) (drop (k + length ?d) body)"
      using Cons.IH [OF q(2)] Cons.prems(2) by auto
    have "drop (k + length ?d) body = drop (length ?d) (drop k body)" by (simp only: drop_drop add.commute)
    moreover have "?d @ take m (drop (length ?d) (drop k body)) = take (n + m) (drop k body)" for m
      by (cases "n \<le> length (drop k body)") (simp_all add: take_add)
    ultimately have "concat (?d # bss) = take (sum_list (n # ns)) (drop k body)" using r(2) by (simp only: concat.simps sum_list.Cons)
    then show ?case using q(1) r(1) by (intro exI [of _ "?d # bss"]) simp
  qed simp
  then show ?thesis using body_ready_reading [OF assms(1)] assms(2) by fastforce
qed

text \<open>
  C38: The search for a boundary, which reads the body in pieces and moves the bytes of its buffer as it goes, finds the first
  occurrence of the boundary in the whole body, wherever the pieces are cut; it keeps what stands before it,
  and what was read after it stays for the next search. It ends, with an answer, on every body.
\<close>

theorem search_finds_first:
  assumes "body_ready req body" "needle \<noteq> []"
  shows "case first_occ needle body of
      Some e \<Rightarrow> \<exists>inb req' k. multipart_find_data needle [] req = Some (Inr (True, inb, take e body, req')) \<and>
        reading body k req' \<and> inb @ drop k body = drop (e + length needle) body
    | None \<Rightarrow> \<exists>inb out req'. multipart_find_data needle [] req = Some (Inr (False, inb, out, req'))"
proof -
  have at: "at_place body 0 [] req" using body_ready_reading [OF assms(1)] by (simp add: at_place_def)
  show ?thesis
  proof (cases "first_occ needle body")
    case None
    then show ?thesis using find_data_first [OF assms(2) at, of "[]"] by (auto simp: multipart_find_data_def)
  next
    case (Some e)
    obtain inb req' where r: "multipart_find_data needle [] req = Some (Inr (True, inb, take e body, req'))" "at_place body (e + length needle) inb req'"
      using data_found [OF assms(2) at, of e] Some by auto
    have "reading body (e + length needle + length inb) req'" using r(2) by (simp add: at_place_def)
    then show ?thesis unfolding Some option.case using r(1) at_place_whole [OF r(2)] by blast
  qed
qed

definition cookie_ok :: "u8 list \<times> u8 list \<Rightarrow> bool" where
  "cookie_ok c \<longleftrightarrow> fst c \<noteq> [] \<and> snd c \<noteq> [] \<and> \<not> is_white (hd (fst c)) \<and> (\<forall>x \<in> {0x3b, 0x3d}. x \<notin> set (fst c) \<and> x \<notin> set (snd c))"

fun cookies_text :: "(u8 list \<times> u8 list) list \<Rightarrow> u8 list" where
  "cookies_text [] = []"
| "cookies_text (c # cs) = joined 0x3b ((fst c @ 0x3d # snd c) # map (\<lambda>c. 0x20 # fst c @ 0x3d # snd c) cs)"

lemma add_cookie_ok:
  assumes "cookie_ok c" "ws \<in> {[], [0x20]}"
  shows "add_cookie (ws @ fst c @ 0x3d # snd c) req = req\<lparr>req_cookies := req_cookies req @ [c]\<rparr>"
proof -
  have "dropWhile is_white (ws @ fst c @ 0x3d # snd c) = fst c @ 0x3d # snd c"
    using assms by (cases "fst c") (auto simp: cookie_ok_def is_white_def)
  moreover have "kore_split_string (fst c @ 0x3d # snd c) [0x3d] 3 = [fst c, snd c]"
    using split_string_joined [of "[fst c, snd c]" "0x3d" 3] assms(1) by (simp add: cookie_ok_def)
  ultimately show ?thesis by (simp add: add_cookie_def)
qed

text \<open>
  The cookies a client sends in one header, names and values without \<open>=\<close> and \<open>;\<close>, are those of the request, in order.
\<close>

theorem cookies_received:
  assumes "http_request_header req (cstr ''cookie'') = Some (cookies_text cs)" "cs \<noteq> []" "\<forall>c \<in> set cs. cookie_ok c" "length cs < HTTP_MAX_COOKIES env"
  shows "http_populate_cookies env req = req\<lparr>req_cookies := req_cookies req @ cs\<rparr>"
proof -
  obtain c cs' where cs: "cs = c # cs'" using assms(2) by (cases cs) auto
  let ?ts = "(fst c @ 0x3d # snd c) # map (\<lambda>c. 0x20 # fst c @ 0x3d # snd c) cs'"
  have "kore_split_string (joined 0x3b ?ts) [0x3b] (HTTP_MAX_COOKIES env) = ?ts"
    using assms(3,4) cs by (intro split_string_joined) (auto simp: cookie_ok_def)
  then have p: "http_populate_cookies env req = fold add_cookie ?ts req" using assms(1) cs by (simp add: http_populate_cookies_def)
  have f: "fold add_cookie (map (\<lambda>c. 0x20 # fst c @ 0x3d # snd c) cs') req = req\<lparr>req_cookies := req_cookies req @ cs'\<rparr>"
    if "\<forall>c \<in> set cs'. cookie_ok c" for req cs'
    using that
  proof (induction cs' arbitrary: req)
    case (Cons c cs')
    then show ?case using add_cookie_ok [of c "[0x20]" req] by simp
  qed simp
  show ?thesis unfolding p using f [of cs'] add_cookie_ok [of c "[]"] assms(3) cs by simp
qed

text \<open>
  A cookie whose value has a \<open>=\<close> in it, as the padding of base64 is, keeps only what stands before it.
\<close>

theorem cookie_value_cut:
  assumes "cookie_ok (n, v)" "0x3b \<notin> set rest" "http_request_header req (cstr ''cookie'') = Some (n @ 0x3d # v @ 0x3d # rest)" "1 < HTTP_MAX_COOKIES env"
  shows "http_populate_cookies env req = req\<lparr>req_cookies := req_cookies req @ [(n, v)]\<rparr>"
proof -
  let ?t = "n @ 0x3d # v @ 0x3d # rest"
  have o: "n \<noteq> []" "v \<noteq> []" "\<not> is_white (hd n)" "0x3d \<notin> set n" "0x3d \<notin> set v" "0x3b \<notin> set ?t" using assms(1,2) by (auto simp: cookie_ok_def)
  have "kore_split_string (joined 0x3b [?t]) [0x3b] (HTTP_MAX_COOKIES env) = [?t]" using o(1,6) assms(4) by (intro split_string_joined) auto
  then have p: "http_populate_cookies env req = add_cookie ?t req" using assms(3) by (simp add: http_populate_cookies_def)
  have "dropWhile is_white ?t = ?t" using o(1,3) by (cases n) simp_all
  moreover have "kore_split_string ?t [0x3d] 3 = [n, v]"
    using o strsep_token(2) [OF o(4), of "v @ 0x3d # rest"] strsep_token(2) [OF o(5), of rest] by (simp add: kore_split_string_def numeral_2_eq_2 numeral_3_eq_3)
  ultimately show ?thesis unfolding p by (simp add: add_cookie_def)
qed

text \<open>
  C5: From the socket to the page: a client posts a form in parts, with fields and files in any number and order, each part
  with up to three other header lines, and a boundary that is not in any of them. Whatever way the bytes are cut into
  reads, when as many reads as there are bytes have given something the request has the fields that are not empty
  and for which the handler has a parameter that accepts the value, in order, and the files that are not empty,
  in order and with their names; and reading a file from any place with any length gives exactly its bytes.
\<close>

theorem form_received:
  assumes "can_serve env cr POST h c0" "receiving c0 True Header_Recv (http_header_max env) 0 (request_text cr @ cr_body cr)" "\<not> tls c0"
    "\<forall>rs \<in> set rss. list_all no_failure rs" "length (sock_in c0) \<le> sum_list (map gives rss)"
    "cr_body cr = form_text bd pts" "bd = cstr ''--'' @ b" "0x3b \<notin> set b" "length bd < HTTP_BOUNDARY_MAX env" "\<forall>pt \<in> set pts. part_ok bd pt"
    "find (\<lambda>(n, _). same_text n (cstr ''content-type'')) (cr_headers cr) = Some (n, cstr ''multipart/form-data; boundary='' @ b)"
  shows "\<exists>c' req'. recv_rounds (http_recv env) rss c0 = Some (Inr (True, c')) \<and>
    http_populate_multipart_form env (requests c' (next_request c0)) = Some (Inr req') \<and>
    arguments req' = filter (accepted env h POST False) (concat (map part_fields pts)) \<and>
    list_all2 (\<lambda>f pt. f_name f = pt_name pt \<and> Some (f_filename f) = pt_file pt \<and> file_reads req' f (pt_data pt)) (files req') (filter upload pts)"
proof -
  obtain c' where c': "recv_rounds (http_recv env) rss c0 = Some (Inr (True, c'))" "request_here env cr POST h c0 c'"
    using request_received [OF assms(1-4)] assms(5) by blast
  let ?q = "requests c' (next_request c0)"
  have q: "req_method ?q = POST" "hdlr ?q = h" "arguments ?q = []" "files ?q = []" "req_headers ?q = cr_headers cr" "request_done env ?q (cr_body cr)"
    using c'(2) by (simp_all add: request_here_def is_request_def)
  have "cr_body cr \<noteq> []" by (simp add: assms(6) form_text_def)
  then have r: "body_ready ?q (form_text bd pts)" using q(6) assms(6) by (simp add: request_done_def)
  have l: "length (form_text bd pts) \<le> BUF_MAX" using assms(1,6) by (simp add: can_serve_def body_announced_def has_body_def)
  have "http_request_header ?q (cstr ''content-type'') = Some (cstr ''multipart/form-data; boundary='' @ b)"
    unfolding http_request_header_def q(5) assms(11) by simp
  then show ?thesis using form_read [OF q(1) r l _ assms(7-10)] q(2-4) c'(1) by fastforce
qed

section \<open>Examples\<close>

definition form_handler :: http_handler where
  "form_handler = \<lparr>methods = [GET, POST], params =
     [\<lparr>param_name = cstr ''a'', param_method = POST, param_qs = False, param_validator = 0\<rparr>,
      \<lparr>param_name = cstr ''q'', param_method = GET, param_qs = True, param_validator = 0\<rparr>]\<rparr>"

definition form_config :: http_config where
  "form_config = sample_config\<lparr>kore_module_handler_find := \<lambda>_ _. Some form_handler\<rparr>"

definition form_request :: "u8 list \<Rightarrow> u8 list \<Rightarrow> u8 list \<Rightarrow> client_request" where
  "form_request ty len body = \<lparr>cr_method = cstr ''POST'', cr_path = cstr ''/f'', cr_query = None, cr_version = cstr ''HTTP/1.1'',
     cr_host = cstr ''h'', cr_headers = [(cstr ''Content-Length'', len), (cstr ''Content-Type'', ty)], cr_body = body\<rparr>"

lemma gives_replicate: "0 < m \<Longrightarrow> gives (replicate n (Io_Bytes m)) = n"
  by (induction n) simp_all

lemma form_can_serve:
  assumes "header_ok (cstr ''Content-Type'', ty)" "header_ok (cstr ''Content-Length'', len)" "kore_strtonum len 10 0 LLONG_MAX = Some (int (length body))"
    "length body \<le> 1000" "length ty + length len \<le> 1000"
  shows "can_serve form_config (form_request ty len body) POST form_handler (sample_start t q)"
  unfolding can_serve_def
proof (intro conjI)
  have h: "header_ok (cstr ''Host'', cstr ''h'')" by (simp add: header_ok_def token_char_def separators_def field_char_def is_white_def)
  show "sendable form_config (form_request ty len body)"
    using assms(1,2,5) h
    by (simp add: sendable_def word_text_def clean_def cr_target_def request_text_def request_lines_def header_line_def
      same_text_def tolower_def form_config_def sample_config_def form_request_def)
  show "served_by form_config (inet6 (sample_start t q)) (form_request ty len body) POST form_handler"
    by (simp add: served_by_def method_of_def same_text_def tolower_def host_name_def form_config_def sample_config_def form_request_def form_handler_def sample_start_def)
  show "body_announced form_config (form_request ty len body) POST"
    using assms(3,4) by (simp add: body_announced_def has_body_def same_text_def tolower_def BUF_MAX_def form_config_def sample_config_def form_request_def)
qed (simp_all add: stores_bodies_def form_config_def sample_config_def sample_start_def)

lemma form_start:
  "receiving (sample_start (request_text cr @ cr_body cr) q) True Header_Recv (http_header_max form_config) 0 (request_text cr @ cr_body cr)"
  "\<not> tls (sample_start t q)" "sock_in (sample_start t q) = t" "next_request (sample_start t q) = 0"
  by (simp_all add: receiving_def sample_start_def form_config_def sample_config_def net_netbuf_get_def malloc_cells_def)

lemma form_request_size: "length (request_text (form_request ty len body)) = 63 + length ty + length len"
  by (simp add: request_text_def request_lines_def header_line_def cr_target_def form_request_def)

abbreviation (input) urlencoded :: "u8 list" where "urlencoded \<equiv> cstr ''application/x-www-form-urlencoded''"

abbreviation (input) not_special :: "u8 \<Rightarrow> bool" where "not_special \<equiv> (\<lambda>c. c \<notin> {0, 0x25, 0x2b, 0x3d, 0x26})"

theorem posted_arguments_received_witness:
  "\<forall>q. \<exists>c' req'. recv_rounds (http_recv form_config) [replicate 200 (Io_Bytes 9)]
      (sample_start (request_text (form_request urlencoded (cstr ''10'') (cstr ''a=1%3D&b=2'')) @ cstr ''a=1%3D&b=2'') q) = Some (Inr (True, c')) \<and>
    http_populate_post form_config (requests c' 0) = Some (Inr req') \<and> arguments req' = [(cstr ''a'', cstr ''1='')]"
proof
  fix q :: http_request
  let ?args = "[(cstr ''a'', cstr ''1=''), (cstr ''b'', cstr ''2'')]" and ?body = "cstr ''a=1%3D&b=2''"
  let ?cr = "form_request urlencoded (cstr ''10'') ?body"
  let ?c = "sample_start (request_text ?cr @ cr_body ?cr) q"
  have b: "cr_body ?cr = ?body" by (simp add: form_request_def)
  have "kore_strtonum (cstr ''10'') 10 0 LLONG_MAX = Some 10" by code_simp
  then have can: "can_serve form_config ?cr POST form_handler ?c"
    by (intro form_can_serve) (simp_all add: header_ok_def token_char_def separators_def field_char_def is_white_def)
  have t: "cr_body ?cr = query_text not_special ?args"
    unfolding b by (simp add: query_text_def arg_text_def url_encode_def url_char_def hex_code_def hex_digit_def)
  have ok: "codes_reserved not_special" by (simp add: codes_reserved_def)
  have shown: "args_shown form_config not_special ?args = ?args"
    by (simp add: args_shown_def decoded_text_def control_byte_def form_config_def sample_config_def)
  have f: "\<forall>rs \<in> set [replicate 200 (Io_Bytes 9)]. list_all no_failure rs" by (simp add: list_all_iff)
  have "length (request_text ?cr @ cr_body ?cr) \<le> 200" unfolding b by (simp add: form_request_size)
  then have n: "length (sock_in ?c) \<le> sum_list (map gives [replicate 200 (Io_Bytes 9)])" by (simp only: form_start(3) list.map gives_replicate sum_list.Cons sum_list.Nil)
  have acc: "filter (accepted form_config form_handler POST False) ?args = [(cstr ''a'', cstr ''1='')]"
    by (simp add: accepted_def form_handler_def form_config_def sample_config_def)
  show "\<exists>c' req'. recv_rounds (http_recv form_config) [replicate 200 (Io_Bytes 9)] (sample_start (request_text ?cr @ ?body) q) = Some (Inr (True, c')) \<and>
    http_populate_post form_config (requests c' 0) = Some (Inr req') \<and> arguments req' = [(cstr ''a'', cstr ''1='')]"
    using posted_arguments_received [OF can form_start(1) [of ?cr q] form_start(2) f n t ok] unfolding shown acc form_start(4) b by blast
qed

theorem query_arguments_received_witness:
  "\<forall>q. arguments (http_populate_qs form_config (q\<lparr>req_method := GET, hdlr := form_handler, arguments := [],
      query_string := Some (cstr ''q=a%26b&r=1'')\<rparr>)) = [(cstr ''q'', cstr ''a&b'')]"
proof
  fix q :: http_request
  let ?args = "[(cstr ''q'', cstr ''a&b''), (cstr ''r'', cstr ''1'')]"
  let ?q = "q\<lparr>req_method := GET, hdlr := form_handler, arguments := [], query_string := Some (cstr ''q=a%26b&r=1'')\<rparr>"
  have t: "query_string ?q = Some (query_text not_special ?args)"
    by (simp add: query_text_def arg_text_def url_encode_def url_char_def hex_code_def hex_digit_def)
  have ok: "codes_reserved not_special" by (simp add: codes_reserved_def)
  have shown: "args_shown form_config not_special ?args = ?args"
    by (simp add: args_shown_def decoded_text_def control_byte_def form_config_def sample_config_def)
  show "arguments (http_populate_qs form_config ?q) = [(cstr ''q'', cstr ''a&b'')]"
    unfolding query_arguments_received [OF t ok list.distinct(2)] shown by (simp add: accepted_def form_handler_def form_config_def sample_config_def)
qed

definition body_on_file :: "u8 list \<Rightarrow> http_request \<Rightarrow> http_request" where
  "body_on_file body q = q\<lparr>http_body := None, http_body_fd := Some (body, 0), http_body_offset := 0, http_body_length := int (length body),
     content_length := int (length body)\<rparr>"

lemma file_body_ready: "body_ready (body_on_file body q) body"
  by (simp add: body_ready_def body_on_file_def)

theorem body_read_in_order_witness:
  "\<forall>q. \<exists>bss req'. http_body_reads [2, 4] (body_on_file [1, 2, 3, 4, 5] q) = Inr (map Some bss, req') \<and> concat bss = [1, 2, 3, 4, 5]"
proof
  fix q :: http_request
  have n: "\<forall>n \<in> set [2, 4 :: nat]. 0 < n" by simp
  show "\<exists>bss req'. http_body_reads [2, 4] (body_on_file [1, 2, 3, 4, 5] q) = Inr (map Some bss, req') \<and> concat bss = [1, 2, 3, 4, 5]"
    using body_read_in_order [OF file_body_ready n, of "[1, 2, 3, 4, 5]" q] by simp
qed

theorem search_finds_first_witness:
  "\<forall>q. \<exists>inb req'. multipart_find_data [7, 7] [] (body_on_file [1, 7, 2, 7, 7, 5] q) = Some (Inr (True, inb, [1, 7, 2], req'))"
proof
  fix q :: http_request
  have "first_occ [7, 7] [1, 7, 2, 7, 7, 5 :: u8] = Some 3" by simp
  then show "\<exists>inb req'. multipart_find_data [7, 7] [] (body_on_file [1, 7, 2, 7, 7, 5] q) = Some (Inr (True, inb, [1, 7, 2], req'))"
    using search_finds_first [OF file_body_ready, of "[7, 7]" "[1, 7, 2, 7, 7, 5]" q] by (auto simp: numeral_3_eq_3)
qed

theorem cookies_received_witness:
  "\<forall>q. req_cookies (http_populate_cookies form_config (q\<lparr>req_headers := [(cstr ''Cookie'', cstr ''a=1; b=2'')], req_cookies := []\<rparr>)) =
    [(cstr ''a'', cstr ''1''), (cstr ''b'', cstr ''2'')]"
proof
  fix q :: http_request
  let ?q = "q\<lparr>req_headers := [(cstr ''Cookie'', cstr ''a=1; b=2'')], req_cookies := []\<rparr>" and ?cs = "[(cstr ''a'', cstr ''1''), (cstr ''b'', cstr ''2'')]"
  have h: "http_request_header ?q (cstr ''cookie'') = Some (cookies_text ?cs)" by (simp add: http_request_header_def same_text_def tolower_def)
  have o: "?cs \<noteq> []" "\<forall>c \<in> set ?cs. cookie_ok c" "length ?cs < HTTP_MAX_COOKIES form_config"
    by (simp_all add: cookie_ok_def is_white_def form_config_def sample_config_def)
  show "req_cookies (http_populate_cookies form_config ?q) = ?cs" unfolding cookies_received [OF h o] by simp
qed

theorem cookie_value_cut_witness:
  "\<forall>q. req_cookies (http_populate_cookies form_config (q\<lparr>req_headers := [(cstr ''Cookie'', cstr ''id=YQ=='')], req_cookies := []\<rparr>)) =
    [(cstr ''id'', cstr ''YQ'')]"
proof
  fix q :: http_request
  let ?q = "q\<lparr>req_headers := [(cstr ''Cookie'', cstr ''id=YQ=='')], req_cookies := []\<rparr>"
  have c: "cookie_ok (cstr ''id'', cstr ''YQ'')" "0x3b \<notin> set (cstr ''='')" by (simp_all add: cookie_ok_def is_white_def)
  have h: "http_request_header ?q (cstr ''cookie'') = Some (cstr ''id'' @ 0x3d # cstr ''YQ'' @ 0x3d # cstr ''='')"
    by (simp add: http_request_header_def same_text_def tolower_def)
  have m: "1 < HTTP_MAX_COOKIES form_config" by (simp add: form_config_def sample_config_def)
  show "req_cookies (http_populate_cookies form_config ?q) = [(cstr ''id'', cstr ''YQ'')]" unfolding cookie_value_cut [OF c h m] by simp
qed

abbreviation (input) form_type :: "u8 list" where "form_type \<equiv> cstr ''multipart/form-data; boundary=xy''"

definition sample_parts :: "form_part list" where
  "sample_parts =
     [\<lparr>pt_name = cstr ''a'', pt_file = None, pt_extra = [], pt_data = cstr ''v1''\<rparr>,
      \<lparr>pt_name = cstr ''f'', pt_file = Some (cstr ''n.txt''), pt_extra = [cstr ''Content-Type: text/plain''], pt_data = [0, 13, 10]\<rparr>]"

lemma sample_parts_ok: "\<forall>pt \<in> set sample_parts. part_ok (cstr ''--xy'') pt"
proof -
  have "kore_split_string (cstr ''Content-Type: text/plain'') (cstr '':'') 5 = [cstr ''Content-Type'', cstr '' text/plain'']" by code_simp
  then have "other_header (cstr ''Content-Type: text/plain'')"
    by (simp add: other_header_def clean_def same_text_def tolower_def)
  moreover have "quotable (cstr ''a'')" "quotable (cstr ''f'')" "quotable (cstr ''n.txt'')" by (simp_all add: quotable_def)
  ultimately show ?thesis by (simp add: sample_parts_def part_ok_def del: cstr_simps) simp
qed

theorem form_received_witness:
  "\<forall>q. \<exists>c' req' f. recv_rounds (http_recv form_config) [replicate 400 (Io_Bytes 9)]
      (sample_start (request_text (form_request form_type (cstr ''161'') (form_text (cstr ''--xy'') sample_parts)) @ form_text (cstr ''--xy'') sample_parts) q) =
      Some (Inr (True, c')) \<and>
    http_populate_multipart_form form_config (requests c' 0) = Some (Inr req') \<and>
    arguments req' = [(cstr ''a'', cstr ''v1'')] \<and> files req' = [f] \<and> f_filename f = cstr ''n.txt'' \<and> file_reads req' f [0, 13, 10]"
proof
  fix q :: http_request
  let ?body = "form_text (cstr ''--xy'') sample_parts"
  let ?cr = "form_request form_type (cstr ''161'') ?body"
  let ?c = "sample_start (request_text ?cr @ cr_body ?cr) q"
  have b: "cr_body ?cr = ?body" by (simp only: form_request_def client_request.simps)
  have len: "length ?body = 161" by (simp add: form_text_def part_text_def disposition_def sample_parts_def)
  have "kore_strtonum (cstr ''161'') 10 0 LLONG_MAX = Some 161" by code_simp
  then have can: "can_serve form_config ?cr POST form_handler ?c"
    by (intro form_can_serve) (simp_all add: len [simplified] header_ok_def token_char_def separators_def field_char_def is_white_def)
  have f: "\<forall>rs \<in> set [replicate 400 (Io_Bytes 9)]. list_all no_failure rs" by (simp add: list_all_iff)
  have "length (request_text ?cr @ cr_body ?cr) \<le> 400" unfolding b by (simp add: form_request_size len [simplified])
  then have n: "length (sock_in ?c) \<le> sum_list (map gives [replicate 400 (Io_Bytes 9)])" by (simp only: form_start(3) list.map gives_replicate sum_list.Cons sum_list.Nil)
  have bd: "cstr ''--xy'' = cstr ''--'' @ cstr ''xy''" "0x3b \<notin> set (cstr ''xy'')" "length (cstr ''--xy'') < HTTP_BOUNDARY_MAX form_config"
    by (simp_all add: form_config_def sample_config_def)
  have ty: "find (\<lambda>(n, _). same_text n (cstr ''content-type'')) (cr_headers ?cr) = Some (cstr ''Content-Type'', cstr ''multipart/form-data; boundary='' @ cstr ''xy'')"
    by (simp add: form_request_def same_text_def tolower_def)
  have acc: "filter (accepted form_config form_handler POST False) (concat (map part_fields sample_parts)) = [(cstr ''a'', cstr ''v1'')]"
    by (simp add: accepted_def form_handler_def form_config_def sample_config_def sample_parts_def part_fields_def)
  obtain c' req' where r: "recv_rounds (http_recv form_config) [replicate 400 (Io_Bytes 9)] (sample_start (request_text ?cr @ ?body) q) = Some (Inr (True, c'))"
    "http_populate_multipart_form form_config (requests c' 0) = Some (Inr req')" "arguments req' = [(cstr ''a'', cstr ''v1'')]"
    "list_all2 (\<lambda>f pt. f_name f = pt_name pt \<and> Some (f_filename f) = pt_file pt \<and> file_reads req' f (pt_data pt)) (files req') (filter upload sample_parts)"
    using form_received [OF can form_start(1) [of ?cr q] form_start(2) f n b bd sample_parts_ok ty] unfolding acc form_start(4) b by blast
  have "filter upload sample_parts = [\<lparr>pt_name = cstr ''f'', pt_file = Some (cstr ''n.txt''), pt_extra = [cstr ''Content-Type: text/plain''], pt_data = [0, 13, 10]\<rparr>]"
    by (simp add: sample_parts_def upload_def)
  then obtain f where "files req' = [f]" "f_filename f = cstr ''n.txt''" "file_reads req' f [0, 13, 10]"
    using r(4) by (auto simp: list_all2_Cons2 simp del: cstr_simps)
  then show "\<exists>c' req' f. recv_rounds (http_recv form_config) [replicate 400 (Io_Bytes 9)] (sample_start (request_text ?cr @ ?body) q) = Some (Inr (True, c')) \<and>
    http_populate_multipart_form form_config (requests c' 0) = Some (Inr req') \<and>
    arguments req' = [(cstr ''a'', cstr ''v1'')] \<and> files req' = [f] \<and> f_filename f = cstr ''n.txt'' \<and> file_reads req' f [0, 13, 10]"
    using r(1-3) by blast
qed

end
