(* ===== verification/Kore_Http_Answer.thy ===== *)
theory Kore_Http_Answer
  imports Kore_Http_Recv
begin

text \<open>
  The answers of the web server as a client reads them: the texts \<open>http_response_normal\<close> of \<open>Kore_Http\<close> puts together,
  the reader of a client, and answers and partial sends on one connection.
\<close>

section \<open>The lines of an answer\<close>

definition cookie_text :: "http_config \<Rightarrow> http_cookie \<Rightarrow> u8 list option" where
  "cookie_text env ck =
     (if ck_expires ck > 0 \<and> cookie_date env (ck_expires ck) = None then None
      else Some (ck_name ck @ cstr ''='' @ ck_value ck @
        (case ck_path ck of None \<Rightarrow> [] | Some p \<Rightarrow> cstr ''; Path='' @ p) @
        (case ck_domain ck of None \<Rightarrow> [] | Some d \<Rightarrow> cstr ''; Domain='' @ d) @
        (if ck_expires ck > 0 then cstr ''; Expires='' @ the (cookie_date env (ck_expires ck)) else []) @
        (if ck_maxage ck > 0 then cstr ''; Max-Age='' @ sprintf_d (ck_maxage ck) else []) @
        (if ck_httponly ck then cstr ''; HttpOnly'' else []) @ (if ck_secure ck then cstr ''; Secure'' else [])))"

definition cookie_headers :: "http_config \<Rightarrow> http_request \<Rightarrow> (u8 list \<times> u8 list) list" where
  "cookie_headers env q = map (Pair (cstr ''set-cookie'')) (List.map_filter (cookie_text env) (resp_cookies q))"

definition status_line :: "http_config \<Rightarrow> http_request \<Rightarrow> int \<Rightarrow> u8 list" where
  "status_line env q status =
     cstr ''HTTP/1.'' @ (if rq_v10 q then 48 else 49) # cstr '' '' @ sprintf_d status @ cstr '' '' @ http_status_text (code env) status"

text \<open>Whether the client or an earlier answer wants the connection closed, and whether it is after this one.\<close>

definition wants_close :: "bool \<Rightarrow> http_request \<Rightarrow> bool" where
  "wants_close closed q \<longleftrightarrow>
     closed \<or> (case http_request_header q (cstr ''connection'') of None \<Rightarrow> False | Some v \<Rightarrow> same_text v (cstr ''close''))"

definition closes :: "http_config \<Rightarrow> bool \<Rightarrow> bool \<Rightarrow> http_request \<Rightarrow> bool" where
  "closes env http closed q \<longleftrightarrow> closed \<or> http \<and> (http_keepalive_time env = 0 \<or> wants_close closed q)"

definition connection_headers :: "http_config \<Rightarrow> bool \<Rightarrow> bool \<Rightarrow> http_request \<Rightarrow> (u8 list \<times> u8 list) list" where
  "connection_headers env http closed q =
     (if \<not> http then []
      else if closes env http closed q then [(cstr ''connection'', cstr ''close'')]
      else [(cstr ''connection'', cstr ''keep-alive''), (cstr ''keep-alive'', cstr ''timeout='' @ sprintf_d (http_keepalive_time env))])"

text \<open>
  The headers of an answer that is not an information and has a content: those of the server, the cookies and headers
  of the handler unless the status is that of a failure of the server, and the length.
\<close>

definition answer_headers :: "http_config \<Rightarrow> (u8 list \<times> u8 list) list \<Rightarrow> bool \<Rightarrow> bool \<Rightarrow> http_request \<Rightarrow> int \<Rightarrow> nat \<Rightarrow> (u8 list \<times> u8 list) list" where
  "answer_headers env server http closed q status len =
     server @ connection_headers env http closed q @
     (if http_hsts_enable env \<noteq> 0
      then [(cstr ''strict-transport-security'', cstr ''max-age='' @ sprintf_d (http_hsts_enable env) @ cstr ''; includeSubDomains'')] else []) @
     (if status < code env ''HTTP_STATUS_INTERNAL_ERROR'' then cookie_headers env q @ resp_headers q else []) @
     [(cstr ''content-length'', sprintf_d (int len))]"

type_synonym client_answer = "u8 list \<times> (u8 list \<times> u8 list) list \<times> u8 list"

definition answer_of :: "http_config \<Rightarrow> (u8 list \<times> u8 list) list \<Rightarrow> bool \<Rightarrow> bool \<Rightarrow> http_request \<Rightarrow> int \<Rightarrow> u8 list \<Rightarrow> client_answer" where
  "answer_of env server http closed q status d =
     (status_line env q status, answer_headers env server http closed q status (length d), if req_method q = HEAD then [] else d)"

fun answer_text :: "client_answer \<Rightarrow> u8 list" where
  "answer_text (l, hs, b) = lines_text (l # map header_line hs) @ crlf @ b"

text \<open>
  What the handler gives can be in a header: names of tokens and values of printable characters, and no length of its
  own; the server's own line is that of \<open>http_server_version\<close>.
\<close>

definition plain_header :: "u8 list \<times> u8 list \<Rightarrow> bool" where
  "plain_header h \<longleftrightarrow> header_ok h \<and> \<not> same_text (fst h) (cstr ''content-length'')"

definition can_answer :: "http_config \<Rightarrow> (u8 list \<times> u8 list) list \<Rightarrow> http_request \<Rightarrow> int \<Rightarrow> u8 list \<Rightarrow> bool" where
  "can_answer env server q status d \<longleftrightarrow>
     http_version env = lines_text (map header_line server) \<and> list_all plain_header server \<and>
     200 \<le> status \<and> status \<noteq> 204 \<and> int (length d) \<le> LLONG_MAX \<and>
     (status < code env ''HTTP_STATUS_INTERNAL_ERROR'' \<longrightarrow>
        \<not> rq_no_content_length q \<and> list_all plain_header (cookie_headers env q) \<and> list_all plain_header (resp_headers q))"

section \<open>The client\<close>

text \<open>
  A client takes the lines up to the empty one, the headers as \<open>http_validate_header\<close> takes them, and as many bytes as
  the first length among them says, or none when it asked for the header only. What follows is left.
\<close>

fun read_headers :: "u8 list list \<Rightarrow> (u8 list \<times> u8 list) list option" where
  "read_headers [] = Some []"
| "read_headers (l # ls) =
     (case (http_validate_header l, read_headers ls) of
        (Inr (Some h), Some hs) \<Rightarrow> Some (h # hs)
      | _ \<Rightarrow> None)"

definition announced :: "(u8 list \<times> u8 list) list \<Rightarrow> nat option" where
  "announced hs =
     (case find (\<lambda>(n, _). same_text n (cstr ''content-length'')) hs of
        None \<Rightarrow> None
      | Some (_, v) \<Rightarrow> map_option nat (kore_strtonum v 10 0 LLONG_MAX))"

definition read_answer :: "bool \<Rightarrow> u8 list \<Rightarrow> (client_answer \<times> u8 list) option" where
  "read_answer head_only bs =
     (case first_occ [13, 10, 13, 10] bs of
        None \<Rightarrow> None
      | Some e \<Rightarrow>
          (case split_loop (Some (take e bs)) crlf (length bs) of
             [] \<Rightarrow> None
           | l # ls \<Rightarrow>
               (case read_headers ls of
                  None \<Rightarrow> None
                | Some hs \<Rightarrow>
                    (case if head_only then Some 0 else announced hs of
                       None \<Rightarrow> None
                     | Some n \<Rightarrow> if e + 4 + n \<le> length bs then Some ((l, hs, take n (drop (e + 4) bs)), drop (e + 4 + n) bs) else None))))"

fun read_answers :: "bool list \<Rightarrow> u8 list \<Rightarrow> client_answer list option" where
  "read_answers [] bs = (if bs = [] then Some [] else None)"
| "read_answers (h # hs) bs =
     (case read_answer h bs of
        None \<Rightarrow> None
      | Some (a, bs) \<Rightarrow> map_option (Cons a) (read_answers hs bs))"

definition readable :: "bool \<Rightarrow> client_answer \<Rightarrow> bool" where
  "readable head_only a \<longleftrightarrow>
     (case a of (l, hs, b) \<Rightarrow> clean l \<and> list_all header_ok hs \<and> (if head_only then b = [] else announced hs = Some (length b)))"

lemma read_headers_lines: "list_all header_ok hs \<Longrightarrow> read_headers (map header_line hs) = Some hs"
  by (induction hs) (simp_all add: validate_line)

lemma length_lines: "length ls \<le> length (lines_text ls)"
  by (induction ls) simp_all

lemma answer_is_read:
  assumes "readable head_only a"
  shows "read_answer head_only (answer_text a @ t) = Some (a, t)"
proof -
  obtain l hs b where a: "a = (l, hs, b)" by (cases a)
  have ok: "clean l" "list_all header_ok hs" "if head_only then b = [] else announced hs = Some (length b)"
    using assms by (simp_all add: a readable_def)
  let ?ls = "l # map header_line hs"
  define lt where "lt = lines_text ?ls"
  have cl: "\<forall>l \<in> set ?ls. clean l" using ok(1,2) printable_clean by (auto simp: list_all_iff)
  have len: "2 \<le> length lt" by (simp add: lt_def)
  have bs: "answer_text a @ t = lt @ 13 # 10 # b @ t" by (simp add: a lt_def)
  have e: "first_occ [13, 10, 13, 10] (answer_text a @ t) = Some (length lt - 2)"
    unfolding bs lt_def by (rule header_end_lines) (use cl in simp_all)
  have "length ?ls \<le> length (answer_text a @ t)" using length_lines [of ?ls] by (simp add: bs lt_def)
  moreover have tk: "take (length lt - 2) (answer_text a @ t) = take (length lt - 2) lt" by (simp add: bs)
  ultimately have s: "split_loop (Some (take (length lt - 2) (answer_text a @ t))) crlf (length (answer_text a @ t)) = ?ls"
    using split_lines [OF _ cl] unfolding lt_def [symmetric] tk by simp
  have n: "(if head_only then Some 0 else announced hs) = Some (length b)" using ok(3) by auto
  have "length lt - 2 + 4 = length lt + 2" using len by simp
  then show ?thesis
    unfolding read_answer_def e option.case s list.case read_headers_lines [OF ok(2)] n
    by (simp only: bs) (simp add: a)
qed

lemma answers_read:
  "list_all2 readable heads as \<Longrightarrow> read_answers heads (concat (map answer_text as)) = Some as"
proof (induction heads as rule: list_all2_induct)
  case (Cons h hs a as)
  then show ?case using answer_is_read [of h a "concat (map answer_text as)"] by simp
qed simp

section \<open>What is sent can be read\<close>

lemma texts_plain: "\<forall>x \<in> set status_texts. list_all field_char (cstr (snd x))"
  by (simp add: status_texts_def field_char_def)

lemma status_text_plain: "list_all field_char (http_status_text f status)"
proof (cases "find (\<lambda>(n, _). f n = status) status_texts")
  case (Some y)
  then have "y \<in> set status_texts" by (metis find_Some_iff nth_mem)
  then have "list_all field_char (cstr (snd y))" by (rule bspec [OF texts_plain])
  then show ?thesis using Some by (cases y) (simp add: http_status_text_def)
qed (simp add: http_status_text_def)

lemma digit_or_sign: "c \<in> set (sprintf_d i) \<Longrightarrow> c = 45 \<or> is_digit c"
  by (auto simp: sprintf_d_def dest: decimal_digits_digits split: if_splits)

lemma sprintf_plain: "list_all field_char (sprintf_d i)"
  using digit_or_sign by (force simp: list_all_iff field_char_def is_digit_def)

lemma sprintf_starts: "\<not> is_white (hd (sprintf_d i))"
  using digit_or_sign [of "hd (sprintf_d i)" i] sprintf_d_nonempty [of i] by (auto simp: is_white_def is_digit_def)

lemma field_clean: "list_all field_char l \<Longrightarrow> l \<noteq> [] \<Longrightarrow> clean l"
  by (auto simp: clean_def list_all_iff field_char_def)

lemma status_line_clean: "clean (status_line env q status)"
  by (rule field_clean) (simp_all add: status_line_def sprintf_plain status_text_plain, simp_all add: field_char_def)

lemma number_header: "list_all token_char n \<Longrightarrow> list_all field_char p \<Longrightarrow> (p \<noteq> [] \<longrightarrow> \<not> is_white (hd p)) \<Longrightarrow> list_all field_char s \<Longrightarrow>
    header_ok (n, p @ sprintf_d i @ s)"
  using sprintf_starts [of i] sprintf_d_nonempty [of i] by (cases p) (simp_all add: header_ok_def sprintf_plain)

lemma answer_readable:
  assumes "can_answer env server q status d"
  shows "readable (req_method q = HEAD) (answer_of env server http closed q status d)"
proof -
  define hs where "hs = server @ connection_headers env http closed q @
     (if http_hsts_enable env \<noteq> 0
      then [(cstr ''strict-transport-security'', cstr ''max-age='' @ sprintf_d (http_hsts_enable env) @ cstr ''; includeSubDomains'')] else []) @
     (if status < code env ''HTTP_STATUS_INTERNAL_ERROR'' then cookie_headers env q @ resp_headers q else [])"
  let ?len = "(cstr ''content-length'', sprintf_d (int (length d)))"
  have a: "answer_headers env server http closed q status (length d) = hs @ [?len]" by (simp add: answer_headers_def hs_def)
  note chars = token_char_def separators_def field_char_def is_white_def
  have "plain_header (cstr ''strict-transport-security'', cstr ''max-age='' @ sprintf_d (http_hsts_enable env) @ cstr ''; includeSubDomains'')"
    unfolding plain_header_def by (rule conjI, rule number_header) (simp_all add: chars same_text_def tolower_def)
  moreover have "plain_header (cstr ''keep-alive'', cstr ''timeout='' @ sprintf_d (http_keepalive_time env) @ [])"
    unfolding plain_header_def by (rule conjI, rule number_header) (simp_all add: chars same_text_def tolower_def)
  ultimately have p: "list_all plain_header hs"
    using assms by (auto simp: hs_def connection_headers_def can_answer_def)
      (simp_all add: plain_header_def header_ok_def chars same_text_def tolower_def)
  have "header_ok (cstr ''content-length'', [] @ sprintf_d (int (length d)) @ [])" by (rule number_header) (simp_all add: chars)
  then have ok: "list_all header_ok (hs @ [?len])" using p by (auto simp: plain_header_def list_all_iff)
  have "find (\<lambda>(n, _). same_text n (cstr ''content-length'')) (hs @ [?len]) = Some ?len"
    using p by (induction hs) (auto simp: plain_header_def same_text_def)
  moreover have "kore_strtonum (sprintf_d (int (length d))) 10 0 LLONG_MAX = Some (int (length d))"
    using assms strtonum_reads_numbers [of 0 LLONG_MAX "int (length d)"] by (simp add: can_answer_def)
  ultimately have "announced (hs @ [?len]) = Some (length d)" by (simp add: announced_def)
  then show ?thesis using ok status_line_clean by (simp add: readable_def answer_of_def a)
qed

section \<open>One answer is queued\<close>

definition body_of :: "u8 list option \<Rightarrow> u8 list" where
  "body_of d = (case d of None \<Rightarrow> [] | Some d \<Rightarrow> d)"

lemma write_cookie:
  "http_write_response_cookie env ck = (case cookie_text env ck of None \<Rightarrow> [] | Some v \<Rightarrow> header_line (cstr ''set-cookie'', v) @ crlf)"
  by (simp add: http_write_response_cookie_def cookie_text_def header_line_def Let_def split: option.split)

lemma write_cookies:
  "concat (map (http_write_response_cookie env) (resp_cookies q)) = lines_text (map header_line (cookie_headers env q))"
proof -
  have "concat (map (http_write_response_cookie env) cks) =
      lines_text (map header_line (map (Pair (cstr ''set-cookie'')) (List.map_filter (cookie_text env) cks)))" for cks
    by (induction cks) (simp_all add: write_cookie map_filter_simps split: option.split)
  then show ?thesis by (simp add: cookie_headers_def)
qed

lemma write_headers: "concat (map (\<lambda>(n, v). n @ cstr '': '' @ v @ crlf) hs) = lines_text (map header_line hs)"
  by (induction hs) (auto simp: header_line_def)

lemma lines_text_append: "lines_text (a @ b) = lines_text a @ lines_text b"
  by (simp add: lines_text_def)

text \<open>The client has sent nothing more: the socket is not ready, or has nothing to be read.\<close>

definition nothing_comes :: "http_connection \<Rightarrow> bool" where
  "nothing_comes c \<longleftrightarrow> (evt_read c \<longrightarrow> \<not> tls c \<and> sock_in c = [] \<and> list_all no_failure (reads c))"

definition quiet :: "http_connection \<Rightarrow> bool" where
  "quiet c \<longleftrightarrow> send_ok c \<and> rnb_ready c \<and> tls_reneg c \<le> 1 \<and> nothing_comes c"

lemma quiet_same:
  assumes "quiet c" "send_ok c'" "rnb c' = rnb c" "tls_reneg c' = tls_reneg c" "evt_read c' = evt_read c" "tls c' = tls c" "sock_in c' = sock_in c" "reads c' = reads c"
  shows "quiet c'"
  using assms by (simp add: quiet_def rnb_ready_def nothing_comes_def)

lemma queue_quiet:
  assumes "quiet c"
  shows "\<exists>c'. net_send_queue pm d c = Inr c' \<and> quiet c' \<and> unsent c' = unsent c @ d \<and> sock_out c' = sock_out c \<and> unsending c' = unsending c"
proof -
  obtain c' where c': "net_send_queue pm d c = Inr c'" "send_ok c'" "unsent c' = unsent c @ d" "sock_out c' = sock_out c" "unsending c' = unsending c"
    using queue_holds [of c pm d] assms by (auto simp: quiet_def)
  have "quiet c'"
    by (rule quiet_same [OF assms c'(2)])
      (use arg_cong [OF c'(5), of evt_read] arg_cong [OF c'(5), of rnb] arg_cong [OF c'(5), of tls_reneg] arg_cong [OF c'(5), of tls]
        arg_cong [OF c'(5), of sock_in] arg_cong [OF c'(5), of reads] in \<open>simp_all add: unsending_def\<close>)
  then show ?thesis using c' by auto
qed

definition with_answer :: "int \<Rightarrow> int \<Rightarrow> http_request \<Rightarrow> http_request" where
  "with_answer status len q = q\<lparr>req_status := status, content_length := len\<rparr>"

lemma with_answer_header [simp]: "http_request_header (with_answer s n q) h = http_request_header q h"
  by (simp add: http_request_header_def with_answer_def split: option.split)

lemma with_answer_unseen [simp]:
  "answer_of env server http closed (with_answer s n q) status d = answer_of env server http closed q status d"
  "closes env http closed (with_answer s n q) = closes env http closed q" "req_method (with_answer s n q) = req_method q"
  "can_answer env server (with_answer s n q) status d = can_answer env server q status d" "has_owner (with_answer s n q) = has_owner q"
proof -
  have w: "wants_close closed (with_answer s n q) = wants_close closed q" by (simp only: wants_close_def with_answer_header)
  then show c: "closes env http closed (with_answer s n q) = closes env http closed q" by (simp add: closes_def)
  have f: "cookie_headers env (with_answer s n q) = cookie_headers env q" "resp_headers (with_answer s n q) = resp_headers q"
    "status_line env (with_answer s n q) status = status_line env q status" "rq_no_content_length (with_answer s n q) = rq_no_content_length q"
    by (simp_all add: with_answer_def cookie_headers_def status_line_def)
  show m: "req_method (with_answer s n q) = req_method q" by (simp add: with_answer_def)
  have "connection_headers env http closed (with_answer s n q) = connection_headers env http closed q" by (simp only: connection_headers_def c)
  then show "answer_of env server http closed (with_answer s n q) status d = answer_of env server http closed q status d"
    by (simp only: answer_of_def answer_headers_def f m)
  show "can_answer env server (with_answer s n q) status d = can_answer env server q status d" by (simp only: can_answer_def f)
  show "has_owner (with_answer s n q) = has_owner q" by (simp add: with_answer_def)
qed

text \<open>The text that is put together, and whether the connection is to be closed.\<close>

lemma close_same: "close_empty c = b \<Longrightarrow> c\<lparr>close_empty := b\<rparr> = (c :: http_connection)"
  by (cases c) simp

lemma connection_part:
  "(if Some q = None \<or> proto_http c then
      if http_keepalive_time env \<noteq> 0 \<and> \<not> wants_close (close_empty c) q
      then (hb @ cstr ''connection: keep-alive'' @ crlf @ cstr ''keep-alive: timeout='' @ sprintf_d (http_keepalive_time env) @ crlf, c)
      else (hb @ cstr ''connection: close'' @ crlf, c\<lparr>close_empty := True\<rparr>)
    else (hb, c)) =
   (hb @ lines_text (map header_line (connection_headers env (proto_http c) (close_empty c) q)), c\<lparr>close_empty := closes env (proto_http c) (close_empty c) q\<rparr>)"
proof -
  have "wants_close (close_empty c) q" if "close_empty c" using that by (simp add: wants_close_def)
  then show ?thesis by (auto simp: connection_headers_def closes_def header_line_def close_same)
qed

lemma response_text:
  assumes "can_answer env server (requests c r) status (body_of d)" "req_status (requests c r) = status"
  shows "http_response_normal env recv_flush (Some r) status d len c =
    co_bind (Some (net_send_queue (NETBUF_SEND_PAYLOAD_MAX env)
      (lines_text (status_line env (requests c r) status #
         map header_line (answer_headers env server (proto_http c) (close_empty c) (requests c r) status len)) @ crlf)
      (c\<lparr>close_empty := closes env (proto_http c) (close_empty c) (requests c r)\<rparr>)))
    (\<lambda>c1. co_bind (case d of None \<Rightarrow> Some (Inr c1) | Some d \<Rightarrow>
                 if req_method (requests c r) \<noteq> HEAD then Some (c_bind (first_bytes len d) (\<lambda>d. net_send_queue (NETBUF_SEND_PAYLOAD_MAX env) d c1)) else Some (Inr c1)) (\<lambda>c.
      co_bind (if \<not> close_empty c
               then co_bind (Some (net_recv_reset (NETBUF_SEND_PAYLOAD_MAX env) (http_header_max env) Header_Recv c)) (\<lambda>c.
                    co_bind (recv_flush c) (\<lambda>(_, c). Some (Inr c)))
               else Some (Inr c)) (\<lambda>c.
      Some (Inr (set_req r (content_length_update (\<lambda>_. int len)) c)))))"
proof -
  define q where "q = requests c r"
  define hs where "hs = (if http_hsts_enable env \<noteq> 0
      then [(cstr ''strict-transport-security'', cstr ''max-age='' @ sprintf_d (http_hsts_enable env) @ cstr ''; includeSubDomains'')] else [])"
  have h: "(if http_hsts_enable env \<noteq> 0
             then cstr ''strict-transport-security: '' @ cstr ''max-age='' @ sprintf_d (http_hsts_enable env) @ cstr ''; includeSubDomains'' @ crlf
             else []) = lines_text (map header_line hs)" by (simp add: hs_def header_line_def)
  define os where "os = (if status < code env ''HTTP_STATUS_INTERNAL_ERROR'' then cookie_headers env q @ resp_headers q else [])"
  have st: "status \<noteq> 204" "200 \<le> status" using assms(1) by (simp_all add: can_answer_def)
  have n: "status < code env ''HTTP_STATUS_INTERNAL_ERROR'' \<Longrightarrow> \<not> rq_no_content_length q" using assms(1) by (simp add: can_answer_def q_def)
  define lh where "lh = cstr ''content-length: '' @ sprintf_d (int len) @ crlf"
  have o: "(if req_status q < code env ''HTTP_STATUS_INTERNAL_ERROR''
       then concat (map (http_write_response_cookie env) (resp_cookies q)) @ concat (map (\<lambda>(n, v). n @ cstr '': '' @ v @ crlf) (resp_headers q)) @
            (if status \<noteq> 204 \<and> status \<ge> 200 \<and> \<not> rq_no_content_length q then lh else [])
       else if status \<noteq> 204 \<and> status \<ge> 200 then lh else []) =
       lines_text (map header_line os) @ lh"
    using assms(2) st n unfolding write_cookies write_headers os_def by (auto simp: q_def lines_text_append)
  have l: "answer_headers env server (proto_http c) (close_empty c) q status len =
      server @ connection_headers env (proto_http c) (close_empty c) q @ hs @ os @ [(cstr ''content-length'', sprintf_d (int len))]"
    by (simp add: answer_headers_def hs_def os_def)
  have v: "http_version env = lines_text (map header_line server)" using assms(1) by (simp add: can_answer_def)
  have lh: "lh = lines_text [header_line (cstr ''content-length'', sprintf_d (int len))]" by (simp add: lh_def header_line_def)
  show ?thesis
    unfolding http_response_normal_def Let_def option.map q_def [symmetric] option.case wants_close_def [symmetric] lh_def [symmetric] h o
      connection_part prod.case l v
    by (simp add: lines_text_append status_line_def lh)
qed

text \<open>
  \<open>http_response\<close> puts exactly the text of the answer behind what is still to be sent. Nothing is received meanwhile: the
  socket has nothing to be read.
\<close>

lemma idle_recv:
  assumes "receiving c True Header_Recv b 0 []" "0 < b" "nothing_comes c"
  shows "\<exists>e rs. recv_loop (http_run_cb env) no_disconnect c = Some (Inr (True, c\<lparr>evt_read := e, reads := rs\<rparr>)) \<and> nothing_comes (c\<lparr>evt_read := e, reads := rs\<rparr>)"
  using assms
proof (induction "length (reads c)" arbitrary: c rule: less_induct)
  case less
  let ?loop = "recv_loop (http_run_cb env) no_disconnect"
  have stop: ?case if "?loop c = Some (Inr (True, c\<lparr>evt_read := False, reads := rs\<rparr>))" for rs
    using that by (intro exI [of _ False] exI [of _ rs]) (simp add: nothing_comes_def)
  show ?case
  proof (cases "evt_read c")
    case False
    then have "?loop c = Some (Inr (True, c\<lparr>evt_read := False, reads := reads c\<rparr>))" by (subst recv_loop.simps) simp
    then show ?thesis by (rule stop)
  next
    case True
    then have q: "\<not> tls c" "sock_in c = []" "list_all no_failure (reads c)" using less.prems(3) by (simp_all add: nothing_comes_def)
    obtain nb buf where nb: "rnb c = Some nb" "nb_buf nb = Some buf" "b_len nb = b" "s_off nb = 0" "nb_always nb" "nb_cb nb = Some Header_Recv"
      using less.prems(1) by (auto simp: receiving_def)
    note loop = recv_loop.simps [of _ _ c] net_read_def next_read_def Let_def
    show ?thesis
    proof (cases "reads c")
      case Nil
      then have "?loop c = Some (Inr (True, c\<lparr>evt_read := False, reads := []\<rparr>))" using True q nb less.prems(2) by (simp add: loop)
      then show ?thesis by (rule stop)
    next
      case (Cons a rs)
      let ?c = "c\<lparr>reads := rs\<rparr>"
      have r: "receiving ?c True Header_Recv b 0 []" using less.prems(1) by simp
      show ?thesis
      proof (cases a)
        case (Io_Bytes n)
        obtain j nb1 where j: "got_bytes nb n ?c = Inr (j, ?c\<lparr>sock_in := drop (0 + j) [], rnb := Some nb1\<rparr>)" "j = 0 \<longrightarrow> nb1 = nb"
          "receiving (?c\<lparr>sock_in := drop (0 + j) [], rnb := Some (nb1\<lparr>s_off := 0 + j\<rparr>)\<rparr>) True Header_Recv b (0 + j) []"
          using got_step [OF r, of nb n] nb(1) less.prems(2) by auto
        then have g: "got_bytes nb n ?c = Inr (0, ?c\<lparr>sock_in := [], rnb := Some nb\<rparr>)" by (auto simp: receiving_def)
        have "?c\<lparr>sock_in := [], rnb := Some nb\<rparr> = ?c" using q(2) nb(1) by simp
        have "?loop c = Some (Inr (True, c\<lparr>evt_read := False, reads := rs\<rparr>))" using True q nb less.prems(2) Cons Io_Bytes g by (simp add: loop)
        then show ?thesis by (rule stop)
      next
        case Io_EAGAIN
        then have "?loop c = Some (Inr (True, c\<lparr>evt_read := False, reads := rs\<rparr>))" using True q nb less.prems(2) Cons by (simp add: loop)
        then show ?thesis by (rule stop)
      next
        case Io_EINTR
        have he: "header_end [] = Inr None" by (simp add: header_end_eq)
        obtain nb2 buf2 where "recv_bytes ?c = Inr (nb2, buf2, [])" using receiving_bytes [OF r] by auto
        then have cb: "http_header_recv env ?c = Some (Inr (True, ?c))" using header_recv_part [OF _ he] by blast
        have e: "?c\<lparr>rnb := Some (nb\<lparr>s_off := 0\<rparr>)\<rparr> = ?c" using nb(1,4) by simp
        have "?loop c = ?loop ?c" using True q nb less.prems(2) Cons Io_EINTR cb by (simp add: e loop http_run_cb_def)
        then show ?thesis using less.hyps [OF _ r less.prems(2)] less.prems(3) Cons by (auto simp: nothing_comes_def)
      qed (use q(3) Cons in auto)
    qed
  qed
qed

lemma receive_nothing:
  assumes "quiet c" "0 < len"
  shows "\<exists>nb e rs. co_bind (Some (net_recv_reset pm len Header_Recv c)) (\<lambda>c. co_bind (http_recv env c) (\<lambda>(_, c). Some (Inr c))) =
      Some (Inr (c\<lparr>rnb := Some nb, evt_read := e, reads := rs\<rparr>)) \<and> quiet (c\<lparr>rnb := Some nb, evt_read := e, reads := rs\<rparr>)"
proof -
  obtain nb where nb: "rnb c = Some nb" "nb_always nb" "\<forall>buf. nb_buf nb = Some buf \<longrightarrow> m_len nb \<le> length buf"
    using assms(1) by (auto simp: quiet_def rnb_ready_def)
  have b: "nb_buf nb = None \<or> (\<exists>buf. nb_buf nb = Some buf \<and> m_len nb \<le> length buf)" using nb(3) by (cases "nb_buf nb") auto
  obtain nb' where r: "net_recv_reset pm len Header_Recv c = Inr (c\<lparr>rnb := Some nb'\<rparr>)" "receiving (c\<lparr>rnb := Some nb'\<rparr>) True Header_Recv len 0 (sock_in c)"
    using reset_receiving [OF nb(1) b refl, of pm len Header_Recv] nb(2) by auto
  let ?c = "c\<lparr>rnb := Some nb'\<rparr>"
  have "\<exists>e rs. recv_loop (http_run_cb env) no_disconnect ?c = Some (Inr (True, ?c\<lparr>evt_read := e, reads := rs\<rparr>)) \<and> nothing_comes (?c\<lparr>evt_read := e, reads := rs\<rparr>)"
  proof (cases "evt_read c")
    case True
    then have "sock_in c = []" "nothing_comes ?c" using assms(1) by (simp_all add: quiet_def nothing_comes_def)
    then show ?thesis using idle_recv [of ?c len env] r(2) assms(2) by simp
  next
    case False
    then have "recv_loop (http_run_cb env) no_disconnect ?c = Some (Inr (True, ?c\<lparr>evt_read := evt_read c, reads := reads c\<rparr>))" by (subst recv_loop.simps) simp
    then show ?thesis using False by (intro exI [of _ "evt_read c"] exI [of _ "reads c"]) (simp add: nothing_comes_def)
  qed
  then obtain e rs where l: "recv_loop (http_run_cb env) no_disconnect ?c = Some (Inr (True, ?c\<lparr>evt_read := e, reads := rs\<rparr>))" "nothing_comes (?c\<lparr>evt_read := e, reads := rs\<rparr>)"
    by blast
  have "quiet (?c\<lparr>evt_read := e, reads := rs\<rparr>)"
    using assms(1) l(2) rnb_readyI(1) [OF r(2)] by (simp add: quiet_def send_ok_def)
  then show ?thesis using r(1) l(1) by (intro exI [of _ nb'] exI [of _ e] exI [of _ rs]) (simp add: http_recv_def net_recv_flush_def)
qed

lemma quiet_update [simp]: "quiet (c\<lparr>close_empty := b\<rparr>) = quiet c" "quiet (set_req r f c) = quiet c"
  by (simp_all add: quiet_def send_ok_def set_req_def rnb_ready_def nothing_comes_def)

lemma unsent_update [simp]:
  "unsent (c\<lparr>close_empty := b\<rparr>) = unsent c" "unsent (set_req r f c) = unsent c" "unsent (c\<lparr>rnb := x\<rparr>) = unsent c"
  "unsent (c\<lparr>evt_read := e\<rparr>) = unsent c" "unsent (c\<lparr>reads := rs\<rparr>) = unsent c"
  by (simp_all add: unsent_def set_req_def)

lemma response_queued:
  assumes "quiet c" "0 < http_header_max env" "can_answer env server (requests c r) status (body_of d)" "has_owner (requests c r)"
  shows "\<exists>c'. http_response env r status d (length (body_of d)) c = Some (Inr c') \<and> quiet c' \<and>
    sock_out c' @ unsent c' = sock_out c @ unsent c @ answer_text (answer_of env server (proto_http c) (close_empty c) (requests c r) status (body_of d)) \<and>
    requests c' = (requests c)(r := with_answer status (int (length (body_of d))) (requests c r)) \<and> proto_http c' = proto_http c \<and>
    close_empty c' = closes env (proto_http c) (close_empty c) (requests c r)"
proof -
  let ?pm = "NETBUF_SEND_PAYLOAD_MAX env"
  define q where "q = with_answer status (content_length (requests c r)) (requests c r)"
  define c0 where "c0 = set_req r (req_status_update (\<lambda>_. status)) c"
  have c0: "requests c0 r = q" "req_status q = status" "can_answer env server q status (body_of d)" "proto_http c0 = proto_http c" "close_empty c0 = close_empty c"
    using assms(3) by (simp_all add: c0_def q_def set_req_def) (simp_all add: with_answer_def)
  have own: "\<not> \<not> has_owner (requests c r)" using assms(4) by simp
  define len where "len = length (body_of d)"
  define cl where "cl = closes env (proto_http c) (close_empty c) q"
  define hdr where "hdr = lines_text (status_line env q status # map header_line (answer_headers env server (proto_http c) (close_empty c) q status len)) @ crlf"
  define c1 where "c1 = c0\<lparr>close_empty := cl\<rparr>"
  have c1: "quiet c1" "unsent c1 = unsent c" "sock_out c1 = sock_out c" using assms(1) by (simp_all add: c1_def c0_def, simp add: set_req_def)
  obtain c2 where c2: "net_send_queue ?pm hdr c1 = Inr c2" "quiet c2" "unsent c2 = unsent c @ hdr" "sock_out c2 = sock_out c" "unsending c2 = unsending c1"
    using queue_quiet [OF c1(1), of ?pm hdr] c1 by auto
  let ?b = "if req_method q = HEAD then [] else body_of d"
  obtain c3 where c3: "(case d of None \<Rightarrow> Some (Inr c2) | Some d \<Rightarrow> if req_method q \<noteq> HEAD then Some (c_bind (first_bytes len d) (\<lambda>d. net_send_queue ?pm d c2)) else Some (Inr c2)) = Some (Inr c3)"
    "quiet c3" "unsent c3 = unsent c @ hdr @ ?b" "sock_out c3 = sock_out c" "unsending c3 = unsending c1"
  proof (cases "d = None \<or> req_method q = HEAD")
    case True
    then show thesis using c2 that [of c2] by (cases d) (auto simp: body_of_def)
  next
    case False
    then obtain e where "d = Some e" "req_method q \<noteq> HEAD" by auto
    then show thesis using queue_quiet [OF c2(2), of ?pm e] c2 that by (auto simp: body_of_def len_def)
  qed
  have f: "requests c3 = requests c0" "proto_http c3 = proto_http c" "close_empty c3 = cl"
    using arg_cong [OF c3(5), of requests] arg_cong [OF c3(5), of proto_http] arg_cong [OF c3(5), of close_empty]
    by (simp_all add: unsending_def c1_def c0_def set_req_def)
  obtain c4 where c4: "(if \<not> close_empty c3 then co_bind (Some (net_recv_reset ?pm (http_header_max env) Header_Recv c3)) (\<lambda>c.
      co_bind (http_recv env c) (\<lambda>(_, c). Some (Inr c))) else Some (Inr c3)) = Some (Inr c4)" "quiet c4" "unsent c4 = unsent c3" "sock_out c4 = sock_out c3"
      "requests c4 = requests c0" "proto_http c4 = proto_http c" "close_empty c4 = cl"
  proof (cases "close_empty c3")
    case False
    then show thesis using receive_nothing [OF c3(2) assms(2), of ?pm env] that f by auto
  qed (use c3(2) f that in auto)
  have "http_response env r status d len c = Some (Inr (set_req r (content_length_update (\<lambda>_. int len)) c4))"
    unfolding http_response_def if_not_P [OF own] c0_def [symmetric] response_text [where server = server, OF c0(3) [folded c0(1)] c0(2) [folded c0(1)]]
      c0(1,4,5) hdr_def [symmetric] cl_def [symmetric] c1_def [symmetric] c2(1) co_bind_simps c3(1) c4(1) ..
  moreover have "answer_text (answer_of env server (proto_http c) (close_empty c) (requests c r) status (body_of d)) = hdr @ ?b"
  proof -
    have "answer_of env server (proto_http c) (close_empty c) (requests c r) status (body_of d) = answer_of env server (proto_http c) (close_empty c) q status (body_of d)"
      by (simp add: q_def)
    then show ?thesis by (simp add: answer_of_def hdr_def len_def)
  qed
  moreover have "requests (set_req r (content_length_update (\<lambda>_. int len)) c4) = (requests c)(r := with_answer status (int len) (requests c r))"
    by (simp add: set_req_def c4(5) c0_def with_answer_def)
  moreover have "proto_http (set_req r g c4) = proto_http c" "close_empty (set_req r g c4) = closes env (proto_http c) (close_empty c) (requests c r)"
    "sock_out (set_req r g c4) = sock_out c" for g
    using c4(4,6,7) c3(4) by (simp_all add: set_req_def cl_def q_def)
  ultimately show ?thesis using c4(2,3) c3(3) by (intro exI [of _ "set_req r (content_length_update (\<lambda>_. int len)) c4"]) (simp add: len_def [symmetric])
qed

section \<open>Answers and sends in any order\<close>

datatype answer_step = Answer nat int "u8 list option" | Send "io_result list"

text \<open>The handlers answer requests, and the event loop sends when the socket is ready; a send may be partial or fail.\<close>

fun run_answers :: "http_config \<Rightarrow> answer_step list \<Rightarrow> http_step" where
  "run_answers env [] c = Some (Inr c)"
| "run_answers env (Answer r status d # ss) c = co_bind (http_response env r status d (length (body_of d)) c) (run_answers env ss)"
| "run_answers env (Send ws # ss) c =
     co_bind (net_send_flush (NETBUF_SEND_PAYLOAD_MAX env) no_disconnect (c\<lparr>evt_write := True, writes := ws\<rparr>)) (\<lambda>(_, c). run_answers env ss c)"

text \<open>
  The answers there should be: an answer that closes the connection is seen in those after it, and a request without an
  owner gets none.
\<close>

fun answers_of :: "http_config \<Rightarrow> (u8 list \<times> u8 list) list \<Rightarrow> bool \<Rightarrow> bool \<Rightarrow> (nat \<Rightarrow> http_request) \<Rightarrow> answer_step list \<Rightarrow> client_answer list" where
  "answers_of env server http closed qs [] = []"
| "answers_of env server http closed qs (Answer r status d # ss) =
     (if has_owner (qs r)
      then answer_of env server http closed (qs r) status (body_of d) # answers_of env server http (closes env http closed (qs r)) qs ss
      else answers_of env server http closed qs ss)"
| "answers_of env server http closed qs (Send ws # ss) = answers_of env server http closed qs ss"

fun heads_only :: "(nat \<Rightarrow> http_request) \<Rightarrow> answer_step list \<Rightarrow> bool list" where
  "heads_only qs [] = []"
| "heads_only qs (Answer r status d # ss) = (if has_owner (qs r) then (req_method (qs r) = HEAD) # heads_only qs ss else heads_only qs ss)"
| "heads_only qs (Send ws # ss) = heads_only qs ss"

definition can_answer_all :: "http_config \<Rightarrow> (u8 list \<times> u8 list) list \<Rightarrow> (nat \<Rightarrow> http_request) \<Rightarrow> answer_step list \<Rightarrow> bool" where
  "can_answer_all env server qs ss \<longleftrightarrow>
     list_all (\<lambda>s. case s of Answer r status d \<Rightarrow> has_owner (qs r) \<longrightarrow> can_answer env server (qs r) status (body_of d) | Send ws \<Rightarrow> True) ss"

lemma answers_unseen:
  "answers_of env server http closed (qs(r := with_answer s n (qs r))) ss = answers_of env server http closed qs ss"
  "can_answer_all env server (qs(r := with_answer s n (qs r))) ss = can_answer_all env server qs ss"
proof -
  show "answers_of env server http closed (qs(r := with_answer s n (qs r))) ss = answers_of env server http closed qs ss"
    by (induction env server http closed qs ss rule: answers_of.induct) auto
  show "can_answer_all env server (qs(r := with_answer s n (qs r))) ss = can_answer_all env server qs ss"
    by (auto simp: can_answer_all_def list_all_iff split: answer_step.splits if_splits)
qed

lemma answers_readable:
  "can_answer_all env server qs ss \<Longrightarrow> list_all2 readable (heads_only qs ss) (answers_of env server http closed qs ss)"
  by (induction env server http closed qs ss rule: answers_of.induct) (auto simp: can_answer_all_def answer_readable)

lemma flush_quiet:
  assumes "quiet c" "0 < pm"
  shows "\<exists>ok c'. net_send_flush pm no_disconnect (c\<lparr>evt_write := True, writes := ws\<rparr>) = Some (Inr (ok, c')) \<and> quiet c' \<and>
    sock_out c' @ unsent c' = sock_out c @ unsent c \<and> requests c' = requests c \<and> proto_http c' = proto_http c \<and> close_empty c' = close_empty c"
proof -
  let ?c = "c\<lparr>evt_write := True, writes := ws\<rparr>"
  have "send_ok ?c" "unsent ?c = unsent c" "tls_reneg ?c \<le> 1" using assms(1) by (simp_all add: quiet_def send_ok_def unsent_def)
  then obtain ok c1 where c1: "send_loop pm ?c = Some (Inr (ok, c1))" "send_ok c1" "sock_out c1 @ unsent c1 = sock_out c @ unsent c" "unsending c1 = unsending ?c"
    using send_loop_sends [of ?c pm] assms(2) by auto
  have f: "requests c1 = requests c" "proto_http c1 = proto_http c" "close_empty c1 = close_empty c"
    using arg_cong [OF c1(4), of requests] arg_cong [OF c1(4), of proto_http] arg_cong [OF c1(4), of close_empty] by (simp_all add: unsending_def)
  have q: "quiet c1"
    by (rule quiet_same [OF assms(1) c1(2)])
      (use arg_cong [OF c1(4), of evt_read] arg_cong [OF c1(4), of rnb] arg_cong [OF c1(4), of tls_reneg] arg_cong [OF c1(4), of tls]
        arg_cong [OF c1(4), of sock_in] arg_cong [OF c1(4), of reads] in \<open>simp_all add: unsending_def\<close>)
  have "quiet (c1\<lparr>disconnecting := True\<rparr>)" by (rule quiet_same [OF q]) (use c1(2) in \<open>simp_all add: send_ok_def\<close>)
  moreover have "unsent (c1\<lparr>disconnecting := True\<rparr>) = unsent c1" by (simp add: unsent_def)
  ultimately show ?thesis using c1(1,3) f q by (auto simp: net_send_flush_def kore_connection_disconnect_def no_disconnect_def)
qed

lemma run_answers_text:
  assumes "quiet c" "0 < NETBUF_SEND_PAYLOAD_MAX env \<and> 0 < http_header_max env" "can_answer_all env server (requests c) ss"
  shows "\<exists>c'. run_answers env ss c = Some (Inr c') \<and>
    sock_out c' @ unsent c' = sock_out c @ unsent c @ concat (map answer_text (answers_of env server (proto_http c) (close_empty c) (requests c) ss))"
  using assms
proof (induction ss arbitrary: c)
  case (Cons s ss)
  have cs: "can_answer_all env server (requests c) ss" using Cons.prems(3) by (simp add: can_answer_all_def)
  show ?case
  proof (cases s)
    case (Answer r status d)
    show ?thesis
    proof (cases "has_owner (requests c r)")
      case False
      then show ?thesis using Cons.IH [OF Cons.prems(1,2) cs] Answer by (simp add: http_response_def)
    next
      case True
      then obtain c1 where c1: "http_response env r status d (length (body_of d)) c = Some (Inr c1)" "quiet c1"
      "sock_out c1 @ unsent c1 = sock_out c @ unsent c @ answer_text (answer_of env server (proto_http c) (close_empty c) (requests c r) status (body_of d))"
      "requests c1 = (requests c)(r := with_answer status (int (length (body_of d))) (requests c r))" "proto_http c1 = proto_http c"
      "close_empty c1 = closes env (proto_http c) (close_empty c) (requests c r)"
      using response_queued [of c env server r status d] Cons.prems Answer by (auto simp: can_answer_all_def)
    obtain c' where "run_answers env ss c1 = Some (Inr c')" "sock_out c' @ unsent c' = (sock_out c1 @ unsent c1) @
        concat (map answer_text (answers_of env server (proto_http c) (closes env (proto_http c) (close_empty c) (requests c r)) (requests c) ss))"
      using Cons.IH [OF c1(2) Cons.prems(2), unfolded c1(4-6) answers_unseen, OF cs] by auto
      then show ?thesis unfolding c1(3) using c1(1) True by (simp add: Answer)
    qed
  next
    case (Send ws)
    obtain ok c1 where c1: "net_send_flush (NETBUF_SEND_PAYLOAD_MAX env) no_disconnect (c\<lparr>evt_write := True, writes := ws\<rparr>) = Some (Inr (ok, c1))" "quiet c1"
      "sock_out c1 @ unsent c1 = sock_out c @ unsent c" "requests c1 = requests c" "proto_http c1 = proto_http c" "close_empty c1 = close_empty c"
      using flush_quiet [OF Cons.prems(1)] Cons.prems(2) by blast
    obtain c' where "run_answers env ss c1 = Some (Inr c')" "sock_out c' @ unsent c' = (sock_out c1 @ unsent c1) @
        concat (map answer_text (answers_of env server (proto_http c) (close_empty c) (requests c) ss))"
      using Cons.IH [OF c1(2) Cons.prems(2), unfolded c1(4-6), OF cs] by auto
    then show ?thesis unfolding c1(3) using c1(1) by (simp add: Send)
  qed
qed simp

text \<open>
  C7: answers to any requests on a connection, in whatever order and with whatever partial sends in between, are read
  by a client as they were meant: for each one the status line, the headers - the server's own, those on the connection,
  the cookies and headers of the handler unless the status is that of a failure, and the length - and as its content
  exactly the bytes given, none when only the header was asked for; a request without its connection gets no answer,
  nothing faults, and the client is nowhere out of step. The statuses are 200 or more, and not 204.
\<close>

theorem answers_are_read:
  assumes "send_queue c = []" "sock_out c = []" "nothing_comes c" "rnb_ready c" "tls_reneg c \<le> 1"
    "0 < NETBUF_SEND_PAYLOAD_MAX env \<and> 0 < http_header_max env" "can_answer_all env server (requests c) ss"
  shows "\<exists>c'. run_answers env ss c = Some (Inr c') \<and>
    read_answers (heads_only (requests c) ss) (sock_out c' @ unsent c') = Some (answers_of env server (proto_http c) (close_empty c) (requests c) ss)"
proof -
  have "quiet c" "unsent c = []" using assms(1-5) by (simp_all add: quiet_def send_ok_def unsent_def)
  then show ?thesis using run_answers_text [OF _ assms(6,7)] answers_read [OF answers_readable [OF assms(7)]] assms(2) by fastforce
qed

definition sample_asked :: "http_method \<Rightarrow> http_request \<Rightarrow> http_request" where
  "sample_asked m q = q\<lparr>req_method := m, has_owner := True, rq_v10 := False, rq_no_content_length := False, req_headers := [], resp_cookies := [],
     resp_headers := [(cstr ''content-type'', cstr ''text/plain'')]\<rparr>"

definition asked_start :: "http_request \<Rightarrow> http_connection" where
  "asked_start q = (sample_start [] q)\<lparr>requests := (\<lambda>i. sample_asked (if i = 0 then HEAD else GET) q)\<rparr>"

definition sample_headers :: "(u8 list \<times> u8 list) list" where
  "sample_headers = [(cstr ''connection'', cstr ''keep-alive''), (cstr ''keep-alive'', cstr ''timeout=20''), (cstr ''content-type'', cstr ''text/plain''),
     (cstr ''content-length'', cstr ''2'')]"

theorem answers_are_read_witness:
  "\<forall>q. \<exists>c'. run_answers sample_config [Answer 0 200 (Some [104, 105]), Send [Io_Bytes 7, Io_EINTR], Answer 1 200 (Some [13, 10])] (asked_start q) =
       Some (Inr c') \<and>
     read_answers [True, False] (sock_out c' @ unsent c') =
       Some [(cstr ''HTTP/1.1 200 '', sample_headers, []), (cstr ''HTTP/1.1 200 '', sample_headers, [13, 10])]"
proof
  fix q
  let ?c = "asked_start q" and ?ss = "[Answer 0 200 (Some [104, 105]), Send [Io_Bytes 7, Io_EINTR], Answer 1 200 (Some [13, 10])]"
  have r: "requests ?c i = sample_asked (if i = 0 then HEAD else GET) q" "proto_http ?c" "\<not> close_empty ?c" for i
    by (simp_all add: asked_start_def sample_start_def)
  have c: "send_queue ?c = []" "sock_out ?c = []" "nothing_comes ?c" "rnb_ready ?c" "tls_reneg ?c \<le> 1"
    "0 < NETBUF_SEND_PAYLOAD_MAX sample_config \<and> 0 < http_header_max sample_config"
    by (simp_all add: asked_start_def sample_start_def sample_config_def nothing_comes_def rnb_ready_def malloc_cells_def)
  note sample = r sample_asked_def sample_config_def body_of_def cookie_headers_def map_filter_simps
  have "can_answer_all sample_config [] (requests ?c) ?ss"
    by (simp add: can_answer_all_def can_answer_def sample plain_header_def header_ok_def token_char_def separators_def field_char_def is_white_def
      same_text_def tolower_def)
  moreover have "heads_only (requests ?c) ?ss = [True, False]" by (simp add: r sample_asked_def)
  moreover have "sprintf_d 200 = cstr ''200''" "sprintf_d 20 = cstr ''20''" "sprintf_d 2 = cstr ''2''" by code_simp+
  then have "answers_of sample_config [] (proto_http ?c) (close_empty ?c) (requests ?c) ?ss =
      [(cstr ''HTTP/1.1 200 '', sample_headers, []), (cstr ''HTTP/1.1 200 '', sample_headers, [13, 10])]"
    by (simp add: answer_of_def status_line_def http_status_text_def status_texts_def answer_headers_def connection_headers_def closes_def wants_close_def
      http_request_header_def same_text_def tolower_def sample sample_headers_def)
  ultimately show "\<exists>c'. run_answers sample_config ?ss ?c = Some (Inr c') \<and> read_answers [True, False] (sock_out c' @ unsent c') =
      Some [(cstr ''HTTP/1.1 200 '', sample_headers, []), (cstr ''HTTP/1.1 200 '', sample_headers, [13, 10])]"
    using answers_are_read [OF c] by metis
qed

end
