(* ===== verification/Spec2Isabelle.thy ===== *)
theory Spec2Isabelle
  imports Simulators Cdr_Server Crc Dsp Numbers Csv_Fix Kore_Mem Kore_Utils Kore_Timer Kore_Websocket Kore_Http_Args Kore_Http_Answer
begin

text \<open>
  A verification library for the C programs of this repository: the text display of a device with the simulators
  it is tested on, the CSV library and the billing of telephone calls built on it, a few small routines, and the
  core of the web server \<open>kore-3.2.0\<close> that the repository carries.

  \<^bold>\<open>The display\<close> (\<open>src/test_gtk\<close>). The event loop of a simulator calls \<open>MENU_Main\<close> when idle; the menu calls the
  widgets, state machines over global variables that are polled until they answer; the widgets write to the display
  through five low-level calls; a display keeps the text in memory and paints its characters, from a table of
  glyphs, dot by dot on an image; two timers count the menu timer down and blink the cursor.

  \<^item> \<open>Lcd_Driver\<close>: the low-level calls, the abstract screen, the interface \<open>lcd_driver\<close>.
  \<^item> \<open>Lcd_Surface\<close>, \<open>Cgrom\<close>, \<open>Lcd_Common\<close>: the image, the glyphs (\<open>cgrom.h\<close>), the drawing of one.
  \<^item> \<open>Lcd_4x20\<close>, \<open>Lcd_4x20_Picture\<close>, \<open>Lcd_2x16\<close>: the displays of \<open>main_glade_lcd_4_20.c\<close> and \<open>main_glade_lcd3.c\<close>;
    that they implement the interface; that the picture agrees with the text memory.
  \<^item> \<open>Lcd_Utils\<close>, \<open>Lcd_Password\<close>, \<open>Lcd_Select\<close>: the widgets of \<open>lcd_utils.c\<close>. \<open>Menues\<close>: those of \<open>menues.c\<close>.
  \<^item> \<open>Main_Loop\<close>, \<open>Simulators\<close>: the event loop over any display, and over the two displays.

  \<^bold>\<open>The call records\<close> (\<open>src/test_csv3\<close>, \<open>src/test_csv\<close>). The server takes a request for two dates, collects the
  backups of the days with \<open>system\<close> and \<open>cat\<close>, parses them as CSV and writes the billing file.

  \<^item> \<open>Csv_Parse\<close>, \<open>Csv_Format\<close>: the parser, its memory and the writers of \<open>libcsv.c\<close>. \<open>realloc\<close> and \<open>fputc\<close> are
    parameters, and so are the client's callbacks; the size of a buffer is bounded by \<open>SIZE_MAX\<close>.
  \<^item> \<open>Csv_Fix\<close>: the filter of \<open>test_csv/main.c\<close>, over the same library.
  \<^item> \<open>Cdr_Asterisk\<close>, \<open>Cdr_Dates\<close>, \<open>Cdr_Server\<close>: \<open>cdr_asterisk.c\<close>, \<open>cdr_omc.c\<close>, \<open>server_tcp.c\<close>. The shell that
    \<open>system\<close> runs is a parameter, used with its documented behaviour for \<open>cat\<close>; the date of today is another.

  \<^bold>\<open>Routines.\<close> \<open>Crc\<close> (\<open>test_crc\<close>), \<open>Dsp\<close> (\<open>test_dsp\<close>, \<open>test_struct_pointers\<close>), \<open>Numbers\<close> (\<open>reverse_integer\<close>,
  \<open>string_to_int_atoi\<close>).

  \<^bold>\<open>The web server\<close> (\<open>src/kore-3.2.0/src\<close>). Memory comes from pools, for the small blocks, and from \<open>calloc\<close>; byte
  buffers grow on that heap; a connection has a queue of buffers to send and one buffer it receives in, whose
  callback is called when the bytes it waits for are there; the protocols are such callbacks.

  \<^item> \<open>Kore_Pool\<close> (\<open>pool.c\<close>), \<open>Kore_Mem\<close> (\<open>mem.c\<close>): both implement the interface \<open>allocator\<close>. \<open>mmap\<close> and \<open>calloc\<close>, which
    may fail, are parameters, as are the sizes of the structures, whose declarations are not in the sources.
  \<^item> \<open>Kore_Buf\<close> (\<open>buf.c\<close>), with the interface \<open>byte_sink\<close>; a byte that was never written is \<open>None\<close>.
  \<^item> \<open>Kore_Utils\<close> (\<open>utils.c\<close>): numbers, dates, base64, splitting and trimming; \<open>mktime\<close> is a parameter.
  \<^item> \<open>Kore_Timer\<close> (\<open>timer.c\<close>): the callbacks and the clock are parameters.
  \<^item> \<open>Kore_Net\<close> (\<open>net.c\<close>): the state of a connection holds the answers the system will give to the next reads and
    writes, so that every property is about every behaviour of the socket; \<open>NETBUF_SEND_PAYLOAD_MAX\<close> is a parameter.
    The interface \<open>recv_protocol\<close> is what a protocol promises the loop that receives, and what it gets in return; the
    frames of a websocket and the requests of HTTP implement it.
  \<^item> \<open>Kore_Websocket\<close> (\<open>websocket.c\<close>): frames; the operation codes, from a header that is not there, are parameters.
  \<^item> \<open>Kore_Http_Text\<close>, \<open>Kore_Http\<close>, \<open>Kore_Http_Recv\<close>, \<open>Kore_Http_Answer\<close>, \<open>Kore_Http_Args\<close> (\<open>http.c\<close>): the texts (header
    lines, percent encoding, status lines, types of files); the requests, the callbacks that read one and the answers; that
    a request arrives as it was sent; that answers are read by a client as they were meant; what a page reads of a request,
    its body, arguments, cookies and the parts of a form. The record \<open>http_config\<close> holds the configuration, the constants
    of the headers that are not there, and the outside: the handler for a host and a path, files, the hash and the date.

  \<^bold>\<open>Conventions.\<close> \<open>C_Prelude\<close> and \<open>C_Stdlib\<close> hold what all share: bytes and words, faults as values, counted loops,
  strings, checked arrays, the library functions. An \<open>unsigned char\<close> is an 8-bit word, an \<open>unsigned short\<close> a 16-bit
  one, an \<open>unsigned int\<close> a 32-bit one; an \<open>int\<close> is an integer, and leaving its range, in \<open>atoi\<close> too, is a fault where its
  values are not small by construction; a size is an integer with its wrap-around written out. An access outside an array, a read of memory never written, a failed assertion and a
  call of \<open>fatal\<close> are faults, the left values of \<open>c_result\<close>. The widgets do not read from the display, so a widget
  returns the list of the calls it makes in its state (\<open>lcd_log\<close>), and the event loop executes it. A loop that may
  not end is a \<open>partial_function\<close>, and not ending is \<open>None\<close>; no fuel is used. The state after \<open>k\<close> ticks of the timer
  is written \<open>ticked k\<close>.

  \<^bold>\<open>What is proved.\<close> The display programs are memory safe in every reachable state; the picture refines the text
  memory and the text memory the abstract screen; the password widget can enter every password and the menu opens for
  a password only and keeps its settings in range; the scroll and the blink show what they should and end. The CSV
  parser is memory safe, does not depend on how its input is cut and reads back what the writers write; the filter
  keeps every record. A request is answered with the billing of exactly the calls of its days. The check sums are
  remainders of polynomials, the filters are means and do not overflow. The allocators never hand out a block twice,
  a byte buffer is a list of bytes, base64 and dates are read back, the timers run once each and in order, the bytes
  of a connection are sent in order and the messages of a websocket and the requests of HTTP, with the fields and files of their forms, arrive whole,
  whatever the socket does, and the answers are read by a client as they were meant. Where
  the code does not do what it means to, a theorem says when, and the manifest lists it as a finding.

  \<^bold>\<open>Not modelled.\<close> The simulators start with the image loaded, and the message about a wrong password is modelled with one
  tick of the timer, or none, for each turn of its loop. Left out are windows and their refresh, sockets and processes, the tracing and log output; the functions of
  \<open>lcd_utils.c\<close> that are compiled out; of \<open>http.c\<close> the loop that runs the pages, the arguments as numbers and what frees a request; the copies of \<open>libcsv.c\<close> in the other directories; and the parts of
  the repository listed as such in the manifest.
\<close>

end
